(* ===== verification/Linkg_Prelude.thy ===== *)
theory Linkg_Prelude
  imports Main "HOL-Library.Word" "HOL-Library.Multiset"
begin

unbundle bit_operations_syntax

text \<open>
  Prelude of the LinkG development: the machine types of the C sources, the error
  numbers they return, the byte memory behind packet slots, the big-endian field codec
  of the wire formats, the mutex object, and the generic lemmas on lists, words and
  memory that the component theories share.

  Conventions used by every component theory.
  \<^item> \<open>uint8_t\<close>, \<open>uint16_t\<close>, \<open>uint32_t\<close> and \<open>uint64_t\<close> are words of that width, so every
    \<open>+\<close>, \<open>-\<close> and \<open>*\<close> wraps exactly where the C code wraps.
  \<^item> A return code is an \<open>int\<close>; an error is the negated error number, as in the sources.
  \<^item> A pointer that a function compares with \<open>NULL\<close> is an \<open>option\<close>; a pointer to a heap
    object is its address, a natural number.
  \<^item> A \<open>pthread_mutex_t\<close> carries the values its operations answer: a healthy mutex answers
    zero to each of them, and the error branches of the code are reached with other values.
  \<^item> The production build compiles with \<open>NDEBUG\<close> (CMake build type Release), so an
    \<open>assert\<close> does nothing; that the asserted conditions hold is proved instead.
\<close>

section \<open>Machine types, error numbers, mutexes\<close>

type_synonym u8 = "8 word"
type_synonym u16 = "16 word"
type_synonym u32 = "32 word"
type_synonym u64 = "64 word"

abbreviation (input) EPERM :: int where "EPERM \<equiv> 1"
abbreviation (input) ENOENT :: int where "ENOENT \<equiv> 2"
abbreviation (input) ENOMEM :: int where "ENOMEM \<equiv> 12"
abbreviation (input) EBUSY :: int where "EBUSY \<equiv> 16"
abbreviation (input) ENODEV :: int where "ENODEV \<equiv> 19"
abbreviation (input) EINVAL :: int where "EINVAL \<equiv> 22"
abbreviation (input) ENOSPC :: int where "ENOSPC \<equiv> 28"
abbreviation (input) ERANGE :: int where "ERANGE \<equiv> 34"
abbreviation (input) EDEADLK :: int where "EDEADLK \<equiv> 35"
abbreviation (input) EPROTO :: int where "EPROTO \<equiv> 71"
abbreviation (input) EOVERFLOW :: int where "EOVERFLOW \<equiv> 75"
abbreviation (input) EMSGSIZE :: int where "EMSGSIZE \<equiv> 90"
abbreviation (input) ENOBUFS :: int where "ENOBUFS \<equiv> 105"
abbreviation (input) EALREADY :: int where "EALREADY \<equiv> 114"
abbreviation (input) EINPROGRESS :: int where "EINPROGRESS \<equiv> 115"
abbreviation (input) ESTALE :: int where "ESTALE \<equiv> 116"

record mutex =
  mx_lock :: int
  mx_unlock :: int
  mx_destroy :: int

definition mutex_zero :: mutex where
  "mutex_zero = \<lparr>mx_lock = 0, mx_unlock = 0, mx_destroy = 0\<rparr>"

definition mutex_ok :: "mutex \<Rightarrow> bool" where
  "mutex_ok m \<longleftrightarrow> mx_lock m = 0 \<and> mx_unlock m = 0 \<and> mx_destroy m = 0"

lemma mutex_ok_simps [simp]:
  "mutex_ok m \<Longrightarrow> mx_lock m = 0"
  "mutex_ok m \<Longrightarrow> mx_unlock m = 0"
  "mutex_ok m \<Longrightarrow> mx_destroy m = 0"
  "mutex_ok mutex_zero"
  by (auto simp: mutex_ok_def mutex_zero_def)

named_theorems mem_simps \<open>reading and writing the byte memory\<close>
named_theorems be_simps \<open>the big-endian field codec\<close>

section \<open>Word arithmetic without wrap-around\<close>

lemma unat_inc: "unat (w :: 'a::len word) < 2 ^ LENGTH('a) - 1 \<Longrightarrow> unat (w + 1) = unat w + 1"
  by (simp add: unat_word_ariths)

lemma unat_inc_less: "(w :: 'a::len word) < v \<Longrightarrow> unat (w + 1) = unat w + 1"
proof (rule unat_inc)
  assume "w < v"
  moreover have "unat v < 2 ^ LENGTH('a)" by (rule unsigned_less)
  ultimately show "unat w < 2 ^ LENGTH('a) - 1" unfolding word_less_nat_alt by linarith
qed

lemma unat_dec: "(w :: 'a::len word) \<noteq> 0 \<Longrightarrow> unat (w - 1) = unat w - 1"
  by (simp add: unat_minus_one)

lemma unat_pos: "(w :: 'a::len word) \<noteq> 0 \<Longrightarrow> 0 < unat w"
  by (simp add: unat_gt_0)

lemma unat_sub_le: "(v :: 'a::len word) \<le> w \<Longrightarrow> unat (w - v) = unat w - unat v"
  by (rule unat_sub)

lemma unat_add_le: "unat (v + w :: 'a::len word) \<le> unat v + unat w"
  by (simp add: unat_word_ariths)

section \<open>Lists\<close>

lemma last_take_nth: "0 < n \<Longrightarrow> n \<le> length xs \<Longrightarrow> last (take n xs) = xs ! (n - 1)"
  by (cases n) (auto simp: take_Suc_conv_app_nth)

lemma set_butlast_distinct:
  "xs \<noteq> [] \<Longrightarrow> distinct xs \<Longrightarrow> set (butlast xs) = set xs - {last xs} \<and> distinct (butlast xs)"
  by (cases xs rule: rev_cases) auto

section \<open>Byte memory\<close>

text \<open>
  \<open>memcpy\<close> to and from packet slots works on a byte-addressed memory; a write leaves every
  byte outside its range alone, which is what makes aliasing between slots visible.
\<close>

type_synonym memory = "nat \<Rightarrow> u8"

definition mem_write :: "nat \<Rightarrow> u8 list \<Rightarrow> memory \<Rightarrow> memory" where
  "mem_write a bs m = (\<lambda>x. if a \<le> x \<and> x < a + length bs then bs ! (x - a) else m x)"

definition mem_read :: "memory \<Rightarrow> nat \<Rightarrow> nat \<Rightarrow> u8 list" where
  "mem_read m a n = map m [a..<a + n]"

lemma length_mem_read [simp]: "length (mem_read m a n) = n"
  by (simp add: mem_read_def)

lemma nth_mem_read [simp]: "i < n \<Longrightarrow> mem_read m a n ! i = m (a + i)"
  by (simp add: mem_read_def)

lemma mem_read_0 [simp]: "mem_read m a 0 = []"
  by (simp add: mem_read_def)

lemma mem_read_add: "mem_read m a (j + k) = mem_read m a j @ mem_read m (a + j) k"
  by (rule nth_equalityI) (auto simp: nth_append add.assoc)

lemma take_mem_read [mem_simps]: "j \<le> n \<Longrightarrow> take j (mem_read m a n) = mem_read m a j"
  by (rule nth_equalityI) auto

lemma drop_mem_read [mem_simps]: "drop j (mem_read m a n) = mem_read m (a + j) (n - j)"
  by (rule nth_equalityI) (auto simp: add.assoc)

lemma mem_read_write_same [mem_simps]:
  "length bs = n \<Longrightarrow> mem_read (mem_write a bs m) a n = bs"
  by (rule nth_equalityI) (auto simp: mem_write_def)

lemma mem_read_write_other [mem_simps]:
  "b + n \<le> a \<or> a + length bs \<le> b \<Longrightarrow> mem_read (mem_write a bs m) b n = mem_read m b n"
  by (rule nth_equalityI) (auto simp: mem_write_def)

lemma mem_write_outside [mem_simps]:
  "x < a \<or> a + length bs \<le> x \<Longrightarrow> mem_write a bs m x = m x"
  by (auto simp: mem_write_def)

lemma mem_read_cong: "(\<And>x. a \<le> x \<Longrightarrow> x < a + n \<Longrightarrow> m x = m' x) \<Longrightarrow> mem_read m a n = mem_read m' a n"
  by (simp add: mem_read_def)

section \<open>Big-endian fields\<close>

text \<open>
  The composition of \<open>htonl\<close>/\<open>htons\<close> with a \<open>memcpy\<close> of the field: the most significant
  byte comes first in memory on every host.
\<close>

definition be16 :: "u16 \<Rightarrow> u8 list" where
  "be16 w = [ucast (drop_bit 8 w), ucast w]"

definition be32 :: "u32 \<Rightarrow> u8 list" where
  "be32 w = [ucast (drop_bit 24 w), ucast (drop_bit 16 w), ucast (drop_bit 8 w), ucast w]"

definition of_be16 :: "u8 list \<Rightarrow> u16" where
  "of_be16 bs = push_bit 8 (ucast (bs ! 0)) OR ucast (bs ! 1)"

definition of_be32 :: "u8 list \<Rightarrow> u32" where
  "of_be32 bs = push_bit 24 (ucast (bs ! 0)) OR push_bit 16 (ucast (bs ! 1))
     OR push_bit 8 (ucast (bs ! 2)) OR ucast (bs ! 3)"

lemma length_be [simp]: "length (be16 w) = 2" "length (be32 v) = 4"
  by (simp_all add: be16_def be32_def)

lemma of_be16_be16 [simp, be_simps]: "of_be16 (be16 w) = w"
  by (rule bit_word_eqI) (auto simp: of_be16_def be16_def bit_simps)

lemma of_be32_be32 [simp, be_simps]: "of_be32 (be32 w) = w"
proof (rule bit_word_eqI)
  fix n assume "n < LENGTH(32)"
  then consider "n < 8" | "8 \<le> n" "n < 16" | "16 \<le> n" "n < 24" | "24 \<le> n" "n < 32"
    by fastforce
  then show "bit (of_be32 (be32 w)) n = bit w n"
    by cases (auto simp: of_be32_def be32_def bit_simps)
qed

lemma byte_bit_high: "8 \<le> n \<Longrightarrow> \<not> bit (b :: u8) n"
  using bit_imp_le_length [of b n] by auto

lemma be16_of_be16:
  assumes "length bs = 2"
  shows "be16 (of_be16 bs) = bs"
proof -
  from assms obtain a b where bs: "bs = [a, b]"
    by (auto simp: numeral_eq_Suc length_Suc_conv)
  have "ucast (drop_bit 8 (of_be16 bs)) = a" "ucast (of_be16 bs) = b"
    by (auto simp: bs of_be16_def bit_simps byte_bit_high intro!: bit_word_eqI)
  then show ?thesis by (simp add: be16_def bs)
qed

lemma be32_of_be32:
  assumes "length bs = 4"
  shows "be32 (of_be32 bs) = bs"
proof -
  from assms obtain a b c d where bs: "bs = [a, b, c, d]"
    by (auto simp: numeral_eq_Suc length_Suc_conv)
  have "ucast (drop_bit 24 (of_be32 bs)) = a" "ucast (drop_bit 16 (of_be32 bs)) = b"
    "ucast (drop_bit 8 (of_be32 bs)) = c" "ucast (of_be32 bs) = d"
    by (auto simp: bs of_be32_def bit_simps byte_bit_high intro!: bit_word_eqI)
  then show ?thesis by (simp add: be32_def bs)
qed

section \<open>The interface of reference-counted objects\<close>

text \<open>
  Packets and paths are shared by reference counting; the queues, the fragment caches and the
  reorder window take and drop references in bulk. The locale states what a holder may rely on:
  taking and dropping a reference keeps the provider's invariant and moves exactly that count.
\<close>

locale refcount =
  fixes acquire :: "'r \<Rightarrow> 's \<Rightarrow> 's"
    and release :: "'r \<Rightarrow> 's \<Rightarrow> 's"
    and count :: "'s \<Rightarrow> 'r \<Rightarrow> nat"
    and ok :: "'s \<Rightarrow> bool"
    and may_acquire :: "'s \<Rightarrow> 'r \<Rightarrow> bool"
  assumes acquire_ok: "ok s \<Longrightarrow> may_acquire s r \<Longrightarrow> ok (acquire r s)"
    and count_acquire: "ok s \<Longrightarrow> may_acquire s r \<Longrightarrow>
      count (acquire r s) x = (if x = r then count s r + 1 else count s x)"
    and release_ok: "ok s \<Longrightarrow> 0 < count s r \<Longrightarrow> ok (release r s)"
    and count_release: "ok s \<Longrightarrow> 0 < count s r \<Longrightarrow>
      count (release r s) x = (if x = r then count s r - 1 else count s x)"
begin

lemma acquire_release_count:
  "ok s \<Longrightarrow> may_acquire s r \<Longrightarrow> ok (release r (acquire r s)) \<and> count (release r (acquire r s)) = count s"
  by (auto simp: acquire_ok count_acquire release_ok count_release fun_eq_iff)

lemma release_all:
  assumes "ok s" "\<And>r. count_list rs r \<le> count s r"
  shows "ok (fold release rs s) \<and> (\<forall>r. count (fold release rs s) r = count s r - count_list rs r)"
  using assms
proof (induction rs arbitrary: s)
  case (Cons a rs)
  have a: "0 < count s a" using Cons.prems(2) [of a] by simp
  have "ok (fold release rs (release a s)) \<and>
    (\<forall>r. count (fold release rs (release a s)) r = count (release a s) r - count_list rs r)"
  proof (rule Cons.IH)
    show "ok (release a s)" using Cons.prems(1) a by (rule release_ok)
    show "count_list rs r \<le> count (release a s) r" for r
      using Cons.prems(2) [of r] by (auto simp: count_release [OF Cons.prems(1) a] split: if_splits)
  qed
  then show ?case by (auto simp: count_release [OF Cons.prems(1) a])
qed simp

end

end
