(* ===== verification/Packet_Pool.thy ===== *)
theory Packet_Pool
  imports Linkg_Prelude
begin

text \<open>
  The packet memory pool: \<open>src/core/packet/linkg_packet_pool.c\<close> with the inline accessors of
  \<open>src/include/linkg/core/packet/linkg_packet_pool.h\<close>.

  The heap holds packet descriptors and pools by address and the bytes of all slots. A pool
  owns an array of descriptors, a stack of free descriptors (array \<open>free_packets\<close> with
  \<open>free_count\<close>) and a data region cut into slots. Every operation is modelled on every branch,
  the answers of \<open>calloc\<close>, \<open>posix_memalign\<close> and the mutex being inputs.
  The invariant \<open>heap_ok\<close> states that the free stack holds exactly the descriptors with
  reference count zero, each once; all operations keep it under the reference rules the source
  documents, and from it follow that a pool never hands out a packet twice, that the asserts
  cannot fire and that a pool is destroyed only when every packet is home.
\<close>

section \<open>State\<close>

record linkg_packet =
  pk_pool :: "nat option"
  pk_slot :: "nat option"
  pk_reference_count :: u32
  pk_data_offset :: u32
  pk_data_length :: u32
  pk_flags :: u32

record linkg_packet_pool =
  pl_packets :: "nat option"
  pl_free_packets :: "nat list option"
  pl_data_region :: "nat option"
  pl_lock :: mutex
  pl_packet_count :: u32
  pl_slot_size :: u32
  pl_slot_stride :: u32
  pl_headroom :: u32
  pl_free_count :: u32
  pl_initialized :: bool

record linkg_packet_pool_config =
  cf_packet_count :: u32
  cf_slot_size :: u32
  cf_headroom :: u32

record heap =
  pk_at :: "nat \<Rightarrow> linkg_packet"
  pool_at :: "nat \<Rightarrow> linkg_packet_pool"
  byte_at :: memory

definition pool_zero :: linkg_packet_pool where
  "pool_zero = \<lparr>pl_packets = None, pl_free_packets = None, pl_data_region = None,
     pl_lock = mutex_zero, pl_packet_count = 0, pl_slot_size = 0, pl_slot_stride = 0,
     pl_headroom = 0, pl_free_count = 0, pl_initialized = False\<rparr>"

definition upd_pk :: "nat \<Rightarrow> (linkg_packet \<Rightarrow> linkg_packet) \<Rightarrow> heap \<Rightarrow> heap" where
  "upd_pk p f h = h\<lparr>pk_at := (pk_at h)(p := f (pk_at h p))\<rparr>"

definition upd_pool :: "nat \<Rightarrow> (linkg_packet_pool \<Rightarrow> linkg_packet_pool) \<Rightarrow> heap \<Rightarrow> heap" where
  "upd_pool q f h = h\<lparr>pool_at := (pool_at h)(q := f (pool_at h q))\<rparr>"

lemma upd_pk_simps [simp]:
  "pk_at (upd_pk p f h) = (pk_at h)(p := f (pk_at h p))"
  "pool_at (upd_pk p f h) = pool_at h"
  "byte_at (upd_pk p f h) = byte_at h"
  by (simp_all add: upd_pk_def)

lemma upd_pool_simps [simp]:
  "pool_at (upd_pool q g h) = (pool_at h)(q := g (pool_at h q))"
  "pk_at (upd_pool q g h) = pk_at h"
  "byte_at (upd_pool q g h) = byte_at h"
  by (simp_all add: upd_pool_def)

section \<open>Constants and flags\<close>

abbreviation (input) LINKG_PACKET_FLAG_NONE :: u32 where "LINKG_PACKET_FLAG_NONE \<equiv> 0"
abbreviation (input) LINKG_PACKET_FLAG_REALTIME :: u32 where "LINKG_PACKET_FLAG_REALTIME \<equiv> 1"
abbreviation (input) LINKG_PACKET_FLAG_VIDEO :: u32 where "LINKG_PACKET_FLAG_VIDEO \<equiv> 2"
abbreviation (input) LINKG_PACKET_FLAG_TX_GROUP_FIRST :: u32 where "LINKG_PACKET_FLAG_TX_GROUP_FIRST \<equiv> 0x10000"
abbreviation (input) LINKG_PACKET_FLAG_TX_GROUP_LAST :: u32 where "LINKG_PACKET_FLAG_TX_GROUP_LAST \<equiv> 0x20000"
abbreviation (input) LINKG_PACKET_FLAG_TX_GROUP_MASK :: u32 where "LINKG_PACKET_FLAG_TX_GROUP_MASK \<equiv> 0x30000"
abbreviation (input) LINKG_PACKET_SLOT_ALIGNMENT :: u32 where "LINKG_PACKET_SLOT_ALIGNMENT \<equiv> 64"

text \<open>\<open>SIZE_MAX\<close> of the ARMv7 target of \<open>src/toolchains/arm.cmake\<close>.\<close>

definition SIZE_MAX :: nat where
  "SIZE_MAX = 2 ^ 32 - 1"

section \<open>Reference counting\<close>

definition linkg_packet_release_reference :: "nat \<Rightarrow> heap \<Rightarrow> bool \<times> heap" where
  "linkg_packet_release_reference p h =
     (let old_count = pk_reference_count (pk_at h p)
      in (old_count = 1, upd_pk p (\<lambda>k. k\<lparr>pk_reference_count := old_count - 1\<rparr>) h))"

definition linkg_packet_reset :: "nat \<Rightarrow> heap \<Rightarrow> heap" where
  "linkg_packet_reset p h =
     (case pk_pool (pk_at h p) of
        None \<Rightarrow> h
      | Some q \<Rightarrow> upd_pk p (\<lambda>k. k\<lparr>pk_data_offset := pl_headroom (pool_at h q),
                                  pk_data_length := 0, pk_flags := LINKG_PACKET_FLAG_NONE\<rparr>) h)"

definition linkg_packet_retain :: "nat option \<Rightarrow> heap \<Rightarrow> heap" where
  "linkg_packet_retain packet h =
     (case packet of
        None \<Rightarrow> h
      | Some p \<Rightarrow> upd_pk p (\<lambda>k. k\<lparr>pk_reference_count := pk_reference_count k + 1\<rparr>) h)"

definition linkg_packet_release :: "nat option \<Rightarrow> heap \<Rightarrow> heap" where
  "linkg_packet_release packet h =
     (case packet of
        None \<Rightarrow> h
      | Some p \<Rightarrow>
         (case pk_pool (pk_at h p) of
            None \<Rightarrow> h
          | Some q \<Rightarrow>
             (let (last, h1) = linkg_packet_release_reference p h
              in if \<not> last then h1
                 else
                   (let h2 = linkg_packet_reset p h1; pool = pool_at h2 q
                    in if mx_lock (pl_lock pool) \<noteq> 0 then h2
                       else if pl_free_count pool < pl_packet_count pool
                       then upd_pool q (\<lambda>P. P\<lparr>pl_free_packets :=
                               map_option (\<lambda>fs. fs[unat (pl_free_count P) := p]) (pl_free_packets P),
                             pl_free_count := pl_free_count P + 1\<rparr>) h2
                       else h2))))"

fun release_batch_loop :: "nat \<Rightarrow> nat option list \<Rightarrow> heap \<Rightarrow> heap" where
  "release_batch_loop q [] h = h"
| "release_batch_loop q (packet # packets) h =
     (case packet of
        None \<Rightarrow> release_batch_loop q packets h
      | Some p \<Rightarrow>
         (if pk_pool (pk_at h p) \<noteq> Some q then release_batch_loop q packets h
          else
            (let (last, h1) = linkg_packet_release_reference p h
             in if \<not> last then release_batch_loop q packets h1
                else if pl_free_count (pool_at h1 q) \<ge> pl_packet_count (pool_at h1 q)
                then release_batch_loop q packets h1
                else release_batch_loop q packets
                  (upd_pool q (\<lambda>P. P\<lparr>pl_free_packets :=
                       map_option (\<lambda>fs. fs[unat (pl_free_count P) := p]) (pl_free_packets P),
                     pl_free_count := pl_free_count P + 1\<rparr>) (linkg_packet_reset p h1)))))"

definition linkg_packet_pool_release_batch ::
    "nat option \<Rightarrow> nat option list option \<Rightarrow> heap \<Rightarrow> heap" where
  "linkg_packet_pool_release_batch pool packets h =
     (case (pool, packets) of
        (Some q, Some ps) \<Rightarrow>
          if ps = [] then h
          else if mx_lock (pl_lock (pool_at h q)) \<noteq> 0 then h
          else release_batch_loop q ps h
      | _ \<Rightarrow> h)"

section \<open>Allocation\<close>

text \<open>
  \<open>free_packets[--free_count]\<close>; the callers have checked that the stack is not empty.
\<close>

definition pool_pop :: "nat \<Rightarrow> nat list \<Rightarrow> heap \<Rightarrow> nat \<times> heap" where
  "pool_pop q fs h =
     (let fc = pl_free_count (pool_at h q) - 1; p = fs ! unat fc;
          h1 = upd_pool q (\<lambda>P. P\<lparr>pl_free_count := fc\<rparr>) h;
          h2 = linkg_packet_reset p h1
      in (p, upd_pk p (\<lambda>k. k\<lparr>pk_reference_count := 1\<rparr>) h2))"

definition linkg_packet_pool_alloc :: "nat option \<Rightarrow> heap \<Rightarrow> nat option \<times> heap" where
  "linkg_packet_pool_alloc pool h =
     (case pool of
        None \<Rightarrow> (None, h)
      | Some q \<Rightarrow>
         (if \<not> pl_initialized (pool_at h q) then (None, h)
          else case pl_free_packets (pool_at h q) of
             None \<Rightarrow> (None, h)
           | Some fs \<Rightarrow>
              (if mx_lock (pl_lock (pool_at h q)) \<noteq> 0 then (None, h)
               else if pl_free_count (pool_at h q) = 0 then (None, h)
               else (let (p, h') = pool_pop q fs h in (Some p, h')))))"

fun alloc_batch_loop :: "nat \<Rightarrow> nat list \<Rightarrow> nat \<Rightarrow> heap \<Rightarrow> nat list \<times> heap" where
  "alloc_batch_loop q fs 0 h = ([], h)"
| "alloc_batch_loop q fs (Suc n) h =
     (let (p, h1) = pool_pop q fs h; (ps, h2) = alloc_batch_loop q fs n h1 in (p # ps, h2))"

text \<open>
  The result lists the pointers written to \<open>packets[0..]\<close>; its length is the returned count.
\<close>

definition linkg_packet_pool_alloc_batch ::
    "nat option \<Rightarrow> bool \<Rightarrow> u32 \<Rightarrow> heap \<Rightarrow> nat list \<times> heap" where
  "linkg_packet_pool_alloc_batch pool packets_nonnull packet_count h =
     (case pool of
        None \<Rightarrow> ([], h)
      | Some q \<Rightarrow>
         (if \<not> pl_initialized (pool_at h q) then ([], h)
          else case pl_free_packets (pool_at h q) of
             None \<Rightarrow> ([], h)
           | Some fs \<Rightarrow>
              (if \<not> packets_nonnull \<or> packet_count = 0 then ([], h)
               else if mx_lock (pl_lock (pool_at h q)) \<noteq> 0 then ([], h)
               else
                 (let allocated_count = (if packet_count > pl_free_count (pool_at h q)
                                         then pl_free_count (pool_at h q) else packet_count)
                  in alloc_batch_loop q fs (unat allocated_count) h))))"

section \<open>Pool life cycle\<close>

text \<open>What the allocator and the mutex constructor answer to \<open>linkg_packet_pool_init\<close>.\<close>

record pool_env =
  ev_packets :: "nat option"
  ev_free_packets :: bool
  ev_memalign :: int
  ev_region :: nat
  ev_mutex_init :: int
  ev_mutex :: mutex

definition slot_stride_of :: "u32 \<Rightarrow> u32" where
  "slot_stride_of slot_size =
     (slot_size + LINKG_PACKET_SLOT_ALIGNMENT - 1) AND NOT (LINKG_PACKET_SLOT_ALIGNMENT - 1)"

definition pool_init_packet :: "nat \<Rightarrow> nat \<Rightarrow> nat \<Rightarrow> nat \<Rightarrow> heap \<Rightarrow> heap" where
  "pool_init_packet q base region i h =
     (let p = base + i;
          h1 = upd_pk p (\<lambda>k. k\<lparr>pk_pool := Some q,
                 pk_slot := Some (region + i * unat (pl_slot_stride (pool_at h q)))\<rparr>) h;
          h2 = linkg_packet_reset p h1;
          h3 = upd_pk p (\<lambda>k. k\<lparr>pk_reference_count := 0\<rparr>) h2
      in upd_pool q (\<lambda>P. P\<lparr>pl_free_packets := map_option (\<lambda>fs. fs[i := p]) (pl_free_packets P)\<rparr>) h3)"

fun pool_init_loop :: "nat \<Rightarrow> nat \<Rightarrow> nat \<Rightarrow> nat \<Rightarrow> nat \<Rightarrow> heap \<Rightarrow> heap" where
  "pool_init_loop q base region i 0 h = h"
| "pool_init_loop q base region i (Suc n) h =
     pool_init_loop q base region (Suc i) n (pool_init_packet q base region i h)"

definition linkg_packet_pool_init ::
    "nat option \<Rightarrow> linkg_packet_pool_config option \<Rightarrow> pool_env \<Rightarrow> heap \<Rightarrow> int \<times> heap" where
  "linkg_packet_pool_init pool config env h =
     (case (pool, config) of
        (Some q, Some c) \<Rightarrow>
          if pl_initialized (pool_at h q) then (- EALREADY, h)
          else if cf_packet_count c = 0 \<or> cf_slot_size c = 0 then (- EINVAL, h)
          else if cf_headroom c \<ge> cf_slot_size c then (- EINVAL, h)
          else if cf_slot_size c > - 1 - (LINKG_PACKET_SLOT_ALIGNMENT - 1) then (- EOVERFLOW, h)
          else
            (let slot_stride = slot_stride_of (cf_slot_size c) in
             if unat (cf_packet_count c) > SIZE_MAX div unat slot_stride then (- EOVERFLOW, h)
             else
               (let data_region_size = unat (cf_packet_count c) * unat slot_stride;
                    fail = (\<lambda>h. upd_pool q (\<lambda>_. pool_zero) h);
                    h1 = upd_pool q (\<lambda>_. pool_zero\<lparr>pl_packet_count := cf_packet_count c,
                           pl_slot_size := cf_slot_size c, pl_slot_stride := slot_stride,
                           pl_headroom := cf_headroom c\<rparr>) h
                in case ev_packets env of
                     None \<Rightarrow> (- ENOMEM, fail h1)
                   | Some base \<Rightarrow>
                      if \<not> ev_free_packets env then (- ENOMEM, fail h1)
                      else if ev_memalign env \<noteq> 0 then (- ev_memalign env, fail h1)
                      else
                        (let h2 = h1\<lparr>byte_at := mem_write (ev_region env) (replicate data_region_size 0) (byte_at h1)\<rparr>
                         in if ev_mutex_init env \<noteq> 0 then (- ev_mutex_init env, fail h2)
                            else
                              (let h3 = upd_pool q (\<lambda>P. P\<lparr>pl_packets := Some base,
                                     pl_free_packets := Some (replicate (unat (cf_packet_count c)) 0),
                                     pl_data_region := Some (ev_region env),
                                     pl_lock := ev_mutex env\<rparr>) h2;
                                   h4 = pool_init_loop q base (ev_region env) 0 (unat (cf_packet_count c)) h3
                               in (0, upd_pool q (\<lambda>P. P\<lparr>pl_free_count := pl_packet_count P,
                                        pl_initialized := True\<rparr>) h4)))))
      | _ \<Rightarrow> (- EINVAL, h))"

definition linkg_packet_pool_deinit :: "nat option \<Rightarrow> heap \<Rightarrow> int \<times> heap" where
  "linkg_packet_pool_deinit pool h =
     (case pool of
        None \<Rightarrow> (- EINVAL, h)
      | Some q \<Rightarrow>
         (let P = pool_at h q in
          if \<not> pl_initialized P then (0, h)
          else if pl_packets P = None \<or> pl_free_packets P = None \<or> pl_data_region P = None \<or>
                  pl_packet_count P = 0
          then (- EINVAL, h)
          else if mx_lock (pl_lock P) \<noteq> 0 then (- mx_lock (pl_lock P), h)
          else if pl_free_count P \<noteq> pl_packet_count P
          then (if mx_unlock (pl_lock P) \<noteq> 0 then (- mx_unlock (pl_lock P), h) else (- EBUSY, h))
          else if mx_unlock (pl_lock P) \<noteq> 0 then (- mx_unlock (pl_lock P), h)
          else if mx_destroy (pl_lock P) \<noteq> 0 then (- mx_destroy (pl_lock P), h)
          else (0, upd_pool q (\<lambda>_. pool_zero) h)))"

section \<open>Packet accessors\<close>

definition linkg_packet_data :: "nat \<Rightarrow> heap \<Rightarrow> nat option" where
  "linkg_packet_data p h =
     map_option (\<lambda>s. s + unat (pk_data_offset (pk_at h p))) (pk_slot (pk_at h p))"

definition linkg_packet_capacity :: "nat \<Rightarrow> heap \<Rightarrow> u32 option" where
  "linkg_packet_capacity p h =
     map_option (\<lambda>q. pl_slot_size (pool_at h q) - pk_data_offset (pk_at h p)) (pk_pool (pk_at h p))"

definition linkg_packet_headroom :: "nat \<Rightarrow> heap \<Rightarrow> u32" where
  "linkg_packet_headroom p h = pk_data_offset (pk_at h p)"

definition linkg_packet_pull :: "nat option \<Rightarrow> u32 \<Rightarrow> heap \<Rightarrow> nat option \<times> heap" where
  "linkg_packet_pull packet data_size h =
     (case packet of
        None \<Rightarrow> (None, h)
      | Some p \<Rightarrow>
         (if pk_slot (pk_at h p) = None \<or> data_size > pk_data_length (pk_at h p) then (None, h)
          else
            (let h' = upd_pk p (\<lambda>k. k\<lparr>pk_data_offset := pk_data_offset k + data_size,
                                      pk_data_length := pk_data_length k - data_size\<rparr>) h
             in (linkg_packet_data p h', h'))))"

definition linkg_packet_push :: "nat option \<Rightarrow> u32 \<Rightarrow> heap \<Rightarrow> nat option \<times> heap" where
  "linkg_packet_push packet header_size h =
     (case packet of
        None \<Rightarrow> (None, h)
      | Some p \<Rightarrow>
         (if header_size = 0 then (None, h)
          else if header_size > pk_data_offset (pk_at h p) then (None, h)
          else
            (let h' = upd_pk p (\<lambda>k. k\<lparr>pk_data_offset := pk_data_offset k - header_size,
                                      pk_data_length := pk_data_length k + header_size\<rparr>) h
             in (linkg_packet_data p h', h'))))"

definition linkg_packet_is_realtime :: "nat option \<Rightarrow> heap \<Rightarrow> bool" where
  "linkg_packet_is_realtime packet h =
     (case packet of None \<Rightarrow> False
      | Some p \<Rightarrow> pk_flags (pk_at h p) AND LINKG_PACKET_FLAG_REALTIME \<noteq> 0)"

definition linkg_packet_is_video :: "nat option \<Rightarrow> heap \<Rightarrow> bool" where
  "linkg_packet_is_video packet h =
     (case packet of None \<Rightarrow> False
      | Some p \<Rightarrow> pk_flags (pk_at h p) AND LINKG_PACKET_FLAG_VIDEO \<noteq> 0)"

definition linkg_packet_is_data :: "nat option \<Rightarrow> heap \<Rightarrow> bool" where
  "linkg_packet_is_data packet h =
     (case packet of None \<Rightarrow> False
      | Some p \<Rightarrow>
         pk_flags (pk_at h p) AND (LINKG_PACKET_FLAG_REALTIME OR LINKG_PACKET_FLAG_VIDEO) = 0)"

definition linkg_packet_set_realtime :: "nat option \<Rightarrow> bool \<Rightarrow> heap \<Rightarrow> heap" where
  "linkg_packet_set_realtime packet realtime h =
     (case packet of None \<Rightarrow> h
      | Some p \<Rightarrow> upd_pk p (\<lambda>k. k\<lparr>pk_flags :=
          (if realtime
           then (pk_flags k AND NOT LINKG_PACKET_FLAG_VIDEO) OR LINKG_PACKET_FLAG_REALTIME
           else pk_flags k AND NOT LINKG_PACKET_FLAG_REALTIME)\<rparr>) h)"

definition linkg_packet_set_video :: "nat option \<Rightarrow> bool \<Rightarrow> heap \<Rightarrow> heap" where
  "linkg_packet_set_video packet video h =
     (case packet of None \<Rightarrow> h
      | Some p \<Rightarrow> upd_pk p (\<lambda>k. k\<lparr>pk_flags :=
          (if video
           then (pk_flags k AND NOT LINKG_PACKET_FLAG_REALTIME) OR LINKG_PACKET_FLAG_VIDEO
           else pk_flags k AND NOT LINKG_PACKET_FLAG_VIDEO)\<rparr>) h)"

definition linkg_packet_set_data :: "nat option \<Rightarrow> heap \<Rightarrow> heap" where
  "linkg_packet_set_data packet h =
     (case packet of None \<Rightarrow> h
      | Some p \<Rightarrow> upd_pk p (\<lambda>k. k\<lparr>pk_flags :=
          pk_flags k AND NOT (LINKG_PACKET_FLAG_REALTIME OR LINKG_PACKET_FLAG_VIDEO)\<rparr>) h)"

section \<open>The heap invariant\<close>

definition pool_packets :: "linkg_packet_pool \<Rightarrow> nat set" where
  "pool_packets P =
     (case pl_packets P of None \<Rightarrow> {} | Some b \<Rightarrow> {b..<b + unat (pl_packet_count P)})"

definition free_stack :: "linkg_packet_pool \<Rightarrow> nat list" where
  "free_stack P =
     (case pl_free_packets P of None \<Rightarrow> [] | Some fs \<Rightarrow> take (unat (pl_free_count P)) fs)"

definition slot_addr :: "linkg_packet_pool \<Rightarrow> nat \<Rightarrow> nat" where
  "slot_addr P p =
     the (pl_data_region P) + (p - the (pl_packets P)) * unat (pl_slot_stride P)"

definition region_set :: "linkg_packet_pool \<Rightarrow> nat set" where
  "region_set P = (case pl_data_region P of None \<Rightarrow> {}
     | Some r \<Rightarrow> {r..<r + unat (pl_packet_count P) * unat (pl_slot_stride P)})"

definition packet_in_slot :: "linkg_packet_pool \<Rightarrow> linkg_packet \<Rightarrow> bool" where
  "packet_in_slot P k \<longleftrightarrow>
     unat (pk_data_offset k) + unat (pk_data_length k) \<le> unat (pl_slot_size P)"

definition pool_shape :: "linkg_packet_pool \<Rightarrow> bool" where
  "pool_shape P \<longleftrightarrow>
     pl_packets P \<noteq> None \<and> pl_data_region P \<noteq> None \<and> 0 < pl_packet_count P \<and>
     (\<exists>fs. pl_free_packets P = Some fs \<and> length fs = unat (pl_packet_count P)) \<and>
     pl_free_count P \<le> pl_packet_count P \<and>
     pl_headroom P < pl_slot_size P \<and> pl_slot_size P \<le> pl_slot_stride P"

definition pool_ok :: "heap \<Rightarrow> nat \<Rightarrow> bool" where
  "pool_ok h q \<longleftrightarrow>
     (let P = pool_at h q in
      pool_shape P \<and> mutex_ok (pl_lock P) \<and> distinct (free_stack P) \<and>
      set (free_stack P) = {p \<in> pool_packets P. pk_reference_count (pk_at h p) = 0} \<and>
      (\<forall>p\<in>pool_packets P. pk_pool (pk_at h p) = Some q \<and>
         pk_slot (pk_at h p) = Some (slot_addr P p) \<and> packet_in_slot P (pk_at h p)))"

definition heap_ok :: "heap \<Rightarrow> bool" where
  "heap_ok h \<longleftrightarrow>
     (\<forall>q. pl_initialized (pool_at h q) \<longrightarrow> pool_ok h q) \<and>
     (\<forall>q q'. pl_initialized (pool_at h q) \<longrightarrow> pl_initialized (pool_at h q') \<longrightarrow> q \<noteq> q' \<longrightarrow>
        region_set (pool_at h q) \<inter> region_set (pool_at h q') = {})"

text \<open>
  The references held on a packet; zero for an address that is no packet of an initialised pool.
  A packet with references is in use.
\<close>

definition refs :: "heap \<Rightarrow> nat \<Rightarrow> nat" where
  "refs h p =
     (case pk_pool (pk_at h p) of
        None \<Rightarrow> 0
      | Some q \<Rightarrow> if pl_initialized (pool_at h q) \<and> p \<in> pool_packets (pool_at h q)
                  then unat (pk_reference_count (pk_at h p)) else 0)"

lemma pool_frame_simps [simp]:
  "pool_packets (P\<lparr>pl_free_packets := a\<rparr>) = pool_packets P"
  "pool_packets (P\<lparr>pl_free_count := b\<rparr>) = pool_packets P"
  "slot_addr (P\<lparr>pl_free_packets := a\<rparr>) = slot_addr P"
  "slot_addr (P\<lparr>pl_free_count := b\<rparr>) = slot_addr P"
  "packet_in_slot (P\<lparr>pl_free_packets := a\<rparr>) = packet_in_slot P"
  "packet_in_slot (P\<lparr>pl_free_count := b\<rparr>) = packet_in_slot P"
  "region_set (P\<lparr>pl_free_packets := a\<rparr>) = region_set P"
  "region_set (P\<lparr>pl_free_count := b\<rparr>) = region_set P"
  by (auto simp: pool_packets_def slot_addr_def packet_in_slot_def region_set_def fun_eq_iff
      split: option.split)

lemma heap_okD: "heap_ok h \<Longrightarrow> pl_initialized (pool_at h q) \<Longrightarrow> pool_ok h q"
  by (simp add: heap_ok_def)

lemma pool_okD:
  assumes "pool_ok h q"
  shows "pool_shape (pool_at h q)" "distinct (free_stack (pool_at h q))"
    "set (free_stack (pool_at h q)) =
       {p \<in> pool_packets (pool_at h q). pk_reference_count (pk_at h p) = 0}"
    "p \<in> pool_packets (pool_at h q) \<Longrightarrow> pk_pool (pk_at h p) = Some q"
    "p \<in> pool_packets (pool_at h q) \<Longrightarrow> pk_slot (pk_at h p) = Some (slot_addr (pool_at h q) p)"
    "p \<in> pool_packets (pool_at h q) \<Longrightarrow> packet_in_slot (pool_at h q) (pk_at h p)"
    "mutex_ok (pl_lock (pool_at h q))"
  using assms by (auto simp: pool_ok_def Let_def)

lemma refs_pool:
  assumes "heap_ok h" "0 < refs h p"
  obtains q where "pk_pool (pk_at h p) = Some q" "pl_initialized (pool_at h q)" "pool_ok h q"
    "p \<in> pool_packets (pool_at h q)" "pk_reference_count (pk_at h p) \<noteq> 0"
    "refs h p = unat (pk_reference_count (pk_at h p))"
  using assms heap_okD [OF assms(1)]
  by (auto simp: refs_def unat_gt_0 split: option.splits if_splits)

lemma refs_in_pool:
  assumes "heap_ok h" "pl_initialized (pool_at h q)" "p \<in> pool_packets (pool_at h q)"
  shows "refs h p = unat (pk_reference_count (pk_at h p))"
  using assms pool_okD(4) [OF heap_okD] by (simp add: refs_def)

lemma finite_pool_packets [simp]: "finite (pool_packets P)"
  by (simp add: pool_packets_def split: option.split)

lemma card_pool_packets:
  "pl_packets P \<noteq> None \<Longrightarrow> card (pool_packets P) = unat (pl_packet_count P)"
  by (auto simp: pool_packets_def)

lemma length_free_stack:
  "pool_shape P \<Longrightarrow> length (free_stack P) = unat (pl_free_count P)"
  by (auto simp: pool_shape_def free_stack_def word_le_nat_alt)

lemma free_count_card:
  assumes "pool_ok h q"
  shows "unat (pl_free_count (pool_at h q)) =
    card {p \<in> pool_packets (pool_at h q). pk_reference_count (pk_at h p) = 0}"
  using pool_okD [OF assms] distinct_card length_free_stack by metis

text \<open>A change of descriptors that keeps owner, slot, bounds and the zero count keeps the invariant.\<close>

lemma pool_ok_frame:
  assumes "pool_ok h q" "pool_at h' q = pool_at h q"
    and "\<And>p. p \<in> pool_packets (pool_at h q) \<Longrightarrow>
      pk_pool (pk_at h' p) = pk_pool (pk_at h p) \<and> pk_slot (pk_at h' p) = pk_slot (pk_at h p) \<and>
      packet_in_slot (pool_at h q) (pk_at h' p) \<and>
      (pk_reference_count (pk_at h' p) = 0 \<longleftrightarrow> pk_reference_count (pk_at h p) = 0)"
  shows "pool_ok h' q"
  using assms unfolding pool_ok_def Let_def by auto

lemma heap_ok_frame:
  assumes "heap_ok h" "pool_at h' = pool_at h"
    and "\<And>q p. pl_initialized (pool_at h q) \<Longrightarrow> p \<in> pool_packets (pool_at h q) \<Longrightarrow>
      pk_pool (pk_at h' p) = pk_pool (pk_at h p) \<and> pk_slot (pk_at h' p) = pk_slot (pk_at h p) \<and>
      packet_in_slot (pool_at h q) (pk_at h' p) \<and>
      (pk_reference_count (pk_at h' p) = 0 \<longleftrightarrow> pk_reference_count (pk_at h p) = 0)"
  shows "heap_ok h'"
proof -
  have "pool_ok h' q" if "pl_initialized (pool_at h q)" for q
    using assms that by (intro pool_ok_frame [of h q h']) (auto simp: heap_ok_def)
  then show ?thesis using assms(1,2) by (simp add: heap_ok_def)
qed

text \<open>A change inside one pool, for the operations that move a packet to or from the stack.\<close>

lemma heap_ok_one_pool:
  assumes "heap_ok h" "pl_initialized (pool_at h q)" "pool_ok h' q"
    and "\<And>q'. q' \<noteq> q \<Longrightarrow> pool_at h' q' = pool_at h q'"
    and "\<And>p. pk_pool (pk_at h p) \<noteq> Some q \<Longrightarrow> pk_at h' p = pk_at h p"
    and "region_set (pool_at h' q) = region_set (pool_at h q)"
  shows "heap_ok h'"
proof -
  have "pool_ok h' q'" if "pl_initialized (pool_at h' q')" for q'
  proof (cases "q' = q")
    case False
    with that assms(4) have ok: "pool_ok h q'" using heap_okD [OF assms(1)] by simp
    have "pk_at h' p = pk_at h p" if "p \<in> pool_packets (pool_at h q')" for p
      using assms(5) pool_okD(4) [OF ok that] False by auto
    then show ?thesis
      using ok assms(4) [OF False] pool_okD(6) [OF ok] by (intro pool_ok_frame [OF ok]) auto
  qed (simp add: assms(3))
  moreover have "region_set (pool_at h' a) = region_set (pool_at h a)" for a
    using assms(4,6) by (cases "a = q") auto
  moreover have "pl_initialized (pool_at h' a) \<Longrightarrow> pl_initialized (pool_at h a)" for a
    using assms(2,4) by (cases "a = q") auto
  ultimately show ?thesis using assms(1) by (auto simp: heap_ok_def)
qed

section \<open>Reference operations keep the invariant\<close>

lemma heap_ok_retain:
  assumes "heap_ok h" "0 < refs h p" "refs h p < 2 ^ 32 - 1"
  shows "heap_ok (linkg_packet_retain (Some p) h)"
proof -
  from refs_pool [OF assms(1,2)] have "pk_reference_count (pk_at h p) \<noteq> 0"
    "refs h p = unat (pk_reference_count (pk_at h p))" by metis+
  moreover from this(2) have "pk_reference_count (pk_at h p) + 1 \<noteq> 0"
    using unat_inc [of "pk_reference_count (pk_at h p)"] assms(3) by auto
  ultimately show ?thesis
    using heap_okD [OF assms(1), THEN pool_okD(6)]
    by (intro heap_ok_frame [OF assms(1)])
      (auto simp: linkg_packet_retain_def packet_in_slot_def)
qed

lemma refs_retain:
  assumes "refs h p < 2 ^ 32 - 1" "0 < refs h p"
  shows "refs (linkg_packet_retain (Some p) h) x = (if x = p then refs h p + 1 else refs h x)"
  using assms
  by (auto simp: refs_def linkg_packet_retain_def unat_word_ariths split: option.splits if_splits)

lemma free_count_less:
  assumes "pool_ok h q" "p \<in> pool_packets (pool_at h q)" "pk_reference_count (pk_at h p) \<noteq> 0"
  shows "pl_free_count (pool_at h q) < pl_packet_count (pool_at h q)"
proof -
  let ?P = "pool_at h q"
  have "{p \<in> pool_packets ?P. pk_reference_count (pk_at h p) = 0} \<subset> pool_packets ?P"
    using assms(2,3) by auto
  then have "unat (pl_free_count ?P) < card (pool_packets ?P)"
    unfolding free_count_card [OF assms(1)] by (intro psubset_card_mono) auto
  then show ?thesis
    using pool_okD(1) [OF assms(1)] by (simp add: card_pool_packets pool_shape_def word_less_nat_alt)
qed

lemma reset_simps [simp]:
  "pool_at (linkg_packet_reset p h) = pool_at h"
  "byte_at (linkg_packet_reset p h) = byte_at h"
  "x \<noteq> p \<Longrightarrow> pk_at (linkg_packet_reset p h) x = pk_at h x"
  "pk_pool (pk_at (linkg_packet_reset p h) x) = pk_pool (pk_at h x)"
  "pk_slot (pk_at (linkg_packet_reset p h) x) = pk_slot (pk_at h x)"
  "pk_reference_count (pk_at (linkg_packet_reset p h) x) = pk_reference_count (pk_at h x)"
  by (simp_all add: linkg_packet_reset_def split: option.split)

lemma reset_in_slot:
  assumes "pk_pool (pk_at h p) = Some q" "pool_shape (pool_at h q)"
  shows "packet_in_slot (pool_at h q) (pk_at (linkg_packet_reset p h) p)"
  using assms by (simp add: linkg_packet_reset_def packet_in_slot_def pool_shape_def word_less_nat_alt)

text \<open>The push on the free stack shared by the single and the batch release.\<close>

definition pool_push :: "nat \<Rightarrow> nat \<Rightarrow> heap \<Rightarrow> heap" where
  "pool_push q p h = upd_pool q (\<lambda>P. P\<lparr>pl_free_packets :=
       map_option (\<lambda>fs. fs[unat (pl_free_count P) := p]) (pl_free_packets P),
     pl_free_count := pl_free_count P + 1\<rparr>) (linkg_packet_reset p
       (upd_pk p (\<lambda>k. k\<lparr>pk_reference_count := 0\<rparr>) h))"

lemma free_stack_push:
  assumes "pool_shape P" "pl_free_count P < pl_packet_count P"
  shows "free_stack (P\<lparr>pl_free_packets :=
       map_option (\<lambda>fs. fs[unat (pl_free_count P) := p]) (pl_free_packets P),
     pl_free_count := pl_free_count P + 1\<rparr>) = free_stack P @ [p]"
  using assms unat_inc_less [OF assms(2)]
  by (auto simp: pool_shape_def free_stack_def take_Suc_conv_app_nth word_less_nat_alt)

lemma pool_ok_push:
  assumes "pool_ok h q" "p \<in> pool_packets (pool_at h q)" "pk_reference_count (pk_at h p) \<noteq> 0"
  shows "pool_ok (pool_push q p h) q"
proof -
  let ?P = "pool_at h q" and ?P' = "pool_at (pool_push q p h) q"
  note ok = pool_okD [OF assms(1)]
  have less: "pl_free_count ?P < pl_packet_count ?P"
    using assms by (rule free_count_less)
  have "pool_shape ?P'"
    using ok(1) less unat_inc_less [OF less]
    by (auto simp: pool_shape_def pool_push_def word_less_nat_alt word_le_nat_alt)
  moreover have fs: "free_stack ?P' = free_stack ?P @ [p]"
    using free_stack_push [OF ok(1) less] by (simp add: pool_push_def)
  moreover have "p \<notin> set (free_stack ?P)"
    using assms(3) by (simp add: ok(3))
  moreover have "packet_in_slot ?P (pk_at (pool_push q p h) x)" if "x \<in> pool_packets ?P" for x
    using that ok(1,4,6) reset_in_slot [of "upd_pk p (\<lambda>k. k\<lparr>pk_reference_count := 0\<rparr>) h" p q] assms(2)
    by (cases "x = p") (auto simp: pool_push_def)
  ultimately show ?thesis
    using ok(2,3,4,5,7) assms(2) by (auto simp: pool_ok_def Let_def pool_push_def)
qed

lemma heap_ok_push:
  assumes "heap_ok h" "pl_initialized (pool_at h q)"
    "p \<in> pool_packets (pool_at h q)" "pk_reference_count (pk_at h p) \<noteq> 0"
  shows "heap_ok (pool_push q p h)"
proof (rule heap_ok_one_pool [OF assms(1,2)])
  show "pool_ok (pool_push q p h) q"
    using assms by (intro pool_ok_push heap_okD)
  show "pk_at (pool_push q p h) x = pk_at h x" if "pk_pool (pk_at h x) \<noteq> Some q" for x
    using that pool_okD(4) [OF heap_okD [OF assms(1,2)] assms(3)]
    by (cases "x = p") (auto simp: pool_push_def)
qed (auto simp: pool_push_def)

text \<open>A release either drops the count or, at the last reference, pushes the packet back.\<close>

lemma release_cases:
  assumes "heap_ok h" "0 < refs h p" "pk_pool (pk_at h p) = Some q"
  shows "linkg_packet_release (Some p) h =
     (if refs h p = 1 then pool_push q p h
      else upd_pk p (\<lambda>k. k\<lparr>pk_reference_count := pk_reference_count k - 1\<rparr>) h)"
proof -
  from refs_pool [OF assms(1,2)] assms(3) have ok: "pool_ok h q" "p \<in> pool_packets (pool_at h q)"
    "pk_reference_count (pk_at h p) \<noteq> 0" "refs h p = unat (pk_reference_count (pk_at h p))"
    by (metis option.inject)+
  then have "pl_free_count (pool_at h q) < pl_packet_count (pool_at h q)"
    by (intro free_count_less)
  moreover have "refs h p = 1 \<longleftrightarrow> pk_reference_count (pk_at h p) = 1"
    by (metis ok(4) unat_1 unsigned_word_eqI)
  ultimately show ?thesis
    using assms(3) pool_okD(7) [OF ok(1)]
    by (simp add: linkg_packet_release_def linkg_packet_release_reference_def Let_def pool_push_def)
qed

lemma heap_ok_release:
  assumes "heap_ok h" "0 < refs h p"
  shows "heap_ok (linkg_packet_release (Some p) h)"
proof -
  from refs_pool [OF assms] obtain q where q: "pk_pool (pk_at h p) = Some q"
    "pl_initialized (pool_at h q)" "p \<in> pool_packets (pool_at h q)"
    "pk_reference_count (pk_at h p) \<noteq> 0" "refs h p = unat (pk_reference_count (pk_at h p))" .
  show ?thesis
  proof (cases "refs h p = 1")
    case True
    then show ?thesis using release_cases [OF assms q(1)] heap_ok_push [OF assms(1) q(2-4)] by simp
  next
    case False
    then have "pk_reference_count (pk_at h p) - 1 \<noteq> 0"
      using q(4,5) unat_dec [OF q(4)] by fastforce
    with False q(4) show ?thesis
      using release_cases [OF assms q(1)] heap_okD [OF assms(1), THEN pool_okD(6)]
      by (auto intro!: heap_ok_frame [OF assms(1)] simp: packet_in_slot_def split: if_splits)
  qed
qed

lemma refs_push:
  "refs (pool_push q p h) x = (if x = p then 0 else refs h x)"
  by (auto simp: refs_def pool_push_def split: option.split)

lemma refs_release:
  assumes "heap_ok h" "0 < refs h p"
  shows "refs (linkg_packet_release (Some p) h) x = (if x = p then refs h p - 1 else refs h x)"
proof -
  from refs_pool [OF assms] obtain q where q: "pk_pool (pk_at h p) = Some q"
    "pk_reference_count (pk_at h p) \<noteq> 0" .
  show ?thesis
    using release_cases [OF assms q(1)] unat_dec [OF q(2)] assms(2)
    by (auto simp: refs_push) (auto simp: refs_def split: option.splits if_splits)
qed

section \<open>Allocation keeps the invariant and never hands out a packet in use\<close>

lemma pop_facts:
  assumes "pool_ok h q" "pl_free_packets (pool_at h q) = Some fs" "pl_free_count (pool_at h q) \<noteq> 0"
    and "pool_pop q fs h = (p, h')"
  shows "p = last (free_stack (pool_at h q))" "p \<in> pool_packets (pool_at h q)"
    "pk_reference_count (pk_at h p) = 0"
    "free_stack (pool_at h' q) = butlast (free_stack (pool_at h q))"
    "pool_at h' = (pool_at h)(q := (pool_at h q)\<lparr>pl_free_count := pl_free_count (pool_at h q) - 1\<rparr>)"
    "x \<noteq> p \<Longrightarrow> pk_at h' x = pk_at h x"
    "pk_at h' p = (pk_at h p)\<lparr>pk_reference_count := 1, pk_data_offset := pl_headroom (pool_at h q),
       pk_data_length := 0, pk_flags := 0\<rparr>"
proof -
  let ?P = "pool_at h q" and ?n = "unat (pl_free_count (pool_at h q))"
  note ok = pool_okD [OF assms(1)]
  have n: "?n \<le> length fs" "0 < ?n" "unat (pl_free_count ?P - 1) = ?n - 1"
    using ok(1) assms(2,3) unat_dec [OF assms(3)]
    by (auto simp: pool_shape_def word_le_nat_alt unat_gt_0)
  have stack: "free_stack ?P = take ?n fs" by (simp add: free_stack_def assms(2))
  have p: "p = fs ! (?n - 1)"
    using assms(4) n(3) by (auto simp: pool_pop_def Let_def)
  have pl: "p = last (free_stack ?P)" "free_stack ?P \<noteq> []"
    using n p by (auto simp: stack last_take_nth)
  then have "p \<in> set (free_stack ?P)" by simp
  then have inp: "p \<in> pool_packets ?P" "pk_reference_count (pk_at h p) = 0" by (auto simp: ok(3))
  have pool: "pk_pool (pk_at h p) = Some q" using ok(4) inp(1) .
  show "p = last (free_stack ?P)" "p \<in> pool_packets ?P" "pk_reference_count (pk_at h p) = 0"
    using pl(1) inp by auto
  show "free_stack (pool_at h' q) = butlast (free_stack ?P)"
    using assms(4) n by (auto simp: pool_pop_def Let_def free_stack_def assms(2) butlast_take)
  show "pool_at h' = (pool_at h)(q := ?P\<lparr>pl_free_count := pl_free_count ?P - 1\<rparr>)"
    using assms(4) by (auto simp: pool_pop_def Let_def)
  show "pk_at h' x = pk_at h x" if "x \<noteq> p"
    using assms(4) that by (auto simp: pool_pop_def Let_def)
  show "pk_at h' p = (pk_at h p)\<lparr>pk_reference_count := 1, pk_data_offset := pl_headroom ?P,
       pk_data_length := 0, pk_flags := 0\<rparr>"
    using assms(4) pool by (auto simp: pool_pop_def Let_def linkg_packet_reset_def p [symmetric])
qed

lemma pool_ok_pop:
  assumes "pool_ok h q" "pl_free_packets (pool_at h q) = Some fs" "pl_free_count (pool_at h q) \<noteq> 0"
    and "pool_pop q fs h = (p, h')"
  shows "pool_ok h' q"
proof -
  note ok = pool_okD [OF assms(1)] and pop = pop_facts [OF assms]
  let ?s = "free_stack (pool_at h q)"
  have ne: "?s \<noteq> []"
    using length_free_stack [OF ok(1)] assms(3) by (metis length_0_conv unat_eq_zero)
  have "set (butlast ?s) = set ?s - {p}" "distinct (butlast ?s)"
    using set_butlast_distinct [OF ne ok(2)] pop(1) by auto
  moreover have "pl_free_count (pool_at h q) - 1 \<le> pl_packet_count (pool_at h q)"
    using ok(1) unat_dec [OF assms(3)] by (auto simp: pool_shape_def word_le_nat_alt)
  moreover have "packet_in_slot (pool_at h q) (pk_at h' x)" if "x \<in> pool_packets (pool_at h q)" for x
    using that pop(6,7) ok(1,6)
    by (cases "x = p") (auto simp: packet_in_slot_def pool_shape_def word_less_nat_alt)
  moreover have "pk_pool (pk_at h' x) = pk_pool (pk_at h x) \<and> pk_slot (pk_at h' x) = pk_slot (pk_at h x)" for x
    using pop(6,7) by (cases "x = p") auto
  moreover have "pk_reference_count (pk_at h' x) = 0 \<longleftrightarrow> pk_reference_count (pk_at h x) = 0 \<and> x \<noteq> p" for x
    using pop(6,7) by (cases "x = p") auto
  ultimately show ?thesis
    using ok(1,3,4,5,7) pop(4,5) by (auto simp: pool_ok_def Let_def pool_shape_def)
qed

lemma heap_ok_pop:
  assumes "heap_ok h" "pl_initialized (pool_at h q)" "pl_free_packets (pool_at h q) = Some fs"
    and "pl_free_count (pool_at h q) \<noteq> 0" "pool_pop q fs h = (p, h')"
  shows "heap_ok h'"
proof -
  note ok = heap_okD [OF assms(1,2)]
  note pop = pop_facts [OF ok assms(3-5)]
  show ?thesis
  proof (rule heap_ok_one_pool [OF assms(1,2)])
    show "pool_ok h' q" by (rule pool_ok_pop [OF ok assms(3-5)])
    show "pk_at h' x = pk_at h x" if "pk_pool (pk_at h x) \<noteq> Some q" for x
      using that pop(2,6) pool_okD(4) [OF ok] by metis
  qed (simp_all add: pop(5))
qed

lemma refs_pop:
  assumes "heap_ok h" "pl_initialized (pool_at h q)" "pl_free_packets (pool_at h q) = Some fs"
    and "pl_free_count (pool_at h q) \<noteq> 0" "pool_pop q fs h = (p, h')"
  shows "refs h p = 0" "refs h' x = (if x = p then 1 else refs h x)"
proof -
  note ok = heap_okD [OF assms(1,2)]
  note pop = pop_facts [OF ok assms(3-5)]
  show "refs h p = 0" using refs_in_pool [OF assms(1,2) pop(2)] pop(3) by simp
  have "pool_packets (pool_at h' q') = pool_packets (pool_at h q') \<and>
    pl_initialized (pool_at h' q') = pl_initialized (pool_at h q')" for q'
    by (simp add: pop(5))
  then show "refs h' x = (if x = p then 1 else refs h x)"
    using pop(2,6,7) assms(2) pool_okD(4) [OF ok pop(2)]
    by (cases "x = p") (auto simp: refs_def split: option.splits)
qed

lemma alloc_ok_pool:
  assumes "heap_ok h" "pl_initialized (pool_at h q)"
  obtains fs where "pl_free_packets (pool_at h q) = Some fs" "mx_lock (pl_lock (pool_at h q)) = 0"
  using pool_okD(1,7) [OF heap_okD [OF assms]] by (auto simp: pool_shape_def)

text \<open>The batch allocation is the single allocation, repeated while it succeeds.\<close>

fun alloc_repeat :: "nat \<Rightarrow> nat \<Rightarrow> heap \<Rightarrow> nat list \<times> heap" where
  "alloc_repeat q 0 h = ([], h)"
| "alloc_repeat q (Suc n) h =
     (case linkg_packet_pool_alloc (Some q) h of
        (None, h') \<Rightarrow> ([], h')
      | (Some p, h') \<Rightarrow> (let (ps, h2) = alloc_repeat q n h' in (p # ps, h2)))"

lemma alloc_batch_loop_repeat:
  assumes "heap_ok h" "pl_initialized (pool_at h q)" "pl_free_packets (pool_at h q) = Some fs"
  shows "alloc_batch_loop q fs (min n (unat (pl_free_count (pool_at h q)))) h = alloc_repeat q n h"
  using assms
proof (induction n arbitrary: h)
  case (Suc n)
  show ?case
  proof (cases "pl_free_count (pool_at h q) = 0")
    case True
    then show ?thesis using Suc.prems by (simp add: linkg_packet_pool_alloc_def)
  next
    case False
    obtain p h' where pop: "pool_pop q fs h = (p, h')" by fastforce
    from alloc_ok_pool [OF Suc.prems(1,2)] have "mx_lock (pl_lock (pool_at h q)) = 0" by metis
    then have alloc: "linkg_packet_pool_alloc (Some q) h = (Some p, h')"
      using Suc.prems False pop by (simp add: linkg_packet_pool_alloc_def)
    note at = pop_facts(5) [OF heap_okD [OF Suc.prems(1,2)] Suc.prems(3) False pop]
    have "min (Suc n) (unat (pl_free_count (pool_at h q))) =
        Suc (min n (unat (pl_free_count (pool_at h' q))))"
      using unat_dec [OF False] unat_pos [OF False] by (simp add: at)
    moreover have "alloc_batch_loop q fs (min n (unat (pl_free_count (pool_at h' q)))) h' = alloc_repeat q n h'"
      using Suc.prems(2,3) by (intro Suc.IH heap_ok_pop [OF Suc.prems False pop]) (simp_all add: at)
    ultimately show ?thesis by (simp add: pop alloc)
  qed
qed simp

section \<open>The pool as a provider of reference-counted packets\<close>

interpretation pkt: refcount "\<lambda>p. linkg_packet_retain (Some p)" "\<lambda>p. linkg_packet_release (Some p)"
    refs heap_ok "\<lambda>h p. 0 < refs h p \<and> refs h p < 2 ^ 32 - 1"
  by unfold_locales (auto simp: heap_ok_retain refs_retain heap_ok_release refs_release)

lemma release_None [simp]: "linkg_packet_release None h = h" "linkg_packet_retain None h = h"
  by (simp_all add: linkg_packet_release_def linkg_packet_retain_def)

lemma pk_pool_release [simp]: "pk_pool (pk_at (linkg_packet_release p h) x) = pk_pool (pk_at h x)"
  by (simp add: linkg_packet_release_def linkg_packet_release_reference_def Let_def split: option.split)

lemma release_batch_step:
  assumes "heap_ok h" "0 < refs h p" "pk_pool (pk_at h p) = Some q"
  shows "release_batch_loop q (Some p # ps) h = release_batch_loop q ps (linkg_packet_release (Some p) h)"
proof -
  from refs_pool [OF assms(1,2)] assms(3) have ok: "pool_ok h q" "p \<in> pool_packets (pool_at h q)"
    "pk_reference_count (pk_at h p) \<noteq> 0"
    by (metis option.inject)+
  show ?thesis
    using assms(3) free_count_less [OF ok] pool_okD(7) [OF ok(1)]
    by (simp add: linkg_packet_release_def linkg_packet_release_reference_def Let_def)
qed

lemma release_batch_loop_fold:
  assumes "heap_ok h" "\<And>p. Some p \<in> set ps \<Longrightarrow> pk_pool (pk_at h p) = Some q"
    and "\<And>p. count_list ps (Some p) \<le> refs h p"
  shows "release_batch_loop q ps h = fold linkg_packet_release ps h"
  using assms
proof (induction ps arbitrary: h)
  case (Cons x ps)
  show ?case
  proof (cases x)
    case None
    with Cons.prems show ?thesis by (auto intro: Cons.IH)
  next
    case (Some p)
    have p: "0 < refs h p" "pk_pool (pk_at h p) = Some q"
      using Cons.prems(3) [of p] Cons.prems(2) [of p] Some by auto
    have "count_list ps (Some y) \<le> refs (linkg_packet_release (Some p) h) y" for y
      using Cons.prems(3) [of y] refs_release [OF Cons.prems(1) p(1), of y] Some by (auto split: if_splits)
    then show ?thesis
      using Cons.prems(1,2) p heap_ok_release
      by (simp add: Some release_batch_step del: release_batch_loop.simps) (auto intro!: Cons.IH)
  qed
qed simp

lemma fold_release_somes:
  "fold linkg_packet_release ps h = fold (\<lambda>p. linkg_packet_release (Some p)) (List.map_filter id ps) h"
  by (induction ps arbitrary: h) (auto simp: List.map_filter_simps split: option.split)

lemma count_list_somes: "count_list (List.map_filter id ps) p = count_list ps (Some p)"
  by (induction ps) (auto simp: List.map_filter_simps split: option.split)

section \<open>Properties\<close>

text \<open>
  C40. Allocation is exclusive: a packet returned by \<open>linkg_packet_pool_alloc\<close> was held by nobody,
  is now held once, is empty behind the configured headroom, and no other packet's reference count
  changes; the heap invariant is kept.
\<close>

theorem pool_alloc_exclusive:
  assumes "heap_ok h" "linkg_packet_pool_alloc (Some q) h = (Some p, h')"
  shows "heap_ok h' \<and> refs h p = 0 \<and> (\<forall>x. refs h' x = (if x = p then 1 else refs h x)) \<and>
     p \<in> pool_packets (pool_at h q) \<and> pk_data_length (pk_at h' p) = 0 \<and>
     pk_data_offset (pk_at h' p) = pl_headroom (pool_at h q)"
proof -
  from assms(2) obtain fs where fs: "pl_initialized (pool_at h q)"
    "pl_free_packets (pool_at h q) = Some fs" "pl_free_count (pool_at h q) \<noteq> 0"
    "pool_pop q fs h = (p, h')"
    by (auto simp: linkg_packet_pool_alloc_def split: if_splits option.splits prod.splits)
  note facts = pop_facts [OF heap_okD [OF assms(1) fs(1)] fs(2-4)]
  show ?thesis
    using heap_ok_pop [OF assms(1) fs] refs_pop [OF assms(1) fs] facts(2,7) by simp
qed

text \<open>
  Allocation fails on an initialised pool exactly when every packet of the pool is held.
\<close>

theorem pool_alloc_exhausted:
  assumes "heap_ok h" "pl_initialized (pool_at h q)"
  shows "fst (linkg_packet_pool_alloc (Some q) h) = None \<longleftrightarrow>
     (\<forall>p. p \<in> pool_packets (pool_at h q) \<longrightarrow> 0 < refs h p)"
proof -
  obtain fs where fs: "pl_free_packets (pool_at h q) = Some fs" "mx_lock (pl_lock (pool_at h q)) = 0"
    using alloc_ok_pool [OF assms] .
  have "fst (linkg_packet_pool_alloc (Some q) h) = None \<longleftrightarrow> unat (pl_free_count (pool_at h q)) = 0"
    using assms(2) fs by (simp add: linkg_packet_pool_alloc_def unat_gt_0 split: prod.split)
  also have "\<dots> \<longleftrightarrow> {p \<in> pool_packets (pool_at h q). pk_reference_count (pk_at h p) = 0} = {}"
    by (simp add: free_count_card [OF heap_okD [OF assms]])
  also have "\<dots> \<longleftrightarrow> (\<forall>p. p \<in> pool_packets (pool_at h q) \<longrightarrow> 0 < refs h p)"
    using refs_in_pool [OF assms] by (auto simp: unat_gt_0)
  finally show ?thesis .
qed

section \<open>Initialisation establishes the invariant\<close>

lemma and_not_mask6: "(w :: u32) AND NOT (mask 6) = push_bit 6 (drop_bit 6 w)"
  by (rule bit_word_eqI) (auto simp: bit_simps)

lemma unat_slot_stride:
  assumes "\<not> slot_size > - 1 - (LINKG_PACKET_SLOT_ALIGNMENT - 1)"
  shows "unat (slot_stride_of slot_size) = (unat slot_size + 63) div 64 * 64"
proof -
  have le: "unat slot_size + 63 < 2 ^ 32"
    using assms by (simp add: word_less_nat_alt not_less word_le_nat_alt)
  have s: "unat (slot_size + 63) = unat slot_size + 63"
    using le by (simp add: unat_word_ariths)
  have "slot_stride_of slot_size = push_bit 6 (drop_bit 6 (slot_size + 63))"
  proof -
    have "slot_size + LINKG_PACKET_SLOT_ALIGNMENT - 1 = slot_size + 63"
      "LINKG_PACKET_SLOT_ALIGNMENT - 1 = mask 6" by (simp_all add: mask_eq_exp_minus_1)
    then show ?thesis unfolding slot_stride_of_def by (simp only: and_not_mask6)
  qed
  then have "unat (slot_stride_of slot_size) = (unat (slot_size + 63) div 64 * 64) mod 2 ^ 32"
    by (simp add: push_bit_eq_mult drop_bit_eq_div unat_word_ariths unat_div)
  moreover have "(unat slot_size + 63) div 64 * 64 < 2 ^ 32" using le by (simp add: div_times_less_eq_dividend le_less_trans)
  ultimately show ?thesis by (simp add: s)
qed

lemma pool_init_packet_simps:
  "pool_at (pool_init_packet q base region i h) = (pool_at h)(q := (pool_at h q)\<lparr>pl_free_packets :=
     map_option (\<lambda>fs. fs[i := base + i]) (pl_free_packets (pool_at h q))\<rparr>)"
  "byte_at (pool_init_packet q base region i h) = byte_at h"
  "pk_at (pool_init_packet q base region i h) = (pk_at h)(base + i := (pk_at h (base + i))\<lparr>pk_pool := Some q,
     pk_slot := Some (region + i * unat (pl_slot_stride (pool_at h q))),
     pk_data_offset := pl_headroom (pool_at h q), pk_data_length := 0, pk_flags := 0,
     pk_reference_count := 0\<rparr>)"
  by (simp_all add: pool_init_packet_def Let_def linkg_packet_reset_def)

lemma pool_init_loop_pk:
  "pk_at (pool_init_loop q base region i n h) x =
     (if base + i \<le> x \<and> x < base + i + n
      then (pk_at h x)\<lparr>pk_pool := Some q,
        pk_slot := Some (region + (x - base) * unat (pl_slot_stride (pool_at h q))),
        pk_data_offset := pl_headroom (pool_at h q), pk_data_length := 0, pk_flags := 0,
        pk_reference_count := 0\<rparr>
      else pk_at h x)"
  by (induction q base region i n h rule: pool_init_loop.induct)
    (auto simp: pool_init_packet_simps)

lemma pool_init_loop_pool:
  assumes "pl_free_packets (pool_at h q) = Some fs" "length fs = i + n"
    and "take i fs = map ((+) base) [0..<i]"
  shows "pool_at (pool_init_loop q base region i n h) =
    (pool_at h)(q := (pool_at h q)\<lparr>pl_free_packets := Some (map ((+) base) [0..<i + n])\<rparr>)"
  using assms
proof (induction q base region i n h arbitrary: fs rule: pool_init_loop.induct)
  case (2 q base region i n h)
  have "take (Suc i) (fs[i := base + i]) = map ((+) base) [0..<Suc i]"
    using 2(3,4) by (simp add: take_Suc_conv_app_nth)
  then show ?case
    using 2(2,3) by (subst pool_init_loop.simps, subst "2.IH") (auto simp: pool_init_packet_simps)
qed auto

text \<open>What \<open>calloc\<close> and \<open>posix_memalign\<close> promise: fresh memory, and a healthy mutex.\<close>

definition env_fresh :: "pool_env \<Rightarrow> linkg_packet_pool_config \<Rightarrow> heap \<Rightarrow> bool" where
  "env_fresh env c h \<longleftrightarrow>
     mutex_ok (ev_mutex env) \<and> 64 dvd ev_region env \<and>
     (\<forall>q. pl_initialized (pool_at h q) \<longrightarrow>
        {the (ev_packets env)..<the (ev_packets env) + unat (cf_packet_count c)} \<inter> pool_packets (pool_at h q) = {} \<and>
        {ev_region env..<ev_region env + unat (cf_packet_count c) * unat (slot_stride_of (cf_slot_size c))}
          \<inter> region_set (pool_at h q) = {})"

text \<open>The pool and the descriptors as initialisation leaves them.\<close>

definition pool_fresh :: "linkg_packet_pool_config \<Rightarrow> pool_env \<Rightarrow> nat \<Rightarrow> linkg_packet_pool" where
  "pool_fresh c env base = \<lparr>pl_packets = Some base,
     pl_free_packets = Some (map ((+) base) [0..<unat (cf_packet_count c)]),
     pl_data_region = Some (ev_region env), pl_lock = ev_mutex env,
     pl_packet_count = cf_packet_count c, pl_slot_size = cf_slot_size c,
     pl_slot_stride = slot_stride_of (cf_slot_size c), pl_headroom = cf_headroom c,
     pl_free_count = cf_packet_count c, pl_initialized = True\<rparr>"

definition packet_fresh :: "nat \<Rightarrow> linkg_packet_pool \<Rightarrow> nat \<Rightarrow> linkg_packet \<Rightarrow> linkg_packet" where
  "packet_fresh q P p k = k\<lparr>pk_pool := Some q, pk_slot := Some (slot_addr P p),
     pk_data_offset := pl_headroom P, pk_data_length := 0, pk_flags := 0, pk_reference_count := 0\<rparr>"

lemma pool_fresh_sets [simp]:
  "pool_packets (pool_fresh c env base) = {base..<base + unat (cf_packet_count c)}"
  "region_set (pool_fresh c env base) =
     {ev_region env..<ev_region env + unat (cf_packet_count c) * unat (slot_stride_of (cf_slot_size c))}"
  "pl_initialized (pool_fresh c env base)"
  by (simp_all add: pool_fresh_def pool_packets_def region_set_def)

lemma pool_init_cases:
  assumes "linkg_packet_pool_init (Some q) (Some c) env h = (0, h')"
  obtains base where "ev_packets env = Some base" "\<not> pl_initialized (pool_at h q)"
    "cf_packet_count c \<noteq> 0" "cf_headroom c < cf_slot_size c"
    "\<not> cf_slot_size c > - 1 - (LINKG_PACKET_SLOT_ALIGNMENT - 1)"
    "pool_at h' = (pool_at h)(q := pool_fresh c env base)"
    "pk_at h' = (\<lambda>x. if x \<in> pool_packets (pool_fresh c env base)
       then packet_fresh q (pool_fresh c env base) x (pk_at h x) else pk_at h x)"
proof -
  from assms obtain base where "ev_packets env = Some base" "\<not> pl_initialized (pool_at h q)"
    "cf_packet_count c \<noteq> 0" "cf_headroom c < cf_slot_size c"
    "\<not> cf_slot_size c > - 1 - (LINKG_PACKET_SLOT_ALIGNMENT - 1)"
    by (auto simp: linkg_packet_pool_init_def Let_def not_le split: if_splits option.splits)
  moreover from this assms have "pool_at h' = (pool_at h)(q := pool_fresh c env base)"
    by (auto simp: linkg_packet_pool_init_def Let_def pool_zero_def pool_init_loop_pool pool_fresh_def
        split: if_splits)
  moreover from calculation assms have "pk_at h' = (\<lambda>x. if x \<in> pool_packets (pool_fresh c env base)
       then packet_fresh q (pool_fresh c env base) x (pk_at h x) else pk_at h x)"
    by (auto simp: linkg_packet_pool_init_def Let_def pool_zero_def pool_init_loop_pk slot_addr_def
        pool_fresh_def packet_fresh_def pool_packets_def fun_eq_iff split: if_splits)
  ultimately show ?thesis by (rule that)
qed

lemma pool_fresh_ok:
  assumes "cf_packet_count c \<noteq> 0" "cf_headroom c < cf_slot_size c" "mutex_ok (ev_mutex env)"
    "\<not> cf_slot_size c > - 1 - (LINKG_PACKET_SLOT_ALIGNMENT - 1)"
    and "pool_at h' q = pool_fresh c env base"
    and "\<And>x. x \<in> pool_packets (pool_fresh c env base) \<Longrightarrow>
       pk_at h' x = packet_fresh q (pool_fresh c env base) x (pk_at h x)"
  shows "pool_ok h' q"
proof -
  have "cf_slot_size c \<le> slot_stride_of (cf_slot_size c)"
    unfolding word_le_nat_alt unat_slot_stride [OF assms(4)] by presburger
  then have "pool_shape (pool_fresh c env base)"
    using assms(1,2) by (simp add: pool_fresh_def pool_shape_def word_gt_0)
  moreover have "free_stack (pool_fresh c env base) = map ((+) base) [0..<unat (cf_packet_count c)]"
    by (simp add: pool_fresh_def free_stack_def)
  moreover have "set (map ((+) base) [0..<n]) = {base..<base + n}" for n
    by (auto simp: image_add_atLeastLessThan)
  moreover have "packet_in_slot (pool_fresh c env base) (packet_fresh q (pool_fresh c env base) p k)" for p k
    using assms(2) by (simp add: pool_fresh_def packet_fresh_def packet_in_slot_def word_less_nat_alt)
  moreover have "mutex_ok (pl_lock (pool_fresh c env base))" using assms(3) by (simp add: pool_fresh_def)
  ultimately show ?thesis
    using assms(5,6) by (auto simp: pool_ok_def Let_def distinct_map packet_fresh_def)
qed

lemma heap_ok_init:
  assumes "heap_ok h" "env_fresh env c h"
    and "linkg_packet_pool_init (Some q) (Some c) env h = (0, h')"
  shows "heap_ok h'"
  using assms(3)
proof (rule pool_init_cases)
  fix base
  let ?P = "pool_fresh c env base"
  assume base: "ev_packets env = Some base" and "cf_packet_count c \<noteq> 0" "cf_headroom c < cf_slot_size c"
    "\<not> cf_slot_size c > - 1 - (LINKG_PACKET_SLOT_ALIGNMENT - 1)"
    and at: "pool_at h' = (pool_at h)(q := ?P)"
    and pk: "pk_at h' = (\<lambda>x. if x \<in> pool_packets ?P then packet_fresh q ?P x (pk_at h x) else pk_at h x)"
  then have new: "pool_ok h' q"
    using assms(2) by (intro pool_fresh_ok [of c env h' q base h]) (auto simp: env_fresh_def)
  have fresh: "pool_packets ?P \<inter> pool_packets (pool_at h q') = {}"
    "region_set ?P \<inter> region_set (pool_at h q') = {}" if "pl_initialized (pool_at h q')" for q'
    using assms(2) that base by (auto simp: env_fresh_def)
  have "pool_ok h' q'" if "q' \<noteq> q" "pl_initialized (pool_at h q')" for q'
  proof (rule pool_ok_frame [OF heap_okD [OF assms(1) that(2)]])
    show "pool_at h' q' = pool_at h q'" using that(1) by (simp add: at)
    fix p assume p: "p \<in> pool_packets (pool_at h q')"
    then have "p \<notin> pool_packets ?P" using fresh(1) [OF that(2)] by blast
    then have "pk_at h' p = pk_at h p" by (simp only: pk if_False)
    then show "pk_pool (pk_at h' p) = pk_pool (pk_at h p) \<and> pk_slot (pk_at h' p) = pk_slot (pk_at h p) \<and>
      packet_in_slot (pool_at h q') (pk_at h' p) \<and>
      (pk_reference_count (pk_at h' p) = 0 \<longleftrightarrow> pk_reference_count (pk_at h p) = 0)"
      using pool_okD(6) [OF heap_okD [OF assms(1) that(2)] p] by simp
  qed
  moreover have "region_set (pool_at h' a) \<inter> region_set (pool_at h' b) = {}"
    if "pl_initialized (pool_at h' a)" "pl_initialized (pool_at h' b)" "a \<noteq> b" for a b
    using that fresh(2) [of a] fresh(2) [of b] assms(1)
    by (cases "a = q"; cases "b = q") (auto simp: at heap_ok_def)
  ultimately show ?thesis using new by (auto simp: heap_ok_def at)
qed

text \<open>
  Initialisation: when \<open>linkg_packet_pool_init\<close> returns 0 on fresh memory, the invariant holds with
  the new pool, every one of the \<open>packet_count\<close> packets is free, every slot starts on a 64-byte
  boundary, and no reference count elsewhere changes.
\<close>

theorem pool_init_establishes:
  assumes "heap_ok h" "env_fresh env c h"
    and "linkg_packet_pool_init (Some q) (Some c) env h = (0, h')"
  shows "heap_ok h' \<and> pl_initialized (pool_at h' q) \<and>
     card (pool_packets (pool_at h' q)) = unat (cf_packet_count c) \<and>
     (\<forall>p. p \<in> pool_packets (pool_at h' q) \<longrightarrow> refs h' p = 0 \<and> 64 dvd slot_addr (pool_at h' q) p) \<and>
     (\<forall>p. p \<notin> pool_packets (pool_at h' q) \<longrightarrow> refs h' p = refs h p)"
  using assms(3)
proof (rule pool_init_cases)
  fix base
  let ?P = "pool_fresh c env base"
  assume ni: "\<not> pl_initialized (pool_at h q)"
    and sz: "\<not> cf_slot_size c > - 1 - (LINKG_PACKET_SLOT_ALIGNMENT - 1)"
    and at: "pool_at h' = (pool_at h)(q := ?P)"
    and pk: "pk_at h' = (\<lambda>x. if x \<in> pool_packets ?P then packet_fresh q ?P x (pk_at h x) else pk_at h x)"
  have "64 dvd slot_addr ?P p" for p
    using assms(2) unat_slot_stride [OF sz] by (auto simp: slot_addr_def pool_fresh_def env_fresh_def)
  moreover have "refs h' p = refs h p" if "p \<notin> pool_packets ?P" for p
  proof -
    have "pk_at h' p = pk_at h p" using that by (simp only: pk if_False)
    then show ?thesis using that ni by (auto simp: refs_def at split: option.split)
  qed
  moreover have "refs h' p = 0" if "p \<in> pool_packets ?P" for p
    using that by (auto simp: refs_def pk packet_fresh_def split: option.split)
  ultimately show ?thesis
    using heap_ok_init [OF assms] by (auto simp: at simp del: pool_fresh_sets(1)) simp
qed

lemma alloc_top:
  assumes "heap_ok h" "pl_initialized (pool_at h q)" "free_stack (pool_at h q) \<noteq> []"
  shows "fst (linkg_packet_pool_alloc (Some q) h) = Some (last (free_stack (pool_at h q)))"
proof -
  note ok = heap_okD [OF assms(1,2)]
  obtain fs where fs: "pl_free_packets (pool_at h q) = Some fs" "mx_lock (pl_lock (pool_at h q)) = 0"
    using alloc_ok_pool [OF assms(1,2)] .
  have nz: "pl_free_count (pool_at h q) \<noteq> 0"
    using length_free_stack [OF pool_okD(1) [OF ok]] assms(3) by auto
  obtain p h' where pop: "pool_pop q fs h = (p, h')" by fastforce
  then show ?thesis
    using assms(2) fs nz pop_facts(1) [OF ok fs(1) nz pop] by (simp add: linkg_packet_pool_alloc_def)
qed

text \<open>
  Releasing a held packet keeps the invariant, takes exactly one reference off that packet and
  leaves every other count alone; when it was the last reference the packet is back on top of the
  free stack of its pool, so that the next allocation of the pool returns it.
\<close>

theorem packet_release_returns:
  assumes "heap_ok h" "0 < refs h p" "pk_pool (pk_at h p) = Some q"
  shows "heap_ok (linkg_packet_release (Some p) h) \<and>
     (\<forall>x. refs (linkg_packet_release (Some p) h) x = (if x = p then refs h p - 1 else refs h x)) \<and>
     (refs h p = 1 \<longrightarrow>
        fst (linkg_packet_pool_alloc (Some q) (linkg_packet_release (Some p) h)) = Some p)"
proof -
  have "fst (linkg_packet_pool_alloc (Some q) (linkg_packet_release (Some p) h)) = Some p" if "refs h p = 1"
  proof -
    from refs_pool [OF assms(1,2)] assms(3) have ok: "pool_ok h q" "p \<in> pool_packets (pool_at h q)"
      "pk_reference_count (pk_at h p) \<noteq> 0" "pl_initialized (pool_at h q)"
      by (metis option.inject)+
    have h: "linkg_packet_release (Some p) h = pool_push q p h"
      using release_cases [OF assms] that by simp
    have "free_stack (pool_at (pool_push q p h) q) = free_stack (pool_at h q) @ [p]"
      using free_stack_push [OF pool_okD(1) [OF ok(1)] free_count_less [OF ok(1-3)]]
      by (simp add: pool_push_def)
    moreover have "pl_initialized (pool_at (pool_push q p h) q)" using ok(4) by (simp add: pool_push_def)
    ultimately show ?thesis
      using alloc_top [of "pool_push q p h" q] heap_ok_release [OF assms(1,2)] by (simp add: h)
  qed
  then show ?thesis using heap_ok_release [OF assms(1,2)] refs_release [OF assms(1,2)] by simp
qed

text \<open>
  The batch allocation is the single allocation repeated \<open>packet_count\<close> times, stopping at the first
  failure: same packets in the same order, same heap.
\<close>

theorem pool_alloc_batch_repeat:
  assumes "heap_ok h" "pl_initialized (pool_at h q)"
  shows "linkg_packet_pool_alloc_batch (Some q) True packet_count h = alloc_repeat q (unat packet_count) h"
proof -
  obtain fs where fs: "pl_free_packets (pool_at h q) = Some fs" "mx_lock (pl_lock (pool_at h q)) = 0"
    using alloc_ok_pool [OF assms] .
  have "unat (if packet_count > pl_free_count (pool_at h q) then pl_free_count (pool_at h q) else packet_count) =
    min (unat packet_count) (unat (pl_free_count (pool_at h q)))"
    by (auto simp: word_less_nat_alt)
  then show ?thesis
    using assms fs alloc_batch_loop_repeat [OF assms fs(1), of "unat packet_count"]
    by (cases "packet_count = 0") (simp_all add: linkg_packet_pool_alloc_batch_def)
qed

text \<open>
  The batch release is the single release applied to each entry in turn, null entries skipped, when the
  entries belong to the pool and the caller holds a reference for each of them; the invariant is kept and
  each count drops by the number of times the packet was listed.
\<close>

theorem pool_release_batch_each:
  assumes "heap_ok h" "\<forall>p. Some p \<in> set ps \<longrightarrow> pk_pool (pk_at h p) = Some q"
    and "\<forall>p. count_list ps (Some p) \<le> refs h p" "pl_initialized (pool_at h q)"
  shows "linkg_packet_pool_release_batch (Some q) (Some ps) h = fold linkg_packet_release ps h \<and>
     heap_ok (fold linkg_packet_release ps h) \<and>
     (\<forall>p. refs (fold linkg_packet_release ps h) p = refs h p - count_list ps (Some p))"
proof -
  have "heap_ok (fold linkg_packet_release ps h) \<and>
    (\<forall>p. refs (fold linkg_packet_release ps h) p = refs h p - count_list ps (Some p))"
    using pkt.release_all [OF assms(1), of "List.map_filter id ps"] assms(3)
    by (simp add: fold_release_somes count_list_somes)
  moreover have "mx_lock (pl_lock (pool_at h q)) = 0"
    using alloc_ok_pool [OF assms(1,4)] by metis
  ultimately show ?thesis
    using release_batch_loop_fold [of h ps q] assms(1-3)
    by (auto simp: linkg_packet_pool_release_batch_def)
qed

text \<open>
  A pool is destroyed only when every packet is home: \<open>linkg_packet_pool_deinit\<close> on an initialised pool
  returns 0 and forgets the pool when no packet of it is held, and otherwise returns \<open>-EBUSY\<close> and changes nothing.
\<close>

theorem pool_deinit_when_home:
  assumes "heap_ok h" "pl_initialized (pool_at h q)"
  shows "linkg_packet_pool_deinit (Some q) h =
     (if \<forall>p. p \<in> pool_packets (pool_at h q) \<longrightarrow> refs h p = 0
      then (0, upd_pool q (\<lambda>_. pool_zero) h) else (- EBUSY, h))"
proof -
  note ok = pool_okD [OF heap_okD [OF assms]]
  have "pl_free_count (pool_at h q) = pl_packet_count (pool_at h q) \<longleftrightarrow>
    card {p \<in> pool_packets (pool_at h q). pk_reference_count (pk_at h p) = 0} = card (pool_packets (pool_at h q))"
    using free_count_card [OF heap_okD [OF assms]] card_pool_packets ok(1)
    by (metis pool_shape_def unsigned_word_eqI)
  also have "\<dots> \<longleftrightarrow> {p \<in> pool_packets (pool_at h q). pk_reference_count (pk_at h p) = 0} = pool_packets (pool_at h q)"
    by (metis (no_types, lifting) card_subset_eq finite_pool_packets mem_Collect_eq subsetI)
  also have "\<dots> \<longleftrightarrow> (\<forall>p. p \<in> pool_packets (pool_at h q) \<longrightarrow> refs h p = 0)"
    using refs_in_pool [OF assms] by (auto simp: unat_eq_zero)
  finally show ?thesis
    using assms(2) ok(1,7) by (auto simp: linkg_packet_pool_deinit_def Let_def pool_shape_def)
qed

section \<open>Header space\<close>

lemma heap_ok_push_header:
  assumes "heap_ok h" "linkg_packet_push (Some p) n h = (Some a, h')"
  shows "heap_ok h'" "refs h' = refs h" "a = the (pk_slot (pk_at h p)) + unat (pk_data_offset (pk_at h p)) - unat n"
    "unat (pk_data_offset (pk_at h' p)) = unat (pk_data_offset (pk_at h p)) - unat n"
proof -
  let ?k = "pk_at h p"
  from assms(2) have n: "n \<le> pk_data_offset ?k" "n \<noteq> 0"
    and h': "h' = upd_pk p (\<lambda>k. k\<lparr>pk_data_offset := pk_data_offset k - n, pk_data_length := pk_data_length k + n\<rparr>) h"
    and a: "linkg_packet_data p h' = Some a"
    by (auto simp: linkg_packet_push_def Let_def not_less split: if_splits)
  note off = unat_sub_le [OF n(1)]
  show "unat (pk_data_offset (pk_at h' p)) = unat (pk_data_offset ?k) - unat n" by (simp add: h' off)
  show "refs h' = refs h" by (auto simp: h' refs_def fun_eq_iff split: option.split)
  show "a = the (pk_slot ?k) + unat (pk_data_offset ?k) - unat n"
    using a n(1) by (auto simp: linkg_packet_data_def h' off word_le_nat_alt)
  show "heap_ok h'"
  proof (rule heap_ok_frame [OF assms(1)])
    fix q x assume x: "pl_initialized (pool_at h q)" "x \<in> pool_packets (pool_at h q)"
    note slot = pool_okD(6) [OF heap_okD [OF assms(1) x(1)] x(2)]
    have "packet_in_slot (pool_at h q) (pk_at h' x)"
    proof (cases "x = p")
      case True
      have "unat (pk_data_length ?k + n) \<le> unat (pk_data_length ?k) + unat n" by (rule unat_add_le)
      then show ?thesis using slot True n(1) by (simp add: h' packet_in_slot_def off word_le_nat_alt)
    qed (use slot in \<open>simp add: h'\<close>)
    then show "pk_pool (pk_at h' x) = pk_pool (pk_at h x) \<and> pk_slot (pk_at h' x) = pk_slot (pk_at h x) \<and>
      packet_in_slot (pool_at h q) (pk_at h' x) \<and>
      (pk_reference_count (pk_at h' x) = 0 \<longleftrightarrow> pk_reference_count (pk_at h x) = 0)"
      by (simp add: h')
  qed (simp add: h')
qed

section \<open>Packet contents and slot separation\<close>

definition managed :: "heap \<Rightarrow> nat \<Rightarrow> bool" where
  "managed h p =
     (case pk_pool (pk_at h p) of None \<Rightarrow> False
      | Some q \<Rightarrow> pl_initialized (pool_at h q) \<and> p \<in> pool_packets (pool_at h q))"

definition packet_bytes :: "heap \<Rightarrow> nat \<Rightarrow> u8 list" where
  "packet_bytes h p =
     (case linkg_packet_data p h of None \<Rightarrow> []
      | Some a \<Rightarrow> mem_read (byte_at h) a (unat (pk_data_length (pk_at h p))))"

lemma refs_managed: "0 < refs h p \<Longrightarrow> managed h p"
  by (auto simp: refs_def managed_def split: option.splits if_splits)

lemma byte_frame [simp]:
  "heap_ok (h\<lparr>byte_at := m\<rparr>) = heap_ok h" "refs (h\<lparr>byte_at := m\<rparr>) = refs h"
  "managed (h\<lparr>byte_at := m\<rparr>) = managed h" "linkg_packet_data p (h\<lparr>byte_at := m\<rparr>) = linkg_packet_data p h"
  by (auto simp: heap_ok_def pool_ok_def refs_def managed_def linkg_packet_data_def fun_eq_iff
      split: option.split)

lemma managed_pool:
  assumes "heap_ok h" "managed h p"
  obtains q where "pk_pool (pk_at h p) = Some q" "pl_initialized (pool_at h q)" "pool_ok h q"
    "p \<in> pool_packets (pool_at h q)" "pk_slot (pk_at h p) = Some (slot_addr (pool_at h q) p)"
    "packet_in_slot (pool_at h q) (pk_at h p)"
proof -
  from assms(2) obtain q where q: "pk_pool (pk_at h p) = Some q" "pl_initialized (pool_at h q)"
    "p \<in> pool_packets (pool_at h q)" by (auto simp: managed_def split: option.splits)
  note ok = heap_okD [OF assms(1) q(2)]
  show ?thesis using that [OF q(1,2) ok q(3)] pool_okD(5,6) [OF ok q(3)] by simp
qed

lemma slot_in_region:
  assumes "pool_shape P" "p \<in> pool_packets P"
  shows "{slot_addr P p..<slot_addr P p + unat (pl_slot_size P)} \<subseteq> region_set P"
proof -
  obtain b r where P: "pl_packets P = Some b" "pl_data_region P = Some r"
    using assms(1) by (auto simp: pool_shape_def)
  let ?n = "unat (pl_packet_count P)" and ?w = "unat (pl_slot_stride P)"
  have "p - b < ?n" "unat (pl_slot_size P) \<le> ?w"
    using assms by (auto simp: pool_packets_def P pool_shape_def word_le_nat_alt)
  moreover from this(1) have "Suc (p - b) * ?w \<le> ?n * ?w" by (intro mult_le_mono1) simp
  ultimately have "(p - b) * ?w + unat (pl_slot_size P) \<le> ?n * ?w" unfolding mult_Suc by linarith
  then show ?thesis by (auto simp: slot_addr_def region_set_def P)
qed

lemma slots_apart_same:
  assumes "pool_shape P" "p \<in> pool_packets P" "p' \<in> pool_packets P" "p < p'"
  shows "slot_addr P p + unat (pl_slot_size P) \<le> slot_addr P p'"
proof -
  obtain b where b: "pl_packets P = Some b" using assms(1) by (auto simp: pool_shape_def)
  let ?w = "unat (pl_slot_stride P)"
  have "Suc (p - b) \<le> p' - b" using assms(2-4) by (auto simp: pool_packets_def b)
  then have "Suc (p - b) * ?w \<le> (p' - b) * ?w" by (rule mult_le_mono1)
  moreover have "unat (pl_slot_size P) \<le> ?w" using assms(1) by (simp add: pool_shape_def word_le_nat_alt)
  ultimately show ?thesis by (simp add: slot_addr_def b)
qed

lemma intervals_apart:
  "{a..<a + m} \<inter> {b..<b + n} = {} \<Longrightarrow> 0 < m \<Longrightarrow> 0 < n \<Longrightarrow> a + m \<le> b \<or> b + n \<le> (a :: nat)"
  by (metis add_less_cancel_left atLeastLessThan_iff disjoint_iff le_add1 linorder_not_less nat_le_linear add_0_right)

text \<open>Two different packets never share a byte.\<close>

lemma slots_apart:
  assumes "heap_ok h" "managed h p" "managed h p'" "p \<noteq> p'"
  shows "the (pk_slot (pk_at h p)) + unat (pl_slot_size (pool_at h (the (pk_pool (pk_at h p))))) \<le> the (pk_slot (pk_at h p')) \<or>
    the (pk_slot (pk_at h p')) + unat (pl_slot_size (pool_at h (the (pk_pool (pk_at h p'))))) \<le> the (pk_slot (pk_at h p))"
proof -
  obtain q where q: "pk_pool (pk_at h p) = Some q" "pl_initialized (pool_at h q)" "pool_ok h q"
    "p \<in> pool_packets (pool_at h q)" "pk_slot (pk_at h p) = Some (slot_addr (pool_at h q) p)"
    using managed_pool [OF assms(1,2)] by metis
  obtain q' where q': "pk_pool (pk_at h p') = Some q'" "pl_initialized (pool_at h q')" "pool_ok h q'"
    "p' \<in> pool_packets (pool_at h q')" "pk_slot (pk_at h p') = Some (slot_addr (pool_at h q') p')"
    using managed_pool [OF assms(1,3)] by metis
  show ?thesis
  proof (cases "q = q'")
    case True
    then show ?thesis
      using slots_apart_same [OF pool_okD(1) [OF q(3)]] q q' assms(4) by (cases "p < p'") auto
  next
    case False
    have "region_set (pool_at h q) \<inter> region_set (pool_at h q') = {}"
      using assms(1) q(2) q'(2) False by (auto simp: heap_ok_def)
    then have "{slot_addr (pool_at h q) p..<slot_addr (pool_at h q) p + unat (pl_slot_size (pool_at h q))} \<inter>
      {slot_addr (pool_at h q') p'..<slot_addr (pool_at h q') p' + unat (pl_slot_size (pool_at h q'))} = {}"
      using slot_in_region [OF pool_okD(1) [OF q(3)] q(4)] slot_in_region [OF pool_okD(1) [OF q'(3)] q'(4)]
      by blast
    moreover have "0 < unat (pl_slot_size (pool_at h x))" if "pool_ok h x" for x
      using pool_okD(1) [OF that] by (auto simp: pool_shape_def word_less_nat_alt)
    ultimately show ?thesis
      using intervals_apart q(1,3,5) q'(1,3,5) by simp
  qed
qed

text \<open>
  A write into the slot of one packet leaves the contents of every other packet alone, and
  descriptors whose pool, slot, offset and length agree show the same contents.
\<close>

definition within_slot :: "heap \<Rightarrow> nat \<Rightarrow> nat \<Rightarrow> nat \<Rightarrow> bool" where
  "within_slot h p a n \<longleftrightarrow> the (pk_slot (pk_at h p)) \<le> a \<and>
     a + n \<le> the (pk_slot (pk_at h p)) + unat (pl_slot_size (pool_at h (the (pk_pool (pk_at h p)))))"

lemma data_within_slot:
  assumes "heap_ok h" "managed h p" "linkg_packet_data p h = Some a"
  shows "within_slot h p a (unat (pk_data_length (pk_at h p)))"
proof -
  from managed_pool [OF assms(1,2)] obtain q where "pk_pool (pk_at h p) = Some q"
    "packet_in_slot (pool_at h q) (pk_at h p)" by metis
  then show ?thesis
    using assms(3) by (auto simp: within_slot_def linkg_packet_data_def packet_in_slot_def)
qed

lemma packet_bytes_write_other:
  assumes "heap_ok h" "managed h p" "managed h x" "x \<noteq> p" "within_slot h p a (length bs)"
    and "pk_at h' x = pk_at h x" "byte_at h' = mem_write a bs (byte_at h)"
  shows "packet_bytes h' x = packet_bytes h x"
proof (cases "linkg_packet_data x h")
  case (Some b)
  then have "within_slot h x b (unat (pk_data_length (pk_at h x)))"
    using data_within_slot [OF assms(1,3)] by simp
  then have "b + unat (pk_data_length (pk_at h x)) \<le> a \<or> a + length bs \<le> b"
    using slots_apart [OF assms(1,3,2,4)] assms(5) by (auto simp: within_slot_def)
  then show ?thesis
    using Some assms(6,7) by (auto simp: packet_bytes_def linkg_packet_data_def mem_read_write_other)
qed (use assms(6) in \<open>simp add: packet_bytes_def linkg_packet_data_def\<close>)

text \<open>Pushing a header and writing it: the new contents are the header followed by the old contents.\<close>

lemma push_write:
  assumes "heap_ok h" "managed h p" "linkg_packet_push (Some p) n h = (Some a, h1)"
    and "length bs = unat n" "h' = h1\<lparr>byte_at := mem_write a bs (byte_at h1)\<rparr>"
  shows "heap_ok h'" "refs h' = refs h" "packet_bytes h' p = bs @ packet_bytes h p"
    "\<And>x. x \<noteq> p \<Longrightarrow> pk_at h' x = pk_at h x"
    "\<And>x. managed h x \<Longrightarrow> x \<noteq> p \<Longrightarrow> packet_bytes h' x = packet_bytes h x"
    "unat (pk_data_length (pk_at h' p)) = unat (pk_data_length (pk_at h p)) + unat n"
    "linkg_packet_data p h' = Some a" "managed h' p"
    "unat (pk_data_offset (pk_at h' p)) = unat (pk_data_offset (pk_at h p)) - unat n"
proof -
  let ?k = "pk_at h p"
  from assms(3) have n: "n \<le> pk_data_offset ?k"
    and h1: "h1 = upd_pk p (\<lambda>k. k\<lparr>pk_data_offset := pk_data_offset k - n, pk_data_length := pk_data_length k + n\<rparr>) h"
    and a: "linkg_packet_data p h1 = Some a"
    by (auto simp: linkg_packet_push_def Let_def not_less split: if_splits)
  obtain q s where q: "pk_pool ?k = Some q" "pk_slot ?k = Some s" "packet_in_slot (pool_at h q) ?k"
    using managed_pool [OF assms(1,2)] by metis
  have off: "unat (pk_data_offset ?k - n) = unat (pk_data_offset ?k) - unat n" using n by (rule unat_sub_le)
  have "unat (pl_slot_size (pool_at h q)) < 2 ^ LENGTH(32)" by (rule unsigned_less)
  then have "unat (pk_data_length ?k) + unat n < 2 ^ 32"
    using q(3) n by (auto simp: packet_in_slot_def word_le_nat_alt)
  then have len: "unat (pk_data_length ?k + n) = unat (pk_data_length ?k) + unat n"
    by (simp add: unat_word_ariths)
  have a': "a = s + (unat (pk_data_offset ?k) - unat n)"
    using a q(2) by (auto simp: linkg_packet_data_def h1 off)
  note push = heap_ok_push_header [OF assms(1,3)]
  show "heap_ok h'" using push(1) by (simp add: assms(5))
  show "refs h' = refs h" using push(2) by (simp add: assms(5))
  show others: "\<And>x. x \<noteq> p \<Longrightarrow> pk_at h' x = pk_at h x" by (simp add: assms(5) h1)
  show "unat (pk_data_length (pk_at h' p)) = unat (pk_data_length ?k) + unat n" by (simp add: assms(5) h1 len)
  show "unat (pk_data_offset (pk_at h' p)) = unat (pk_data_offset ?k) - unat n" by (simp add: assms(5) h1 off)
  show dat: "linkg_packet_data p h' = Some a" using a by (simp add: assms(5) linkg_packet_data_def)
  show "managed h' p" using assms(2) by (auto simp: managed_def assms(5) h1 split: option.splits)
  have "within_slot h p a (length bs)"
    using q n a' by (auto simp: within_slot_def packet_in_slot_def assms(4) word_le_nat_alt)
  then show "\<And>x. managed h x \<Longrightarrow> x \<noteq> p \<Longrightarrow> packet_bytes h' x = packet_bytes h x"
    using packet_bytes_write_other [OF assms(1,2)] others by (simp add: assms(5) h1)
  have "packet_bytes h' p = mem_read (mem_write a bs (byte_at h)) a (unat (pk_data_length ?k) + length bs)"
    unfolding packet_bytes_def dat by (simp add: assms(5) h1 len assms(4))
  also have "\<dots> = bs @ mem_read (byte_at h) (a + unat n) (unat (pk_data_length ?k))"
    unfolding add.commute [of _ "length bs"] mem_read_add by (simp add: mem_simps assms(4) add.commute)
  also have "a + unat n = s + unat (pk_data_offset ?k)" using a' n by (simp add: word_le_nat_alt)
  finally show "packet_bytes h' p = bs @ packet_bytes h p"
    using q(2) by (simp add: packet_bytes_def linkg_packet_data_def)
qed

lemma heap_ok_set_length:
  assumes "heap_ok h" "managed h p" "pk_pool (pk_at h p) = Some q"
    and "unat (pk_data_offset (pk_at h p)) + unat n \<le> unat (pl_slot_size (pool_at h q))"
  shows "heap_ok (upd_pk p (\<lambda>k. k\<lparr>pk_data_length := n\<rparr>) h)"
    "refs (upd_pk p (\<lambda>k. k\<lparr>pk_data_length := n\<rparr>) h) = refs h"
    "managed (upd_pk p (\<lambda>k. k\<lparr>pk_data_length := n\<rparr>) h) = managed h"
proof -
  show "heap_ok (upd_pk p (\<lambda>k. k\<lparr>pk_data_length := n\<rparr>) h)"
  proof (rule heap_ok_frame [OF assms(1)])
    fix r x assume x: "pl_initialized (pool_at h r)" "x \<in> pool_packets (pool_at h r)"
    note ok = pool_okD(4,6) [OF heap_okD [OF assms(1) x(1)] x(2)]
    then show "pk_pool (pk_at (upd_pk p (\<lambda>k. k\<lparr>pk_data_length := n\<rparr>) h) x) = pk_pool (pk_at h x) \<and>
      pk_slot (pk_at (upd_pk p (\<lambda>k. k\<lparr>pk_data_length := n\<rparr>) h) x) = pk_slot (pk_at h x) \<and>
      packet_in_slot (pool_at h r) (pk_at (upd_pk p (\<lambda>k. k\<lparr>pk_data_length := n\<rparr>) h) x) \<and>
      (pk_reference_count (pk_at (upd_pk p (\<lambda>k. k\<lparr>pk_data_length := n\<rparr>) h) x) = 0 \<longleftrightarrow>
        pk_reference_count (pk_at h x) = 0)"
      using assms(3,4) by (auto simp: packet_in_slot_def)
  qed simp
qed (auto simp: refs_def managed_def fun_eq_iff split: option.splits)

section \<open>A concrete pool\<close>

text \<open>Four packets in slots of 2048 bytes with 256 bytes of headroom, for the witnesses.\<close>

definition sample_config :: linkg_packet_pool_config where
  "sample_config = \<lparr>cf_packet_count = 4, cf_slot_size = 2048, cf_headroom = 256\<rparr>"

definition sample_env :: pool_env where
  "sample_env = \<lparr>ev_packets = Some 100, ev_free_packets = True, ev_memalign = 0, ev_region = 4096,
     ev_mutex_init = 0, ev_mutex = mutex_zero\<rparr>"

definition empty_heap :: heap where
  "empty_heap = \<lparr>pk_at = (\<lambda>_. \<lparr>pk_pool = None, pk_slot = None, pk_reference_count = 0, pk_data_offset = 0,
       pk_data_length = 0, pk_flags = 0\<rparr>), pool_at = (\<lambda>_. pool_zero), byte_at = (\<lambda>_. 0)\<rparr>"

definition sample_heap :: heap where
  "sample_heap = snd (linkg_packet_pool_init (Some 0) (Some sample_config) sample_env empty_heap)"

lemma sample_stride: "slot_stride_of 2048 = 2048"
  by (simp add: slot_stride_of_def)

lemma sample_init:
  "linkg_packet_pool_init (Some 0) (Some sample_config) sample_env empty_heap = (0, sample_heap)"
  by (simp add: sample_heap_def prod_eq_iff)
    (simp add: linkg_packet_pool_init_def sample_config_def sample_env_def empty_heap_def pool_zero_def
      Let_def sample_stride SIZE_MAX_def)

lemma sample_fresh: "heap_ok empty_heap" "env_fresh sample_env sample_config empty_heap"
  by (simp_all add: heap_ok_def env_fresh_def empty_heap_def pool_zero_def sample_env_def)

lemma sample_heap_pool:
  "pool_at sample_heap 0 = pool_fresh sample_config sample_env 100"
  "heap_ok sample_heap"
  using sample_init heap_ok_init [OF sample_fresh sample_init]
  by (auto elim!: pool_init_cases simp: sample_env_def)

theorem pool_init_establishes_witness:
  "heap_ok sample_heap \<and> pl_initialized (pool_at sample_heap 0) \<and>
     card (pool_packets (pool_at sample_heap 0)) = 4"
  using pool_init_establishes [OF sample_fresh sample_init] by (simp add: sample_config_def)

lemma sample_alloc:
  "linkg_packet_pool_alloc (Some 0) sample_heap =
     (Some 103, snd (linkg_packet_pool_alloc (Some 0) sample_heap))"
  by (simp add: linkg_packet_pool_alloc_def sample_heap_pool pool_fresh_def sample_env_def sample_config_def
      mutex_zero_def pool_pop_def Let_def)

definition sample_heap1 :: heap where
  "sample_heap1 = snd (linkg_packet_pool_alloc (Some 0) sample_heap)"

theorem pool_alloc_exclusive_witness:
  "heap_ok sample_heap1 \<and> refs sample_heap 103 = 0 \<and> refs sample_heap1 103 = 1"
  using pool_alloc_exclusive [OF sample_heap_pool(2) sample_alloc] by (simp add: sample_heap1_def)

lemma sample_heap1_facts:
  "heap_ok sample_heap1" "refs sample_heap1 103 = 1" "pk_pool (pk_at sample_heap1 103) = Some 0"
  "pl_initialized (pool_at sample_heap1 0)"
proof -
  note pop = pop_facts [OF heap_okD [OF sample_heap_pool(2)], of 0]
  have init: "pl_initialized (pool_at sample_heap 0)" by (simp add: sample_heap_pool)
  obtain fs where fs: "pl_free_packets (pool_at sample_heap 0) = Some fs"
    "pl_free_count (pool_at sample_heap 0) \<noteq> 0" "pool_pop 0 fs sample_heap = (103, sample_heap1)"
    using sample_alloc
    by (auto simp: sample_heap1_def linkg_packet_pool_alloc_def split: if_splits option.splits prod.splits)
  show "heap_ok sample_heap1" by (rule heap_ok_pop [OF sample_heap_pool(2) init fs])
  show "refs sample_heap1 103 = 1" using refs_pop [OF sample_heap_pool(2) init fs] by simp
  show "pl_initialized (pool_at sample_heap1 0)" using pop(5) [OF init fs] init by simp
  show "pk_pool (pk_at sample_heap1 103) = Some 0"
    using pop(2,7) [OF init fs] pool_okD(4) [OF heap_okD [OF sample_heap_pool(2) init]] by simp
qed

theorem pool_alloc_exhausted_witness:
  "fst (linkg_packet_pool_alloc (Some 0) sample_heap) \<noteq> None \<and>
     \<not> (\<forall>p. p \<in> pool_packets (pool_at sample_heap 0) \<longrightarrow> 0 < refs sample_heap p)"
proof -
  have "pl_initialized (pool_at sample_heap 0)" by (simp add: sample_heap_pool)
  from pool_alloc_exhausted [OF sample_heap_pool(2) this] show ?thesis
    using arg_cong [OF sample_alloc, of fst] by simp
qed

theorem packet_release_returns_witness:
  "refs (linkg_packet_release (Some 103) sample_heap1) 103 = 0 \<and>
     fst (linkg_packet_pool_alloc (Some 0) (linkg_packet_release (Some 103) sample_heap1)) = Some 103"
  using packet_release_returns [of sample_heap1 103 0] sample_heap1_facts by simp

theorem pool_alloc_batch_repeat_witness:
  "linkg_packet_pool_alloc_batch (Some 0) True 2 sample_heap1 = alloc_repeat 0 2 sample_heap1"
  using pool_alloc_batch_repeat [OF sample_heap1_facts(1,4), of 2] by simp

theorem pool_release_batch_each_witness:
  "linkg_packet_pool_release_batch (Some 0) (Some [None, Some 103]) sample_heap1 =
     fold linkg_packet_release [None, Some 103] sample_heap1"
  using pool_release_batch_each [of sample_heap1 "[None, Some 103]" 0] sample_heap1_facts by simp

theorem pool_deinit_when_home_witness:
  "linkg_packet_pool_deinit (Some 0) sample_heap1 = (- EBUSY, sample_heap1)"
proof -
  have "103 \<in> pool_packets (pool_at sample_heap1 0)"
    using sample_heap1_facts by (auto simp: refs_def split: if_splits)
  then show ?thesis
    using pool_deinit_when_home [OF sample_heap1_facts(1,4)] sample_heap1_facts(2)
    by (metis zero_neq_one)
qed

lemma sample_packet:
  "pk_at sample_heap1 103 = \<lparr>pk_pool = Some 0, pk_slot = Some 10240, pk_reference_count = 1,
     pk_data_offset = 256, pk_data_length = 0, pk_flags = 0\<rparr>"
  "pl_slot_size (pool_at sample_heap1 0) = 2048" "managed sample_heap1 103"
proof -
  have init: "pl_initialized (pool_at sample_heap 0)" by (simp add: sample_heap_pool)
  obtain fs where fs: "pl_free_packets (pool_at sample_heap 0) = Some fs"
    "pl_free_count (pool_at sample_heap 0) \<noteq> 0" "pool_pop 0 fs sample_heap = (103, sample_heap1)"
    using sample_alloc
    by (auto simp: sample_heap1_def linkg_packet_pool_alloc_def split: if_splits option.splits prod.splits)
  note pop = pop_facts(5,7) [OF heap_okD [OF sample_heap_pool(2) init] fs]
  have "pk_at sample_heap 103 = packet_fresh 0 (pool_fresh sample_config sample_env 100) 103 (pk_at empty_heap 103)"
    using sample_init by (rule pool_init_cases) (simp add: sample_config_def sample_env_def)
  then show "pk_at sample_heap1 103 = \<lparr>pk_pool = Some 0, pk_slot = Some 10240, pk_reference_count = 1,
     pk_data_offset = 256, pk_data_length = 0, pk_flags = 0\<rparr>"
    using pop(2) by (simp add: packet_fresh_def empty_heap_def sample_heap_pool pool_fresh_def slot_addr_def
        sample_config_def sample_env_def sample_stride)
  show "pl_slot_size (pool_at sample_heap1 0) = 2048"
    using pop(1) by (simp add: sample_heap_pool pool_fresh_def sample_config_def)
  show "managed sample_heap1 103" using sample_heap1_facts(2) by (simp add: refs_managed)
qed

end
