(* ===== verification/Transport_Wire.thy ===== *)
theory Transport_Wire
  imports Packet_Pool
begin

text \<open>
  The transport frame headers: \<open>src/core/transport/transport_wire.c\<close> with the types and limits of
  \<open>src/include/linkg/core/transport/linkg_transport_types.h\<close>.

  A frame is a 16-byte base header, an 8-byte extension when the fragment flag is set, and the
  payload. Encoding pushes a header in front of the packet data in the packet's own slot; decoding
  reads and validates it. The two header layouts are instances of one codec interface, from which
  the round trips and the frame conditions follow.
\<close>

section \<open>Types and limits\<close>

record linkg_transport_header =
  th_magic :: u32
  th_version :: u8
  th_type :: u8
  th_flags :: u16
  th_sequence :: u32
  th_source_node_id :: u8
  th_destination_node_id :: u8
  th_reserved :: u16

record linkg_transport_fragment_header =
  fh_packet_id :: u32
  fh_fragment_offset :: u16
  fh_packet_length :: u16

abbreviation (input) LINKG_TRANSPORT_WIRE_MAGIC :: u32 where "LINKG_TRANSPORT_WIRE_MAGIC \<equiv> 0x4C4B4732"
abbreviation (input) LINKG_TRANSPORT_WIRE_VERSION :: u8 where "LINKG_TRANSPORT_WIRE_VERSION \<equiv> 1"
abbreviation (input) LINKG_TRANSPORT_WIRE_HEADER_SIZE :: u32 where "LINKG_TRANSPORT_WIRE_HEADER_SIZE \<equiv> 16"
abbreviation (input) LINKG_TRANSPORT_WIRE_FRAGMENT_HEADER_SIZE :: u32 where "LINKG_TRANSPORT_WIRE_FRAGMENT_HEADER_SIZE \<equiv> 8"
abbreviation (input) LINKG_TRANSPORT_WIRE_HEADER_MAX_SIZE :: u32 where "LINKG_TRANSPORT_WIRE_HEADER_MAX_SIZE \<equiv> 24"
abbreviation (input) LINKG_TRANSPORT_WIRE_FRAME_MAX_SIZE :: u32 where "LINKG_TRANSPORT_WIRE_FRAME_MAX_SIZE \<equiv> 1444"
abbreviation (input) LINKG_TRANSPORT_PAYLOAD_MAX_SIZE :: u32 where "LINKG_TRANSPORT_PAYLOAD_MAX_SIZE \<equiv> 1428"
abbreviation (input) LINKG_TRANSPORT_FRAGMENT_PAYLOAD_MAX_SIZE :: u32 where "LINKG_TRANSPORT_FRAGMENT_PAYLOAD_MAX_SIZE \<equiv> 1420"
abbreviation (input) LINKG_TRANSPORT_PACKET_MAX_SIZE :: u32 where "LINKG_TRANSPORT_PACKET_MAX_SIZE \<equiv> 1500"
abbreviation (input) LINKG_TRANSPORT_FLAG_FRAGMENT :: u16 where "LINKG_TRANSPORT_FLAG_FRAGMENT \<equiv> 1"
abbreviation (input) LINKG_TRANSPORT_FLAG_VALID_MASK :: u16 where "LINKG_TRANSPORT_FLAG_VALID_MASK \<equiv> 1"
abbreviation (input) LINKG_TRANSPORT_PACKET_ID_INVALID :: u32 where "LINKG_TRANSPORT_PACKET_ID_INVALID \<equiv> 0"
abbreviation (input) LINKG_TRANSPORT_TYPE_NONE :: u8 where "LINKG_TRANSPORT_TYPE_NONE \<equiv> 0"
abbreviation (input) LINKG_TRANSPORT_TYPE_COUNT :: u8 where "LINKG_TRANSPORT_TYPE_COUNT \<equiv> 4"
abbreviation (input) LINKG_TRANSPORT_CLASS_COUNT :: u32 where "LINKG_TRANSPORT_CLASS_COUNT \<equiv> 3"
abbreviation (input) LINKG_RESOURCE_NODE_ID_MIN :: u8 where "LINKG_RESOURCE_NODE_ID_MIN \<equiv> 1"
abbreviation (input) LINKG_RESOURCE_NODE_ID_MAX :: u8 where "LINKG_RESOURCE_NODE_ID_MAX \<equiv> 254"

section \<open>Validity checks\<close>

definition linkg_transport_type_valid :: "u8 \<Rightarrow> bool" where
  "linkg_transport_type_valid type \<longleftrightarrow>
     type > LINKG_TRANSPORT_TYPE_NONE \<and> type < LINKG_TRANSPORT_TYPE_COUNT"

definition linkg_transport_class_valid :: "u32 \<Rightarrow> bool" where
  "linkg_transport_class_valid traffic_class \<longleftrightarrow>
     traffic_class \<ge> 0 \<and> traffic_class < LINKG_TRANSPORT_CLASS_COUNT"

definition linkg_transport_wire_node_id_valid :: "u8 \<Rightarrow> bool" where
  "linkg_transport_wire_node_id_valid node_id \<longleftrightarrow>
     node_id \<ge> LINKG_RESOURCE_NODE_ID_MIN \<and> node_id \<le> LINKG_RESOURCE_NODE_ID_MAX"

definition linkg_transport_wire_flags_valid :: "u16 \<Rightarrow> bool" where
  "linkg_transport_wire_flags_valid flags \<longleftrightarrow> flags AND NOT LINKG_TRANSPORT_FLAG_VALID_MASK = 0"

definition linkg_transport_wire_fragment_layout_valid :: "u16 \<Rightarrow> u16 \<Rightarrow> u32 \<Rightarrow> bool" where
  "linkg_transport_wire_fragment_layout_valid fragment_offset packet_length fragment_length =
     (if (ucast packet_length :: u32) \<le> LINKG_TRANSPORT_PAYLOAD_MAX_SIZE \<or>
         (ucast packet_length :: u32) > LINKG_TRANSPORT_PACKET_MAX_SIZE
      then False
      else if fragment_offset = 0
      then fragment_length = LINKG_TRANSPORT_FRAGMENT_PAYLOAD_MAX_SIZE
      else if (ucast fragment_offset :: u32) \<noteq> LINKG_TRANSPORT_FRAGMENT_PAYLOAD_MAX_SIZE
      then False
      else fragment_length = ucast packet_length - LINKG_TRANSPORT_FRAGMENT_PAYLOAD_MAX_SIZE)"

section \<open>Byte layout of the headers\<close>

definition header_bytes :: "linkg_transport_header \<Rightarrow> u8 list" where
  "header_bytes w =
     be32 (th_magic w) @ [th_version w, th_type w] @ be16 (th_flags w) @ be32 (th_sequence w) @
     [th_source_node_id w, th_destination_node_id w] @ be16 (th_reserved w)"

definition header_of :: "u8 list \<Rightarrow> linkg_transport_header" where
  "header_of bs = \<lparr>th_magic = of_be32 (take 4 bs), th_version = bs ! 4, th_type = bs ! 5,
     th_flags = of_be16 (take 2 (drop 6 bs)), th_sequence = of_be32 (take 4 (drop 8 bs)),
     th_source_node_id = bs ! 12, th_destination_node_id = bs ! 13,
     th_reserved = of_be16 (take 2 (drop 14 bs))\<rparr>"

definition fragment_header_bytes :: "linkg_transport_fragment_header \<Rightarrow> u8 list" where
  "fragment_header_bytes w =
     be32 (fh_packet_id w) @ be16 (fh_fragment_offset w) @ be16 (fh_packet_length w)"

definition fragment_header_of :: "u8 list \<Rightarrow> linkg_transport_fragment_header" where
  "fragment_header_of bs = \<lparr>fh_packet_id = of_be32 (take 4 bs),
     fh_fragment_offset = of_be16 (take 2 (drop 4 bs)), fh_packet_length = of_be16 (take 2 (drop 6 bs))\<rparr>"

section \<open>Encoding\<close>

definition linkg_transport_wire_encode ::
    "nat option \<Rightarrow> linkg_transport_header option \<Rightarrow> heap \<Rightarrow> int \<times> heap" where
  "linkg_transport_wire_encode packet header h =
     (case (packet, header) of
        (Some p, Some hdr) \<Rightarrow>
          if pk_slot (pk_at h p) = None then (- EINVAL, h)
          else if \<not> linkg_transport_type_valid (th_type hdr) \<or>
                  \<not> linkg_transport_wire_flags_valid (th_flags hdr) \<or>
                  \<not> linkg_transport_wire_node_id_valid (th_source_node_id hdr) \<or>
                  \<not> linkg_transport_wire_node_id_valid (th_destination_node_id hdr)
          then (- EINVAL, h)
          else if pk_data_length (pk_at h p) + LINKG_TRANSPORT_WIRE_HEADER_SIZE >
                  LINKG_TRANSPORT_WIRE_FRAME_MAX_SIZE
          then (- EMSGSIZE, h)
          else if linkg_packet_headroom p h < LINKG_TRANSPORT_WIRE_HEADER_SIZE
          then (- ENOSPC, h)
          else
            (let wire = \<lparr>th_magic = LINKG_TRANSPORT_WIRE_MAGIC,
                   th_version = LINKG_TRANSPORT_WIRE_VERSION, th_type = th_type hdr,
                   th_flags = th_flags hdr, th_sequence = th_sequence hdr,
                   th_source_node_id = th_source_node_id hdr,
                   th_destination_node_id = th_destination_node_id hdr, th_reserved = 0\<rparr>;
                 (data, h1) = linkg_packet_push (Some p) LINKG_TRANSPORT_WIRE_HEADER_SIZE h
             in case data of
                  None \<Rightarrow> (- ENOSPC, h1)
                | Some a \<Rightarrow> (0, h1\<lparr>byte_at := mem_write a (header_bytes wire) (byte_at h1)\<rparr>))
      | _ \<Rightarrow> (- EINVAL, h))"

definition linkg_transport_wire_fragment_encode ::
    "nat option \<Rightarrow> linkg_transport_fragment_header option \<Rightarrow> heap \<Rightarrow> int \<times> heap" where
  "linkg_transport_wire_fragment_encode packet header h =
     (case (packet, header) of
        (Some p, Some hdr) \<Rightarrow>
          if pk_slot (pk_at h p) = None then (- EINVAL, h)
          else if fh_packet_id hdr = LINKG_TRANSPORT_PACKET_ID_INVALID \<or> pk_data_length (pk_at h p) = 0
          then (- EINVAL, h)
          else if \<not> linkg_transport_wire_fragment_layout_valid (fh_fragment_offset hdr)
                    (fh_packet_length hdr) (pk_data_length (pk_at h p))
          then (- EINVAL, h)
          else if pk_data_length (pk_at h p) + LINKG_TRANSPORT_WIRE_FRAGMENT_HEADER_SIZE +
                    LINKG_TRANSPORT_WIRE_HEADER_SIZE > LINKG_TRANSPORT_WIRE_FRAME_MAX_SIZE
          then (- EMSGSIZE, h)
          else if linkg_packet_headroom p h < LINKG_TRANSPORT_WIRE_FRAGMENT_HEADER_SIZE
          then (- ENOSPC, h)
          else
            (let (data, h1) = linkg_packet_push (Some p) LINKG_TRANSPORT_WIRE_FRAGMENT_HEADER_SIZE h
             in case data of
                  None \<Rightarrow> (- ENOSPC, h1)
                | Some a \<Rightarrow> (0, h1\<lparr>byte_at := mem_write a (fragment_header_bytes hdr) (byte_at h1)\<rparr>))
      | _ \<Rightarrow> (- EINVAL, h))"

section \<open>Decoding\<close>

definition linkg_transport_wire_decode :: "nat option \<Rightarrow> heap \<Rightarrow> int + linkg_transport_header" where
  "linkg_transport_wire_decode packet h =
     (case packet of
        None \<Rightarrow> Inl (- EINVAL)
      | Some p \<Rightarrow>
         (case linkg_packet_data p h of
            None \<Rightarrow> Inl (- EINVAL)
          | Some a \<Rightarrow>
             (if pk_data_length (pk_at h p) < LINKG_TRANSPORT_WIRE_HEADER_SIZE \<or>
                 pk_data_length (pk_at h p) > LINKG_TRANSPORT_WIRE_FRAME_MAX_SIZE
              then Inl (- EMSGSIZE)
              else
                (let decoded = header_of (mem_read (byte_at h) a 16)
                 in if th_magic decoded \<noteq> LINKG_TRANSPORT_WIRE_MAGIC \<or>
                       th_version decoded \<noteq> LINKG_TRANSPORT_WIRE_VERSION \<or>
                       \<not> linkg_transport_type_valid (th_type decoded) \<or>
                       \<not> linkg_transport_wire_flags_valid (th_flags decoded) \<or>
                       \<not> linkg_transport_wire_node_id_valid (th_source_node_id decoded) \<or>
                       \<not> linkg_transport_wire_node_id_valid (th_destination_node_id decoded) \<or>
                       th_reserved decoded \<noteq> 0
                    then Inl (- EPROTO)
                    else if th_flags decoded AND LINKG_TRANSPORT_FLAG_FRAGMENT \<noteq> 0 \<and>
                            pk_data_length (pk_at h p) < LINKG_TRANSPORT_WIRE_HEADER_MAX_SIZE + 1
                    then Inl (- EPROTO)
                    else Inr decoded))))"

definition linkg_transport_wire_fragment_decode ::
    "nat option \<Rightarrow> heap \<Rightarrow> int + linkg_transport_fragment_header" where
  "linkg_transport_wire_fragment_decode packet h =
     (case packet of
        None \<Rightarrow> Inl (- EINVAL)
      | Some p \<Rightarrow>
         (case linkg_packet_data p h of
            None \<Rightarrow> Inl (- EINVAL)
          | Some a \<Rightarrow>
             (if pk_data_length (pk_at h p) < LINKG_TRANSPORT_WIRE_HEADER_MAX_SIZE + 1 \<or>
                 pk_data_length (pk_at h p) > LINKG_TRANSPORT_WIRE_FRAME_MAX_SIZE
              then Inl (- EMSGSIZE)
              else
                (let decoded = fragment_header_of (mem_read (byte_at h) (a + 16) 8);
                     fragment_length = pk_data_length (pk_at h p) - LINKG_TRANSPORT_WIRE_HEADER_MAX_SIZE
                 in if fh_packet_id decoded = LINKG_TRANSPORT_PACKET_ID_INVALID \<or>
                       \<not> linkg_transport_wire_fragment_layout_valid (fh_fragment_offset decoded)
                          (fh_packet_length decoded) fragment_length
                    then Inl (- EPROTO)
                    else Inr decoded))))"

definition linkg_transport_wire_update_sequence :: "nat option \<Rightarrow> u32 \<Rightarrow> heap \<Rightarrow> int \<times> heap" where
  "linkg_transport_wire_update_sequence packet sequence h =
     (case packet of
        None \<Rightarrow> (- EINVAL, h)
      | Some p \<Rightarrow>
         (case linkg_packet_data p h of
            None \<Rightarrow> (- EINVAL, h)
          | Some a \<Rightarrow>
             (if pk_data_length (pk_at h p) < LINKG_TRANSPORT_WIRE_HEADER_SIZE \<or>
                 pk_data_length (pk_at h p) > LINKG_TRANSPORT_WIRE_FRAME_MAX_SIZE
              then (- EMSGSIZE, h)
              else
                (let wire = header_of (mem_read (byte_at h) a 16)
                 in if th_magic wire \<noteq> LINKG_TRANSPORT_WIRE_MAGIC \<or>
                       th_version wire \<noteq> LINKG_TRANSPORT_WIRE_VERSION \<or>
                       \<not> linkg_transport_type_valid (th_type wire) \<or>
                       \<not> linkg_transport_wire_flags_valid (th_flags wire) \<or>
                       \<not> linkg_transport_wire_node_id_valid (th_source_node_id wire) \<or>
                       \<not> linkg_transport_wire_node_id_valid (th_destination_node_id wire) \<or>
                       th_reserved wire \<noteq> 0
                    then (- EPROTO, h)
                    else (0, h\<lparr>byte_at := mem_write a (header_bytes (wire\<lparr>th_sequence := sequence\<rparr>))
                                (byte_at h)\<rparr>)))))"

section \<open>The codec interface\<close>

locale wire_codec =
  fixes enc :: "'a \<Rightarrow> u8 list" and dec :: "u8 list \<Rightarrow> 'a" and width :: nat
  assumes length_enc: "length (enc x) = width"
    and dec_enc: "dec (enc x) = x"
    and enc_dec: "length bs = width \<Longrightarrow> enc (dec bs) = bs"
begin

lemma enc_inject: "enc x = enc y \<longleftrightarrow> x = y"
  by (metis dec_enc)

lemma read_back: "dec (mem_read (mem_write a (enc x) m) a width) = x"
  by (simp add: mem_simps length_enc dec_enc)

lemma read_elsewhere:
  "b + n \<le> a \<or> a + width \<le> b \<Longrightarrow> mem_read (mem_write a (enc x) m) b n = mem_read m b n"
  by (simp add: mem_read_write_other length_enc)

lemma enc_of_read: "enc (dec (mem_read m a width)) = mem_read m a width"
  by (simp add: enc_dec)

lemma frame_after_write:
  assumes "n = width + k"
  shows "mem_read (mem_write a (enc x) m) a n = enc x @ mem_read m (a + width) k"
  using mem_read_add [of "mem_write a (enc x) m" a width k] assms
  by (simp add: mem_simps length_enc)

end

lemma list16: "length bs = 16 \<Longrightarrow>
  take 4 bs @ [bs ! 4, bs ! 5] @ take 2 (drop 6 bs) @ take 4 (drop 8 bs) @ [bs ! 12, bs ! 13] @ take 2 (drop 14 bs) = bs"
  by (auto simp: numeral_eq_Suc length_Suc_conv)

interpretation base_header: wire_codec header_bytes header_of 16
proof
  show "length (header_bytes x) = 16" for x by (simp add: header_bytes_def)
  show "header_of (header_bytes x) = x" for x
    by (cases x) (simp add: header_bytes_def header_of_def nth_append)
  show "header_bytes (header_of bs) = bs" if "length bs = 16" for bs
    using that list16 [OF that]
    by (simp add: header_bytes_def header_of_def be32_of_be32 be16_of_be16)
qed

lemma list8: "length bs = 8 \<Longrightarrow> take 4 bs @ take 2 (drop 4 bs) @ take 2 (drop 6 bs) = bs"
  by (auto simp: numeral_eq_Suc length_Suc_conv)

interpretation frag_header: wire_codec fragment_header_bytes fragment_header_of 8
proof
  show "length (fragment_header_bytes x) = 8" for x by (simp add: fragment_header_bytes_def)
  show "fragment_header_of (fragment_header_bytes x) = x" for x
    by (cases x) (simp add: fragment_header_bytes_def fragment_header_of_def)
  show "fragment_header_bytes (fragment_header_of bs) = bs" if "length bs = 8" for bs
    using that list8 [OF that]
    by (simp add: fragment_header_bytes_def fragment_header_of_def be32_of_be32 be16_of_be16)
qed

section \<open>Frames in packets\<close>

definition frame_header :: "linkg_transport_header \<Rightarrow> linkg_transport_header" where
  "frame_header hdr = \<lparr>th_magic = LINKG_TRANSPORT_WIRE_MAGIC,
     th_version = LINKG_TRANSPORT_WIRE_VERSION, th_type = th_type hdr,
     th_flags = th_flags hdr, th_sequence = th_sequence hdr,
     th_source_node_id = th_source_node_id hdr,
     th_destination_node_id = th_destination_node_id hdr, th_reserved = 0\<rparr>"

definition header_valid :: "linkg_transport_header \<Rightarrow> bool" where
  "header_valid d \<longleftrightarrow> frame_header d = d \<and> linkg_transport_type_valid (th_type d) \<and>
     linkg_transport_wire_flags_valid (th_flags d) \<and>
     linkg_transport_wire_node_id_valid (th_source_node_id d) \<and>
     linkg_transport_wire_node_id_valid (th_destination_node_id d)"

lemma frame_header_simps:
  "th_type (frame_header hdr) = th_type hdr" "th_flags (frame_header hdr) = th_flags hdr"
  "th_sequence (frame_header hdr) = th_sequence hdr"
  "th_source_node_id (frame_header hdr) = th_source_node_id hdr"
  "th_destination_node_id (frame_header hdr) = th_destination_node_id hdr"
  "frame_header (frame_header hdr) = frame_header hdr"
  by (simp_all add: frame_header_def)

lemma packet_bytes_at:
  "linkg_packet_data p h = Some a \<Longrightarrow>
     packet_bytes h p = mem_read (byte_at h) a (unat (pk_data_length (pk_at h p)))"
  by (simp add: packet_bytes_def)

lemma managed_data: "heap_ok h \<Longrightarrow> managed h p \<Longrightarrow> \<exists>a. linkg_packet_data p h = Some a"
  by (elim managed_pool) (auto simp: linkg_packet_data_def)

lemma length_packet_bytes:
  "heap_ok h \<Longrightarrow> managed h p \<Longrightarrow> length (packet_bytes h p) = unat (pk_data_length (pk_at h p))"
  using managed_data [of h p] by (auto simp: packet_bytes_at)

text \<open>The decoder as a predicate on the bytes of the frame.\<close>

lemma decode_iff:
  assumes "heap_ok h" "managed h p"
  shows "linkg_transport_wire_decode (Some p) h = Inr d \<longleftrightarrow>
     16 \<le> length (packet_bytes h p) \<and> length (packet_bytes h p) \<le> 1444 \<and> header_valid d \<and>
     take 16 (packet_bytes h p) = header_bytes d \<and>
     (th_flags d AND LINKG_TRANSPORT_FLAG_FRAGMENT \<noteq> 0 \<longrightarrow> 25 \<le> length (packet_bytes h p))"
    (is "?L \<longleftrightarrow> ?R")
proof -
  obtain a where a: "linkg_packet_data p h = Some a" using managed_data [OF assms] by auto
  let ?l = "pk_data_length (pk_at h p)" and ?d = "header_of (mem_read (byte_at h) a 16)"
  have valid: "header_valid x \<longleftrightarrow> \<not> (th_magic x \<noteq> LINKG_TRANSPORT_WIRE_MAGIC \<or>
      th_version x \<noteq> LINKG_TRANSPORT_WIRE_VERSION \<or> \<not> linkg_transport_type_valid (th_type x) \<or>
      \<not> linkg_transport_wire_flags_valid (th_flags x) \<or>
      \<not> linkg_transport_wire_node_id_valid (th_source_node_id x) \<or>
      \<not> linkg_transport_wire_node_id_valid (th_destination_node_id x) \<or> th_reserved x \<noteq> 0)" for x
    by (cases x) (auto simp: header_valid_def frame_header_def)
  have "?L \<longleftrightarrow> (16 \<le> ?l \<and> ?l \<le> 1444 \<and> header_valid ?d \<and>
      (th_flags ?d AND LINKG_TRANSPORT_FLAG_FRAGMENT \<noteq> 0 \<longrightarrow> 25 \<le> ?l) \<and> ?d = d)"
    unfolding linkg_transport_wire_decode_def option.case a Let_def valid not_less [symmetric]
    by auto
  moreover have "take 16 (packet_bytes h p) = header_bytes ?d" if "16 \<le> ?l"
    using that base_header.enc_of_read [of "byte_at h" a]
    by (simp add: packet_bytes_at [OF a] mem_simps word_le_nat_alt)
  ultimately show ?thesis
    unfolding length_packet_bytes [OF assms]
    by (auto simp: word_le_nat_alt base_header.enc_inject)
qed

lemma encode_cases:
  assumes "linkg_transport_wire_encode (Some p) (Some hdr) h = (0, h')"
  obtains a h1 where "linkg_packet_push (Some p) 16 h = (Some a, h1)"
    "h' = h1\<lparr>byte_at := mem_write a (header_bytes (frame_header hdr)) (byte_at h1)\<rparr>"
    "header_valid (frame_header hdr)" "pk_data_length (pk_at h p) + 16 \<le> 1444"
  using assms that unfolding linkg_transport_wire_encode_def frame_header_def [symmetric] header_valid_def
  by (auto simp: frame_header_simps not_less Let_def split: if_splits option.splits prod.splits)

lemma encode_facts:
  assumes "heap_ok h" "managed h p" "linkg_transport_wire_encode (Some p) (Some hdr) h = (0, h')"
  shows "heap_ok h'" "managed h' p" "refs h' = refs h" "header_valid (frame_header hdr)"
    "packet_bytes h' p = header_bytes (frame_header hdr) @ packet_bytes h p"
    "\<And>x. managed h x \<Longrightarrow> x \<noteq> p \<Longrightarrow> packet_bytes h' x = packet_bytes h x"
    "length (packet_bytes h p) + 16 \<le> 1444"
proof -
  obtain a h1 where push: "linkg_packet_push (Some p) 16 h = (Some a, h1)"
    and h': "h' = h1\<lparr>byte_at := mem_write a (header_bytes (frame_header hdr)) (byte_at h1)\<rparr>"
    and valid: "header_valid (frame_header hdr)" and len: "pk_data_length (pk_at h p) + 16 \<le> 1444"
    using assms(3) by (rule encode_cases)
  have "length (header_bytes (frame_header hdr)) = unat (16 :: u32)" by (simp add: base_header.length_enc)
  note w = push_write [OF assms(1,2) push this h']
  have "unat (pk_data_length (pk_at h p) + 16) = length (packet_bytes h p) + 16"
    using w(6) arg_cong [OF h', of "\<lambda>h. pk_at h p"] push assms(1,2)
    by (auto simp: length_packet_bytes linkg_packet_push_def Let_def split: if_splits)
  then show "length (packet_bytes h p) + 16 \<le> 1444" using len by (simp add: word_le_nat_alt)
  show "heap_ok h'" "managed h' p" "refs h' = refs h" "header_valid (frame_header hdr)"
    "packet_bytes h' p = header_bytes (frame_header hdr) @ packet_bytes h p"
    "\<And>x. managed h x \<Longrightarrow> x \<noteq> p \<Longrightarrow> packet_bytes h' x = packet_bytes h x"
    by (fact w valid)+
qed

lemma fragment_encode_facts:
  assumes "heap_ok h" "managed h p" "linkg_transport_wire_fragment_encode (Some p) (Some hdr) h = (0, h')"
  shows "heap_ok h'" "managed h' p" "refs h' = refs h" "fh_packet_id hdr \<noteq> 0"
    "packet_bytes h' p = fragment_header_bytes hdr @ packet_bytes h p"
    "linkg_transport_wire_fragment_layout_valid (fh_fragment_offset hdr) (fh_packet_length hdr)
       (of_nat (length (packet_bytes h p)))"
    "packet_bytes h p \<noteq> []"
    "\<And>x. managed h x \<Longrightarrow> x \<noteq> p \<Longrightarrow> packet_bytes h' x = packet_bytes h x"
    "\<And>x. managed h x \<Longrightarrow> managed h' x"
proof -
  obtain a h1 where push: "linkg_packet_push (Some p) 8 h = (Some a, h1)"
    and h': "h' = h1\<lparr>byte_at := mem_write a (fragment_header_bytes hdr) (byte_at h1)\<rparr>"
    and guards: "fh_packet_id hdr \<noteq> 0" "pk_data_length (pk_at h p) \<noteq> 0"
      "linkg_transport_wire_fragment_layout_valid (fh_fragment_offset hdr) (fh_packet_length hdr)
         (pk_data_length (pk_at h p))"
    using assms(3) unfolding linkg_transport_wire_fragment_encode_def
    by (auto simp: Let_def split: if_splits option.splits prod.splits)
  have "length (fragment_header_bytes hdr) = unat (8 :: u32)" by (simp add: frag_header.length_enc)
  note w = push_write [OF assms(1,2) push this h']
  show "heap_ok h'" "managed h' p" "refs h' = refs h" "fh_packet_id hdr \<noteq> 0"
    "packet_bytes h' p = fragment_header_bytes hdr @ packet_bytes h p"
    "\<And>x. managed h x \<Longrightarrow> x \<noteq> p \<Longrightarrow> packet_bytes h' x = packet_bytes h x"
    by (fact w guards)+
  have len: "length (packet_bytes h p) = unat (pk_data_length (pk_at h p))"
    by (rule length_packet_bytes [OF assms(1,2)])
  with guards show "packet_bytes h p \<noteq> []"
    "linkg_transport_wire_fragment_layout_valid (fh_fragment_offset hdr) (fh_packet_length hdr)
       (of_nat (length (packet_bytes h p)))"
    using unat_pos [OF guards(2)] by auto
  show "managed h' x" if "managed h x" for x
    using that push by (auto simp: managed_def h' linkg_packet_push_def Let_def split: if_splits option.splits)
qed

lemma fragment_decode_iff:
  assumes "heap_ok h" "managed h p"
  shows "linkg_transport_wire_fragment_decode (Some p) h = Inr d \<longleftrightarrow>
     25 \<le> length (packet_bytes h p) \<and> length (packet_bytes h p) \<le> 1444 \<and> fh_packet_id d \<noteq> 0 \<and>
     take 8 (drop 16 (packet_bytes h p)) = fragment_header_bytes d \<and>
     linkg_transport_wire_fragment_layout_valid (fh_fragment_offset d) (fh_packet_length d)
       (of_nat (length (packet_bytes h p) - 24))" (is "?L \<longleftrightarrow> ?R")
proof -
  obtain a where a: "linkg_packet_data p h = Some a" using managed_data [OF assms] by auto
  let ?l = "pk_data_length (pk_at h p)" and ?d = "fragment_header_of (mem_read (byte_at h) (a + 16) 8)"
  have "?L \<longleftrightarrow> (25 \<le> ?l \<and> ?l \<le> 1444 \<and> fh_packet_id ?d \<noteq> 0 \<and>
      linkg_transport_wire_fragment_layout_valid (fh_fragment_offset ?d) (fh_packet_length ?d) (?l - 24) \<and> ?d = d)"
    unfolding linkg_transport_wire_fragment_decode_def option.case a Let_def not_less [symmetric] by auto
  moreover have "take 8 (drop 16 (packet_bytes h p)) = fragment_header_bytes ?d" if "25 \<le> ?l"
    using that frag_header.enc_of_read [of "byte_at h" "a + 16"]
    by (simp add: packet_bytes_at [OF a] mem_simps word_le_nat_alt)
  moreover have "?l - 24 = of_nat (length (packet_bytes h p) - 24)" if "25 \<le> ?l"
    using that arg_cong [OF unat_sub_le [of 24 ?l], of "of_nat :: nat \<Rightarrow> u32"]
    by (simp add: length_packet_bytes [OF assms] word_le_nat_alt)
  ultimately show ?thesis
    unfolding length_packet_bytes [OF assms]
    by (auto simp: word_le_nat_alt frag_header.enc_inject)
qed

text \<open>
  Encoding a base header in front of a managed packet succeeds only for a valid header; the packet then
  carries the header bytes followed by its old contents, every other packet keeps its contents and every
  reference count stays; decoding the frame gives back the header with the protocol's magic, version and
  reserved field, for a fragment frame as soon as the payload exceeds the 8-byte extension.
\<close>

theorem wire_encode_decode:
  assumes "heap_ok h" "managed h p" "linkg_transport_wire_encode (Some p) (Some hdr) h = (0, h')"
  shows "heap_ok h' \<and> refs h' = refs h \<and>
     packet_bytes h' p = header_bytes (frame_header hdr) @ packet_bytes h p \<and>
     (\<forall>x. managed h x \<longrightarrow> x \<noteq> p \<longrightarrow> packet_bytes h' x = packet_bytes h x) \<and>
     linkg_transport_wire_decode (Some p) h' =
       (if th_flags hdr AND LINKG_TRANSPORT_FLAG_FRAGMENT \<noteq> 0 \<and> length (packet_bytes h p) \<le> 8
        then Inl (- EPROTO) else Inr (frame_header hdr))"
proof -
  note e = encode_facts [OF assms]
  show ?thesis
  proof (cases "th_flags hdr AND LINKG_TRANSPORT_FLAG_FRAGMENT \<noteq> 0 \<and> length (packet_bytes h p) \<le> 8")
    case False
    then have "linkg_transport_wire_decode (Some p) h' = Inr (frame_header hdr)"
      using e unfolding decode_iff [OF e(1,2)] by (auto simp: base_header.length_enc frame_header_simps)
    then show ?thesis using e False by simp
  next
    case True
    obtain a where a: "linkg_packet_data p h' = Some a" using managed_data [OF e(1,2)] by auto
    have len: "unat (pk_data_length (pk_at h' p)) = length (packet_bytes h p) + 16"
      using length_packet_bytes [OF e(1,2)] e(5) by (simp add: base_header.length_enc)
    have "take 16 (packet_bytes h' p) = header_bytes (frame_header hdr)"
      by (simp add: e(5) base_header.length_enc)
    then have "header_of (mem_read (byte_at h') a 16) = frame_header hdr"
      using len base_header.dec_enc by (simp add: packet_bytes_at [OF a] mem_simps)
    then have "linkg_transport_wire_decode (Some p) h' = Inl (- EPROTO)"
      using True e(7) len unfolding linkg_transport_wire_decode_def option.case a Let_def
      by (auto simp: word_less_nat_alt frame_header_simps)
    then show ?thesis using e True by simp
  qed
qed

text \<open>
  C33. A fragment encoded with its extension and then with a base header that carries the fragment flag is
  decoded to the same two headers, and the bytes behind the 24 header bytes are the fragment's payload.
\<close>

theorem wire_fragment_round_trip:
  assumes "heap_ok h" "managed h p"
    and "linkg_transport_wire_fragment_encode (Some p) (Some fh) h = (0, h1)"
    and "linkg_transport_wire_encode (Some p) (Some hdr) h1 = (0, h2)"
  shows "linkg_transport_wire_decode (Some p) h2 = Inr (frame_header hdr) \<and>
     linkg_transport_wire_fragment_decode (Some p) h2 = Inr fh \<and>
     drop 24 (packet_bytes h2 p) = packet_bytes h p \<and>
     (\<forall>x. managed h x \<longrightarrow> x \<noteq> p \<longrightarrow> packet_bytes h2 x = packet_bytes h x)"
proof -
  note f = fragment_encode_facts [OF assms(1-3)]
  note e = encode_facts [OF f(1,2) assms(4)]
  have bytes: "packet_bytes h2 p = header_bytes (frame_header hdr) @ fragment_header_bytes fh @ packet_bytes h p"
    using e(5) f(5) by simp
  have "Suc 0 \<le> length (packet_bytes h p)" using f(7) by (simp add: Suc_le_eq)
  then have "linkg_transport_wire_decode (Some p) h2 = Inr (frame_header hdr)"
    "linkg_transport_wire_fragment_decode (Some p) h2 = Inr fh"
    using e(4,7) f(4-6) unfolding decode_iff [OF e(1,2)] fragment_decode_iff [OF e(1,2)] bytes
    by (auto simp: base_header.length_enc frag_header.length_enc)
  then show ?thesis using e(6) f(8,9) by (simp add: bytes base_header.length_enc frag_header.length_enc)
qed


lemma update_sequence_step:
  assumes "heap_ok h" "managed h p" "linkg_transport_wire_decode (Some p) h = Inr d"
  obtains h' where "linkg_transport_wire_update_sequence (Some p) sequence h = (0, h')" "heap_ok h'" "refs h' = refs h"
    "packet_bytes h' p = header_bytes (d\<lparr>th_sequence := sequence\<rparr>) @ drop 16 (packet_bytes h p)"
    "pk_at h' = pk_at h" "pool_at h' = pool_at h" "managed h' = managed h"
    "\<And>x. managed h x \<Longrightarrow> x \<noteq> p \<Longrightarrow> packet_bytes h' x = packet_bytes h x"
proof -
  note d = assms(3) [unfolded decode_iff [OF assms(1,2)]]
  obtain a where a: "linkg_packet_data p h = Some a" using managed_data [OF assms(1,2)] by auto
  let ?l = "unat (pk_data_length (pk_at h p))" and ?bs = "header_bytes (d\<lparr>th_sequence := sequence\<rparr>)"
  have len: "16 \<le> ?l" "?l \<le> 1444" using d by (auto simp: length_packet_bytes [OF assms(1,2)])
  have "mem_read (byte_at h) a 16 = header_bytes d"
    using d len by (simp add: packet_bytes_at [OF a] mem_simps)
  then have read: "header_of (mem_read (byte_at h) a 16) = d" by (simp add: base_header.dec_enc)
  let ?h = "h\<lparr>byte_at := mem_write a ?bs (byte_at h)\<rparr>"
  have upd: "linkg_transport_wire_update_sequence (Some p) sequence h = (0, ?h)"
    using d len unfolding linkg_transport_wire_update_sequence_def option.case a Let_def read
    by (cases d) (auto simp: header_valid_def frame_header_def word_less_nat_alt)
  have bytes: "packet_bytes ?h p = ?bs @ drop 16 (packet_bytes h p)"
    using base_header.frame_after_write [of ?l "?l - 16"] len
    by (simp add: packet_bytes_at [OF a] packet_bytes_at [of p ?h a] a mem_simps)
  have "within_slot h p a (length ?bs)"
    using data_within_slot [OF assms(1,2) a] len by (simp add: within_slot_def base_header.length_enc)
  then have others: "packet_bytes ?h x = packet_bytes h x" if "managed h x" "x \<noteq> p" for x
    using packet_bytes_write_other [OF assms(1,2) that] by simp
  show ?thesis by (rule that [OF upd _ _ bytes _ _ _ others]) (simp_all add: assms(1))
qed

text \<open>
  \<open>linkg_transport_wire_update_sequence\<close> succeeds on every frame the decoder accepts; afterwards the
  frame decodes to the same header with the new sequence number, the payload, the descriptors and the
  contents of every other packet are as before.
\<close>

theorem wire_update_sequence_only:
  assumes "heap_ok h" "managed h p" "linkg_transport_wire_decode (Some p) h = Inr d"
  shows "\<exists>h'. linkg_transport_wire_update_sequence (Some p) sequence h = (0, h') \<and>
     linkg_transport_wire_decode (Some p) h' = Inr (d\<lparr>th_sequence := sequence\<rparr>) \<and>
     drop 16 (packet_bytes h' p) = drop 16 (packet_bytes h p) \<and>
     pk_at h' = pk_at h \<and> pool_at h' = pool_at h \<and>
     (\<forall>x. managed h x \<longrightarrow> x \<noteq> p \<longrightarrow> packet_bytes h' x = packet_bytes h x)"
proof -
  note d = assms(3) [unfolded decode_iff [OF assms(1,2)]]
  have frame: "header_valid (x\<lparr>th_sequence := s\<rparr>) = header_valid x" for x s
    by (cases x) (simp add: header_valid_def frame_header_def)
  obtain h' where u: "linkg_transport_wire_update_sequence (Some p) sequence h = (0, h')" "heap_ok h'" "refs h' = refs h"
    "packet_bytes h' p = header_bytes (d\<lparr>th_sequence := sequence\<rparr>) @ drop 16 (packet_bytes h p)"
    "pk_at h' = pk_at h" "pool_at h' = pool_at h" "managed h' = managed h"
    "\<And>x. managed h x \<Longrightarrow> x \<noteq> p \<Longrightarrow> packet_bytes h' x = packet_bytes h x"
    by (rule update_sequence_step [OF assms]) blast
  have "managed h' p" using u(7) assms(2) by simp
  then have "linkg_transport_wire_decode (Some p) h' = Inr (d\<lparr>th_sequence := sequence\<rparr>)"
    unfolding decode_iff [OF u(2) \<open>managed h' p\<close>] u(4) using d by (simp add: frame base_header.length_enc)
  then show ?thesis using u by (intro exI [of _ h']) (simp add: base_header.length_enc)
qed

definition sample_header :: linkg_transport_header where
  "sample_header = \<lparr>th_magic = 0, th_version = 0, th_type = 2, th_flags = 0, th_sequence = 7,
     th_source_node_id = 1, th_destination_node_id = 2, th_reserved = 0\<rparr>"

definition sample_frame :: heap where
  "sample_frame = snd (linkg_transport_wire_encode (Some 103) (Some sample_header) sample_heap1)"

lemma sample_encode:
  "linkg_transport_wire_encode (Some 103) (Some sample_header) sample_heap1 = (0, sample_frame)"
  by (simp add: prod_eq_iff sample_frame_def) (simp add: linkg_transport_wire_encode_def sample_packet
      sample_header_def linkg_transport_type_valid_def linkg_transport_wire_flags_valid_def
      linkg_transport_wire_node_id_valid_def linkg_packet_headroom_def linkg_packet_push_def
      linkg_packet_data_def Let_def)

lemma sample_frame_facts:
  "heap_ok sample_frame" "managed sample_frame 103"
  "linkg_transport_wire_decode (Some 103) sample_frame = Inr (frame_header sample_header)"
proof -
  note e = encode_facts [OF sample_heap1_facts(1) sample_packet(3) sample_encode]
  show "heap_ok sample_frame" "managed sample_frame 103" by (fact e)+
  show "linkg_transport_wire_decode (Some 103) sample_frame = Inr (frame_header sample_header)"
    using e(4,5,7) unfolding decode_iff [OF e(1,2)]
    by (simp add: base_header.length_enc) (simp add: frame_header_def sample_header_def)
qed

theorem wire_encode_decode_witness:
  "linkg_transport_wire_decode (Some 103) sample_frame = Inr (frame_header sample_header)"
  using wire_encode_decode [OF sample_heap1_facts(1) sample_packet(3) sample_encode]
  by (simp add: sample_header_def)


theorem wire_update_sequence_only_witness:
  "\<exists>h'. linkg_transport_wire_update_sequence (Some 103) 9 sample_frame = (0, h') \<and>
     linkg_transport_wire_decode (Some 103) h' = Inr ((frame_header sample_header)\<lparr>th_sequence := 9\<rparr>)"
  using wire_update_sequence_only [OF sample_frame_facts, of 9] by blast

definition sample_fragment :: linkg_transport_fragment_header where
  "sample_fragment = \<lparr>fh_packet_id = 5, fh_fragment_offset = 0, fh_packet_length = 1500\<rparr>"

definition sample_heap2 :: heap where
  "sample_heap2 = upd_pk 103 (\<lambda>k. k\<lparr>pk_data_length := 1420\<rparr>) sample_heap1"

lemma sample_heap2_facts: "heap_ok sample_heap2" "managed sample_heap2 103"
  using heap_ok_set_length [OF sample_heap1_facts(1) sample_packet(3) sample_heap1_facts(3), of 1420]
    sample_packet by (simp_all add: sample_heap2_def)

definition sample_heap3 :: heap where
  "sample_heap3 = snd (linkg_transport_wire_fragment_encode (Some 103) (Some sample_fragment) sample_heap2)"

lemma sample_fragment_encode:
  "linkg_transport_wire_fragment_encode (Some 103) (Some sample_fragment) sample_heap2 = (0, sample_heap3)"
  by (simp add: prod_eq_iff sample_heap3_def) (simp add: linkg_transport_wire_fragment_encode_def
      sample_heap2_def sample_packet sample_fragment_def linkg_transport_wire_fragment_layout_valid_def
      linkg_packet_headroom_def linkg_packet_push_def linkg_packet_data_def Let_def)

lemma sample_fragment_frame:
  "linkg_transport_wire_encode (Some 103) (Some (sample_header\<lparr>th_flags := 1\<rparr>)) sample_heap3 =
     (0, snd (linkg_transport_wire_encode (Some 103) (Some (sample_header\<lparr>th_flags := 1\<rparr>)) sample_heap3))"
proof -
  have "pk_at sample_heap3 103 = \<lparr>pk_pool = Some 0, pk_slot = Some 10240, pk_reference_count = 1,
     pk_data_offset = 248, pk_data_length = 1428, pk_flags = 0\<rparr>"
    by (simp add: sample_heap3_def linkg_transport_wire_fragment_encode_def
      sample_heap2_def sample_packet sample_fragment_def linkg_transport_wire_fragment_layout_valid_def
      linkg_packet_headroom_def linkg_packet_push_def linkg_packet_data_def Let_def)
  then show ?thesis
    by (simp add: prod_eq_iff linkg_transport_wire_encode_def
      sample_header_def linkg_transport_type_valid_def linkg_transport_wire_flags_valid_def
      linkg_transport_wire_node_id_valid_def linkg_packet_headroom_def linkg_packet_push_def
      linkg_packet_data_def Let_def)
qed

theorem wire_fragment_round_trip_witness:
  "linkg_transport_wire_fragment_decode (Some 103)
     (snd (linkg_transport_wire_encode (Some 103) (Some (sample_header\<lparr>th_flags := 1\<rparr>)) sample_heap3)) =
   Inr sample_fragment"
  using wire_fragment_round_trip [OF sample_heap2_facts sample_fragment_encode sample_fragment_frame] by simp

end
