(* ===== verification/Transport_Window.thy ===== *)
theory Transport_Window
  imports Linkg_Prelude
begin

text \<open>
  The receive sequence window: \<open>src/core/transport/transport_window.c\<close> with the types of
  \<open>src/core/transport/transport_internal.h\<close>.

  One window per peer and traffic class remembers, in a bitmap of 512 bits held in eight 64-bit
  words, which of the last 512 sequence numbers arrived; bit 0 is the highest sequence seen. It
  answers for every arriving sequence whether to accept it, and how many sequences have left the
  window without ever arriving. The specification is a receiver with unbounded sequence numbers
  and the full history of what it accepted; the window with its 32-bit wrap-around and its
  shifted words is proved to give the same answers, and from the specification follow that no
  sequence is accepted twice and that the losses reported add up to the sequences really lost.
\<close>

section \<open>State\<close>

datatype linkg_transport_window_result =
    LINKG_TRANSPORT_WINDOW_INVALID
  | LINKG_TRANSPORT_WINDOW_ACCEPT
  | LINKG_TRANSPORT_WINDOW_DUPLICATE
  | LINKG_TRANSPORT_WINDOW_TOO_OLD

record linkg_transport_rx_window =
  rw_received_bitmap :: "u64 list"
  rw_highest_sequence :: u32
  rw_tracked_count :: u32
  rw_initialized :: bool

abbreviation (input) LINKG_TRANSPORT_RX_WINDOW_BITS :: u32 where "LINKG_TRANSPORT_RX_WINDOW_BITS \<equiv> 512"
abbreviation (input) LINKG_TRANSPORT_RX_WINDOW_WORDS :: nat where "LINKG_TRANSPORT_RX_WINDOW_WORDS \<equiv> 8"

definition bitmap_zero :: "u64 list" where
  "bitmap_zero = replicate LINKG_TRANSPORT_RX_WINDOW_WORDS 0"

section \<open>Bitmap\<close>

definition linkg_transport_window_bit_test :: "linkg_transport_rx_window \<Rightarrow> u32 \<Rightarrow> bool" where
  "linkg_transport_window_bit_test window offset =
     (if offset \<ge> LINKG_TRANSPORT_RX_WINDOW_BITS then False
      else
        (let word_index = offset div 64; bit_index = offset mod 64
         in (rw_received_bitmap window ! unat word_index) AND push_bit (unat bit_index) 1 \<noteq> 0))"

definition linkg_transport_window_bit_set :: "u32 \<Rightarrow> linkg_transport_rx_window \<Rightarrow> linkg_transport_rx_window" where
  "linkg_transport_window_bit_set offset window =
     (if offset \<ge> LINKG_TRANSPORT_RX_WINDOW_BITS then window
      else
        (let word_index = offset div 64; bit_index = offset mod 64; bm = rw_received_bitmap window
         in window\<lparr>rw_received_bitmap :=
              bm[unat word_index := (bm ! unat word_index) OR push_bit (unat bit_index) 1]\<rparr>))"

definition linkg_transport_window_count_missing ::
    "linkg_transport_rx_window \<Rightarrow> u32 \<Rightarrow> u32 \<Rightarrow> u32" where
  "linkg_transport_window_count_missing window start_offset end_offset =
     (if start_offset \<ge> end_offset then 0
      else
        (let end_offset = (if end_offset > rw_tracked_count window then rw_tracked_count window else end_offset)
         in fold (\<lambda>offset missing. if \<not> linkg_transport_window_bit_test window (of_nat offset)
                                  then missing + 1 else missing)
              [unat start_offset..<unat end_offset] 0))"

text \<open>
  The loop fills each destination word from at most two source words and reads only the old
  bitmap, so it is a map over the destination indices; the words below \<open>word_shift\<close> stay zero.
\<close>

definition shifted_word :: "u64 list \<Rightarrow> nat \<Rightarrow> nat \<Rightarrow> nat \<Rightarrow> u64" where
  "shifted_word bm word_shift bit_shift destination_word =
     (if destination_word < word_shift then 0
      else
        (let source_word = destination_word - word_shift;
             shifted = push_bit bit_shift (bm ! source_word)
         in if bit_shift \<noteq> 0 \<and> source_word > 0
            then shifted OR drop_bit (64 - bit_shift) (bm ! (source_word - 1)) else shifted))"

definition linkg_transport_window_shift :: "u32 \<Rightarrow> linkg_transport_rx_window \<Rightarrow> linkg_transport_rx_window" where
  "linkg_transport_window_shift advance window =
     (if advance = 0 then window
      else if advance \<ge> LINKG_TRANSPORT_RX_WINDOW_BITS then window\<lparr>rw_received_bitmap := bitmap_zero\<rparr>
      else
        (let word_shift = unat (advance div 64); bit_shift = unat (advance mod 64)
         in window\<lparr>rw_received_bitmap :=
              map (shifted_word (rw_received_bitmap window) word_shift bit_shift)
                [0..<LINKG_TRANSPORT_RX_WINDOW_WORDS]\<rparr>))"

definition linkg_transport_window_confirm_lost :: "linkg_transport_rx_window \<Rightarrow> u32 \<Rightarrow> u32" where
  "linkg_transport_window_confirm_lost window advance =
     (if advance = 0 \<or> rw_tracked_count window = 0 then 0
      else if advance \<ge> LINKG_TRANSPORT_RX_WINDOW_BITS
      then linkg_transport_window_count_missing window 0 (rw_tracked_count window) +
             (advance - LINKG_TRANSPORT_RX_WINDOW_BITS)
      else
        (let leaving_offset = LINKG_TRANSPORT_RX_WINDOW_BITS - advance
         in if rw_tracked_count window \<le> leaving_offset then 0
            else linkg_transport_window_count_missing window leaving_offset (rw_tracked_count window)))"

section \<open>Window operations\<close>

definition linkg_transport_window_reset :: "linkg_transport_rx_window option \<Rightarrow> linkg_transport_rx_window option" where
  "linkg_transport_window_reset window =
     map_option (\<lambda>_. \<lparr>rw_received_bitmap = bitmap_zero, rw_highest_sequence = 0, rw_tracked_count = 0,
       rw_initialized = False\<rparr>) window"

text \<open>The result is the verdict, \<open>*confirmed_lost\<close> and the window afterwards.\<close>

definition linkg_transport_window_accept_ex ::
    "linkg_transport_rx_window option \<Rightarrow> u32 \<Rightarrow>
     linkg_transport_window_result \<times> u32 \<times> linkg_transport_rx_window option" where
  "linkg_transport_window_accept_ex window sequence =
     (case window of
        None \<Rightarrow> (LINKG_TRANSPORT_WINDOW_INVALID, 0, None)
      | Some w \<Rightarrow>
         (if \<not> rw_initialized w
          then (LINKG_TRANSPORT_WINDOW_ACCEPT, 0,
                Some (linkg_transport_window_bit_set 0
                  (w\<lparr>rw_received_bitmap := bitmap_zero, rw_highest_sequence := sequence,
                     rw_tracked_count := 1, rw_initialized := True\<rparr>)))
          else
            (let delta = sint (sequence - rw_highest_sequence w) in
             if delta > 0
             then
               (let advance = word_of_int delta;
                    lost = linkg_transport_window_confirm_lost w advance;
                    w1 = linkg_transport_window_shift advance w;
                    new_tracked_count = rw_tracked_count w1 + advance;
                    new_tracked_count =
                      (if new_tracked_count < rw_tracked_count w1 \<or>
                          new_tracked_count > LINKG_TRANSPORT_RX_WINDOW_BITS
                       then LINKG_TRANSPORT_RX_WINDOW_BITS else new_tracked_count)
                in (LINKG_TRANSPORT_WINDOW_ACCEPT, lost,
                    Some (linkg_transport_window_bit_set 0
                      (w1\<lparr>rw_highest_sequence := sequence, rw_tracked_count := new_tracked_count\<rparr>))))
             else
               (let behind = rw_highest_sequence w - sequence in
                if behind \<ge> LINKG_TRANSPORT_RX_WINDOW_BITS \<or> behind \<ge> rw_tracked_count w
                then (LINKG_TRANSPORT_WINDOW_TOO_OLD, 0, Some w)
                else if linkg_transport_window_bit_test w behind
                then (LINKG_TRANSPORT_WINDOW_DUPLICATE, 0, Some w)
                else (LINKG_TRANSPORT_WINDOW_ACCEPT, 0, Some (linkg_transport_window_bit_set behind w))))))"

definition linkg_transport_window_accept ::
    "linkg_transport_rx_window option \<Rightarrow> u32 \<Rightarrow> linkg_transport_window_result \<times> linkg_transport_rx_window option" where
  "linkg_transport_window_accept window sequence =
     (let (result, _, window') = linkg_transport_window_accept_ex window sequence in (result, window'))"

section \<open>Bits of the bitmap\<close>

definition recv :: "linkg_transport_rx_window \<Rightarrow> nat \<Rightarrow> bool" where
  "recv w k \<longleftrightarrow> k < 512 \<and> bit (rw_received_bitmap w ! (k div 64)) (k mod 64)"

lemma bit_test_recv: "linkg_transport_window_bit_test w offset = recv w (unat offset)"
proof -
  have "unat (offset div 64) = unat offset div 64" "unat (offset mod 64) = unat offset mod 64"
    by (simp_all add: unat_div unat_mod)
  then show ?thesis
    by (auto simp: linkg_transport_window_bit_test_def recv_def word_le_nat_alt and_exp_eq_0_iff_not_bit)
qed

lemma bit_set_recv:
  assumes "length (rw_received_bitmap w) = 8"
  shows "recv (linkg_transport_window_bit_set offset w) k \<longleftrightarrow> recv w k \<or> (k = unat offset \<and> k < 512)"
    and "length (rw_received_bitmap (linkg_transport_window_bit_set offset w)) = 8"
    and "rw_highest_sequence (linkg_transport_window_bit_set offset w) = rw_highest_sequence w"
    and "rw_tracked_count (linkg_transport_window_bit_set offset w) = rw_tracked_count w"
    and "rw_initialized (linkg_transport_window_bit_set offset w) = rw_initialized w"
proof -
  have idx: "unat (offset div 64) = unat offset div 64" "unat (offset mod 64) = unat offset mod 64"
    by (simp_all add: unat_div unat_mod)
  have "k = j" if "k div 64 = j div 64" "k mod 64 = j mod 64" for j
    using that by (metis div_mult_mod_eq)
  then show "recv (linkg_transport_window_bit_set offset w) k \<longleftrightarrow> recv w k \<or> (k = unat offset \<and> k < 512)"
    using assms by (auto simp: linkg_transport_window_bit_set_def recv_def word_le_nat_alt idx nth_list_update
        bit_simps Let_def)
qed (auto simp: linkg_transport_window_bit_set_def assms Let_def)

lemma bitmap_zero_recv [simp]: "\<not> recv (w\<lparr>rw_received_bitmap := bitmap_zero\<rparr>) k"
  by (auto simp: recv_def bitmap_zero_def)


lemma recv_word: "j < 8 \<Longrightarrow> i < 64 \<Longrightarrow> recv w (64 * j + i) \<longleftrightarrow> bit (rw_received_bitmap w ! j) i"
  by (simp add: recv_def)

lemma bit_u64_high: "64 \<le> n \<Longrightarrow> \<not> bit (v :: u64) n"
  using bit_imp_le_length [of v n] by auto

lemma shift_recv:
  assumes "length (rw_received_bitmap w) = 8" "k < 512"
  shows "recv (linkg_transport_window_shift advance w) k \<longleftrightarrow> unat advance \<le> k \<and> recv w (k - unat advance)"
proof -
  consider "advance = 0" | "512 \<le> unat advance" | "advance \<noteq> 0" "unat advance < 512" by linarith
  then show ?thesis
  proof cases
    case 2
    then show ?thesis using assms by (simp add: linkg_transport_window_shift_def word_le_nat_alt) auto
  next
    case 3
    define d r ws bs where "d = k div 64" and "r = k mod 64" and "ws = unat advance div 64" and "bs = unat advance mod 64"
    have kd: "k = 64 * d + r" "unat advance = 64 * ws + bs" "r < 64" "bs < 64" "d < 8"
      using assms(2) by (auto simp: d_def r_def ws_def bs_def)
    let ?bm = "rw_received_bitmap w"
    have "recv (linkg_transport_window_shift advance w) k \<longleftrightarrow> bit (shifted_word ?bm ws bs d) r"
      using 3 assms kd(5) by (simp add: linkg_transport_window_shift_def recv_def word_le_nat_alt unat_div unat_mod
          d_def r_def ws_def bs_def)
    also have "\<dots> \<longleftrightarrow> unat advance \<le> k \<and> recv w (k - unat advance)"
    proof (cases "bs \<le> r")
      case True
      then have "unat advance \<le> k \<longleftrightarrow> ws \<le> d"
        "recv w (k - unat advance) \<longleftrightarrow> bit (?bm ! (d - ws)) (r - bs)" if "ws \<le> d"
        using kd that recv_word [of "d - ws" "r - bs" w] by (auto simp: diff_mult_distrib2)
      then show ?thesis
        using True kd by (cases "ws \<le> d") (auto simp: shifted_word_def Let_def bit_simps bit_u64_high)
    next
      case False
      then have "unat advance \<le> k \<longleftrightarrow> ws < d"
        "recv w (k - unat advance) \<longleftrightarrow> bit (?bm ! (d - ws - 1)) (64 + r - bs)" if "ws < d"
        using kd that recv_word [of "d - ws - 1" "64 + r - bs" w] by (auto simp: diff_mult_distrib2)
      then show ?thesis
        using False kd by (cases "ws < d") (auto simp: shifted_word_def Let_def bit_simps add.commute)
    qed
    finally show ?thesis .
  qed (simp add: linkg_transport_window_shift_def)
qed


lemma count_missing_card:
  assumes "rw_tracked_count w \<le> 512"
  shows "unat (linkg_transport_window_count_missing w start (rw_tracked_count w)) =
    card {k \<in> {unat start..<unat (rw_tracked_count w)}. \<not> recv w k}"
proof -
  let ?t = "unat (rw_tracked_count w)"
  have t: "?t \<le> 512" using assms by (simp add: word_le_nat_alt)
  have loop: "unat (fold (\<lambda>offset missing. if \<not> linkg_transport_window_bit_test w (of_nat offset)
      then missing + 1 else missing) ks (c :: u32)) = unat c + length (filter (\<lambda>k. \<not> recv w k) ks)"
    if "set ks \<subseteq> {..<512}" "unat c + length ks \<le> 512" for ks c
    using that
  proof (induction ks arbitrary: c)
    case (Cons k ks)
    have "unat (of_nat k :: u32) = k" using Cons.prems(1) by (simp add: unat_of_nat)
    moreover have "unat (c + 1) = unat c + 1" using Cons.prems(2) by (intro unat_inc) simp
    ultimately show ?case using Cons.IH [of "c + 1"] Cons.IH [of c] Cons.prems
      by (auto simp: bit_test_recv)
  qed simp
  have "set [unat start..<?t] \<subseteq> {..<512}" using t by auto
  then have "unat (fold (\<lambda>offset missing. if \<not> linkg_transport_window_bit_test w (of_nat offset)
      then missing + 1 else missing) [unat start..<?t] (0 :: u32)) =
    length (filter (\<lambda>k. \<not> recv w k) [unat start..<?t])"
    using t by (subst loop) simp_all
  then have "unat (linkg_transport_window_count_missing w start (rw_tracked_count w)) =
    length (filter (\<lambda>k. \<not> recv w k) [unat start..<?t])"
    using t by (auto simp: linkg_transport_window_count_missing_def word_le_nat_alt)
  also have "\<dots> = card (set (filter (\<lambda>k. \<not> recv w k) [unat start..<?t]))"
    by (rule distinct_card [symmetric]) simp
  also have "set (filter (\<lambda>k. \<not> recv w k) [unat start..<?t]) = {k \<in> {unat start..<?t}. \<not> recv w k}"
    by auto
  finally show ?thesis .
qed

section \<open>The receiver with full history\<close>

record ideal_receiver =
  ir_first :: int
  ir_high :: int
  ir_received :: "int set"

text \<open>
  Sequence numbers are integers that never wrap. A sequence is too old when it lies 512 or more behind
  the highest one or before the first one ever seen; it is lost once it is 512 behind without having been
  received.
\<close>

definition ideal_accept ::
    "ideal_receiver option \<Rightarrow> int \<Rightarrow> linkg_transport_window_result \<times> nat \<times> ideal_receiver" where
  "ideal_accept receiver x =
     (case receiver of
        None \<Rightarrow> (LINKG_TRANSPORT_WINDOW_ACCEPT, 0, \<lparr>ir_first = x, ir_high = x, ir_received = {x}\<rparr>)
      | Some s \<Rightarrow>
         (if x > ir_high s
          then (LINKG_TRANSPORT_WINDOW_ACCEPT,
                card ({max (ir_first s) (ir_high s - 511)..x - 512} - ir_received s),
                s\<lparr>ir_high := x, ir_received := insert x (ir_received s)\<rparr>)
          else if x \<le> ir_high s - 512 \<or> x < ir_first s then (LINKG_TRANSPORT_WINDOW_TOO_OLD, 0, s)
          else if x \<in> ir_received s then (LINKG_TRANSPORT_WINDOW_DUPLICATE, 0, s)
          else (LINKG_TRANSPORT_WINDOW_ACCEPT, 0, s\<lparr>ir_received := insert x (ir_received s)\<rparr>)))"

definition window_rel :: "linkg_transport_rx_window \<Rightarrow> ideal_receiver option \<Rightarrow> bool" where
  "window_rel w receiver \<longleftrightarrow>
     (case receiver of
        None \<Rightarrow> \<not> rw_initialized w
      | Some s \<Rightarrow>
         rw_initialized w \<and> length (rw_received_bitmap w) = 8 \<and>
         rw_highest_sequence w = of_int (ir_high s) \<and>
         ir_received s \<subseteq> {ir_first s..ir_high s} \<and> ir_first s \<le> ir_high s \<and>
         unat (rw_tracked_count w) = nat (min 512 (ir_high s - ir_first s + 1)) \<and>
         (\<forall>k<512. recv w k \<longleftrightarrow> ir_high s - int k \<in> ir_received s))"

text \<open>The sequences a 32-bit receiver can tell apart from the current position.\<close>

definition in_horizon :: "ideal_receiver option \<Rightarrow> int \<Rightarrow> bool" where
  "in_horizon receiver x \<longleftrightarrow>
     (case receiver of None \<Rightarrow> True
      | Some s \<Rightarrow> - (2 ^ 31) \<le> x - ir_high s \<and> x - ir_high s < 2 ^ 31)"

lemma card_missing:
  "card {k \<in> {a..<t}. high - int k \<notin> R} = card ({high - int t + 1..high - int a} - R)"
proof (rule bij_betw_same_card [of "\<lambda>k. high - int k"])
  show "bij_betw (\<lambda>k. high - int k) {k \<in> {a..<t}. high - int k \<notin> R} ({high - int t + 1..high - int a} - R)"
    unfolding bij_betw_def
  proof
    show "(\<lambda>k. high - int k) ` {k \<in> {a..<t}. high - int k \<notin> R} = {high - int t + 1..high - int a} - R"
    proof (intro equalityI subsetI)
      fix y assume y: "y \<in> {high - int t + 1..high - int a} - R"
      then have "y = high - int (nat (high - y))" "nat (high - y) \<in> {a..<t}" by auto
      then show "y \<in> (\<lambda>k. high - int k) ` {k \<in> {a..<t}. high - int k \<notin> R}"
        using y by (metis (mono_tags, lifting) DiffD2 image_eqI mem_Collect_eq)
    qed auto
  qed (auto simp: inj_on_def)
qed

lemma confirm_lost_card:
  assumes "window_rel w (Some s)" "0 < n" "n < 2 ^ 31"
  shows "unat (linkg_transport_window_confirm_lost w (of_int n)) =
    card ({max (ir_first s) (ir_high s - 511)..ir_high s + n - 512} - ir_received s)"
proof -
  let ?h = "ir_high s" and ?R = "ir_received s" and ?t = "unat (rw_tracked_count w)" and ?a = "of_int n :: u32"
  have rel: "?R \<subseteq> {ir_first s..?h}" "ir_first s \<le> ?h" "?t = nat (min 512 (?h - ir_first s + 1))"
    "\<And>k. k < 512 \<Longrightarrow> recv w k \<longleftrightarrow> ?h - int k \<in> ?R"
    using assms(1) by (auto simp: window_rel_def)
  have low: "?h - int ?t + 1 = max (ir_first s) (?h - 511)" and t: "?t \<le> 512" "0 < ?t"
    unfolding rel(3) using rel(2) by auto
  have a: "unat ?a = nat n" using assms(2,3) by (simp add: unsigned_of_int take_bit_int_eq_self)
  have missing: "unat (linkg_transport_window_count_missing w b (rw_tracked_count w)) =
    card ({max (ir_first s) (?h - 511)..?h - int (unat b)} - ?R)" for b
  proof -
    have "{k \<in> {unat b..<?t}. \<not> recv w k} = {k \<in> {unat b..<?t}. ?h - int k \<notin> ?R}"
      using rel(4) t(1) by auto
    moreover have "rw_tracked_count w \<le> 512" using t(1) by (simp add: word_le_nat_alt)
    ultimately show ?thesis unfolding low [symmetric] by (simp only: count_missing_card card_missing)
  qed
  have nz: "?a \<noteq> 0" "rw_tracked_count w \<noteq> 0" using a assms(2) t(2) by auto
  show ?thesis
  proof (cases "n < 512")
    case True
    then have b: "unat (512 - ?a) = 512 - nat n" "\<not> 512 \<le> ?a"
      using a assms(2) by (auto simp: unat_sub_le word_le_nat_alt)
    have "{max (ir_first s) (?h - 511)..?h + n - 512} = {}" if "?t \<le> 512 - nat n"
    proof (rule atLeastatMost_empty)
      have "int ?t \<le> int (512 - nat n)" using that by (rule zle_int [THEN iffD2])
      also have "\<dots> = 512 - n" using True assms(2) by auto
      finally show "?h + n - 512 < max (ir_first s) (?h - 511)" unfolding low [symmetric] by linarith
    qed
    moreover have "?h - int (512 - nat n) = ?h + n - 512" using True assms(2) by auto
    then have "unat (linkg_transport_window_count_missing w (512 - ?a) (rw_tracked_count w)) =
      card ({max (ir_first s) (?h - 511)..?h + n - 512} - ?R)"
      unfolding missing b(1) by (rule arg_cong)
    ultimately show ?thesis using nz b
      by (auto simp: linkg_transport_window_confirm_lost_def Let_def word_le_nat_alt)
  next
    case False
    let ?m = "linkg_transport_window_count_missing w 0 (rw_tracked_count w)"
    have big: "512 \<le> ?a" "unat (?a - 512) = nat n - 512" using False a by (auto simp: unat_sub_le word_le_nat_alt)
    have "unat ?m \<le> card {k \<in> {unat (0 :: u32)..<?t}. \<not> recv w k}"
      using t(1) by (subst count_missing_card) (simp_all add: word_le_nat_alt)
    also have "\<dots> \<le> card {0..<?t}" by (intro card_mono) auto
    finally have "unat ?m + unat (?a - 512) < 2 ^ 32" using t(1) big(2) assms(3) by simp
    then have "unat (?m + (?a - 512)) = unat ?m + (nat n - 512)" using big(2) by (simp add: unat_word_ariths)
    also have "\<dots> = card ({max (ir_first s) (?h - 511)..?h} - ?R) + card {?h + 1..?h + n - 512}"
      using missing [of 0] False by simp
    also have "\<dots> = card (({max (ir_first s) (?h - 511)..?h} - ?R) \<union> {?h + 1..?h + n - 512})"
      by (intro card_Un_disjoint [symmetric]) auto
    also have "({max (ir_first s) (?h - 511)..?h} - ?R) \<union> {?h + 1..?h + n - 512} =
      {max (ir_first s) (?h - 511)..?h + n - 512} - ?R"
      using rel(1,2) False by auto
    finally show ?thesis using nz big(1) by (simp add: linkg_transport_window_confirm_lost_def)
  qed
qed

lemma rel_SomeD:
  assumes "window_rel w (Some s)"
  shows "rw_initialized w" "length (rw_received_bitmap w) = 8" "rw_highest_sequence w = of_int (ir_high s)"
    "ir_received s \<subseteq> {ir_first s..ir_high s}" "ir_first s \<le> ir_high s"
    "unat (rw_tracked_count w) = nat (min 512 (ir_high s - ir_first s + 1))"
    "\<And>k. k < 512 \<Longrightarrow> recv w k \<longleftrightarrow> ir_high s - int k \<in> ir_received s"
  using assms by (simp_all add: window_rel_def)

lemma sint_diff:
  "- (2 ^ 31) \<le> x - y \<Longrightarrow> x - y < 2 ^ 31 \<Longrightarrow> sint (of_int x - of_int y :: u32) = x - y"
  by (simp add: signed_of_int signed_take_bit_int_eq_self flip: of_int_diff)

lemma unat_of_int32: "0 \<le> n \<Longrightarrow> n < 2 ^ 32 \<Longrightarrow> unat (of_int n :: u32) = nat n"
  by (simp add: unsigned_of_int take_bit_int_eq_self)

lemma shift_fields:
  "rw_highest_sequence (linkg_transport_window_shift a w) = rw_highest_sequence w"
  "rw_tracked_count (linkg_transport_window_shift a w) = rw_tracked_count w"
  "rw_initialized (linkg_transport_window_shift a w) = rw_initialized w"
  "length (rw_received_bitmap w) = 8 \<Longrightarrow> length (rw_received_bitmap (linkg_transport_window_shift a w)) = 8"
  by (simp_all add: linkg_transport_window_shift_def bitmap_zero_def Let_def)

lemma recv_cong [simp]:
  "recv (w\<lparr>rw_highest_sequence := a\<rparr>) = recv w" "recv (w\<lparr>rw_tracked_count := b\<rparr>) = recv w"
  "recv (w\<lparr>rw_initialized := c\<rparr>) = recv w"
  by (simp_all add: recv_def fun_eq_iff)

lemma accept_first:
  assumes "\<not> rw_initialized w"
  shows "\<exists>w'. linkg_transport_window_accept_ex (Some w) (of_int x) = (LINKG_TRANSPORT_WINDOW_ACCEPT, 0, Some w') \<and>
    window_rel w' (Some \<lparr>ir_first = x, ir_high = x, ir_received = {x}\<rparr>)"
proof -
  let ?w = "w\<lparr>rw_received_bitmap := bitmap_zero, rw_highest_sequence := of_int x, rw_tracked_count := 1,
    rw_initialized := True\<rparr>"
  have len: "length (rw_received_bitmap ?w) = 8" by (simp add: bitmap_zero_def)
  have "recv (linkg_transport_window_bit_set 0 ?w) k \<longleftrightarrow> k = 0" for k
    unfolding bit_set_recv(1) [OF len] by (auto simp: recv_def bitmap_zero_def)
  then have "window_rel (linkg_transport_window_bit_set 0 ?w) (Some \<lparr>ir_first = x, ir_high = x, ir_received = {x}\<rparr>)"
    using bit_set_recv(2-) [OF len, of 0] by (simp add: window_rel_def)
  then show ?thesis using assms by (simp add: linkg_transport_window_accept_ex_def)
qed

lemma accept_ahead:
  assumes "window_rel w (Some s)" "x > ir_high s" "x - ir_high s < 2 ^ 31"
  shows "\<exists>w'. linkg_transport_window_accept_ex (Some w) (of_int x) =
      (LINKG_TRANSPORT_WINDOW_ACCEPT, linkg_transport_window_confirm_lost w (of_int (x - ir_high s)), Some w') \<and>
    window_rel w' (Some (s\<lparr>ir_high := x, ir_received := insert x (ir_received s)\<rparr>))"
proof -
  note rel = rel_SomeD [OF assms(1)]
  let ?a = "of_int (x - ir_high s) :: u32" and ?t = "rw_tracked_count w"
  define w1 where "w1 = linkg_transport_window_shift ?a w"
  define nt where "nt = (if ?t + ?a < ?t \<or> ?t + ?a > LINKG_TRANSPORT_RX_WINDOW_BITS
    then LINKG_TRANSPORT_RX_WINDOW_BITS else ?t + ?a)"
  let ?w = "w1\<lparr>rw_highest_sequence := of_int x, rw_tracked_count := nt\<rparr>"
  have delta: "sint (of_int x - rw_highest_sequence w) = x - ir_high s"
    using assms(2,3) unfolding rel(3) by (intro sint_diff) auto
  have a: "unat ?a = nat (x - ir_high s)" using assms(2,3) by (intro unat_of_int32) auto
  have t: "unat ?t \<le> 512" using rel(6) by simp
  have "unat (?t + ?a) = unat ?t + unat ?a" using a t assms(3) by (simp add: unat_word_ariths)
  then have nt: "unat nt = nat (min 512 (x - ir_first s + 1))"
    using rel(5) a assms(2) unfolding nt_def word_less_nat_alt rel(6) by auto
  have w1: "length (rw_received_bitmap w1) = 8" "rw_tracked_count w1 = ?t" "rw_initialized w1"
    using rel(1,2) by (simp_all add: w1_def shift_fields)
  have len: "length (rw_received_bitmap ?w) = 8" using w1(1) by simp
  have "recv (linkg_transport_window_bit_set 0 ?w) k \<longleftrightarrow> x - int k \<in> insert x (ir_received s)" if "k < 512" for k
  proof (cases "unat ?a \<le> k")
    case True
    then have "ir_high s - int (k - nat (x - ir_high s)) = x - int k" unfolding a using assms(2) by linarith
    then have "recv w (k - unat ?a) \<longleftrightarrow> x - int k \<in> ir_received s"
      using rel(7) [of "k - nat (x - ir_high s)"] that assms(2) unfolding a by simp
    then show ?thesis
      using True that unfolding bit_set_recv(1) [OF len] by (auto simp: w1_def shift_recv [OF rel(2) that])
  next
    case False
    then have "ir_high s < x - int k" unfolding a using assms(2) by linarith
    then have "x - int k \<notin> ir_received s" using rel(4) by auto
    then show ?thesis
      using False that unfolding bit_set_recv(1) [OF len] by (auto simp: w1_def shift_recv [OF rel(2) that])
  qed
  then have "window_rel (linkg_transport_window_bit_set 0 ?w) (Some (s\<lparr>ir_high := x, ir_received := insert x (ir_received s)\<rparr>))"
    using bit_set_recv(2-) [OF len, of 0] rel(4,5) nt w1(3) assms(2) by (auto simp: window_rel_def)
  moreover have "linkg_transport_window_accept_ex (Some w) (of_int x) =
      (LINKG_TRANSPORT_WINDOW_ACCEPT, linkg_transport_window_confirm_lost w ?a, Some (linkg_transport_window_bit_set 0 ?w))"
    using rel(1) assms(2)
    unfolding linkg_transport_window_accept_ex_def option.case delta w1_def nt_def Let_def shift_fields by simp
  ultimately show ?thesis by blast
qed

lemma accept_behind:
  assumes "window_rel w (Some s)" "x \<le> ir_high s" "- (2 ^ 31) \<le> x - ir_high s"
  shows "\<exists>w'. linkg_transport_window_accept_ex (Some w) (of_int x) =
      (fst (ideal_accept (Some s) x), 0, Some w') \<and> window_rel w' (Some (snd (snd (ideal_accept (Some s) x))))"
proof -
  note rel = rel_SomeD [OF assms(1)]
  let ?b = "of_int (ir_high s - x) :: u32"
  have delta: "sint (of_int x - rw_highest_sequence w) = x - ir_high s" and behind: "rw_highest_sequence w - of_int x = ?b"
    using assms(2,3) unfolding rel(3) by (intro sint_diff) auto
  have b: "unat ?b = nat (ir_high s - x)" using assms(2,3) by (intro unat_of_int32) auto
  have old: "?b \<ge> 512 \<or> ?b \<ge> rw_tracked_count w \<longleftrightarrow> x \<le> ir_high s - 512 \<or> x < ir_first s"
    using assms(2) rel(5) unfolding word_le_nat_alt b rel(6) by auto
  have test: "linkg_transport_window_bit_test w ?b \<longleftrightarrow> x \<in> ir_received s" if "\<not> x \<le> ir_high s - 512"
    using rel(7) [of "nat (ir_high s - x)"] that assms(2) unfolding bit_test_recv b by auto
  have new: "window_rel (linkg_transport_window_bit_set ?b w) (Some (s\<lparr>ir_received := insert x (ir_received s)\<rparr>))"
    if "\<not> (x \<le> ir_high s - 512 \<or> x < ir_first s)"
  proof -
    have "recv (linkg_transport_window_bit_set ?b w) k \<longleftrightarrow> ir_high s - int k \<in> insert x (ir_received s)" if "k < 512" for k
      using that rel(7) [of k] assms(2) unfolding bit_set_recv(1) [OF rel(2)] b by auto
    then show ?thesis using bit_set_recv(2-) [OF rel(2), of ?b] rel that assms(2) by (auto simp: window_rel_def)
  qed
  show ?thesis
    using rel(1) assms(1,2) old test new
    unfolding linkg_transport_window_accept_ex_def ideal_accept_def option.case delta behind Let_def
    by (cases "x \<le> ir_high s - 512 \<or> x < ir_first s"; cases "x \<in> ir_received s") (simp_all del: not_le)
qed

lemma accept_refines:
  assumes "window_rel w s" "in_horizon s x"
  shows "\<exists>lost w'. linkg_transport_window_accept_ex (Some w) (of_int x) = (fst (ideal_accept s x), lost, Some w') \<and>
     unat lost = fst (snd (ideal_accept s x)) \<and> window_rel w' (Some (snd (snd (ideal_accept s x))))"
proof (cases s)
  case None
  then show ?thesis using accept_first [of w x] assms(1) by (auto simp: window_rel_def ideal_accept_def)
next
  case (Some r)
  show ?thesis
  proof (cases "x > ir_high r")
    case True
    then show ?thesis
      using accept_ahead [of w r x] confirm_lost_card [of w r "x - ir_high r"] assms Some
      by (fastforce simp: ideal_accept_def in_horizon_def)
  next
    case False
    then show ?thesis
      using accept_behind [of w r x] assms Some by (fastforce simp: ideal_accept_def in_horizon_def)
  qed
qed

text \<open>
  C1. The receive window with its wrapping 32-bit arithmetic and its shifted bitmap answers exactly like a
  receiver with unbounded sequence numbers that remembers everything it accepted: same verdict, same number
  of confirmed losses, and the states stay related, for every sequence within 2^31 of the current one.
\<close>

theorem window_accept_refines:
  assumes "window_rel w s" "in_horizon s x"
  shows "\<exists>lost w'. linkg_transport_window_accept_ex (Some w) (of_int x) = (fst (ideal_accept s x), lost, Some w') \<and>
     unat lost = fst (snd (ideal_accept s x)) \<and> window_rel w' (Some (snd (snd (ideal_accept s x))))"
  using assms by (rule accept_refines)

section \<open>Streams of sequences\<close>

fun window_run ::
    "linkg_transport_rx_window option \<Rightarrow> u32 list \<Rightarrow>
     (linkg_transport_window_result \<times> u32) list \<times> linkg_transport_rx_window option" where
  "window_run w [] = ([], w)"
| "window_run w (x # xs) =
     (let (r, lost, w1) = linkg_transport_window_accept_ex w x; (rs, w2) = window_run w1 xs
      in ((r, lost) # rs, w2))"

fun horizon_run :: "ideal_receiver option \<Rightarrow> int list \<Rightarrow> bool" where
  "horizon_run s [] = True"
| "horizon_run s (x # xs) = (in_horizon s x \<and> horizon_run (Some (snd (snd (ideal_accept s x)))) xs)"

fun accepted :: "int list \<Rightarrow> (linkg_transport_window_result \<times> u32) list \<Rightarrow> int list" where
  "accepted (x # xs) ((r, _) # rs) =
     (if r = LINKG_TRANSPORT_WINDOW_ACCEPT then x # accepted xs rs else accepted xs rs)"
| "accepted _ _ = []"

definition lost_total :: "(linkg_transport_window_result \<times> u32) list \<Rightarrow> nat" where
  "lost_total rs = (\<Sum>(_, lost)\<leftarrow>rs. unat lost)"

definition out_of_reach :: "ideal_receiver \<Rightarrow> int set" where
  "out_of_reach s = {ir_first s..ir_high s - 512} - ir_received s"

lemma ideal_step:
  assumes "ideal_accept (Some s) x = (v, l, s')" "ir_received s \<subseteq> {ir_first s..ir_high s}" "ir_first s \<le> ir_high s"
  shows "ir_first s' = ir_first s" "ir_high s' = (if v = LINKG_TRANSPORT_WINDOW_ACCEPT then max x (ir_high s) else ir_high s)"
    "ir_received s' = (if v = LINKG_TRANSPORT_WINDOW_ACCEPT then insert x (ir_received s) else ir_received s)"
    "v = LINKG_TRANSPORT_WINDOW_ACCEPT \<Longrightarrow> x \<notin> ir_received s"
    "card (out_of_reach s') = l + card (out_of_reach s)"
proof -
  show "card (out_of_reach s') = l + card (out_of_reach s)"
  proof (cases "x > ir_high s")
    case True
    then have s': "s' = s\<lparr>ir_high := x, ir_received := insert x (ir_received s)\<rparr>"
      and l: "l = card ({max (ir_first s) (ir_high s - 511)..x - 512} - ir_received s)"
      using assms(1) by (auto simp: ideal_accept_def)
    have "out_of_reach s' = ({max (ir_first s) (ir_high s - 511)..x - 512} - ir_received s) \<union> out_of_reach s"
      using assms(2,3) True by (auto simp: out_of_reach_def s')
    moreover have "({max (ir_first s) (ir_high s - 511)..x - 512} - ir_received s) \<inter> out_of_reach s = {}"
      by (auto simp: out_of_reach_def)
    ultimately show ?thesis by (simp add: l card_Un_disjoint out_of_reach_def)
  next
    case False
    then have "out_of_reach s' = out_of_reach s" "l = 0"
      using assms(1) by (auto simp: ideal_accept_def out_of_reach_def split: if_splits)
    then show ?thesis by simp
  qed
qed (use assms in \<open>auto simp: ideal_accept_def split: if_splits\<close>)

lemma window_run_ideal:
  assumes "window_rel w (Some s)" "horizon_run (Some s) xs" "window_run (Some w) (map of_int xs) = (rs, w')"
  shows "distinct (accepted xs rs) \<and> set (accepted xs rs) \<inter> ir_received s = {} \<and>
    (\<exists>s'. ir_first s' = ir_first s \<and> ir_received s' = ir_received s \<union> set (accepted xs rs) \<and>
       ir_high s' = Max (insert (ir_high s) (set (accepted xs rs))) \<and>
       card (out_of_reach s') = lost_total rs + card (out_of_reach s))"
  using assms
proof (induction xs arbitrary: w s rs)
  case Nil
  then show ?case by (auto simp: lost_total_def)
next
  case (Cons x xs)
  obtain v l s1 where ideal: "ideal_accept (Some s) x = (v, l, s1)" by (metis prod_cases3)
  note step = ideal_step [OF ideal rel_SomeD(4,5) [OF Cons.prems(1)]]
  obtain lost w1 where acc: "linkg_transport_window_accept_ex (Some w) (of_int x) = (v, lost, Some w1)"
    "unat lost = l" "window_rel w1 (Some s1)"
    using accept_refines [OF Cons.prems(1)] Cons.prems(2) ideal by fastforce
  obtain rs1 where rs: "window_run (Some w1) (map of_int xs) = (rs1, w')" "rs = (v, lost) # rs1"
    using Cons.prems(3) acc(1) by (auto split: prod.splits)
  have "horizon_run (Some s1) xs" using Cons.prems(2) ideal by simp
  from Cons.IH [OF acc(3) this rs(1)] obtain s2 where IH: "distinct (accepted xs rs1)"
    "set (accepted xs rs1) \<inter> ir_received s1 = {}" "ir_first s2 = ir_first s1"
    "ir_received s2 = ir_received s1 \<union> set (accepted xs rs1)"
    "ir_high s2 = Max (insert (ir_high s1) (set (accepted xs rs1)))"
    "card (out_of_reach s2) = lost_total rs1 + card (out_of_reach s1)" by blast
  have "ir_high s2 = Max (insert (ir_high s) (set (accepted (x # xs) rs)))"
    using IH(5) step(2) by (simp add: rs(2) Max_insert2) (metis (no_types, lifting) List.finite_set Max_insert max.assoc max.commute insert_not_empty finite_insert Max_singleton)
  moreover have "card (out_of_reach s2) = lost_total rs + card (out_of_reach s)"
    using IH(6) step(5) acc(2) by (simp add: rs(2) lost_total_def)
  ultimately show ?case using IH step(1,3,4) by (auto simp: rs(2))
qed

text \<open>
  C2. From a reset window, whatever the order in which sequences arrive, with repetitions, gaps and
  wrap-around of the 32-bit counter: no sequence is accepted twice, and the losses reported over the whole
  run are exactly the sequences between the first one and the one 512 behind the highest that were never
  accepted.
\<close>

theorem window_stream_accounting:
  assumes "horizon_run None xs" "window_run (linkg_transport_window_reset (Some w)) (map of_int xs) = (rs, w')"
  shows "distinct (accepted xs rs) \<and>
    (xs \<noteq> [] \<longrightarrow> lost_total rs = card ({hd xs..Max (set (accepted xs rs)) - 512} - set (accepted xs rs)))"
proof (cases xs)
  case (Cons x ys)
  let ?s = "\<lparr>ir_first = x, ir_high = x, ir_received = {x}\<rparr>"
  obtain w0 where w0: "linkg_transport_window_reset (Some w) = Some w0" "\<not> rw_initialized w0"
    by (simp add: linkg_transport_window_reset_def)
  obtain w1 where acc: "linkg_transport_window_accept_ex (Some w0) (of_int x) = (LINKG_TRANSPORT_WINDOW_ACCEPT, 0, Some w1)"
    "window_rel w1 (Some ?s)"
    using accept_first [OF w0(2)] by blast
  obtain rs1 where rs: "window_run (Some w1) (map of_int ys) = (rs1, w')" "rs = (LINKG_TRANSPORT_WINDOW_ACCEPT, 0) # rs1"
    using assms(2) acc(1) w0(1) by (auto simp: Cons split: prod.splits)
  have "horizon_run (Some ?s) ys" using assms(1) by (simp add: Cons ideal_accept_def)
  from window_run_ideal [OF acc(2) this rs(1)] obtain s' where s': "distinct (accepted ys rs1)" "x \<notin> set (accepted ys rs1)"
    "ir_first s' = x" "ir_received s' = insert x (set (accepted ys rs1))"
    "ir_high s' = Max (insert x (set (accepted ys rs1)))" "card (out_of_reach s') = lost_total rs1"
    by (auto simp: out_of_reach_def)
  then have "lost_total rs = card ({x..Max (set (accepted xs rs)) - 512} - set (accepted xs rs))"
    by (simp add: rs(2) Cons lost_total_def out_of_reach_def)
  then show ?thesis using s'(1,2) by (simp add: Cons rs(2))
qed (use assms(2) in auto)

text \<open>A run across the wrap-around with a repetition and a late arrival.\<close>

definition sample_window :: linkg_transport_rx_window where
  "sample_window = \<lparr>rw_received_bitmap = replicate 8 0, rw_highest_sequence = 0, rw_tracked_count = 0,
     rw_initialized = False\<rparr>"

definition sample_sequences :: "int list" where
  "sample_sequences = [4294967295, 4294967297, 4294967297, 4294967296, 4294967298]"

lemma sample_run:
  "window_run (linkg_transport_window_reset (Some sample_window)) (map of_int sample_sequences) =
     ([(LINKG_TRANSPORT_WINDOW_ACCEPT, 0), (LINKG_TRANSPORT_WINDOW_ACCEPT, 0), (LINKG_TRANSPORT_WINDOW_DUPLICATE, 0),
       (LINKG_TRANSPORT_WINDOW_ACCEPT, 0), (LINKG_TRANSPORT_WINDOW_ACCEPT, 0)],
      snd (window_run (linkg_transport_window_reset (Some sample_window)) (map of_int sample_sequences)))"
  by code_simp

lemma sample_horizon: "horizon_run None sample_sequences"
  by (simp add: sample_sequences_def in_horizon_def ideal_accept_def)

theorem window_stream_accounting_witness:
  "distinct (accepted sample_sequences
     (fst (window_run (linkg_transport_window_reset (Some sample_window)) (map of_int sample_sequences)))) \<and>
   accepted sample_sequences
     (fst (window_run (linkg_transport_window_reset (Some sample_window)) (map of_int sample_sequences))) =
     [4294967295, 4294967297, 4294967296, 4294967298]"
  using window_stream_accounting [OF sample_horizon sample_run]
  by (subst (1 2) sample_run) (simp add: sample_sequences_def)

theorem window_accept_refines_witness:
  "\<exists>lost w'. linkg_transport_window_accept_ex (Some sample_window) (of_int 5) = (LINKG_TRANSPORT_WINDOW_ACCEPT, lost, Some w') \<and>
     unat lost = 0 \<and> window_rel w' (Some \<lparr>ir_first = 5, ir_high = 5, ir_received = {5}\<rparr>)"
  using window_accept_refines [of sample_window None 5]
  by (simp add: window_rel_def in_horizon_def ideal_accept_def sample_window_def)

end
