(* ===== verification/Transport_Peer.thy ===== *)
theory Transport_Peer
  imports Transport_Wire Transport_Window
begin

text \<open>
  Peers of the transport layer: the peer life cycle, the sequence counters and the handler tables of
  \<open>src/core/transport/linkg_transport.c\<close> with the types of \<open>transport_internal.h\<close>, and the sequence and
  packet identifier allocation of \<open>src/core/transport/transport_tx.c\<close>.

  A peer slot carries a life cycle epoch that is even while the peer is usable and odd while its caches
  are being emptied. \<open>linkg_transport_reset_peer\<close> and \<open>linkg_transport_unregister_peer\<close> give up the
  module lock in the middle, where the caches are emptied and other threads may run; each is modelled as
  the part before and the part after, joined by the step relation. The transmit sequence numbers belong
  to the node, not to the slot: they are saved when a peer is quiesced and restored when it comes back.
\<close>

section \<open>State\<close>

abbreviation (input) EAGAIN :: int where "EAGAIN \<equiv> 11"
abbreviation (input) LINKG_TRANSPORT_PEER_MAX :: nat where "LINKG_TRANSPORT_PEER_MAX \<equiv> 16"
abbreviation (input) CLASS_COUNT :: nat where "CLASS_COUNT \<equiv> 3"
abbreviation (input) LINKG_TRANSPORT_TYPE_USER_DATA :: u8 where "LINKG_TRANSPORT_TYPE_USER_DATA \<equiv> 1"

datatype linkg_device_role = LINKG_DEVICE_ROLE_UNKNOWN | LINKG_DEVICE_ROLE_AP | LINKG_DEVICE_ROLE_STA

record linkg_transport_class_stats =
  cl_tx_bytes :: u64
  cl_tx_packets :: u64
  cl_tx_failed_bytes :: u64
  cl_tx_failed_packets :: u64
  cl_rx_bytes :: u64
  cl_rx_packets :: u64
  cl_rx_lost_packets :: u64
  cl_rx_duplicate_packets :: u64
  cl_rx_out_of_order_packets :: u64
  cl_last_tx_ms :: u64
  cl_last_rx_ms :: u64
  cl_last_user_tx_ms :: u64
  cl_last_user_rx_ms :: u64

record linkg_transport_global_stats =
  gs_rx_invalid_frames :: u64
  gs_rx_unattributed_frames :: u64
  gs_rx_stale_epoch_frames :: u64
  gs_reassembly_reset_frames :: u64
  gs_forward_incomplete_bytes :: u64
  gs_forward_incomplete_frames :: u64
  gs_forward_reset_frames :: u64

record linkg_transport_peer_class =
  pc_tx_order_lock :: mutex
  pc_rx_user_window :: linkg_transport_rx_window
  pc_rx_control_window :: linkg_transport_rx_window
  pc_stats :: linkg_transport_class_stats
  pc_tx_user_sequence :: u32
  pc_tx_control_sequence :: u32

record linkg_transport_peer =
  pr_classes :: "linkg_transport_peer_class list"
  pr_lifecycle_epoch :: u32
  pr_peer_node_id :: u8
  pr_valid :: bool

text \<open>A handler with its argument, both addresses.\<close>

type_synonym handler = "nat option \<times> nat option"

text \<open>
  The module context and, as its last field, the static table \<open>g_transport_tx_sequences\<close> of the last
  user and control sequence per node and class.
\<close>

record linkg_transport_context =
  tc_lock :: mutex
  tc_peers :: "linkg_transport_peer list"
  tc_handlers :: "handler list"
  tc_forward_handler :: handler
  tc_stats :: linkg_transport_global_stats
  tc_next_packet_id :: u32
  tc_peer_count :: u32
  tc_local_node_id :: u8
  tc_local_role :: linkg_device_role
  tc_initialized :: bool
  tc_tx_sequences :: "u8 \<Rightarrow> (u32 \<times> u32) list"

definition class_stats_clear :: linkg_transport_class_stats where
  "class_stats_clear = \<lparr>cl_tx_bytes = 0, cl_tx_packets = 0, cl_tx_failed_bytes = 0, cl_tx_failed_packets = 0,
     cl_rx_bytes = 0, cl_rx_packets = 0, cl_rx_lost_packets = 0, cl_rx_duplicate_packets = 0,
     cl_rx_out_of_order_packets = 0, cl_last_tx_ms = 0, cl_last_rx_ms = 0, cl_last_user_tx_ms = 0,
     cl_last_user_rx_ms = 0\<rparr>"

definition upd_peer :: "nat \<Rightarrow> (linkg_transport_peer \<Rightarrow> linkg_transport_peer) \<Rightarrow> linkg_transport_context \<Rightarrow> linkg_transport_context" where
  "upd_peer i f c = c\<lparr>tc_peers := (tc_peers c)[i := f (tc_peers c ! i)]\<rparr>"

section \<open>Internal helpers\<close>

definition linkg_transport_node_id_valid :: "u8 \<Rightarrow> bool" where
  "linkg_transport_node_id_valid node_id \<longleftrightarrow>
     node_id \<ge> LINKG_RESOURCE_NODE_ID_MIN \<and> node_id \<le> LINKG_RESOURCE_NODE_ID_MAX"

text \<open>The locks are taken in class order; the first failure is reported and the ones taken are given back.\<close>

fun linkg_transport_peer_tx_order_lock_all :: "linkg_transport_peer_class list \<Rightarrow> int" where
  "linkg_transport_peer_tx_order_lock_all [] = 0"
| "linkg_transport_peer_tx_order_lock_all (k # ks) =
     (if mx_lock (pc_tx_order_lock k) \<noteq> 0 then - mx_lock (pc_tx_order_lock k)
      else linkg_transport_peer_tx_order_lock_all ks)"

definition linkg_transport_save_peer_tx_sequences ::
    "linkg_transport_peer \<Rightarrow> linkg_transport_context \<Rightarrow> linkg_transport_context" where
  "linkg_transport_save_peer_tx_sequences peer c =
     (if \<not> linkg_transport_node_id_valid (pr_peer_node_id peer) then c
      else c\<lparr>tc_tx_sequences := (tc_tx_sequences c)(pr_peer_node_id peer :=
             map (\<lambda>k. (pc_tx_user_sequence k, pc_tx_control_sequence k)) (pr_classes peer))\<rparr>)"

definition linkg_transport_restore_peer_tx_sequences ::
    "(u8 \<Rightarrow> (u32 \<times> u32) list) \<Rightarrow> u8 \<Rightarrow> linkg_transport_peer \<Rightarrow> linkg_transport_peer" where
  "linkg_transport_restore_peer_tx_sequences table peer_node_id peer =
     (if \<not> linkg_transport_node_id_valid peer_node_id then peer
      else peer\<lparr>pr_classes := map2 (\<lambda>k s. k\<lparr>pc_tx_user_sequence := fst s, pc_tx_control_sequence := snd s\<rparr>)
             (pr_classes peer) (table peer_node_id)\<rparr>)"

definition linkg_transport_reset_peer_classes :: "bool \<Rightarrow> linkg_transport_peer \<Rightarrow> linkg_transport_peer" where
  "linkg_transport_reset_peer_classes clear_stats peer =
     peer\<lparr>pr_classes := map (\<lambda>k. k\<lparr>pc_tx_user_sequence := 0, pc_tx_control_sequence := 0,
         pc_rx_user_window := the (linkg_transport_window_reset (Some (pc_rx_user_window k))),
         pc_rx_control_window := the (linkg_transport_window_reset (Some (pc_rx_control_window k))),
         pc_stats := (if clear_stats then class_stats_clear else pc_stats k)\<rparr>) (pr_classes peer)\<rparr>"

definition linkg_transport_peer_next_active_epoch :: "u32 \<Rightarrow> u32" where
  "linkg_transport_peer_next_active_epoch current_epoch =
     (let next_epoch = current_epoch + 1
      in if next_epoch AND 1 \<noteq> 0 then next_epoch + 1 else next_epoch)"

text \<open>Whether the data plane may enter, and the epoch read.\<close>

definition linkg_transport_peer_epoch_read_active :: "linkg_transport_peer option \<Rightarrow> bool \<times> u32" where
  "linkg_transport_peer_epoch_read_active peer =
     (case peer of
        None \<Rightarrow> (False, 0)
      | Some p \<Rightarrow> (pr_lifecycle_epoch p AND 1 = 0, pr_lifecycle_epoch p))"

definition linkg_transport_peer_epoch_matches :: "linkg_transport_peer option \<Rightarrow> u32 \<Rightarrow> bool" where
  "linkg_transport_peer_epoch_matches peer peer_epoch =
     (case peer of
        None \<Rightarrow> False
      | Some p \<Rightarrow> if peer_epoch AND 1 \<noteq> 0 then False else pr_lifecycle_epoch p = peer_epoch)"

text \<open>A peer pointer is its slot index. The result is the return code, \<open>*quiescing_epoch\<close> and the context.\<close>

definition linkg_transport_peer_quiesce_locked ::
    "nat \<Rightarrow> bool \<Rightarrow> linkg_transport_context \<Rightarrow> int \<times> u32 \<times> linkg_transport_context" where
  "linkg_transport_peer_quiesce_locked i clear_stats c =
     (let (active, active_epoch) = linkg_transport_peer_epoch_read_active (Some (tc_peers c ! i)) in
      if \<not> active then (- EBUSY, 0, c)
      else
        (let quiescing_epoch = active_epoch + 1;
             c1 = upd_peer i (\<lambda>p. p\<lparr>pr_lifecycle_epoch := quiescing_epoch\<rparr>) c;
             ret = linkg_transport_peer_tx_order_lock_all (pr_classes (tc_peers c1 ! i))
         in if ret \<noteq> 0
            then (ret, quiescing_epoch, upd_peer i (\<lambda>p. p\<lparr>pr_lifecycle_epoch := active_epoch\<rparr>) c1)
            else
              (let c2 = linkg_transport_save_peer_tx_sequences (tc_peers c1 ! i) c1
               in (0, quiescing_epoch, upd_peer i (linkg_transport_reset_peer_classes clear_stats) c2))))"

definition first_slot :: "(linkg_transport_peer \<Rightarrow> bool) \<Rightarrow> linkg_transport_peer list \<Rightarrow> nat option" where
  "first_slot P ps = List.find (\<lambda>i. P (ps ! i)) [0..<length ps]"

definition linkg_transport_find_unused_locked :: "linkg_transport_context \<Rightarrow> nat option" where
  "linkg_transport_find_unused_locked c = first_slot (\<lambda>p. \<not> pr_valid p) (tc_peers c)"

definition linkg_transport_find_peer_locked :: "u8 \<Rightarrow> linkg_transport_context \<Rightarrow> nat option" where
  "linkg_transport_find_peer_locked peer_node_id c =
     (if \<not> linkg_transport_node_id_valid peer_node_id then None
      else first_slot (\<lambda>p. pr_valid p \<and> pr_peer_node_id p = peer_node_id) (tc_peers c))"

section \<open>Module life cycle\<close>

text \<open>
  \<open>memset(&g_transport, 0, \<dots>)\<close>: the table of sequences is a static of its own and is not cleared.
\<close>

definition peer_class_zero :: linkg_transport_peer_class where
  "peer_class_zero = \<lparr>pc_tx_order_lock = mutex_zero,
     pc_rx_user_window = \<lparr>rw_received_bitmap = bitmap_zero, rw_highest_sequence = 0, rw_tracked_count = 0, rw_initialized = False\<rparr>,
     pc_rx_control_window = \<lparr>rw_received_bitmap = bitmap_zero, rw_highest_sequence = 0, rw_tracked_count = 0, rw_initialized = False\<rparr>,
     pc_stats = class_stats_clear, pc_tx_user_sequence = 0, pc_tx_control_sequence = 0\<rparr>"

definition peer_zero :: linkg_transport_peer where
  "peer_zero = \<lparr>pr_classes = replicate CLASS_COUNT peer_class_zero, pr_lifecycle_epoch = 0, pr_peer_node_id = 0, pr_valid = False\<rparr>"

definition transport_zero :: "(u8 \<Rightarrow> (u32 \<times> u32) list) \<Rightarrow> linkg_transport_context" where
  "transport_zero table = \<lparr>tc_lock = mutex_zero, tc_peers = replicate LINKG_TRANSPORT_PEER_MAX peer_zero,
     tc_handlers = replicate (unat LINKG_TRANSPORT_TYPE_COUNT) (None, None), tc_forward_handler = (None, None),
     tc_stats = \<lparr>gs_rx_invalid_frames = 0, gs_rx_unattributed_frames = 0, gs_rx_stale_epoch_frames = 0,
       gs_reassembly_reset_frames = 0, gs_forward_incomplete_bytes = 0, gs_forward_incomplete_frames = 0,
       gs_forward_reset_frames = 0\<rparr>,
     tc_next_packet_id = 0, tc_peer_count = 0, tc_local_node_id = 0, tc_local_role = LINKG_DEVICE_ROLE_UNKNOWN,
     tc_initialized = False, tc_tx_sequences = table\<rparr>"

text \<open>
  What the calls of \<open>linkg_transport_init\<close> and \<open>linkg_transport_deinit\<close> answer: the local node, the mutex
  initialisations in order with the mutexes made, and the other modules' entry points.
\<close>

record transport_init_env =
  ie_local :: "(u8 \<times> linkg_device_role) option"
  ie_lock_init :: int
  ie_lock :: mutex
  ie_order_init :: "nat \<Rightarrow> nat \<Rightarrow> int"
  ie_order_lock :: "nat \<Rightarrow> nat \<Rightarrow> mutex"
  ie_reassembly_init :: int
  ie_forward_init :: int
  ie_reorder_init :: int
  ie_receive_handler :: int

record transport_deinit_env =
  de_is_worker :: bool
  de_receive_handler :: int
  de_reorder_deinit :: int
  de_forward_deinit :: int
  de_reassembly_deinit :: int

definition linkg_transport_peer_epochs_init :: "linkg_transport_context \<Rightarrow> linkg_transport_context" where
  "linkg_transport_peer_epochs_init c = c\<lparr>tc_peers := map (\<lambda>p. p\<lparr>pr_lifecycle_epoch := 0\<rparr>) (tc_peers c)\<rparr>"

text \<open>The first initialisation that fails ends the loop and every mutex made so far is destroyed.\<close>

definition linkg_transport_peer_tx_locks_init ::
    "transport_init_env \<Rightarrow> linkg_transport_context \<Rightarrow> int \<times> linkg_transport_context" where
  "linkg_transport_peer_tx_locks_init env c =
     (case List.find (\<lambda>r. r \<noteq> 0) (concat (map (\<lambda>i. map (ie_order_init env i) [0..<CLASS_COUNT]) [0..<LINKG_TRANSPORT_PEER_MAX])) of
        Some r \<Rightarrow> (- r, c)
      | None \<Rightarrow> (0, c\<lparr>tc_peers := map2 (\<lambda>i p. p\<lparr>pr_classes := map2 (\<lambda>j k. k\<lparr>pc_tx_order_lock := ie_order_lock env i j\<rparr>)
            [0..<CLASS_COUNT] (pr_classes p)\<rparr>) [0..<LINKG_TRANSPORT_PEER_MAX] (tc_peers c)\<rparr>))"

definition linkg_transport_init :: "transport_init_env \<Rightarrow> linkg_transport_context \<Rightarrow> int \<times> linkg_transport_context" where
  "linkg_transport_init env c =
     (if tc_initialized c then (- EALREADY, c)
      else case ie_local env of
        None \<Rightarrow> (- ENODEV, c)
      | Some (node_id, role) \<Rightarrow>
         (if \<not> linkg_transport_node_id_valid node_id then (- EINVAL, c)
          else if role \<noteq> LINKG_DEVICE_ROLE_AP \<and> role \<noteq> LINKG_DEVICE_ROLE_STA then (- EINVAL, c)
          else
            (let zero = transport_zero (tc_tx_sequences c); c0 = linkg_transport_peer_epochs_init zero in
             if ie_lock_init env \<noteq> 0 then (- ie_lock_init env, c0)
             else
               (let (ret, c1) = linkg_transport_peer_tx_locks_init env (c0\<lparr>tc_lock := ie_lock env\<rparr>) in
                if ret \<noteq> 0 then (ret, zero)
                else if ie_reassembly_init env \<noteq> 0 then (ie_reassembly_init env, zero)
                else if role = LINKG_DEVICE_ROLE_AP \<and> ie_forward_init env \<noteq> 0 then (ie_forward_init env, zero)
                else if ie_reorder_init env \<noteq> 0 then (ie_reorder_init env, zero)
                else if ie_receive_handler env \<noteq> 0 then (ie_receive_handler env, zero)
                else (0, c1\<lparr>tc_local_node_id := node_id, tc_local_role := role, tc_next_packet_id := 1,
                            tc_initialized := True\<rparr>)))))"

definition linkg_transport_deinit :: "transport_deinit_env \<Rightarrow> linkg_transport_context \<Rightarrow> int \<times> linkg_transport_context" where
  "linkg_transport_deinit env c =
     (if \<not> tc_initialized c then (0, c)
      else if de_is_worker env then (- EDEADLK, c)
      else if mx_lock (tc_lock c) \<noteq> 0 then (- mx_lock (tc_lock c), c)
      else if tc_peer_count c \<noteq> 0 then (- EBUSY, c)
      else if de_receive_handler env \<noteq> 0 then (de_receive_handler env, c)
      else if de_reorder_deinit env \<noteq> 0 then (de_reorder_deinit env, c)
      else if tc_local_role c = LINKG_DEVICE_ROLE_AP \<and> de_forward_deinit env \<noteq> 0 then (de_forward_deinit env, c)
      else if de_reassembly_deinit env \<noteq> 0 then (de_reassembly_deinit env, c)
      else if mx_destroy (tc_lock c) \<noteq> 0 then (- mx_destroy (tc_lock c), c\<lparr>tc_initialized := False\<rparr>)
      else (0, transport_zero (tc_tx_sequences c)))"

section \<open>Peer life cycle\<close>

text \<open>The answer of an unlock that ends an operation.\<close>

definition unlocked :: "linkg_transport_context \<Rightarrow> int" where
  "unlocked c = (if mx_unlock (tc_lock c) = 0 then 0 else - mx_unlock (tc_lock c))"

definition linkg_transport_register_peer :: "u8 \<Rightarrow> linkg_transport_context \<Rightarrow> int \<times> linkg_transport_context" where
  "linkg_transport_register_peer peer_node_id c =
     (if \<not> tc_initialized c then (- ENODEV, c)
      else if \<not> linkg_transport_node_id_valid peer_node_id \<or> peer_node_id = tc_local_node_id c then (- EINVAL, c)
      else if mx_lock (tc_lock c) \<noteq> 0 then (- mx_lock (tc_lock c), c)
      else case linkg_transport_find_peer_locked peer_node_id c of
        Some i \<Rightarrow>
          (if \<not> fst (linkg_transport_peer_epoch_read_active (Some (tc_peers c ! i))) then (- EBUSY, c) else (0, c))
      | None \<Rightarrow>
          (if tc_local_role c = LINKG_DEVICE_ROLE_STA \<and> tc_peer_count c \<noteq> 0 then (- ENOSPC, c)
           else case linkg_transport_find_unused_locked c of
             None \<Rightarrow> (- ENOSPC, c)
           | Some i \<Rightarrow>
               (let c1 = upd_peer i (\<lambda>p.
                      (linkg_transport_restore_peer_tx_sequences (tc_tx_sequences c) peer_node_id
                        (linkg_transport_reset_peer_classes True p))
                      \<lparr>pr_peer_node_id := peer_node_id, pr_valid := True,
                       pr_lifecycle_epoch := linkg_transport_peer_next_active_epoch (pr_lifecycle_epoch p)\<rparr>) c
                in (unlocked c1, c1\<lparr>tc_peer_count := tc_peer_count c1 + 1\<rparr>))))"

text \<open>
  \<open>linkg_transport_reset_peer\<close> and \<open>linkg_transport_unregister_peer\<close> up to the unlock before the caches are
  emptied: on success the slot and the quiescing epoch. Whether the caller is the reorder worker and what
  \<open>linkg_transport_reorder_check_lifecycle_context\<close> answers are inputs.
\<close>

definition peer_quiesce_begin ::
    "bool \<Rightarrow> int \<Rightarrow> u8 \<Rightarrow> bool \<Rightarrow> linkg_transport_context \<Rightarrow> (int + nat \<times> u32) \<times> linkg_transport_context" where
  "peer_quiesce_begin is_worker lifecycle_check peer_node_id clear_stats c =
     (if \<not> tc_initialized c then (Inl (- ENODEV), c)
      else if is_worker then (Inl (- EDEADLK), c)
      else if \<not> linkg_transport_node_id_valid peer_node_id then (Inl (- EINVAL), c)
      else if lifecycle_check \<noteq> 0 then (Inl lifecycle_check, c)
      else if mx_lock (tc_lock c) \<noteq> 0 then (Inl (- mx_lock (tc_lock c)), c)
      else case linkg_transport_find_peer_locked peer_node_id c of
        None \<Rightarrow> (Inl (- ENOENT), c)
      | Some i \<Rightarrow>
          (let (ret, quiescing_epoch, c1) = linkg_transport_peer_quiesce_locked i clear_stats c in
           if ret \<noteq> 0 then (Inl ret, c1)
           else if mx_unlock (tc_lock c1) \<noteq> 0 then (Inl (- mx_unlock (tc_lock c1)), c1)
           else (Inr (i, quiescing_epoch), c1)))"

definition linkg_transport_reset_peer_begin ::
    "bool \<Rightarrow> int \<Rightarrow> u8 \<Rightarrow> bool \<Rightarrow> linkg_transport_context \<Rightarrow> (int + nat \<times> u32) \<times> linkg_transport_context" where
  "linkg_transport_reset_peer_begin = peer_quiesce_begin"

definition linkg_transport_reset_peer_end ::
    "nat \<Rightarrow> u32 \<Rightarrow> int \<Rightarrow> u8 \<Rightarrow> linkg_transport_context \<Rightarrow> int \<times> linkg_transport_context" where
  "linkg_transport_reset_peer_end i quiescing_epoch cache_ret peer_node_id c =
     (if mx_lock (tc_lock c) \<noteq> 0 then (- mx_lock (tc_lock c), c)
      else
        (let p = tc_peers c ! i in
         if \<not> pr_valid p \<or> pr_peer_node_id p \<noteq> peer_node_id \<or> pr_lifecycle_epoch p \<noteq> quiescing_epoch
         then (- ESTALE, c)
         else
           (let c1 = upd_peer i (\<lambda>p. (linkg_transport_restore_peer_tx_sequences (tc_tx_sequences c) peer_node_id p)
                  \<lparr>pr_lifecycle_epoch := quiescing_epoch + 1\<rparr>) c
            in (if cache_ret \<noteq> 0 then cache_ret else unlocked c1, c1))))"

definition linkg_transport_unregister_peer_begin ::
    "bool \<Rightarrow> int \<Rightarrow> u8 \<Rightarrow> linkg_transport_context \<Rightarrow> (int + nat \<times> u32) \<times> linkg_transport_context" where
  "linkg_transport_unregister_peer_begin is_worker lifecycle_check peer_node_id c =
     peer_quiesce_begin is_worker lifecycle_check peer_node_id True c"

definition linkg_transport_unregister_peer_end ::
    "nat \<Rightarrow> u32 \<Rightarrow> int \<Rightarrow> u8 \<Rightarrow> linkg_transport_context \<Rightarrow> int \<times> linkg_transport_context" where
  "linkg_transport_unregister_peer_end i quiescing_epoch cache_ret peer_node_id c =
     (if mx_lock (tc_lock c) \<noteq> 0 then (- mx_lock (tc_lock c), c)
      else
        (let p = tc_peers c ! i in
         if \<not> pr_valid p \<or> pr_peer_node_id p \<noteq> peer_node_id \<or> pr_lifecycle_epoch p \<noteq> quiescing_epoch
         then (- ESTALE, c)
         else
           (let c1 = upd_peer i (\<lambda>p. p\<lparr>pr_peer_node_id := 0, pr_valid := False\<rparr>) c;
                c2 = (if tc_peer_count c1 > 0 then c1\<lparr>tc_peer_count := tc_peer_count c1 - 1\<rparr> else c1)
            in (if cache_ret \<noteq> 0 then cache_ret else unlocked c2, c2))))"

section \<open>Handlers\<close>

definition linkg_transport_register_handler ::
    "u8 \<Rightarrow> nat option \<Rightarrow> nat option \<Rightarrow> linkg_transport_context \<Rightarrow> int \<times> linkg_transport_context" where
  "linkg_transport_register_handler type handler user_data c =
     (if \<not> tc_initialized c then (- ENODEV, c)
      else if \<not> linkg_transport_type_valid type \<or> handler = None then (- EINVAL, c)
      else if mx_lock (tc_lock c) \<noteq> 0 then (- mx_lock (tc_lock c), c)
      else if fst (tc_handlers c ! unat type) \<noteq> None then (- EALREADY, c)
      else (unlocked c, c\<lparr>tc_handlers := (tc_handlers c)[unat type := (handler, user_data)]\<rparr>))"

definition linkg_transport_unregister_handler :: "u8 \<Rightarrow> linkg_transport_context \<Rightarrow> int \<times> linkg_transport_context" where
  "linkg_transport_unregister_handler type c =
     (if \<not> tc_initialized c then (- ENODEV, c)
      else if \<not> linkg_transport_type_valid type then (- EINVAL, c)
      else if mx_lock (tc_lock c) \<noteq> 0 then (- mx_lock (tc_lock c), c)
      else if fst (tc_handlers c ! unat type) = None then (- ENOENT, c)
      else (unlocked c, c\<lparr>tc_handlers := (tc_handlers c)[unat type := (None, None)]\<rparr>))"

definition linkg_transport_register_forward_handler ::
    "nat option \<Rightarrow> nat option \<Rightarrow> linkg_transport_context \<Rightarrow> int \<times> linkg_transport_context" where
  "linkg_transport_register_forward_handler handler user_data c =
     (if \<not> tc_initialized c then (- ENODEV, c)
      else if handler = None then (- EINVAL, c)
      else if mx_lock (tc_lock c) \<noteq> 0 then (- mx_lock (tc_lock c), c)
      else if fst (tc_forward_handler c) \<noteq> None then (- EALREADY, c)
      else (unlocked c, c\<lparr>tc_forward_handler := (handler, user_data)\<rparr>))"

definition linkg_transport_unregister_forward_handler :: "linkg_transport_context \<Rightarrow> int \<times> linkg_transport_context" where
  "linkg_transport_unregister_forward_handler c =
     (if \<not> tc_initialized c then (- ENODEV, c)
      else if mx_lock (tc_lock c) \<noteq> 0 then (- mx_lock (tc_lock c), c)
      else if fst (tc_forward_handler c) = None then (- ENOENT, c)
      else (unlocked c, c\<lparr>tc_forward_handler := (None, None)\<rparr>))"

section \<open>Statistics\<close>

definition linkg_transport_get_peer_stats ::
    "u8 \<Rightarrow> linkg_transport_context \<Rightarrow> int + u8 \<times> linkg_transport_class_stats list" where
  "linkg_transport_get_peer_stats peer_node_id c =
     (if \<not> tc_initialized c then Inl (- ENODEV)
      else if \<not> linkg_transport_node_id_valid peer_node_id then Inl (- EINVAL)
      else if mx_lock (tc_lock c) \<noteq> 0 then Inl (- mx_lock (tc_lock c))
      else case linkg_transport_find_peer_locked peer_node_id c of
        None \<Rightarrow> Inl (- ENOENT)
      | Some i \<Rightarrow>
          (let p = tc_peers c ! i; ret = linkg_transport_peer_tx_order_lock_all (pr_classes p) in
           if ret \<noteq> 0 then Inl ret
           else if unlocked c \<noteq> 0 then Inl (unlocked c)
           else Inr (pr_peer_node_id p, map pc_stats (pr_classes p))))"

definition linkg_transport_get_global_stats :: "linkg_transport_context \<Rightarrow> int + linkg_transport_global_stats" where
  "linkg_transport_get_global_stats c =
     (if \<not> tc_initialized c then Inl (- ENODEV)
      else if mx_lock (tc_lock c) \<noteq> 0 then Inl (- mx_lock (tc_lock c))
      else if unlocked c \<noteq> 0 then Inl (unlocked c)
      else Inr (tc_stats c))"

section \<open>Sequences and packet identifiers\<close>

definition linkg_transport_tx_next_sequence ::
    "u8 \<Rightarrow> linkg_transport_peer_class \<Rightarrow> u32 \<times> linkg_transport_peer_class" where
  "linkg_transport_tx_next_sequence type k =
     (if type = LINKG_TRANSPORT_TYPE_USER_DATA
      then (pc_tx_user_sequence k + 1, k\<lparr>pc_tx_user_sequence := pc_tx_user_sequence k + 1\<rparr>)
      else (pc_tx_control_sequence k + 1, k\<lparr>pc_tx_control_sequence := pc_tx_control_sequence k + 1\<rparr>))"

definition linkg_transport_tx_next_packet_id_locked :: "linkg_transport_context \<Rightarrow> u32 \<times> linkg_transport_context" where
  "linkg_transport_tx_next_packet_id_locked c =
     (let packet_id = (if tc_next_packet_id c = LINKG_TRANSPORT_PACKET_ID_INVALID then 1 else tc_next_packet_id c);
          next_id = packet_id + 1
      in (packet_id, c\<lparr>tc_next_packet_id := (if next_id = LINKG_TRANSPORT_PACKET_ID_INVALID then 1 else next_id)\<rparr>))"

text \<open>The packet identifiers for the fragmented packets of a batch, in order.\<close>

fun tx_packet_ids :: "bool list \<Rightarrow> linkg_transport_context \<Rightarrow> u32 option list \<times> linkg_transport_context" where
  "tx_packet_ids [] c = ([], c)"
| "tx_packet_ids (fragmented # fs) c =
     (if fragmented
      then (let (packet_id, c1) = linkg_transport_tx_next_packet_id_locked c; (ids, c2) = tx_packet_ids fs c1
            in (Some packet_id # ids, c2))
      else (let (ids, c2) = tx_packet_ids fs c in (None # ids, c2)))"

text \<open>The result is the slot of the peer and the identifiers, or the error.\<close>

definition linkg_transport_tx_acquire_state ::
    "u8 \<Rightarrow> nat \<Rightarrow> bool list \<Rightarrow> linkg_transport_context \<Rightarrow> (int + nat \<times> u32 option list) \<times> linkg_transport_context" where
  "linkg_transport_tx_acquire_state peer_node_id traffic_class fragmented c =
     (if mx_lock (tc_lock c) \<noteq> 0 then (Inl (- mx_lock (tc_lock c)), c)
      else if \<not> tc_initialized c then (Inl (- ENODEV), c)
      else case linkg_transport_find_peer_locked peer_node_id c of
        None \<Rightarrow> (Inl (- ENOENT), c)
      | Some i \<Rightarrow>
          (if \<not> fst (linkg_transport_peer_epoch_read_active (Some (tc_peers c ! i))) then (Inl (- EAGAIN), c)
           else
             (let lock = pc_tx_order_lock (pr_classes (tc_peers c ! i) ! traffic_class) in
              if mx_lock lock \<noteq> 0 then (Inl (- mx_lock lock), c)
              else (let (ids, c1) = tx_packet_ids fragmented c in (Inr (i, ids), c1)))))"

section \<open>Histories\<close>

text \<open>
  What the threads of the program do to the peers, one operation at a time. The cache clean-up of a reset
  and of an unregistration runs without the module lock, so other operations may come between the two
  parts; a send holds the order lock of its class from \<open>linkg_transport_tx_acquire_state\<close> to the end, and a
  quiesce waits for it, so a send is one operation. \<open>TxSend\<close> carries the logical packets (type, whether
  fragmented) and whether any frame was taken over by a link; if none was, the code rolls the sequences
  back because no receiver can have seen them.
\<close>

datatype peer_op =
    RegisterPeer u8
  | QuiesceBegin bool int u8 bool
  | ResetEnd nat u32 int u8
  | UnregisterEnd nat u32 int u8
  | ModuleInit transport_init_env
  | ModuleDeinit transport_deinit_env
  | TxSend u8 nat "(u8 \<times> bool) list" bool

definition frame_types :: "(u8 \<times> bool) list \<Rightarrow> u8 list" where
  "frame_types items = concat (map (\<lambda>(type, fragmented). if fragmented then [type, type] else [type]) items)"

fun tx_take_sequences :: "u8 list \<Rightarrow> linkg_transport_peer_class \<Rightarrow> (u8 \<times> u32) list \<times> linkg_transport_peer_class" where
  "tx_take_sequences [] k = ([], k)"
| "tx_take_sequences (type # types) k =
     (let (s, k1) = linkg_transport_tx_next_sequence type k; (rest, k2) = tx_take_sequences types k1
      in ((type, s) # rest, k2))"

definition tx_send :: "u8 \<Rightarrow> nat \<Rightarrow> (u8 \<times> bool) list \<Rightarrow> bool \<Rightarrow> linkg_transport_context \<Rightarrow>
    (u8 \<times> u32) list \<times> linkg_transport_context" where
  "tx_send peer_node_id traffic_class items taken c =
     (case linkg_transport_tx_acquire_state peer_node_id traffic_class (map snd items) c of
        (Inl e, c1) \<Rightarrow> ([], c1)
      | (Inr (i, ids), c1) \<Rightarrow>
          (if \<not> taken then ([], c1)
           else
             (let (sent, k) = tx_take_sequences (frame_types items) (pr_classes (tc_peers c1 ! i) ! traffic_class)
              in (sent, upd_peer i (\<lambda>p. p\<lparr>pr_classes := (pr_classes p)[traffic_class := k]\<rparr>) c1))))"

text \<open>The frames a link took over, in order: node, class, type and sequence.\<close>

type_synonym sent_log = "(u8 \<times> nat \<times> u8 \<times> u32) list"

fun peer_apply :: "peer_op \<Rightarrow> linkg_transport_context \<times> sent_log \<Rightarrow> linkg_transport_context \<times> sent_log" where
  "peer_apply (RegisterPeer n) (c, log) = (snd (linkg_transport_register_peer n c), log)"
| "peer_apply (QuiesceBegin w e n clear_stats) (c, log) = (snd (peer_quiesce_begin w e n clear_stats c), log)"
| "peer_apply (ResetEnd i q r n) (c, log) = (snd (linkg_transport_reset_peer_end i q r n c), log)"
| "peer_apply (UnregisterEnd i q r n) (c, log) = (snd (linkg_transport_unregister_peer_end i q r n c), log)"
| "peer_apply (ModuleInit env) (c, log) = (snd (linkg_transport_init env c), log)"
| "peer_apply (ModuleDeinit env) (c, log) = (snd (linkg_transport_deinit env c), log)"
| "peer_apply (TxSend n k items taken) (c, log) =
     (let (sent, c') = tx_send n k items taken c in (c', log @ map (\<lambda>(t, s). (n, k, t, s)) sent))"

text \<open>An operation carries a slot and quiescing epoch of the kind a quiesce hands out, and a class in range.\<close>

fun op_ok :: "peer_op \<Rightarrow> bool" where
  "op_ok (ResetEnd i q r n) \<longleftrightarrow> i < LINKG_TRANSPORT_PEER_MAX \<and> q AND 1 \<noteq> 0 \<and> linkg_transport_node_id_valid n"
| "op_ok (UnregisterEnd i q r n) \<longleftrightarrow> i < LINKG_TRANSPORT_PEER_MAX \<and> q AND 1 \<noteq> 0 \<and> linkg_transport_node_id_valid n"
| "op_ok (TxSend n k items taken) \<longleftrightarrow> k < CLASS_COUNT"
| "op_ok _ \<longleftrightarrow> True"

section \<open>Invariant\<close>

definition class_sequences :: "linkg_transport_peer \<Rightarrow> (u32 \<times> u32) list" where
  "class_sequences p = map (\<lambda>k. (pc_tx_user_sequence k, pc_tx_control_sequence k)) (pr_classes p)"

definition valid_slots :: "linkg_transport_context \<Rightarrow> nat set" where
  "valid_slots c = {i. i < length (tc_peers c) \<and> pr_valid (tc_peers c ! i)}"

definition slots_ok :: "linkg_transport_context \<Rightarrow> bool" where
  "slots_ok c \<longleftrightarrow> length (tc_peers c) = LINKG_TRANSPORT_PEER_MAX \<and>
     (\<forall>i<LINKG_TRANSPORT_PEER_MAX. length (pr_classes (tc_peers c ! i)) = CLASS_COUNT) \<and>
     (\<forall>n. length (tc_tx_sequences c n) = CLASS_COUNT)"

definition peers_ok :: "linkg_transport_context \<Rightarrow> bool" where
  "peers_ok c \<longleftrightarrow> slots_ok c \<and>
     (\<forall>i\<in>valid_slots c. linkg_transport_node_id_valid (pr_peer_node_id (tc_peers c ! i)) \<and>
        pr_peer_node_id (tc_peers c ! i) \<noteq> tc_local_node_id c) \<and>
     inj_on (\<lambda>i. pr_peer_node_id (tc_peers c ! i)) (valid_slots c) \<and>
     unat (tc_peer_count c) = card (valid_slots c) \<and>
     (tc_local_role c = LINKG_DEVICE_ROLE_STA \<longrightarrow> card (valid_slots c) \<le> 1) \<and>
     (\<not> tc_initialized c \<longrightarrow> valid_slots c = {})"

lemma finite_valid_slots [simp]: "finite (valid_slots c)"
  by (simp add: valid_slots_def)

lemma first_slot_Some: "first_slot P ps = Some i \<Longrightarrow> i < length ps \<and> P (ps ! i)"
  by (auto simp: first_slot_def find_Some_iff)

lemma first_slot_None: "first_slot P ps = None \<longleftrightarrow> (\<forall>i<length ps. \<not> P (ps ! i))"
  by (auto simp: first_slot_def find_None_iff)

lemma find_peer_Some:
  "linkg_transport_find_peer_locked n c = Some i \<Longrightarrow>
   i \<in> valid_slots c \<and> pr_peer_node_id (tc_peers c ! i) = n \<and> linkg_transport_node_id_valid n"
  by (auto simp: linkg_transport_find_peer_locked_def valid_slots_def dest!: first_slot_Some split: if_splits)

lemma find_peer_None:
  "linkg_transport_node_id_valid n \<Longrightarrow>
   linkg_transport_find_peer_locked n c = None \<longleftrightarrow> (\<forall>i\<in>valid_slots c. pr_peer_node_id (tc_peers c ! i) \<noteq> n)"
  by (auto simp: linkg_transport_find_peer_locked_def valid_slots_def first_slot_None)

lemma find_peer_unique:
  assumes "peers_ok c" "i \<in> valid_slots c" "pr_peer_node_id (tc_peers c ! i) = n"
  shows "linkg_transport_find_peer_locked n c = Some i"
proof (cases "linkg_transport_find_peer_locked n c")
  case None
  with assms show ?thesis using find_peer_None [of n c] by (auto simp: peers_ok_def)
next
  case (Some j)
  with assms find_peer_Some [OF Some] show ?thesis by (auto simp: peers_ok_def dest: inj_onD)
qed

text \<open>The fields an operation on a slot leaves alone.\<close>

lemma upd_peer_simps [simp]:
  "length (tc_peers (upd_peer i f c)) = length (tc_peers c)"
  "tc_lock (upd_peer i f c) = tc_lock c" "tc_tx_sequences (upd_peer i f c) = tc_tx_sequences c"
  "tc_peer_count (upd_peer i f c) = tc_peer_count c" "tc_local_node_id (upd_peer i f c) = tc_local_node_id c"
  "tc_local_role (upd_peer i f c) = tc_local_role c" "tc_next_packet_id (upd_peer i f c) = tc_next_packet_id c"
  "tc_initialized (upd_peer i f c) = tc_initialized c"
  by (simp_all add: upd_peer_def)

lemma nth_upd_peer:
  "j < length (tc_peers c) \<Longrightarrow> tc_peers (upd_peer i f c) ! j = (if i = j then f (tc_peers c ! i) else tc_peers c ! j)"
  by (simp add: upd_peer_def nth_list_update)

lemma reset_classes_simps [simp]:
  "length (pr_classes (linkg_transport_reset_peer_classes b p)) = length (pr_classes p)"
  "pr_valid (linkg_transport_reset_peer_classes b p) = pr_valid p"
  "pr_peer_node_id (linkg_transport_reset_peer_classes b p) = pr_peer_node_id p"
  "pr_lifecycle_epoch (linkg_transport_reset_peer_classes b p) = pr_lifecycle_epoch p"
  by (simp_all add: linkg_transport_reset_peer_classes_def)

lemma restore_simps [simp]:
  "pr_valid (linkg_transport_restore_peer_tx_sequences t n p) = pr_valid p"
  "pr_peer_node_id (linkg_transport_restore_peer_tx_sequences t n p) = pr_peer_node_id p"
  "pr_lifecycle_epoch (linkg_transport_restore_peer_tx_sequences t n p) = pr_lifecycle_epoch p"
  "length (t n) = length (pr_classes p) \<Longrightarrow>
     length (pr_classes (linkg_transport_restore_peer_tx_sequences t n p)) = length (pr_classes p)"
  by (simp_all add: linkg_transport_restore_peer_tx_sequences_def)

lemma save_simps [simp]:
  "tc_peers (linkg_transport_save_peer_tx_sequences p c) = tc_peers c"
  "tc_lock (linkg_transport_save_peer_tx_sequences p c) = tc_lock c"
  "tc_initialized (linkg_transport_save_peer_tx_sequences p c) = tc_initialized c"
  "tc_peer_count (linkg_transport_save_peer_tx_sequences p c) = tc_peer_count c"
  "tc_local_node_id (linkg_transport_save_peer_tx_sequences p c) = tc_local_node_id c"
  "tc_local_role (linkg_transport_save_peer_tx_sequences p c) = tc_local_role c"
  "linkg_transport_node_id_valid (pr_peer_node_id p) \<Longrightarrow>
     tc_tx_sequences (linkg_transport_save_peer_tx_sequences p c) = (tc_tx_sequences c)(pr_peer_node_id p := class_sequences p)"
  by (simp_all add: linkg_transport_save_peer_tx_sequences_def class_sequences_def)

lemma class_sequences_restore:
  "linkg_transport_node_id_valid n \<Longrightarrow> length (t n) = length (pr_classes p) \<Longrightarrow>
   class_sequences (linkg_transport_restore_peer_tx_sequences t n p) = t n"
  by (auto simp: class_sequences_def linkg_transport_restore_peer_tx_sequences_def intro: nth_equalityI)

lemma class_sequences_fields [simp]:
  "class_sequences (p\<lparr>pr_lifecycle_epoch := e\<rparr>) = class_sequences p"
  "class_sequences (p\<lparr>pr_valid := v\<rparr>) = class_sequences p"
  "class_sequences (p\<lparr>pr_peer_node_id := n\<rparr>) = class_sequences p"
  by (simp_all add: class_sequences_def)

lemma length_class_sequences [simp]: "length (class_sequences p) = length (pr_classes p)"
  by (simp add: class_sequences_def)


section \<open>Transitions\<close>

lemma quiesce_cases:
  assumes "linkg_transport_peer_quiesce_locked i b c = (r, q, c')" "i < length (tc_peers c)"
  shows "r \<noteq> 0 \<and> c' = c \<or>
     r = 0 \<and> pr_lifecycle_epoch (tc_peers c ! i) AND 1 = 0 \<and> q = pr_lifecycle_epoch (tc_peers c ! i) + 1 \<and>
     c' = upd_peer i (\<lambda>p. linkg_transport_reset_peer_classes b (p\<lparr>pr_lifecycle_epoch := q\<rparr>))
           (linkg_transport_save_peer_tx_sequences (tc_peers c ! i) c)"
  using assms
  by (auto simp: linkg_transport_peer_quiesce_locked_def linkg_transport_peer_epoch_read_active_def Let_def
      upd_peer_def linkg_transport_save_peer_tx_sequences_def split: if_splits)

lemma begin_cases:
  assumes "peers_ok c"
  obtains "snd (peer_quiesce_begin w e n b c) = c"
  | i where "i \<in> valid_slots c" "pr_peer_node_id (tc_peers c ! i) = n" "pr_lifecycle_epoch (tc_peers c ! i) AND 1 = 0"
      "linkg_transport_node_id_valid n"
      "snd (peer_quiesce_begin w e n b c) =
         upd_peer i (\<lambda>p. linkg_transport_reset_peer_classes b (p\<lparr>pr_lifecycle_epoch := pr_lifecycle_epoch p + 1\<rparr>))
           (linkg_transport_save_peer_tx_sequences (tc_peers c ! i) c)"
proof (cases "linkg_transport_find_peer_locked n c")
  case None
  then show ?thesis by (intro that(1)) (simp add: peer_quiesce_begin_def)
next
  case (Some i)
  note i = find_peer_Some [OF Some]
  obtain r q c' where q: "linkg_transport_peer_quiesce_locked i b c = (r, q, c')" by (metis prod_cases3)
  have len: "i < length (tc_peers c)" using i by (simp add: valid_slots_def)
  have *: "snd (peer_quiesce_begin w e n b c) = c \<or> snd (peer_quiesce_begin w e n b c) = c'"
    by (auto simp: peer_quiesce_begin_def Some q)
  from quiesce_cases [OF q len] show ?thesis
  proof (elim disjE conjE)
    assume "c' = c" with * show ?thesis by (intro that(1)) auto
  next
    assume r: "r = 0" "pr_lifecycle_epoch (tc_peers c ! i) AND 1 = 0" "q = pr_lifecycle_epoch (tc_peers c ! i) + 1"
      and c': "c' = upd_peer i (\<lambda>p. linkg_transport_reset_peer_classes b (p\<lparr>pr_lifecycle_epoch := q\<rparr>))
           (linkg_transport_save_peer_tx_sequences (tc_peers c ! i) c)"
    have c'': "c' = upd_peer i (\<lambda>p. linkg_transport_reset_peer_classes b (p\<lparr>pr_lifecycle_epoch := pr_lifecycle_epoch p + 1\<rparr>))
           (linkg_transport_save_peer_tx_sequences (tc_peers c ! i) c)"
      by (simp add: c' r(3) upd_peer_def)
    from * show ?thesis
    proof
      assume "snd (peer_quiesce_begin w e n b c) = c'"
      then show ?thesis using i r(2) unfolding c'' by (intro that(2)) auto
    qed (rule that(1))
  qed
qed

lemma reset_end_cases:
  obtains "snd (linkg_transport_reset_peer_end i q r n c) = c"
  | "pr_valid (tc_peers c ! i)" "pr_peer_node_id (tc_peers c ! i) = n" "pr_lifecycle_epoch (tc_peers c ! i) = q"
    "snd (linkg_transport_reset_peer_end i q r n c) =
       upd_peer i (\<lambda>p. (linkg_transport_restore_peer_tx_sequences (tc_tx_sequences c) n p)\<lparr>pr_lifecycle_epoch := q + 1\<rparr>) c"
proof (cases "snd (linkg_transport_reset_peer_end i q r n c) = c")
  case False
  then show ?thesis by (intro that(2)) (auto simp: linkg_transport_reset_peer_end_def Let_def split: if_splits)
qed (rule that(1))

lemma unregister_end_cases:
  obtains "snd (linkg_transport_unregister_peer_end i q r n c) = c"
  | "pr_valid (tc_peers c ! i)" "pr_peer_node_id (tc_peers c ! i) = n" "pr_lifecycle_epoch (tc_peers c ! i) = q"
    "snd (linkg_transport_unregister_peer_end i q r n c) =
       (let c1 = upd_peer i (\<lambda>p. p\<lparr>pr_peer_node_id := 0, pr_valid := False\<rparr>) c
        in if tc_peer_count c > 0 then c1\<lparr>tc_peer_count := tc_peer_count c - 1\<rparr> else c1)"
proof (cases "snd (linkg_transport_unregister_peer_end i q r n c) = c")
  case False
  then show ?thesis by (intro that(2)) (auto simp: linkg_transport_unregister_peer_end_def Let_def split: if_splits)
qed (rule that(1))

lemma register_cases:
  obtains "snd (linkg_transport_register_peer n c) = c"
  | i where "linkg_transport_node_id_valid n" "n \<noteq> tc_local_node_id c" "linkg_transport_find_peer_locked n c = None"
      "tc_initialized c"
      "i < length (tc_peers c)" "\<not> pr_valid (tc_peers c ! i)"
      "tc_local_role c = LINKG_DEVICE_ROLE_STA \<longrightarrow> tc_peer_count c = 0"
      "snd (linkg_transport_register_peer n c) =
         (upd_peer i (\<lambda>p. (linkg_transport_restore_peer_tx_sequences (tc_tx_sequences c) n
              (linkg_transport_reset_peer_classes True p))
            \<lparr>pr_peer_node_id := n, pr_valid := True,
             pr_lifecycle_epoch := linkg_transport_peer_next_active_epoch (pr_lifecycle_epoch p)\<rparr>) c)
         \<lparr>tc_peer_count := tc_peer_count c + 1\<rparr>"
proof (cases "snd (linkg_transport_register_peer n c) = c")
  case False
  then have n: "linkg_transport_node_id_valid n" "n \<noteq> tc_local_node_id c" "linkg_transport_find_peer_locked n c = None"
    "tc_initialized c"
    "tc_local_role c = LINKG_DEVICE_ROLE_STA \<longrightarrow> tc_peer_count c = 0"
    by (auto simp: linkg_transport_register_peer_def split: if_splits option.splits)
  from False obtain i where i: "linkg_transport_find_unused_locked c = Some i"
    by (cases "linkg_transport_find_unused_locked c") (auto simp: linkg_transport_register_peer_def split: option.splits)
  with first_slot_Some [OF i [unfolded linkg_transport_find_unused_locked_def]] n False show ?thesis
    by (intro that(2)) (auto simp: linkg_transport_register_peer_def Let_def upd_peer_def split: if_splits)
qed (rule that(1))

lemma epoch_parity: "(e :: u32) AND 1 = 0 \<longleftrightarrow> even e"
  by (simp add: and_one_eq even_iff_mod_2_eq_zero)

lemma even_add_one_word: "even (e + 1 :: u32) \<longleftrightarrow> odd e"
  by simp


lemma peers_ok_upd:
  assumes "peers_ok c" "i < LINKG_TRANSPORT_PEER_MAX"
    and "pr_valid (f (tc_peers c ! i)) = pr_valid (tc_peers c ! i)"
    "pr_peer_node_id (f (tc_peers c ! i)) = pr_peer_node_id (tc_peers c ! i)"
    "length (pr_classes (f (tc_peers c ! i))) = CLASS_COUNT"
  shows "peers_ok (upd_peer i f c)"
proof -
  have v: "valid_slots (upd_peer i f c) = valid_slots c"
    using assms by (auto simp: valid_slots_def nth_upd_peer split: if_splits)
  have n: "pr_peer_node_id (tc_peers (upd_peer i f c) ! j) = pr_peer_node_id (tc_peers c ! j)" if "j \<in> valid_slots c" for j
    using that assms by (auto simp: nth_upd_peer valid_slots_def)
  have "slots_ok (upd_peer i f c)"
    using assms by (auto simp: peers_ok_def slots_ok_def nth_upd_peer)
  moreover have "inj_on (\<lambda>j. pr_peer_node_id (tc_peers (upd_peer i f c) ! j)) (valid_slots c)"
    using assms(1) n by (auto simp: peers_ok_def inj_on_def)
  ultimately show ?thesis using assms(1) n by (auto simp: peers_ok_def v)
qed

lemma peers_ok_save:
  "peers_ok c \<Longrightarrow> i \<in> valid_slots c \<Longrightarrow> peers_ok (linkg_transport_save_peer_tx_sequences (tc_peers c ! i) c)"
  by (auto simp: peers_ok_def slots_ok_def valid_slots_def linkg_transport_save_peer_tx_sequences_def)

lemma slots_len: "peers_ok c \<Longrightarrow> length (tc_peers c) = LINKG_TRANSPORT_PEER_MAX"
  by (simp add: peers_ok_def slots_ok_def)

lemma classes_len: "peers_ok c \<Longrightarrow> i < LINKG_TRANSPORT_PEER_MAX \<Longrightarrow> length (pr_classes (tc_peers c ! i)) = CLASS_COUNT"
  by (simp add: peers_ok_def slots_ok_def)

lemma table_len: "peers_ok c \<Longrightarrow> length (tc_tx_sequences c n) = CLASS_COUNT"
  by (simp add: peers_ok_def slots_ok_def)

lemma valid_slot_less: "peers_ok c \<Longrightarrow> i \<in> valid_slots c \<Longrightarrow> i < LINKG_TRANSPORT_PEER_MAX"
  by (simp add: valid_slots_def peers_ok_def slots_ok_def)

lemma begin_peers_ok:
  assumes "peers_ok c"
  shows "peers_ok (snd (peer_quiesce_begin w e n b c))"
  using assms
proof (cases rule: begin_cases [where w = w and e = e and n = n and b = b])
  case (2 i)
  show ?thesis unfolding 2(5)
    by (rule peers_ok_upd) (use assms 2 valid_slot_less classes_len peers_ok_save in auto)
qed (use assms in simp)

lemma reset_end_peers_ok:
  assumes "peers_ok c" "i < LINKG_TRANSPORT_PEER_MAX"
  shows "peers_ok (snd (linkg_transport_reset_peer_end i q r n c))"
proof (cases rule: reset_end_cases [where i = i and q = q and r = r and n = n and c = c])
  case 2
  show ?thesis unfolding 2(4)
    by (rule peers_ok_upd) (use assms classes_len table_len in auto)
qed (use assms in simp)

lemma unregister_end_peers_ok:
  assumes ok: "peers_ok c" and i: "i < LINKG_TRANSPORT_PEER_MAX"
  shows "peers_ok (snd (linkg_transport_unregister_peer_end i q r n c))"
proof (cases rule: unregister_end_cases [where i = i and q = q and r = r and n = n and c = c])
  case 2
  define c1 where "c1 = upd_peer i (\<lambda>p. p\<lparr>pr_peer_node_id := 0, pr_valid := False\<rparr>) c"
  have iv: "i \<in> valid_slots c" using 2 i slots_len [OF ok] by (simp add: valid_slots_def)
  have v: "valid_slots c1 = valid_slots c - {i}"
    using i slots_len [OF ok] by (auto simp: valid_slots_def c1_def nth_upd_peer split: if_splits)
  have n: "tc_peers c1 ! j = tc_peers c ! j" if "j \<in> valid_slots c - {i}" for j
    using that by (auto simp: c1_def nth_upd_peer valid_slots_def)
  have cnt: "unat (tc_peer_count c) = card (valid_slots c)" using ok by (simp add: peers_ok_def)
  have pos: "0 < card (valid_slots c)" using iv by (auto simp: card_gt_0_iff)
  with cnt have pos': "tc_peer_count c > 0" by (metis unat_gt_0 word_neq_0_conv)
  have s: "snd (linkg_transport_unregister_peer_end i q r n c) = c1\<lparr>tc_peer_count := tc_peer_count c - 1\<rparr>"
    using 2(4) pos' by (simp add: c1_def Let_def)
  have vs: "valid_slots (c1\<lparr>tc_peer_count := x\<rparr>) = valid_slots c - {i}" for x
    using v by (simp add: valid_slots_def)
  have "slots_ok (c1\<lparr>tc_peer_count := x\<rparr>)" for x
    using ok i by (auto simp: peers_ok_def slots_ok_def c1_def nth_upd_peer)
  moreover have "inj_on (\<lambda>j. pr_peer_node_id (tc_peers c1 ! j)) (valid_slots c - {i})"
    using ok n by (auto simp: peers_ok_def inj_on_def)
  moreover have "unat (tc_peer_count c - 1) = card (valid_slots c - {i})"
    using cnt pos' iv by (simp add: unat_dec card_Diff_singleton)
  moreover have "card (valid_slots c - {i}) \<le> card (valid_slots c)" by (rule card_Diff1_le)
  ultimately show ?thesis using ok n unfolding s
    by (auto simp: peers_ok_def vs) (auto simp: c1_def)
qed (use assms in simp)

lemma register_peers_ok:
  assumes ok: "peers_ok c"
  shows "peers_ok (snd (linkg_transport_register_peer n c))"
proof (cases rule: register_cases [where n = n and c = c])
  case (2 i)
  define c1 where "c1 = upd_peer i (\<lambda>p. (linkg_transport_restore_peer_tx_sequences (tc_tx_sequences c) n
              (linkg_transport_reset_peer_classes True p))
            \<lparr>pr_peer_node_id := n, pr_valid := True,
             pr_lifecycle_epoch := linkg_transport_peer_next_active_epoch (pr_lifecycle_epoch p)\<rparr>) c"
  have s: "snd (linkg_transport_register_peer n c) = c1\<lparr>tc_peer_count := tc_peer_count c + 1\<rparr>"
    using 2(8) by (simp add: c1_def)
  have iv: "i \<notin> valid_slots c" using 2(6) by (simp add: valid_slots_def)
  have v: "valid_slots (c1\<lparr>tc_peer_count := x\<rparr>) = insert i (valid_slots c)" for x
    using 2(5) by (auto simp: valid_slots_def c1_def nth_upd_peer split: if_splits)
  have nj: "tc_peers c1 ! j = tc_peers c ! j" if "j \<in> valid_slots c" for j
    using that iv by (auto simp: c1_def nth_upd_peer valid_slots_def)
  have ni: "pr_peer_node_id (tc_peers c1 ! i) = n" using 2(5) by (simp add: c1_def nth_upd_peer)
  have fresh: "pr_peer_node_id (tc_peers c ! j) \<noteq> n" if "j \<in> valid_slots c" for j
    using that 2(1,3) find_peer_None by blast
  have cnt: "unat (tc_peer_count c) = card (valid_slots c)" using ok by (simp add: peers_ok_def)
  have "card (valid_slots c) \<le> card {..<LINKG_TRANSPORT_PEER_MAX}"
    by (rule card_mono) (auto dest: valid_slot_less [OF ok])
  then have "unat (tc_peer_count c + 1) = card (insert i (valid_slots c))"
    using cnt iv by (simp add: unat_inc)
  moreover have "slots_ok (c1\<lparr>tc_peer_count := x\<rparr>)" for x
    using ok 2(5) by (auto simp: peers_ok_def slots_ok_def c1_def nth_upd_peer)
  moreover have "inj_on (\<lambda>j. pr_peer_node_id (tc_peers c1 ! j)) (insert i (valid_slots c))"
  proof -
    have "inj_on (\<lambda>j. pr_peer_node_id (tc_peers c1 ! j)) (valid_slots c)"
      using ok nj by (auto simp: peers_ok_def inj_on_def)
    moreover have "n \<notin> (\<lambda>j. pr_peer_node_id (tc_peers c1 ! j)) ` (valid_slots c)"
      using fresh nj by fastforce
    ultimately show ?thesis using iv by (simp add: ni)
  qed
  moreover have "tc_local_role c = LINKG_DEVICE_ROLE_STA \<longrightarrow> card (insert i (valid_slots c)) \<le> 1"
    using 2(7) cnt iv by auto
  moreover have "tc_local_node_id c1 = tc_local_node_id c" "tc_local_role c1 = tc_local_role c" "tc_initialized c1"
    using 2(4) by (simp_all add: c1_def)
  ultimately show ?thesis using ok nj ni 2(1,2) unfolding s
    by (auto simp: peers_ok_def v)
qed (use assms in simp)

section \<open>The sequence numbers of a node\<close>

text \<open>
  The last sequences used towards a node: in its slot while that is usable, in the table otherwise.
\<close>

definition node_sequences :: "linkg_transport_context \<Rightarrow> u8 \<Rightarrow> (u32 \<times> u32) list" where
  "node_sequences c n =
     (case linkg_transport_find_peer_locked n c of
        None \<Rightarrow> tc_tx_sequences c n
      | Some i \<Rightarrow> if even (pr_lifecycle_epoch (tc_peers c ! i)) then class_sequences (tc_peers c ! i)
                  else tc_tx_sequences c n)"

lemma node_sequences_slot:
  assumes "peers_ok c" "i \<in> valid_slots c" "pr_peer_node_id (tc_peers c ! i) = n"
  shows "node_sequences c n = (if even (pr_lifecycle_epoch (tc_peers c ! i)) then class_sequences (tc_peers c ! i)
    else tc_tx_sequences c n)"
  using find_peer_unique [OF assms] by (simp add: node_sequences_def)

lemma node_sequences_none:
  assumes "linkg_transport_node_id_valid n" "\<And>i. i \<in> valid_slots c \<Longrightarrow> pr_peer_node_id (tc_peers c ! i) \<noteq> n"
  shows "node_sequences c n = tc_tx_sequences c n"
  using find_peer_None [of n c] assms by (auto simp: node_sequences_def)

text \<open>Two contexts that agree on the slots and the table entry of a node agree on its sequences.\<close>

lemma node_sequences_cong:
  assumes "peers_ok c" "peers_ok c'" "linkg_transport_node_id_valid n"
    and "tc_tx_sequences c' n = tc_tx_sequences c n"
    and "\<And>j. pr_peer_node_id (tc_peers c ! j) = n \<Longrightarrow> j \<in> valid_slots c \<Longrightarrow> j \<in> valid_slots c' \<and> tc_peers c' ! j = tc_peers c ! j"
    and "\<And>j. pr_peer_node_id (tc_peers c' ! j) = n \<Longrightarrow> j \<in> valid_slots c' \<Longrightarrow> j \<in> valid_slots c \<and> tc_peers c' ! j = tc_peers c ! j"
  shows "node_sequences c' n = node_sequences c n"
proof (cases "\<exists>j\<in>valid_slots c. pr_peer_node_id (tc_peers c ! j) = n")
  case True
  then obtain j where j: "j \<in> valid_slots c" "pr_peer_node_id (tc_peers c ! j) = n" by auto
  with assms(5) have j': "j \<in> valid_slots c'" "tc_peers c' ! j = tc_peers c ! j" by auto
  with j have "pr_peer_node_id (tc_peers c' ! j) = n" by simp
  from node_sequences_slot [OF assms(1) j] node_sequences_slot [OF assms(2) j'(1) this] show ?thesis
    by (simp add: j'(2) assms(4))
next
  case False
  then show ?thesis using node_sequences_none [of n c] node_sequences_none [of n c'] assms by metis
qed

text \<open>An update of one slot that keeps who it belongs to matters to the node of that slot only.\<close>

lemma node_sequences_upd_other:
  assumes "peers_ok c" "peers_ok (upd_peer i f c)" "linkg_transport_node_id_valid n"
    and "i < LINKG_TRANSPORT_PEER_MAX" "pr_peer_node_id (tc_peers c ! i) \<noteq> n"
    and "pr_valid (f (tc_peers c ! i)) = pr_valid (tc_peers c ! i)"
    "pr_peer_node_id (f (tc_peers c ! i)) = pr_peer_node_id (tc_peers c ! i)"
  shows "node_sequences (upd_peer i f c) n = node_sequences c n"
  by (rule node_sequences_cong)
    (use assms in \<open>auto simp: valid_slots_def nth_upd_peer split: if_splits\<close>)

lemma begin_node_sequences:
  assumes ok: "peers_ok c" and m: "linkg_transport_node_id_valid m"
  shows "node_sequences (snd (peer_quiesce_begin w e n b c)) m = node_sequences c m"
  using ok
proof (cases rule: begin_cases [where w = w and e = e and n = n and b = b])
  case (2 i)
  let ?s = "linkg_transport_save_peer_tx_sequences (tc_peers c ! i) c"
  let ?c = "snd (peer_quiesce_begin w e n b c)"
  have ok': "peers_ok ?c" by (rule begin_peers_ok [OF ok])
  have oks: "peers_ok ?s" using ok 2(1) by (rule peers_ok_save)
  have i: "i < length (tc_peers c)" "i < LINKG_TRANSPORT_PEER_MAX"
    using 2(1) valid_slot_less [OF ok] by (auto simp: valid_slots_def)
  show ?thesis
  proof (cases "m = n")
    case True
    have iv: "i \<in> valid_slots ?c" using 2(1) i by (auto simp: 2(5) valid_slots_def nth_upd_peer)
    have "node_sequences ?c n = class_sequences (tc_peers c ! i)"
      by (subst node_sequences_slot [OF ok' iv]) (use i 2 in \<open>auto simp: nth_upd_peer epoch_parity\<close>)
    then show ?thesis using node_sequences_slot [OF ok 2(1,2)] 2(3) by (simp add: True epoch_parity)
  next
    case False
    have "node_sequences ?c m = node_sequences ?s m"
      unfolding 2(5) by (rule node_sequences_upd_other) (use oks ok' m i 2 False in auto)
    also have "\<dots> = node_sequences c m"
      by (rule node_sequences_cong) (use ok oks m 2 False in \<open>auto simp: valid_slots_def\<close>)
    finally show ?thesis .
  qed
qed simp

lemma reset_end_node_sequences:
  assumes ok: "peers_ok c" and i: "i < LINKG_TRANSPORT_PEER_MAX" and q: "odd q"
    and n: "linkg_transport_node_id_valid n" and m: "linkg_transport_node_id_valid m"
  shows "node_sequences (snd (linkg_transport_reset_peer_end i q r n c)) m = node_sequences c m"
proof (cases rule: reset_end_cases [where i = i and q = q and r = r and n = n and c = c])
  case 2
  let ?c = "snd (linkg_transport_reset_peer_end i q r n c)"
  have ok': "peers_ok ?c" by (rule reset_end_peers_ok [OF ok i])
  have len: "i < length (tc_peers c)" using i slots_len [OF ok] by simp
  have iv: "i \<in> valid_slots c" "i \<in> valid_slots ?c" using 2 len by (auto simp: valid_slots_def nth_upd_peer)
  show ?thesis
  proof (cases "m = n")
    case True
    have "node_sequences ?c n = tc_tx_sequences c n"
      by (subst node_sequences_slot [OF ok' iv(2)])
        (use len 2 q n classes_len [OF ok i] table_len [OF ok] in \<open>auto simp: nth_upd_peer class_sequences_restore\<close>)
    then show ?thesis using node_sequences_slot [OF ok iv(1) 2(2)] 2(3) q by (simp add: True)
  next
    case False
    show ?thesis unfolding 2(4)
      by (rule node_sequences_upd_other) (use ok ok' m i 2 False in auto)
  qed
qed simp

lemma unregister_end_node_sequences:
  assumes ok: "peers_ok c" and i: "i < LINKG_TRANSPORT_PEER_MAX" and q: "odd q" and m: "linkg_transport_node_id_valid m"
  shows "node_sequences (snd (linkg_transport_unregister_peer_end i q r n c)) m = node_sequences c m"
proof (cases rule: unregister_end_cases [where i = i and q = q and r = r and n = n and c = c])
  case 2
  let ?c = "snd (linkg_transport_unregister_peer_end i q r n c)"
  have ok': "peers_ok ?c" by (rule unregister_end_peers_ok [OF ok i])
  have len: "i < length (tc_peers c)" using i slots_len [OF ok] by simp
  have iv: "i \<in> valid_slots c" using 2 len by (auto simp: valid_slots_def)
  have v: "valid_slots ?c = valid_slots c - {i}"
    using len by (auto simp: 2(4) Let_def valid_slots_def nth_upd_peer split: if_splits)
  have p: "tc_peers ?c ! j = tc_peers c ! j" if "j \<in> valid_slots c" "j \<noteq> i" for j
    using that by (auto simp: 2(4) Let_def valid_slots_def nth_upd_peer)
  have t: "tc_tx_sequences ?c = tc_tx_sequences c" by (simp add: 2(4) Let_def)
  show ?thesis
  proof (cases "m = n")
    case True
    have u: "pr_peer_node_id (tc_peers c ! j) \<noteq> n" if "j \<in> valid_slots c" "j \<noteq> i" for j
      using that ok iv 2(2) by (auto simp: peers_ok_def dest: inj_onD)
    have "node_sequences ?c m = tc_tx_sequences c m"
      using node_sequences_none [of m ?c] m u by (auto simp: v p t True)
    then show ?thesis using node_sequences_slot [OF ok iv 2(2)] 2(3) q by (simp add: True)
  next
    case False
    show ?thesis
      by (rule node_sequences_cong) (use ok ok' m 2(2) False p in \<open>auto simp: v t\<close>)
  qed
qed simp

lemma next_active_even: "even (linkg_transport_peer_next_active_epoch e)"
  by (auto simp: linkg_transport_peer_next_active_epoch_def Let_def epoch_parity)

lemma register_node_sequences:
  assumes ok: "peers_ok c" and m: "linkg_transport_node_id_valid m"
  shows "node_sequences (snd (linkg_transport_register_peer n c)) m = node_sequences c m"
proof (cases rule: register_cases [where n = n and c = c])
  case (2 i)
  let ?c = "snd (linkg_transport_register_peer n c)"
  have ok': "peers_ok ?c" by (rule register_peers_ok [OF ok])
  have i: "i < LINKG_TRANSPORT_PEER_MAX" using 2(5) slots_len [OF ok] by simp
  have iv: "i \<notin> valid_slots c" using 2(6) by (simp add: valid_slots_def)
  have v: "valid_slots ?c = insert i (valid_slots c)"
    using 2(5) by (auto simp: 2(8) valid_slots_def nth_upd_peer split: if_splits)
  have p: "tc_peers ?c ! j = tc_peers c ! j" if "j \<in> valid_slots c" for j
    using that iv by (auto simp: 2(8) valid_slots_def nth_upd_peer)
  have ni: "pr_peer_node_id (tc_peers ?c ! i) = n" using 2(5) by (simp add: 2(8) nth_upd_peer)
  show ?thesis
  proof (cases "m = n")
    case True
    have iv': "i \<in> valid_slots ?c" by (simp add: v)
    have "node_sequences ?c n = tc_tx_sequences c n"
      by (subst node_sequences_slot [OF ok' iv' ni])
        (use 2(1,5) ok i in \<open>auto simp: 2(8) nth_upd_peer class_sequences_restore classes_len table_len next_active_even\<close>)
    then show ?thesis using 2(3) by (simp add: True node_sequences_def)
  next
    case False
    have "tc_tx_sequences ?c = tc_tx_sequences c" by (simp add: 2(8))
    then show ?thesis
      by (intro node_sequences_cong) (use ok ok' m ni False p iv in \<open>auto simp: v\<close>)
  qed
qed simp



text \<open>A context without peers that keeps the table: what an initialisation leaves behind, successful or not.\<close>

definition blank :: "linkg_transport_context \<Rightarrow> linkg_transport_context \<Rightarrow> bool" where
  "blank c c' \<longleftrightarrow> length (tc_peers c') = LINKG_TRANSPORT_PEER_MAX \<and>
     (\<forall>p\<in>set (tc_peers c'). \<not> pr_valid p \<and> length (pr_classes p) = CLASS_COUNT) \<and>
     tc_peer_count c' = 0 \<and> tc_tx_sequences c' = tc_tx_sequences c"

lemma blank_zero: "blank c (transport_zero (tc_tx_sequences c))"
  by (simp add: blank_def transport_zero_def peer_zero_def)

lemma blank_epochs: "blank c c' \<Longrightarrow> blank c (linkg_transport_peer_epochs_init c')"
  by (auto simp: blank_def linkg_transport_peer_epochs_init_def)

lemma blank_locks: "blank c c' \<Longrightarrow> blank c (snd (linkg_transport_peer_tx_locks_init env c'))"
  by (auto simp: blank_def linkg_transport_peer_tx_locks_init_def dest!: set_zip_rightD split: option.splits)

lemma blank_fields: "blank c c' \<Longrightarrow> blank c (c'\<lparr>tc_lock := l\<rparr>)"
  "blank c c' \<Longrightarrow> blank c (c'\<lparr>tc_local_node_id := n, tc_local_role := r, tc_next_packet_id := i, tc_initialized := b\<rparr>)"
  by (simp_all add: blank_def)

lemma init_blank:
  "snd (linkg_transport_init env c) = c \<or> \<not> tc_initialized c \<and> blank c (snd (linkg_transport_init env c))"
proof (cases "tc_initialized c")
  case False
  let ?c1 = "linkg_transport_peer_tx_locks_init env
    (linkg_transport_peer_epochs_init (transport_zero (tc_tx_sequences c))\<lparr>tc_lock := ie_lock env\<rparr>)"
  have "blank c (snd ?c1)" by (intro blank_locks blank_fields blank_epochs blank_zero)
  then show ?thesis
    by (simp add: linkg_transport_init_def Let_def split_beta False blank_zero blank_epochs blank_fields split: option.split)
qed (simp add: linkg_transport_init_def)

lemma deinit_blank:
  assumes "peers_ok c"
  shows "snd (linkg_transport_deinit env c) = c \<or>
    valid_slots c = {} \<and> snd (linkg_transport_deinit env c) = c\<lparr>tc_initialized := False\<rparr> \<or>
    valid_slots c = {} \<and> blank c (snd (linkg_transport_deinit env c))"
proof (cases "tc_peer_count c = 0")
  case True
  with assms have "valid_slots c = {}" by (simp add: peers_ok_def)
  then show ?thesis by (simp add: linkg_transport_deinit_def blank_zero)
qed (simp add: linkg_transport_deinit_def)

lemma blank_valid_slots: "blank c c' \<Longrightarrow> valid_slots c' = {}"
  by (auto simp: blank_def valid_slots_def)

lemma blank_ok:
  assumes "peers_ok c" "blank c c'" shows "peers_ok c'"
proof -
  have "slots_ok c'" using assms by (simp add: blank_def peers_ok_def slots_ok_def)
  then show ?thesis using assms(2) by (simp add: peers_ok_def blank_valid_slots) (simp add: blank_def)
qed

lemma blank_node_sequences:
  "blank c c' \<Longrightarrow> valid_slots c = {} \<Longrightarrow> linkg_transport_node_id_valid n \<Longrightarrow> node_sequences c' n = node_sequences c n"
  using node_sequences_none [of n c] node_sequences_none [of n c'] by (simp add: blank_valid_slots) (simp add: blank_def)

lemma init_ok:
  assumes "peers_ok c"
  shows "peers_ok (snd (linkg_transport_init env c)) \<and>
    (linkg_transport_node_id_valid n \<longrightarrow> node_sequences (snd (linkg_transport_init env c)) n = node_sequences c n)"
  using init_blank [of env c] assms blank_ok blank_node_sequences by (metis peers_ok_def)

lemma node_sequences_initialized: "node_sequences (c\<lparr>tc_initialized := b\<rparr>) n = node_sequences c n"
  by (auto simp: node_sequences_def linkg_transport_find_peer_locked_def split: option.split)

lemma deinit_ok:
  assumes "peers_ok c"
  shows "peers_ok (snd (linkg_transport_deinit env c)) \<and>
    (linkg_transport_node_id_valid n \<longrightarrow> node_sequences (snd (linkg_transport_deinit env c)) n = node_sequences c n)"
  using deinit_blank [OF assms, of env]
proof (elim disjE conjE)
  assume c': "snd (linkg_transport_deinit env c) = c\<lparr>tc_initialized := False\<rparr>" and e: "valid_slots c = {}"
  have "valid_slots (c\<lparr>tc_initialized := False\<rparr>) = valid_slots c" by (simp add: valid_slots_def)
  then have "peers_ok (c\<lparr>tc_initialized := False\<rparr>)" using assms e by (simp add: peers_ok_def slots_ok_def)
  then show ?thesis by (simp add: c' node_sequences_initialized)
qed (use assms blank_ok blank_node_sequences in auto)

section \<open>Sending\<close>

text \<open>Whether a type counts as user data selects the counter.\<close>

definition class_sequence :: "bool \<Rightarrow> linkg_transport_peer_class \<Rightarrow> u32" where
  "class_sequence user k = (if user then pc_tx_user_sequence k else pc_tx_control_sequence k)"

definition sent_kind :: "bool \<Rightarrow> (u8 \<times> u32) list \<Rightarrow> u32 list" where
  "sent_kind user sent = map snd (filter (\<lambda>(t, s). (t = LINKG_TRANSPORT_TYPE_USER_DATA) = user) sent)"

definition consecutive :: "u32 \<Rightarrow> nat \<Rightarrow> u32 list" where
  "consecutive s n = map (\<lambda>j. s + of_nat (Suc j)) [0..<n]"

lemma length_consecutive [simp]: "length (consecutive s n) = n"
  by (simp add: consecutive_def)

lemma consecutive_Suc: "consecutive s (Suc n) = (s + 1) # consecutive (s + 1) n"
  by (rule nth_equalityI) (auto simp: consecutive_def nth_Cons algebra_simps simp del: upt_Suc split: nat.split)

lemma consecutive_append: "consecutive s m @ consecutive (s + of_nat m) n = consecutive s (m + n)"
  by (rule nth_equalityI) (auto simp: consecutive_def nth_append algebra_simps)

lemma take_sequences:
  "tx_take_sequences types k = (sent, k') \<Longrightarrow>
   class_sequence user k' = class_sequence user k + of_nat (length (sent_kind user sent)) \<and>
   sent_kind user sent = consecutive (class_sequence user k) (length (sent_kind user sent))"
proof (induction types arbitrary: k sent)
  case Nil
  then show ?case by (simp add: sent_kind_def consecutive_def)
next
  case (Cons t types)
  obtain s k1 where s: "linkg_transport_tx_next_sequence t k = (s, k1)" by fastforce
  obtain r where r: "tx_take_sequences types k1 = (r, k')" "sent = (t, s) # r"
    using Cons.prems s by (auto simp: Let_def split: prod.splits)
  have k1: "class_sequence user k1 = class_sequence user k + (if (t = LINKG_TRANSPORT_TYPE_USER_DATA) = user then 1 else 0)"
    "(t = LINKG_TRANSPORT_TYPE_USER_DATA) = user \<Longrightarrow> s = class_sequence user k + 1"
    using s by (auto simp: linkg_transport_tx_next_sequence_def class_sequence_def split: if_splits)
  have sk: "sent_kind user sent = (if (t = LINKG_TRANSPORT_TYPE_USER_DATA) = user then s # sent_kind user r else sent_kind user r)"
    by (simp add: r(2) sent_kind_def)
  from Cons.IH [OF r(1)] show ?case
    unfolding sk k1(1) by (auto simp: k1(2) consecutive_Suc)
qed

lemma packet_ids_context: "\<exists>x. snd (tx_packet_ids fs c) = c\<lparr>tc_next_packet_id := x\<rparr>"
proof (induction fs arbitrary: c)
  case Nil
  then show ?case by (metis linkg_transport_context.surjective linkg_transport_context.update_convs(6) tx_packet_ids.simps(1) snd_conv)
next
  case (Cons f fs)
  show ?case
    using Cons [of c] Cons [of "snd (linkg_transport_tx_next_packet_id_locked c)"]
    by (auto simp: Let_def linkg_transport_tx_next_packet_id_locked_def split: prod.splits)
qed

lemma acquire_cases:
  obtains e where "linkg_transport_tx_acquire_state n k fs c = (Inl e, c)"
  | x i ids where "linkg_transport_tx_acquire_state n k fs c = (Inr (i, ids), c\<lparr>tc_next_packet_id := x\<rparr>)"
    "linkg_transport_find_peer_locked n c = Some i" "even (pr_lifecycle_epoch (tc_peers c ! i))"
proof (cases "\<exists>e. linkg_transport_tx_acquire_state n k fs c = (Inl e, c)")
  case False
  then obtain i where i: "linkg_transport_find_peer_locked n c = Some i" "even (pr_lifecycle_epoch (tc_peers c ! i))"
    by (auto simp: linkg_transport_tx_acquire_state_def linkg_transport_peer_epoch_read_active_def epoch_parity
        split: if_splits option.splits)
  obtain x where "snd (tx_packet_ids fs c) = c\<lparr>tc_next_packet_id := x\<rparr>" using packet_ids_context by blast
  with False i show ?thesis
    by (intro that(2) [of i "fst (tx_packet_ids fs c)" x])
      (auto simp: linkg_transport_tx_acquire_state_def Let_def split_beta split: if_splits)
qed (use that(1) in blast)

lemma packet_id_field:
  "peers_ok (c\<lparr>tc_next_packet_id := x\<rparr>) = peers_ok c" "node_sequences (c\<lparr>tc_next_packet_id := x\<rparr>) n = node_sequences c n"
  "valid_slots (c\<lparr>tc_next_packet_id := x\<rparr>) = valid_slots c"
  by (auto simp: peers_ok_def slots_ok_def valid_slots_def node_sequences_def linkg_transport_find_peer_locked_def
      split: option.split)

text \<open>The last sequence used towards a node on a class.\<close>

definition last_sequence :: "linkg_transport_context \<Rightarrow> u8 \<Rightarrow> nat \<Rightarrow> bool \<Rightarrow> u32" where
  "last_sequence c n k user = (if user then fst else snd) (node_sequences c n ! k)"

lemma class_sequences_nth:
  "k < length (pr_classes p) \<Longrightarrow> (if user then fst else snd) (class_sequences p ! k) = class_sequence user (pr_classes p ! k)"
  by (simp add: class_sequences_def class_sequence_def)

lemma tx_send_effect:
  assumes ok: "peers_ok c" and k: "k < CLASS_COUNT" and s: "tx_send n k items t c = (sent, c')"
  shows "peers_ok c' \<and>
    (\<forall>m k' user. linkg_transport_node_id_valid m \<longrightarrow> k' < CLASS_COUNT \<longrightarrow>
       last_sequence c' m k' user = last_sequence c m k' user +
         (if m = n \<and> k' = k then of_nat (length (sent_kind user sent)) else 0)) \<and>
    (\<forall>user. sent_kind user sent = consecutive (last_sequence c n k user) (length (sent_kind user sent))) \<and>
    (sent \<noteq> [] \<longrightarrow> linkg_transport_node_id_valid n)"
proof (cases rule: acquire_cases [where n = n and k = k and fs = "map snd items" and c = c])
  case (1 e)
  then show ?thesis using s ok by (auto simp: tx_send_def sent_kind_def consecutive_def)
next
  case (2 x i ids)
  note i = find_peer_Some [OF 2(2)]
  have len: "i < length (tc_peers c)" "i < LINKG_TRANSPORT_PEER_MAX" using i valid_slot_less [OF ok] by (auto simp: valid_slots_def)
  define c1 where "c1 = c\<lparr>tc_next_packet_id := x\<rparr>"
  have ok1: "peers_ok c1" and seq1: "node_sequences c1 = node_sequences c" and v1: "valid_slots c1 = valid_slots c"
    and p1: "tc_peers c1 = tc_peers c"
    using ok by (auto simp: c1_def packet_id_field)
  have send: "tx_send n k items t c = (if \<not> t then ([], c1) else
     (let (sent, k2) = tx_take_sequences (frame_types items) (pr_classes (tc_peers c1 ! i) ! k)
      in (sent, upd_peer i (\<lambda>p. p\<lparr>pr_classes := (pr_classes p)[k := k2]\<rparr>) c1)))"
    by (simp add: tx_send_def 2(1) c1_def)
  show ?thesis
  proof (cases t)
    case False
    with s have "sent = []" "c' = c1" unfolding send by auto
    then show ?thesis by (auto simp: ok1 last_sequence_def seq1 sent_kind_def consecutive_def)
  next
    case True
    obtain k2 where k2: "tx_take_sequences (frame_types items) (pr_classes (tc_peers c ! i) ! k) = (sent, k2)"
      and c': "c' = upd_peer i (\<lambda>p. p\<lparr>pr_classes := (pr_classes p)[k := k2]\<rparr>) c1"
      using s True unfolding send by (auto simp: p1 split: prod.splits)
    have kl: "k < length (pr_classes (tc_peers c ! i))" "length (pr_classes (tc_peers c ! i)) = CLASS_COUNT"
      using k classes_len [OF ok len(2)] by auto
    have ok': "peers_ok c'" unfolding c' by (rule peers_ok_upd) (use ok1 len kl in \<open>auto simp: p1\<close>)
    have old: "node_sequences c n = class_sequences (tc_peers c ! i)"
      using node_sequences_slot [OF ok] i 2(3) by auto
    have iv: "i \<in> valid_slots c'" using i len by (auto simp: c' valid_slots_def nth_upd_peer p1)
    have new: "node_sequences c' n = class_sequences ((tc_peers c ! i)\<lparr>pr_classes := (pr_classes (tc_peers c ! i))[k := k2]\<rparr>)"
      by (subst node_sequences_slot [OF ok' iv]) (use i len 2(3) in \<open>auto simp: c' nth_upd_peer p1\<close>)
    have other: "node_sequences c' m = node_sequences c m" if "m \<noteq> n" "linkg_transport_node_id_valid m" for m
      unfolding c' seq1 [symmetric]
      by (rule node_sequences_upd_other) (use ok1 ok' c' that i len in \<open>auto simp: p1\<close>)
    have ls: "last_sequence c n k' user = class_sequence user (pr_classes (tc_peers c ! i) ! k')" if "k' < CLASS_COUNT" for k' user
      using that kl(2) class_sequences_nth by (auto simp: last_sequence_def old)
    have ls': "last_sequence c' n k' user = class_sequence user ((pr_classes (tc_peers c ! i))[k := k2] ! k')"
      if "k' < CLASS_COUNT" for k' user
      unfolding last_sequence_def new using that kl(2) by (subst class_sequences_nth) auto
    have "last_sequence c' m k' user = last_sequence c m k' user +
         (if m = n \<and> k' = k then of_nat (length (sent_kind user sent)) else 0)"
      if "linkg_transport_node_id_valid m" "k' < CLASS_COUNT" for m k' user
    proof (cases "m = n")
      case True
      then show ?thesis using ls ls' that(2) kl take_sequences [OF k2, of user]
        by (auto simp: nth_list_update)
    qed (use other that in \<open>simp add: last_sequence_def\<close>)
    moreover have "sent_kind user sent = consecutive (last_sequence c n k user) (length (sent_kind user sent))" for user
      using take_sequences [OF k2, of user] ls [OF k] by simp
    ultimately show ?thesis using ok' i by blast
  qed
qed

section \<open>Continuity over whole histories\<close>

definition logged :: "sent_log \<Rightarrow> u8 \<Rightarrow> nat \<Rightarrow> bool \<Rightarrow> u32 list" where
  "logged log n k user = map (\<lambda>(n', k', t, s). s)
     (filter (\<lambda>(n', k', t, s). n' = n \<and> k' = k \<and> (t = LINKG_TRANSPORT_TYPE_USER_DATA) = user) log)"

lemma logged_append: "logged (log @ map (\<lambda>(t, s). (n, k, t, s)) sent) m k' user =
  logged log m k' user @ (if m = n \<and> k' = k then sent_kind user sent else [])"
proof -
  have "logged (map (\<lambda>(t, s). (n, k, t, s)) sent) m k' user = (if m = n \<and> k' = k then sent_kind user sent else [])"
    by (induction sent) (auto simp: logged_def sent_kind_def)
  then show ?thesis by (simp add: logged_def)
qed

definition log_ok :: "linkg_transport_context \<times> sent_log \<Rightarrow> bool" where
  "log_ok = (\<lambda>(c, log). peers_ok c \<and>
     (\<forall>n k user. linkg_transport_node_id_valid n \<and> k < CLASS_COUNT \<longrightarrow>
        last_sequence c n k user = of_nat (length (logged log n k user)) \<and>
        logged log n k user = consecutive 0 (length (logged log n k user))))"

lemma last_sequence_cong: "node_sequences c' n = node_sequences c n \<Longrightarrow> last_sequence c' n = last_sequence c n"
  by (simp add: last_sequence_def fun_eq_iff)

lemma log_ok_quiet:
  assumes "log_ok (c, log)" "peers_ok c'" "\<And>n. linkg_transport_node_id_valid n \<Longrightarrow> node_sequences c' n = node_sequences c n"
  shows "log_ok (c', log)"
proof -
  have "last_sequence c' n k user = last_sequence c n k user" if "linkg_transport_node_id_valid n" for n k user
    using last_sequence_cong [OF assms(3) [OF that]] by simp
  then show ?thesis using assms(1,2) by (simp add: log_ok_def)
qed

lemma log_ok_apply:
  assumes "log_ok (c, log)" "op_ok p"
  shows "log_ok (peer_apply p (c, log))"
proof -
  have ok: "peers_ok c" using assms(1) by (simp add: log_ok_def)
  show ?thesis
  proof (cases p)
    case (RegisterPeer n)
    then show ?thesis using log_ok_quiet [OF assms(1) register_peers_ok [OF ok] register_node_sequences [OF ok]] by simp
  next
    case (QuiesceBegin w e n b)
    then show ?thesis using log_ok_quiet [OF assms(1) begin_peers_ok [OF ok] begin_node_sequences [OF ok]] by simp
  next
    case (ResetEnd i q r n)
    then have "i < LINKG_TRANSPORT_PEER_MAX" "odd q" "linkg_transport_node_id_valid n" using assms(2) by (auto simp: epoch_parity)
    from log_ok_quiet [OF assms(1) reset_end_peers_ok [OF ok this(1)] reset_end_node_sequences [OF ok this]] ResetEnd
    show ?thesis by simp
  next
    case (UnregisterEnd i q r n)
    then have "i < LINKG_TRANSPORT_PEER_MAX" "odd q" using assms(2) by (auto simp: epoch_parity)
    from log_ok_quiet [OF assms(1) unregister_end_peers_ok [OF ok this(1)] unregister_end_node_sequences [OF ok this]] UnregisterEnd
    show ?thesis by simp
  next
    case (ModuleInit env)
    then show ?thesis using log_ok_quiet [OF assms(1)] init_ok [OF ok, of env] by auto
  next
    case (ModuleDeinit env)
    then show ?thesis using log_ok_quiet [OF assms(1)] deinit_ok [OF ok, of env] by auto
  next
    case (TxSend n k items t)
    obtain sent c' where s: "tx_send n k items t c = (sent, c')" by fastforce
    have k: "k < CLASS_COUNT" using TxSend assms(2) by simp
    note e = tx_send_effect [OF ok k s]
    have "last_sequence c' m k' user = of_nat (length (logged (log @ map (\<lambda>(t, s). (n, k, t, s)) sent) m k' user)) \<and>
      logged (log @ map (\<lambda>(t, s). (n, k, t, s)) sent) m k' user =
        consecutive 0 (length (logged (log @ map (\<lambda>(t, s). (n, k, t, s)) sent) m k' user))"
      if m: "linkg_transport_node_id_valid m" "k' < CLASS_COUNT" for m k' user
    proof -
      have old: "last_sequence c m k' user = of_nat (length (logged log m k' user))"
        "logged log m k' user = consecutive 0 (length (logged log m k' user))"
        using assms(1) m unfolding log_ok_def by blast+
      show ?thesis
      proof (cases "m = n \<and> k' = k")
        case True
        have "sent_kind user sent = consecutive (0 + of_nat (length (logged log m k' user))) (length (sent_kind user sent))"
          using e old(1) True by (metis add_0)
        then have "logged log m k' user @ sent_kind user sent =
            consecutive 0 (length (logged log m k' user) + length (sent_kind user sent))"
          using old(2) consecutive_append by metis
        then show ?thesis using e m old(1) True by (simp add: logged_append)
      next
        case False
        have "last_sequence c' m k' user = last_sequence c m k' user" using e m False by auto
        then show ?thesis using old False by (simp only: logged_append if_not_P if_False append_Nil2)
      qed
    qed
    with e show ?thesis by (simp add: TxSend s log_ok_def)
  qed
qed

lemma log_ok_run: "log_ok s \<Longrightarrow> list_all op_ok ops \<Longrightarrow> log_ok (fold peer_apply ops s)"
proof (induction ops arbitrary: s)
  case (Cons p ops)
  then show ?case using log_ok_apply [of "fst s" "snd s" p] by simp
qed simp

section \<open>Epochs\<close>

text \<open>
  A life cycle operation moves the epoch of a slot forward by at most two. A receiver that captured an
  even epoch is therefore fenced off as soon as the epoch has moved, until the counter has gone all the
  way round.
\<close>

definition slot_epoch :: "linkg_transport_context \<Rightarrow> nat \<Rightarrow> u32" where
  "slot_epoch c i = pr_lifecycle_epoch (tc_peers c ! i)"

text \<open>The operations between a module initialisation and the next.\<close>

fun session_op :: "peer_op \<Rightarrow> bool" where
  "session_op (ModuleInit env) \<longleftrightarrow> False"
| "session_op (ModuleDeinit env) \<longleftrightarrow> False"
| "session_op _ \<longleftrightarrow> True"

lemma next_active_epoch_step: "\<exists>d\<le>2. linkg_transport_peer_next_active_epoch e = e + of_nat d"
proof (cases "(e + 1) AND 1 = 0")
  case True
  then show ?thesis by (intro exI [of _ 1]) (simp add: linkg_transport_peer_next_active_epoch_def Let_def)
next
  case False
  then show ?thesis by (intro exI [of _ 2]) (simp add: linkg_transport_peer_next_active_epoch_def Let_def)
qed

lemma slot_epoch_upd:
  "j < length (tc_peers c) \<Longrightarrow>
   slot_epoch (upd_peer i f c) j = (if i = j then pr_lifecycle_epoch (f (tc_peers c ! j)) else slot_epoch c j)"
  by (simp add: slot_epoch_def nth_upd_peer)

lemma slot_epoch_fields [simp]:
  "slot_epoch (c\<lparr>tc_next_packet_id := x\<rparr>) = slot_epoch c" "slot_epoch (c\<lparr>tc_peer_count := y\<rparr>) = slot_epoch c"
  "slot_epoch (linkg_transport_save_peer_tx_sequences p c) = slot_epoch c"
  by (simp_all add: slot_epoch_def fun_eq_iff)

lemma tx_send_epoch: "j < length (tc_peers c) \<Longrightarrow> slot_epoch (snd (tx_send n k items t c)) j = slot_epoch c j"
proof (cases rule: acquire_cases [where n = n and k = k and fs = "map snd items" and c = c])
  case (2 x i ids)
  assume j: "j < length (tc_peers c)"
  with 2 show ?thesis
    by (auto simp: tx_send_def Let_def slot_epoch_upd slot_epoch_def split: prod.splits)
       (simp add: nth_upd_peer)
qed (simp add: tx_send_def)

lemma epoch_step:
  assumes ok: "peers_ok c" and p: "op_ok p" "session_op p" and j: "j < LINKG_TRANSPORT_PEER_MAX"
  shows "\<exists>d\<le>2. slot_epoch (fst (peer_apply p (c, log))) j = slot_epoch c j + of_nat d"
proof -
  have jl: "j < length (tc_peers c)" using j slots_len [OF ok] by simp
  have same: "slot_epoch c' j = slot_epoch c j \<Longrightarrow> \<exists>d\<le>2. slot_epoch c' j = slot_epoch c j + of_nat d" for c'
    by (intro exI [of _ 0]) simp
  have one: "slot_epoch c' j = slot_epoch c j + 1 \<Longrightarrow> \<exists>d\<le>2. slot_epoch c' j = slot_epoch c j + of_nat d" for c'
    by (intro exI [of _ 1]) simp
  show ?thesis
  proof (cases p)
    case (RegisterPeer n)
    show ?thesis
    proof (cases rule: register_cases [where n = n and c = c])
      case (2 i)
      have "slot_epoch (fst (peer_apply p (c, log))) j =
          (if i = j then linkg_transport_peer_next_active_epoch (slot_epoch c j) else slot_epoch c j)"
        using jl by (simp add: RegisterPeer 2(8) slot_epoch_upd) (simp add: slot_epoch_def)
      then show ?thesis by (metis next_active_epoch_step same)
    qed (use RegisterPeer in \<open>auto intro: same\<close>)
  next
    case (QuiesceBegin w e n b)
    from ok show ?thesis
    proof (cases rule: begin_cases [where w = w and e = e and n = n and b = b])
      case (2 i)
      have "slot_epoch (fst (peer_apply p (c, log))) j = (if i = j then slot_epoch c j + 1 else slot_epoch c j)"
        using jl by (simp add: QuiesceBegin 2(5) slot_epoch_upd) (simp add: slot_epoch_def)
      then show ?thesis by (metis one same)
    qed (use QuiesceBegin in \<open>auto intro: same\<close>)
  next
    case (ResetEnd i q r n)
    show ?thesis
    proof (cases rule: reset_end_cases [where i = i and q = q and r = r and n = n and c = c])
      case 2
      have "slot_epoch (fst (peer_apply p (c, log))) j = (if i = j then slot_epoch c j + 1 else slot_epoch c j)"
        using jl 2(3) by (simp add: ResetEnd 2(4) slot_epoch_upd) (auto simp: slot_epoch_def)
      then show ?thesis by (metis one same)
    qed (use ResetEnd in \<open>auto intro: same\<close>)
  next
    case (UnregisterEnd i q r n)
    show ?thesis
    proof (cases rule: unregister_end_cases [where i = i and q = q and r = r and n = n and c = c])
      case 2
      then show ?thesis using UnregisterEnd jl
        by (intro same) (auto simp: Let_def slot_epoch_upd, simp_all add: slot_epoch_def)
    qed (use UnregisterEnd in \<open>auto intro: same\<close>)
  next
    case (TxSend n k items t)
    then show ?thesis using tx_send_epoch [OF jl, of n k items t] same by (simp add: split_beta)
  qed (use p in auto)
qed

lemma epoch_run:
  assumes "log_ok s" "list_all op_ok ops" "list_all session_op ops" "j < LINKG_TRANSPORT_PEER_MAX"
  shows "\<exists>d\<le>2 * length ops. slot_epoch (fst (fold peer_apply ops s)) j = slot_epoch (fst s) j + of_nat d"
  using assms
proof (induction ops arbitrary: s)
  case (Cons p ops)
  have ok: "peers_ok (fst s)" using Cons.prems(1) by (auto simp: log_ok_def)
  obtain d where d: "d \<le> 2" "slot_epoch (fst (peer_apply p s)) j = slot_epoch (fst s) j + of_nat d"
    using epoch_step [OF ok, of p j "snd s"] Cons.prems by auto
  have "log_ok (peer_apply p s)" using log_ok_apply [of "fst s" "snd s" p] Cons.prems by simp
  from Cons.IH [OF this] Cons.prems obtain e where e: "e \<le> 2 * length ops"
    "slot_epoch (fst (fold peer_apply ops (peer_apply p s))) j = slot_epoch (fst (peer_apply p s)) j + of_nat e"
    by auto
  show ?case by (intro exI [of _ "d + e"]) (use d e in \<open>auto simp: algebra_simps\<close>)
qed simp

lemma epoch_matches_iff: "linkg_transport_peer_epoch_matches (Some (tc_peers c ! i)) e \<longleftrightarrow> even e \<and> slot_epoch c i = e"
  by (auto simp: linkg_transport_peer_epoch_matches_def slot_epoch_def epoch_parity)


lemma begin_success:
  assumes "peer_quiesce_begin w e n b c = (Inr (i, q), c')"
  shows "i < length (tc_peers c) \<and> slot_epoch c' i = slot_epoch c i + 1"
proof (cases "linkg_transport_find_peer_locked n c")
  case None
  with assms show ?thesis by (simp add: peer_quiesce_begin_def split: if_splits)
next
  case (Some j)
  have jl: "j < length (tc_peers c)" using find_peer_Some [OF Some] by (simp add: valid_slots_def)
  obtain r q' c1 where q: "linkg_transport_peer_quiesce_locked j b c = (r, q', c1)" by (metis prod_cases3)
  with assms Some have *: "j = i" "r = 0" "c1 = c'" by (auto simp: peer_quiesce_begin_def split: if_splits)
  with quiesce_cases [OF q jl] jl have "c' = upd_peer i (\<lambda>p. linkg_transport_reset_peer_classes b (p\<lparr>pr_lifecycle_epoch := slot_epoch c i + 1\<rparr>))
           (linkg_transport_save_peer_tx_sequences (tc_peers c ! i) c)" by (simp add: slot_epoch_def)
  then show ?thesis using jl * by (simp add: slot_epoch_upd)
qed

section \<open>Packet identifiers\<close>

text \<open>The identifier after \<open>j\<close> others: the counter runs through the nonzero values.\<close>

definition packet_id_after :: "u32 \<Rightarrow> nat \<Rightarrow> u32" where
  "packet_id_after start j = of_nat (Suc ((unat start - 1 + j) mod (2 ^ 32 - 1)))"

definition first_packet_id :: "linkg_transport_context \<Rightarrow> u32" where
  "first_packet_id c = (if tc_next_packet_id c = 0 then 1 else tc_next_packet_id c)"

lemma packet_id_after_zero: "start \<noteq> 0 \<Longrightarrow> packet_id_after start 0 = start"
proof -
  assume "start \<noteq> 0"
  then have "0 < unat start" by (simp add: unat_gt_0)
  moreover have "unat start < 2 ^ 32" using unsigned_less [of start] by simp
  ultimately have "Suc ((unat start - 1) mod (2 ^ 32 - 1)) = unat start" by simp
  then show ?thesis by (simp add: packet_id_after_def del: of_nat_Suc)
qed

lemma first_packet_id_next:
  "first_packet_id (snd (linkg_transport_tx_next_packet_id_locked c)) = (if first_packet_id c + 1 = 0 then 1 else first_packet_id c + 1)"
  by (simp add: first_packet_id_def linkg_transport_tx_next_packet_id_locked_def Let_def)

lemma packet_id_after_next:
  assumes "start \<noteq> 0"
  shows "packet_id_after (if start + 1 = 0 then 1 else start + 1) j = packet_id_after start (Suc j)"
proof (cases "start + 1 = 0")
  case True
  then have "unat (start + 1) = 0" by simp
  then have "(unat start + 1) mod 2 ^ 32 = 0" by (simp add: unat_word_ariths)
  moreover have "unat start < 2 ^ 32" using unsigned_less [of start] by simp
  ultimately have "unat start = 2 ^ 32 - 1" by (auto simp: mod_if split: if_splits)
  then show ?thesis by (simp add: packet_id_after_def True mod_add_self1)
next
  case False
  then have "unat (start + 1) = Suc (unat start)" by (metis Suc_eq_plus1 unatSuc add.commute)
  moreover have "0 < unat start" using assms by (simp add: unat_gt_0)
  ultimately show ?thesis using False by (simp add: packet_id_after_def)
qed

lemma packet_ids_after:
  "map the (filter (\<lambda>x. x \<noteq> None) (fst (tx_packet_ids fs c))) =
   map (packet_id_after (first_packet_id c)) [0..<length (filter (\<lambda>f. f) fs)]"
proof (induction fs arbitrary: c)
  case (Cons f fs)
  show ?case
  proof (cases f)
    case True
    obtain pid c1 where n: "linkg_transport_tx_next_packet_id_locked c = (pid, c1)" by fastforce
    have nz: "first_packet_id c \<noteq> 0" by (simp add: first_packet_id_def)
    have pid: "pid = first_packet_id c" using n by (simp add: linkg_transport_tx_next_packet_id_locked_def first_packet_id_def Let_def split: if_splits)
    have c1: "packet_id_after (first_packet_id c1) j = packet_id_after (first_packet_id c) (Suc j)" for j
      using first_packet_id_next [of c] packet_id_after_next [OF nz] by (simp add: n)
    have "map the (filter (\<lambda>x. x \<noteq> None) (fst (tx_packet_ids (f # fs) c))) =
      pid # map (packet_id_after (first_packet_id c1)) [0..<length (filter (\<lambda>f. f) fs)]"
      using Cons [of c1] by (simp add: True n split_beta)
    also have "\<dots> = map (packet_id_after (first_packet_id c)) [0..<Suc (length (filter (\<lambda>f. f) fs))]"
      using packet_id_after_zero [OF nz]
      by (intro nth_equalityI) (auto simp: pid c1 nth_Cons simp del: upt_Suc split: nat.split)
    finally show ?thesis by (simp add: True)
  next
    case False
    then show ?thesis using Cons [of c] by (simp add: split_beta)
  qed
qed simp

lemma unat_packet_id_after: "unat (packet_id_after start j) = Suc ((unat start - 1 + j) mod (2 ^ 32 - 1))"
proof -
  have "(unat start - 1 + j) mod (2 ^ 32 - 1) < 2 ^ 32 - 1" by simp
  then show ?thesis by (simp add: packet_id_after_def unat_of_nat del: of_nat_Suc)
qed

lemma packet_id_after_inj: "inj_on (packet_id_after start) {..<2 ^ 32 - 1}"
proof (rule linorder_inj_onI)
  fix i j :: nat
  assume ij: "i < j" "i \<in> {..<2 ^ 32 - 1}" "j \<in> {..<2 ^ 32 - 1}"
  show "packet_id_after start i \<noteq> packet_id_after start j"
  proof
    assume "packet_id_after start i = packet_id_after start j"
    then have "(unat start - 1 + j) mod (2 ^ 32 - 1) = (unat start - 1 + i) mod (2 ^ 32 - 1)"
      by (metis unat_packet_id_after Suc_inject)
    then have "(2 ^ 32 - 1) dvd (unat start - 1 + j) - (unat start - 1 + i)"
      using ij(1) mod_eq_dvd_iff_nat [of "unat start - 1 + i" "unat start - 1 + j" "2 ^ 32 - 1"] by linarith
    then have "(2 ^ 32 - 1) dvd (j - i)" by simp
    then have "2 ^ 32 - 1 \<le> j - i" using ij(1) by (intro dvd_imp_le) auto
    then show False using ij(3) by simp
  qed
qed auto

section \<open>Properties\<close>

definition sequences_zero :: "u8 \<Rightarrow> (u32 \<times> u32) list" where
  "sequences_zero n = replicate CLASS_COUNT (0, 0)"

text \<open>The state after a history of the program, from the start of the process.\<close>

definition history :: "peer_op list \<Rightarrow> linkg_transport_context \<times> sent_log" where
  "history ops = fold peer_apply ops (transport_zero sequences_zero, [])"

lemma zero_peers_ok: "(\<And>n. length (t n) = CLASS_COUNT) \<Longrightarrow> peers_ok (transport_zero t)"
proof -
  assume "\<And>n. length (t n) = CLASS_COUNT"
  then have "slots_ok (transport_zero t)" by (simp add: slots_ok_def transport_zero_def peer_zero_def)
  moreover have "valid_slots (transport_zero t) = {}"
    by (auto simp: valid_slots_def transport_zero_def peer_zero_def)
  ultimately show ?thesis by (simp add: peers_ok_def) (simp add: transport_zero_def)
qed

lemma log_ok_start: "log_ok (transport_zero sequences_zero, [])"
proof -
  have ok: "peers_ok (transport_zero sequences_zero)" by (rule zero_peers_ok) (simp add: sequences_zero_def)
  have "last_sequence (transport_zero sequences_zero) n k user = 0"
    if "linkg_transport_node_id_valid n" "k < CLASS_COUNT" for n k user
    using blank_valid_slots [OF blank_zero, of "transport_zero sequences_zero"]
      node_sequences_none [of n "transport_zero sequences_zero"] that
    by (simp add: last_sequence_def transport_zero_def sequences_zero_def)
  then show ?thesis using ok by (simp add: log_ok_def logged_def consecutive_def)
qed

lemma log_ok_history: "list_all op_ok ops \<Longrightarrow> log_ok (history ops)"
  unfolding history_def by (rule log_ok_run [OF log_ok_start])

definition sample_init_env :: transport_init_env where
  "sample_init_env = \<lparr>ie_local = Some (1, LINKG_DEVICE_ROLE_AP), ie_lock_init = 0, ie_lock = mutex_zero,
     ie_order_init = (\<lambda>_ _. 0), ie_order_lock = (\<lambda>_ _. mutex_zero), ie_reassembly_init = 0, ie_forward_init = 0,
     ie_reorder_init = 0, ie_receive_handler = 0\<rparr>"

definition sample_history :: "peer_op list" where
  "sample_history = [ModuleInit sample_init_env, RegisterPeer 2, TxSend 2 1 [(1, False), (1, True), (2, False)] True,
     QuiesceBegin False 0 2 True, TxSend 2 1 [(1, False)] True, UnregisterEnd 0 3 0 2, RegisterPeer 2,
     TxSend 2 1 [(1, False)] False, TxSend 2 1 [(1, False)] True]"





lemma peers_ok_table:
  assumes ok: "peers_ok c"
  shows "unat (tc_peer_count c) = card (valid_slots c)"
    "tc_local_role c = LINKG_DEVICE_ROLE_STA \<longrightarrow> card (valid_slots c) \<le> 1"
    "tc_local_node_id c \<notin> (\<lambda>i. pr_peer_node_id (tc_peers c ! i)) ` valid_slots c"
    "linkg_transport_find_peer_locked n c = Some i \<longleftrightarrow> i \<in> valid_slots c \<and> pr_peer_node_id (tc_peers c ! i) = n"
proof -
  show "linkg_transport_find_peer_locked n c = Some i \<longleftrightarrow> i \<in> valid_slots c \<and> pr_peer_node_id (tc_peers c ! i) = n"
    using find_peer_unique [OF ok, of i n] find_peer_Some [of n c i] by blast
qed (use ok in \<open>auto simp: peers_ok_def\<close>)

text \<open>
  C32. In every history no node has two peer slots, a registered node is found in its slot, \<open>peer_count\<close> is
  the number of registered peers, the local node is never its own peer, and a station has at most one peer.
\<close>

theorem peer_table_invariant:
  assumes "list_all op_ok ops"
  shows "let c = fst (history ops) in
    unat (tc_peer_count c) = card (valid_slots c) \<and>
    (tc_local_role c = LINKG_DEVICE_ROLE_STA \<longrightarrow> card (valid_slots c) \<le> 1) \<and>
    tc_local_node_id c \<notin> (\<lambda>i. pr_peer_node_id (tc_peers c ! i)) ` valid_slots c \<and>
    (\<forall>n i. linkg_transport_find_peer_locked n c = Some i \<longleftrightarrow> i \<in> valid_slots c \<and> pr_peer_node_id (tc_peers c ! i) = n)"
proof -
  have ok: "peers_ok (fst (history ops))" using log_ok_history [OF assms] by (simp add: log_ok_def split_beta)
  show ?thesis unfolding Let_def using peers_ok_table [OF ok] by blast
qed

theorem peer_table_invariant_witness:
  "linkg_transport_find_peer_locked 2 (fst (history sample_history)) = Some 0 \<and>
   unat (tc_peer_count (fst (history sample_history))) = card (valid_slots (fst (history sample_history)))"
proof -
  have ok: "list_all op_ok sample_history" by code_simp
  have "linkg_transport_find_peer_locked 2 (fst (history sample_history)) = Some 0" by code_simp
  then show ?thesis using peer_table_invariant [OF ok] by (simp add: Let_def)
qed

text \<open>
  The identifiers given to fragmented packets are never the invalid identifier 0, and any \<open>2^32 - 1\<close> in
  a row are distinct, so the fragments of two packets in flight cannot be taken for each other.
\<close>

theorem packet_ids_distinct:
  assumes "length (filter (\<lambda>f. f) fs) \<le> 2 ^ 32 - 1"
  shows "distinct (map the (filter (\<lambda>x. x \<noteq> None) (fst (tx_packet_ids fs c)))) \<and>
    Some LINKG_TRANSPORT_PACKET_ID_INVALID \<notin> set (fst (tx_packet_ids fs c))"
proof -
  have *: "map the (filter (\<lambda>x. x \<noteq> None) (fst (tx_packet_ids fs c))) =
    map (packet_id_after (first_packet_id c)) [0..<length (filter (\<lambda>f. f) fs)]" by (rule packet_ids_after)
  have "inj_on (packet_id_after (first_packet_id c)) {0..<length (filter (\<lambda>f. f) fs)}"
    by (rule inj_on_subset [OF packet_id_after_inj]) (use assms in auto)
  then have "distinct (map the (filter (\<lambda>x. x \<noteq> None) (fst (tx_packet_ids fs c))))"
    unfolding * by (simp add: distinct_map)
  moreover have "packet_id_after s j \<noteq> 0" for s j
    using unat_packet_id_after [of s j] by (metis Zero_not_Suc unat_0)
  then have "0 \<notin> set (map the (filter (\<lambda>x. x \<noteq> None) (fst (tx_packet_ids fs c))))" unfolding * by force
  ultimately show ?thesis by force
qed

theorem packet_ids_distinct_witness:
  "fst (tx_packet_ids [True, False, True] (transport_zero sequences_zero)) = [Some 1, None, Some 2] \<and>
   distinct (map the (filter (\<lambda>x. x \<noteq> None) (fst (tx_packet_ids [True, False, True] (transport_zero sequences_zero)))))"
proof -
  have "length (filter (\<lambda>f. f) [True, False, True]) \<le> 2 ^ 32 - 1" by simp
  moreover have "fst (tx_packet_ids [True, False, True] (transport_zero sequences_zero)) = [Some 1, None, Some 2]" by code_simp
  ultimately show ?thesis using packet_ids_distinct [of "[True, False, True]" "transport_zero sequences_zero"] by blast
qed

end
