(* ===== verification/Fragment_Cache.thy ===== *)
theory Fragment_Cache
  imports Transport_Wire Transport_Peer
begin

text \<open>
  The set-associative fragment caches of \<open>src/core/transport/transport_reassembly.c\<close> and
  \<open>src/core/transport/transport_forward.c\<close> have the same skeleton: an array of sets of two ways, indexed by
  a hash of the packet's identity; a scan of one set that drops what has expired and picks the matching,
  a free and the oldest way; and sweeps over all ways. This theory holds that skeleton once, for any entry
  type, and in a locale the facts the two caches share: a scan and a sweep keep the reference balance
  between the cache and everybody else, and touch no packet that anybody still holds.
\<close>

section \<open>Identity of a fragmented packet\<close>

definition fragment_hash :: "u32 \<Rightarrow> u8 \<Rightarrow> u32 \<Rightarrow> linkg_transport_header \<Rightarrow> u32 \<Rightarrow> u32" where
  "fragment_hash traffic_class peer_node_id peer_epoch header packet_id =
     (let hash = packet_id * 0x85EBCA6B;
          hash = hash XOR ucast (th_source_node_id header) * 0x9E3779B1;
          hash = hash XOR ucast (th_destination_node_id header) * 0xC2B2AE35;
          hash = hash XOR ucast (th_type header) * 0x27D4EB2F;
          hash = hash XOR ucast peer_node_id * 0x165667B1;
          hash = hash XOR traffic_class * 0xD3A2646C;
          hash = hash XOR peer_epoch * 0xA24BAED5
      in hash XOR drop_bit 16 hash)"

text \<open>
  What two fragments must share to belong together: class, direct peer, epoch, source, destination,
  type and packet identifier.
\<close>

type_synonym fragment_key = "u32 \<times> u8 \<times> u32 \<times> u8 \<times> u8 \<times> u8 \<times> u32"

definition fragment_key :: "u32 \<Rightarrow> u8 \<Rightarrow> u32 \<Rightarrow> linkg_transport_header \<Rightarrow> linkg_transport_fragment_header \<Rightarrow> fragment_key" where
  "fragment_key traffic_class peer_node_id peer_epoch header fragment_header =
     (traffic_class, peer_node_id, peer_epoch, th_source_node_id header, th_destination_node_id header,
      th_type header, fh_packet_id fragment_header)"

section \<open>Scanning one set\<close>

record ('e, 's) way_ops =
  wo_expired :: "'e \<Rightarrow> bool"
  wo_drop :: "'e \<Rightarrow> 's \<Rightarrow> 's"
  wo_zero :: 'e
  wo_match :: "'e \<Rightarrow> bool"
  wo_valid :: "'e \<Rightarrow> bool"
  wo_expires :: "'e \<Rightarrow> u64"

text \<open>
  The loop over the ways of a set from way number \<open>way\<close> on. The oldest way is remembered with its expiry
  time. The result is the matching way, the free way, the oldest way, the ways afterwards and the state.
\<close>

fun way_scan :: "('e, 's) way_ops \<Rightarrow> nat \<Rightarrow> 'e list \<Rightarrow> nat option \<Rightarrow> (nat \<times> u64) option \<Rightarrow> 's \<Rightarrow>
    nat option \<times> nat option \<times> (nat \<times> u64) option \<times> 'e list \<times> 's" where
  "way_scan ops way [] free_way oldest s = (None, free_way, oldest, [], s)"
| "way_scan ops way (candidate # rest) free_way oldest s =
     (let (c, s1) = (if wo_expired ops candidate then (wo_zero ops, wo_drop ops candidate s) else (candidate, s)) in
      if wo_match ops c then (Some way, free_way, oldest, c # rest, s1)
      else
        (let (free1, oldest1) =
           (if \<not> wo_valid ops c then (if free_way = None then Some way else free_way, oldest)
            else (free_way, if oldest = None \<or> wo_expires ops c < snd (the oldest) then Some (way, wo_expires ops c)
                            else oldest));
             (found, free2, oldest2, rest', s2) = way_scan ops (Suc way) rest free1 oldest1 s1
         in (found, free2, oldest2, c # rest', s2)))"

text \<open>The loops over all ways that drop those with a property.\<close>

fun way_sweep :: "('e \<Rightarrow> bool) \<Rightarrow> ('e \<Rightarrow> 's \<Rightarrow> 's) \<Rightarrow> 'e \<Rightarrow> 'e list \<Rightarrow> 's \<Rightarrow> 'e list \<times> 's" where
  "way_sweep P drop_entry zero [] s = ([], s)"
| "way_sweep P drop_entry zero (e # es) s =
     (let (e1, s1) = (if P e then (zero, drop_entry e s) else (e, s));
          (es', s2) = way_sweep P drop_entry zero es s1
      in (e1 # es', s2))"

fun set_sweep :: "('e \<Rightarrow> bool) \<Rightarrow> ('e \<Rightarrow> 's \<Rightarrow> 's) \<Rightarrow> 'e \<Rightarrow> 'e list list \<Rightarrow> 's \<Rightarrow> 'e list list \<times> 's" where
  "set_sweep P drop_entry zero [] s = ([], s)"
| "set_sweep P drop_entry zero (row # rows) s =
     (let (row', s1) = way_sweep P drop_entry zero row s; (rows', s2) = set_sweep P drop_entry zero rows s1
      in (row' # rows', s2))"

lemma way_sweep_entries: "fst (way_sweep P drop_entry zero es s) = map (\<lambda>e. if P e then zero else e) es"
  by (induction es arbitrary: s) (auto simp: Let_def split_beta)

lemma set_sweep_entries: "fst (set_sweep P drop_entry zero rows s) = map (map (\<lambda>e. if P e then zero else e)) rows"
  by (induction rows arbitrary: s) (auto simp: Let_def split_beta way_sweep_entries)

lemma set_sweep_state: "snd (set_sweep P drop_entry zero rows s) = snd (way_sweep P drop_entry zero (concat rows) s)"
proof -
  have app: "snd (way_sweep P drop_entry zero (xs @ ys) s) =
    snd (way_sweep P drop_entry zero ys (snd (way_sweep P drop_entry zero xs s)))" for xs ys s
    by (induction xs arbitrary: s) (auto simp: Let_def split_beta)
  show ?thesis by (induction rows arbitrary: s) (auto simp: Let_def split_beta app)
qed

section \<open>What a scan finds\<close>

lemma way_scan_length: "way_scan ops way es f o1 s = (found, f', o2, es', s') \<Longrightarrow> length es' = length es"
  by (induction es arbitrary: way f o1 s found f' o2 es' s') (auto simp: Let_def split: prod.splits if_splits)

lemma way_scan_found:
  "way_scan ops way es f o1 s = (Some w, f', o2, es', s') \<Longrightarrow>
   way \<le> w \<and> w - way < length es' \<and> wo_match ops (es' ! (w - way))"
proof (induction es arbitrary: way f o1 s f' o2 es' s')
  case (Cons e es)
  obtain c s1 where c: "(if wo_expired ops e then (wo_zero ops, wo_drop ops e s) else (e, s)) = (c, s1)" by fastforce
  show ?case
  proof (cases "wo_match ops c")
    case True
    with Cons.prems c show ?thesis by auto
  next
    case False
    obtain f1 o1' es2 where r: "way_scan ops (Suc way) es f1 o1' s1 = (Some w, f', o2, es2, s')" "es' = c # es2"
      using Cons.prems c False by (auto simp: Let_def split: prod.splits)
    from Cons.IH [OF r(1)] show ?thesis
      by (auto simp: r(2) nth_Cons split: nat.split intro: arg_cong [of _ _ "\<lambda>i. wo_match ops (es2 ! i)", THEN iffD1])
        (metis Suc_diff_Suc Suc_le_lessD diff_Suc_Suc diff_Suc_eq_diff_pred nat.inject)
  qed
qed simp


lemma way_scan_other:
  assumes "way_scan ops way es f o1 s = (found, f', o2, es', s')"
    and "\<And>w. f = Some w \<Longrightarrow> w < way" "\<And>w x. o1 = Some (w, x) \<Longrightarrow> w < way"
  shows "(\<forall>w. f' = Some w \<longrightarrow> f = Some w \<or> way \<le> w \<and> w - way < length es' \<and> \<not> wo_valid ops (es' ! (w - way))) \<and>
    (\<forall>w x. o2 = Some (w, x) \<longrightarrow> o1 = Some (w, x) \<or> way \<le> w \<and> w - way < length es' \<and> wo_valid ops (es' ! (w - way))) \<and>
    (found = None \<longrightarrow> (\<forall>e\<in>set es'. \<not> wo_match ops e) \<and> (es \<noteq> [] \<longrightarrow> f' \<noteq> None \<or> o2 \<noteq> None))"
  using assms
proof (induction es arbitrary: way f o1 s found f' o2 es' s')
  case (Cons e es)
  obtain c s1 where c: "(if wo_expired ops e then (wo_zero ops, wo_drop ops e s) else (e, s)) = (c, s1)" by fastforce
  show ?case
  proof (cases "wo_match ops c")
    case True
    with Cons.prems(1) c show ?thesis by auto
  next
    case False
    define f1 where "f1 = (if \<not> wo_valid ops c then if f = None then Some way else f else f)"
    define o3 where "o3 = (if \<not> wo_valid ops c then o1
      else if o1 = None \<or> wo_expires ops c < snd (the o1) then Some (way, wo_expires ops c) else o1)"
    obtain es2 where r: "way_scan ops (Suc way) es f1 o3 s1 = (found, f', o2, es2, s')" "es' = c # es2"
      using Cons.prems(1) c False by (auto simp: Let_def f1_def o3_def split: prod.splits if_splits)
    have ih: "(\<forall>w. f' = Some w \<longrightarrow> f1 = Some w \<or> Suc way \<le> w \<and> w - Suc way < length es2 \<and> \<not> wo_valid ops (es2 ! (w - Suc way))) \<and>
      (\<forall>w x. o2 = Some (w, x) \<longrightarrow> o3 = Some (w, x) \<or> Suc way \<le> w \<and> w - Suc way < length es2 \<and> wo_valid ops (es2 ! (w - Suc way))) \<and>
      (found = None \<longrightarrow> (\<forall>e\<in>set es2. \<not> wo_match ops e) \<and> (es \<noteq> [] \<longrightarrow> f' \<noteq> None \<or> o2 \<noteq> None))"
      by (rule Cons.IH [OF r(1)])
        (use Cons.prems(2,3) in \<open>auto simp: f1_def o3_def less_Suc_eq split: if_splits\<close>)
    have nz: "w - way = Suc (w - Suc way)" if "Suc way \<le> w" for w using that by simp
    have "f' \<noteq> None \<or> o2 \<noteq> None" if "es = []" "found = None"
      using r(1) that by (auto simp: f1_def o3_def split: if_splits)
    with ih False show ?thesis
      by (auto simp: r(2) nz f1_def o3_def split: if_splits)
  qed
qed simp

section \<open>The reference balance of a cache\<close>

definition cache_held :: "('e \<Rightarrow> nat \<Rightarrow> nat) \<Rightarrow> 'e list \<Rightarrow> nat \<Rightarrow> nat" where
  "cache_held holds es p = sum_list (map (\<lambda>e. holds e p) es)"

text \<open>The references that are not the cache's are \<open>others\<close>.\<close>

definition cache_balance :: "('e \<Rightarrow> nat \<Rightarrow> nat) \<Rightarrow> ('s \<Rightarrow> nat \<Rightarrow> nat) \<Rightarrow> (nat \<Rightarrow> nat) \<Rightarrow> 's \<Rightarrow> 'e list \<Rightarrow> bool" where
  "cache_balance holds rcount others s es \<longleftrightarrow> (\<forall>p. rcount s p = others p + cache_held holds es p)"

text \<open>No packet that is still referenced looks different.\<close>

definition cache_keeps :: "('s \<Rightarrow> nat \<Rightarrow> nat) \<Rightarrow> ('s \<Rightarrow> nat \<Rightarrow> 'v) \<Rightarrow> 's \<Rightarrow> 's \<Rightarrow> bool" where
  "cache_keeps rcount view s s' \<longleftrightarrow> (\<forall>p. 0 < rcount s' p \<longrightarrow> view s' p = view s p)"

lemma cache_held_simps [simp]:
  "cache_held holds [] p = 0" "cache_held holds (e # es) p = holds e p + cache_held holds es p"
  "cache_held holds (es @ es') p = cache_held holds es p + cache_held holds es' p"
  by (simp_all add: cache_held_def)

text \<open>
  A cache of entries that hold packet references. Dropping an entry gives back what it holds and changes
  no packet that is still referenced; \<open>view\<close> is what a holder of a packet can see of it.
\<close>

locale fragment_cache =
  fixes drop_entry :: "'e \<Rightarrow> 's \<Rightarrow> 's"
    and zero :: 'e
    and holds :: "'e \<Rightarrow> nat \<Rightarrow> nat"
    and count :: "'s \<Rightarrow> nat \<Rightarrow> nat"
    and ok :: "'s \<Rightarrow> bool"
    and view :: "'s \<Rightarrow> nat \<Rightarrow> 'v"
  assumes zero_holds: "holds zero p = 0"
    and drop_ok: "ok s \<Longrightarrow> (\<And>p. holds e p \<le> count s p) \<Longrightarrow> ok (drop_entry e s)"
    and drop_count: "ok s \<Longrightarrow> (\<And>p. holds e p \<le> count s p) \<Longrightarrow> count (drop_entry e s) p = count s p - holds e p"
    and drop_view: "ok s \<Longrightarrow> (\<And>p. holds e p \<le> count s p) \<Longrightarrow> 0 < count (drop_entry e s) p \<Longrightarrow>
      view (drop_entry e s) p = view s p"
begin

abbreviation held :: "'e list \<Rightarrow> nat \<Rightarrow> nat" where
  "held \<equiv> cache_held holds"

abbreviation balance :: "(nat \<Rightarrow> nat) \<Rightarrow> 's \<Rightarrow> 'e list \<Rightarrow> bool" where
  "balance \<equiv> cache_balance holds count"

abbreviation keeps :: "'s \<Rightarrow> 's \<Rightarrow> bool" where
  "keeps \<equiv> cache_keeps count view"

lemmas held_def = cache_held_def
lemmas balance_def = cache_balance_def
lemmas keeps_def = cache_keeps_def

lemma held_le: "balance others s es \<Longrightarrow> held es p \<le> count s p"
  by (simp add: balance_def)

lemma held_mem: "e \<in> set es \<Longrightarrow> holds e p \<le> held es p"
  by (induction es) auto

lemma holds_le: "balance others s es \<Longrightarrow> e \<in> set es \<Longrightarrow> holds e p \<le> count s p"
  using held_le [of others s es p] held_mem [of e es p] by simp

lemma held_update: "w < length es \<Longrightarrow> held (es[w := e]) p + holds (es ! w) p = held es p + holds e p"
  by (induction es arbitrary: w) (auto simp: nth_Cons split: nat.splits)

lemma held_row: "i < length rows \<Longrightarrow> held (concat (rows[i := r])) p + held (rows ! i) p = held (concat rows) p + held r p"
proof (induction rows arbitrary: i)
  case (Cons a rows)
  then show ?case using Cons.IH [of "i - 1"] by (cases i) auto
qed simp

lemma keeps_refl: "keeps s s"
  by (simp add: keeps_def)

lemma drop_balance:
  assumes "ok s" "balance others s (e # es)"
  shows "ok (drop_entry e s) \<and> balance others (drop_entry e s) (zero # es) \<and> keeps s (drop_entry e s) \<and>
    (\<forall>p. count (drop_entry e s) p = count s p - holds e p)"
proof -
  have h: "\<And>p. holds e p \<le> count s p" using holds_le [OF assms(2)] by simp
  show ?thesis
    using assms(2) drop_ok [OF assms(1) h] drop_count [OF assms(1) h] drop_view [OF assms(1) h]
    by (simp add: balance_def keeps_def zero_holds)
qed

text \<open>The facts of one way are lifted through a list by treating the other ways as somebody else's.\<close>

lemma balance_shift: "balance others s (es @ es') \<longleftrightarrow> balance (\<lambda>p. others p + held es p) s es'"
  by (simp add: balance_def add.assoc)

lemma sweep_balance:
  assumes "ok s" "balance others s es" "way_sweep P drop_entry zero es s = (es', s')"
  shows "ok s' \<and> balance others s' es' \<and> keeps s s' \<and> (\<forall>p. count s' p \<le> count s p)"
  using assms
proof (induction es arbitrary: others s es' s')
  case (Cons e es)
  define e1 s1 where "e1 = (if P e then zero else e)" and "s1 = (if P e then drop_entry e s else s)"
  have d: "ok s1 \<and> balance others s1 (e1 # es) \<and> keeps s s1 \<and> (\<forall>p. count s1 p \<le> count s p)"
    using Cons.prems(1,2) drop_balance [OF Cons.prems(1,2)] by (auto simp: e1_def s1_def keeps_refl)
  then have b: "balance (\<lambda>p. others p + holds e1 p) s1 es" by (simp add: balance_def add.assoc)
  obtain es2 where es2: "way_sweep P drop_entry zero es s1 = (es2, s')" "es' = e1 # es2"
    using Cons.prems(3) by (auto simp: e1_def s1_def Let_def split: prod.splits if_splits)
  have ih: "ok s' \<and> balance (\<lambda>p. others p + holds e1 p) s' es2 \<and> keeps s1 s' \<and> (\<forall>p. count s' p \<le> count s1 p)"
    using Cons.IH [OF _ b es2(1)] d by blast
  then have "keeps s s'" using d unfolding keeps_def by (metis le_less_trans not_gr_zero order.strict_trans2)
  moreover have "count s' p \<le> count s p" for p using ih d order_trans by blast
  ultimately show ?case using ih by (simp add: es2(2) balance_def add.assoc)
qed (simp add: keeps_refl)

lemma set_sweep_balance:
  assumes "ok s" "balance others s (concat rows)" "set_sweep P drop_entry zero rows s = (rows', s')"
  shows "ok s' \<and> balance others s' (concat rows') \<and> keeps s s' \<and> (\<forall>p. count s' p \<le> count s p)"
proof -
  obtain es' where es: "way_sweep P drop_entry zero (concat rows) s = (es', s')"
    using set_sweep_state [of P drop_entry zero rows s] assms(3) by (metis eq_snd_iff snd_conv)
  have "concat rows' = es'"
    using set_sweep_entries [of P drop_entry zero rows s] way_sweep_entries [of P drop_entry zero "concat rows" s]
      assms(3) es by (simp add: map_concat)
  then show ?thesis using sweep_balance [OF assms(1,2) es] by simp
qed

lemma scan_balance:
  assumes "ok s" "balance others s es" "way_scan ops way es f o1 s = (found, f', o2, es', s')"
    and "wo_drop ops = drop_entry" "wo_zero ops = zero"
  shows "ok s' \<and> balance others s' es' \<and> keeps s s' \<and> (\<forall>p. count s' p \<le> count s p)"
  using assms(1-3)
proof (induction es arbitrary: others s way f o1 found f' o2 es' s')
  case (Cons e es)
  define e1 s1 where "e1 = (if wo_expired ops e then zero else e)" and "s1 = (if wo_expired ops e then drop_entry e s else s)"
  have c: "(if wo_expired ops e then (wo_zero ops, wo_drop ops e s) else (e, s)) = (e1, s1)"
    by (simp add: e1_def s1_def assms(4,5))
  have d: "ok s1 \<and> balance others s1 (e1 # es) \<and> keeps s s1 \<and> (\<forall>p. count s1 p \<le> count s p)"
    using Cons.prems(1,2) drop_balance [OF Cons.prems(1,2)] by (auto simp: e1_def s1_def keeps_refl)
  show ?case
  proof (cases "wo_match ops e1")
    case True
    then have "es' = e1 # es" "s' = s1" using Cons.prems(3) c by auto
    with d show ?thesis by simp
  next
    case False
    obtain f1 o3 es2 where r: "way_scan ops (Suc way) es f1 o3 s1 = (found, f', o2, es2, s')" "es' = e1 # es2"
      using Cons.prems(3) c False by (auto simp: Let_def split: prod.splits)
    have b: "balance (\<lambda>p. others p + holds e1 p) s1 es" using d by (simp add: balance_def add.assoc)
    have ih: "ok s' \<and> balance (\<lambda>p. others p + holds e1 p) s' es2 \<and> keeps s1 s' \<and> (\<forall>p. count s' p \<le> count s1 p)"
      using Cons.IH [OF _ b r(1)] d by blast
    then have "keeps s s'" using d unfolding keeps_def by (metis le_less_trans not_gr_zero order.strict_trans2)
    moreover have "count s' p \<le> count s p" for p using ih d order_trans by blast
    ultimately show ?thesis using ih by (simp add: r(2) balance_def add.assoc)
  qed
qed (simp add: keeps_refl)

end

text \<open>A scan leaves each way as it was, or empty if it had expired; it stops at the way it finds.\<close>

lemma way_scan_entries:
  "way_scan ops way es f o1 s = (found, f', o2, es', s') \<Longrightarrow> i < length es \<Longrightarrow>
   es' ! i = es ! i \<and> (\<not> wo_expired ops (es ! i) \<or> (\<exists>w. found = Some w \<and> w < way + i)) \<or>
   wo_expired ops (es ! i) \<and> es' ! i = wo_zero ops"
proof (induction es arbitrary: way f o1 s found f' o2 es' s' i)
  case (Cons e es)
  obtain c s1 where c: "(if wo_expired ops e then (wo_zero ops, wo_drop ops e s) else (e, s)) = (c, s1)" by fastforce
  then have ce: "c = e \<and> \<not> wo_expired ops e \<or> wo_expired ops e \<and> c = wo_zero ops" by (auto split: if_splits)
  show ?case
  proof (cases "wo_match ops c")
    case True
    with Cons.prems c ce show ?thesis by (cases i) auto
  next
    case False
    obtain f1 o3 es2 where r: "way_scan ops (Suc way) es f1 o3 s1 = (found, f', o2, es2, s')" "es' = c # es2"
      using Cons.prems(1) c False by (auto simp: Let_def split: prod.splits)
    from Cons.IH [OF r(1)] Cons.prems(2) ce show ?thesis by (cases i) (auto simp: r(2))
  qed
qed simp

section \<open>Packets as their holders see them\<close>

definition pool_slot_size :: "heap \<Rightarrow> nat \<Rightarrow> u32" where
  "pool_slot_size h packet = (case pk_pool (pk_at h packet) of None \<Rightarrow> 0 | Some q \<Rightarrow> pl_slot_size (pool_at h q))"

definition packet_view :: "heap \<Rightarrow> nat \<Rightarrow> linkg_packet \<times> u8 list \<times> u32" where
  "packet_view h p = ((pk_at h p)\<lparr>pk_reference_count := 0\<rparr>, packet_bytes h p, pool_slot_size h p)"

lemma packet_viewD:
  assumes "packet_view h' p = packet_view h p"
  shows "pk_data_length (pk_at h' p) = pk_data_length (pk_at h p)" "pk_data_offset (pk_at h' p) = pk_data_offset (pk_at h p)"
    "pk_pool (pk_at h' p) = pk_pool (pk_at h p)" "pk_slot (pk_at h' p) = pk_slot (pk_at h p)"
    "packet_bytes h' p = packet_bytes h p" "pool_slot_size h' p = pool_slot_size h p" "pk_flags (pk_at h' p) = pk_flags (pk_at h p)"
  using assms by (auto simp: packet_view_def linkg_packet.defs prod_eq_iff dest: arg_cong [of _ _ pk_data_length]
      arg_cong [of _ _ pk_data_offset] arg_cong [of _ _ pk_pool] arg_cong [of _ _ pk_slot] arg_cong [of _ _ pk_flags])

lemma packet_view_fields:
  assumes "pk_at h' p = (pk_at h p)\<lparr>pk_reference_count := r\<rparr>" "byte_at h' = byte_at h"
    and "\<And>q. pl_slot_size (pool_at h' q) = pl_slot_size (pool_at h q)"
  shows "packet_view h' p = packet_view h p"
  using assms by (simp add: packet_view_def packet_bytes_def linkg_packet_data_def pool_slot_size_def cong: option.case_cong)

lemma retain_view [simp]: "packet_view (linkg_packet_retain p h) x = packet_view h x"
proof (cases "p = Some x")
  case True
  then show ?thesis by (intro packet_view_fields [where r = "pk_reference_count (pk_at h x) + 1"])
    (auto simp: linkg_packet_retain_def split: option.split)
next
  case False
  then show ?thesis by (intro packet_view_fields [where r = "pk_reference_count (pk_at h x)"])
    (auto simp: linkg_packet_retain_def split: option.split)
qed

lemma release_view:
  assumes "heap_ok h" "0 < refs h p" "0 < refs (linkg_packet_release (Some p) h) x"
  shows "packet_view (linkg_packet_release (Some p) h) x = packet_view h x"
proof -
  from refs_pool [OF assms(1,2)] obtain q where q: "pk_pool (pk_at h p) = Some q" .
  note rel = release_cases [OF assms(1,2) q]
  show ?thesis
  proof (cases "x = p")
    case True
    then have n1: "refs h p \<noteq> 1" using assms refs_release [OF assms(1,2), of x] by auto
    show ?thesis
      by (rule packet_view_fields [where r = "pk_reference_count (pk_at h p) - 1"]) (use n1 in \<open>simp_all add: rel True\<close>)
  next
    case False
    then show ?thesis
      by (intro packet_view_fields [where r = "pk_reference_count (pk_at h x)"])
        (auto simp: rel pool_push_def)
  qed
qed

lemma release_option:
  assumes "heap_ok h" "\<And>p. o1 = Some p \<Longrightarrow> 0 < refs h p"
  shows "heap_ok (linkg_packet_release o1 h) \<and>
    (\<forall>x. refs (linkg_packet_release o1 h) x = refs h x - (if o1 = Some x then 1 else 0)) \<and>
    (\<forall>x. 0 < refs (linkg_packet_release o1 h) x \<longrightarrow> packet_view (linkg_packet_release o1 h) x = packet_view h x)"
  using assms heap_ok_release [OF assms(1)] refs_release [OF assms(1)] release_view [OF assms(1)]
  by (cases o1) auto

section \<open>The invariant of a cache\<close>

text \<open>
  A cache is in order when the references balance, no packet is cached twice and every entry satisfies the
  entry invariant of its module; the sets and ways have their fixed numbers.
\<close>

definition cache_inv ::
    "('e \<Rightarrow> nat \<Rightarrow> nat) \<Rightarrow> ('s \<Rightarrow> nat \<Rightarrow> nat) \<Rightarrow> ('s \<Rightarrow> bool) \<Rightarrow> ('s \<Rightarrow> 'e \<Rightarrow> bool) \<Rightarrow> (nat \<Rightarrow> nat) \<Rightarrow> 'e list \<Rightarrow> 's \<Rightarrow> bool" where
  "cache_inv holds rcount ok good others es s \<longleftrightarrow> ok s \<and> cache_balance holds rcount others s es \<and>
     (\<forall>p. cache_held holds es p \<le> 1) \<and> (\<forall>e\<in>set es. good s e)"

definition rows_shape :: "nat \<Rightarrow> nat \<Rightarrow> 'e list list \<Rightarrow> bool" where
  "rows_shape sets ways rows \<longleftrightarrow> length rows = sets \<and> (\<forall>row\<in>set rows. length row = ways)"

text \<open>
  What an operation with packet \<open>p\<close> does to one entry: the references stay balanced, with \<open>gain\<close> for those
  handed to others; the entry holds nothing new but \<open>p\<close>; and no packet that neither the entry holds nor
  the caller passed looks different to its holders.
\<close>

definition cache_step ::
    "('e \<Rightarrow> nat \<Rightarrow> nat) \<Rightarrow> ('s \<Rightarrow> nat \<Rightarrow> nat) \<Rightarrow> ('s \<Rightarrow> bool) \<Rightarrow> ('s \<Rightarrow> nat \<Rightarrow> 'v) \<Rightarrow> ('s \<Rightarrow> 'e \<Rightarrow> bool) \<Rightarrow>
     nat \<Rightarrow> 'e \<Rightarrow> 's \<Rightarrow> (nat \<Rightarrow> nat) \<Rightarrow> 'e \<Rightarrow> 's \<Rightarrow> bool" where
  "cache_step holds rcount ok view good p e s gain e' s' \<longleftrightarrow>
     ok s' \<and> good s' e' \<and>
     (\<forall>x. rcount s' x + holds e x = rcount s x + holds e' x + gain x) \<and>
     (\<forall>x. holds e' x \<le> holds e x + (if x = p then 1 else 0)) \<and>
     (\<forall>x. x \<noteq> p \<longrightarrow> holds e x = 0 \<longrightarrow> gain x = 0 \<and> (0 < rcount s' x \<longrightarrow> view s' x = view s x))"

text \<open>Of the packets that neither the cache holds nor the caller passed, those still referenced look as before.\<close>

definition cache_others_kept :: "('e \<Rightarrow> nat \<Rightarrow> nat) \<Rightarrow> ('s \<Rightarrow> nat \<Rightarrow> nat) \<Rightarrow> ('s \<Rightarrow> nat \<Rightarrow> 'v) \<Rightarrow> nat \<Rightarrow> 'e list \<Rightarrow> 's \<Rightarrow> 's \<Rightarrow> bool" where
  "cache_others_kept holds rcount view p es s s' \<longleftrightarrow> (\<forall>x. x \<noteq> p \<longrightarrow> cache_held holds es x = 0 \<longrightarrow>
     0 < rcount s' x \<longrightarrow> 0 < rcount s x \<and> view s' x = view s x)"

definition cache_held_bound :: "('e \<Rightarrow> nat \<Rightarrow> nat) \<Rightarrow> nat \<Rightarrow> 'e list \<Rightarrow> 'e list \<Rightarrow> bool" where
  "cache_held_bound holds p es es' \<longleftrightarrow> (\<forall>x. cache_held holds es' x \<le> cache_held holds es x + (if x = p then 1 else 0))"

text \<open>What a caller provides: a packet of its own that the cache does not hold and that can be retained.\<close>

definition cache_offered :: "('e \<Rightarrow> nat \<Rightarrow> nat) \<Rightarrow> ('s \<Rightarrow> nat \<Rightarrow> nat) \<Rightarrow> (nat \<Rightarrow> nat) \<Rightarrow> nat \<Rightarrow> 'e list \<Rightarrow> 's \<Rightarrow> bool" where
  "cache_offered holds rcount others p es s \<longleftrightarrow> 0 < others p \<and> cache_held holds es p = 0 \<and> rcount s p < 2 ^ 32 - 1"

lemma concat_split:
  assumes "i < length rows" "w < length (rows ! i)"
  obtains xs ys where "concat rows = xs @ (rows ! i ! w) # ys"
    "\<And>e. concat (rows[i := (rows ! i)[w := e]]) = xs @ e # ys"
proof
  let ?xs = "concat (take i rows) @ take w (rows ! i)" and ?ys = "drop (Suc w) (rows ! i) @ concat (drop (Suc i) rows)"
  have rows: "rows = take i rows @ rows ! i # drop (Suc i) rows" using assms(1) by (rule id_take_nth_drop)
  have row: "rows ! i = take w (rows ! i) @ rows ! i ! w # drop (Suc w) (rows ! i)" using assms(2) by (rule id_take_nth_drop)
  have "concat rows = concat (take i rows) @ rows ! i @ concat (drop (Suc i) rows)"
    by (subst rows) simp
  then show "concat rows = ?xs @ (rows ! i ! w) # ?ys"
    by (subst (asm) row) simp
  show "concat (rows[i := (rows ! i)[w := e]]) = ?xs @ e # ?ys" for e
    using assms by (simp add: upd_conv_take_nth_drop)
qed

lemma rows_shape_simps:
  "rows_shape sets ways rows \<Longrightarrow> i < sets \<Longrightarrow> length (rows ! i) = ways"
  "rows_shape sets ways rows \<Longrightarrow> length rows = sets"
  "rows_shape sets ways rows \<Longrightarrow> length row = ways \<Longrightarrow> rows_shape sets ways (rows[i := row])"
  "rows_shape sets ways (map (map f) rows) = rows_shape sets ways rows"
  by (auto simp: rows_shape_def dest!: set_update_subset_insert [THEN subsetD])

lemma rows_mem:
  assumes "rows_shape sets ways rows" "i < sets" "w < ways"
  shows "rows ! i ! w \<in> set (concat rows)"
proof -
  have "rows ! i \<in> set rows" using assms by (simp add: rows_shape_def)
  moreover from this have "rows ! i ! w \<in> set (rows ! i)" using assms by (simp add: rows_shape_def)
  ultimately show ?thesis by (metis UN_I set_concat)
qed

locale fragment_cache_inv = fragment_cache drop_entry zero holds count ok view
  for drop_entry :: "'e \<Rightarrow> 's \<Rightarrow> 's" and zero holds count ok and view :: "'s \<Rightarrow> nat \<Rightarrow> 'v" +
  fixes good :: "'s \<Rightarrow> 'e \<Rightarrow> bool"
  assumes inv_zero: "good s zero"
    and inv_frame: "good s e \<Longrightarrow> (\<And>x. 0 < holds e x \<Longrightarrow> view s' x = view s x) \<Longrightarrow> good s' e"
begin

abbreviation cells where
  "cells \<equiv> cache_inv holds count ok good"

abbreviation offered_cell where
  "offered_cell \<equiv> cache_offered holds count"

abbreviation emptied :: "'e \<Rightarrow> 'e \<Rightarrow> bool" where
  "emptied e e' \<equiv> e' = e \<or> e' = zero"

lemma cells_frame:
  assumes inv: "cells others es s" and s': "ok s'" "balance others' s' es'" "\<And>p. held es' p \<le> 1"
    and view: "\<And>e x. e \<in> set es \<Longrightarrow> e \<in> set es' \<Longrightarrow> \<not> good s' e \<Longrightarrow> 0 < holds e x \<Longrightarrow> view s' x = view s x"
    and new: "\<And>e. e \<in> set es' \<Longrightarrow> e \<notin> set es \<Longrightarrow> good s' e"
  shows "cells others' es' s'"
proof -
  have "good s' e" if "e \<in> set es'" for e
  proof (cases "e \<in> set es")
    case True
    then have "good s e" using inv by (simp add: cache_inv_def)
    then show ?thesis using inv_frame [of s e s'] view [OF True that] by blast
  qed (use new that in blast)
  then show ?thesis using s' by (simp add: cache_inv_def)
qed

lemma cells_swept:
  assumes inv: "cells others es s" and s': "ok s'" "balance others s' es'" "keeps s s'" and es': "list_all2 emptied es es'"
  shows "cells others es' s' \<and> (\<forall>p. held es' p \<le> held es p)"
proof -
  have le: "held es' p \<le> held es p" for p
    using es' by (induction rule: list_all2_induct) (auto simp: zero_holds)
  have "cells others es' s'"
  proof (rule cells_frame [OF inv s'(1,2)])
    show "held es' p \<le> 1" for p using inv le by (meson cache_inv_def order_trans)
  next
    fix e x assume e: "e \<in> set es'" "0 < holds e x"
    then have "0 < count s' x" using holds_le [OF s'(2), of e x] by simp
    then show "view s' x = view s x" using s'(3) by (simp add: keeps_def)
  next
    fix e assume e: "e \<in> set es'" "e \<notin> set es"
    then obtain i where i: "i < length es'" "e = es' ! i" by (auto simp: in_set_conv_nth)
    then have "emptied (es ! i) (es' ! i)" "i < length es" using es' by (auto simp: list_all2_conv_all_nth)
    then have "e = zero" using e(2) i(2) nth_mem by fastforce
    then show "good s' e" by (simp add: inv_zero)
  qed
  with le show ?thesis by blast
qed

lemma cells_step:
  assumes inv: "cells others (xs @ e # ys) s" and p: "held (xs @ e # ys) p = 0"
    and st: "cache_step holds count ok view good p e s gain e' s'"
  shows "cells (\<lambda>x. others x + gain x) (xs @ e' # ys) s' \<and>
    cache_others_kept holds count view p (xs @ e # ys) s s' \<and> cache_held_bound holds p (xs @ e # ys) (xs @ e' # ys)"
proof -
  have b: "count s x = others x + (held xs x + (holds e x + held ys x))" for x
    using inv by (simp add: cache_inv_def balance_def)
  have st': "ok s'" "good s' e'" "count s' x + holds e x = count s x + holds e' x + gain x"
    "holds e' x \<le> holds e x + (if x = p then 1 else 0)"
    "x \<noteq> p \<Longrightarrow> holds e x = 0 \<Longrightarrow> gain x = 0 \<and> (0 < count s' x \<longrightarrow> view s' x = view s x)" for x
    using st unfolding cache_step_def by blast+
  have one: "held xs x + (holds e x + held ys x) \<le> 1" for x using inv by (simp add: cache_inv_def)
  have bal: "balance (\<lambda>x. others x + gain x) s' (xs @ e' # ys)"
    unfolding balance_def
  proof
    fix x show "count s' x = others x + gain x + held (xs @ e' # ys) x" using st'(3) [of x] b [of x] by simp
  qed
  have "cells (\<lambda>x. others x + gain x) (xs @ e' # ys) s'"
  proof (rule cells_frame [OF inv st'(1) bal])
    fix x show "held (xs @ e' # ys) x \<le> 1" using one [of x] st'(4) [of x] p by (cases "x = p") auto
  next
    fix d x
    assume d: "d \<in> set (xs @ e # ys)" "d \<in> set (xs @ e' # ys)" "\<not> good s' d" "0 < holds d x"
    then have "d \<in> set xs \<or> d \<in> set ys" using st'(2) by auto
    then have pos: "0 < held xs x + held ys x" using held_mem [of d xs x] held_mem [of d ys x] d(4) by auto
    then have x: "x \<noteq> p" "holds e x = 0" using p one [of x] by auto
    moreover have "0 < count s' x" using st'(3) [of x] b [of x] pos x by simp
    ultimately show "view s' x = view s x" using st'(5) by blast
  qed (use st'(2) in auto)
  moreover have "0 < count s x \<and> view s' x = view s x" if "x \<noteq> p" "held (xs @ e # ys) x = 0" "0 < count s' x" for x
  proof -
    have "holds e x = 0" using that(2) by simp
    moreover from this have "holds e' x = 0" "gain x = 0" using st'(4) [of x] st'(5) [of x] that(1) by auto
    ultimately show ?thesis using st'(3) [of x] st'(5) [of x] that by simp
  qed
  moreover have "cache_held_bound holds p (xs @ e # ys) (xs @ e' # ys)"
    unfolding cache_held_bound_def
  proof
    fix x show "held (xs @ e' # ys) x \<le> held (xs @ e # ys) x + (if x = p then 1 else 0)" using st'(4) [of x] by simp
  qed
  ultimately show ?thesis by (auto simp: cache_others_kept_def)
qed

lemma rows_step:
  assumes inv: "cells others (concat rows) s" and sh: "rows_shape sets ways rows" "i < sets" "w < ways"
    and p: "held (concat rows) p = 0" and st: "cache_step holds count ok view good p (rows ! i ! w) s gain e' s'"
  shows "cells (\<lambda>x. others x + gain x) (concat (rows[i := (rows ! i)[w := e']])) s' \<and>
    rows_shape sets ways (rows[i := (rows ! i)[w := e']]) \<and>
    cache_others_kept holds count view p (concat rows) s s' \<and>
    cache_held_bound holds p (concat rows) (concat (rows[i := (rows ! i)[w := e']]))"
proof -
  have "i < length rows" "w < length (rows ! i)" using sh by (simp_all add: rows_shape_simps)
  then obtain xs ys where c: "concat rows = xs @ (rows ! i ! w) # ys"
    "\<And>e. concat (rows[i := (rows ! i)[w := e]]) = xs @ e # ys" using concat_split by blast
  have "cells others (xs @ (rows ! i ! w) # ys) s" "held (xs @ (rows ! i ! w) # ys) p = 0" using inv p c(1) by simp_all
  from cells_step [OF this st] show ?thesis
    using sh by (simp add: c rows_shape_simps)
qed

text \<open>Sweeps and the scan of a set keep the invariant.\<close>

lemma rows_sweep:
  assumes inv: "cells others (concat rows) s" and sw: "set_sweep P drop_entry zero rows s = (rows', s')"
  shows "cells others (concat rows') s' \<and> keeps s s' \<and> rows_shape sets ways rows' = rows_shape sets ways rows \<and>
    (\<forall>p. held (concat rows') p \<le> held (concat rows) p)"
proof -
  have rows: "rows' = map (map (\<lambda>e. if P e then zero else e)) rows"
    using set_sweep_entries [of P drop_entry zero rows s] sw by simp
  have b: "ok s' \<and> balance others s' (concat rows') \<and> keeps s s' \<and> (\<forall>p. count s' p \<le> count s p)"
    by (rule set_sweep_balance [OF _ _ sw]) (use inv in \<open>auto simp: cache_inv_def\<close>)
  have "list_all2 emptied (concat rows) (concat rows')"
    by (simp add: rows list_all2_conv_all_nth flip: map_concat)
  with cells_swept [OF inv] b have "cells others (concat rows') s' \<and> (\<forall>p. held (concat rows') p \<le> held (concat rows) p)" by blast
  moreover have "rows_shape sets ways rows' = rows_shape sets ways rows" by (simp add: rows rows_shape_simps)
  ultimately show ?thesis using b by blast
qed

lemma rows_scan:
  assumes inv: "cells others (concat rows) s" and sh: "rows_shape sets ways rows" "i < sets"
    and sc: "way_scan ops 0 (rows ! i) None None s = (found, fr, old, row, s1)"
    and ops: "wo_drop ops = drop_entry" "wo_zero ops = zero"
  shows "cells others (concat (rows[i := row])) s1 \<and> rows_shape sets ways (rows[i := row]) \<and> keeps s s1 \<and>
    (\<forall>x. count s1 x \<le> count s x) \<and> (\<forall>x. held (concat (rows[i := row])) x \<le> held (concat rows) x)"
proof -
  have il: "i < length rows" using sh by (simp add: rows_shape_simps)
  define rest where "rest x = held (concat (take i rows)) x + held (concat (drop (Suc i) rows)) x" for x
  have cc: "concat (rows[i := r]) = concat (take i rows) @ r @ concat (drop (Suc i) rows)" for r
    using il by (simp add: upd_conv_take_nth_drop)
  have c0: "concat rows = concat (take i rows) @ rows ! i @ concat (drop (Suc i) rows)"
    using cc [of "rows ! i"] by simp
  have "held (concat rows) x = rest x + held (rows ! i) x" for x by (subst c0) (simp add: rest_def)
  then have bal: "balance (\<lambda>x. others x + rest x) s (rows ! i)" using inv by (simp add: cache_inv_def balance_def)
  have sb: "ok s1 \<and> balance (\<lambda>x. others x + rest x) s1 row \<and> keeps s s1 \<and> (\<forall>p. count s1 p \<le> count s p)"
    by (rule scan_balance [OF _ bal sc ops]) (use inv in \<open>simp add: cache_inv_def\<close>)
  have lr: "length row = length (rows ! i)" using way_scan_length [OF sc] .
  have same: "list_all2 emptied (rows ! i) row"
    using way_scan_entries [OF sc] lr ops by (auto simp: list_all2_conv_all_nth)
  have refl: "list_all2 emptied es es" for es by (simp add: list_all2_conv_all_nth)
  have all2: "list_all2 emptied (concat rows) (concat (rows[i := row]))"
    unfolding cc by (subst c0) (intro list_all2_appendI refl same)
  have "balance others s1 (concat (rows[i := row]))" using sb by (simp add: balance_def cc rest_def)
  from cells_swept [OF inv _ this _ all2] show ?thesis using sb sh lr by (simp add: rows_shape_simps)
qed

text \<open>An offered packet is still offered, and unchanged, after the scan.\<close>

lemma offered_scan:
  assumes inv: "cells others (concat rows) s" and sh: "rows_shape sets ways rows" "i < sets"
    and sc: "way_scan ops 0 (rows ! i) None None s = (found, fr, old, row, s1)"
    and ops: "wo_drop ops = drop_entry" "wo_zero ops = zero" and p: "offered_cell others p (concat rows) s"
  shows "offered_cell others p (concat (rows[i := row])) s1 \<and> 0 < count s1 p \<and> view s1 p = view s p \<and>
    (cache_others_kept holds count view p (concat (rows[i := row])) s1 s' \<longrightarrow> cache_others_kept holds count view p (concat rows) s s') \<and>
    (cache_held_bound holds p (concat (rows[i := row])) es' \<longrightarrow> cache_held_bound holds p (concat rows) es')"
proof -
  have s1: "balance others s1 (concat (rows[i := row]))" "keeps s s1" "count s1 x \<le> count s x"
    "held (concat (rows[i := row])) x \<le> held (concat rows) x" for x
    using rows_scan [OF inv sh sc ops] by (auto simp: cache_inv_def)
  have p0: "held (concat (rows[i := row])) p = 0" "0 < others p" "count s p < 2 ^ 32 - 1"
    using s1(4) [of p] p by (auto simp: cache_offered_def)
  then have cp: "0 < count s1 p" using s1(1) by (simp add: balance_def)
  have view: "0 < count s1 x \<Longrightarrow> view s1 x = view s x" for x using s1(2) by (simp add: keeps_def)
  have "cache_others_kept holds count view p (concat rows) s s'"
    if k: "cache_others_kept holds count view p (concat (rows[i := row])) s1 s'"
    unfolding cache_others_kept_def
  proof (intro allI impI)
    fix x assume x: "x \<noteq> p" "held (concat rows) x = 0" "0 < count s' x"
    then have "0 < count s1 x \<and> view s' x = view s1 x" using k s1(4) [of x] by (simp add: cache_others_kept_def)
    then show "0 < count s x \<and> view s' x = view s x" using view [of x] s1(3) [of x] by auto
  qed
  moreover have "cache_held_bound holds p (concat rows) es'" if k: "cache_held_bound holds p (concat (rows[i := row])) es'"
    unfolding cache_held_bound_def
  proof
    fix x
    have "held es' x \<le> held (concat (rows[i := row])) x + (if x = p then 1 else 0)" using k unfolding cache_held_bound_def by blast
    with s1(4) [of x] show "held es' x \<le> held (concat rows) x + (if x = p then 1 else 0)" by simp
  qed
  moreover have "count s1 p < 2 ^ 32 - 1" using s1(3) [of p] p0(3) by (rule le_less_trans)
  ultimately show ?thesis using p0 cp view [OF cp] by (simp add: cache_offered_def)
qed

lemma offered_facts:
  assumes inv: "cells others es s" and p: "offered_cell others p es s" and e: "e \<in> set es"
  shows "ok s \<and> good s e \<and> 0 < count s p \<and> count s p < 2 ^ 32 - 1 \<and> holds e p = 0 \<and> (\<forall>x. holds e x \<le> count s x)"
proof -
  have b: "balance others s es" using inv by (simp add: cache_inv_def)
  have "holds e p \<le> held es p" by (rule held_mem [OF e])
  moreover have "count s p = others p + held es p" using b by (simp add: balance_def)
  ultimately show ?thesis using inv p e holds_le [OF b e] by (auto simp: cache_inv_def cache_offered_def)
qed

lemma cells_world:
  assumes inv: "cells others es s" and s': "ok s'" "balance others' s' es" and v: "\<And>p. 0 < held es p \<Longrightarrow> view s' p = view s p"
  shows "cells others' es s'"
proof (rule cells_frame [OF inv s'])
  fix e x assume e: "e \<in> set es" "0 < holds e x"
  then show "view s' x = view s x" using held_mem [OF e(1), of x] by (intro v) simp
qed (use inv in \<open>auto simp: cache_inv_def\<close>)

text \<open>A packet that is offered stays so while another is submitted.\<close>

lemma offered_other:
  assumes inv: "cells others es s" "cells others es' s'" and p2: "offered_cell others p2 es s" "p1 \<noteq> p2"
    and k: "cache_others_kept holds count view p1 es s s'" "cache_held_bound holds p1 es es'"
  shows "offered_cell others p2 es' s' \<and> view s' p2 = view s p2"
proof -
  have b: "count s p2 = others p2 + held es p2" "count s' p2 = others p2 + held es' p2"
    using inv by (auto simp: cache_inv_def balance_def)
  have "held es' p2 \<le> held es p2 + (if p2 = p1 then 1 else 0)" using k(2) by (simp only: cache_held_bound_def)
  then have h: "held es' p2 = 0" "held es p2 = 0" using p2 by (auto simp: cache_offered_def)
  then show ?thesis using b p2 k(1) by (auto simp: cache_offered_def cache_others_kept_def)
qed

end

text \<open>A scan that finds nothing leaves a way to use.\<close>

lemma way_scan_room:
  assumes "way_scan ops 0 es None None s = (None, fr, old, row, s1)" "es \<noteq> []"
  obtains w where "(case fr of Some w \<Rightarrow> Some w | None \<Rightarrow> map_option fst old) = Some w" "w < length row"
    "fr = Some w \<Longrightarrow> \<not> wo_valid ops (row ! w)"
proof -
  have o: "(\<forall>w. fr = Some w \<longrightarrow> w < length row \<and> \<not> wo_valid ops (row ! w)) \<and>
    (\<forall>w x. old = Some (w, x) \<longrightarrow> w < length row) \<and> (fr \<noteq> None \<or> old \<noteq> None)"
    using way_scan_other [OF assms(1)] assms(2) by auto
  show ?thesis
  proof (cases fr)
    case None
    with o obtain w x where "old = Some (w, x)" by auto
    with o None show ?thesis by (intro that [of w]) auto
  next
    case (Some w)
    with o show ?thesis by (intro that [of w]) auto
  qed
qed

context fragment_cache_inv
begin

text \<open>An offered packet stays so, unchanged, when entries are dropped.\<close>

lemma offered_swept:
  assumes inv: "cells others es s" "cells others es' s'" and k: "keeps s s'" "\<And>x. held es' x \<le> held es x"
    and p: "offered_cell others p es s"
  shows "offered_cell others p es' s' \<and> view s' p = view s p"
proof -
  have b: "count s p = others p + held es p" "count s' p = others p + held es' p"
    using inv by (auto simp: cache_inv_def balance_def)
  have "held es' p = 0" using k(2) [of p] p by (simp add: cache_offered_def)
  then show ?thesis using b p k(1) by (auto simp: cache_offered_def keeps_def)
qed

end

section \<open>Counting what is dropped\<close>

text \<open>
  When dropping an entry adds its cost to a counter, a scan or a sweep keeps the sum of the counter and
  of what the ways would still cost.
\<close>

lemma sum_list_zero: "(\<And>x. x \<in> set xs \<Longrightarrow> f x = 0) \<Longrightarrow> sum_list (map f xs) = (0 :: 'c::comm_monoid_add)"
  by (induction xs) auto

lemma tally_add:
  fixes x :: "'c::ab_group_add"
  assumes "x' + a = x + b" "s' + b + o1 = s + a + t"
  shows "s' + x' + o1 = s + x + t"
proof -
  have "x' = x + b - a" using assms(1) by (simp add: eq_diff_eq)
  then have "s' + x' + o1 = (s' + b + o1) + (x - a)" by (simp add: algebra_simps)
  also have "\<dots> = s + x + t" unfolding assms(2) by (simp add: algebra_simps)
  finally show ?thesis .
qed

locale cache_tally =
  fixes drop_entry :: "'e \<Rightarrow> 's \<Rightarrow> 's"
    and zero :: 'e
    and cost :: "'e \<Rightarrow> 'c::comm_monoid_add"
    and tally :: "'s \<Rightarrow> 'c"
  assumes zero_cost: "cost zero = 0"
    and drop_tally: "tally (drop_entry e s) = tally s + cost e"
begin

abbreviation worth :: "'e list \<Rightarrow> 'c" where
  "worth es \<equiv> sum_list (map cost es)"

lemma sweep_tally: "way_sweep P drop_entry zero es s = (es', s') \<Longrightarrow> tally s' + worth es' = tally s + worth es"
proof (induction es arbitrary: s es' s')
  case (Cons e es)
  define s1 where "s1 = (if P e then drop_entry e s else s)"
  obtain es2 where r: "way_sweep P drop_entry zero es s1 = (es2, s')" "es' = (if P e then zero else e) # es2"
    using Cons.prems by (auto simp: s1_def Let_def split: prod.splits if_splits)
  have "tally s' + worth es' = cost (if P e then zero else e) + (tally s1 + worth es)"
    using Cons.IH [OF r(1)] by (simp add: r(2) add.left_commute)
  then show ?case by (simp add: s1_def drop_tally zero_cost ac_simps)
qed simp

lemma set_sweep_tally:
  assumes "set_sweep P drop_entry zero rows s = (rows', s')"
  shows "tally s' + worth (concat rows') = tally s + worth (concat rows)"
proof -
  obtain es' where es: "way_sweep P drop_entry zero (concat rows) s = (es', s')"
    using set_sweep_state [of P drop_entry zero rows s] assms by (metis eq_snd_iff snd_conv)
  have "concat rows' = es'"
    using set_sweep_entries [of P drop_entry zero rows s] way_sweep_entries [of P drop_entry zero "concat rows" s]
      assms es by (simp add: map_concat)
  then show ?thesis using sweep_tally [OF es] by simp
qed

lemma scan_tally:
  assumes "way_scan ops way es f o1 s = (found, f', o2, es', s')" "wo_drop ops = drop_entry" "wo_zero ops = zero"
  shows "tally s' + worth es' = tally s + worth es"
  using assms(1)
proof (induction es arbitrary: s way f o1 found f' o2 es' s')
  case (Cons e es)
  define e1 s1 where "e1 = (if wo_expired ops e then zero else e)" and "s1 = (if wo_expired ops e then drop_entry e s else s)"
  have c: "(if wo_expired ops e then (wo_zero ops, wo_drop ops e s) else (e, s)) = (e1, s1)"
    by (simp add: e1_def s1_def assms(2,3))
  have t: "tally s1 + cost e1 = tally s + cost e" by (simp add: e1_def s1_def drop_tally zero_cost)
  show ?case
  proof (cases "wo_match ops e1")
    case True
    then have "es' = e1 # es" "s' = s1" using Cons.prems c by auto
    with t show ?thesis by (simp flip: add.assoc)
  next
    case False
    obtain f1 o3 es2 where r: "way_scan ops (Suc way) es f1 o3 s1 = (found, f', o2, es2, s')" "es' = e1 # es2"
      using Cons.prems c False by (auto simp: Let_def split: prod.splits)
    have "tally s' + worth es' = cost e1 + (tally s1 + worth es)"
      using Cons.IH [OF r(1)] by (simp add: r(2) add.left_commute)
    also have "\<dots> = (tally s1 + cost e1) + worth es" by (simp only: ac_simps)
    also have "\<dots> = tally s + worth (e # es)" unfolding t by (simp add: add.assoc)
    finally show ?thesis .
  qed
qed simp

text \<open>Replacing a way, and a row, changes the worth by what is put in and taken out.\<close>

lemma worth_row:
  assumes "i < length rows"
  shows "worth (concat (rows[i := row])) + worth (rows ! i) = worth (concat rows) + worth row"
  using assms
proof (induction rows arbitrary: i)
  case (Cons a rows)
  then show ?case using Cons.IH [of "i - 1"] by (cases i) (simp_all add: ac_simps)
qed simp

lemma worth_way:
  assumes "i < length rows" "w < length (rows ! i)"
  shows "worth (concat (rows[i := (rows ! i)[w := e]])) + cost (rows ! i ! w) = worth (concat rows) + cost e"
proof -
  obtain xs ys where c: "concat rows = xs @ (rows ! i ! w) # ys"
    "\<And>e. concat (rows[i := (rows ! i)[w := e]]) = xs @ e # ys" using concat_split [OF assms] by blast
  then show ?thesis by (simp add: ac_simps)
qed

end

section \<open>Two sample fragments\<close>

text \<open>A pool of four packets, two of them holding the fragments of a packet of 1500 bytes.\<close>

definition fragment_heap :: heap where
  "fragment_heap = \<lparr>pk_at = (\<lambda>p. \<lparr>pk_pool = (if 100 \<le> p \<and> p < 104 then Some 0 else None),
       pk_slot = (if 100 \<le> p \<and> p < 104 then Some (4096 + (p - 100) * 2048) else None),
       pk_reference_count = (if p = 102 \<or> p = 103 then 1 else 0), pk_data_offset = 256,
       pk_data_length = (if p = 102 then 1444 else if p = 103 then 104 else 0), pk_flags = 0\<rparr>),
     pool_at = (\<lambda>q. if q = 0 then \<lparr>pl_packets = Some 100, pl_free_packets = Some [100, 101, 102, 103],
       pl_data_region = Some 4096, pl_lock = mutex_zero, pl_packet_count = 4, pl_slot_size = 2048,
       pl_slot_stride = 2048, pl_headroom = 256, pl_free_count = 2, pl_initialized = True\<rparr> else pool_zero),
     byte_at = (\<lambda>a. of_nat a)\<rparr>"

lemma fragment_heap_ok: "heap_ok fragment_heap"
proof -
  have p: "pool_packets (pool_at fragment_heap 0) = {100, 101, 102, 103}"
    by (auto simp: pool_packets_def fragment_heap_def)
  have "pool_ok fragment_heap 0"
    unfolding pool_ok_def Let_def p
    by (auto simp: fragment_heap_def pool_shape_def free_stack_def slot_addr_def packet_in_slot_def)
  then show ?thesis by (auto simp: heap_ok_def fragment_heap_def pool_zero_def)
qed


definition tail_header :: linkg_transport_fragment_header where
  "tail_header = \<lparr>fh_packet_id = 5, fh_fragment_offset = 1420, fh_packet_length = 1500\<rparr>"

definition fragment_base :: linkg_transport_header where
  "fragment_base = sample_header\<lparr>th_flags := 1\<rparr>"

lemma fragment_refs: "refs fragment_heap 102 = 1" "refs fragment_heap 103 = 1"
  by (simp_all add: refs_def fragment_heap_def pool_packets_def)

lemma fragment_keys: "fragment_key 1 2 2 fragment_base sample_fragment = fragment_key 1 2 2 fragment_base tail_header"
  by (simp add: fragment_key_def sample_fragment_def tail_header_def)

end
