(* ===== verification/Transport_Forward.thy ===== *)
theory Transport_Forward
  imports Fragment_Cache
begin

text \<open>
  Pairing of fragments relayed by an access point: \<open>src/core/transport/transport_forward.c\<close>.

  A relay does not reassemble; it holds back the fragment that arrives first until the other is there and
  hands both on in the order first, last, marked as one group, so that the next hop sends them back to back.
  The cache has 32 sets of two ways; what it gives up is counted in the global statistics. The time and the
  peer as seen by the epoch check are inputs.
\<close>

section \<open>State\<close>

abbreviation (input) LINKG_TRANSPORT_FORWARD_PAIR_SET_COUNT :: nat where "LINKG_TRANSPORT_FORWARD_PAIR_SET_COUNT \<equiv> 32"
abbreviation (input) LINKG_TRANSPORT_FORWARD_PAIR_WAYS :: nat where "LINKG_TRANSPORT_FORWARD_PAIR_WAYS \<equiv> 2"
abbreviation (input) LINKG_TRANSPORT_FORWARD_PAIR_TTL_US :: u64 where "LINKG_TRANSPORT_FORWARD_PAIR_TTL_US \<equiv> 60000"
abbreviation (input) LINKG_TRANSPORT_FORWARD_PAIR_GC_INTERVAL_US :: u64 where "LINKG_TRANSPORT_FORWARD_PAIR_GC_INTERVAL_US \<equiv> 5000"

record linkg_transport_forward_pair_entry =
  fe_packet :: "nat option"
  fe_expires_at_us :: u64
  fe_packet_id :: u32
  fe_peer_epoch :: u32
  fe_payload_length :: u32
  fe_type :: u8
  fe_traffic_class :: u32
  fe_packet_length :: u16
  fe_fragment_offset :: u16
  fe_source_node_id :: u8
  fe_destination_node_id :: u8
  fe_peer_node_id :: u8
  fe_valid :: bool

record linkg_transport_forward_pair_runtime =
  fr_lock :: mutex
  fr_entries :: "linkg_transport_forward_pair_entry list list"
  fr_last_gc_us :: u64
  fr_initialized :: bool

record linkg_transport_forward_item =
  fi_packet :: "nat option"
  fi_payload_length :: u32
  fi_destination_node_id :: u8
  fi_peer_node_id :: u8

definition forward_entry_zero :: linkg_transport_forward_pair_entry where
  "forward_entry_zero = \<lparr>fe_packet = None, fe_expires_at_us = 0, fe_packet_id = 0, fe_peer_epoch = 0,
     fe_payload_length = 0, fe_type = 0, fe_traffic_class = 0, fe_packet_length = 0, fe_fragment_offset = 0,
     fe_source_node_id = 0, fe_destination_node_id = 0, fe_peer_node_id = 0, fe_valid = False\<rparr>"

definition forward_pairs_zero :: linkg_transport_forward_pair_runtime where
  "forward_pairs_zero = \<lparr>fr_lock = mutex_zero,
     fr_entries = replicate LINKG_TRANSPORT_FORWARD_PAIR_SET_COUNT
       (replicate LINKG_TRANSPORT_FORWARD_PAIR_WAYS forward_entry_zero),
     fr_last_gc_us = 0, fr_initialized = False\<rparr>"

text \<open>The heap with the two local counters \<open>dropped_bytes\<close> and \<open>dropped_frames\<close>.\<close>

type_synonym drop_state = "heap \<times> u64 \<times> u64"

section \<open>Internal helpers\<close>

definition linkg_transport_forward_peer_valid :: "u8 \<Rightarrow> bool" where
  "linkg_transport_forward_peer_valid peer_node_id \<longleftrightarrow>
     peer_node_id \<ge> LINKG_RESOURCE_NODE_ID_MIN \<and> peer_node_id \<le> LINKG_RESOURCE_NODE_ID_MAX"

definition linkg_transport_forward_pair_set ::
    "u32 \<Rightarrow> u8 \<Rightarrow> u32 \<Rightarrow> linkg_transport_header \<Rightarrow> u32 \<Rightarrow> nat" where
  "linkg_transport_forward_pair_set traffic_class peer_node_id peer_epoch header packet_id =
     unat (fragment_hash traffic_class peer_node_id peer_epoch header packet_id AND
       (of_nat LINKG_TRANSPORT_FORWARD_PAIR_SET_COUNT - 1))"

definition linkg_transport_forward_pair_match ::
    "u32 \<Rightarrow> u8 \<Rightarrow> u32 \<Rightarrow> linkg_transport_header \<Rightarrow> linkg_transport_fragment_header \<Rightarrow> linkg_transport_forward_pair_entry \<Rightarrow> bool" where
  "linkg_transport_forward_pair_match traffic_class peer_node_id peer_epoch header fragment_header entry =
     (if \<not> fe_valid entry then False
      else fe_traffic_class entry = traffic_class \<and> fe_peer_node_id entry = peer_node_id \<and>
           fe_peer_epoch entry = peer_epoch \<and> fe_source_node_id entry = th_source_node_id header \<and>
           fe_destination_node_id entry = th_destination_node_id header \<and> fe_type entry = th_type header \<and>
           fe_packet_id entry = fh_packet_id fragment_header)"

definition linkg_transport_forward_pair_expired :: "u64 \<Rightarrow> linkg_transport_forward_pair_entry \<Rightarrow> bool" where
  "linkg_transport_forward_pair_expired now_us entry \<longleftrightarrow> fe_valid entry \<and> fe_expires_at_us entry \<le> now_us"

text \<open>What clearing an entry does to the heap; the entry itself becomes zero.\<close>

definition linkg_transport_forward_pair_entry_clear :: "linkg_transport_forward_pair_entry \<Rightarrow> heap \<Rightarrow> heap" where
  "linkg_transport_forward_pair_entry_clear entry h = linkg_packet_release (fe_packet entry) h"

text \<open>What dropping an entry does to the heap and the counters. An entry that is valid becomes zero.\<close>

definition linkg_transport_forward_pair_entry_drop :: "linkg_transport_forward_pair_entry \<Rightarrow> drop_state \<Rightarrow> drop_state" where
  "linkg_transport_forward_pair_entry_drop entry = (\<lambda>(h, dropped_bytes, dropped_frames).
     (if \<not> fe_valid entry then (h, dropped_bytes, dropped_frames)
      else
        (let (bytes, frames) =
           (if fe_packet entry \<noteq> None then (dropped_bytes + ucast (fe_payload_length entry), dropped_frames + 1)
            else (dropped_bytes, dropped_frames))
         in (linkg_transport_forward_pair_entry_clear entry h, bytes, frames))))"

text \<open>The lock and unlock of the context around the additions are not checked.\<close>

definition linkg_transport_forward_record_incomplete :: "u64 \<Rightarrow> u64 \<Rightarrow> linkg_transport_context \<Rightarrow> linkg_transport_context" where
  "linkg_transport_forward_record_incomplete bytes frames c =
     (if bytes = 0 \<and> frames = 0 then c
      else c\<lparr>tc_stats := (tc_stats c)\<lparr>gs_forward_incomplete_bytes := gs_forward_incomplete_bytes (tc_stats c) + bytes,
             gs_forward_incomplete_frames := gs_forward_incomplete_frames (tc_stats c) + frames\<rparr>\<rparr>)"

definition linkg_transport_forward_record_reset :: "u64 \<Rightarrow> u64 \<Rightarrow> linkg_transport_context \<Rightarrow> linkg_transport_context" where
  "linkg_transport_forward_record_reset bytes frames c =
     (if bytes = 0 \<and> frames = 0 then c
      else c\<lparr>tc_stats := (tc_stats c)\<lparr>gs_forward_incomplete_bytes := gs_forward_incomplete_bytes (tc_stats c) + bytes,
             gs_forward_incomplete_frames := gs_forward_incomplete_frames (tc_stats c) + frames,
             gs_forward_reset_frames := gs_forward_reset_frames (tc_stats c) + frames\<rparr>\<rparr>)"

definition linkg_transport_forward_pair_gc_locked ::
    "u64 \<Rightarrow> linkg_transport_forward_pair_runtime \<Rightarrow> drop_state \<Rightarrow> linkg_transport_forward_pair_runtime \<times> drop_state" where
  "linkg_transport_forward_pair_gc_locked now_us rt s =
     (if fr_last_gc_us rt \<noteq> 0 \<and> now_us - fr_last_gc_us rt < LINKG_TRANSPORT_FORWARD_PAIR_GC_INTERVAL_US then (rt, s)
      else
        (let (entries, s1) = set_sweep (linkg_transport_forward_pair_expired now_us) linkg_transport_forward_pair_entry_drop
               forward_entry_zero (fr_entries rt) s
         in (rt\<lparr>fr_entries := entries, fr_last_gc_us := now_us\<rparr>, s1)))"

text \<open>The new entry and the heap; the entry that was there is overwritten.\<close>

definition linkg_transport_forward_pair_create_locked ::
    "u32 \<Rightarrow> u8 \<Rightarrow> u32 \<Rightarrow> linkg_transport_header \<Rightarrow> linkg_transport_fragment_header \<Rightarrow> nat \<Rightarrow> u32 \<Rightarrow> u64 \<Rightarrow> heap \<Rightarrow>
     int \<times> linkg_transport_forward_pair_entry \<times> heap" where
  "linkg_transport_forward_pair_create_locked traffic_class peer_node_id peer_epoch header fragment_header packet payload_length now_us h =
     (let h1 = linkg_packet_retain (Some packet) h
      in (0, \<lparr>fe_packet = Some packet, fe_expires_at_us = now_us + LINKG_TRANSPORT_FORWARD_PAIR_TTL_US,
              fe_packet_id = fh_packet_id fragment_header, fe_peer_epoch = peer_epoch, fe_payload_length = payload_length,
              fe_type = th_type header, fe_traffic_class = traffic_class, fe_packet_length = fh_packet_length fragment_header,
              fe_fragment_offset = fh_fragment_offset fragment_header, fe_source_node_id = th_source_node_id header,
              fe_destination_node_id = th_destination_node_id header, fe_peer_node_id = peer_node_id, fe_valid = True\<rparr>, h1))"

text \<open>The group flags of a frame.\<close>

definition set_group :: "u32 \<Rightarrow> nat \<Rightarrow> heap \<Rightarrow> heap" where
  "set_group flag p h = upd_pk p (\<lambda>k. k\<lparr>pk_flags := (pk_flags k AND NOT LINKG_PACKET_FLAG_TX_GROUP_MASK) OR flag\<rparr>) h"

text \<open>The return code, \<open>output_items\<close>, the entry and the heap. The caller found the entry valid, so its packet is there.\<close>

definition linkg_transport_forward_pair_complete_locked ::
    "u8 \<Rightarrow> linkg_transport_header \<Rightarrow> nat \<Rightarrow> u32 \<Rightarrow> linkg_transport_forward_pair_entry \<times> heap \<Rightarrow>
     int \<times> linkg_transport_forward_item list \<times> linkg_transport_forward_pair_entry \<times> heap" where
  "linkg_transport_forward_pair_complete_locked peer_node_id header packet payload_length = (\<lambda>(entry, h).
     (let h1 = linkg_packet_retain (Some packet) h;
          (first_packet, first_payload_length, tail_packet, tail_payload_length) =
            (if fe_fragment_offset entry = 0
             then (the (fe_packet entry), fe_payload_length entry, packet, payload_length)
             else (packet, payload_length, the (fe_packet entry), fe_payload_length entry));
          h2 = set_group LINKG_PACKET_FLAG_TX_GROUP_FIRST first_packet h1;
          h3 = set_group LINKG_PACKET_FLAG_TX_GROUP_LAST tail_packet h2;
          item = (\<lambda>p n. \<lparr>fi_packet = Some p, fi_payload_length = n,
                   fi_destination_node_id = th_destination_node_id header, fi_peer_node_id = peer_node_id\<rparr>)
      in (0, [item first_packet first_payload_length, item tail_packet tail_payload_length], forward_entry_zero, h3)))"

definition forward_ways ::
    "u32 \<Rightarrow> u8 \<Rightarrow> u32 \<Rightarrow> linkg_transport_header \<Rightarrow> linkg_transport_fragment_header \<Rightarrow> u64 \<Rightarrow>
     (linkg_transport_forward_pair_entry, drop_state) way_ops" where
  "forward_ways traffic_class peer_node_id peer_epoch header fragment_header now_us =
     \<lparr>wo_expired = linkg_transport_forward_pair_expired now_us, wo_drop = linkg_transport_forward_pair_entry_drop,
      wo_zero = forward_entry_zero,
      wo_match = linkg_transport_forward_pair_match traffic_class peer_node_id peer_epoch header fragment_header,
      wo_valid = fe_valid, wo_expires = fe_expires_at_us\<rparr>"

text \<open>The part of the submission that works on the matching way.\<close>

definition forward_join ::
    "u8 \<Rightarrow> linkg_transport_header \<Rightarrow> linkg_transport_fragment_header \<Rightarrow> nat \<Rightarrow> u32 \<Rightarrow>
     linkg_transport_forward_pair_entry \<times> drop_state \<Rightarrow>
     int \<times> linkg_transport_forward_item list \<times> linkg_transport_forward_pair_entry \<times> drop_state" where
  "forward_join peer_node_id header fragment_header packet payload_length = (\<lambda>(entry, s).
     (if fe_packet_length entry \<noteq> fh_packet_length fragment_header
      then (- EPROTO, [], forward_entry_zero, linkg_transport_forward_pair_entry_drop entry s)
      else if fe_fragment_offset entry = fh_fragment_offset fragment_header then (0, [], entry, s)
      else
        (let (ret, out, entry1, h1) =
           linkg_transport_forward_pair_complete_locked peer_node_id header packet payload_length (entry, fst s)
         in (ret, out, entry1, (h1, snd s)))))"

definition linkg_transport_forward_pair_submit_locked ::
    "u32 \<Rightarrow> u8 \<Rightarrow> u32 \<Rightarrow> linkg_transport_header \<Rightarrow> linkg_transport_fragment_header \<Rightarrow> nat \<Rightarrow> u32 \<Rightarrow> u64 \<Rightarrow>
     linkg_transport_forward_pair_runtime \<Rightarrow> drop_state \<Rightarrow>
     int \<times> linkg_transport_forward_item list \<times> linkg_transport_forward_pair_runtime \<times> drop_state" where
  "linkg_transport_forward_pair_submit_locked traffic_class peer_node_id peer_epoch header fragment_header packet payload_length now_us rt s =
     (let idx = linkg_transport_forward_pair_set traffic_class peer_node_id peer_epoch header (fh_packet_id fragment_header);
          (found, free_way, oldest, row, s1) =
            way_scan (forward_ways traffic_class peer_node_id peer_epoch header fragment_header now_us) 0
              (fr_entries rt ! idx) None None s;
          put = (\<lambda>row. rt\<lparr>fr_entries := (fr_entries rt)[idx := row]\<rparr>)
      in case found of
           None \<Rightarrow>
             (case (case free_way of Some w \<Rightarrow> Some w | None \<Rightarrow> map_option fst oldest) of
                None \<Rightarrow> (- ENOSPC, [], put row, s1)
              | Some w \<Rightarrow>
                  (let s2 = (if fe_valid (row ! w) then linkg_transport_forward_pair_entry_drop (row ! w) s1 else s1);
                       (ret, entry, h3) = linkg_transport_forward_pair_create_locked traffic_class peer_node_id peer_epoch
                         header fragment_header packet payload_length now_us (fst s2)
                   in (ret, [], put (row[w := entry]), (h3, snd s2))))
         | Some w \<Rightarrow>
             (let (ret, out, entry, s2) = forward_join peer_node_id header fragment_header packet payload_length (row ! w, s1)
              in (ret, out, put (row[w := entry]), s2)))"

section \<open>Life cycle\<close>

definition linkg_transport_forward_pair_runtime_init ::
    "int \<Rightarrow> mutex \<Rightarrow> linkg_transport_forward_pair_runtime \<Rightarrow> int \<times> linkg_transport_forward_pair_runtime" where
  "linkg_transport_forward_pair_runtime_init mutex_init lock rt =
     (if fr_initialized rt then (- EALREADY, rt)
      else if mutex_init \<noteq> 0 then (- mutex_init, forward_pairs_zero)
      else (0, forward_pairs_zero\<lparr>fr_lock := lock, fr_initialized := True\<rparr>))"

definition linkg_transport_forward_pair_runtime_deinit ::
    "linkg_transport_forward_pair_runtime \<Rightarrow> linkg_transport_context \<Rightarrow> heap \<Rightarrow>
     int \<times> linkg_transport_forward_pair_runtime \<times> linkg_transport_context \<times> heap" where
  "linkg_transport_forward_pair_runtime_deinit rt c h =
     (if \<not> fr_initialized rt then (0, rt, c, h)
      else if mx_lock (fr_lock rt) \<noteq> 0 then (- mx_lock (fr_lock rt), rt, c, h)
      else
        (let (entries, h1, dropped_bytes, dropped_frames) =
               set_sweep fe_valid linkg_transport_forward_pair_entry_drop forward_entry_zero (fr_entries rt) (h, 0, 0);
             rt1 = rt\<lparr>fr_entries := entries\<rparr> in
         if mx_unlock (fr_lock rt) \<noteq> 0 then (- mx_unlock (fr_lock rt), rt1, c, h1)
         else
           (let c1 = linkg_transport_forward_record_incomplete dropped_bytes dropped_frames c in
            if mx_destroy (fr_lock rt) \<noteq> 0 then (- mx_destroy (fr_lock rt), rt1, c1, h1)
            else (0, forward_pairs_zero, c1, h1))))"

definition linkg_transport_forward_pair_reset_peer ::
    "u8 \<Rightarrow> linkg_transport_forward_pair_runtime \<Rightarrow> linkg_transport_context \<Rightarrow> heap \<Rightarrow>
     int \<times> linkg_transport_forward_pair_runtime \<times> linkg_transport_context \<times> heap" where
  "linkg_transport_forward_pair_reset_peer peer_node_id rt c h =
     (if \<not> linkg_transport_forward_peer_valid peer_node_id then (- EINVAL, rt, c, h)
      else if \<not> fr_initialized rt then (0, rt, c, h)
      else if mx_lock (fr_lock rt) \<noteq> 0 then (- mx_lock (fr_lock rt), rt, c, h)
      else
        (let (entries, h1, dropped_bytes, dropped_frames) =
               set_sweep (\<lambda>entry. fe_valid entry \<and> fe_peer_node_id entry = peer_node_id)
                 linkg_transport_forward_pair_entry_drop forward_entry_zero (fr_entries rt) (h, 0, 0);
             rt1 = rt\<lparr>fr_entries := entries\<rparr> in
         if mx_unlock (fr_lock rt) \<noteq> 0 then (- mx_unlock (fr_lock rt), rt1, c, h1)
         else (0, rt1, linkg_transport_forward_record_reset dropped_bytes dropped_frames c, h1)))"

section \<open>Submission\<close>

text \<open>The return code, the output items (as many as \<open>*output_count\<close> says), the cache, the context and the heap.\<close>

definition linkg_transport_forward_pair_submit ::
    "linkg_transport_peer option \<Rightarrow> u32 \<Rightarrow> u32 \<Rightarrow> u8 \<Rightarrow> linkg_transport_header option \<Rightarrow>
     linkg_transport_fragment_header option \<Rightarrow> nat option \<Rightarrow> u32 \<Rightarrow> u64 \<Rightarrow>
     linkg_transport_forward_pair_runtime \<Rightarrow> linkg_transport_context \<Rightarrow> heap \<Rightarrow>
     int \<times> linkg_transport_forward_item list \<times> linkg_transport_forward_pair_runtime \<times> linkg_transport_context \<times> heap" where
  "linkg_transport_forward_pair_submit peer peer_epoch traffic_class peer_node_id header fragment_header packet payload_length now_us rt c h =
     (if \<not> tc_initialized c \<or> \<not> fr_initialized rt then (- ENODEV, [], rt, c, h)
      else if tc_local_role c \<noteq> LINKG_DEVICE_ROLE_AP then (- EPERM, [], rt, c, h)
      else case (header, fragment_header, packet) of
        (Some hdr, Some fh, Some p) \<Rightarrow>
         (if peer = None \<or> \<not> linkg_transport_class_valid traffic_class \<or> \<not> linkg_transport_forward_peer_valid peer_node_id \<or>
             payload_length = 0
          then (- EINVAL, [], rt, c, h)
          else if th_flags hdr AND LINKG_TRANSPORT_FLAG_FRAGMENT = 0 then (- EINVAL, [], rt, c, h)
          else if mx_lock (fr_lock rt) \<noteq> 0 then (- mx_lock (fr_lock rt), [], rt, c, h)
          else if \<not> linkg_transport_peer_epoch_matches peer peer_epoch
          then (if mx_unlock (fr_lock rt) = 0 then - ESTALE else - mx_unlock (fr_lock rt), [], rt, c, h)
          else
            (let (rt1, s1) = linkg_transport_forward_pair_gc_locked now_us rt (h, 0, 0);
                 (ret, out, rt2, h2, dropped_bytes, dropped_frames) =
                   linkg_transport_forward_pair_submit_locked traffic_class peer_node_id peer_epoch hdr fh p payload_length
                     now_us rt1 s1;
                 c1 = linkg_transport_forward_record_incomplete dropped_bytes dropped_frames c
             in (if ret \<noteq> 0 then ret else if mx_unlock (fr_lock rt) = 0 then 0 else - mx_unlock (fr_lock rt),
                 out, rt2, c1, h2)))
      | _ \<Rightarrow> (- EINVAL, [], rt, c, h))"

section \<open>Entries\<close>

definition forward_holds :: "linkg_transport_forward_pair_entry \<Rightarrow> nat \<Rightarrow> nat" where
  "forward_holds e p = (if fe_valid e \<and> fe_packet e = Some p then 1 else 0)"

text \<open>What dropping an entry adds to the counters of bytes and frames.\<close>

definition forward_bytes :: "linkg_transport_forward_pair_entry \<Rightarrow> u64" where
  "forward_bytes e = (if fe_valid e \<and> fe_packet e \<noteq> None then ucast (fe_payload_length e) else 0)"

definition forward_frames :: "linkg_transport_forward_pair_entry \<Rightarrow> u64" where
  "forward_frames e = (if fe_valid e \<and> fe_packet e \<noteq> None then 1 else 0)"

abbreviation drefs :: "drop_state \<Rightarrow> nat \<Rightarrow> nat" where "drefs s \<equiv> refs (fst s)"
abbreviation dok :: "drop_state \<Rightarrow> bool" where "dok s \<equiv> heap_ok (fst s)"
abbreviation dview :: "drop_state \<Rightarrow> nat \<Rightarrow> linkg_packet \<times> u8 list \<times> u32" where "dview s \<equiv> packet_view (fst s)"

lemma drop_effect:
  assumes "dok s" "\<And>p. forward_holds e p \<le> drefs s p" "s' = linkg_transport_forward_pair_entry_drop e s"
  shows "dok s' \<and> (\<forall>p. drefs s' p = drefs s p - forward_holds e p) \<and> (\<forall>p. 0 < drefs s' p \<longrightarrow> dview s' p = dview s p)"
proof (cases "fe_valid e")
  case True
  have "0 < drefs s p" if "fe_packet e = Some p" for p
    using assms(2) [of p] that True by (simp add: forward_holds_def)
  from release_option [OF assms(1) this] show ?thesis using True
    by (auto simp: assms(3) linkg_transport_forward_pair_entry_drop_def linkg_transport_forward_pair_entry_clear_def
        forward_holds_def Let_def split_beta)
qed (simp add: assms linkg_transport_forward_pair_entry_drop_def forward_holds_def split_beta)

interpretation forward: fragment_cache linkg_transport_forward_pair_entry_drop forward_entry_zero forward_holds drefs dok dview
proof (unfold_locales)
  show "forward_holds forward_entry_zero p = 0" for p by (simp add: forward_holds_def forward_entry_zero_def)
qed (use drop_effect in blast)+

interpretation bytes_tally: cache_tally linkg_transport_forward_pair_entry_drop forward_entry_zero forward_bytes "\<lambda>s. fst (snd s)"
  by unfold_locales
    (simp_all add: forward_bytes_def forward_entry_zero_def linkg_transport_forward_pair_entry_drop_def Let_def split_beta)

interpretation frames_tally: cache_tally linkg_transport_forward_pair_entry_drop forward_entry_zero forward_frames "\<lambda>s. snd (snd s)"
  by unfold_locales
    (simp_all add: forward_frames_def forward_entry_zero_def linkg_transport_forward_pair_entry_drop_def Let_def split_beta)

text \<open>Every fragment submitted so far: its key, packet length, offset, payload length and the bytes of the frame.\<close>

type_synonym forward_log = "(fragment_key \<times> u16 \<times> u16 \<times> u32 \<times> u8 list) list"

definition forward_entry_key :: "linkg_transport_forward_pair_entry \<Rightarrow> fragment_key" where
  "forward_entry_key e = (fe_traffic_class e, fe_peer_node_id e, fe_peer_epoch e, fe_source_node_id e,
     fe_destination_node_id e, fe_type e, fe_packet_id e)"

text \<open>An entry in use holds a frame as it was submitted; one that is not holds nothing.\<close>

definition forward_inv :: "forward_log \<Rightarrow> heap \<Rightarrow> linkg_transport_forward_pair_entry \<Rightarrow> bool" where
  "forward_inv log h e \<longleftrightarrow>
     (if fe_valid e
      then fe_fragment_offset e \<in> {0, 1420} \<and> (\<exists>p. fe_packet e = Some p \<and>
        (forward_entry_key e, fe_packet_length e, fe_fragment_offset e, fe_payload_length e, packet_bytes h p) \<in> set log)
      else fe_packet e = None)"

lemma forward_inv_frame:
  assumes "forward_inv log h e" "set log \<subseteq> set log'" "\<And>x. 0 < forward_holds e x \<Longrightarrow> packet_view h' x = packet_view h x"
  shows "forward_inv log' h' e"
proof -
  have "packet_bytes h' p = packet_bytes h p" if "fe_valid e" "fe_packet e = Some p" for p
    using packet_viewD(5) [OF assms(3) [of p]] that by (simp add: forward_holds_def)
  moreover have "x \<in> set log'" if "x \<in> set log" for x using that assms(2) by blast
  ultimately show ?thesis using assms(1) unfolding forward_inv_def by (smt (verit, best))
qed

interpretation forward_inv: fragment_cache_inv linkg_transport_forward_pair_entry_drop forward_entry_zero forward_holds
    drefs dok dview "\<lambda>s. forward_inv log (fst s)" for log
proof (unfold_locales)
  show "forward_inv log (fst s) forward_entry_zero" for s :: drop_state by (simp add: forward_inv_def forward_entry_zero_def)
qed (blast intro: forward_inv_frame [OF _ order_refl])

lemma forward_set_less: "linkg_transport_forward_pair_set cls peer ep hdr pid < LINKG_TRANSPORT_FORWARD_PAIR_SET_COUNT"
proof -
  have "w AND 31 \<le> 31" for w :: u32 by (rule word_and_le1)
  then have "unat (w AND 31) < 32" for w :: u32 using word_le_nat_alt [of "w AND 31" 31] by simp
  then show ?thesis by (simp add: linkg_transport_forward_pair_set_def)
qed

lemma forward_match_key:
  "linkg_transport_forward_pair_match cls peer ep hdr fh e \<longleftrightarrow> fe_valid e \<and> forward_entry_key e = fragment_key cls peer ep hdr fh"
  by (auto simp: linkg_transport_forward_pair_match_def forward_entry_key_def fragment_key_def)

section \<open>One way\<close>

text \<open>How many references the output items hand out.\<close>

definition forward_gain :: "linkg_transport_forward_item list \<Rightarrow> nat \<Rightarrow> nat" where
  "forward_gain out x = length (filter (\<lambda>i. fi_packet i = Some x) out)"

text \<open>
  What is handed out: nothing, or the first and the last fragment submitted under the key, in that order,
  the bytes of their frames unchanged, marked as a group and addressed as the header and the peer say.
\<close>

definition forward_pair :: "forward_log \<Rightarrow> fragment_key \<Rightarrow> u16 \<Rightarrow> heap \<Rightarrow> linkg_transport_forward_item list \<Rightarrow> bool" where
  "forward_pair log key plen h out \<longleftrightarrow>
     out = [] \<or> (\<exists>i0 i1 f t. out = [i0, i1] \<and> f \<noteq> t \<and> fi_packet i0 = Some f \<and> fi_packet i1 = Some t \<and>
       (key, plen, 0, fi_payload_length i0, packet_bytes h f) \<in> set log \<and>
       (key, plen, 1420, fi_payload_length i1, packet_bytes h t) \<in> set log \<and>
       pk_flags (pk_at h f) AND LINKG_PACKET_FLAG_TX_GROUP_MASK = LINKG_PACKET_FLAG_TX_GROUP_FIRST \<and>
       pk_flags (pk_at h t) AND LINKG_PACKET_FLAG_TX_GROUP_MASK = LINKG_PACKET_FLAG_TX_GROUP_LAST \<and>
       (\<forall>i\<in>set out. fi_peer_node_id i = fst (snd key) \<and> fi_destination_node_id i = fst (snd (snd (snd (snd key))))))"

definition out_bytes :: "linkg_transport_forward_item list \<Rightarrow> u64" where
  "out_bytes out = sum_list (map (\<lambda>i. ucast (fi_payload_length i)) out)"

text \<open>Counters plus cached plus handed out stay the same but for a fragment that was taken.\<close>

definition forward_tally ::
    "u32 \<Rightarrow> bool \<Rightarrow> u64 \<Rightarrow> u64 \<Rightarrow> drop_state \<Rightarrow> linkg_transport_forward_item list \<Rightarrow> u64 \<Rightarrow> u64 \<Rightarrow> drop_state \<Rightarrow> bool" where
  "forward_tally n taken b f s out b' f' s' \<longleftrightarrow>
     fst (snd s') + b' + out_bytes out = fst (snd s) + b + (if taken then ucast n else 0) \<and>
     snd (snd s') + f' + of_nat (length out) = snd (snd s) + f + (if taken then 1 else 0)"

definition way_step ::
    "forward_log \<Rightarrow> fragment_key \<Rightarrow> u16 \<Rightarrow> nat \<Rightarrow> u32 \<Rightarrow> linkg_transport_forward_pair_entry \<Rightarrow> drop_state \<Rightarrow>
     linkg_transport_forward_item list \<Rightarrow> linkg_transport_forward_pair_entry \<Rightarrow> drop_state \<Rightarrow> bool" where
  "way_step log key plen p n e s out e' s' \<longleftrightarrow>
     cache_step forward_holds drefs dok dview (\<lambda>s. forward_inv log (fst s)) p e s (forward_gain out) e' s' \<and>
     forward_pair log key plen (fst s') out \<and>
     forward_tally n (out \<noteq> [] \<or> 0 < forward_holds e' p) (forward_bytes e) (forward_frames e) s out
       (forward_bytes e') (forward_frames e') s'"

definition presentable :: "linkg_transport_forward_pair_entry \<Rightarrow> drop_state \<Rightarrow> nat \<Rightarrow> bool" where
  "presentable e s p \<longleftrightarrow> dok s \<and> 0 < drefs s p \<and> drefs s p < 2 ^ 32 - 1 \<and> forward_holds e p = 0 \<and> (\<forall>x. forward_holds e x \<le> drefs s x)"

lemma forward_gain_Nil [simp]: "forward_gain [] x = 0"
  by (simp add: forward_gain_def)

lemma out_bytes_Nil [simp]: "out_bytes [] = 0"
  by (simp add: out_bytes_def)

lemma way_stay:
  assumes "presentable e s p" "forward_inv log (fst s) e"
  shows "way_step log key plen p n e s [] e s"
  using assms by (simp add: way_step_def cache_step_def presentable_def forward_pair_def forward_tally_def)

lemma way_drop:
  assumes "presentable e s p"
  shows "way_step log key plen p n e s [] forward_entry_zero (linkg_transport_forward_pair_entry_drop e s)"
proof -
  have le: "\<And>x. forward_holds e x \<le> drefs s x" using assms by (simp add: presentable_def)
  have d: "dok (linkg_transport_forward_pair_entry_drop e s) \<and>
    (\<forall>x. drefs (linkg_transport_forward_pair_entry_drop e s) x = drefs s x - forward_holds e x) \<and>
    (\<forall>x. 0 < drefs (linkg_transport_forward_pair_entry_drop e s) x \<longrightarrow> dview (linkg_transport_forward_pair_entry_drop e s) x = dview s x)"
    by (rule drop_effect [OF _ le refl]) (use assms in \<open>simp add: presentable_def\<close>)
  show ?thesis
    unfolding way_step_def cache_step_def
    using d le
    by (simp add: forward_inv.inv_zero forward.zero_holds forward_pair_def forward_tally_def
        bytes_tally.drop_tally bytes_tally.zero_cost frames_tally.drop_tally frames_tally.zero_cost)
qed

lemma set_group_simps [simp]:
  "heap_ok (set_group f p h) = heap_ok h" "refs (set_group f p h) = refs h" "packet_bytes (set_group f p h) x = packet_bytes h x"
  "x \<noteq> p \<Longrightarrow> packet_view (set_group f p h) x = packet_view h x"
  "pk_flags (pk_at (set_group f p h) x) = (if x = p then (pk_flags (pk_at h p) AND NOT 0x30000) OR f else pk_flags (pk_at h x))"
proof -
  have same: "pk_pool (pk_at (set_group f p h) x) = pk_pool (pk_at h x)" "pk_slot (pk_at (set_group f p h) x) = pk_slot (pk_at h x)"
    "packet_in_slot P (pk_at (set_group f p h) x) = packet_in_slot P (pk_at h x)"
    "pk_reference_count (pk_at (set_group f p h) x) = pk_reference_count (pk_at h x)" "pool_at (set_group f p h) = pool_at h" for x P
    by (simp_all add: set_group_def packet_in_slot_def)
  show "heap_ok (set_group f p h) = heap_ok h" by (simp add: heap_ok_def pool_ok_def same)
  show "refs (set_group f p h) = refs h" by (auto simp: refs_def set_group_def fun_eq_iff split: option.splits)
  show b: "packet_bytes (set_group f p h) x = packet_bytes h x" 
    by (cases "x = p") (simp_all add: packet_bytes_def linkg_packet_data_def set_group_def split: option.split)
  show "packet_view (set_group f p h) x = packet_view h x" if "x \<noteq> p"
    using that by (simp add: packet_view_def b) (simp add: set_group_def pool_slot_size_def split: option.split)
qed (simp_all add: set_group_def)

lemma group_flags:
  fixes w f :: u32
  shows "((w AND - 196609) OR f) AND 0x30000 = f AND 0x30000"
proof -
  have "- 196609 = NOT (0x30000 :: u32)" by simp
  then have "((w AND - 196609) OR f) AND 0x30000 = ((w AND NOT 0x30000) OR f) AND 0x30000" by metis
  also have "\<dots> = f AND 0x30000" by (rule bit_eqI) (auto simp: bit_simps)
  finally show ?thesis .
qed

lemma way_create:
  assumes pr: "presentable e s p" and e: "\<And>x. forward_holds e x = 0" "forward_bytes e = 0" "forward_frames e = 0"
    and off: "fh_fragment_offset fh \<in> {0, 1420}"
    and log: "(fragment_key cls peer ep hdr fh, fh_packet_length fh, fh_fragment_offset fh, n, packet_bytes (fst s) p) \<in> set log"
    and c: "linkg_transport_forward_pair_create_locked cls peer ep hdr fh p n now (fst s) = (ret, e', h')"
  shows "ret = 0 \<and> 0 < forward_holds e' p \<and> way_step log key plen p n e s [] e' (h', snd s)"
proof -
  have h: "heap_ok (fst s)" "0 < drefs s p" "drefs s p < 2 ^ 32 - 1" using pr by (auto simp: presentable_def)
  have ret: "ret = 0" and h': "h' = linkg_packet_retain (Some p) (fst s)"
    and e': "fe_valid e'" "fe_packet e' = Some p" "fe_payload_length e' = n" "fe_packet_length e' = fh_packet_length fh"
      "fe_fragment_offset e' = fh_fragment_offset fh" "forward_entry_key e' = fragment_key cls peer ep hdr fh"
    using c by (auto simp: linkg_transport_forward_pair_create_locked_def Let_def forward_entry_key_def fragment_key_def)
  have "packet_view h' x = packet_view (fst s) x" for x by (simp add: h')
  then have "forward_inv log h' e'" using e' off log packet_viewD(5) [of h' p "fst s"] by (simp add: forward_inv_def)
  moreover have "forward_holds e' x = (if x = p then 1 else 0)" for x using e' by (simp add: forward_holds_def)
  moreover have "refs h' x = drefs s x + (if x = p then 1 else 0)" for x using refs_retain [OF h(3,2)] by (simp add: h')
  moreover have "heap_ok h'" using heap_ok_retain [OF h] by (simp add: h')
  moreover have "forward_bytes e' = ucast n" "forward_frames e' = 1" using e' by (simp_all add: forward_bytes_def forward_frames_def)
  ultimately show ?thesis using ret e
    by (simp add: way_step_def cache_step_def forward_pair_def forward_tally_def h')
qed

lemma way_complete:
  assumes pr: "presentable e s p" and inv: "forward_inv log (fst s) e" and v: "fe_valid e" "forward_entry_key e = key"
    and len: "fe_packet_length e = plen" and off: "fh_fragment_offset fh \<in> {0, 1420}" "fe_fragment_offset e \<noteq> fh_fragment_offset fh"
    and key: "key = fragment_key cls peer ep hdr fh"
    and log: "(key, plen, fh_fragment_offset fh, n, packet_bytes (fst s) p) \<in> set log"
    and c: "linkg_transport_forward_pair_complete_locked peer hdr p n (e, fst s) = (ret, out, e', h')"
  shows "ret = 0 \<and> out \<noteq> [] \<and> way_step log key plen p n e s out e' (h', snd s)"
proof -
  have h: "heap_ok (fst s)" "0 < drefs s p" "drefs s p < 2 ^ 32 - 1" using pr by (auto simp: presentable_def)
  obtain d where d: "fe_packet e = Some d" "fe_fragment_offset e \<in> {0, 1420}"
    "(key, plen, fe_fragment_offset e, fe_payload_length e, packet_bytes (fst s) d) \<in> set log"
    using inv v len by (auto simp: forward_inv_def)
  have hd: "forward_holds e x = (if x = d then 1 else 0)" for x using v d by (simp add: forward_holds_def)
  have "forward_holds e d \<le> drefs s d" "forward_holds e p = 0" using pr by (simp_all add: presentable_def)
  then have dp: "d \<noteq> p" "0 < drefs s d" using hd [of p] hd [of d] by (auto split: if_splits)
  define h1 where "h1 = linkg_packet_retain (Some p) (fst s)"
  have h1: "heap_ok h1" "refs h1 x = drefs s x + (if x = p then 1 else 0)" "packet_view h1 x = packet_view (fst s) x"
      "packet_bytes h1 x = packet_bytes (fst s) x" for x
    using heap_ok_retain [OF h] refs_retain [OF h(3,2)] packet_viewD(5) [of h1 x "fst s"] by (simp_all add: h1_def)
  define f t where "f = (if fe_fragment_offset e = 0 then d else p)" and "t = (if fe_fragment_offset e = 0 then p else d)"
  define item where "item q m = \<lparr>fi_packet = Some q, fi_payload_length = m,
    fi_destination_node_id = th_destination_node_id hdr, fi_peer_node_id = peer\<rparr>" for q m
  define nf nt where "nf = (if fe_fragment_offset e = 0 then fe_payload_length e else n)"
    and "nt = (if fe_fragment_offset e = 0 then n else fe_payload_length e)"
  have res: "ret = 0" "out = [item f nf, item t nt]" "e' = forward_entry_zero"
    "h' = set_group LINKG_PACKET_FLAG_TX_GROUP_LAST t (set_group LINKG_PACKET_FLAG_TX_GROUP_FIRST f h1)"
    using c d by (auto simp: linkg_transport_forward_pair_complete_locked_def Let_def h1_def f_def t_def nf_def nt_def item_def)
  have ft: "f \<noteq> t" "x \<noteq> p \<Longrightarrow> x \<noteq> d \<Longrightarrow> x \<noteq> f \<and> x \<noteq> t" for x using dp by (auto simp: f_def t_def)
  have gain: "forward_gain out x = (if x = p then 1 else 0) + (if x = d then 1 else 0)" for x
    using ft(1) dp by (auto simp: forward_gain_def res item_def f_def t_def)
  have lf: "(key, plen, 0, nf, packet_bytes (fst s) f) \<in> set log" "(key, plen, 1420, nt, packet_bytes (fst s) t) \<in> set log"
    using d(2,3) off log by (auto simp: f_def t_def nf_def nt_def)
  have "forward_pair log key plen h' out"
    unfolding forward_pair_def
    by (rule disjI2, intro exI [of _ "item f nf"] exI [of _ "item t nt"] exI [of _ f] exI [of _ t])
      (use ft lf in \<open>auto simp: res h1 item_def group_flags key fragment_key_def\<close>)
  moreover have "cache_step forward_holds drefs dok dview (\<lambda>s. forward_inv log (fst s)) p e s (forward_gain out) e' (h', snd s)"
    unfolding cache_step_def gain hd
    using h1 ft by (auto simp: res forward.zero_holds forward_inv.inv_zero [of log "(_, _)", simplified])
  moreover have "forward_tally n True (forward_bytes e) (forward_frames e) s out (forward_bytes e') (forward_frames e') (h', snd s)"
    using v d by (simp add: forward_tally_def res out_bytes_def item_def nf_def nt_def forward_bytes_def forward_frames_def forward_entry_zero_def)
  ultimately show ?thesis using res by (simp add: way_step_def)
qed

lemma way_join:
  assumes pr: "presentable e s p" and inv: "forward_inv log (fst s) e" and v: "fe_valid e" "forward_entry_key e = fragment_key cls peer ep hdr fh"
    and off: "fh_fragment_offset fh \<in> {0, 1420}"
    and log: "(fragment_key cls peer ep hdr fh, fh_packet_length fh, fh_fragment_offset fh, n, packet_bytes (fst s) p) \<in> set log"
    and j: "forward_join peer hdr fh p n (e, s) = (ret, out, e', s')"
  shows "way_step log (fragment_key cls peer ep hdr fh) (fh_packet_length fh) p n e s out e' s'"
proof (cases "fe_packet_length e = fh_packet_length fh")
  case False
  then have "out = []" "e' = forward_entry_zero" "s' = linkg_transport_forward_pair_entry_drop e s"
    using j by (auto simp: forward_join_def)
  then show ?thesis using way_drop [OF pr] by simp
next
  case len: True
  show ?thesis
  proof (cases "fe_fragment_offset e = fh_fragment_offset fh")
    case True
    then have "out = []" "e' = e" "s' = s" using j len by (auto simp: forward_join_def)
    then show ?thesis using way_stay [OF pr inv] by simp
  next
    case False
    obtain h' where c: "linkg_transport_forward_pair_complete_locked peer hdr p n (e, fst s) = (ret, out, e', h')" "s' = (h', snd s)"
      using j len False by (auto simp: forward_join_def split: prod.splits)
    show ?thesis using way_complete [OF pr inv v len off False refl log c(1)] c(2) by simp
  qed
qed

text \<open>A way given up for a new entry.\<close>

lemma way_replace:
  assumes pr: "presentable e s p" and inv: "forward_inv log (fst s) e" and off: "fh_fragment_offset fh \<in> {0, 1420}"
    and log: "(fragment_key cls peer ep hdr fh, fh_packet_length fh, fh_fragment_offset fh, n, packet_bytes (fst s) p) \<in> set log"
    and s2: "s2 = (if fe_valid e then linkg_transport_forward_pair_entry_drop e s else s)"
    and c: "linkg_transport_forward_pair_create_locked cls peer ep hdr fh p n now (fst s2) = (ret, e', h')"
  shows "ret = 0 \<and> 0 < forward_holds e' p \<and> way_step log key plen p n e s [] e' (h', snd s2)"
proof (cases "fe_valid e")
  case False
  then have "s2 = s" "\<And>x. forward_holds e x = 0" "forward_bytes e = 0" "forward_frames e = 0"
    by (simp_all add: s2 forward_holds_def forward_bytes_def forward_frames_def)
  then show ?thesis using way_create [OF pr _ _ _ off log] c by simp
next
  case True
  then have s2: "s2 = linkg_transport_forward_pair_entry_drop e s" using s2 by simp
  note d = way_drop [OF pr, of log key plen n, folded s2, unfolded way_step_def]
  have le: "forward_holds e x \<le> drefs s x" "forward_holds e p = 0" "0 < drefs s p" "drefs s p < 2 ^ 32 - 1" for x
    using pr by (auto simp: presentable_def)
  have d': "dok s2" "drefs s2 x + forward_holds e x = drefs s x" "0 < drefs s2 x \<Longrightarrow> dview s2 x = dview s x" for x
    using drop_effect [OF _ le(1) s2] pr le(1) [of x] by (auto simp: presentable_def)
  have pr2: "presentable forward_entry_zero s2 p"
    using d'(1) d'(2) [of p] le by (simp add: presentable_def forward.zero_holds)
  have vp: "dview s2 p = dview s p" using d'(3) [of p] d'(2) [of p] le by simp
  have log2: "(fragment_key cls peer ep hdr fh, fh_packet_length fh, fh_fragment_offset fh, n, packet_bytes (fst s2) p) \<in> set log"
    using log packet_viewD(5) [OF vp] by simp
  have w: "ret = 0 \<and> 0 < forward_holds e' p \<and> way_step log key plen p n forward_entry_zero s2 [] e' (h', snd s2)"
    by (rule way_create [OF pr2 _ _ _ off log2 c]) (simp_all add: forward.zero_holds bytes_tally.zero_cost frames_tally.zero_cost)
  then have st: "heap_ok h'" "forward_inv log h' e'" "refs h' x = drefs s2 x + forward_holds e' x"
    "forward_holds e' x \<le> (if x = p then 1 else 0)" "x \<noteq> p \<Longrightarrow> 0 < refs h' x \<Longrightarrow> packet_view h' x = dview s2 x" for x
    by (auto simp: way_step_def cache_step_def forward.zero_holds)
  have "refs h' x + forward_holds e x = drefs s x + forward_holds e' x" for x using st(3) [of x] d'(2) [of x] by simp
  moreover have "packet_view h' x = dview s x" if "x \<noteq> p" "0 < refs h' x" for x
    using st(3-5) [of x] d'(3) [of x] that by simp
  moreover have "forward_holds e' x \<le> forward_holds e x + (if x = p then 1 else 0)" for x using st(4) [of x] by simp
  moreover have "forward_tally n True (forward_bytes e) (forward_frames e) s [] (forward_bytes e') (forward_frames e') (h', snd s2)"
    using w d by (simp add: way_step_def forward_tally_def bytes_tally.zero_cost frames_tally.zero_cost forward.zero_holds)
  ultimately show ?thesis using w st(1,2)
    by (simp add: way_step_def cache_step_def forward_pair_def)
qed

section \<open>The whole cache\<close>

abbreviation forward_cells :: "forward_log \<Rightarrow> (nat \<Rightarrow> nat) \<Rightarrow> linkg_transport_forward_pair_entry list \<Rightarrow> drop_state \<Rightarrow> bool" where
  "forward_cells log \<equiv> cache_inv forward_holds drefs dok (\<lambda>s. forward_inv log (fst s))"

definition forward_ok :: "forward_log \<Rightarrow> (nat \<Rightarrow> nat) \<Rightarrow> linkg_transport_forward_pair_runtime \<Rightarrow> drop_state \<Rightarrow> bool" where
  "forward_ok log others rt s \<longleftrightarrow> forward_cells log others (concat (fr_entries rt)) s \<and>
     rows_shape LINKG_TRANSPORT_FORWARD_PAIR_SET_COUNT LINKG_TRANSPORT_FORWARD_PAIR_WAYS (fr_entries rt)"

lemma forward_okD:
  assumes "forward_ok log others rt s"
  shows "forward_cells log others (concat (fr_entries rt)) s"
    "rows_shape LINKG_TRANSPORT_FORWARD_PAIR_SET_COUNT LINKG_TRANSPORT_FORWARD_PAIR_WAYS (fr_entries rt)"
    "length (fr_entries rt) = LINKG_TRANSPORT_FORWARD_PAIR_SET_COUNT"
    "i < LINKG_TRANSPORT_FORWARD_PAIR_SET_COUNT \<Longrightarrow> length (fr_entries rt ! i) = LINKG_TRANSPORT_FORWARD_PAIR_WAYS"
  using assms by (auto simp: forward_ok_def rows_shape_def)

lemma forward_ok_heap: "fst s' = fst s \<Longrightarrow> forward_ok log others rt s' = forward_ok log others rt s"
  by (simp add: forward_ok_def cache_inv_def cache_balance_def)

lemma forward_ok_log: "forward_ok log others rt s \<Longrightarrow> forward_ok (x # log) others rt s"
  using forward_inv_frame [of log "fst s" _ "x # log" "fst s"] by (auto simp: forward_ok_def cache_inv_def)

abbreviation forward_offered :: "(nat \<Rightarrow> nat) \<Rightarrow> nat \<Rightarrow> linkg_transport_forward_pair_runtime \<Rightarrow> drop_state \<Rightarrow> bool" where
  "forward_offered others p rt \<equiv> cache_offered forward_holds drefs others p (concat (fr_entries rt))"

definition cached_bytes :: "linkg_transport_forward_pair_runtime \<Rightarrow> u64" where
  "cached_bytes rt = sum_list (map forward_bytes (concat (fr_entries rt)))"

definition cached_frames :: "linkg_transport_forward_pair_runtime \<Rightarrow> u64" where
  "cached_frames rt = sum_list (map forward_frames (concat (fr_entries rt)))"

abbreviation forward_held :: "linkg_transport_forward_pair_runtime \<Rightarrow> nat \<Rightarrow> nat" where
  "forward_held rt \<equiv> cache_held forward_holds (concat (fr_entries rt))"

text \<open>
  The outcome of a submission: the cache is in order, what it handed out is now the others'; the counters
  agree with what was dropped; and a pair is what was submitted.
\<close>

definition forward_facts ::
    "forward_log \<Rightarrow> (nat \<Rightarrow> nat) \<Rightarrow> fragment_key \<Rightarrow> u16 \<Rightarrow> nat \<Rightarrow> u32 \<Rightarrow> linkg_transport_forward_pair_runtime \<Rightarrow> drop_state \<Rightarrow>
     linkg_transport_forward_item list \<Rightarrow> linkg_transport_forward_pair_runtime \<Rightarrow> drop_state \<Rightarrow> bool" where
  "forward_facts log others key plen p n rt s out rt' s' \<longleftrightarrow>
     forward_ok log (\<lambda>x. others x + forward_gain out x) rt' s' \<and> forward_pair log key plen (fst s') out \<and>
     forward_tally n (out \<noteq> [] \<or> 0 < forward_held rt' p) (cached_bytes rt) (cached_frames rt) s out
       (cached_bytes rt') (cached_frames rt') s'"

lemma way_put:
  assumes ok: "forward_ok log others rt s" and p: "forward_offered others p rt s"
    and i: "i < LINKG_TRANSPORT_FORWARD_PAIR_SET_COUNT" "w < LINKG_TRANSPORT_FORWARD_PAIR_WAYS"
    and st: "way_step log key plen p n (fr_entries rt ! i ! w) s out e' s'"
  shows "forward_facts log others key plen p n rt s out (rt\<lparr>fr_entries := (fr_entries rt)[i := (fr_entries rt ! i)[w := e']]\<rparr>) s'"
proof -
  let ?rows = "fr_entries rt" and ?rt' = "rt\<lparr>fr_entries := (fr_entries rt)[i := (fr_entries rt ! i)[w := e']]\<rparr>"
  have p0: "forward_held rt p = 0" using p by (simp add: cache_offered_def)
  have il: "i < length ?rows" "w < length (?rows ! i)" using forward_okD(3,4) [OF ok] i by simp_all
  have s: "cache_step forward_holds drefs dok dview (\<lambda>s. forward_inv log (fst s)) p (?rows ! i ! w) s (forward_gain out) e' s'"
    using st by (simp add: way_step_def)
  have ok': "forward_ok log (\<lambda>x. others x + forward_gain out x) ?rt' s'"
    using forward_inv.rows_step [OF forward_okD(1,2) [OF ok] i p0 s] by (simp add: forward_ok_def)
  have held: "forward_held ?rt' p = forward_holds e' p"
  proof -
    obtain xs ys where c: "concat ?rows = xs @ (?rows ! i ! w) # ys"
      "\<And>e. concat (?rows[i := (?rows ! i)[w := e]]) = xs @ e # ys" using concat_split [OF il] by blast
    then show ?thesis using p0 by simp
  qed
  have "cached_bytes ?rt' + forward_bytes (?rows ! i ! w) = cached_bytes rt + forward_bytes e'"
    "cached_frames ?rt' + forward_frames (?rows ! i ! w) = cached_frames rt + forward_frames e'"
    using bytes_tally.worth_way [OF il] frames_tally.worth_way [OF il] by (simp_all add: cached_bytes_def cached_frames_def)
  then have tally: "forward_tally n t (forward_bytes (?rows ! i ! w)) (forward_frames (?rows ! i ! w)) s out (forward_bytes e') (forward_frames e') s' \<Longrightarrow>
    forward_tally n t (cached_bytes rt) (cached_frames rt) s out (cached_bytes ?rt') (cached_frames ?rt') s'" for t
    unfolding forward_tally_def by (blast intro: tally_add)
  have "forward_pair log key plen (fst s') out" using st by (simp add: way_step_def)
  moreover have "forward_tally n (out \<noteq> [] \<or> 0 < forward_held ?rt' p) (cached_bytes rt) (cached_frames rt) s out
      (cached_bytes ?rt') (cached_frames ?rt') s'"
    unfolding held by (rule tally) (use st in \<open>simp only: way_step_def\<close>)
  ultimately show ?thesis unfolding forward_facts_def using ok' by (intro conjI)
qed

lemma forward_after_scan:
  assumes ok: "forward_ok log others rt s" and p: "forward_offered others p rt s" and i: "i < LINKG_TRANSPORT_FORWARD_PAIR_SET_COUNT"
    and sc: "way_scan (forward_ways cls peer ep hdr fh now) 0 (fr_entries rt ! i) None None s = (found, fr, old, row, s1)"
    and rt1: "rt1 = rt\<lparr>fr_entries := (fr_entries rt)[i := row]\<rparr>"
  shows "forward_ok log others rt1 s1 \<and> forward_offered others p rt1 s1 \<and> dview s1 p = dview s p \<and> fr_entries rt1 ! i = row \<and>
    length row = LINKG_TRANSPORT_FORWARD_PAIR_WAYS \<and>
    (forward_facts log others key plen p n rt1 s1 out rt' s' \<longrightarrow> forward_facts log others key plen p n rt s out rt' s')"
proof -
  have ops: "wo_drop (forward_ways cls peer ep hdr fh now) = linkg_transport_forward_pair_entry_drop"
    "wo_zero (forward_ways cls peer ep hdr fh now) = forward_entry_zero" by (simp_all add: forward_ways_def)
  note c = forward_okD(1,2) [OF ok]
  have il: "i < length (fr_entries rt)" using forward_okD(3) [OF ok] i by simp
  have "fst (snd s1) + cached_bytes rt1 = fst (snd s) + cached_bytes rt" "snd (snd s1) + cached_frames rt1 = snd (snd s) + cached_frames rt"
    using tally_add [OF bytes_tally.worth_row [OF il, of row], of _ 0 _ 0] bytes_tally.scan_tally [OF sc ops]
      tally_add [OF frames_tally.worth_row [OF il, of row], of _ 0 _ 0] frames_tally.scan_tally [OF sc ops]
    by (simp_all add: rt1 cached_bytes_def cached_frames_def)
  then have "forward_tally n b (cached_bytes rt1) (cached_frames rt1) s1 out b' f' s' = forward_tally n b (cached_bytes rt) (cached_frames rt) s out b' f' s'" for b b' f'
    by (simp add: forward_tally_def)
  moreover have "fr_entries rt1 ! i = row" using il by (simp add: rt1)
  moreover have "length row = LINKG_TRANSPORT_FORWARD_PAIR_WAYS" using way_scan_length [OF sc] forward_okD(4) [OF ok i] by simp
  ultimately show ?thesis
    using forward_inv.rows_scan [OF c i sc ops] forward_inv.offered_scan [OF c i sc ops p]
    by (simp add: rt1 forward_ok_def forward_facts_def)
qed

lemma submit_locked_facts:
  assumes ok: "forward_ok log others rt s" and p: "forward_offered others p rt s" and off: "fh_fragment_offset fh \<in> {0, 1420}"
    and f: "(fragment_key cls peer ep hdr fh, fh_packet_length fh, fh_fragment_offset fh, n, packet_bytes (fst s) p) \<in> set log"
    and sub: "linkg_transport_forward_pair_submit_locked cls peer ep hdr fh p n now rt s = (ret, out, rt', s')"
  shows "forward_facts log others (fragment_key cls peer ep hdr fh) (fh_packet_length fh) p n rt s out rt' s'"
proof -
  define i where "i = linkg_transport_forward_pair_set cls peer ep hdr (fh_packet_id fh)"
  have i: "i < LINKG_TRANSPORT_FORWARD_PAIR_SET_COUNT" unfolding i_def by (rule forward_set_less)
  obtain found fr old row s1 where sc:
    "way_scan (forward_ways cls peer ep hdr fh now) 0 (fr_entries rt ! i) None None s = (found, fr, old, row, s1)"
    by (metis prod_cases5)
  define rt1 where "rt1 = rt\<lparr>fr_entries := (fr_entries rt)[i := row]\<rparr>"
  note a = forward_after_scan [OF ok p i sc rt1_def]
  have ok1: "forward_ok log others rt1 s1" "forward_offered others p rt1 s1" "fr_entries rt1 ! i = row" "dview s1 p = dview s p"
    "length row = LINKG_TRANSPORT_FORWARD_PAIR_WAYS" using a by auto
  have f1: "(fragment_key cls peer ep hdr fh, fh_packet_length fh, fh_fragment_offset fh, n, packet_bytes (fst s1) p) \<in> set log"
    using f packet_viewD(5) [OF ok1(4)] by simp
  have ow: "presentable (row ! w) s1 p \<and> forward_inv log (fst s1) (row ! w)" if "w < LINKG_TRANSPORT_FORWARD_PAIR_WAYS" for w
    using forward_inv.offered_facts [OF forward_okD(1) [OF ok1(1)] ok1(2) rows_mem [OF forward_okD(2) [OF ok1(1)] i that]] ok1(3)
    by (simp add: presentable_def)
  have fin: ?thesis
    if "w < LINKG_TRANSPORT_FORWARD_PAIR_WAYS" "rt' = rt\<lparr>fr_entries := (fr_entries rt)[i := row[w := e']]\<rparr>"
      "way_step log (fragment_key cls peer ep hdr fh) (fh_packet_length fh) p n (row ! w) s1 out e' s'" for w e'
  proof -
    have "rt' = rt1\<lparr>fr_entries := (fr_entries rt1)[i := (fr_entries rt1 ! i)[w := e']]\<rparr>"
      using that(2) ok1(3) by (simp add: rt1_def)
    then show ?thesis using a way_put [OF ok1(1,2) i that(1)] that(3) ok1(3) by metis
  qed
  show ?thesis
  proof (cases found)
    case (Some w)
    have m: "w < length row" "fe_valid (row ! w)" "forward_entry_key (row ! w) = fragment_key cls peer ep hdr fh"
      using way_scan_found [OF sc [unfolded Some]] by (auto simp: forward_ways_def forward_match_key)
    obtain e' where j: "forward_join peer hdr fh p n (row ! w, s1) = (ret, out, e', s')"
      and rt': "rt' = rt\<lparr>fr_entries := (fr_entries rt)[i := row[w := e']]\<rparr>"
      using sub sc Some
      by (auto simp: linkg_transport_forward_pair_submit_locked_def Let_def simp flip: i_def split: prod.splits)
    have w: "w < LINKG_TRANSPORT_FORWARD_PAIR_WAYS" using m ok1(5) by simp
    show ?thesis using fin [OF w rt'] way_join [OF _ _ m(2,3) off f1 j] ow [OF w] by blast
  next
    case None
    have "fr_entries rt ! i \<noteq> []" using forward_okD(4) [OF ok i] by auto
    then obtain w where w: "(case fr of Some w \<Rightarrow> Some w | None \<Rightarrow> map_option fst old) = Some w" "w < length row"
      using way_scan_room [OF sc [unfolded None]] by blast
    define s2 where "s2 = (if fe_valid (row ! w) then linkg_transport_forward_pair_entry_drop (row ! w) s1 else s1)"
    obtain e' h' where c: "linkg_transport_forward_pair_create_locked cls peer ep hdr fh p n now (fst s2) = (ret, e', h')"
      and rt': "rt' = rt\<lparr>fr_entries := (fr_entries rt)[i := row[w := e']]\<rparr>" and o: "out = []" "s' = (h', snd s2)"
      using sub sc None w(1)
      by (auto simp: linkg_transport_forward_pair_submit_locked_def Let_def s2_def simp flip: i_def split: prod.splits)
    have w2: "w < LINKG_TRANSPORT_FORWARD_PAIR_WAYS" using w ok1(5) by simp
    show ?thesis using fin [OF w2 rt'] way_replace [OF _ _ off f1 s2_def c] ow [OF w2] o by blast
  qed
qed

section \<open>Sweeps and whole operations\<close>

definition swept_facts ::
    "forward_log \<Rightarrow> (nat \<Rightarrow> nat) \<Rightarrow> linkg_transport_forward_pair_runtime \<Rightarrow> drop_state \<Rightarrow>
     linkg_transport_forward_pair_runtime \<Rightarrow> drop_state \<Rightarrow> bool" where
  "swept_facts log others rt s rt' s' \<longleftrightarrow> forward_ok log others rt' s' \<and>
     (\<forall>p. forward_offered others p rt s \<longrightarrow> forward_offered others p rt' s' \<and> dview s' p = dview s p) \<and>
     fst (snd s') + cached_bytes rt' = fst (snd s) + cached_bytes rt \<and>
     snd (snd s') + cached_frames rt' = snd (snd s) + cached_frames rt"

lemma sweep_facts:
  assumes ok: "forward_ok log others rt s"
    and sw: "set_sweep P linkg_transport_forward_pair_entry_drop forward_entry_zero (fr_entries rt) s = (rows, s')"
    and rt': "fr_entries rt' = rows"
  shows "swept_facts log others rt s rt' s'"
proof -
  note r = forward_inv.rows_sweep [OF forward_okD(1) [OF ok] sw]
  have ok': "forward_ok log others rt' s'" using r forward_okD(2) [OF ok] by (simp add: forward_ok_def rt')
  have "forward_offered others p rt' s' \<and> dview s' p = dview s p" if "forward_offered others p rt s" for p
    by (rule forward_inv.offered_swept [OF forward_okD(1) [OF ok] forward_okD(1) [OF ok'] _ _ that]) (use r in \<open>auto simp: rt'\<close>)
  then show ?thesis using ok' bytes_tally.set_sweep_tally [OF sw] frames_tally.set_sweep_tally [OF sw]
    by (simp add: swept_facts_def cached_bytes_def cached_frames_def rt')
qed

lemma gc_facts:
  assumes ok: "forward_ok log others rt s" and gc: "linkg_transport_forward_pair_gc_locked now rt s = (rt', s')"
  shows "swept_facts log others rt s rt' s'"
proof (cases "fr_last_gc_us rt \<noteq> 0 \<and> now - fr_last_gc_us rt < LINKG_TRANSPORT_FORWARD_PAIR_GC_INTERVAL_US")
  case True
  then have "rt' = rt" "s' = s" using gc by (auto simp: linkg_transport_forward_pair_gc_locked_def)
  then show ?thesis using ok by (simp add: swept_facts_def)
next
  case False
  obtain rows s1 where sw: "set_sweep (linkg_transport_forward_pair_expired now) linkg_transport_forward_pair_entry_drop
      forward_entry_zero (fr_entries rt) s = (rows, s1)" by (metis surj_pair)
  then have "rt' = rt\<lparr>fr_entries := rows, fr_last_gc_us := now\<rparr>" "s' = s1"
    using gc False by (auto simp: linkg_transport_forward_pair_gc_locked_def)
  then show ?thesis using sweep_facts [OF ok sw] by simp
qed

lemma gc_keeps: "linkg_transport_forward_pair_gc_locked now rt s = (rt', s') \<Longrightarrow> fr_lock rt' = fr_lock rt \<and> fr_initialized rt' = fr_initialized rt"
  by (auto simp: linkg_transport_forward_pair_gc_locked_def Let_def split: if_splits prod.splits)

lemma submit_locked_keeps:
  "linkg_transport_forward_pair_submit_locked cls peer ep hdr fh p n now rt s = (ret, out, rt', s') \<Longrightarrow>
   fr_lock rt' = fr_lock rt \<and> fr_initialized rt' = fr_initialized rt"
  by (auto simp: linkg_transport_forward_pair_submit_locked_def Let_def split: prod.splits option.splits)

text \<open>Counters, cache and output against what the statistics of the context say.\<close>

definition stats_tally ::
    "u32 \<Rightarrow> bool \<Rightarrow> linkg_transport_forward_pair_runtime \<Rightarrow> linkg_transport_context \<Rightarrow> linkg_transport_forward_item list \<Rightarrow>
     linkg_transport_forward_pair_runtime \<Rightarrow> linkg_transport_context \<Rightarrow> bool" where
  "stats_tally n taken rt c out rt' c' \<longleftrightarrow>
     gs_forward_incomplete_bytes (tc_stats c') + cached_bytes rt' + out_bytes out =
       gs_forward_incomplete_bytes (tc_stats c) + cached_bytes rt + (if taken then ucast n else 0) \<and>
     gs_forward_incomplete_frames (tc_stats c') + cached_frames rt' + of_nat (length out) =
       gs_forward_incomplete_frames (tc_stats c) + cached_frames rt + (if taken then 1 else 0)"

lemma forward_record_stats:
  "gs_forward_incomplete_bytes (tc_stats (linkg_transport_forward_record_incomplete b f c)) = gs_forward_incomplete_bytes (tc_stats c) + b"
  "gs_forward_incomplete_frames (tc_stats (linkg_transport_forward_record_incomplete b f c)) = gs_forward_incomplete_frames (tc_stats c) + f"
  "gs_forward_incomplete_bytes (tc_stats (linkg_transport_forward_record_reset b f c)) = gs_forward_incomplete_bytes (tc_stats c) + b"
  "gs_forward_incomplete_frames (tc_stats (linkg_transport_forward_record_reset b f c)) = gs_forward_incomplete_frames (tc_stats c) + f"
  by (simp_all add: linkg_transport_forward_record_incomplete_def linkg_transport_forward_record_reset_def)

lemma forward_submit_facts:
  assumes ok: "forward_ok log others rt (h, 0, 0)" and p: "forward_offered others p rt (h, 0, 0)" and off: "fh_fragment_offset fh \<in> {0, 1420}"
    and f: "(fragment_key cls peer ep hdr fh, fh_packet_length fh, fh_fragment_offset fh, n, packet_bytes h p) \<in> set log"
    and sub: "linkg_transport_forward_pair_submit pr ep cls peer (Some hdr) (Some fh) (Some p) n now rt c h = (ret, out, rt', c', h')"
  shows "forward_ok log (\<lambda>x. others x + forward_gain out x) rt' (h', 0, 0) \<and>
    forward_pair log (fragment_key cls peer ep hdr fh) (fh_packet_length fh) h' out \<and>
    stats_tally n (out \<noteq> [] \<or> 0 < forward_held rt' p) rt c out rt' c' \<and>
    fr_lock rt' = fr_lock rt \<and> fr_initialized rt' = fr_initialized rt"
proof (cases "out = [] \<and> rt' = rt \<and> c' = c \<and> h' = h")
  case True
  have "forward_held rt p = 0" using p by (simp add: cache_offered_def)
  then show ?thesis using True ok by (simp add: forward_pair_def stats_tally_def)
next
  case False
  obtain rt1 s1 where gc: "linkg_transport_forward_pair_gc_locked now rt (h, 0, 0) = (rt1, s1)" by (metis surj_pair)
  obtain r2 out2 rt2 h2 b2 f2 where s2: "linkg_transport_forward_pair_submit_locked cls peer ep hdr fh p n now rt1 s1 = (r2, out2, rt2, h2, b2, f2)"
    by (metis prod_cases6)
  have res: "out = out2" "rt' = rt2" "h' = h2" "c' = linkg_transport_forward_record_incomplete b2 f2 c"
    using sub False gc s2
    by (simp_all add: linkg_transport_forward_pair_submit_def Let_def split: if_splits)
  note g = gc_facts [OF ok gc, unfolded swept_facts_def]
  have ok1: "forward_ok log others rt1 s1" "forward_offered others p rt1 s1" "dview s1 p = packet_view h p"
    "fst (snd s1) + cached_bytes rt1 = cached_bytes rt" "snd (snd s1) + cached_frames rt1 = cached_frames rt"
    using g p by auto
  have f1: "(fragment_key cls peer ep hdr fh, fh_packet_length fh, fh_fragment_offset fh, n, packet_bytes (fst s1) p) \<in> set log"
    using f packet_viewD(5) [OF ok1(3)] by simp
  note sf = submit_locked_facts [OF ok1(1,2) off f1 s2, unfolded forward_facts_def forward_tally_def fst_conv snd_conv]
  have "gs_forward_incomplete_bytes (tc_stats c') + cached_bytes rt2 + out_bytes out2 =
      gs_forward_incomplete_bytes (tc_stats c) + (b2 + cached_bytes rt2 + out_bytes out2)"
    "gs_forward_incomplete_frames (tc_stats c') + cached_frames rt2 + of_nat (length out2) =
      gs_forward_incomplete_frames (tc_stats c) + (f2 + cached_frames rt2 + of_nat (length out2))"
    by (simp_all add: res forward_record_stats)
  then have "stats_tally n (out \<noteq> [] \<or> 0 < forward_held rt' p) rt c out rt' c'"
    unfolding stats_tally_def res(1,2) using sf ok1(4,5) by (simp add: add.assoc)
  moreover have "forward_ok log (\<lambda>x. others x + forward_gain out x) rt' (h', 0, 0)"
    using sf forward_ok_heap [of "(h2, b2, f2)" "(h', 0, 0)"] by (simp add: res)
  ultimately show ?thesis using sf gc_keeps [OF gc] submit_locked_keeps [OF s2] by (simp add: res)
qed

lemma reset_peer_facts:
  assumes ok: "forward_ok log others rt (h, 0, 0)" and m: "mutex_ok (fr_lock rt)"
    and r: "linkg_transport_forward_pair_reset_peer n rt c h = (ret, rt', c', h')"
  shows "forward_ok log others rt' (h', 0, 0) \<and> stats_tally 0 False rt c [] rt' c' \<and> fr_lock rt' = fr_lock rt"
proof -
  obtain rows h1 b f where sw: "set_sweep (\<lambda>entry. fe_valid entry \<and> fe_peer_node_id entry = n)
      linkg_transport_forward_pair_entry_drop forward_entry_zero (fr_entries rt) (h, 0, 0) = (rows, h1, b, f)" by (rule prod_cases4)
  show ?thesis
  proof (cases "linkg_transport_forward_peer_valid n \<and> fr_initialized rt")
    case True
    then have e: "rt' = rt\<lparr>fr_entries := rows\<rparr>" "c' = linkg_transport_forward_record_reset b f c" "h' = h1"
      using r m by (simp_all add: linkg_transport_forward_pair_reset_peer_def Let_def sw)
    have s: "forward_ok log others rt' (h1, b, f)" "b + cached_bytes rt' = cached_bytes rt" "f + cached_frames rt' = cached_frames rt"
      using sweep_facts [OF ok sw, of rt'] e(1) by (simp_all add: swept_facts_def)
    have "stats_tally 0 False rt c [] rt' c'" unfolding stats_tally_def e(2) forward_record_stats s(2,3) [symmetric] by (simp add: add.assoc)
    then show ?thesis using forward_ok_heap [of "(h1, b, f)" "(h', 0, 0)"] s(1) e by simp
  next
    case False
    then have "rt' = rt" "c' = c" "h' = h" using r by (auto simp: linkg_transport_forward_pair_reset_peer_def split: if_splits)
    then show ?thesis by (simp add: ok stats_tally_def)
  qed
qed

lemma deinit_facts:
  assumes ok: "forward_ok log others rt (h, 0, 0)" and m: "mutex_ok (fr_lock rt)"
    and r: "linkg_transport_forward_pair_runtime_deinit rt c h = (ret, rt', c', h')"
  shows "forward_ok log others rt' (h', 0, 0) \<and> stats_tally 0 False rt c [] rt' c' \<and> mutex_ok (fr_lock rt') \<and>
    (fr_initialized rt \<longrightarrow> refs h' = others)"
proof (cases "fr_initialized rt")
  case True
  obtain rows h1 b f where sw: "set_sweep fe_valid linkg_transport_forward_pair_entry_drop forward_entry_zero
      (fr_entries rt) (h, 0, 0) = (rows, h1, b, f)" by (metis prod_cases4)
  have e: "rt' = forward_pairs_zero" "c' = linkg_transport_forward_record_incomplete b f c" "h' = h1"
    using r m True by (auto simp: linkg_transport_forward_pair_runtime_deinit_def Let_def sw split: if_splits)
  note s = sweep_facts [OF ok sw, of "rt\<lparr>fr_entries := rows\<rparr>", unfolded swept_facts_def]
  have rows: "rows = map (map (\<lambda>e. if fe_valid e then forward_entry_zero else e)) (fr_entries rt)"
    using set_sweep_entries [of fe_valid linkg_transport_forward_pair_entry_drop forward_entry_zero "fr_entries rt" "(h, 0, 0)"] sw by simp
  have nv: "\<not> fe_valid x" if "x \<in> set (concat rows)" for x using that by (auto simp: rows forward_entry_zero_def)
  have z: "cache_held forward_holds (concat rows) x = 0" "sum_list (map forward_bytes (concat rows)) = 0"
      "sum_list (map forward_frames (concat rows)) = 0" for x
    unfolding cache_held_def
    by (rule sum_list_zero, use nv in \<open>simp add: forward_holds_def forward_bytes_def forward_frames_def\<close>)+
  have z2: "forward_held forward_pairs_zero x = 0" "cached_bytes forward_pairs_zero = 0" "cached_frames forward_pairs_zero = 0" for x
    unfolding cache_held_def cached_bytes_def cached_frames_def
    by (rule sum_list_zero, auto simp: forward_pairs_zero_def forward_holds_def forward_bytes_def forward_frames_def forward_entry_zero_def)+
  have "refs h1 x = others x" for x using s z(1) by (simp add: forward_ok_def cache_inv_def cache_balance_def)
  moreover have "forward_ok log others forward_pairs_zero (h1, 0, 0)"
    using s z2(1) calculation
    by (auto simp: forward_ok_def cache_inv_def cache_balance_def rows_shape_def forward_pairs_zero_def forward_inv_def forward_entry_zero_def)
  moreover have "stats_tally 0 False rt c [] forward_pairs_zero c'"
    using s z z2 by (simp add: stats_tally_def e forward_record_stats cached_bytes_def cached_frames_def)
  ultimately show ?thesis by (auto simp: e forward_pairs_zero_def)
next
  case False
  then show ?thesis using r ok m by (auto simp: linkg_transport_forward_pair_runtime_deinit_def stats_tally_def)
qed

section \<open>Histories of the cache\<close>

text \<open>What leaves with a pair: per frame the payload length, its bytes and its group flags at that moment.\<close>

type_synonym forward_delivery = "fragment_key \<times> u16 \<times> (u32 \<times> u8 list \<times> u32) list"

definition forward_deliver :: "heap \<Rightarrow> linkg_transport_forward_item list \<Rightarrow> (u32 \<times> u8 list \<times> u32) list" where
  "forward_deliver h out = map (\<lambda>i. (fi_payload_length i, packet_bytes h (the (fi_packet i)),
     pk_flags (pk_at h (the (fi_packet i))) AND LINKG_PACKET_FLAG_TX_GROUP_MASK)) out"

text \<open>
  The cache, the heap, the context, the references of everybody else, the fragments submitted, the pairs
  handed on and the payload lengths of the fragments the cache took.
\<close>

type_synonym forward_state =
  "linkg_transport_forward_pair_runtime \<times> heap \<times> linkg_transport_context \<times> (nat \<Rightarrow> nat) \<times> forward_log \<times>
   forward_delivery list \<times> u32 list"

text \<open>
  A fragment is submitted with an offset that \<open>linkg_transport_wire_fragment_decode\<close> lets through. Between two
  operations the rest of the program may do anything to the packets it holds and to the context, but for
  the packets the cache holds and the two counters.
\<close>

inductive forward_step :: "forward_state \<Rightarrow> forward_state \<Rightarrow> bool" where
  submit: "forward_offered others p rt (h, 0, 0) \<Longrightarrow> fh_fragment_offset fh \<in> {0, 1420} \<Longrightarrow>
    linkg_transport_forward_pair_submit pr ep cls peer (Some hdr) (Some fh) (Some p) n now rt c h = (ret, out, rt', c', h') \<Longrightarrow>
    forward_step (rt, h, c, others, log, pairs, taken)
      (rt', h', c', \<lambda>x. others x + forward_gain out x,
       (fragment_key cls peer ep hdr fh, fh_packet_length fh, fh_fragment_offset fh, n, packet_bytes h p) # log,
       (if out = [] then pairs else (fragment_key cls peer ep hdr fh, fh_packet_length fh, forward_deliver h' out) # pairs),
       (if out \<noteq> [] \<or> 0 < forward_held rt' p then n # taken else taken))"
| reset_peer: "linkg_transport_forward_pair_reset_peer n rt c h = (ret, rt', c', h') \<Longrightarrow>
    forward_step (rt, h, c, others, log, pairs, taken) (rt', h', c', others, log, pairs, taken)"
| deinit: "linkg_transport_forward_pair_runtime_deinit rt c h = (ret, rt', c', h') \<Longrightarrow>
    forward_step (rt, h, c, others, log, pairs, taken) (rt', h', c', others, log, pairs, taken)"
| world: "heap_ok h' \<Longrightarrow> cache_balance forward_holds refs others' h' (concat (fr_entries rt)) \<Longrightarrow>
    (\<And>p. 0 < forward_held rt p \<Longrightarrow> packet_view h' p = packet_view h p) \<Longrightarrow>
    gs_forward_incomplete_bytes (tc_stats c') = gs_forward_incomplete_bytes (tc_stats c) \<Longrightarrow>
    gs_forward_incomplete_frames (tc_stats c') = gs_forward_incomplete_frames (tc_stats c) \<Longrightarrow>
    forward_step (rt, h, c, others, log, pairs, taken) (rt, h', c', others', log, pairs, taken)"

text \<open>A history starts with an initialised cache and cleared counters; the mutex works.\<close>

inductive forward_reach :: "forward_state \<Rightarrow> bool" where
  start: "heap_ok h \<Longrightarrow> mutex_ok lock \<Longrightarrow> linkg_transport_forward_pair_runtime_init 0 lock forward_pairs_zero = (0, rt) \<Longrightarrow>
    gs_forward_incomplete_bytes (tc_stats c) = 0 \<Longrightarrow> gs_forward_incomplete_frames (tc_stats c) = 0 \<Longrightarrow>
    forward_reach (rt, h, c, refs h, [], [], [])"
| step: "forward_reach s \<Longrightarrow> forward_step s s' \<Longrightarrow> forward_reach s'"

definition forward_genuine_pair :: "forward_log \<Rightarrow> forward_delivery \<Rightarrow> bool" where
  "forward_genuine_pair log d = (case d of (key, plen, frames) \<Rightarrow>
     \<exists>n0 A n1 B. frames = [(n0, A, LINKG_PACKET_FLAG_TX_GROUP_FIRST), (n1, B, LINKG_PACKET_FLAG_TX_GROUP_LAST)] \<and>
       (key, plen, 0, n0, A) \<in> set log \<and> (key, plen, 1420, n1, B) \<in> set log)"

definition delivered_bytes :: "forward_delivery list \<Rightarrow> u64" where
  "delivered_bytes pairs = sum_list (map (\<lambda>(key, plen, frames). sum_list (map (\<lambda>f. ucast (fst f)) frames)) pairs)"

definition delivered_frames :: "forward_delivery list \<Rightarrow> u64" where
  "delivered_frames pairs = sum_list (map (\<lambda>(key, plen, frames). of_nat (length frames)) pairs)"

definition taken_bytes :: "u32 list \<Rightarrow> u64" where
  "taken_bytes taken = sum_list (map ucast taken)"

definition forward_history_inv :: "forward_state \<Rightarrow> bool" where
  "forward_history_inv = (\<lambda>(rt, h, c, others, log, pairs, taken).
     forward_ok log others rt (h, 0, 0) \<and> mutex_ok (fr_lock rt) \<and> (\<forall>d\<in>set pairs. forward_genuine_pair log d) \<and>
     gs_forward_incomplete_bytes (tc_stats c) + cached_bytes rt + delivered_bytes pairs = taken_bytes taken \<and>
     gs_forward_incomplete_frames (tc_stats c) + cached_frames rt + delivered_frames pairs = of_nat (length taken))"

lemma forward_genuine_mono: "forward_genuine_pair log d \<Longrightarrow> forward_genuine_pair (x # log) d"
  by (auto simp: forward_genuine_pair_def split: prod.splits)

lemma forward_pair_genuine:
  "forward_pair log key plen h out \<Longrightarrow> out \<noteq> [] \<Longrightarrow> forward_genuine_pair log (key, plen, forward_deliver h out)"
  by (auto simp: forward_pair_def forward_genuine_pair_def forward_deliver_def)

lemma deliver_tally:
  "sum_list (map (\<lambda>f. ucast (fst f)) (forward_deliver h out)) = out_bytes out" "length (forward_deliver h out) = length out"
  by (simp_all add: forward_deliver_def out_bytes_def comp_def)

text \<open>The books are kept through a step of the tally.\<close>

lemma history_tally:
  fixes b :: u64
  assumes "b' + k' + o1 = b + k + t" "b + k + d = tk" shows "b' + k' + (o1 + d) = t + tk"
proof -
  have "b' + k' + (o1 + d) = (b' + k' + o1) + d" by (simp add: add.assoc)
  also have "\<dots> = (b + k + d) + t" unfolding assms(1) by (simp add: ac_simps)
  finally show ?thesis unfolding assms(2) by (simp add: add.commute)
qed

lemma forward_step_inv: "forward_step s s' \<Longrightarrow> forward_history_inv s \<Longrightarrow> forward_history_inv s'"
proof (induction rule: forward_step.induct)
  case (submit others p rt h fh pr ep cls peer hdr n now c ret out rt' c' h' log pairs taken)
  let ?f = "(fragment_key cls peer ep hdr fh, fh_packet_length fh, fh_fragment_offset fh, n, packet_bytes h p)"
  have inv: "forward_ok log others rt (h, 0, 0)" "mutex_ok (fr_lock rt)" "\<forall>d\<in>set pairs. forward_genuine_pair log d"
    "gs_forward_incomplete_bytes (tc_stats c) + cached_bytes rt + delivered_bytes pairs = taken_bytes taken"
    "gs_forward_incomplete_frames (tc_stats c) + cached_frames rt + delivered_frames pairs = of_nat (length taken)"
    using submit.prems by (auto simp: forward_history_inv_def)
  have sf: "forward_ok (?f # log) (\<lambda>x. others x + forward_gain out x) rt' (h', 0, 0) \<and>
    forward_pair (?f # log) (fragment_key cls peer ep hdr fh) (fh_packet_length fh) h' out \<and>
    stats_tally n (out \<noteq> [] \<or> 0 < forward_held rt' p) rt c out rt' c' \<and>
    fr_lock rt' = fr_lock rt \<and> fr_initialized rt' = fr_initialized rt"
    by (rule forward_submit_facts [OF forward_ok_log [OF inv(1)] submit.hyps(1,2) _ submit.hyps(3)]) simp
  define pairs' where "pairs' = (if out = [] then pairs else (fragment_key cls peer ep hdr fh, fh_packet_length fh, forward_deliver h' out) # pairs)"
  define taken' where "taken' = (if out \<noteq> [] \<or> 0 < forward_held rt' p then n # taken else taken)"
  have d: "delivered_bytes pairs' = out_bytes out + delivered_bytes pairs" "delivered_frames pairs' = of_nat (length out) + delivered_frames pairs"
    by (simp_all add: pairs'_def delivered_bytes_def delivered_frames_def deliver_tally)
  have t: "taken_bytes taken' = (if out \<noteq> [] \<or> 0 < forward_held rt' p then ucast n else 0) + taken_bytes taken"
    "of_nat (length taken') = (if out \<noteq> [] \<or> 0 < forward_held rt' p then 1 else 0) + (of_nat (length taken) :: u64)"
    by (simp_all add: taken'_def taken_bytes_def)
  have "gs_forward_incomplete_bytes (tc_stats c') + cached_bytes rt' + delivered_bytes pairs' = taken_bytes taken'"
    "gs_forward_incomplete_frames (tc_stats c') + cached_frames rt' + delivered_frames pairs' = of_nat (length taken')"
    unfolding d t using history_tally [OF _ inv(4)] history_tally [OF _ inv(5)] sf unfolding stats_tally_def by blast+
  moreover have "\<forall>d\<in>set pairs'. forward_genuine_pair (?f # log) d"
    using inv(3) forward_genuine_mono forward_pair_genuine sf by (auto simp: pairs'_def)
  ultimately show ?case using sf inv(2)
    unfolding forward_history_inv_def by (simp only: prod.case simp_thms flip: pairs'_def taken'_def)
next
  case (reset_peer n rt c h ret rt' c' h' others log pairs taken)
  then have inv: "forward_ok log others rt (h, 0, 0)" "mutex_ok (fr_lock rt)" by (auto simp: forward_history_inv_def)
  from reset_peer_facts [OF this reset_peer.hyps] reset_peer.prems show ?case
    by (simp add: forward_history_inv_def stats_tally_def)
next
  case (deinit rt c h ret rt' c' h' others log pairs taken)
  then have inv: "forward_ok log others rt (h, 0, 0)" "mutex_ok (fr_lock rt)" by (auto simp: forward_history_inv_def)
  from deinit_facts [OF this deinit.hyps] deinit.prems show ?case
    by (simp add: forward_history_inv_def stats_tally_def)
next
  case (world h' others' rt h c' c others log pairs taken)
  then have ok: "forward_ok log others rt (h, 0, 0)" by (simp add: forward_history_inv_def)
  have "forward_cells log others' (concat (fr_entries rt)) (h', 0, 0)"
    by (rule forward_inv.cells_world [OF forward_okD(1) [OF ok]]) (use world.hyps in \<open>simp_all add: cache_balance_def\<close>)
  then have "forward_ok log others' rt (h', 0, 0)" using forward_okD(2) [OF ok] by (simp add: forward_ok_def)
  then show ?case using world by (simp add: forward_history_inv_def)
qed

lemma forward_zero_facts:
  "forward_held (forward_pairs_zero\<lparr>fr_lock := l, fr_initialized := b\<rparr>) x = 0"
  "cached_bytes (forward_pairs_zero\<lparr>fr_lock := l, fr_initialized := b\<rparr>) = 0"
  "cached_frames (forward_pairs_zero\<lparr>fr_lock := l, fr_initialized := b\<rparr>) = 0"
  unfolding cache_held_def cached_bytes_def cached_frames_def
  by (rule sum_list_zero, auto simp: forward_pairs_zero_def forward_holds_def forward_bytes_def forward_frames_def forward_entry_zero_def)+

lemma forward_zero_ok: "heap_ok h \<Longrightarrow> forward_ok log (refs h) (forward_pairs_zero\<lparr>fr_lock := l, fr_initialized := b\<rparr>) (h, 0, 0)"
  using forward_zero_facts(1) [where l = l and b = b]
  by (auto simp: forward_ok_def cache_inv_def cache_balance_def rows_shape_def forward_pairs_zero_def forward_inv_def forward_entry_zero_def)

lemma forward_reach_inv: "forward_reach s \<Longrightarrow> forward_history_inv s"
proof (induction rule: forward_reach.induct)
  case (start h lock rt c)
  then have rt: "rt = forward_pairs_zero\<lparr>fr_lock := lock, fr_initialized := True\<rparr>"
    by (simp add: linkg_transport_forward_pair_runtime_init_def forward_pairs_zero_def)
  then show ?case using start forward_zero_ok
    by (simp add: forward_history_inv_def forward_zero_facts delivered_bytes_def delivered_frames_def taken_bytes_def)
qed (rule forward_step_inv)

text \<open>Under the invariant the cached frames are the entries in use.\<close>

lemma cached_frames_valid:
  assumes "forward_ok log others rt s"
  shows "cached_frames rt = of_nat (length (filter fe_valid (concat (fr_entries rt))))"
    "cached_bytes rt = sum_list (map (\<lambda>e. ucast (fe_payload_length e)) (filter fe_valid (concat (fr_entries rt))))"
proof -
  have v: "fe_valid e \<longleftrightarrow> fe_valid e \<and> fe_packet e \<noteq> None" if "e \<in> set (concat (fr_entries rt))" for e
  proof -
    have "forward_inv log (fst s) e" using forward_okD(1) [OF assms] that unfolding cache_inv_def by blast
    then show ?thesis by (auto simp: forward_inv_def)
  qed
  have "sum_list (map forward_frames es) = of_nat (length (filter fe_valid es))"
    "sum_list (map forward_bytes es) = sum_list (map (\<lambda>e. ucast (fe_payload_length e)) (filter fe_valid es))"
    if "\<And>e. e \<in> set es \<Longrightarrow> fe_valid e \<longleftrightarrow> fe_valid e \<and> fe_packet e \<noteq> None" for es
    using that by (induction es) (auto simp: forward_frames_def forward_bytes_def)
  then show "cached_frames rt = of_nat (length (filter fe_valid (concat (fr_entries rt))))"
    "cached_bytes rt = sum_list (map (\<lambda>e. ucast (fe_payload_length e)) (filter fe_valid (concat (fr_entries rt))))"
    unfolding cached_frames_def cached_bytes_def using v by blast+
qed

section \<open>Properties\<close>

text \<open>
  C7. Whatever the order of submissions, expiries, evictions, resets and releases of the runtime, and whatever
  the rest of the program does with its own packets in between, every pair the relay hands on consists of a
  first and a last fragment submitted for the same peer, epoch, class, source, destination, type and packet
  identifier, in that order, the bytes of both frames unchanged, the first marked FIRST and the second LAST;
  and every packet reference is either the cache's or accounted to its holder.
\<close>

theorem forward_pairs_genuine:
  assumes "forward_reach (rt, h, c, others, log, pairs, taken)"
  shows "(\<forall>(key, plen, frames)\<in>set pairs. \<exists>n0 A n1 B.
      frames = [(n0, A, LINKG_PACKET_FLAG_TX_GROUP_FIRST), (n1, B, LINKG_PACKET_FLAG_TX_GROUP_LAST)] \<and>
      (key, plen, 0, n0, A) \<in> set log \<and> (key, plen, 1420, n1, B) \<in> set log) \<and>
    heap_ok h \<and> (\<forall>p. refs h p = others p + cache_held forward_holds (concat (fr_entries rt)) p)"
  using forward_reach_inv [OF assms]
  by (auto simp: forward_history_inv_def forward_genuine_pair_def forward_ok_def cache_inv_def cache_balance_def)

text \<open>
  C8. No relayed fragment is lost without being counted: over every history, the frames and the payload
  bytes the cache took are exactly those it handed on in pairs, those it still holds and those counted in
  \<open>forward_incomplete_frames\<close> and \<open>forward_incomplete_bytes\<close> (modulo the width of the counters).
\<close>

theorem forward_accounting:
  assumes "forward_reach (rt, h, c, others, log, pairs, taken)"
  shows "of_nat (length taken) = of_nat (2 * length pairs) + of_nat (length (filter fe_valid (concat (fr_entries rt)))) +
      gs_forward_incomplete_frames (tc_stats c) \<and>
    sum_list (map ucast taken) = delivered_bytes pairs +
      sum_list (map (\<lambda>e. ucast (fe_payload_length e)) (filter fe_valid (concat (fr_entries rt)))) +
      gs_forward_incomplete_bytes (tc_stats c)"
proof -
  have inv: "forward_ok log others rt (h, 0, 0)" "\<forall>d\<in>set pairs. forward_genuine_pair log d"
    "gs_forward_incomplete_bytes (tc_stats c) + cached_bytes rt + delivered_bytes pairs = taken_bytes taken"
    "gs_forward_incomplete_frames (tc_stats c) + cached_frames rt + delivered_frames pairs = of_nat (length taken)"
    using forward_reach_inv [OF assms] by (auto simp: forward_history_inv_def)
  have "delivered_frames ps = of_nat (2 * length ps)" if "\<forall>d\<in>set ps. forward_genuine_pair log d" for ps
    using that by (induction ps) (auto simp: delivered_frames_def forward_genuine_pair_def)
  then have "delivered_frames pairs = of_nat (2 * length pairs)" using inv(2) by blast
  then show ?thesis
    unfolding cached_frames_valid [OF inv(1), symmetric] using inv(3,4) by (simp add: taken_bytes_def ac_simps)
qed

section \<open>Witnesses\<close>

definition relay_context :: linkg_transport_context where
  "relay_context = (transport_zero sequences_zero)\<lparr>tc_local_role := LINKG_DEVICE_ROLE_AP, tc_initialized := True\<rparr>"

definition relay_peer :: linkg_transport_peer where
  "relay_peer = peer_zero\<lparr>pr_lifecycle_epoch := 2, pr_peer_node_id := 2, pr_valid := True\<rparr>"

definition empty_pairs :: linkg_transport_forward_pair_runtime where
  "empty_pairs = snd (linkg_transport_forward_pair_runtime_init 0 mutex_zero forward_pairs_zero)"

text \<open>The tail arrives, then the first fragment.\<close>

definition relay_tail where
  "relay_tail = linkg_transport_forward_pair_submit (Some relay_peer) 2 1 2 (Some fragment_base) (Some tail_header) (Some 103) 80 1000
     empty_pairs relay_context fragment_heap"

definition relay_both where
  "relay_both = (case relay_tail of (r1, out1, rt1, c1, h1) \<Rightarrow>
     linkg_transport_forward_pair_submit (Some relay_peer) 2 1 2 (Some fragment_base) (Some sample_fragment) (Some 102) 1420 2000 rt1 c1 h1)"

lemma empty_pairs_eq: "empty_pairs = forward_pairs_zero\<lparr>fr_lock := mutex_zero, fr_initialized := True\<rparr>"
  by (simp add: empty_pairs_def linkg_transport_forward_pair_runtime_init_def forward_pairs_zero_def)

lemma relay_start: "forward_reach (empty_pairs, fragment_heap, relay_context, refs fragment_heap, [], [], [])"
  by (rule forward_reach.start [OF fragment_heap_ok, of mutex_zero])
    (simp_all add: mutex_zero_def mutex_ok_def empty_pairs_def linkg_transport_forward_pair_runtime_init_def forward_pairs_zero_def
      relay_context_def transport_zero_def)

lemma relay_guards:
  "tc_initialized relay_context" "tc_local_role relay_context = LINKG_DEVICE_ROLE_AP" "fr_initialized empty_pairs"
  "linkg_transport_class_valid 1" "linkg_transport_forward_peer_valid 2" "th_flags fragment_base AND 1 \<noteq> 0"
  "mx_lock (fr_lock empty_pairs) = 0" "mx_unlock (fr_lock empty_pairs) = 0" "linkg_transport_peer_epoch_matches (Some relay_peer) 2"
  by (simp_all add: relay_context_def empty_pairs_eq linkg_transport_class_valid_def linkg_transport_forward_peer_valid_def
      fragment_base_def mutex_zero_def linkg_transport_peer_epoch_matches_def relay_peer_def)

lemma set_sweep_idle: "(\<And>e. e \<in> set (concat rows) \<Longrightarrow> \<not> P e) \<Longrightarrow> set_sweep P d z rows s = (rows, s)"
proof (induction rows)
  case (Cons row rows)
  have "(\<And>e. e \<in> set es \<Longrightarrow> \<not> P e) \<Longrightarrow> way_sweep P d z es s = (es, s)" for es by (induction es) auto
  then show ?case using Cons by simp
qed simp

definition relay_set :: nat where
  "relay_set = linkg_transport_forward_pair_set 1 2 2 fragment_base 5"

definition relay_entry :: linkg_transport_forward_pair_entry where
  "relay_entry = fst (snd (linkg_transport_forward_pair_create_locked 1 2 2 fragment_base tail_header 103 80 1000 fragment_heap))"

definition relay_cache :: linkg_transport_forward_pair_runtime where
  "relay_cache = empty_pairs\<lparr>fr_last_gc_us := 1000, fr_entries := (fr_entries empty_pairs)[relay_set := [relay_entry, forward_entry_zero]]\<rparr>"

lemma relay_set_less: "relay_set < 32"
  unfolding relay_set_def by (rule forward_set_less)

lemma empty_pairs_row: "i < 32 \<Longrightarrow> fr_entries empty_pairs ! i = [forward_entry_zero, forward_entry_zero]"
  by (simp add: empty_pairs_eq forward_pairs_zero_def numeral_2_eq_2)

lemma zero_ways [simp]:
  "\<not> fe_valid forward_entry_zero" "\<not> linkg_transport_forward_pair_match cls peer ep hdr fh forward_entry_zero"
  "\<not> linkg_transport_forward_pair_expired now forward_entry_zero"
  by (simp_all add: forward_entry_zero_def linkg_transport_forward_pair_match_def linkg_transport_forward_pair_expired_def)

lemma relay_gc: "linkg_transport_forward_pair_gc_locked 1000 empty_pairs s = (empty_pairs\<lparr>fr_last_gc_us := 1000\<rparr>, s)"
proof -
  have "fr_last_gc_us empty_pairs = 0" by (simp add: empty_pairs_eq forward_pairs_zero_def)
  moreover have "set_sweep (linkg_transport_forward_pair_expired 1000) linkg_transport_forward_pair_entry_drop forward_entry_zero
      (fr_entries empty_pairs) s = (fr_entries empty_pairs, s)"
    by (rule set_sweep_idle) (auto simp: empty_pairs_eq forward_pairs_zero_def)
  ultimately show ?thesis by (simp add: linkg_transport_forward_pair_gc_locked_def)
qed

lemma relay_tail_value: "relay_tail = (0, [], relay_cache, relay_context, linkg_packet_retain (Some 103) fragment_heap)"
proof -
  have "linkg_transport_forward_pair_submit_locked 1 2 2 fragment_base tail_header 103 80 1000 (empty_pairs\<lparr>fr_last_gc_us := 1000\<rparr>)
      (fragment_heap, 0, 0) = (0, [], relay_cache, linkg_packet_retain (Some 103) fragment_heap, 0, 0)"
    using relay_set_less
    by (simp add: linkg_transport_forward_pair_submit_locked_def Let_def empty_pairs_row forward_ways_def tail_header_def
        relay_cache_def relay_entry_def linkg_transport_forward_pair_create_locked_def flip: relay_set_def)
  then show ?thesis
    by (simp add: relay_tail_def linkg_transport_forward_pair_submit_def relay_guards relay_gc
        linkg_transport_forward_record_incomplete_def)
qed

lemma relay_both_value:
  obtains i0 i1 rt h where "relay_both = (0, [i0, i1], rt, relay_context, h)" "fi_packet i0 = Some 102" "fi_packet i1 = Some 103"
    "fi_payload_length i0 = 1420" "fi_payload_length i1 = 80"
proof -
  have e: "\<not> linkg_transport_forward_pair_expired 2000 relay_entry" "fe_valid relay_entry"
    "linkg_transport_forward_pair_match 1 2 2 fragment_base sample_fragment relay_entry" "fe_packet_length relay_entry = 1500"
    "fe_fragment_offset relay_entry = 1420" "fe_packet relay_entry = Some 103" "fe_payload_length relay_entry = 80"
    by (simp_all add: relay_entry_def linkg_transport_forward_pair_create_locked_def linkg_transport_forward_pair_expired_def
        linkg_transport_forward_pair_match_def tail_header_def sample_fragment_def)
  have row: "fr_entries relay_cache ! relay_set = [relay_entry, forward_entry_zero]"
    using relay_set_less by (simp add: relay_cache_def empty_pairs_eq forward_pairs_zero_def)
  have gc: "linkg_transport_forward_pair_gc_locked 2000 relay_cache s = (relay_cache, s)" for s
    by (simp add: linkg_transport_forward_pair_gc_locked_def relay_cache_def)
  have pid: "fh_packet_id sample_fragment = 5" by (simp add: sample_fragment_def)
  have "\<exists>i0 i1 rt h. linkg_transport_forward_pair_submit_locked 1 2 2 fragment_base sample_fragment 102 1420 2000 relay_cache (h0, 0, 0) =
      (0, [i0, i1], rt, h, 0, 0) \<and> fi_packet i0 = Some 102 \<and> fi_packet i1 = Some 103 \<and>
      fi_payload_length i0 = 1420 \<and> fi_payload_length i1 = 80" for h0
    using e row pid
    by (simp add: linkg_transport_forward_pair_submit_locked_def Let_def forward_ways_def forward_join_def sample_fragment_def
        linkg_transport_forward_pair_complete_locked_def flip: relay_set_def)
  then obtain i0 i1 rt h where "linkg_transport_forward_pair_submit_locked 1 2 2 fragment_base sample_fragment 102 1420 2000 relay_cache
      (linkg_packet_retain (Some 103) fragment_heap, 0, 0) = (0, [i0, i1], rt, h, 0, 0)"
    "fi_packet i0 = Some 102" "fi_packet i1 = Some 103" "fi_payload_length i0 = 1420" "fi_payload_length i1 = 80" by blast
  moreover have "fr_initialized relay_cache" "mx_lock (fr_lock relay_cache) = 0" "mx_unlock (fr_lock relay_cache) = 0"
    using relay_guards by (simp_all add: relay_cache_def)
  ultimately show ?thesis
    by (intro that [of i0 i1 rt h])
      (simp_all add: relay_both_def relay_tail_value linkg_transport_forward_pair_submit_def relay_guards gc
        linkg_transport_forward_record_incomplete_def)
qed

lemma relay_entry_held: "forward_held relay_cache x = (if x = 103 then 1 else 0)"
proof -
  have l: "relay_set < length (fr_entries empty_pairs)" using relay_set_less by (simp add: empty_pairs_eq forward_pairs_zero_def)
  have e: "fe_valid relay_entry" "fe_packet relay_entry = Some 103"
    by (simp_all add: relay_entry_def linkg_transport_forward_pair_create_locked_def)
  have z: "forward_holds forward_entry_zero x = 0" by (rule forward.zero_holds)
  have "forward_held empty_pairs x = 0" unfolding empty_pairs_eq by (rule forward_zero_facts)
  then show ?thesis using forward.held_row [OF l, of "[relay_entry, forward_entry_zero]" x] empty_pairs_row [OF relay_set_less] e z
    by (simp add: relay_cache_def) (simp add: forward_holds_def)
qed

lemma relay_reach:
  obtains rt h others log frames where
    "forward_reach (rt, h, relay_context, others, log, [(fragment_key 1 2 2 fragment_base tail_header, 1500, frames)], [1420, 80])"
proof -
  obtain i0 i1 rt h where b: "relay_both = (0, [i0, i1], rt, relay_context, h)" by (rule relay_both_value)
  let ?k = "fragment_key 1 2 2 fragment_base tail_header" and ?h1 = "linkg_packet_retain (Some 103) fragment_heap"
  have o1: "forward_offered (refs fragment_heap) 103 empty_pairs (fragment_heap, 0, 0)"
    using fragment_refs unfolding cache_offered_def empty_pairs_eq forward_zero_facts(1) by simp
  have s1: "forward_step (empty_pairs, fragment_heap, relay_context, refs fragment_heap, [], [], [])
      (relay_cache, ?h1, relay_context, refs fragment_heap, [(?k, 1500, 1420, 80, packet_bytes fragment_heap 103)], [], [80])"
    using forward_step.submit [OF o1 _ relay_tail_value [unfolded relay_tail_def], of "[]" "[]" "[]"] relay_entry_held [of 103]
    by (simp add: tail_header_def)
  have "refs ?h1 102 = 1" using refs_retain [of fragment_heap 103 102] fragment_refs by simp
  then have o2: "forward_offered (refs fragment_heap) 102 relay_cache (?h1, 0, 0)"
    using fragment_refs relay_entry_held [of 102] by (simp add: cache_offered_def)
  have s2: "linkg_transport_forward_pair_submit (Some relay_peer) 2 1 2 (Some fragment_base) (Some sample_fragment) (Some 102) 1420 2000
      relay_cache relay_context ?h1 = (0, [i0, i1], rt, relay_context, h)"
    using b by (simp add: relay_both_def relay_tail_value)
  have off: "fh_fragment_offset sample_fragment \<in> {0, 1420}" by (simp add: sample_fragment_def)
  from forward_reach.step [OF forward_reach.step [OF relay_start s1] forward_step.submit [OF o2 off s2]]
  show ?thesis using that fragment_keys by (simp add: sample_fragment_def)
qed

theorem forward_pairs_genuine_witness:
  "\<exists>rt h others log frames. forward_reach (rt, h, relay_context, others, log,
       [(fragment_key 1 2 2 fragment_base tail_header, 1500, frames)], [1420, 80]) \<and>
     map (snd \<circ> snd) frames = [LINKG_PACKET_FLAG_TX_GROUP_FIRST, LINKG_PACKET_FLAG_TX_GROUP_LAST]"
proof -
  obtain rt h others log frames where
    r: "forward_reach (rt, h, relay_context, others, log, [(fragment_key 1 2 2 fragment_base tail_header, 1500, frames)], [1420, 80])"
    by (rule relay_reach)
  from forward_pairs_genuine [OF r] have "map (snd \<circ> snd) frames = [LINKG_PACKET_FLAG_TX_GROUP_FIRST, LINKG_PACKET_FLAG_TX_GROUP_LAST]"
    by auto
  with r show ?thesis by (intro exI conjI)
qed

theorem forward_accounting_witness:
  "\<exists>rt h others log frames. forward_reach (rt, h, relay_context, others, log,
       [(fragment_key 1 2 2 fragment_base tail_header, 1500, frames)], [1420, 80]) \<and>
     of_nat (length (filter fe_valid (concat (fr_entries rt)))) + gs_forward_incomplete_frames (tc_stats relay_context) = 0"
proof -
  obtain rt h others log frames where
    r: "forward_reach (rt, h, relay_context, others, log, [(fragment_key 1 2 2 fragment_base tail_header, 1500, frames)], [1420, 80])"
    by (rule relay_reach)
  from forward_accounting [OF r]
  have "of_nat (length (filter fe_valid (concat (fr_entries rt)))) + gs_forward_incomplete_frames (tc_stats relay_context) = 0" by simp
  with r show ?thesis by (intro exI conjI)
qed

end
