(* ===== verification/Link_Path.thy ===== *)
theory Link_Path
  imports Linkg_Prelude
begin

text \<open>
  Paths to a peer over one link: \<open>src/core/link/linkg_path.c\<close>, its counters in
  \<open>src/core/statistics/linkg_path_stats.c\<close> and the types of the two headers.

  A path moves through EMPTY, ACTIVE, RETIRED and RELEASED; transmit queues hold counted references
  to it, and whoever drops the last reference of a retired path completes the release and calls the
  owner back. The operations are modelled one by one on a store of paths with the log of the
  callbacks made. The atomic accesses of \<open>linkg_path_release\<close> and \<open>linkg_path_retire\<close> run in
  different threads, so a second model lets them interleave: it shows what the protocol guarantees
  in every interleaving and one schedule in which it releases a path that is still referenced.
\<close>

section \<open>Statistics\<close>

abbreviation (input) LINKG_PATH_STATS_CLASS_COUNT :: u32 where "LINKG_PATH_STATS_CLASS_COUNT \<equiv> 3"

record linkg_path_class_tx_stats =
  cs_tx_packets :: u64
  cs_tx_bytes :: u64
  cs_tx_queue_overflow_packets :: u64
  cs_tx_queue_overflow_bytes :: u64

record linkg_path_stats =
  st_tx_bytes :: u64
  st_tx_packets :: u64
  st_tx_failed_bytes :: u64
  st_tx_failed_packets :: u64
  st_tx_dropped_bytes :: u64
  st_tx_dropped_packets :: u64
  st_tx_queue_overflow_bytes :: u64
  st_tx_queue_overflow_packets :: u64
  st_tx_expired_bytes :: u64
  st_tx_expired_packets :: u64
  st_rx_bytes :: u64
  st_rx_packets :: u64
  st_tx_classes :: "linkg_path_class_tx_stats list"

definition class_stats_zero :: linkg_path_class_tx_stats where
  "class_stats_zero = \<lparr>cs_tx_packets = 0, cs_tx_bytes = 0, cs_tx_queue_overflow_packets = 0,
     cs_tx_queue_overflow_bytes = 0\<rparr>"

definition stats_zero :: linkg_path_stats where
  "stats_zero = \<lparr>st_tx_bytes = 0, st_tx_packets = 0, st_tx_failed_bytes = 0, st_tx_failed_packets = 0,
     st_tx_dropped_bytes = 0, st_tx_dropped_packets = 0, st_tx_queue_overflow_bytes = 0,
     st_tx_queue_overflow_packets = 0, st_tx_expired_bytes = 0, st_tx_expired_packets = 0,
     st_rx_bytes = 0, st_rx_packets = 0,
     st_tx_classes = replicate (unat LINKG_PATH_STATS_CLASS_COUNT) class_stats_zero\<rparr>"

definition linkg_path_stats_reset :: "linkg_path_stats \<Rightarrow> linkg_path_stats" where
  "linkg_path_stats_reset stats = stats_zero"

definition linkg_path_stats_record_tx_success :: "u64 \<Rightarrow> u64 \<Rightarrow> linkg_path_stats \<Rightarrow> linkg_path_stats" where
  "linkg_path_stats_record_tx_success bytes packets stats =
     stats\<lparr>st_tx_bytes := st_tx_bytes stats + bytes, st_tx_packets := st_tx_packets stats + packets\<rparr>"

definition linkg_path_stats_record_tx_success_class ::
    "u32 \<Rightarrow> u64 \<Rightarrow> u64 \<Rightarrow> linkg_path_stats \<Rightarrow> linkg_path_stats" where
  "linkg_path_stats_record_tx_success_class class_index bytes packets stats =
     (if class_index \<ge> LINKG_PATH_STATS_CLASS_COUNT then stats
      else
        (let stats1 = linkg_path_stats_record_tx_success bytes packets stats;
             class_stats = st_tx_classes stats1 ! unat class_index
         in stats1\<lparr>st_tx_classes := (st_tx_classes stats1)[unat class_index :=
              class_stats\<lparr>cs_tx_bytes := cs_tx_bytes class_stats + bytes,
                cs_tx_packets := cs_tx_packets class_stats + packets\<rparr>]\<rparr>))"

definition linkg_path_stats_record_tx_failed :: "u64 \<Rightarrow> u64 \<Rightarrow> linkg_path_stats \<Rightarrow> linkg_path_stats" where
  "linkg_path_stats_record_tx_failed bytes packets stats =
     stats\<lparr>st_tx_failed_bytes := st_tx_failed_bytes stats + bytes,
       st_tx_failed_packets := st_tx_failed_packets stats + packets\<rparr>"

definition linkg_path_stats_record_tx_dropped :: "u64 \<Rightarrow> u64 \<Rightarrow> linkg_path_stats \<Rightarrow> linkg_path_stats" where
  "linkg_path_stats_record_tx_dropped bytes packets stats =
     stats\<lparr>st_tx_dropped_bytes := st_tx_dropped_bytes stats + bytes,
       st_tx_dropped_packets := st_tx_dropped_packets stats + packets\<rparr>"

definition linkg_path_stats_record_tx_expired :: "u64 \<Rightarrow> u64 \<Rightarrow> linkg_path_stats \<Rightarrow> linkg_path_stats" where
  "linkg_path_stats_record_tx_expired bytes packets stats =
     stats\<lparr>st_tx_expired_bytes := st_tx_expired_bytes stats + bytes,
       st_tx_expired_packets := st_tx_expired_packets stats + packets\<rparr>"

definition linkg_path_stats_record_tx_queue_overflow ::
    "u64 \<Rightarrow> u64 \<Rightarrow> linkg_path_stats \<Rightarrow> linkg_path_stats" where
  "linkg_path_stats_record_tx_queue_overflow bytes packets stats =
     stats\<lparr>st_tx_dropped_bytes := st_tx_dropped_bytes stats + bytes,
       st_tx_dropped_packets := st_tx_dropped_packets stats + packets,
       st_tx_queue_overflow_bytes := st_tx_queue_overflow_bytes stats + bytes,
       st_tx_queue_overflow_packets := st_tx_queue_overflow_packets stats + packets\<rparr>"

definition linkg_path_stats_record_tx_queue_overflow_class ::
    "u32 \<Rightarrow> u64 \<Rightarrow> u64 \<Rightarrow> linkg_path_stats \<Rightarrow> linkg_path_stats" where
  "linkg_path_stats_record_tx_queue_overflow_class class_index bytes packets stats =
     (if class_index \<ge> LINKG_PATH_STATS_CLASS_COUNT then stats
      else
        (let stats1 = linkg_path_stats_record_tx_queue_overflow bytes packets stats;
             class_stats = st_tx_classes stats1 ! unat class_index
         in stats1\<lparr>st_tx_classes := (st_tx_classes stats1)[unat class_index :=
              class_stats\<lparr>cs_tx_queue_overflow_bytes := cs_tx_queue_overflow_bytes class_stats + bytes,
                cs_tx_queue_overflow_packets := cs_tx_queue_overflow_packets class_stats + packets\<rparr>]\<rparr>))"

definition linkg_path_stats_record_rx :: "u64 \<Rightarrow> u64 \<Rightarrow> linkg_path_stats \<Rightarrow> linkg_path_stats" where
  "linkg_path_stats_record_rx bytes packets stats =
     stats\<lparr>st_rx_bytes := st_rx_bytes stats + bytes, st_rx_packets := st_rx_packets stats + packets\<rparr>"

section \<open>Paths\<close>

datatype linkg_path_state =
    LINKG_PATH_STATE_EMPTY
  | LINKG_PATH_STATE_ACTIVE
  | LINKG_PATH_STATE_RETIRED
  | LINKG_PATH_STATE_RELEASED

text \<open>A socket address is its bytes and its length; a callback and its argument are addresses.\<close>

record linkg_path_endpoint =
  ep_address :: "u8 list"
  ep_length :: u32

record linkg_path =
  pt_stats_lock :: mutex
  pt_stats :: linkg_path_stats
  pt_link_id :: u32
  pt_next_hop :: linkg_path_endpoint
  pt_reference_count :: u32
  pt_state :: linkg_path_state
  pt_released :: "nat option"
  pt_released_user_data :: "nat option"
  pt_initialized :: bool

record path_store =
  path_at :: "nat \<Rightarrow> linkg_path"
  released_log :: "(nat \<times> nat \<times> nat option) list"

abbreviation (input) LINKG_PATH_LINK_ID_INVALID :: u32 where "LINKG_PATH_LINK_ID_INVALID \<equiv> 0"

definition endpoint_zero :: linkg_path_endpoint where
  "endpoint_zero = \<lparr>ep_address = replicate 128 0, ep_length = 0\<rparr>"

definition path_zero :: linkg_path where
  "path_zero = \<lparr>pt_stats_lock = mutex_zero, pt_stats = stats_zero, pt_link_id = 0,
     pt_next_hop = endpoint_zero, pt_reference_count = 0, pt_state = LINKG_PATH_STATE_EMPTY,
     pt_released = None, pt_released_user_data = None, pt_initialized = False\<rparr>"

definition upd_path :: "nat \<Rightarrow> (linkg_path \<Rightarrow> linkg_path) \<Rightarrow> path_store \<Rightarrow> path_store" where
  "upd_path a f s = s\<lparr>path_at := (path_at s)(a := f (path_at s a))\<rparr>"

lemma upd_path_simps [simp]:
  "path_at (upd_path a f s) = (path_at s)(a := f (path_at s a))"
  "released_log (upd_path a f s) = released_log s"
  by (simp_all add: upd_path_def)

lemma upd_path_twice [simp]: "upd_path a f (upd_path a g s) = upd_path a (\<lambda>p. f (g p)) s"
  by (simp add: upd_path_def)

text \<open>A pointer that is not null and points to an initialised path.\<close>

definition path_ready :: "nat option \<Rightarrow> path_store \<Rightarrow> bool" where
  "path_ready path s = (case path of None \<Rightarrow> False | Some a \<Rightarrow> pt_initialized (path_at s a))"

subsection \<open>Internal helpers\<close>

definition linkg_path_complete_release :: "nat option \<Rightarrow> bool \<Rightarrow> path_store \<Rightarrow> bool \<times> path_store" where
  "linkg_path_complete_release path notify s =
     (if \<not> path_ready path s then (False, s)
      else
        (let a = the path in
         if pt_state (path_at s a) \<noteq> LINKG_PATH_STATE_RETIRED then (False, s)
         else
           (let s1 = upd_path a (\<lambda>p. p\<lparr>pt_state := LINKG_PATH_STATE_RELEASED\<rparr>) s
            in if \<not> notify then (True, s1)
               else case pt_released (path_at s1 a) of
                      None \<Rightarrow> (True, s1)
                    | Some f \<Rightarrow> (True, s1\<lparr>released_log := released_log s1 @
                                          [(a, f, pt_released_user_data (path_at s1 a))]\<rparr>))))"

text \<open>The compare-and-exchange loop decrements a positive count atomically.\<close>

definition linkg_path_release_reference :: "nat option \<Rightarrow> path_store \<Rightarrow> path_store" where
  "linkg_path_release_reference path s =
     (if \<not> path_ready path s then s
      else
        (let a = the path; references = pt_reference_count (path_at s a) in
         if references > 0
         then
           (let s1 = upd_path a (\<lambda>p. p\<lparr>pt_reference_count := references - 1\<rparr>) s
            in if references = 1 then snd (linkg_path_complete_release path True s1) else s1)
         else s))"

definition linkg_path_reset_stats :: "nat option \<Rightarrow> path_store \<Rightarrow> int \<times> path_store" where
  "linkg_path_reset_stats path s =
     (if \<not> path_ready path s then (- EINVAL, s)
      else
        (let a = the path; lock = pt_stats_lock (path_at s a) in
         if mx_lock lock \<noteq> 0 then (- mx_lock lock, s)
         else
           (let s1 = upd_path a (\<lambda>p. p\<lparr>pt_stats := linkg_path_stats_reset (pt_stats p)\<rparr>) s
            in if mx_unlock lock \<noteq> 0 then (- mx_unlock lock, s1) else (0, s1))))"

subsection \<open>Life cycle\<close>

text \<open>The answer of \<open>pthread_mutex_init\<close> and the mutex it builds are inputs.\<close>

definition linkg_path_init :: "nat option \<Rightarrow> int \<Rightarrow> mutex \<Rightarrow> path_store \<Rightarrow> int \<times> path_store" where
  "linkg_path_init path mutex_init m s =
     (case path of
        None \<Rightarrow> (- EINVAL, s)
      | Some a \<Rightarrow>
         (if pt_initialized (path_at s a) then (- EALREADY, s)
          else if mutex_init \<noteq> 0 then (- mutex_init, upd_path a (\<lambda>_. path_zero) s)
          else (0, upd_path a (\<lambda>_. path_zero\<lparr>pt_stats_lock := m, pt_reference_count := 0,
                                 pt_state := LINKG_PATH_STATE_EMPTY, pt_initialized := True\<rparr>) s)))"

definition linkg_path_deinit :: "nat option \<Rightarrow> path_store \<Rightarrow> int \<times> path_store" where
  "linkg_path_deinit path s =
     (case path of
        None \<Rightarrow> (- EINVAL, s)
      | Some a \<Rightarrow>
         (if \<not> pt_initialized (path_at s a) then (0, s)
          else if pt_state (path_at s a) \<noteq> LINKG_PATH_STATE_EMPTY \<or> pt_reference_count (path_at s a) \<noteq> 0
          then (- EBUSY, s)
          else if mx_destroy (pt_stats_lock (path_at s a)) \<noteq> 0
          then (- mx_destroy (pt_stats_lock (path_at s a)), s)
          else (0, upd_path a (\<lambda>_. path_zero) s)))"

definition linkg_path_activate ::
    "nat option \<Rightarrow> u32 \<Rightarrow> linkg_path_endpoint option \<Rightarrow> nat option \<Rightarrow> nat option \<Rightarrow> path_store \<Rightarrow> int \<times> path_store" where
  "linkg_path_activate path link_id next_hop released user_data s =
     (if \<not> path_ready path s \<or> next_hop = None \<or> link_id = LINKG_PATH_LINK_ID_INVALID then (- EINVAL, s)
      else
        (let a = the path in
         if pt_state (path_at s a) \<noteq> LINKG_PATH_STATE_EMPTY \<or> pt_reference_count (path_at s a) \<noteq> 0
         then (- EBUSY, s)
         else
           (let (ret, s1) = linkg_path_reset_stats path s
            in if ret \<noteq> 0 then (ret, s1)
               else (0, upd_path a (\<lambda>p. p\<lparr>pt_link_id := link_id, pt_next_hop := the next_hop,
                          pt_released := released, pt_released_user_data := user_data,
                          pt_state := LINKG_PATH_STATE_ACTIVE\<rparr>) s1))))"

definition linkg_path_acquire_batch :: "nat option \<Rightarrow> u32 \<Rightarrow> path_store \<Rightarrow> int \<times> path_store" where
  "linkg_path_acquire_batch path reference_count s =
     (if \<not> path_ready path s \<or> reference_count = 0 then (- EINVAL, s)
      else if pt_state (path_at s (the path)) \<noteq> LINKG_PATH_STATE_ACTIVE then (- ENODEV, s)
      else (0, upd_path (the path) (\<lambda>p. p\<lparr>pt_reference_count := pt_reference_count p + reference_count\<rparr>) s))"

definition linkg_path_acquire :: "nat option \<Rightarrow> path_store \<Rightarrow> int \<times> path_store" where
  "linkg_path_acquire path s = linkg_path_acquire_batch path 1 s"

text \<open>The result is the return code, \<open>*released\<close> and the store.\<close>

definition linkg_path_retire :: "nat option \<Rightarrow> path_store \<Rightarrow> int \<times> bool \<times> path_store" where
  "linkg_path_retire path s =
     (if \<not> path_ready path s then (- EINVAL, False, s)
      else
        (let a = the path; expected = pt_state (path_at s a) in
         if expected \<noteq> LINKG_PATH_STATE_ACTIVE
         then (if expected = LINKG_PATH_STATE_RETIRED \<or> expected = LINKG_PATH_STATE_RELEASED
               then (0, False, s) else (- ENODEV, False, s))
         else
           (let s1 = upd_path a (\<lambda>p. p\<lparr>pt_state := LINKG_PATH_STATE_RETIRED\<rparr>) s
            in if pt_reference_count (path_at s1 a) = 0
               then (let (released, s2) = linkg_path_complete_release path False s1 in (0, released, s2))
               else (0, False, s1))))"

definition linkg_path_release :: "nat option \<Rightarrow> path_store \<Rightarrow> path_store" where
  "linkg_path_release path s = linkg_path_release_reference path s"

definition linkg_path_reset :: "nat option \<Rightarrow> path_store \<Rightarrow> int \<times> path_store" where
  "linkg_path_reset path s =
     (if \<not> path_ready path s then (- EINVAL, s)
      else
        (let a = the path in
         if pt_state (path_at s a) = LINKG_PATH_STATE_EMPTY then (0, s)
         else if pt_state (path_at s a) \<noteq> LINKG_PATH_STATE_RELEASED \<or> pt_reference_count (path_at s a) \<noteq> 0
         then (- EBUSY, s)
         else
           (let (ret, s1) = linkg_path_reset_stats path s
            in if ret \<noteq> 0 then (ret, s1)
               else (0, upd_path a (\<lambda>p. p\<lparr>pt_link_id := LINKG_PATH_LINK_ID_INVALID,
                          pt_next_hop := endpoint_zero, pt_released := None,
                          pt_released_user_data := None, pt_state := LINKG_PATH_STATE_EMPTY\<rparr>) s1))))"

definition linkg_path_update_endpoint ::
    "nat option \<Rightarrow> linkg_path_endpoint option \<Rightarrow> path_store \<Rightarrow> int \<times> path_store" where
  "linkg_path_update_endpoint path next_hop s =
     (if \<not> path_ready path s \<or> next_hop = None then (- EINVAL, s)
      else if pt_state (path_at s (the path)) \<noteq> LINKG_PATH_STATE_ACTIVE then (- ENODEV, s)
      else (0, upd_path (the path) (\<lambda>p. p\<lparr>pt_next_hop := the next_hop\<rparr>) s))"

subsection \<open>Recording\<close>

text \<open>The recording functions ignore what the statistics lock answers.\<close>

definition record_stats ::
    "(linkg_path_stats \<Rightarrow> linkg_path_stats) \<Rightarrow> nat option \<Rightarrow> path_store \<Rightarrow> path_store" where
  "record_stats f path s =
     (if \<not> path_ready path s then s
      else upd_path (the path) (\<lambda>p. p\<lparr>pt_stats := f (pt_stats p)\<rparr>) s)"

definition linkg_path_record_tx_success :: "nat option \<Rightarrow> u64 \<Rightarrow> u64 \<Rightarrow> path_store \<Rightarrow> path_store" where
  "linkg_path_record_tx_success path bytes packets =
     record_stats (linkg_path_stats_record_tx_success bytes packets) path"

definition linkg_path_record_tx_failed :: "nat option \<Rightarrow> u64 \<Rightarrow> u64 \<Rightarrow> path_store \<Rightarrow> path_store" where
  "linkg_path_record_tx_failed path bytes packets =
     record_stats (linkg_path_stats_record_tx_failed bytes packets) path"

definition linkg_path_record_tx_dropped :: "nat option \<Rightarrow> u64 \<Rightarrow> u64 \<Rightarrow> path_store \<Rightarrow> path_store" where
  "linkg_path_record_tx_dropped path bytes packets =
     record_stats (linkg_path_stats_record_tx_dropped bytes packets) path"

definition linkg_path_record_tx_expired :: "nat option \<Rightarrow> u64 \<Rightarrow> u64 \<Rightarrow> path_store \<Rightarrow> path_store" where
  "linkg_path_record_tx_expired path bytes packets =
     record_stats (linkg_path_stats_record_tx_expired bytes packets) path"

definition linkg_path_record_tx_queue_overflow :: "nat option \<Rightarrow> u64 \<Rightarrow> u64 \<Rightarrow> path_store \<Rightarrow> path_store" where
  "linkg_path_record_tx_queue_overflow path bytes packets =
     record_stats (linkg_path_stats_record_tx_queue_overflow bytes packets) path"

definition linkg_path_record_rx :: "nat option \<Rightarrow> u64 \<Rightarrow> u64 \<Rightarrow> path_store \<Rightarrow> path_store" where
  "linkg_path_record_rx path bytes packets =
     record_stats (linkg_path_stats_record_rx bytes packets) path"

definition linkg_path_record_tx_success_class ::
    "nat option \<Rightarrow> u32 \<Rightarrow> u64 \<Rightarrow> u64 \<Rightarrow> path_store \<Rightarrow> path_store" where
  "linkg_path_record_tx_success_class path class_index bytes packets s =
     (if class_index \<ge> LINKG_PATH_STATS_CLASS_COUNT then s
      else record_stats (linkg_path_stats_record_tx_success_class class_index bytes packets) path s)"

definition linkg_path_record_tx_queue_overflow_class ::
    "nat option \<Rightarrow> u32 \<Rightarrow> u64 \<Rightarrow> u64 \<Rightarrow> path_store \<Rightarrow> path_store" where
  "linkg_path_record_tx_queue_overflow_class path class_index bytes packets s =
     (if class_index \<ge> LINKG_PATH_STATS_CLASS_COUNT then s
      else record_stats (linkg_path_stats_record_tx_queue_overflow_class class_index bytes packets) path s)"

definition linkg_path_get_stats :: "nat option \<Rightarrow> path_store \<Rightarrow> int + linkg_path_stats" where
  "linkg_path_get_stats path s =
     (case path of
        None \<Rightarrow> Inl (- EINVAL)
      | Some a \<Rightarrow>
         (let p = path_at s a in
          if \<not> pt_initialized p then Inl (- ENODEV)
          else if mx_lock (pt_stats_lock p) \<noteq> 0 then Inl (- mx_lock (pt_stats_lock p))
          else if mx_unlock (pt_stats_lock p) \<noteq> 0 then Inl (- mx_unlock (pt_stats_lock p))
          else Inr (pt_stats p)))"

subsection \<open>Queries\<close>

definition linkg_path_get_state :: "nat option \<Rightarrow> path_store \<Rightarrow> linkg_path_state" where
  "linkg_path_get_state path s =
     (if \<not> path_ready path s then LINKG_PATH_STATE_EMPTY else pt_state (path_at s (the path)))"

definition linkg_path_get_reference_count :: "nat option \<Rightarrow> path_store \<Rightarrow> u32" where
  "linkg_path_get_reference_count path s =
     (if \<not> path_ready path s then 0 else pt_reference_count (path_at s (the path)))"

definition linkg_path_is_active :: "nat option \<Rightarrow> path_store \<Rightarrow> bool" where
  "linkg_path_is_active path s \<longleftrightarrow> linkg_path_get_state path s = LINKG_PATH_STATE_ACTIVE"

section \<open>Invariant of the life cycle\<close>

definition path_ok :: "linkg_path \<Rightarrow> bool" where
  "path_ok p \<longleftrightarrow> (pt_initialized p \<longrightarrow>
     mutex_ok (pt_stats_lock p) \<and> length (st_tx_classes (pt_stats p)) = 3 \<and>
     (pt_state p = LINKG_PATH_STATE_EMPTY \<longrightarrow> pt_reference_count p = 0 \<and> pt_released p = None) \<and>
     (pt_state p = LINKG_PATH_STATE_RETIRED \<longrightarrow> pt_reference_count p \<noteq> 0) \<and>
     (pt_state p = LINKG_PATH_STATE_RELEASED \<longrightarrow> pt_reference_count p = 0) \<and>
     (pt_state p \<noteq> LINKG_PATH_STATE_EMPTY \<longrightarrow> pt_link_id p \<noteq> LINKG_PATH_LINK_ID_INVALID))"

definition store_ok :: "path_store \<Rightarrow> bool" where
  "store_ok s \<longleftrightarrow> (\<forall>a. path_ok (path_at s a))"

text \<open>
  The life cycle: one step forward around EMPTY, ACTIVE, RETIRED, RELEASED, or from ACTIVE straight to
  RELEASED when a path without references retires, and destruction back to the all-zero object.
\<close>

fun state_next :: "linkg_path_state \<Rightarrow> linkg_path_state \<Rightarrow> bool" where
  "state_next LINKG_PATH_STATE_EMPTY y = (y = LINKG_PATH_STATE_EMPTY \<or> y = LINKG_PATH_STATE_ACTIVE)"
| "state_next LINKG_PATH_STATE_ACTIVE y = (y \<noteq> LINKG_PATH_STATE_EMPTY)"
| "state_next LINKG_PATH_STATE_RETIRED y = (y = LINKG_PATH_STATE_RETIRED \<or> y = LINKG_PATH_STATE_RELEASED)"
| "state_next LINKG_PATH_STATE_RELEASED y = (y = LINKG_PATH_STATE_RELEASED \<or> y = LINKG_PATH_STATE_EMPTY)"

lemma state_next_refl [simp]: "state_next x x"
  by (cases x) auto

definition path_state_of :: "path_store \<Rightarrow> nat \<Rightarrow> linkg_path_state" where
  "path_state_of s a = linkg_path_get_state (Some a) s"

inductive path_op :: "path_store \<Rightarrow> path_store \<Rightarrow> bool" where
  op_init: "mutex_ok m \<Longrightarrow> path_op s (snd (linkg_path_init path r m s))"
| op_deinit: "path_op s (snd (linkg_path_deinit path s))"
| op_activate: "path_op s (snd (linkg_path_activate path link_id next_hop released user_data s))"
| op_acquire: "unat (linkg_path_get_reference_count path s) + unat n < 2 ^ 32 \<Longrightarrow>
    path_op s (snd (linkg_path_acquire_batch path n s))"
| op_retire: "path_op s (snd (snd (linkg_path_retire path s)))"
| op_release: "path_op s (linkg_path_release path s)"
| op_reset: "path_op s (snd (linkg_path_reset path s))"
| op_endpoint: "path_op s (snd (linkg_path_update_endpoint path next_hop s))"
| op_record: "(\<And>st. length (st_tx_classes (f st)) = length (st_tx_classes st)) \<Longrightarrow> path_op s (record_stats f path s)"

lemma store_ok_upd:
  "store_ok s \<Longrightarrow> path_ok (f (path_at s a)) \<Longrightarrow> store_ok (upd_path a f s)"
  by (simp add: store_ok_def)

lemma store_ok_log [simp]: "store_ok (s\<lparr>released_log := l\<rparr>) = store_ok s"
  by (simp add: store_ok_def)

lemma store_okD: "store_ok s \<Longrightarrow> path_ok (path_at s a)"
  by (simp add: store_ok_def)

lemma stats_zero_classes [simp]: "length (st_tx_classes stats_zero) = 3"
  by (simp add: stats_zero_def)

lemma path_ready_Some: "path_ready path s \<longleftrightarrow> (\<exists>a. path = Some a \<and> pt_initialized (path_at s a))"
  by (simp add: path_ready_def split: option.split)

lemma reset_stats_ok:
  assumes "store_ok s" "path_ready path s"
  shows "linkg_path_reset_stats path s =
    (0, upd_path (the path) (\<lambda>p. p\<lparr>pt_stats := stats_zero\<rparr>) s)"
  using assms store_okD [of s "the path"]
  by (auto simp: linkg_path_reset_stats_def path_ready_Some path_ok_def linkg_path_stats_reset_def Let_def)

text \<open>What dropping a reference does, on the paths that hold the invariant.\<close>

lemma release_effect:
  assumes "pt_initialized (path_at s a)"
  shows "linkg_path_release (Some a) s =
    (let p = path_at s a; p' = p\<lparr>pt_reference_count := pt_reference_count p - 1\<rparr> in
     if pt_reference_count p = 0 then s
     else if pt_reference_count p = 1 \<and> pt_state p = LINKG_PATH_STATE_RETIRED
     then (upd_path a (\<lambda>_. p'\<lparr>pt_state := LINKG_PATH_STATE_RELEASED\<rparr>) s)
            \<lparr>released_log := released_log s @
              (case pt_released p of None \<Rightarrow> [] | Some f \<Rightarrow> [(a, f, pt_released_user_data p)])\<rparr>
     else upd_path a (\<lambda>_. p') s)"
  using assms
  by (auto simp: linkg_path_release_def linkg_path_release_reference_def path_ready_def
      linkg_path_complete_release_def upd_path_def Let_def word_gt_0 split: option.split)

lemma path_op_store_ok:
  assumes "path_op s s'" "store_ok s"
  shows "store_ok s'"
  using assms
proof (cases rule: path_op.cases)
  case (op_init m path r)
  then show ?thesis
    using assms(2) by (auto simp: linkg_path_init_def path_ok_def path_zero_def intro!: store_ok_upd split: option.split)
next
  case (op_deinit path)
  then show ?thesis
    using assms(2) by (auto simp: linkg_path_deinit_def path_ok_def path_zero_def intro!: store_ok_upd split: option.split)
next
  case (op_activate path link_id next_hop released user_data)
  then show ?thesis
    using assms(2) store_okD [OF assms(2), of "the path"]
    by (auto simp: linkg_path_activate_def reset_stats_ok Let_def path_ready_Some path_ok_def intro!: store_ok_upd)
next
  case (op_acquire path n)
  then show ?thesis
    using assms(2) store_okD [OF assms(2), of "the path"]
    by (auto simp: linkg_path_acquire_batch_def path_ready_Some path_ok_def intro!: store_ok_upd)
next
  case (op_retire path)
  then show ?thesis
    using assms(2) store_okD [OF assms(2), of "the path"]
    by (auto simp: linkg_path_retire_def linkg_path_complete_release_def Let_def path_ready_Some path_ok_def
        intro!: store_ok_upd)
next
  case (op_release path)
  show ?thesis
  proof (cases "path_ready path s")
    case True
    then obtain a where a: "path = Some a" "pt_initialized (path_at s a)" by (auto simp: path_ready_Some)
    show ?thesis
      using assms(2) store_okD [OF assms(2), of a] a(2) unfolding op_release a(1) release_effect [OF a(2)]
      by (auto simp: path_ok_def Let_def diff_eq_eq intro!: store_ok_upd)
  qed (use assms(2) op_release in \<open>simp add: linkg_path_release_def linkg_path_release_reference_def\<close>)
next
  case (op_reset path)
  then show ?thesis
    using assms(2) store_okD [OF assms(2), of "the path"]
    by (auto simp: linkg_path_reset_def reset_stats_ok Let_def path_ready_Some path_ok_def intro!: store_ok_upd)
next
  case (op_endpoint path next_hop)
  then show ?thesis
    using assms(2) store_okD [OF assms(2), of "the path"]
    by (auto simp: linkg_path_update_endpoint_def path_ready_Some path_ok_def intro!: store_ok_upd)
next
  case (op_record f path)
  then show ?thesis
    using assms(2) store_okD [OF assms(2), of "the path"]
    by (auto simp: record_stats_def path_ready_Some path_ok_def intro!: store_ok_upd)
qed

lemma path_op_state:
  assumes "path_op s s'" "store_ok s"
  shows "state_next (path_state_of s a) (path_state_of s' a)"
  using assms
proof (cases rule: path_op.cases)
  case (op_release path)
  show ?thesis
  proof (cases "path_ready path s")
    case True
    then obtain b where b: "path = Some b" "pt_initialized (path_at s b)" by (auto simp: path_ready_Some)
    show ?thesis
      using b(2) unfolding op_release b(1) release_effect [OF b(2)] path_state_of_def linkg_path_get_state_def path_ready_def
      by (auto simp: Let_def)
  qed (use op_release in \<open>simp add: linkg_path_release_def linkg_path_release_reference_def\<close>)
next
  case (op_retire path)
  then show ?thesis
    by (auto simp: linkg_path_retire_def linkg_path_complete_release_def Let_def path_ready_Some
        path_state_of_def linkg_path_get_state_def)
qed (use assms(2) in \<open>auto simp: linkg_path_init_def linkg_path_deinit_def linkg_path_activate_def reset_stats_ok
    linkg_path_acquire_batch_def linkg_path_reset_def linkg_path_update_endpoint_def record_stats_def Let_def
    path_ready_Some path_state_of_def linkg_path_get_state_def path_zero_def split: option.split\<close>)

text \<open>
  C38. Whatever sequence of operations is applied to the paths, every initialised path satisfies the life cycle
  invariant (an idle or released path has no reference, a retired one still has, a path in use has a link)
  and every further operation moves each path only forward around EMPTY, ACTIVE, RETIRED, RELEASED.
\<close>

theorem path_lifecycle:
  assumes "path_op\<^sup>*\<^sup>* s0 s" "store_ok s0"
  shows "store_ok s \<and> (\<forall>s' a. path_op s s' \<longrightarrow> state_next (path_state_of s a) (path_state_of s' a))"
proof -
  from assms have "store_ok s" by (induction rule: rtranclp_induct) (auto intro: path_op_store_ok)
  then show ?thesis using path_op_state by blast
qed

lemma release_run:
  assumes "pt_initialized (path_at s a)" "pt_state (path_at s a) = LINKG_PATH_STATE_RETIRED"
    "unat (pt_reference_count (path_at s a)) = n" "0 < n" "pt_released (path_at s a) = Some f"
  shows "let s' = (linkg_path_release (Some a) ^^ k) s; p = path_at s' a in
    pt_initialized p \<and> pt_state p = (if k < n then LINKG_PATH_STATE_RETIRED else LINKG_PATH_STATE_RELEASED) \<and>
    unat (pt_reference_count p) = n - k \<and> pt_released p = Some f \<and>
    pt_released_user_data p = pt_released_user_data (path_at s a) \<and>
    released_log s' = released_log s @ (if k < n then [] else [(a, f, pt_released_user_data (path_at s a))])"
proof (induction k)
  case 0
  then show ?case using assms by simp
next
  case (Suc k)
  define s1 where "s1 = (linkg_path_release (Some a) ^^ k) s"
  note IH = Suc.IH [folded s1_def, unfolded Let_def]
  then have init: "pt_initialized (path_at s1 a)" by simp
  have step: "(linkg_path_release (Some a) ^^ Suc k) s = linkg_path_release (Some a) s1" by (simp add: s1_def)
  consider "n \<le> k" | "k + 1 = n" | "k + 1 < n" by linarith
  then show ?case
  proof cases
    case 1
    then have "pt_reference_count (path_at s1 a) = 0" using IH by (simp add: unat_eq_zero)
    then have "linkg_path_release (Some a) s1 = s1" unfolding release_effect [OF init] by simp
    then show ?thesis using 1 IH unfolding step by simp
  next
    case 2
    then have one: "pt_reference_count (path_at s1 a) = 1"
      using IH by (metis add_diff_cancel_left' unsigned_1 unsigned_word_eqI)
    have "linkg_path_release (Some a) s1 =
      (upd_path a (\<lambda>p. p\<lparr>pt_reference_count := 0, pt_state := LINKG_PATH_STATE_RELEASED\<rparr>) s1)
        \<lparr>released_log := released_log s1 @ [(a, f, pt_released_user_data (path_at s1 a))]\<rparr>"
      unfolding release_effect [OF init] using IH 2 one by (simp add: Let_def upd_path_def)
    then show ?thesis using 2 IH unfolding step by simp
  next
    case 3
    then have nz: "pt_reference_count (path_at s1 a) \<noteq> 0" "pt_reference_count (path_at s1 a) \<noteq> 1" using IH by auto
    then have "linkg_path_release (Some a) s1 =
      upd_path a (\<lambda>p. p\<lparr>pt_reference_count := pt_reference_count p - 1\<rparr>) s1"
      unfolding release_effect [OF init] by (simp add: Let_def upd_path_def)
    then show ?thesis using 3 IH unat_dec [OF nz(1)] unfolding step by simp
  qed
qed

text \<open>
  Retiring an active path with n references and then dropping k of them: the path stays RETIRED and nobody
  is told while references remain; the drop of the last one makes it RELEASED and calls the owner back exactly
  once, however many further drops follow. With no reference at all \<open>linkg_path_retire\<close> itself reports the
  release and no callback is made.
\<close>

theorem path_retire_release_once:
  assumes "pt_initialized (path_at s a)" "pt_state (path_at s a) = LINKG_PATH_STATE_ACTIVE"
    and "unat (pt_reference_count (path_at s a)) = n" "pt_released (path_at s a) = Some f"
    and "linkg_path_retire (Some a) s = (ret, released, s1)" "s2 = (linkg_path_release (Some a) ^^ k) s1"
  shows "ret = 0 \<and> (released \<longleftrightarrow> n = 0) \<and>
    linkg_path_get_state (Some a) s2 = (if k < n then LINKG_PATH_STATE_RETIRED else LINKG_PATH_STATE_RELEASED) \<and>
    unat (linkg_path_get_reference_count (Some a) s2) = n - k \<and>
    released_log s2 = released_log s @
      (if 0 < n \<and> n \<le> k then [(a, f, pt_released_user_data (path_at s a))] else [])"
proof (cases "n = 0")
  case True
  let ?s = "upd_path a (\<lambda>p. p\<lparr>pt_state := LINKG_PATH_STATE_RELEASED\<rparr>) s"
  have zero: "pt_reference_count (path_at s a) = 0" using assms(3) True by (simp add: unat_eq_zero)
  have s1: "s1 = ?s" "ret = 0" "released"
    using assms(1,2,5) zero by (auto simp: linkg_path_retire_def linkg_path_complete_release_def path_ready_def Let_def)
  have "linkg_path_release (Some a) ?s = ?s"
    using assms(1) zero by (simp add: linkg_path_release_def linkg_path_release_reference_def path_ready_def)
  then have "(linkg_path_release (Some a) ^^ k) ?s = ?s" by (induction k) simp_all
  then show ?thesis
    using assms(1,6) zero True s1
    by (simp add: linkg_path_get_state_def linkg_path_get_reference_count_def path_ready_def)
next
  case False
  let ?s = "upd_path a (\<lambda>p. p\<lparr>pt_state := LINKG_PATH_STATE_RETIRED\<rparr>) s"
  have "pt_reference_count (path_at s a) \<noteq> 0" using assms(3) False by auto
  then have s1: "s1 = ?s" "ret = 0" "\<not> released"
    using assms(1,2,5) by (auto simp: linkg_path_retire_def path_ready_def Let_def)
  have "0 < n" using False by simp
  then show ?thesis
    using release_run [of ?s a n f k] assms(1,3,4,6) s1 False
    by (simp add: linkg_path_get_state_def linkg_path_get_reference_count_def path_ready_def Let_def)
qed

section \<open>Paths as reference-counted objects\<close>

definition path_refs :: "path_store \<Rightarrow> nat \<Rightarrow> nat" where
  "path_refs s a = unat (linkg_path_get_reference_count (Some a) s)"

definition path_may_acquire :: "path_store \<Rightarrow> nat \<Rightarrow> bool" where
  "path_may_acquire s a \<longleftrightarrow> linkg_path_is_active (Some a) s \<and> path_refs s a < 2 ^ 32 - 1"

lemma path_refs_upd_other: "x \<noteq> a \<Longrightarrow> path_refs (upd_path a f s) x = path_refs s x"
  by (simp add: path_refs_def linkg_path_get_reference_count_def path_ready_def)

lemma acquire_batch_active:
  assumes "linkg_path_is_active (Some a) s" "n \<noteq> 0"
  shows "linkg_path_acquire_batch (Some a) n s =
    (0, upd_path a (\<lambda>p. p\<lparr>pt_reference_count := pt_reference_count p + n\<rparr>) s)"
  using assms by (auto simp: linkg_path_acquire_batch_def linkg_path_is_active_def linkg_path_get_state_def
      path_ready_def split: if_splits)

lemma path_refs_release:
  assumes "0 < path_refs s a"
  shows "path_refs (linkg_path_release (Some a) s) x = (if x = a then path_refs s a - 1 else path_refs s x)"
proof -
  have init: "pt_initialized (path_at s a)" and nz: "pt_reference_count (path_at s a) \<noteq> 0"
    using assms by (auto simp: path_refs_def linkg_path_get_reference_count_def path_ready_def split: if_splits)
  show ?thesis
    unfolding release_effect [OF init] using init nz
    by (auto simp: path_refs_def linkg_path_get_reference_count_def path_ready_def Let_def unat_dec)
qed

interpretation path: refcount "\<lambda>a s. snd (linkg_path_acquire (Some a) s)" "\<lambda>a. linkg_path_release (Some a)"
  path_refs store_ok path_may_acquire
proof
  fix s a x
  show "store_ok (snd (linkg_path_acquire (Some a) s))" if "store_ok s" "path_may_acquire s a"
    using that op_acquire [of "Some a" s 1] path_op_store_ok
    by (auto simp: linkg_path_acquire_def path_may_acquire_def path_refs_def)
  show "path_refs (snd (linkg_path_acquire (Some a) s)) x = (if x = a then path_refs s a + 1 else path_refs s x)"
    if "store_ok s" "path_may_acquire s a"
  proof -
    have active: "linkg_path_is_active (Some a) s" and small: "path_refs s a < 2 ^ 32 - 1"
      using that(2) by (auto simp: path_may_acquire_def)
    then have init: "pt_initialized (path_at s a)"
      by (auto simp: linkg_path_is_active_def linkg_path_get_state_def path_ready_def split: if_splits)
    show ?thesis
      using acquire_batch_active [OF active, of 1] init small unat_inc [of "pt_reference_count (path_at s a)"]
      by (auto simp: linkg_path_acquire_def path_refs_def linkg_path_get_reference_count_def path_ready_def)
  qed
  show "store_ok (linkg_path_release (Some a) s)" if "store_ok s" "0 < path_refs s a"
    using path_op_store_ok [OF op_release that(1)] .
  show "path_refs (linkg_path_release (Some a) s) x = (if x = a then path_refs s a - 1 else path_refs s x)"
    if "store_ok s" "0 < path_refs s a"
    using that(2) by (rule path_refs_release)
qed

section \<open>Interleaved releases and retirement\<close>

text \<open>
  Sending threads call \<open>linkg_path_release\<close> while the node thread, under its lock, calls
  \<open>linkg_path_acquire_batch\<close> and \<open>linkg_path_retire\<close>. Their atomic accesses are the steps: a release
  that drops the last reference still has its compare-and-exchange of the state ahead of it
  (\<open>rn_pending\<close> counts those threads); a retirement marks the path, loads the count and, when it was
  zero, completes. The counters record how the release was announced: to the caller of
  \<open>linkg_path_retire\<close> (\<open>rn_sync\<close>) or by the callback (\<open>rn_async\<close>). With \<open>calm\<close> an acquire waits until
  no release is between its two accesses.
\<close>

datatype retire_pc = Retire_Idle | Retire_Marked | Retire_Zero | Retire_Done

record path_run =
  rn_state :: linkg_path_state
  rn_refs :: nat
  rn_pending :: nat
  rn_retire :: retire_pc
  rn_sync :: nat
  rn_async :: nat

inductive path_step :: "bool \<Rightarrow> path_run \<Rightarrow> path_run \<Rightarrow> bool" for calm where
  step_acquire: "rn_state r = LINKG_PATH_STATE_ACTIVE \<Longrightarrow> 0 < n \<Longrightarrow> (calm \<Longrightarrow> rn_pending r = 0) \<Longrightarrow>
    path_step calm r (r\<lparr>rn_refs := rn_refs r + n\<rparr>)"
| step_release: "1 < rn_refs r \<Longrightarrow> path_step calm r (r\<lparr>rn_refs := rn_refs r - 1\<rparr>)"
| step_release_last: "rn_refs r = 1 \<Longrightarrow>
    path_step calm r (r\<lparr>rn_refs := 0, rn_pending := rn_pending r + 1\<rparr>)"
| step_complete: "0 < rn_pending r \<Longrightarrow> rn_state r = LINKG_PATH_STATE_RETIRED \<Longrightarrow>
    path_step calm r (r\<lparr>rn_pending := rn_pending r - 1, rn_state := LINKG_PATH_STATE_RELEASED,
      rn_async := rn_async r + 1\<rparr>)"
| step_complete_not: "0 < rn_pending r \<Longrightarrow> rn_state r \<noteq> LINKG_PATH_STATE_RETIRED \<Longrightarrow>
    path_step calm r (r\<lparr>rn_pending := rn_pending r - 1\<rparr>)"
| step_retire: "rn_state r = LINKG_PATH_STATE_ACTIVE \<Longrightarrow>
    path_step calm r (r\<lparr>rn_state := LINKG_PATH_STATE_RETIRED, rn_retire := Retire_Marked\<rparr>)"
| step_retire_load: "rn_retire r = Retire_Marked \<Longrightarrow>
    path_step calm r (r\<lparr>rn_retire := (if rn_refs r = 0 then Retire_Zero else Retire_Done)\<rparr>)"
| step_retire_complete: "rn_retire r = Retire_Zero \<Longrightarrow> rn_state r = LINKG_PATH_STATE_RETIRED \<Longrightarrow>
    path_step calm r (r\<lparr>rn_retire := Retire_Done, rn_state := LINKG_PATH_STATE_RELEASED, rn_sync := rn_sync r + 1\<rparr>)"
| step_retire_complete_not: "rn_retire r = Retire_Zero \<Longrightarrow> rn_state r \<noteq> LINKG_PATH_STATE_RETIRED \<Longrightarrow>
    path_step calm r (r\<lparr>rn_retire := Retire_Done\<rparr>)"

definition run_start :: path_run where
  "run_start = \<lparr>rn_state = LINKG_PATH_STATE_ACTIVE, rn_refs = 0, rn_pending = 0, rn_retire = Retire_Idle,
     rn_sync = 0, rn_async = 0\<rparr>"

text \<open>The operations of the store, run without interruption, are runs of these steps.\<close>

definition run_of :: "linkg_path \<Rightarrow> retire_pc \<Rightarrow> nat \<Rightarrow> nat \<Rightarrow> path_run" where
  "run_of p pc syn asyn = \<lparr>rn_state = pt_state p, rn_refs = unat (pt_reference_count p), rn_pending = 0,
     rn_retire = pc, rn_sync = syn, rn_async = asyn\<rparr>"

lemma release_is_run:
  assumes "pt_initialized (path_at s a)" "0 < path_refs s a"
  shows "\<exists>asyn'. (path_step calm)\<^sup>*\<^sup>* (run_of (path_at s a) pc syn asyn)
      (run_of (path_at (linkg_path_release (Some a) s) a) pc syn asyn') \<and>
    (asyn' = asyn + 1 \<longleftrightarrow> pt_state (path_at s a) = LINKG_PATH_STATE_RETIRED \<and> path_refs s a = 1)"
proof -
  let ?p = "path_at s a" and ?r = "run_of (path_at s a) pc syn asyn"
  have refs: "path_refs s a = unat (pt_reference_count ?p)"
    using assms(1) by (simp add: path_refs_def linkg_path_get_reference_count_def path_ready_def)
  have nz: "pt_reference_count ?p \<noteq> 0" using assms(2) refs by auto
  have one: "pt_reference_count ?p = 1 \<longleftrightarrow> path_refs s a = 1" unfolding refs by (metis unsigned_1 unsigned_word_eqI)
  show ?thesis
  proof (cases "path_refs s a = 1")
    case False
    then have "path_step calm ?r (run_of (path_at (linkg_path_release (Some a) s) a) pc syn asyn)"
      using step_release [of ?r calm] assms(2) refs nz one
      unfolding release_effect [OF assms(1)] by (simp add: run_of_def Let_def unat_dec)
    then show ?thesis using False by (intro exI [of _ asyn]) auto
  next
    case True
    let ?r1 = "?r\<lparr>rn_refs := 0, rn_pending := 1\<rparr>"
    have first: "path_step calm ?r ?r1"
      using step_release_last [of ?r calm] True refs by (simp add: run_of_def)
    show ?thesis
    proof (cases "pt_state ?p = LINKG_PATH_STATE_RETIRED")
      case ret: True
      have "path_step calm ?r1 (run_of (path_at (linkg_path_release (Some a) s) a) pc syn (asyn + 1))"
        using step_complete [of ?r1 calm] ret one True nz
        unfolding release_effect [OF assms(1)] by (simp add: run_of_def Let_def)
      then show ?thesis using first True ret by (intro exI [of _ "asyn + 1"]) auto
    next
      case nret: False
      have "path_step calm ?r1 (run_of (path_at (linkg_path_release (Some a) s) a) pc syn asyn)"
        using step_complete_not [of ?r1 calm] nret one True nz
        unfolding release_effect [OF assms(1)] by (simp add: run_of_def Let_def)
      then show ?thesis using first nret by (intro exI [of _ asyn]) auto
    qed
  qed
qed

lemma retire_is_run:
  assumes "pt_initialized (path_at s a)" "pt_state (path_at s a) = LINKG_PATH_STATE_ACTIVE"
    and "linkg_path_retire (Some a) s = (ret, released, s')"
  shows "(path_step calm)\<^sup>*\<^sup>* (run_of (path_at s a) Retire_Idle syn asyn)
     (run_of (path_at s' a) Retire_Done (if released then syn + 1 else syn) asyn)"
proof -
  let ?r = "run_of (path_at s a) Retire_Idle syn asyn"
  let ?r1 = "?r\<lparr>rn_state := LINKG_PATH_STATE_RETIRED, rn_retire := Retire_Marked\<rparr>"
  let ?r2 = "?r1\<lparr>rn_retire := (if rn_refs ?r1 = 0 then Retire_Zero else Retire_Done)\<rparr>"
  have steps: "(path_step calm)\<^sup>*\<^sup>* ?r ?r2"
    using step_retire [of ?r calm] step_retire_load [of ?r1 calm] assms(2)
    by (simp add: run_of_def)
  show ?thesis
  proof (cases "pt_reference_count (path_at s a) = 0")
    case True
    then have s': "s' = upd_path a (\<lambda>p. p\<lparr>pt_state := LINKG_PATH_STATE_RELEASED\<rparr>) s" "released"
      using assms by (auto simp: linkg_path_retire_def linkg_path_complete_release_def path_ready_def Let_def)
    have "path_step calm ?r2 (run_of (path_at s' a) Retire_Done (syn + 1) asyn)"
      using step_retire_complete [of ?r2 calm] True by (simp add: run_of_def s')
    then show ?thesis using steps s'(2) by simp
  next
    case False
    then have "s' = upd_path a (\<lambda>p. p\<lparr>pt_state := LINKG_PATH_STATE_RETIRED\<rparr>) s" "\<not> released"
      using assms by (auto simp: linkg_path_retire_def path_ready_def Let_def)
    then show ?thesis using steps False by (simp add: run_of_def unat_eq_zero)
  qed
qed

definition run_inv :: "path_run \<Rightarrow> bool" where
  "run_inv r \<longleftrightarrow>
     rn_sync r + rn_async r = (if rn_state r = LINKG_PATH_STATE_RELEASED then 1 else 0) \<and>
     rn_state r \<noteq> LINKG_PATH_STATE_EMPTY \<and>
     (rn_state r = LINKG_PATH_STATE_ACTIVE \<longleftrightarrow> rn_retire r = Retire_Idle) \<and>
     (rn_retire r = Retire_Zero \<longrightarrow> rn_refs r = 0) \<and>
     (rn_state r = LINKG_PATH_STATE_RETIRED \<and> rn_retire r = Retire_Done \<and> rn_refs r = 0 \<longrightarrow> 0 < rn_pending r)"

definition calm_inv :: "path_run \<Rightarrow> bool" where
  "calm_inv r \<longleftrightarrow> run_inv r \<and> (0 < rn_pending r \<longrightarrow> rn_refs r = 0) \<and>
     (rn_state r = LINKG_PATH_STATE_RELEASED \<longrightarrow> rn_refs r = 0)"

lemma run_inv_reach:
  assumes "(path_step calm)\<^sup>*\<^sup>* run_start r"
  shows "run_inv r"
  using assms
proof (induction rule: rtranclp_induct)
  case base
  then show ?case by (simp add: run_inv_def run_start_def)
next
  case (step r r')
  from step(2,3) show ?case by (cases rule: path_step.cases) (auto simp: run_inv_def)
qed

lemma calm_inv_reach:
  assumes "(path_step True)\<^sup>*\<^sup>* run_start r"
  shows "calm_inv r"
  using assms
proof (induction rule: rtranclp_induct)
  case base
  then show ?case by (simp add: calm_inv_def run_inv_def run_start_def)
next
  case (step r r')
  from step(2,3) show ?case by (cases rule: path_step.cases) (auto simp: calm_inv_def run_inv_def)
qed

text \<open>
  C3. In every interleaving of releases, acquires and a retirement: a path is announced as released exactly
  once, to the retiring caller or by the callback and never both, and exactly when its state is RELEASED; and
  when the retirement has finished, no release is half done and no reference is left, the path has been
  released: it is never stuck.
\<close>

theorem path_release_interleaved:
  assumes "(path_step calm)\<^sup>*\<^sup>* run_start r"
  shows "rn_sync r + rn_async r = (if rn_state r = LINKG_PATH_STATE_RELEASED then 1 else 0) \<and>
    (rn_retire r = Retire_Done \<and> rn_pending r = 0 \<and> rn_refs r = 0 \<longrightarrow> rn_state r = LINKG_PATH_STATE_RELEASED)"
  using run_inv_reach [OF assms] by (cases "rn_state r") (auto simp: run_inv_def)

text \<open>
  When no reference is taken while a release is between its decrement and its state exchange, a path that
  is RELEASED has no reference left, in every interleaving.
\<close>

theorem path_released_unreferenced_calm:
  assumes "(path_step True)\<^sup>*\<^sup>* run_start r" "rn_state r = LINKG_PATH_STATE_RELEASED"
  shows "rn_refs r = 0"
  using calm_inv_reach [OF assms(1)] assms(2) by (simp add: calm_inv_def)

text \<open>
  C39. Without that restriction, which no lock of the code imposes, there is a schedule in which the path is
  RELEASED and its owner called back while one reference is held: a thread drops the last reference of an
  active path, the node takes its clean-up reference and retires the path, and only then the thread
  exchanges the state.
\<close>

theorem path_released_while_referenced:
  "\<exists>r. (path_step False)\<^sup>*\<^sup>* run_start r \<and> rn_state r = LINKG_PATH_STATE_RELEASED \<and> rn_refs r = 1 \<and>
     rn_async r = 1 \<and> rn_retire r = Retire_Done \<and> rn_pending r = 0"
proof -
  let ?a = "run_start\<lparr>rn_refs := 1\<rparr>" and ?b = "run_start\<lparr>rn_pending := 1\<rparr>"
  let ?c = "run_start\<lparr>rn_refs := 1, rn_pending := 1\<rparr>"
  let ?d = "?c\<lparr>rn_state := LINKG_PATH_STATE_RETIRED, rn_retire := Retire_Marked\<rparr>"
  let ?e = "?d\<lparr>rn_retire := Retire_Done\<rparr>"
  let ?f = "?e\<lparr>rn_pending := 0, rn_state := LINKG_PATH_STATE_RELEASED, rn_async := 1\<rparr>"
  note [trans] = rtranclp.rtrancl_into_rtrancl
  have "(path_step False)\<^sup>*\<^sup>* run_start ?a"
    using step_acquire [of run_start 1 False] by (intro r_into_rtranclp) (simp add: run_start_def)
  also have "path_step False ?a ?b" using step_release_last [of ?a False] by (simp add: run_start_def)
  also have "path_step False ?b ?c" using step_acquire [of ?b 1 False] by (simp add: run_start_def)
  also have "path_step False ?c ?d" using step_retire [of ?c False] by (simp add: run_start_def)
  also have "path_step False ?d ?e" using step_retire_load [of ?d False] by (simp add: run_start_def)
  also have "path_step False ?e ?f" using step_complete [of ?e False] by (simp add: run_start_def)
  finally have "(path_step False)\<^sup>*\<^sup>* run_start ?f" .
  then show ?thesis by (intro exI [of _ ?f]) simp
qed

section \<open>Accounting of the statistics\<close>

datatype path_event =
    Ev_tx_success u64 u64
  | Ev_tx_success_class u32 u64 u64
  | Ev_tx_failed u64 u64
  | Ev_tx_dropped u64 u64
  | Ev_tx_expired u64 u64
  | Ev_tx_queue_overflow u64 u64
  | Ev_tx_queue_overflow_class u32 u64 u64
  | Ev_rx u64 u64

fun record_event :: "nat option \<Rightarrow> path_event \<Rightarrow> path_store \<Rightarrow> path_store" where
  "record_event a (Ev_tx_success b n) = linkg_path_record_tx_success a b n"
| "record_event a (Ev_tx_success_class c b n) = linkg_path_record_tx_success_class a c b n"
| "record_event a (Ev_tx_failed b n) = linkg_path_record_tx_failed a b n"
| "record_event a (Ev_tx_dropped b n) = linkg_path_record_tx_dropped a b n"
| "record_event a (Ev_tx_expired b n) = linkg_path_record_tx_expired a b n"
| "record_event a (Ev_tx_queue_overflow b n) = linkg_path_record_tx_queue_overflow a b n"
| "record_event a (Ev_tx_queue_overflow_class c b n) = linkg_path_record_tx_queue_overflow_class a c b n"
| "record_event a (Ev_rx b n) = linkg_path_record_rx a b n"

text \<open>The packets each kind of event is worth, for the counters that have no class.\<close>

fun plain_tx :: "path_event \<Rightarrow> u64" where
  "plain_tx (Ev_tx_success b n) = n" | "plain_tx _ = 0"

fun plain_overflow :: "path_event \<Rightarrow> u64" where
  "plain_overflow (Ev_tx_queue_overflow b n) = n" | "plain_overflow _ = 0"

fun plain_drop :: "path_event \<Rightarrow> u64" where
  "plain_drop (Ev_tx_dropped b n) = n" | "plain_drop _ = 0"

definition class_sum :: "(linkg_path_class_tx_stats \<Rightarrow> u64) \<Rightarrow> linkg_path_stats \<Rightarrow> u64" where
  "class_sum f st = sum_list (map f (st_tx_classes st))"

lemma class_index_cases: "\<not> (c :: u32) \<ge> 3 \<Longrightarrow> c = 0 \<or> c = 1 \<or> c = 2"
proof -
  assume "\<not> c \<ge> 3"
  then have "unat c < 3" by (simp add: word_le_nat_alt)
  then have "unat c = unat (0 :: u32) \<or> unat c = unat (1 :: u32) \<or> unat c = unat (2 :: u32)" by auto
  then show ?thesis by (metis unsigned_word_eqI)
qed

lemma record_event_balance:
  assumes "pt_initialized (path_at s a)" "length (st_tx_classes (pt_stats (path_at s a))) = 3"
    and "st = pt_stats (path_at s a)" "st' = pt_stats (path_at (record_event (Some a) e s) a)"
  shows "st_tx_packets st' - class_sum cs_tx_packets st' =
      st_tx_packets st - class_sum cs_tx_packets st + plain_tx e"
    and "st_tx_queue_overflow_packets st' - class_sum cs_tx_queue_overflow_packets st' =
      st_tx_queue_overflow_packets st - class_sum cs_tx_queue_overflow_packets st + plain_overflow e"
    and "st_tx_dropped_packets st' - st_tx_queue_overflow_packets st' =
      st_tx_dropped_packets st - st_tx_queue_overflow_packets st + plain_drop e"
    and "pt_initialized (path_at (record_event (Some a) e s) a)" "length (st_tx_classes st') = 3"
proof -
  obtain x y z where xyz: "st_tx_classes (pt_stats (path_at s a)) = [x, y, z]"
    using assms(2) by (auto simp: numeral_eq_Suc length_Suc_conv)
  note defs = linkg_path_record_tx_success_def linkg_path_record_tx_failed_def linkg_path_record_tx_dropped_def
    linkg_path_record_tx_expired_def linkg_path_record_tx_queue_overflow_def linkg_path_record_rx_def
    linkg_path_record_tx_success_class_def linkg_path_record_tx_queue_overflow_class_def record_stats_def
    path_ready_def class_sum_def linkg_path_stats_record_tx_success_def linkg_path_stats_record_tx_failed_def
    linkg_path_stats_record_tx_dropped_def linkg_path_stats_record_tx_expired_def
    linkg_path_stats_record_tx_queue_overflow_def linkg_path_stats_record_rx_def
    linkg_path_stats_record_tx_success_class_def linkg_path_stats_record_tx_queue_overflow_class_def Let_def
  show "pt_initialized (path_at (record_event (Some a) e s) a)" using assms(1) by (cases e) (simp_all add: defs)
  show "length (st_tx_classes st') = 3" using assms by (cases e) (simp_all add: defs)
  show "st_tx_packets st' - class_sum cs_tx_packets st' =
      st_tx_packets st - class_sum cs_tx_packets st + plain_tx e"
    using assms(1,3,4) xyz by (cases e) (auto simp: defs dest: class_index_cases)
  show "st_tx_queue_overflow_packets st' - class_sum cs_tx_queue_overflow_packets st' =
      st_tx_queue_overflow_packets st - class_sum cs_tx_queue_overflow_packets st + plain_overflow e"
    using assms(1,3,4) xyz by (cases e) (auto simp: defs dest: class_index_cases)
  show "st_tx_dropped_packets st' - st_tx_queue_overflow_packets st' =
      st_tx_dropped_packets st - st_tx_queue_overflow_packets st + plain_drop e"
    using assms(1,3,4) xyz by (cases e) (auto simp: defs dest: class_index_cases)
qed

lemma record_events_balance:
  assumes "pt_initialized (path_at s a)" "length (st_tx_classes (pt_stats (path_at s a))) = 3"
    and "st = pt_stats (path_at s a)" "st' = pt_stats (path_at (fold (record_event (Some a)) es s) a)"
  shows "st_tx_packets st' - class_sum cs_tx_packets st' =
      st_tx_packets st - class_sum cs_tx_packets st + sum_list (map plain_tx es) \<and>
    st_tx_queue_overflow_packets st' - class_sum cs_tx_queue_overflow_packets st' =
      st_tx_queue_overflow_packets st - class_sum cs_tx_queue_overflow_packets st + sum_list (map plain_overflow es) \<and>
    st_tx_dropped_packets st' - st_tx_queue_overflow_packets st' =
      st_tx_dropped_packets st - st_tx_queue_overflow_packets st + sum_list (map plain_drop es) \<and>
    pt_initialized (path_at (fold (record_event (Some a)) es s) a)"
  using assms
proof (induction es arbitrary: s st)
  case (Cons e es)
  note step = record_event_balance [OF Cons.prems(1,2) refl refl, of e]
  note IH = Cons.IH [OF step(4,5) refl]
  show ?case using IH Cons.prems(3,4) step by simp
qed simp

text \<open>
  From the activation of a path on, whatever is recorded: the dropped packets are the plain drops plus the
  queue overflows, and the transmitted and overflowed packets are the sums of the three class counters plus
  what was recorded without a class; no recording is lost or counted twice, modulo 2^64.
\<close>

theorem path_stats_accounting:
  assumes "store_ok s" "linkg_path_activate (Some a) link_id (Some next_hop) released user_data s = (0, s1)"
    and "linkg_path_get_stats (Some a) (fold (record_event (Some a)) es s1) = Inr st"
  shows "st_tx_packets st = class_sum cs_tx_packets st + sum_list (map plain_tx es) \<and>
    st_tx_queue_overflow_packets st = class_sum cs_tx_queue_overflow_packets st + sum_list (map plain_overflow es) \<and>
    st_tx_dropped_packets st = st_tx_queue_overflow_packets st + sum_list (map plain_drop es)"
proof -
  have zero: "pt_initialized (path_at s1 a)" "pt_stats (path_at s1 a) = stats_zero"
    using assms(1,2)
    by (auto simp: linkg_path_activate_def reset_stats_ok path_ready_def Let_def split: if_splits)
  have st: "st = pt_stats (path_at (fold (record_event (Some a)) es s1) a)"
    using assms(3) by (simp add: linkg_path_get_stats_def Let_def split: if_splits)
  have "class_sum cs_tx_packets stats_zero = 0" "class_sum cs_tx_queue_overflow_packets stats_zero = 0"
    by (simp_all add: class_sum_def stats_zero_def class_stats_zero_def sum_list_replicate)
  then show ?thesis
    using record_events_balance [OF zero(1) _ refl st] by (simp add: zero(2) diff_eq_eq) (simp add: stats_zero_def algebra_simps)
qed

section \<open>A concrete path\<close>

definition sample_paths :: path_store where
  "sample_paths = \<lparr>path_at = (\<lambda>a. if a = 2 then path_zero\<lparr>pt_initialized := True\<rparr> else path_zero), released_log = []\<rparr>"

definition sample_endpoint :: linkg_path_endpoint where
  "sample_endpoint = \<lparr>ep_address = [10, 0, 0, 1], ep_length = 4\<rparr>"

definition sample_active :: path_store where
  "sample_active = snd (linkg_path_activate (Some 2) 7 (Some sample_endpoint) (Some 50) (Some 60) sample_paths)"

lemma sample_paths_ok: "store_ok sample_paths"
  by (simp add: store_ok_def sample_paths_def path_ok_def path_zero_def)

lemma sample_ready: "path_ready (Some 2) sample_paths"
  by (simp add: path_ready_def sample_paths_def)

lemma sample_activate:
  "linkg_path_activate (Some 2) 7 (Some sample_endpoint) (Some 50) (Some 60) sample_paths = (0, sample_active)"
  by (simp add: prod_eq_iff sample_active_def)
    (simp add: linkg_path_activate_def reset_stats_ok [OF sample_paths_ok sample_ready] sample_ready Let_def,
     simp add: sample_paths_def path_zero_def)

lemma sample_active_path:
  "path_at sample_active 2 = path_zero\<lparr>pt_initialized := True, pt_link_id := 7, pt_next_hop := sample_endpoint,
     pt_released := Some 50, pt_released_user_data := Some 60, pt_state := LINKG_PATH_STATE_ACTIVE\<rparr>"
  "released_log sample_active = []"
  by (simp_all add: sample_active_def linkg_path_activate_def reset_stats_ok [OF sample_paths_ok sample_ready]
      sample_ready Let_def) (simp_all add: sample_paths_def path_zero_def)

theorem path_lifecycle_witness:
  "store_ok sample_active \<and> path_state_of sample_active 2 = LINKG_PATH_STATE_ACTIVE"
proof -
  have "path_op sample_paths sample_active" unfolding sample_active_def by (rule op_activate)
  then have "path_op\<^sup>*\<^sup>* sample_paths sample_active" by blast
  then show ?thesis
    using path_lifecycle [of sample_paths sample_active] sample_paths_ok
    by (simp add: path_state_of_def linkg_path_get_state_def path_ready_def sample_active_path)
qed

definition sample_held :: path_store where
  "sample_held = snd (linkg_path_acquire_batch (Some 2) 2 sample_active)"

lemma sample_held_path:
  "path_at sample_held 2 = (path_at sample_active 2)\<lparr>pt_reference_count := 2\<rparr>" "released_log sample_held = []"
  by (simp_all add: sample_held_def linkg_path_acquire_batch_def path_ready_def sample_active_path path_zero_def)

lemma surjective_pairing3: "x = (fst x, fst (snd x), snd (snd x))"
  by simp

theorem path_retire_release_once_witness:
  "released_log ((linkg_path_release (Some 2) ^^ 3) (snd (snd (linkg_path_retire (Some 2) sample_held)))) =
     [(2, 50, Some 60)]"
  using path_retire_release_once [of sample_held 2 2 50 _ _ _ _ 3, OF _ _ _ _ surjective_pairing3 refl]
  by (simp add: sample_held_path sample_active_path path_zero_def)

theorem path_release_interleaved_witness:
  "rn_sync (run_start\<lparr>rn_refs := 1\<rparr>) + rn_async (run_start\<lparr>rn_refs := 1\<rparr>) = 0"
proof -
  have "(path_step False)\<^sup>*\<^sup>* run_start (run_start\<lparr>rn_refs := 1\<rparr>)"
    using step_acquire [of run_start 1 False] by (intro r_into_rtranclp) (simp add: run_start_def)
  from path_release_interleaved [OF this] show ?thesis by (simp add: run_start_def)
qed

theorem path_released_unreferenced_calm_witness:
  "rn_refs (run_start\<lparr>rn_state := LINKG_PATH_STATE_RELEASED, rn_retire := Retire_Done, rn_sync := 1\<rparr>) = 0"
proof (rule path_released_unreferenced_calm)
  let ?a = "run_start\<lparr>rn_state := LINKG_PATH_STATE_RETIRED, rn_retire := Retire_Marked\<rparr>"
  let ?b = "?a\<lparr>rn_retire := Retire_Zero\<rparr>"
  note [trans] = rtranclp.rtrancl_into_rtrancl
  have "(path_step True)\<^sup>*\<^sup>* run_start ?a"
    using step_retire [of run_start True] by (intro r_into_rtranclp) (simp add: run_start_def)
  also have "path_step True ?a ?b" using step_retire_load [of ?a True] by (simp add: run_start_def)
  also have "path_step True ?b (run_start\<lparr>rn_state := LINKG_PATH_STATE_RELEASED, rn_retire := Retire_Done, rn_sync := 1\<rparr>)"
    using step_retire_complete [of ?b True] by (simp add: run_start_def)
  finally show "(path_step True)\<^sup>*\<^sup>* run_start (run_start\<lparr>rn_state := LINKG_PATH_STATE_RELEASED, rn_retire := Retire_Done, rn_sync := 1\<rparr>)" .
qed simp

theorem path_stats_accounting_witness:
  "st_tx_dropped_packets (pt_stats (path_at (fold (record_event (Some 2))
       [Ev_tx_dropped 100 2, Ev_tx_queue_overflow_class 1 900 3] sample_active) 2)) =
   st_tx_queue_overflow_packets (pt_stats (path_at (fold (record_event (Some 2))
       [Ev_tx_dropped 100 2, Ev_tx_queue_overflow_class 1 900 3] sample_active) 2)) + 2"
proof -
  let ?s = "fold (record_event (Some 2)) [Ev_tx_dropped 100 2, Ev_tx_queue_overflow_class 1 900 3] sample_active"
  have "linkg_path_get_stats (Some 2) ?s = Inr (pt_stats (path_at ?s 2))"
    by (simp add: linkg_path_get_stats_def linkg_path_record_tx_dropped_def record_stats_def path_ready_def
        linkg_path_record_tx_queue_overflow_class_def sample_active_path path_zero_def Let_def mutex_zero_def)
  from path_stats_accounting [OF sample_paths_ok sample_activate this] show ?thesis by simp
qed

end
