(* ===== verification/Link_Tx.thy ===== *)
theory Link_Tx
  imports Link_Path Fragment_Cache
begin

text \<open>
  Submission of a batch to a link: \<open>src/core/link/link_tx.c\<close>.

  The link base class checks the packets, passes the gate (its interleavings are in \<open>Link_Life\<close>) and hands the
  batch to the driver in chunks of at most \<open>tx_batch_size\<close> packets, never cutting between the first and the
  last frame of a transmit group. The driver is a parameter: its private state is \<open>'d\<close>, and for each index of
  a chunk it may or may not write a result.
\<close>

abbreviation (input) EIO :: int where "EIO \<equiv> 5"
abbreviation (input) EXDEV :: int where "EXDEV \<equiv> 18"
abbreviation (input) ENETDOWN :: int where "ENETDOWN \<equiv> 100"
abbreviation (input) LINKG_LINK_ID_INVALID :: u32 where "LINKG_LINK_ID_INVALID \<equiv> 0"
abbreviation (input) LINKG_LINK_TX_CLASS_COUNT :: u32 where "LINKG_LINK_TX_CLASS_COUNT \<equiv> 3"

section \<open>State\<close>

text \<open>A driver call gets the packets of the chunk; it answers a code, the results it wrote and its new state.\<close>

type_synonym 'd send_batch = "nat list \<Rightarrow> 'd \<times> heap \<Rightarrow> int \<times> (nat \<Rightarrow> int option) \<times> 'd \<times> heap"

text \<open>\<open>send_batch\<close> and \<open>purge_tx_path\<close> of the operations; a purge answers a code and \<open>*purged_count\<close>.\<close>

record 'd linkg_link_ops =
  lo_send_batch :: "(nat \<Rightarrow> u32 \<Rightarrow> linkg_path_endpoint \<Rightarrow> 'd send_batch) option"
  lo_purge_tx_path :: "(nat \<Rightarrow> 'd \<times> heap \<Rightarrow> int \<times> u32 \<times> 'd \<times> heap) option"

record linkg_link_runtime =
  ln_tx_batch_size :: u32

record 'd linkg_link =
  lk_id :: u32
  lk_ops :: "'d linkg_link_ops option"
  lk_runtime :: "linkg_link_runtime option"

text \<open>
  What the gate sees: whether the link is running before and after taking the lock, whether it is opened,
  and whether the path is active.
\<close>

record link_gate =
  lg_running_before :: bool
  lg_running :: bool
  lg_opened :: bool
  lg_path_active :: bool

section \<open>Internal helpers\<close>

definition linkg_link_validate_tx_packet :: "nat option \<Rightarrow> heap \<Rightarrow> int" where
  "linkg_link_validate_tx_packet packet h =
     (case packet of
        None \<Rightarrow> - EINVAL
      | Some p \<Rightarrow>
         (if pk_pool (pk_at h p) = None \<or> pk_slot (pk_at h p) = None then - EINVAL
          else if pk_data_offset (pk_at h p) > pool_slot_size h p then - EINVAL
          else if pk_data_length (pk_at h p) = 0 then - EINVAL
          else if pk_data_length (pk_at h p) > pool_slot_size h p - pk_data_offset (pk_at h p) then - EMSGSIZE
          else 0))"

definition linkg_link_tx_class_valid :: "u32 \<Rightarrow> bool" where
  "linkg_link_tx_class_valid tx_class \<longleftrightarrow> tx_class \<ge> 0 \<and> tx_class < LINKG_LINK_TX_CLASS_COUNT"

definition linkg_link_tx_split_group :: "nat \<Rightarrow> nat \<Rightarrow> heap \<Rightarrow> bool" where
  "linkg_link_tx_split_group first last_packet h \<longleftrightarrow>
     pk_flags (pk_at h first) AND LINKG_PACKET_FLAG_TX_GROUP_MASK = LINKG_PACKET_FLAG_TX_GROUP_FIRST \<and>
     pk_flags (pk_at h last_packet) AND LINKG_PACKET_FLAG_TX_GROUP_MASK = LINKG_PACKET_FLAG_TX_GROUP_LAST"

text \<open>The packets are those from \<open>offset\<close> on.\<close>

definition linkg_link_tx_get_chunk_count :: "nat list \<Rightarrow> u32 \<Rightarrow> heap \<Rightarrow> nat" where
  "linkg_link_tx_get_chunk_count packets batch_size h =
     (let remaining = length packets;
          chunk_count = (if remaining > unat batch_size then unat batch_size else remaining)
      in if chunk_count = remaining then chunk_count
         else if linkg_link_tx_split_group (packets ! (chunk_count - 1)) (packets ! chunk_count) h
         then chunk_count - 1 else chunk_count)"

text \<open>The logging does not change anything. The results and the number of zeros among them.\<close>

definition linkg_link_tx_finalize_chunk :: "int list \<Rightarrow> nat \<times> int list" where
  "linkg_link_tx_finalize_chunk results =
     (let results' = map (\<lambda>r. if r = - EINPROGRESS then - EIO else r) results
      in (length (filter (\<lambda>r. r = 0) results'), results'))"

text \<open>The results of a chunk after the driver wrote to some of them.\<close>

definition driver_results :: "nat \<Rightarrow> (nat \<Rightarrow> int option) \<Rightarrow> int list" where
  "driver_results n written = map (\<lambda>i. case written i of None \<Rightarrow> - EINPROGRESS | Some r \<Rightarrow> r) [0..<n]"

section \<open>Submission\<close>

lemma chunk_count_le: "linkg_link_tx_get_chunk_count packets batch_size h \<le> length packets"
  by (auto simp: linkg_link_tx_get_chunk_count_def Let_def)

text \<open>The loop: the accepted count, the first error, whether a chunk was processed, the results and the state.\<close>

function link_submit_loop ::
    "'d send_batch \<Rightarrow> u32 \<Rightarrow> nat list \<Rightarrow> bool \<Rightarrow> 'd \<times> heap \<Rightarrow> nat \<times> int \<times> bool \<times> int list \<times> 'd \<times> heap" where
  "link_submit_loop send batch_size packets processed s =
     (if packets = [] then (0, 0, processed, [], s)
      else
        (let n = linkg_link_tx_get_chunk_count packets batch_size (snd s) in
         if n = 0 then (0, - EOVERFLOW, processed, replicate (length packets) (- EOVERFLOW), s)
         else
           (let (ret, written, s1) = send (take n packets) s in
            if ret < 0 then (0, ret, processed, replicate (length packets) ret, s1)
            else
              (let (chunk_accepted, results) = linkg_link_tx_finalize_chunk (driver_results n written);
                   (accepted, first_error, processed', rest, s2) = link_submit_loop send batch_size (drop n packets) True s1
               in (chunk_accepted + accepted, first_error, processed', results @ rest, s2)))))"
  by pat_completeness auto
termination
  by (relation "measure (\<lambda>(send, batch_size, packets, processed, s). length packets)") auto

declare link_submit_loop.simps [simp del]

text \<open>The first packet that fails its check ends the batch; those before it have their result at -EINPROGRESS.\<close>

fun link_validate_loop :: "nat option list \<Rightarrow> heap \<Rightarrow> int" where
  "link_validate_loop [] h = 0"
| "link_validate_loop (packet # packets) h =
     (let ret = linkg_link_validate_tx_packet packet h in if ret \<noteq> 0 then ret else link_validate_loop packets h)"

text \<open>The return code, the results when the submission reached the driver, and the state.\<close>

definition linkg_link_submit_batch ::
    "'d linkg_link option \<Rightarrow> (nat \<times> linkg_path) option \<Rightarrow> u32 \<Rightarrow> linkg_path_endpoint option \<Rightarrow> nat option list option \<Rightarrow>
     link_gate \<Rightarrow> 'd \<times> heap \<Rightarrow> int \<times> int list option \<times> 'd \<times> heap" where
  "linkg_link_submit_batch link path tx_class destination packets gate s =
     (case (link, path, destination, packets) of
        (Some lk, Some (pa, pt), Some dst, Some ps) \<Rightarrow>
         (if ps = [] then (- EINVAL, None, s)
          else if \<not> linkg_link_tx_class_valid tx_class then (- EINVAL, None, s)
          else case (lk_runtime lk, Option.bind (lk_ops lk) lo_send_batch) of
            (Some runtime, Some send) \<Rightarrow>
             (if lk_id lk = LINKG_LINK_ID_INVALID then (- ENODEV, None, s)
              else if pt_link_id pt \<noteq> lk_id lk then (- EXDEV, None, s)
              else if ln_tx_batch_size runtime = 0 then (- EINVAL, None, s)
              else if link_validate_loop ps (snd s) \<noteq> 0 then (link_validate_loop ps (snd s), None, s)
              else if \<not> lg_running_before gate then (- ENETDOWN, None, s)
              else if \<not> lg_running gate \<or> \<not> lg_opened gate then (- ENETDOWN, None, s)
              else if \<not> lg_path_active gate then (- ENODEV, None, s)
              else
                (let (accepted, first_error, processed, results, s1) =
                       link_submit_loop (send pa tx_class dst) (ln_tx_batch_size runtime) (map the ps) False s
                 in (if \<not> processed \<and> first_error \<noteq> 0 then first_error else int accepted, Some results, s1)))
          | _ \<Rightarrow> (- ENODEV, None, s))
      | _ \<Rightarrow> (- EINVAL, None, s))"

definition linkg_link_submit ::
    "'d linkg_link option \<Rightarrow> (nat \<times> linkg_path) option \<Rightarrow> u32 \<Rightarrow> linkg_path_endpoint option \<Rightarrow> nat option \<Rightarrow>
     link_gate \<Rightarrow> 'd \<times> heap \<Rightarrow> int \<times> 'd \<times> heap" where
  "linkg_link_submit link path tx_class destination packet gate s =
     (if packet = None then (- EINVAL, s)
      else
        (let (ret, results, s1) = linkg_link_submit_batch link path tx_class destination (Some [packet]) gate s
         in if ret < 0 then (ret, s1) else (hd (the results), s1)))"

definition linkg_link_purge_tx_path ::
    "'d linkg_link option \<Rightarrow> (nat \<times> linkg_path) option \<Rightarrow> link_gate \<Rightarrow> 'd \<times> heap \<Rightarrow> int \<times> u32 \<times> 'd \<times> heap" where
  "linkg_link_purge_tx_path link path gate s =
     (case (link, path) of
        (Some lk, Some (pa, pt)) \<Rightarrow>
         (case (lk_runtime lk, Option.bind (lk_ops lk) lo_purge_tx_path) of
            (Some runtime, Some purge) \<Rightarrow>
             (if lk_id lk = LINKG_LINK_ID_INVALID then (- ENODEV, 0, s)
              else if pt_link_id pt \<noteq> lk_id lk then (- EXDEV, 0, s)
              else if lg_path_active gate then (- EBUSY, 0, s)
              else if \<not> lg_opened gate then (0, 0, s)
              else purge pa s)
          | _ \<Rightarrow> (- ENODEV, 0, s))
      | _ \<Rightarrow> (- EINVAL, 0, s))"

section \<open>Contract of the loop\<close>

lemma finalize_counts:
  assumes "linkg_link_tx_finalize_chunk rs = (k, rs')"
  shows "length rs' = length rs" "k = length (filter (\<lambda>r. r = 0) rs')" "\<forall>r\<in>set rs'. r \<noteq> - EINPROGRESS"
  using assms by (auto simp: linkg_link_tx_finalize_chunk_def Let_def)

lemma loop_contract:
  assumes "link_submit_loop send batch_size packets processed s = (acc, first_error, processed', results, s')"
  shows "length results = length packets \<and> acc = length (filter (\<lambda>r. r = 0) results) \<and>
    ((\<forall>ps s. fst (send ps s) \<noteq> - EINPROGRESS) \<longrightarrow> (\<forall>r\<in>set results. r \<noteq> - EINPROGRESS)) \<and>
    first_error \<le> 0 \<and> (processed \<longrightarrow> processed') \<and>
    (\<not> processed' \<longrightarrow> acc = 0 \<and> (packets \<noteq> [] \<longrightarrow> first_error < 0 \<and> (\<forall>r\<in>set results. r = first_error)))"
  using assms
proof (induction send batch_size packets processed s arbitrary: acc first_error processed' results s' rule: link_submit_loop.induct)
  case (1 send batch_size packets processed s)
  define n where "n = linkg_link_tx_get_chunk_count packets batch_size (snd s)"
  obtain ret w s1 where sd: "send (take n packets) s = (ret, w, s1)" by (metis prod_cases3)
  consider "packets = []" | "packets \<noteq> []" "n = 0" | "packets \<noteq> []" "n \<noteq> 0" "ret < 0" | "packets \<noteq> []" "n \<noteq> 0" "\<not> ret < 0" by blast
  then show ?case
  proof cases
    case 4
    obtain k rs where f: "linkg_link_tx_finalize_chunk (driver_results n w) = (k, rs)" by (metis surj_pair)
    obtain a fe pr rest s2 where lp: "link_submit_loop send batch_size (drop n packets) True s1 = (a, fe, pr, rest, s2)" by (metis prod_cases5)
    have ih: "length rest = length (drop n packets) \<and> a = length (filter (\<lambda>r. r = 0) rest) \<and>
      ((\<forall>ps s. fst (send ps s) \<noteq> - EINPROGRESS) \<longrightarrow> (\<forall>r\<in>set rest. r \<noteq> - EINPROGRESS)) \<and>
      fe \<le> 0 \<and> pr"
      using "1.IH" [OF 4(1) n_def 4(2) refl sd [symmetric] refl 4(3) refl f [symmetric] lp] by blast
    have res: "acc = k + a" "first_error = fe" "processed' = pr" "results = rs @ rest"
      using "1.prems" 4 sd f lp by (simp_all add: link_submit_loop.simps [of _ _ packets] Let_def flip: n_def)
    have "length rs = n" using finalize_counts(1) [OF f] by (simp add: driver_results_def)
    moreover have "n \<le> length packets" unfolding n_def by (rule chunk_count_le)
    ultimately show ?thesis using ih res finalize_counts [OF f] by auto
  next
    case 3
    have "ret \<noteq> - EINPROGRESS" if "\<forall>ps s. fst (send ps s) \<noteq> - EINPROGRESS" using that sd by (metis fst_conv)
    then show ?thesis using 3 "1.prems" sd
      by (auto simp: link_submit_loop.simps [of _ _ packets] Let_def simp flip: n_def)
  qed (use "1.prems" in \<open>auto simp: link_submit_loop.simps Let_def simp flip: n_def\<close>)
qed

section \<open>The pieces the driver gets\<close>

text \<open>A driver that also notes the chunks it was given.\<close>

definition logged :: "'d send_batch \<Rightarrow> (nat list list \<times> 'd) send_batch" where
  "logged send packets s = (case s of ((calls, d), h) \<Rightarrow>
     (case send packets (d, h) of (ret, written, d', h') \<Rightarrow> (ret, written, (calls @ [packets], d'), h')))"

text \<open>
  The calls cut the batch, from the front, into pieces of at most \<open>b\<close> packets, none of them empty, with no
  cut between the first and the last frame of a group.
\<close>

fun cut_between_groups :: "heap \<Rightarrow> nat \<Rightarrow> nat list \<Rightarrow> nat list list \<Rightarrow> bool" where
  "cut_between_groups h b packets [] \<longleftrightarrow> True"
| "cut_between_groups h b packets (c # cs) \<longleftrightarrow> c \<noteq> [] \<and> length c \<le> b \<and> take (length c) packets = c \<and>
     (length c < length packets \<longrightarrow> \<not> linkg_link_tx_split_group (last c) (packets ! length c) h) \<and>
     cut_between_groups h b (drop (length c) packets) cs"

definition keeps_flags :: "'d send_batch \<Rightarrow> nat set \<Rightarrow> bool" where
  "keeps_flags send P \<longleftrightarrow> (\<forall>packets s ret written s' p. send packets s = (ret, written, s') \<longrightarrow> p \<in> P \<longrightarrow>
     pk_flags (pk_at (snd s') p) = pk_flags (pk_at (snd s) p))"

lemma group_chunk:
  assumes "n = linkg_link_tx_get_chunk_count packets batch_size h" "n \<noteq> 0"
  shows "n \<le> length packets" "n \<le> unat batch_size" "n < length packets \<Longrightarrow> \<not> linkg_link_tx_split_group (packets ! (n - 1)) (packets ! n) h"
  using assms by (auto simp: linkg_link_tx_get_chunk_count_def linkg_link_tx_split_group_def Let_def split: if_splits)

lemma chunk_positive:
  assumes "packets \<noteq> []" "2 \<le> unat batch_size"
  shows "linkg_link_tx_get_chunk_count packets batch_size h \<noteq> 0"
  using assms by (auto simp: linkg_link_tx_get_chunk_count_def Let_def split: if_splits)

lemma cut_frame:
  "cut_between_groups h b packets cs \<Longrightarrow> (\<And>p. p \<in> set packets \<Longrightarrow> pk_flags (pk_at h' p) = pk_flags (pk_at h p)) \<Longrightarrow>
   cut_between_groups h' b packets cs"
proof (induction cs arbitrary: packets)
  case (Cons c cs)
  have "last c \<in> set packets" using Cons.prems(1) by (metis cut_between_groups.simps(2) in_set_takeD last_in_set)
  moreover have "length c < length packets \<Longrightarrow> packets ! length c \<in> set packets" by simp
  moreover have "cut_between_groups h' b (drop (length c) packets) cs"
    using Cons.prems by (intro Cons.IH) (auto dest: in_set_dropD)
  ultimately show ?case using Cons.prems by (auto simp: linkg_link_tx_split_group_def)
qed simp

lemma loop_cut:
  assumes "link_submit_loop (logged send) batch_size packets processed ((calls, d), h) = (acc, first_error, processed', results, (calls', d'), h')"
    and "keeps_flags send (set packets)"
  shows "\<exists>cs. calls' = calls @ cs \<and> cut_between_groups h (unat batch_size) packets cs \<and>
    (2 \<le> unat batch_size \<and> (\<forall>ps s. 0 \<le> fst (send ps s)) \<longrightarrow> concat cs = packets)"
  using assms
proof (induction "length packets" arbitrary: packets processed calls d h acc first_error processed' results calls' d' h' rule: less_induct)
  case less
  define n where "n = linkg_link_tx_get_chunk_count packets batch_size h"
  obtain ret w d1 h1 where sd: "send (take n packets) (d, h) = (ret, w, d1, h1)" by (metis prod_cases4)
  then have lg: "logged send (take n packets) ((calls, d), h) = (ret, w, (calls @ [take n packets], d1), h1)" by (simp add: logged_def)
  consider "packets = []" | "packets \<noteq> []" "n = 0" | "packets \<noteq> []" "n \<noteq> 0" by blast
  then show ?case
  proof cases
    case 1
    then show ?thesis using less.prems(1) by (auto simp: link_submit_loop.simps)
  next
    case 2
    then have "calls' = calls" using less.prems(1) by (simp add: link_submit_loop.simps [of _ _ packets] flip: n_def)
    moreover have "\<not> 2 \<le> unat batch_size" using chunk_positive 2 unfolding n_def by blast
    ultimately show ?thesis by simp
  next
    case 3
    note g = group_chunk [OF n_def 3(2)]
    have one: "cut_between_groups h (unat batch_size) packets (take n packets # cs) \<longleftrightarrow> cut_between_groups h (unat batch_size) (drop n packets) cs" for cs
      using 3 g by (simp add: min_absorb2 last_conv_nth)
    have nl: "length (drop n packets) < length packets" using 3 g by simp
    show ?thesis
    proof (cases "ret < 0")
      case True
      then have "calls' = calls @ [take n packets]"
        using less.prems(1) 3 lg by (simp add: link_submit_loop.simps [of _ _ packets] Let_def flip: n_def)
      moreover have "\<not> (\<forall>ps s. 0 \<le> fst (send ps s))" using sd True by (metis fst_conv not_less)
      ultimately show ?thesis using one [of "[]"] by (intro exI [of _ "[take n packets]"]) auto
    next
      case False
      obtain k rs where f: "linkg_link_tx_finalize_chunk (driver_results n w) = (k, rs)" by (metis surj_pair)
      obtain a fe pr rest c2 d2 h2 where
        lp: "link_submit_loop (logged send) batch_size (drop n packets) True ((calls @ [take n packets], d1), h1) = (a, fe, pr, rest, (c2, d2), h2)"
        by (metis prod_cases6 surj_pair)
      have c2: "calls' = c2" using less.prems(1) 3 False lg f lp
        by (simp add: link_submit_loop.simps [of _ _ packets] Let_def flip: n_def)
      have fl: "pk_flags (pk_at h1 p) = pk_flags (pk_at h p)" if "p \<in> set packets" for p
        using less.prems(2) sd that unfolding keeps_flags_def by (metis snd_conv)
      have kf: "keeps_flags send (set (drop n packets))" using less.prems(2) by (auto simp: keeps_flags_def dest: in_set_dropD)
      have ih: "\<exists>cs. c2 = (calls @ [take n packets]) @ cs \<and> cut_between_groups h1 (unat batch_size) (drop n packets) cs \<and>
        (2 \<le> unat batch_size \<and> (\<forall>ps s. 0 \<le> fst (send ps s)) \<longrightarrow> concat cs = drop n packets)"
        by (rule less.hyps [OF nl lp kf])
      then obtain cs where cs: "c2 = calls @ take n packets # cs" "cut_between_groups h1 (unat batch_size) (drop n packets) cs"
        "2 \<le> unat batch_size \<and> (\<forall>ps s. 0 \<le> fst (send ps s)) \<longrightarrow> concat cs = drop n packets" by auto
      have "cut_between_groups h (unat batch_size) (drop n packets) cs"
        by (rule cut_frame [OF cs(2)]) (use fl in \<open>auto dest: in_set_dropD\<close>)
      then show ?thesis using cs c2 one by (intro exI [of _ "take n packets # cs"]) auto
    qed
  qed
qed

lemma submit_batch_cases:
  assumes eq: "linkg_link_submit_batch (Some lk) path tx_class dst (Some ps) gate s = (ret, results, s')"
  obtains (rejected) "results = None" "ret < 0" "s' = s"
  | (sent) pa d and runtime :: linkg_link_runtime and ops send acc fe pr rs where "lk_ops lk = Some ops" "lo_send_batch ops = Some send"
      "link_submit_loop (send pa tx_class d) (ln_tx_batch_size runtime) (map the ps) False s = (acc, fe, pr, rs, s')"
      "ret = (if \<not> pr \<and> fe \<noteq> 0 then fe else int acc)" "results = Some rs" "ps \<noteq> []"
proof (cases "results = None")
  case True
  have "link_validate_loop ps h \<noteq> 0 \<Longrightarrow> link_validate_loop ps h < 0" for h
    by (induction ps) (auto simp: Let_def linkg_link_validate_tx_packet_def split: option.splits if_splits)
  then have "ret < 0 \<and> s' = s"
    using eq True
    by (auto simp: linkg_link_submit_batch_def Let_def split: option.splits prod.splits if_splits)
  then show ?thesis using True rejected by blast
next
  case False
  obtain pa pt d runtime ops send where o: "path = Some (pa, pt)" "dst = Some d" "lk_runtime lk = Some runtime"
    "lk_ops lk = Some ops" "lo_send_batch ops = Some send"
    using eq False by (auto simp: linkg_link_submit_batch_def bind_eq_Some_conv split: option.splits prod.splits if_splits)
  obtain acc fe pr rs s1 where lp: "link_submit_loop (send pa tx_class d) (ln_tx_batch_size runtime) (map the ps) False s = (acc, fe, pr, rs, s1)"
    by (rule prod_cases5)
  have "ps \<noteq> [] \<and> results = Some rs \<and> s' = s1 \<and> ret = (if \<not> pr \<and> fe \<noteq> 0 then fe else int acc)"
    using eq False o lp by (auto simp: linkg_link_submit_batch_def split: if_splits)
  then show ?thesis using sent [OF o(4,5), of pa d runtime acc fe pr rs] lp by simp
qed

section \<open>Properties\<close>

text \<open>
  C28. The contract of a submission, for every driver that does not answer -EINPROGRESS: when the code is not
  negative there is one decided result per packet and the code is the number of packets the driver took over
  (result 0); when it is negative no packet is reported as taken over.
\<close>

theorem link_submit_contract:
  assumes "linkg_link_submit_batch (Some lk) path tx_class dst (Some ps) gate s = (ret, results, s')"
    and "\<forall>ops send. lk_ops lk = Some ops \<and> lo_send_batch ops = Some send \<longrightarrow>
      (\<forall>pa c d packets s. fst (send pa c d packets s) \<noteq> - EINPROGRESS)"
  shows "(0 \<le> ret \<longrightarrow> (\<exists>rs. results = Some rs \<and> length rs = length ps \<and> (\<forall>r\<in>set rs. r \<noteq> - EINPROGRESS) \<and>
      ret = int (length (filter (\<lambda>r. r = 0) rs)))) \<and>
    (ret < 0 \<longrightarrow> (\<forall>rs. results = Some rs \<longrightarrow> (\<forall>r\<in>set rs. r \<noteq> 0)))"
proof (rule submit_batch_cases [OF assms(1)])
  fix pa d and runtime :: linkg_link_runtime and ops send acc fe pr rs
  assume sent: "lk_ops lk = Some ops" "lo_send_batch ops = Some send"
    "link_submit_loop (send pa tx_class d) (ln_tx_batch_size runtime) (map the ps) False s = (acc, fe, pr, rs, s')"
    "ret = (if \<not> pr \<and> fe \<noteq> 0 then fe else int acc)" "results = Some rs" "ps \<noteq> []"
  have "\<forall>packets s. fst (send pa tx_class d packets s) \<noteq> - EINPROGRESS" using assms(2) sent(1,2) by blast
  then have l: "length rs = length ps" "acc = length (filter (\<lambda>r. r = 0) rs)" "\<forall>r\<in>set rs. r \<noteq> - EINPROGRESS"
    "\<not> pr \<Longrightarrow> fe < 0 \<and> (\<forall>r\<in>set rs. r = fe)"
    using loop_contract [OF sent(3)] sent(6) unfolding map_is_Nil_conv length_map by blast+
  show ?thesis
  proof (cases pr)
    case True
    then show ?thesis using l(1-3) sent(4,5) by simp
  next
    case False
    then have "ret = fe" "fe < 0" "\<forall>r\<in>set rs. r = fe" using l(4) sent(4) by auto
    then show ?thesis using sent(5) by auto
  qed
qed simp


section \<open>Witnesses\<close>

text \<open>A driver that takes over every packet and keeps it in a list, with a reference each.\<close>

definition store_driver :: "nat \<Rightarrow> u32 \<Rightarrow> linkg_path_endpoint \<Rightarrow> nat list send_batch" where
  "store_driver pa tx_class destination packets s =
     (int (length packets), \<lambda>i. Some 0, fst s @ packets, fold (\<lambda>p h. linkg_packet_retain (Some p) h) packets (snd s))"

definition store_link :: "nat list linkg_link" where
  "store_link = \<lparr>lk_id = 1, lk_ops = Some \<lparr>lo_send_batch = Some store_driver, lo_purge_tx_path = None\<rparr>,
     lk_runtime = Some \<lparr>ln_tx_batch_size = 2\<rparr>\<rparr>"

definition open_gate :: link_gate where
  "open_gate = \<lparr>lg_running_before = True, lg_running = True, lg_opened = True, lg_path_active = True\<rparr>"

definition fragment_flags_heap :: heap where
  "fragment_flags_heap = upd_pk 102 (\<lambda>k. k\<lparr>pk_flags := LINKG_PACKET_FLAG_TX_GROUP_FIRST\<rparr>)
     (upd_pk 103 (\<lambda>k. k\<lparr>pk_flags := LINKG_PACKET_FLAG_TX_GROUP_LAST\<rparr>) fragment_heap)"

lemma store_value:
  "linkg_link_submit_batch (Some store_link) (Some (7, path_zero\<lparr>pt_link_id := 1\<rparr>)) 0 (Some endpoint_zero)
     (Some [Some 102, Some 102, Some 103]) open_gate ([], fragment_flags_heap) =
   (3, Some [0, 0, 0], [102, 102, 103], fold (\<lambda>p h. linkg_packet_retain (Some p) h) [102, 102, 103] fragment_flags_heap)"
  by (simp add: linkg_link_submit_batch_def store_link_def open_gate_def linkg_link_tx_class_valid_def
      linkg_link_validate_tx_packet_def fragment_flags_heap_def fragment_heap_def pool_slot_size_def store_driver_def
      link_submit_loop.simps linkg_link_tx_get_chunk_count_def linkg_link_tx_split_group_def linkg_link_tx_finalize_chunk_def
      driver_results_def linkg_packet_retain_def Let_def)

theorem link_submit_contract_witness:
  "\<exists>ret rs s'. linkg_link_submit_batch (Some store_link) (Some (7, path_zero\<lparr>pt_link_id := 1\<rparr>)) 0 (Some endpoint_zero)
      (Some [Some 102, Some 102, Some 103]) open_gate ([], fragment_flags_heap) = (ret, Some rs, s') \<and>
     ret = 3 \<and> ret = int (length (filter (\<lambda>r. r = 0) rs))"
proof -
  have "\<forall>ops send. lk_ops store_link = Some ops \<and> lo_send_batch ops = Some send \<longrightarrow>
      (\<forall>pa c d packets s. fst (send pa c d packets s) \<noteq> - EINPROGRESS)"
    by (simp add: store_link_def store_driver_def)
  from link_submit_contract [OF store_value this] store_value show ?thesis by simp
qed


end
