(* ===== verification/Transport_Tx.thy ===== *)
theory Transport_Tx
  imports Transport_Forward Link_Tx
begin

text \<open>
  The sending side of the transport: \<open>src/core/transport/transport_tx.c\<close>.

  A batch of logical packets is sent in chunks of at most 32. Of each chunk, a packet that does not fit one
  frame gets a second packet from its pool for its tail; under the order lock of the peer and class the
  frames get their sequences and headers in place, go to every target link, and the results of the frames
  are folded into results of the packets. A chunk of which no link took a frame gives its sequences back.
  \<open>linkg_transport_tx_next_sequence\<close>, \<open>linkg_transport_tx_next_packet_id_locked\<close> and
  \<open>linkg_transport_tx_acquire_state\<close> are in \<open>Transport_Peer\<close>. A relay (\<open>linkg_transport_forward_batch\<close>) sends
  frames as they are, with new sequences. The order lock is held from the acquisition to the end, so a chunk
  is one step for the peer and class; the time is an input.
\<close>

abbreviation (input) LINKG_TRANSPORT_TX_BATCH_MAX :: nat where "LINKG_TRANSPORT_TX_BATCH_MAX \<equiv> 32"
abbreviation (input) LINKG_TRANSPORT_FORWARD_BATCH_MAX :: nat where "LINKG_TRANSPORT_FORWARD_BATCH_MAX \<equiv> 32"
abbreviation (input) LINKG_TRANSPORT_TX_TARGET_MAX :: nat where "LINKG_TRANSPORT_TX_TARGET_MAX \<equiv> 2"
abbreviation (input) LINKG_TRANSPORT_FRAGMENT_COUNT_MAX :: nat where "LINKG_TRANSPORT_FRAGMENT_COUNT_MAX \<equiv> 2"
abbreviation (input) LINKG_TRANSPORT_CLASS_REALTIME :: u32 where "LINKG_TRANSPORT_CLASS_REALTIME \<equiv> 0"
abbreviation (input) LINKG_TRANSPORT_CLASS_VIDEO :: u32 where "LINKG_TRANSPORT_CLASS_VIDEO \<equiv> 1"
abbreviation (input) LINKG_TRANSPORT_FLAG_NONE :: u16 where "LINKG_TRANSPORT_FLAG_NONE \<equiv> 0"

section \<open>Types\<close>

text \<open>A target carries, beside its link, path and endpoint, what the gate of the link will see.\<close>

record 'd linkg_transport_tx_target =
  tt_link :: "'d linkg_link option"
  tt_path :: "(nat \<times> linkg_path) option"
  tt_destination :: linkg_path_endpoint
  tt_gate :: link_gate

record 'd linkg_transport_tx_context =
  tx_targets :: "'d linkg_transport_tx_target list option"
  tx_traffic_class :: u32
  tx_peer_node_id :: u8

record linkg_transport_tx_item =
  ti_packet :: "nat option"
  ti_type :: u8
  ti_destination_node_id :: u8

record linkg_transport_tx_state =
  ts_tail_packet :: "nat option"
  ts_original_data_offset :: u32
  ts_original_data_length :: u32
  ts_original_flags :: u32
  ts_packet_id :: u32
  ts_frame_offset :: nat
  ts_frame_count :: nat

definition tx_state_zero :: linkg_transport_tx_state where
  "tx_state_zero = \<lparr>ts_tail_packet = None, ts_original_data_offset = 0, ts_original_data_length = 0, ts_original_flags = 0,
     ts_packet_id = 0, ts_frame_offset = 0, ts_frame_count = 0\<rparr>"

text \<open>The frame batch as the list of its frames: packet, payload length, whether user data.\<close>

type_synonym frame_batch = "(nat \<times> u32 \<times> bool) list"

section \<open>Checks\<close>

definition linkg_transport_tx_node_id_valid :: "u8 \<Rightarrow> bool" where
  "linkg_transport_tx_node_id_valid node_id \<longleftrightarrow> node_id \<ge> LINKG_RESOURCE_NODE_ID_MIN \<and> node_id \<le> LINKG_RESOURCE_NODE_ID_MAX"

definition linkg_transport_tx_validate_context :: "'d linkg_transport_tx_context option \<Rightarrow> int" where
  "linkg_transport_tx_validate_context context =
     (case context of
        None \<Rightarrow> - EINVAL
      | Some ctx \<Rightarrow>
         (case tx_targets ctx of
            None \<Rightarrow> - EINVAL
          | Some targets \<Rightarrow>
             (if length targets = 0 \<or> length targets > LINKG_TRANSPORT_TX_TARGET_MAX then - EINVAL
              else if \<not> linkg_transport_class_valid (tx_traffic_class ctx) then - EINVAL
              else if \<not> linkg_transport_tx_node_id_valid (tx_peer_node_id ctx) then - EINVAL
              else if \<exists>target\<in>set targets. tt_link target = None \<or> tt_path target = None then - EINVAL
              else 0)))"

definition linkg_transport_tx_validate_packet :: "nat option \<Rightarrow> heap \<Rightarrow> int" where
  "linkg_transport_tx_validate_packet packet h =
     (case packet of
        None \<Rightarrow> - EINVAL
      | Some p \<Rightarrow>
         (if pk_pool (pk_at h p) = None \<or> pk_slot (pk_at h p) = None then - EINVAL
          else if pk_data_length (pk_at h p) = 0 then - EINVAL
          else if pk_data_length (pk_at h p) > LINKG_TRANSPORT_PACKET_MAX_SIZE then - EMSGSIZE
          else if linkg_packet_headroom p h <
              (if pk_data_length (pk_at h p) > LINKG_TRANSPORT_PAYLOAD_MAX_SIZE
               then LINKG_TRANSPORT_WIRE_HEADER_MAX_SIZE else LINKG_TRANSPORT_WIRE_HEADER_SIZE) then - ENOSPC
          else 0))"

fun tx_validate_items :: "linkg_transport_tx_item list \<Rightarrow> heap \<Rightarrow> int" where
  "tx_validate_items [] h = 0"
| "tx_validate_items (item # items) h =
     (if \<not> linkg_transport_type_valid (ti_type item) then - EINVAL
      else if \<not> linkg_transport_tx_node_id_valid (ti_destination_node_id item) then - EINVAL
      else if linkg_transport_tx_validate_packet (ti_packet item) h \<noteq> 0 then linkg_transport_tx_validate_packet (ti_packet item) h
      else tx_validate_items items h)"

definition linkg_transport_tx_validate_batch ::
    "'d linkg_transport_tx_context option \<Rightarrow> linkg_transport_tx_item list option \<Rightarrow> heap \<Rightarrow> int" where
  "linkg_transport_tx_validate_batch context items h =
     (case items of
        None \<Rightarrow> - EINVAL
      | Some its \<Rightarrow>
         (if its = [] then - EINVAL
          else if linkg_transport_tx_validate_context context \<noteq> 0 then linkg_transport_tx_validate_context context
          else tx_validate_items its h))"

section \<open>Fragments\<close>

text \<open>The fields a packet's state gets first.\<close>

definition tx_state_of :: "nat \<Rightarrow> nat \<Rightarrow> heap \<Rightarrow> linkg_transport_tx_state" where
  "tx_state_of p frame_offset h =
     tx_state_zero\<lparr>ts_original_data_offset := pk_data_offset (pk_at h p), ts_original_data_length := pk_data_length (pk_at h p),
       ts_original_flags := pk_flags (pk_at h p), ts_frame_offset := frame_offset,
       ts_frame_count := (if pk_data_length (pk_at h p) > LINKG_TRANSPORT_PAYLOAD_MAX_SIZE
                          then LINKG_TRANSPORT_FRAGMENT_COUNT_MAX else 1)\<rparr>"

text \<open>The tail packet with the rest of the payload and the flags of the packet.\<close>

definition tx_fill_tail :: "nat \<Rightarrow> nat \<Rightarrow> heap \<Rightarrow> heap" where
  "tx_fill_tail p tail_packet h =
     (let tail_length = pk_data_length (pk_at h p) - LINKG_TRANSPORT_FRAGMENT_PAYLOAD_MAX_SIZE;
          data = the (linkg_packet_data p h);
          h1 = h\<lparr>byte_at := mem_write (the (linkg_packet_data tail_packet h))
                 (mem_read (byte_at h) (data + unat LINKG_TRANSPORT_FRAGMENT_PAYLOAD_MAX_SIZE) (unat tail_length)) (byte_at h)\<rparr>
      in upd_pk tail_packet (\<lambda>k. k\<lparr>pk_data_length := tail_length, pk_flags := pk_flags (pk_at h p)\<rparr>) h1)"

fun tx_prepare_loop :: "linkg_transport_tx_item list \<Rightarrow> nat \<Rightarrow> heap \<Rightarrow> int \<times> linkg_transport_tx_state list \<times> heap" where
  "tx_prepare_loop [] frame_offset h = (0, [], h)"
| "tx_prepare_loop (item # items) frame_offset h =
     (let p = the (ti_packet item); st = tx_state_of p frame_offset h;
          stop = (\<lambda>ret h. (ret, st # replicate (length items) tx_state_zero, h)) in
      if ts_frame_count st = 1
      then (let (ret, states, h1) = tx_prepare_loop items (frame_offset + 1) h in (ret, st # states, h1))
      else
        (let (tail, h1) = linkg_packet_pool_alloc (pk_pool (pk_at h p)) h in
         case tail of
           None \<Rightarrow> stop (- ENOMEM) h1
         | Some tail_packet \<Rightarrow>
            (let tail_length = pk_data_length (pk_at h1 p) - LINKG_TRANSPORT_FRAGMENT_PAYLOAD_MAX_SIZE in
             if linkg_packet_headroom tail_packet h1 < LINKG_TRANSPORT_WIRE_HEADER_MAX_SIZE \<or>
                the (linkg_packet_capacity tail_packet h1) < tail_length
             then stop (- ENOBUFS) (linkg_packet_release (Some tail_packet) h1)
             else
               (let (ret, states, h2) = tx_prepare_loop items (frame_offset + 2) (tx_fill_tail p tail_packet h1)
                in (ret, st\<lparr>ts_tail_packet := Some tail_packet\<rparr> # states, h2)))))"

definition linkg_transport_tx_prepare_states ::
    "linkg_transport_tx_item list \<Rightarrow> heap \<Rightarrow> int \<times> linkg_transport_tx_state list \<times> heap" where
  "linkg_transport_tx_prepare_states items h = tx_prepare_loop items 0 h"

definition linkg_transport_tx_cleanup_states :: "linkg_transport_tx_state list \<Rightarrow> heap \<Rightarrow> heap" where
  "linkg_transport_tx_cleanup_states states h = fold (\<lambda>st. linkg_packet_release (ts_tail_packet st)) states h"

definition tx_restore_packet :: "linkg_transport_tx_item \<Rightarrow> linkg_transport_tx_state \<Rightarrow> heap \<Rightarrow> heap" where
  "tx_restore_packet item st = upd_pk (the (ti_packet item)) (\<lambda>k. k\<lparr>pk_data_offset := ts_original_data_offset st,
     pk_data_length := ts_original_data_length st, pk_flags := ts_original_flags st\<rparr>)"

definition linkg_transport_tx_restore_packets ::
    "linkg_transport_tx_item list \<Rightarrow> linkg_transport_tx_state list \<Rightarrow> heap \<Rightarrow> heap" where
  "linkg_transport_tx_restore_packets items states h = fold (\<lambda>(item, st). tx_restore_packet item st) (zip items states) h"

section \<open>Encoding\<close>

definition linkg_transport_tx_build_header ::
    "u8 \<Rightarrow> linkg_transport_tx_item \<Rightarrow> u16 \<Rightarrow> u32 \<Rightarrow> linkg_transport_header" where
  "linkg_transport_tx_build_header local_node_id item flags sequence =
     \<lparr>th_magic = 0, th_version = 0, th_type = ti_type item, th_flags = flags, th_sequence = sequence,
      th_source_node_id = local_node_id, th_destination_node_id = ti_destination_node_id item, th_reserved = 0\<rparr>"

text \<open>The encoders work on the class (for its sequences) and the heap; they add frames to the batch.\<close>

definition linkg_transport_tx_encode_normal ::
    "u8 \<Rightarrow> linkg_transport_tx_item \<Rightarrow> linkg_transport_tx_state \<Rightarrow> linkg_transport_peer_class \<Rightarrow> heap \<Rightarrow>
     int \<times> frame_batch \<times> linkg_transport_peer_class \<times> heap" where
  "linkg_transport_tx_encode_normal local_node_id item st k h =
     (let p = the (ti_packet item); (sequence, k1) = linkg_transport_tx_next_sequence (ti_type item) k;
          h1 = set_group 0 p h;
          (ret, h2) = linkg_transport_wire_encode (Some p)
            (Some (linkg_transport_tx_build_header local_node_id item LINKG_TRANSPORT_FLAG_NONE sequence)) h1
      in if ret \<noteq> 0 then (ret, [], k1, h2)
         else (0, [(p, ts_original_data_length st, ti_type item = LINKG_TRANSPORT_TYPE_USER_DATA)], k1, h2))"

text \<open>One fragment of the two: the group flag, the extension header and the base header.\<close>

definition tx_encode_fragment ::
    "u8 \<Rightarrow> linkg_transport_tx_item \<Rightarrow> linkg_transport_tx_state \<Rightarrow> u32 \<Rightarrow> u32 \<Rightarrow> u16 \<Rightarrow> nat \<Rightarrow> heap \<Rightarrow> int \<times> heap" where
  "tx_encode_fragment local_node_id item st flag sequence fragment_offset p h =
     (let h1 = upd_pk p (\<lambda>k. k\<lparr>pk_flags := (ts_original_flags st AND NOT LINKG_PACKET_FLAG_TX_GROUP_MASK) OR flag\<rparr>) h;
          (ret, h2) = linkg_transport_wire_fragment_encode (Some p)
            (Some \<lparr>fh_packet_id = ts_packet_id st, fh_fragment_offset = fragment_offset,
                   fh_packet_length = ucast (ts_original_data_length st)\<rparr>) h1
      in if ret \<noteq> 0 then (ret, h2)
         else linkg_transport_wire_encode (Some p)
                (Some (linkg_transport_tx_build_header local_node_id item LINKG_TRANSPORT_FLAG_FRAGMENT sequence)) h2)"

definition linkg_transport_tx_encode_fragmented ::
    "u8 \<Rightarrow> linkg_transport_tx_item \<Rightarrow> linkg_transport_tx_state \<Rightarrow> linkg_transport_peer_class \<Rightarrow> heap \<Rightarrow>
     int \<times> frame_batch \<times> linkg_transport_peer_class \<times> heap" where
  "linkg_transport_tx_encode_fragmented local_node_id item st k h =
     (let first_packet = the (ti_packet item); tail_packet = the (ts_tail_packet st);
          tail_length = ts_original_data_length st - LINKG_TRANSPORT_FRAGMENT_PAYLOAD_MAX_SIZE;
          (first_sequence, k1) = linkg_transport_tx_next_sequence (ti_type item) k;
          (tail_sequence, k2) = linkg_transport_tx_next_sequence (ti_type item) k1;
          h1 = upd_pk first_packet (\<lambda>k. k\<lparr>pk_data_length := LINKG_TRANSPORT_FRAGMENT_PAYLOAD_MAX_SIZE\<rparr>) h;
          (ret, h2) = tx_encode_fragment local_node_id item st LINKG_PACKET_FLAG_TX_GROUP_FIRST first_sequence 0 first_packet h1
      in if ret \<noteq> 0 then (ret, [], k2, h2)
         else
           (let (ret, h3) = tx_encode_fragment local_node_id item st LINKG_PACKET_FLAG_TX_GROUP_LAST tail_sequence
                  (ucast LINKG_TRANSPORT_FRAGMENT_PAYLOAD_MAX_SIZE) tail_packet h2;
                user = (ti_type item = LINKG_TRANSPORT_TYPE_USER_DATA)
            in if ret \<noteq> 0 then (ret, [], k2, h3)
               else (0, [(first_packet, LINKG_TRANSPORT_FRAGMENT_PAYLOAD_MAX_SIZE, user), (tail_packet, tail_length, user)], k2, h3)))"

fun tx_encode_loop ::
    "u8 \<Rightarrow> (linkg_transport_tx_item \<times> linkg_transport_tx_state) list \<Rightarrow> linkg_transport_peer_class \<Rightarrow> heap \<Rightarrow>
     int \<times> frame_batch \<times> linkg_transport_peer_class \<times> heap" where
  "tx_encode_loop local_node_id [] k h = (0, [], k, h)"
| "tx_encode_loop local_node_id ((item, st) # rest) k h =
     (let (ret, frames, k1, h1) =
        (if ts_frame_count st = LINKG_TRANSPORT_FRAGMENT_COUNT_MAX
         then linkg_transport_tx_encode_fragmented local_node_id item st k h
         else linkg_transport_tx_encode_normal local_node_id item st k h)
      in if ret \<noteq> 0 then (ret, frames, k1, h1)
         else (let (ret, frames', k2, h2) = tx_encode_loop local_node_id rest k1 h1 in (ret, frames @ frames', k2, h2)))"

definition linkg_transport_tx_encode_batch ::
    "u8 \<Rightarrow> linkg_transport_tx_item list \<Rightarrow> linkg_transport_tx_state list \<Rightarrow> linkg_transport_peer_class \<Rightarrow> heap \<Rightarrow>
     int \<times> frame_batch \<times> linkg_transport_peer_class \<times> heap" where
  "linkg_transport_tx_encode_batch local_node_id items states k h = tx_encode_loop local_node_id (zip items states) k h"

section \<open>Links\<close>

definition linkg_transport_tx_link_class :: "u32 \<Rightarrow> u32" where
  "linkg_transport_tx_link_class traffic_class =
     (if traffic_class = LINKG_TRANSPORT_CLASS_REALTIME then 0
      else if traffic_class = LINKG_TRANSPORT_CLASS_VIDEO then 1 else 2)"

text \<open>The results of one target, and how they are folded into those so far: 0 wins, else the first error stays.\<close>

definition tx_target_results ::
    "u32 \<Rightarrow> 'd linkg_transport_tx_target \<Rightarrow> nat list \<Rightarrow> 'd \<times> heap \<Rightarrow> int list \<times> 'd \<times> heap" where
  "tx_target_results tx_class target packets s =
     (let (ret, target_results, s1) = linkg_link_submit_batch (tt_link target) (tt_path target) tx_class
            (Some (tt_destination target)) (Some (map Some packets)) (tt_gate target) s
      in (if ret < 0 then replicate (length packets) ret
          else case target_results of None \<Rightarrow> replicate (length packets) (- EINPROGRESS) | Some rs \<Rightarrow> rs, s1))"

definition tx_merge_result :: "int \<Rightarrow> int \<Rightarrow> int" where
  "tx_merge_result result target_result =
     (if target_result = 0 then 0 else if result = - EINPROGRESS then target_result else result)"

fun tx_submit_targets ::
    "u32 \<Rightarrow> 'd linkg_transport_tx_target list \<Rightarrow> nat list \<Rightarrow> int list \<Rightarrow> 'd \<times> heap \<Rightarrow> int list \<times> 'd \<times> heap" where
  "tx_submit_targets tx_class [] packets results s = (results, s)"
| "tx_submit_targets tx_class (target # targets) packets results s =
     (let (target_results, s1) = tx_target_results tx_class target packets s
      in tx_submit_targets tx_class targets packets (map2 tx_merge_result results target_results) s1)"

text \<open>The number of frames taken over, the results and the state.\<close>

definition linkg_transport_tx_submit_wire_batch ::
    "'d linkg_transport_tx_context \<Rightarrow> nat list \<Rightarrow> 'd \<times> heap \<Rightarrow> nat \<times> int list \<times> 'd \<times> heap" where
  "linkg_transport_tx_submit_wire_batch ctx packets s =
     (let (results, s1) = tx_submit_targets (linkg_transport_tx_link_class (tx_traffic_class ctx)) (the (tx_targets ctx)) packets
            (replicate (length packets) (- EINPROGRESS)) s;
          results' = map (\<lambda>r. if r = - EINPROGRESS then - EIO else r) results
      in (length (filter (\<lambda>r. r = 0) results'), results', s1))"

section \<open>Results and statistics\<close>

text \<open>The result of a packet: the first error among its frames, or 0.\<close>

definition tx_packet_result :: "linkg_transport_tx_state \<Rightarrow> int list \<Rightarrow> int" where
  "tx_packet_result st frame_results =
     (case List.find (\<lambda>r. r \<noteq> 0) (take (ts_frame_count st) (drop (ts_frame_offset st) frame_results)) of
        None \<Rightarrow> 0 | Some r \<Rightarrow> r)"

fun tx_finalize_loop ::
    "(linkg_transport_tx_item \<times> linkg_transport_tx_state) list \<Rightarrow> int list \<Rightarrow> heap \<Rightarrow> int list \<times> heap" where
  "tx_finalize_loop [] frame_results h = ([], h)"
| "tx_finalize_loop ((item, st) # rest) frame_results h =
     (let result = tx_packet_result st frame_results;
          h1 = (if result \<noteq> 0 \<and> frame_results ! ts_frame_offset st \<noteq> 0 then tx_restore_packet item st h else h);
          (results, h2) = tx_finalize_loop rest frame_results h1
      in (result # results, h2))"

definition linkg_transport_tx_finalize_results ::
    "linkg_transport_tx_item list \<Rightarrow> linkg_transport_tx_state list \<Rightarrow> int list \<Rightarrow> heap \<Rightarrow> nat \<times> int list \<times> heap" where
  "linkg_transport_tx_finalize_results items states frame_results h =
     (let (results, h1) = tx_finalize_loop (zip items states) frame_results h
      in (length (filter (\<lambda>r. r = 0) results), results, h1))"

definition tx_count_frame :: "u32 \<Rightarrow> int \<Rightarrow> linkg_transport_class_stats \<Rightarrow> linkg_transport_class_stats" where
  "tx_count_frame payload_length result s =
     (if result = 0
      then s\<lparr>cl_tx_packets := cl_tx_packets s + 1, cl_tx_bytes := cl_tx_bytes s + ucast payload_length\<rparr>
      else s\<lparr>cl_tx_failed_packets := cl_tx_failed_packets s + 1, cl_tx_failed_bytes := cl_tx_failed_bytes s + ucast payload_length\<rparr>)"

text \<open>The frames as payload length and whether user data, with their results.\<close>

definition tx_record_frames :: "(u32 \<times> bool) list \<Rightarrow> int list \<Rightarrow> u64 \<Rightarrow> linkg_transport_class_stats \<Rightarrow> linkg_transport_class_stats" where
  "tx_record_frames frames frame_results now_ms s =
     (let s1 = fold (\<lambda>((n, user), r). tx_count_frame n r) (zip frames frame_results) s;
          s2 = (if 0 \<in> set frame_results then s1\<lparr>cl_last_tx_ms := now_ms\<rparr> else s1)
      in if \<exists>f\<in>set frames. snd f then s2\<lparr>cl_last_user_tx_ms := now_ms\<rparr> else s2)"

definition linkg_transport_tx_record_stats ::
    "frame_batch \<Rightarrow> int list \<Rightarrow> u64 \<Rightarrow> linkg_transport_peer_class \<Rightarrow> linkg_transport_peer_class" where
  "linkg_transport_tx_record_stats batch frame_results now_ms k =
     k\<lparr>pc_stats := tx_record_frames (map snd batch) frame_results now_ms (pc_stats k)\<rparr>"

definition linkg_transport_tx_record_forward_stats ::
    "linkg_transport_forward_item list \<Rightarrow> u8 list \<Rightarrow> int list \<Rightarrow> u64 \<Rightarrow> linkg_transport_peer_class \<Rightarrow> linkg_transport_peer_class" where
  "linkg_transport_tx_record_forward_stats items types results now_ms k =
     k\<lparr>pc_stats := tx_record_frames (map2 (\<lambda>i t. (fi_payload_length i, t = LINKG_TRANSPORT_TYPE_USER_DATA)) items types)
        results now_ms (pc_stats k)\<rparr>"

definition linkg_transport_tx_acquire_forward_state ::
    "u8 \<Rightarrow> nat \<Rightarrow> linkg_transport_context \<Rightarrow> int + nat" where
  "linkg_transport_tx_acquire_forward_state peer_node_id traffic_class c =
     (if mx_lock (tc_lock c) \<noteq> 0 then Inl (- mx_lock (tc_lock c))
      else if \<not> tc_initialized c then Inl (- ENODEV)
      else case linkg_transport_find_peer_locked peer_node_id c of
        None \<Rightarrow> Inl (- ENOENT)
      | Some i \<Rightarrow>
          (if \<not> fst (linkg_transport_peer_epoch_read_active (Some (tc_peers c ! i))) then Inl (- EAGAIN)
           else
             (let lock = pc_tx_order_lock (pr_classes (tc_peers c ! i) ! traffic_class) in
              if mx_lock lock \<noteq> 0 then Inl (- mx_lock lock) else Inr i)))"

section \<open>Chunks\<close>

definition upd_class :: "nat \<Rightarrow> nat \<Rightarrow> linkg_transport_peer_class \<Rightarrow> linkg_transport_context \<Rightarrow> linkg_transport_context" where
  "upd_class i j k = upd_peer i (\<lambda>p. p\<lparr>pr_classes := (pr_classes p)[j := k]\<rparr>)"

definition tx_rollback :: "linkg_transport_peer_class \<Rightarrow> linkg_transport_peer_class \<Rightarrow> linkg_transport_peer_class" where
  "tx_rollback k0 k = k\<lparr>pc_tx_user_sequence := pc_tx_user_sequence k0, pc_tx_control_sequence := pc_tx_control_sequence k0\<rparr>"

text \<open>The states get the identifiers of their fragmented packets.\<close>

definition tx_set_ids :: "linkg_transport_tx_state list \<Rightarrow> u32 option list \<Rightarrow> linkg_transport_tx_state list" where
  "tx_set_ids states ids = map2 (\<lambda>st id. case id of None \<Rightarrow> st | Some packet_id \<Rightarrow> st\<lparr>ts_packet_id := packet_id\<rparr>) states ids"

text \<open>The return code, the results if the frames reached the links, the context, and the links with the heap.\<close>

definition linkg_transport_tx_send_chunk ::
    "'d linkg_transport_tx_context \<Rightarrow> linkg_transport_tx_item list \<Rightarrow> u64 \<Rightarrow> linkg_transport_context \<Rightarrow> 'd \<times> heap \<Rightarrow>
     int \<times> int list option \<times> linkg_transport_context \<times> 'd \<times> heap" where
  "linkg_transport_tx_send_chunk ctx items now_ms c = (\<lambda>(d, h).
     (if items = [] then (- EINVAL, None, c, d, h)
      else if length items > LINKG_TRANSPORT_TX_BATCH_MAX then (- EOVERFLOW, None, c, d, h)
      else
        (let (ret, states, h1) = linkg_transport_tx_prepare_states items h in
         if ret \<noteq> 0 then (ret, None, c, d, linkg_transport_tx_cleanup_states states h1)
         else
           (case linkg_transport_tx_acquire_state (tx_peer_node_id ctx) (unat (tx_traffic_class ctx))
                   (map (\<lambda>st. ts_frame_count st = LINKG_TRANSPORT_FRAGMENT_COUNT_MAX) states) c of
              (Inl ret, c1) \<Rightarrow> (ret, None, c1, d, linkg_transport_tx_cleanup_states states h1)
            | (Inr (i, ids), c1) \<Rightarrow>
                (let j = unat (tx_traffic_class ctx); k0 = pr_classes (tc_peers c1 ! i) ! j; states = tx_set_ids states ids;
                     (ret, batch, k1, h2) = linkg_transport_tx_encode_batch (tc_local_node_id c1) items states k0 h1 in
                 if ret \<noteq> 0
                 then (ret, None, upd_class i j (tx_rollback k0 k1) c1, d,
                       linkg_transport_tx_cleanup_states states (linkg_transport_tx_restore_packets items states h2))
                 else
                   (let (accepted_frames, frame_results, d1, h3) = linkg_transport_tx_submit_wire_batch ctx (map fst batch) (d, h2);
                        k2 = (if accepted_frames = 0 then tx_rollback k0 k1 else k1);
                        k3 = linkg_transport_tx_record_stats batch frame_results now_ms k2;
                        (success_count, results, h4) = linkg_transport_tx_finalize_results items states frame_results h3
                    in (int success_count, Some results, upd_class i j k3 c1, d1, linkg_transport_tx_cleanup_states states h4)))))))"

section \<open>Sending\<close>

text \<open>The chunks in order: the successes, the first error, whether a chunk was processed, the results and the state.\<close>

function tx_send_loop ::
    "'d linkg_transport_tx_context \<Rightarrow> linkg_transport_tx_item list \<Rightarrow> u64 \<Rightarrow> linkg_transport_context \<Rightarrow> 'd \<times> heap \<Rightarrow>
     nat \<times> int \<times> bool \<times> int list \<times> linkg_transport_context \<times> 'd \<times> heap" where
  "tx_send_loop ctx items now_ms c s =
     (if items = [] then (0, 0, False, [], c, s)
      else
        (let n = min (length items) LINKG_TRANSPORT_TX_BATCH_MAX;
             (ret, results, c1, s1) = linkg_transport_tx_send_chunk ctx (take n items) now_ms c s;
             (success, first_error, processed, rest, c2, s2) = tx_send_loop ctx (drop n items) now_ms c1 s1
         in if ret < 0
            then (success, ret, processed, replicate n ret @ rest, c2, s2)
            else (nat ret + success, first_error, True, the results @ rest, c2, s2)))"
  by pat_completeness auto
termination
  by (relation "measure (\<lambda>(ctx, items, now_ms, c, s). length items)") auto

declare tx_send_loop.simps [simp del]

text \<open>The first error of the loop is that of the first chunk that failed.\<close>

definition linkg_transport_send_batch ::
    "'d linkg_transport_tx_context option \<Rightarrow> linkg_transport_tx_item list option \<Rightarrow> u64 \<Rightarrow> linkg_transport_context \<Rightarrow> 'd \<times> heap \<Rightarrow>
     int \<times> int list option \<times> linkg_transport_context \<times> 'd \<times> heap" where
  "linkg_transport_send_batch context items now_ms c s =
     (if \<not> tc_initialized c then (- ENODEV, None, c, s)
      else case (context, items) of
        (Some ctx, Some its) \<Rightarrow>
         (if its = [] then (- EINVAL, None, c, s)
          else
            (let ret = linkg_transport_tx_validate_batch context items (snd s) in
             if ret \<noteq> 0 then (ret, None, c, s)
             else
               (let (success, first_error, processed, results, c1, s1) = tx_send_loop ctx its now_ms c s
                in (if \<not> processed then first_error else int success, Some results, c1, s1))))
      | _ \<Rightarrow> (- EINVAL, None, c, s))"

definition linkg_transport_send ::
    "'d linkg_transport_tx_context option \<Rightarrow> linkg_transport_tx_item option \<Rightarrow> u64 \<Rightarrow> linkg_transport_context \<Rightarrow> 'd \<times> heap \<Rightarrow>
     int \<times> linkg_transport_context \<times> 'd \<times> heap" where
  "linkg_transport_send context item now_ms c s =
     (case item of
        None \<Rightarrow> (- EINVAL, c, s)
      | Some it \<Rightarrow>
         (let (ret, results, c1, s1) = linkg_transport_send_batch context (Some [it]) now_ms c s
          in (if ret < 0 then ret else hd (the results), c1, s1)))"

section \<open>Relaying\<close>

text \<open>The type of each frame, or the error of the first that is no valid item.\<close>

fun tx_forward_types :: "linkg_transport_forward_item list \<Rightarrow> heap \<Rightarrow> int + u8 list" where
  "tx_forward_types [] h = Inr []"
| "tx_forward_types (item # items) h =
     (if fi_packet item = None \<or> fi_payload_length item = 0 then Inl (- EINVAL)
      else case linkg_transport_wire_decode (fi_packet item) h of
        Inl ret \<Rightarrow> Inl ret
      | Inr header \<Rightarrow>
         (case tx_forward_types items h of Inl ret \<Rightarrow> Inl ret | Inr types \<Rightarrow> Inr (th_type header # types)))"

fun tx_forward_sequences ::
    "(nat \<times> u8) list \<Rightarrow> linkg_transport_peer_class \<Rightarrow> heap \<Rightarrow> int \<times> linkg_transport_peer_class \<times> heap" where
  "tx_forward_sequences [] k h = (0, k, h)"
| "tx_forward_sequences ((p, type) # rest) k h =
     (let (sequence, k1) = linkg_transport_tx_next_sequence type k;
          (ret, h1) = linkg_transport_wire_update_sequence (Some p) sequence h
      in if ret \<noteq> 0 then (ret, k1, h1) else tx_forward_sequences rest k1 h1)"

definition linkg_transport_forward_batch ::
    "'d linkg_transport_tx_context option \<Rightarrow> linkg_transport_forward_item list option \<Rightarrow> u64 \<Rightarrow> linkg_transport_context \<Rightarrow> 'd \<times> heap \<Rightarrow>
     int \<times> int list option \<times> linkg_transport_context \<times> 'd \<times> heap" where
  "linkg_transport_forward_batch context items now_ms c = (\<lambda>(d, h).
     (if \<not> tc_initialized c then (- ENODEV, None, c, d, h)
      else case (context, items) of
        (Some ctx, Some its) \<Rightarrow>
         (if its = [] then (- EINVAL, None, c, d, h)
          else if length its > LINKG_TRANSPORT_FORWARD_BATCH_MAX then (- EOVERFLOW, None, c, d, h)
          else if linkg_transport_tx_validate_context context \<noteq> 0
          then (linkg_transport_tx_validate_context context, None, c, d, h)
          else case tx_forward_types its h of
            Inl ret \<Rightarrow> (ret, None, c, d, h)
          | Inr types \<Rightarrow>
             (case linkg_transport_tx_acquire_forward_state (tx_peer_node_id ctx) (unat (tx_traffic_class ctx)) c of
                Inl ret \<Rightarrow> (ret, None, c, d, h)
              | Inr i \<Rightarrow>
                 (let j = unat (tx_traffic_class ctx); k0 = pr_classes (tc_peers c ! i) ! j;
                      packets = map (\<lambda>item. the (fi_packet item)) its;
                      (ret, k1, h1) = tx_forward_sequences (zip packets types) k0 h in
                  if ret \<noteq> 0 then (ret, None, upd_class i j (tx_rollback k0 k1) c, d, h1)
                  else
                    (let (accepted_count, results, d1, h2) = linkg_transport_tx_submit_wire_batch ctx packets (d, h1);
                         k2 = (if accepted_count = 0 then tx_rollback k0 k1 else k1);
                         k3 = linkg_transport_tx_record_forward_stats its types results now_ms k2
                     in (int accepted_count, Some results, upd_class i j k3 c, d1, h2)))))
      | _ \<Rightarrow> (- EINVAL, None, c, d, h)))"

end
