(* ===== verification/Transport_Tx_Frames.thy ===== *)
theory Transport_Tx_Frames
  imports Transport_Tx
begin

text \<open>
  From the packets of a chunk to its frames: the preparation of the tails leaves every packet in use alone
  and gives a fresh packet per long payload (\<open>prepare_ok\<close>), the encoders write exactly the bytes of
  \<open>batch_image\<close> and touch nothing but the packets of the chunk (\<open>only_packets\<close>). No chunk of checked packets
  fails to encode.
\<close>

section \<open>The fragments of a chunk\<close>

lemma alloc_facts:
  assumes "heap_ok h" "linkg_packet_pool_alloc pool h = (r, h')"
  shows "r = None \<Longrightarrow> h' = h"
    "r = Some t \<Longrightarrow> heap_ok h' \<and> refs h t = 0 \<and> refs h' = (refs h)(t := 1) \<and> byte_at h' = byte_at h \<and>
       (\<forall>x. x \<noteq> t \<longrightarrow> pk_at h' x = pk_at h x) \<and> pk_data_length (pk_at h' t) = 0"
proof -
  show "r = None \<Longrightarrow> h' = h"
    using assms(2) by (auto simp: linkg_packet_pool_alloc_def Let_def split: option.splits if_splits prod.splits)
  assume "r = Some t"
  then obtain q fs where q: "pl_initialized (pool_at h q)" "pl_free_packets (pool_at h q) = Some fs"
    "pl_free_count (pool_at h q) \<noteq> 0" and pop: "pool_pop q fs h = (t, h')"
    using assms(2) by (auto simp: linkg_packet_pool_alloc_def Let_def split: option.splits if_splits prod.splits)
  note f = pop_facts [OF heap_okD [OF assms(1) q(1)] q(2,3) pop] and r = refs_pop [OF assms(1) q pop]
  have "byte_at h' = byte_at h"
    using pop by (auto simp: pool_pop_def linkg_packet_reset_def Let_def split: option.splits)
  then show "heap_ok h' \<and> refs h t = 0 \<and> refs h' = (refs h)(t := 1) \<and> byte_at h' = byte_at h \<and>
       (\<forall>x. x \<noteq> t \<longrightarrow> pk_at h' x = pk_at h x) \<and> pk_data_length (pk_at h' t) = 0"
    using heap_ok_pop [OF assms(1) q pop] r f(6,7) by (auto simp: fun_eq_iff)
qed

text \<open>Nothing changed for the packets in use.\<close>

definition keeps_held :: "heap \<Rightarrow> heap \<Rightarrow> bool" where
  "keeps_held h h' \<longleftrightarrow> (\<forall>x. 0 < refs h x \<longrightarrow> pk_at h' x = pk_at h x \<and> packet_bytes h' x = packet_bytes h x)"

lemma refs_pk: "pk_at h' x = pk_at h x \<Longrightarrow> (\<And>q. pool_packets (pool_at h' q) = pool_packets (pool_at h q) \<and>
   pl_initialized (pool_at h' q) = pl_initialized (pool_at h q)) \<Longrightarrow> refs h' x = refs h x"
  by (simp add: refs_def split: option.splits)

lemma keeps_held_trans:
  "keeps_held h h1 \<Longrightarrow> keeps_held h1 h2 \<Longrightarrow> (\<And>x. 0 < refs h x \<Longrightarrow> 0 < refs h1 x) \<Longrightarrow> keeps_held h h2"
  by (simp add: keeps_held_def)

lemma alloc_keeps_held:
  assumes "heap_ok h" "linkg_packet_pool_alloc pool h = (Some t, h')"
  shows "keeps_held h h'"
proof -
  have f: "refs h t = 0" "byte_at h' = byte_at h" "\<And>x. x \<noteq> t \<Longrightarrow> pk_at h' x = pk_at h x"
    using alloc_facts(2) [OF assms, of t] by blast+
  show ?thesis unfolding keeps_held_def
  proof (intro allI impI)
    fix x assume "0 < refs h x"
    then have "pk_at h' x = pk_at h x" using f(1,3) by (metis less_irrefl)
    then show "pk_at h' x = pk_at h x \<and> packet_bytes h' x = packet_bytes h x"
      by (simp add: packet_bytes_def linkg_packet_data_def f(2) split: option.split)
  qed
qed

lemma heap_ok_flags:
  "heap_ok (upd_pk p (\<lambda>k. k\<lparr>pk_flags := f\<rparr>) h) = heap_ok h"
  "refs (upd_pk p (\<lambda>k. k\<lparr>pk_flags := f\<rparr>) h) = refs h"
  "managed (upd_pk p (\<lambda>k. k\<lparr>pk_flags := f\<rparr>) h) = managed h"
  "packet_bytes (upd_pk p (\<lambda>k. k\<lparr>pk_flags := f\<rparr>) h) = packet_bytes h"
  by (auto simp: heap_ok_def pool_ok_def packet_in_slot_def refs_def managed_def packet_bytes_def linkg_packet_data_def
      fun_eq_iff Let_def split: option.splits)

lemma fill_tail_facts:
  assumes "heap_ok h" "managed h p" "managed h t" "p \<noteq> t"
    and "1428 < pk_data_length (pk_at h p)"
    and "\<not> the (linkg_packet_capacity t h) < pk_data_length (pk_at h p) - LINKG_TRANSPORT_FRAGMENT_PAYLOAD_MAX_SIZE"
  shows "heap_ok (tx_fill_tail p t h)" "refs (tx_fill_tail p t h) = refs h" "managed (tx_fill_tail p t h) = managed h"
    "packet_bytes (tx_fill_tail p t h) t = drop 1420 (packet_bytes h p)"
    "\<And>x. x \<noteq> t \<Longrightarrow> pk_at (tx_fill_tail p t h) x = pk_at h x"
    "\<And>x. managed h x \<Longrightarrow> x \<noteq> t \<Longrightarrow> packet_bytes (tx_fill_tail p t h) x = packet_bytes h x"
    "pk_data_offset (pk_at (tx_fill_tail p t h) t) = pk_data_offset (pk_at h t)"
proof -
  define n where "n = pk_data_length (pk_at h p) - LINKG_TRANSPORT_FRAGMENT_PAYLOAD_MAX_SIZE"
  obtain a where a: "linkg_packet_data p h = Some a" using managed_data [OF assms(1,2)] by auto
  obtain b where b: "linkg_packet_data t h = Some b" using managed_data [OF assms(1,3)] by auto
  obtain q where q: "pk_pool (pk_at h t) = Some q" "packet_in_slot (pool_at h q) (pk_at h t)"
    "pk_slot (pk_at h t) \<noteq> None"
    using managed_pool [OF assms(1,3)] by (metis option.distinct(1))
  have n: "unat n = unat (pk_data_length (pk_at h p)) - 1420"
    using assms(5) unfolding n_def by (subst unat_sub_le) (auto simp: word_le_nat_alt word_less_nat_alt)
  have "unat n \<le> unat (pl_slot_size (pool_at h q) - pk_data_offset (pk_at h t))"
    using assms(6) q(1) by (simp add: linkg_packet_capacity_def n_def not_less word_le_nat_alt)
  moreover have "unat (pl_slot_size (pool_at h q) - pk_data_offset (pk_at h t)) =
      unat (pl_slot_size (pool_at h q)) - unat (pk_data_offset (pk_at h t))"
    using q(2) by (intro unat_sub_le) (simp add: packet_in_slot_def word_le_nat_alt)
  ultimately have fit: "unat (pk_data_offset (pk_at h t)) + unat n \<le> unat (pl_slot_size (pool_at h q))"
    using q(2) by (simp add: packet_in_slot_def)
  define m where "m = mem_read (byte_at h) (a + 1420) (unat n)"
  define h1 where "h1 = upd_pk t (\<lambda>k. k\<lparr>pk_data_length := n\<rparr>) h"
  have fill: "tx_fill_tail p t h = upd_pk t (\<lambda>k. k\<lparr>pk_flags := pk_flags (pk_at h p)\<rparr>) (h1\<lparr>byte_at := mem_write b m (byte_at h)\<rparr>)"
    by (simp add: tx_fill_tail_def a b Let_def n_def [symmetric] m_def [symmetric] upd_pk_def h1_def)
  note l = heap_ok_set_length [OF assms(1,3) q(1) fit]
  show "heap_ok (tx_fill_tail p t h)" "refs (tx_fill_tail p t h) = refs h" "managed (tx_fill_tail p t h) = managed h"
    using l by (simp_all add: fill heap_ok_flags h1_def)
  show pk: "pk_at (tx_fill_tail p t h) x = pk_at h x" if "x \<noteq> t" for x using that by (simp add: fill h1_def)
  show "pk_data_offset (pk_at (tx_fill_tail p t h) t) = pk_data_offset (pk_at h t)" by (simp add: fill h1_def)
  have "within_slot h t b (length m)"
    using q fit b by (auto simp: within_slot_def m_def linkg_packet_data_def)
  then show "packet_bytes (tx_fill_tail p t h) x = packet_bytes h x" if "managed h x" "x \<noteq> t" for x
    using packet_bytes_write_other [OF assms(1,3) that] pk [OF that(2)] by (simp add: fill h1_def)
  have "linkg_packet_data t (tx_fill_tail p t h) = Some b" using b by (simp add: fill h1_def linkg_packet_data_def)
  then show "packet_bytes (tx_fill_tail p t h) t = drop 1420 (packet_bytes h p)"
    by (simp add: packet_bytes_at fill h1_def mem_simps m_def a n)
qed

definition tails :: "linkg_transport_tx_state list \<Rightarrow> nat list" where
  "tails states = List.map_filter ts_tail_packet states"

lemma tails_simps [simp]:
  "tails [] = []" "tails (st # states) = (case ts_tail_packet st of None \<Rightarrow> tails states | Some t \<Rightarrow> t # tails states)"
  "tails (replicate n tx_state_zero) = []"
  by (auto simp: tails_def map_filter_simps tx_state_zero_def split: option.splits) (induction n; simp add: map_filter_simps)

text \<open>What the preparation promises of a packet: the layout it noted and, of a long packet, the tail.\<close>

definition prepared :: "heap \<Rightarrow> heap \<Rightarrow> linkg_transport_tx_item \<Rightarrow> linkg_transport_tx_state \<Rightarrow> bool" where
  "prepared h h' item st \<longleftrightarrow> (let p = the (ti_packet item) in
     ts_original_data_offset st = pk_data_offset (pk_at h p) \<and> ts_original_data_length st = pk_data_length (pk_at h p) \<and>
     ts_original_flags st = pk_flags (pk_at h p) \<and> ts_packet_id st = 0 \<and>
     (if 1428 < pk_data_length (pk_at h p)
      then ts_frame_count st = 2 \<and> (\<exists>t. ts_tail_packet st = Some t \<and> packet_bytes h' t = drop 1420 (packet_bytes h p) \<and>
             24 \<le> pk_data_offset (pk_at h' t))
      else ts_frame_count st = 1 \<and> ts_tail_packet st = None))"

definition prepare_ok :: "heap \<Rightarrow> linkg_transport_tx_item list \<Rightarrow> int \<times> linkg_transport_tx_state list \<times> heap \<Rightarrow> bool" where
  "prepare_ok h items r \<longleftrightarrow> (case r of (ret, states, h') \<Rightarrow>
     heap_ok h' \<and> keeps_held h h' \<and> length states = length items \<and> ret \<le> 0 \<and>
     distinct (tails states) \<and> (\<forall>t\<in>set (tails states). refs h t = 0) \<and>
     (\<forall>x. refs h' x = (if x \<in> set (tails states) then 1 else refs h x)) \<and>
     (ret = 0 \<longrightarrow> list_all2 (prepared h h') items states))"

lemma keeps_heldD: "keeps_held h h' \<Longrightarrow> 0 < refs h x \<Longrightarrow> pk_at h' x = pk_at h x"
  "keeps_held h h' \<Longrightarrow> 0 < refs h x \<Longrightarrow> packet_bytes h' x = packet_bytes h x"
  by (simp_all add: keeps_held_def)

lemma prepared_base:
  "keeps_held h h1 \<Longrightarrow> 0 < refs h (the (ti_packet item)) \<Longrightarrow> prepared h1 h2 item st \<longleftrightarrow> prepared h h2 item st"
  by (simp add: prepared_def keeps_held_def)

lemma prepared_list_base:
  assumes "keeps_held h h1" "\<forall>item\<in>set items. 0 < refs h (the (ti_packet item))" "list_all2 (prepared h1 h2) items states"
  shows "list_all2 (prepared h h2) items states"
  using assms(3) by (rule list.rel_mono_strong) (use assms(1,2) prepared_base in blast)

lemma prepare_short:
  assumes "prepare_ok h items (ret, states, h')" "\<not> 1428 < pk_data_length (pk_at h (the (ti_packet item)))"
  shows "prepare_ok h (item # items) (ret, tx_state_of (the (ti_packet item)) n h # states, h')"
  using assms by (auto simp: prepare_ok_def prepared_def tx_state_of_def tx_state_zero_def Let_def)

lemma prepare_long:
  assumes "heap_ok h" and p: "p = the (ti_packet item)" "0 < refs h p" "1428 < pk_data_length (pk_at h p)"
    and held: "\<forall>item\<in>set items. 0 < refs h (the (ti_packet item))"
    and alloc: "linkg_packet_pool_alloc pool h = (Some t, h1)"
    and room: "\<not> linkg_packet_headroom t h1 < 24"
      "\<not> the (linkg_packet_capacity t h1) < pk_data_length (pk_at h1 p) - LINKG_TRANSPORT_FRAGMENT_PAYLOAD_MAX_SIZE"
    and rest: "heap_ok (tx_fill_tail p t h1) \<Longrightarrow> \<forall>item\<in>set items. 0 < refs (tx_fill_tail p t h1) (the (ti_packet item)) \<Longrightarrow>
      prepare_ok (tx_fill_tail p t h1) items (ret, states, h')"
  shows "prepare_ok h (item # items) (ret, (tx_state_of p n h)\<lparr>ts_tail_packet := Some t\<rparr> # states, h')"
proof -
  define h2 where "h2 = tx_fill_tail p t h1"
  have a: "heap_ok h1" "refs h t = 0" "refs h1 = (refs h)(t := 1)" "\<And>x. x \<noteq> t \<Longrightarrow> pk_at h1 x = pk_at h x"
    using alloc_facts(2) [OF assms(1) alloc, of t] by blast+
  have k1: "keeps_held h h1" by (rule alloc_keeps_held [OF assms(1) alloc])
  have pt: "p \<noteq> t" using p(2) a(2) by auto
  have m: "managed h1 p" "managed h1 t" using p(2) pt by (auto intro!: refs_managed simp: a(3))
  have len: "1428 < pk_data_length (pk_at h1 p)" using p(3) a(4) [OF pt] by simp
  note f = fill_tail_facts [OF a(1) m pt len room(2), folded h2_def]
  have k2: "keeps_held h h2"
    unfolding keeps_held_def
  proof (intro allI impI)
    fix x assume x: "0 < refs h x"
    then have "x \<noteq> t" "managed h1 x" using a(2) by (auto intro!: refs_managed simp: a(3))
    then show "pk_at h2 x = pk_at h x \<and> packet_bytes h2 x = packet_bytes h x"
      using f(5,6) keeps_heldD [OF k1 x] by simp
  qed
  have r2: "refs h2 = (refs h)(t := 1)" by (simp add: f(2) a(3))
  have held2: "\<forall>item\<in>set items. 0 < refs h2 (the (ti_packet item))" using held by (simp add: r2)
  have ih: "prepare_ok h2 items (ret, states, h')" using rest f(1) held2 unfolding h2_def by blast
  then have i: "heap_ok h'" "keeps_held h2 h'" "length states = length items" "ret \<le> 0" "distinct (tails states)"
    "\<forall>t\<in>set (tails states). refs h2 t = 0" "\<forall>x. refs h' x = (if x \<in> set (tails states) then 1 else refs h2 x)"
    "ret = 0 \<longrightarrow> list_all2 (prepared h2 h') items states"
    unfolding prepare_ok_def split_conv by blast+
  have kh: "keeps_held h h'" by (rule keeps_held_trans [OF k2 i(2)]) (auto simp: r2)
  have t: "t \<notin> set (tails states)" using i(6) by (auto simp: r2)
  have "packet_bytes h' t = drop 1420 (packet_bytes h p)" "pk_data_offset (pk_at h' t) = pk_data_offset (pk_at h1 t)"
    using keeps_heldD [OF i(2), of t] f(4,7) keeps_heldD(2) [OF k1 p(2)] by (simp_all add: r2)
  then have "prepared h h' item ((tx_state_of p n h)\<lparr>ts_tail_packet := Some t\<rparr>)"
    using p(3) room(1) by (simp add: prepared_def tx_state_of_def tx_state_zero_def p(1) linkg_packet_headroom_def not_less)
  moreover have "ret = 0 \<longrightarrow> list_all2 (prepared h h') items states"
    using prepared_list_base [OF k2 held] i(8) by blast
  moreover have "\<forall>x\<in>set (tails states). refs h x = 0" using i(6) by (auto simp: r2 split: if_splits)
  ultimately show ?thesis using i(1,3-5,7) t kh a(2) by (simp add: prepare_ok_def r2)
qed

lemma release_frame:
  "byte_at (linkg_packet_release (Some t) h) = byte_at h"
  "x \<noteq> t \<Longrightarrow> pk_at (linkg_packet_release (Some t) h) x = pk_at h x"
  by (auto simp: linkg_packet_release_def linkg_packet_release_reference_def linkg_packet_reset_def Let_def split: option.splits)

lemma release_keeps:
  "x \<noteq> t \<Longrightarrow> packet_bytes (linkg_packet_release (Some t) h) x = packet_bytes h x"
  by (simp add: packet_bytes_def linkg_packet_data_def release_frame split: option.split)

lemma state_of_simps [simp]:
  "ts_frame_count (tx_state_of p n h) = (if 1428 < pk_data_length (pk_at h p) then 2 else 1)"
  "ts_tail_packet (tx_state_of p n h) = None"
  by (simp_all add: tx_state_of_def tx_state_zero_def)

lemma prepare_stop:
  assumes "heap_ok h'" "keeps_held h h'" "refs h' = refs h" "e < 0" "ts_tail_packet st = None"
  shows "prepare_ok h (item # items) (e, st # replicate (length items) tx_state_zero, h')"
  using assms by (simp add: prepare_ok_def)

lemma prepare_loop_ok:
  assumes "heap_ok h" "\<forall>item\<in>set items. 0 < refs h (the (ti_packet item))"
  shows "prepare_ok h items (tx_prepare_loop items n h)"
  using assms
proof (induction items arbitrary: n h)
  case Nil
  then show ?case by (simp add: prepare_ok_def keeps_held_def)
next
  case (Cons item items)
  define p where "p = the (ti_packet item)"
  have held: "0 < refs h p" "\<forall>item\<in>set items. 0 < refs h (the (ti_packet item))" using Cons.prems(2) by (auto simp: p_def)
  show ?case
  proof (cases "1428 < pk_data_length (pk_at h p)")
    case False
    obtain ret states h1 where l: "tx_prepare_loop items (n + 1) h = (ret, states, h1)" by (metis prod_cases3)
    have "prepare_ok h items (ret, states, h1)" using Cons.IH [OF Cons.prems(1) held(2), of "n + 1"] l by simp
    from prepare_short [OF this, of item n] False have "prepare_ok h (item # items) (ret, tx_state_of p n h # states, h1)"
      by (simp add: p_def)
    then show ?thesis using l False by (simp add: Let_def p_def [symmetric])
  next
    case True
    obtain r h1 where alloc: "linkg_packet_pool_alloc (pk_pool (pk_at h p)) h = (r, h1)" by (metis surj_pair)
    show ?thesis
    proof (cases r)
      case None
      then have "h1 = h" using alloc_facts(1) [OF Cons.prems(1) alloc] by simp
      then show ?thesis using True None alloc Cons.prems(1)
        by (simp add: Let_def p_def [symmetric] prepare_stop keeps_held_def)
    next
      case (Some t)
      note alloc = alloc [unfolded Some]
      have a: "heap_ok h1" "refs h t = 0" "refs h1 = (refs h)(t := 1)"
        using alloc_facts(2) [OF Cons.prems(1) alloc, of t] by blast+
      show ?thesis
      proof (cases "linkg_packet_headroom t h1 < 24 \<or> the (linkg_packet_capacity t h1) < pk_data_length (pk_at h1 p) - LINKG_TRANSPORT_FRAGMENT_PAYLOAD_MAX_SIZE")
        case bad: True
        define h2 where "h2 = linkg_packet_release (Some t) h1"
        have t1: "0 < refs h1 t" by (simp add: a(3))
        have "heap_ok h2" using heap_ok_release [OF a(1) t1] by (simp add: h2_def)
        moreover have "refs h2 = refs h" using refs_release [OF a(1) t1] a(2,3) by (auto simp: h2_def fun_eq_iff)
        moreover have "keeps_held h h2"
          using keeps_heldD [OF alloc_keeps_held [OF Cons.prems(1) alloc]] release_frame(2) release_keeps a(2)
          unfolding keeps_held_def h2_def by (metis less_irrefl)
        ultimately show ?thesis using True bad alloc by (simp add: Let_def p_def [symmetric] prepare_stop h2_def)
      next
        case False
        obtain ret states h' where l: "tx_prepare_loop items (n + 2) (tx_fill_tail p t h1) = (ret, states, h')" by (metis prod_cases3)
        have "prepare_ok h (item # items) (ret, (tx_state_of p n h)\<lparr>ts_tail_packet := Some t\<rparr> # states, h')"
          using False Cons.IH [where n = "n + 2" and h = "tx_fill_tail p t h1"] l
          by (intro prepare_long [OF Cons.prems(1) p_def held(1) True held(2) alloc]) auto
        then show ?thesis using False True l by (simp add: alloc Let_def p_def [symmetric])
      qed
    qed
  qed
qed

section \<open>The frames on the wire\<close>

text \<open>Only the packets in \<open>P\<close> may differ.\<close>

definition only_packets :: "nat set \<Rightarrow> heap \<Rightarrow> heap \<Rightarrow> bool" where
  "only_packets P h h' \<longleftrightarrow> heap_ok h' \<and> refs h' = refs h \<and> managed h' = managed h \<and>
     (\<forall>x. managed h x \<longrightarrow> x \<notin> P \<longrightarrow> pk_at h' x = pk_at h x \<and> packet_bytes h' x = packet_bytes h x)"

lemma only_packets_trans: "only_packets P h h1 \<Longrightarrow> only_packets Q h1 h2 \<Longrightarrow> only_packets (P \<union> Q) h h2"
  by (simp add: only_packets_def)

lemma only_packetsD:
  "only_packets P h h' \<Longrightarrow> managed h x \<Longrightarrow> x \<notin> P \<Longrightarrow> pk_at h' x = pk_at h x"
  "only_packets P h h' \<Longrightarrow> managed h x \<Longrightarrow> x \<notin> P \<Longrightarrow> packet_bytes h' x = packet_bytes h x"
  "only_packets P h h' \<Longrightarrow> heap_ok h'" "only_packets P h h' \<Longrightarrow> managed h' x \<longleftrightarrow> managed h x"
  "only_packets P h h' \<Longrightarrow> refs h' = refs h"
  by (simp_all add: only_packets_def)

lemma push_only:
  assumes "heap_ok h" "managed h p" "n \<noteq> 0" "n \<le> pk_data_offset (pk_at h p)" "length bs = unat n"
  obtains a h1 where "linkg_packet_push (Some p) n h = (Some a, h1)"
    "only_packets {p} h (h1\<lparr>byte_at := mem_write a bs (byte_at h1)\<rparr>)"
    "packet_bytes (h1\<lparr>byte_at := mem_write a bs (byte_at h1)\<rparr>) p = bs @ packet_bytes h p"
    "pk_data_offset (pk_at h1 p) = pk_data_offset (pk_at h p) - n" "pk_flags (pk_at h1 p) = pk_flags (pk_at h p)"
    "unat (pk_data_length (pk_at h1 p)) = unat (pk_data_length (pk_at h p)) + unat n"
proof -
  obtain s where s: "pk_slot (pk_at h p) = Some s" using managed_pool [OF assms(1,2)] by metis
  define h1 where "h1 = upd_pk p (\<lambda>k. k\<lparr>pk_data_offset := pk_data_offset k - n, pk_data_length := pk_data_length k + n\<rparr>) h"
  obtain a where push: "linkg_packet_push (Some p) n h = (Some a, h1)"
    using assms(3,4) s that by (auto simp: linkg_packet_push_def h1_def Let_def linkg_packet_data_def not_less)
  note w = push_write [OF assms(1,2) push assms(5) refl]
  have "managed h1 = managed h" by (auto simp: managed_def h1_def fun_eq_iff split: option.splits)
  then show ?thesis using that [OF push] w by (simp add: only_packets_def) (simp add: h1_def)
qed

lemma wire_encode_step:
  assumes "heap_ok h" "managed h p" "header_valid (frame_header hdr)"
    and "unat (pk_data_length (pk_at h p)) \<le> 1428" "16 \<le> pk_data_offset (pk_at h p)"
  obtains h' where "linkg_transport_wire_encode (Some p) (Some hdr) h = (0, h')" "only_packets {p} h h'"
    "packet_bytes h' p = header_bytes (frame_header hdr) @ packet_bytes h p" "pk_flags (pk_at h' p) = pk_flags (pk_at h p)"
proof -
  obtain s where s: "pk_slot (pk_at h p) = Some s" using managed_pool [OF assms(1,2)] by metis
  have len: "length (header_bytes (frame_header hdr)) = unat (16 :: u32)" and ne: "(16 :: u32) \<noteq> 0"
    by (simp_all add: base_header.length_enc)
  obtain a h1 where p: "linkg_packet_push (Some p) 16 h = (Some a, h1)"
    "only_packets {p} h (h1\<lparr>byte_at := mem_write a (header_bytes (frame_header hdr)) (byte_at h1)\<rparr>)"
    "packet_bytes (h1\<lparr>byte_at := mem_write a (header_bytes (frame_header hdr)) (byte_at h1)\<rparr>) p = header_bytes (frame_header hdr) @ packet_bytes h p"
    "pk_data_offset (pk_at h1 p) = pk_data_offset (pk_at h p) - 16" "pk_flags (pk_at h1 p) = pk_flags (pk_at h p)"
    "unat (pk_data_length (pk_at h1 p)) = unat (pk_data_length (pk_at h p)) + unat (16 :: u32)"
    by (rule push_only [OF assms(1,2) ne assms(5) len])
  have "\<not> 1444 < pk_data_length (pk_at h p) + 16"
    using assms(4) by (simp add: word_less_nat_alt unat_word_ariths)
  then have "linkg_transport_wire_encode (Some p) (Some hdr) h =
      (0, h1\<lparr>byte_at := mem_write a (header_bytes (frame_header hdr)) (byte_at h1)\<rparr>)"
    using assms(3,5) s p(1) unfolding linkg_transport_wire_encode_def frame_header_def [symmetric] header_valid_def
    by (simp add: frame_header_simps linkg_packet_headroom_def not_less)
  from that [OF this p(2,3)] p(5) show ?thesis by simp
qed

lemma wire_fragment_encode_step:
  assumes "heap_ok h" "managed h p" "fh_packet_id hdr \<noteq> 0" "pk_data_length (pk_at h p) \<noteq> 0"
    and "linkg_transport_wire_fragment_layout_valid (fh_fragment_offset hdr) (fh_packet_length hdr) (pk_data_length (pk_at h p))"
    and "unat (pk_data_length (pk_at h p)) \<le> 1420" "24 \<le> pk_data_offset (pk_at h p)"
  obtains h' where "linkg_transport_wire_fragment_encode (Some p) (Some hdr) h = (0, h')" "only_packets {p} h h'"
    "packet_bytes h' p = fragment_header_bytes hdr @ packet_bytes h p" "pk_flags (pk_at h' p) = pk_flags (pk_at h p)"
    "16 \<le> pk_data_offset (pk_at h' p)" "unat (pk_data_length (pk_at h' p)) \<le> 1428"
proof -
  obtain s where s: "pk_slot (pk_at h p) = Some s" using managed_pool [OF assms(1,2)] by metis
  have 8: "8 \<le> pk_data_offset (pk_at h p)" using assms(7) by (simp add: word_le_nat_alt)
  have len: "length (fragment_header_bytes hdr) = unat (8 :: u32)" and ne: "(8 :: u32) \<noteq> 0"
    by (simp_all add: frag_header.length_enc)
  obtain a h1 where p: "linkg_packet_push (Some p) 8 h = (Some a, h1)"
    "only_packets {p} h (h1\<lparr>byte_at := mem_write a (fragment_header_bytes hdr) (byte_at h1)\<rparr>)"
    "packet_bytes (h1\<lparr>byte_at := mem_write a (fragment_header_bytes hdr) (byte_at h1)\<rparr>) p = fragment_header_bytes hdr @ packet_bytes h p"
    "pk_data_offset (pk_at h1 p) = pk_data_offset (pk_at h p) - 8" "pk_flags (pk_at h1 p) = pk_flags (pk_at h p)"
    "unat (pk_data_length (pk_at h1 p)) = unat (pk_data_length (pk_at h p)) + unat (8 :: u32)"
    by (rule push_only [OF assms(1,2) ne 8 len])
  have "\<not> 1444 < pk_data_length (pk_at h p) + 8 + 16"
    using assms(6) by (simp add: word_less_nat_alt unat_word_ariths)
  then have "linkg_transport_wire_fragment_encode (Some p) (Some hdr) h =
      (0, h1\<lparr>byte_at := mem_write a (fragment_header_bytes hdr) (byte_at h1)\<rparr>)"
    using assms(3-5) 8 s p(1) unfolding linkg_transport_wire_fragment_encode_def
    by (simp add: linkg_packet_headroom_def not_less)
  moreover have "16 \<le> pk_data_offset (pk_at h p) - 8"
    using assms(7) unat_sub_le [OF 8] by (simp add: word_le_nat_alt)
  ultimately show ?thesis using that [OF _ p(2,3)] p(4-6) assms(6) by simp
qed

text \<open>The bytes of the frames of one packet, from its payload, identifier and sequences.\<close>

definition base_bytes :: "u8 \<Rightarrow> linkg_transport_tx_item \<Rightarrow> u16 \<Rightarrow> u32 \<Rightarrow> u8 list" where
  "base_bytes local_node_id item flags sequence = header_bytes (frame_header (linkg_transport_tx_build_header local_node_id item flags sequence))"

definition packet_image :: "u8 \<Rightarrow> linkg_transport_tx_item \<Rightarrow> u32 \<Rightarrow> u8 list \<Rightarrow> u32 list \<Rightarrow> u8 list list" where
  "packet_image local_node_id item packet_id payload sequences =
     (if length payload \<le> 1428 then [base_bytes local_node_id item 0 (sequences ! 0) @ payload]
      else [base_bytes local_node_id item 1 (sequences ! 0) @
              fragment_header_bytes \<lparr>fh_packet_id = packet_id, fh_fragment_offset = 0, fh_packet_length = of_nat (length payload)\<rparr> @
              take 1420 payload,
            base_bytes local_node_id item 1 (sequences ! 1) @
              fragment_header_bytes \<lparr>fh_packet_id = packet_id, fh_fragment_offset = 1420, fh_packet_length = of_nat (length payload)\<rparr> @
              drop 1420 payload])"

definition item_packets :: "linkg_transport_tx_item \<Rightarrow> linkg_transport_tx_state \<Rightarrow> nat list" where
  "item_packets item st = the (ti_packet item) # (case ts_tail_packet st of None \<Rightarrow> [] | Some t \<Rightarrow> [t])"

text \<open>A packet with its state as the encoder gets them.\<close>

definition ready :: "u8 \<Rightarrow> heap \<Rightarrow> linkg_transport_tx_item \<Rightarrow> linkg_transport_tx_state \<Rightarrow> u8 list \<Rightarrow> bool" where
  "ready local_node_id h item st payload \<longleftrightarrow> (let p = the (ti_packet item) in
     linkg_transport_wire_node_id_valid local_node_id \<and> linkg_transport_type_valid (ti_type item) \<and>
     linkg_transport_wire_node_id_valid (ti_destination_node_id item) \<and>
     managed h p \<and> packet_bytes h p = payload \<and> length payload \<le> 1500 \<and> distinct (item_packets item st) \<and>
     unat (ts_original_data_length st) = length payload \<and>
     (if length payload \<le> 1428 then ts_frame_count st = 1 \<and> ts_tail_packet st = None \<and> 16 \<le> pk_data_offset (pk_at h p)
      else ts_frame_count st = 2 \<and> ts_packet_id st \<noteq> 0 \<and> 24 \<le> pk_data_offset (pk_at h p) \<and>
        (\<exists>t. ts_tail_packet st = Some t \<and> managed h t \<and> packet_bytes h t = drop 1420 payload \<and> 24 \<le> pk_data_offset (pk_at h t))))"

lemma only_flags:
  assumes "heap_ok h"
  shows "only_packets {p} h (upd_pk p (\<lambda>k. k\<lparr>pk_flags := f\<rparr>) h)"
  using assms by (simp add: only_packets_def heap_ok_flags)

lemma build_header_valid:
  "linkg_transport_wire_node_id_valid n \<Longrightarrow> linkg_transport_type_valid (ti_type item) \<Longrightarrow>
   linkg_transport_wire_node_id_valid (ti_destination_node_id item) \<Longrightarrow> f = 0 \<or> f = 1 \<Longrightarrow>
   header_valid (frame_header (linkg_transport_tx_build_header n item f s))"
  by (auto simp: header_valid_def frame_header_simps linkg_transport_tx_build_header_def linkg_transport_wire_flags_valid_def)


lemma encode_normal_step:
  assumes "heap_ok h" "ready n h item st payload" "length payload \<le> 1428" "linkg_transport_tx_next_sequence (ti_type item) k = (s, k1)"
  obtains h' where "linkg_transport_tx_encode_normal n item st k h =
      (0, [(the (ti_packet item), ts_original_data_length st, ti_type item = LINKG_TRANSPORT_TYPE_USER_DATA)], k1, h')"
    "only_packets {the (ti_packet item)} h h'" "packet_bytes h' (the (ti_packet item)) = base_bytes n item 0 s @ payload"
    "pk_flags (pk_at h' (the (ti_packet item))) = pk_flags (pk_at h (the (ti_packet item))) AND NOT LINKG_PACKET_FLAG_TX_GROUP_MASK"
proof -
  let ?p = "the (ti_packet item)" and ?hdr = "linkg_transport_tx_build_header n item LINKG_TRANSPORT_FLAG_NONE s"
  define h1 where "h1 = set_group 0 ?p h"
  have r: "managed h ?p" "packet_bytes h ?p = payload" "16 \<le> pk_data_offset (pk_at h ?p)" "header_valid (frame_header ?hdr)"
    using assms(2,3) by (auto simp: ready_def Let_def intro: build_header_valid)
  have o: "only_packets {?p} h h1" "packet_bytes h1 = packet_bytes h" "pk_data_offset (pk_at h1 ?p) = pk_data_offset (pk_at h ?p)"
    "pk_data_length (pk_at h1 ?p) = pk_data_length (pk_at h ?p)"
    "pk_flags (pk_at h1 ?p) = pk_flags (pk_at h ?p) AND NOT LINKG_PACKET_FLAG_TX_GROUP_MASK"
    using only_flags [OF assms(1), of ?p] heap_ok_flags(4) [of ?p] by (simp_all add: h1_def set_group_def upd_pk_def)
  have len: "unat (pk_data_length (pk_at h1 ?p)) \<le> 1428"
    using length_packet_bytes [OF assms(1) r(1)] r(2) assms(3) o(4) by simp
  have m: "heap_ok h1" "managed h1 ?p" using only_packetsD(3,4) [OF o(1)] r(1) by auto
  have off: "16 \<le> pk_data_offset (pk_at h1 ?p)" using r(3) o(3) by simp
  obtain h' where e: "linkg_transport_wire_encode (Some ?p) (Some ?hdr) h1 = (0, h')" "only_packets {?p} h1 h'"
    "packet_bytes h' ?p = header_bytes (frame_header ?hdr) @ packet_bytes h1 ?p" "pk_flags (pk_at h' ?p) = pk_flags (pk_at h1 ?p)"
    by (rule wire_encode_step [OF m r(4) len off])
  show ?thesis
  proof (rule that [of h'])
    show "only_packets {?p} h h'" using only_packets_trans [OF o(1) e(2)] by simp
    show "linkg_transport_tx_encode_normal n item st k h =
      (0, [(?p, ts_original_data_length st, ti_type item = LINKG_TRANSPORT_TYPE_USER_DATA)], k1, h')"
      using e(1) assms(4) by (simp add: linkg_transport_tx_encode_normal_def h1_def Let_def)
  qed (use e(3,4) r(2) o(2,5) in \<open>simp_all add: base_bytes_def\<close>)
qed

lemma encode_fragment_step:
  assumes "heap_ok h" "managed h p" "header_valid (frame_header (linkg_transport_tx_build_header n item 1 s))"
    and "ts_packet_id st \<noteq> 0" "ts_original_data_length st \<le> 1500" "1428 < ts_original_data_length st"
    and "off = 0 \<and> pk_data_length (pk_at h p) = 1420 \<or> off = 1420 \<and> pk_data_length (pk_at h p) = ts_original_data_length st - 1420"
    and "24 \<le> pk_data_offset (pk_at h p)"
  obtains h' where "tx_encode_fragment n item st flag s off p h = (0, h')" "only_packets {p} h h'"
    "packet_bytes h' p = base_bytes n item 1 s @
       fragment_header_bytes \<lparr>fh_packet_id = ts_packet_id st, fh_fragment_offset = off, fh_packet_length = ucast (ts_original_data_length st)\<rparr> @ packet_bytes h p"
    "pk_flags (pk_at h' p) = (ts_original_flags st AND NOT LINKG_PACKET_FLAG_TX_GROUP_MASK) OR flag"
proof -
  let ?fh = "\<lparr>fh_packet_id = ts_packet_id st, fh_fragment_offset = off, fh_packet_length = ucast (ts_original_data_length st)\<rparr>"
  let ?hdr = "linkg_transport_tx_build_header n item LINKG_TRANSPORT_FLAG_FRAGMENT s"
  define h1 where "h1 = upd_pk p (\<lambda>k. k\<lparr>pk_flags := (ts_original_flags st AND NOT LINKG_PACKET_FLAG_TX_GROUP_MASK) OR flag\<rparr>) h"
  have o: "only_packets {p} h h1" "packet_bytes h1 = packet_bytes h"
    using only_flags [OF assms(1), of p] heap_ok_flags(4) [of p] by (simp_all add: h1_def)
  have m: "heap_ok h1" "managed h1 p" using only_packetsD(3,4) [OF o(1)] assms(2) by auto
  have u: "unat (ts_original_data_length st) \<le> 1500" "1428 < unat (ts_original_data_length st)"
    using assms(5,6) by (simp_all add: word_le_nat_alt word_less_nat_alt)
  have sub: "unat (ts_original_data_length st - 1420) = unat (ts_original_data_length st) - 1420"
    by (rule trans [OF unat_sub_le]) (use u in \<open>simp_all add: word_le_nat_alt\<close>)
  have uc: "(ucast (ucast (ts_original_data_length st) :: u16) :: u32) = ts_original_data_length st"
    using u by (simp add: word_unat_eq_iff unsigned_ucast_eq unsigned_take_bit_eq take_bit_nat_eq_self_iff)
  have len: "pk_data_length (pk_at h1 p) \<noteq> 0" "unat (pk_data_length (pk_at h1 p)) \<le> 1420"
    using assms(7) sub u by (auto simp: h1_def word_unat_eq_iff)
  have lay: "linkg_transport_wire_fragment_layout_valid (fh_fragment_offset ?fh) (fh_packet_length ?fh) (pk_data_length (pk_at h1 p))"
    using assms(5-7) uc by (auto simp: linkg_transport_wire_fragment_layout_valid_def h1_def)
  have off: "24 \<le> pk_data_offset (pk_at h1 p)" using assms(8) by (simp add: h1_def)
  have id: "fh_packet_id ?fh \<noteq> 0" using assms(4) by simp
  obtain h2 where f: "linkg_transport_wire_fragment_encode (Some p) (Some ?fh) h1 = (0, h2)" "only_packets {p} h1 h2"
    "packet_bytes h2 p = fragment_header_bytes ?fh @ packet_bytes h1 p" "pk_flags (pk_at h2 p) = pk_flags (pk_at h1 p)"
    "16 \<le> pk_data_offset (pk_at h2 p)" "unat (pk_data_length (pk_at h2 p)) \<le> 1428"
    by (rule wire_fragment_encode_step [OF m id len(1) lay len(2) off])
  have m2: "heap_ok h2" "managed h2 p" using only_packetsD(3,4) [OF f(2)] m(2) by auto
  obtain h3 where e: "linkg_transport_wire_encode (Some p) (Some ?hdr) h2 = (0, h3)" "only_packets {p} h2 h3"
    "packet_bytes h3 p = header_bytes (frame_header ?hdr) @ packet_bytes h2 p" "pk_flags (pk_at h3 p) = pk_flags (pk_at h2 p)"
    by (rule wire_encode_step [OF m2 assms(3) f(6,5)])
  show ?thesis
  proof (rule that [of h3])
    show "only_packets {p} h h3" using only_packets_trans [OF only_packets_trans [OF o(1) f(2)] e(2)] by simp
    show "tx_encode_fragment n item st flag s off p h = (0, h3)"
      using f(1) e(1) by (simp add: tx_encode_fragment_def h1_def Let_def)
  qed (use e(3,4) f(3,4) o(2) in \<open>simp_all add: base_bytes_def h1_def\<close>)
qed

lemma encode_fragmented_step:
  assumes "heap_ok h" "ready n h item st payload" "1428 < length payload"
    and "linkg_transport_tx_next_sequence (ti_type item) k = (s1, k1)" "linkg_transport_tx_next_sequence (ti_type item) k1 = (s2, k2)"
    and "ts_tail_packet st = Some t" and p: "p = the (ti_packet item)"
  obtains h' where "linkg_transport_tx_encode_fragmented n item st k h =
      (0, [(p, 1420, ti_type item = LINKG_TRANSPORT_TYPE_USER_DATA),
           (t, ts_original_data_length st - 1420, ti_type item = LINKG_TRANSPORT_TYPE_USER_DATA)], k2, h')"
    "only_packets {p, t} h h'" "map (packet_bytes h') [p, t] = packet_image n item (ts_packet_id st) payload [s1, s2]"
    "pk_flags (pk_at h' p) = (ts_original_flags st AND NOT LINKG_PACKET_FLAG_TX_GROUP_MASK) OR LINKG_PACKET_FLAG_TX_GROUP_FIRST"
    "pk_flags (pk_at h' t) = (ts_original_flags st AND NOT LINKG_PACKET_FLAG_TX_GROUP_MASK) OR LINKG_PACKET_FLAG_TX_GROUP_LAST"
proof -
  have r: "managed h p" "packet_bytes h p = payload" "24 \<le> pk_data_offset (pk_at h p)" "length payload \<le> 1500"
    "unat (ts_original_data_length st) = length payload" "ts_packet_id st \<noteq> 0"
    "managed h t" "packet_bytes h t = drop 1420 payload" "24 \<le> pk_data_offset (pk_at h t)" "p \<noteq> t"
    and hv: "header_valid (frame_header (linkg_transport_tx_build_header n item 1 s))" for s
    using assms(2,3,6) p by (auto simp: ready_def Let_def item_packets_def intro: build_header_valid)
  have bnd: "ts_original_data_length st \<le> 1500" "1428 < ts_original_data_length st"
    using r(4,5) assms(3) by (simp_all add: word_le_nat_alt word_less_nat_alt)
  have lenp: "unat (pk_data_length (pk_at h p)) = length payload" using length_packet_bytes [OF assms(1) r(1)] r(2) by simp
  obtain q a where q: "pk_pool (pk_at h p) = Some q" "packet_in_slot (pool_at h q) (pk_at h p)" "linkg_packet_data p h = Some a"
    using managed_pool [OF assms(1) r(1)] managed_data [OF assms(1) r(1)] by metis
  define h1 where "h1 = upd_pk p (\<lambda>k. k\<lparr>pk_data_length := 1420\<rparr>) h"
  have "unat (pk_data_offset (pk_at h p)) + unat (1420 :: u32) \<le> unat (pl_slot_size (pool_at h q))"
    using q(2) lenp assms(3) by (simp add: packet_in_slot_def)
  note l = heap_ok_set_length [OF assms(1) r(1) q(1) this, folded h1_def]
  have o1: "only_packets {p} h h1" using l by (auto simp: only_packets_def h1_def packet_bytes_def linkg_packet_data_def split: option.splits)
  have d1: "linkg_packet_data p h1 = Some a" using q(3) by (simp add: h1_def linkg_packet_data_def)
  have b1: "packet_bytes h1 p = take 1420 payload"
    using packet_bytes_at [OF q(3)] r(2) lenp assms(3) take_mem_read [of 1420 "length payload" "byte_at h" a]
    unfolding packet_bytes_at [OF d1] by (simp add: h1_def)
  obtain h2 where f: "tx_encode_fragment n item st LINKG_PACKET_FLAG_TX_GROUP_FIRST s1 0 p h1 = (0, h2)" "only_packets {p} h1 h2"
    "packet_bytes h2 p = base_bytes n item 1 s1 @
       fragment_header_bytes \<lparr>fh_packet_id = ts_packet_id st, fh_fragment_offset = 0, fh_packet_length = ucast (ts_original_data_length st)\<rparr> @ packet_bytes h1 p"
    "pk_flags (pk_at h2 p) = (ts_original_flags st AND NOT LINKG_PACKET_FLAG_TX_GROUP_MASK) OR LINKG_PACKET_FLAG_TX_GROUP_FIRST"
    by (rule encode_fragment_step [OF l(1) _ hv r(6) bnd, where off = 0 and p = p])
      (use r(1,3) l(3) in \<open>auto simp: h1_def\<close>)
  note o2 = only_packets_trans [OF o1 f(2)]
  have m2: "heap_ok h2" "managed h2 t" using only_packetsD(3,4) [OF o2] r(7) by auto
  have t2: "pk_at h2 t = pk_at h t" "packet_bytes h2 t = drop 1420 payload"
    using only_packetsD(1,2) [OF o2 r(7)] r(8,10) by auto
  have lent: "pk_data_length (pk_at h2 t) = ts_original_data_length st - 1420"
    using length_packet_bytes [OF m2] t2 r(5) unat_sub_le [of 1420 "ts_original_data_length st"] assms(3)
    by (simp add: word_unat_eq_iff word_le_nat_alt)
  obtain h3 where g: "tx_encode_fragment n item st LINKG_PACKET_FLAG_TX_GROUP_LAST s2 1420 t h2 = (0, h3)" "only_packets {t} h2 h3"
    "packet_bytes h3 t = base_bytes n item 1 s2 @
       fragment_header_bytes \<lparr>fh_packet_id = ts_packet_id st, fh_fragment_offset = 1420, fh_packet_length = ucast (ts_original_data_length st)\<rparr> @ packet_bytes h2 t"
    "pk_flags (pk_at h3 t) = (ts_original_flags st AND NOT LINKG_PACKET_FLAG_TX_GROUP_MASK) OR LINKG_PACKET_FLAG_TX_GROUP_LAST"
    by (rule encode_fragment_step [OF m2 hv r(6) bnd, where off = 1420]) (use lent t2(1) r(9) in auto)
  have p3: "pk_at h3 p = pk_at h2 p" "packet_bytes h3 p = packet_bytes h2 p"
    using only_packetsD(1,2) [OF g(2)] only_packetsD(4) [OF o2] r(1,10) by auto
  have uc: "(ucast (ts_original_data_length st) :: u16) = of_nat (length payload)"
    using r(5) by (metis of_nat_unat)
  show ?thesis
  proof (rule that [of h3])
    show "linkg_transport_tx_encode_fragmented n item st k h =
      (0, [(p, 1420, ti_type item = LINKG_TRANSPORT_TYPE_USER_DATA),
           (t, ts_original_data_length st - 1420, ti_type item = LINKG_TRANSPORT_TYPE_USER_DATA)], k2, h3)"
      using f(1) g(1) assms(4-6) by (simp add: linkg_transport_tx_encode_fragmented_def Let_def h1_def p)
    show "only_packets {p, t} h h3" using only_packets_trans [OF o2 g(2)] by (simp add: insert_commute)
    show "map (packet_bytes h3) [p, t] = packet_image n item (ts_packet_id st) payload [s1, s2]"
      using f(3) g(3) p3(2) b1 t2(2) assms(3) by (simp add: packet_image_def uc)
  qed (use f(4) g(4) p3(1) in auto)
qed

text \<open>
  The frames of a batch: the sequences are taken packet by packet, one for a short packet and two for a
  long one.
\<close>

definition item_types :: "linkg_transport_tx_item \<Rightarrow> u8 list \<Rightarrow> u8 list" where
  "item_types item payload = frame_types [(ti_type item, 1428 < length payload)]"

fun batch_image :: "u8 \<Rightarrow> (linkg_transport_tx_item \<times> u32 \<times> u8 list) list \<Rightarrow> linkg_transport_peer_class \<Rightarrow> u8 list list" where
  "batch_image n [] k = []"
| "batch_image n ((item, packet_id, payload) # rest) k =
     (let (sent, k1) = tx_take_sequences (item_types item payload) k
      in packet_image n item packet_id payload (map snd sent) @ batch_image n rest k1)"

lemma take_sequences_append:
  "snd (tx_take_sequences (xs @ ys) k) = snd (tx_take_sequences ys (snd (tx_take_sequences xs k)))"
  by (induction xs arbitrary: k) (auto simp: split_beta Let_def)

lemma encode_item_step:
  assumes "heap_ok h" "ready n h item st payload" "tx_take_sequences (item_types item payload) k = (sent, k')"
  obtains frames h' where
    "(if ts_frame_count st = 2 then linkg_transport_tx_encode_fragmented n item st k h else linkg_transport_tx_encode_normal n item st k h) =
       (0, frames, k', h')"
    "only_packets (set (item_packets item st)) h h'" "map fst frames = item_packets item st"
    "map (packet_bytes h') (item_packets item st) = packet_image n item (ts_packet_id st) payload (map snd sent)"
    "map (\<lambda>p. pk_flags (pk_at h' p) AND LINKG_PACKET_FLAG_TX_GROUP_MASK) (item_packets item st) =
       (if length payload \<le> 1428 then [0] else [LINKG_PACKET_FLAG_TX_GROUP_FIRST, LINKG_PACKET_FLAG_TX_GROUP_LAST])"
proof (cases "length payload \<le> 1428")
  case True
  have st: "ts_frame_count st = 1" "ts_tail_packet st = None" using assms(2) True by (auto simp: ready_def Let_def)
  obtain s k1 where s: "linkg_transport_tx_next_sequence (ti_type item) k = (s, k1)" by (metis surj_pair)
  have k': "k' = k1" "map snd sent = [s]" using assms(3) True s by (auto simp: item_types_def frame_types_def)
  obtain h' where e: "linkg_transport_tx_encode_normal n item st k h =
      (0, [(the (ti_packet item), ts_original_data_length st, ti_type item = LINKG_TRANSPORT_TYPE_USER_DATA)], k1, h')"
    "only_packets {the (ti_packet item)} h h'" "packet_bytes h' (the (ti_packet item)) = base_bytes n item 0 s @ payload"
    "pk_flags (pk_at h' (the (ti_packet item))) = pk_flags (pk_at h (the (ti_packet item))) AND NOT LINKG_PACKET_FLAG_TX_GROUP_MASK"
    by (rule encode_normal_step [OF assms(1,2) True s])
  have p: "item_packets item st = [the (ti_packet item)]" by (simp add: item_packets_def st(2))
  show ?thesis
    by (rule that [OF _ _ _ _ _, unfolded p, of "[(the (ti_packet item), ts_original_data_length st, ti_type item = LINKG_TRANSPORT_TYPE_USER_DATA)]" h'])
      (use e st(1) k' True group_flags [of "pk_flags (pk_at h (the (ti_packet item)))" 0] in \<open>simp_all add: packet_image_def\<close>)
next
  case False
  then have long: "1428 < length payload" by simp
  obtain t where t: "ts_tail_packet st = Some t" "ts_frame_count st = 2" using assms(2) False by (auto simp: ready_def Let_def)
  obtain s1 k1 where s1: "linkg_transport_tx_next_sequence (ti_type item) k = (s1, k1)" by (metis surj_pair)
  obtain s2 k2 where s2: "linkg_transport_tx_next_sequence (ti_type item) k1 = (s2, k2)" by (metis surj_pair)
  have k': "k' = k2" "map snd sent = [s1, s2]" using assms(3) long s1 s2 by (auto simp: item_types_def frame_types_def)
  obtain h' where e: "linkg_transport_tx_encode_fragmented n item st k h =
      (0, [(the (ti_packet item), 1420, ti_type item = LINKG_TRANSPORT_TYPE_USER_DATA),
           (t, ts_original_data_length st - 1420, ti_type item = LINKG_TRANSPORT_TYPE_USER_DATA)], k2, h')"
    "only_packets {the (ti_packet item), t} h h'"
    "map (packet_bytes h') [the (ti_packet item), t] = packet_image n item (ts_packet_id st) payload [s1, s2]"
    "pk_flags (pk_at h' (the (ti_packet item))) = (ts_original_flags st AND NOT LINKG_PACKET_FLAG_TX_GROUP_MASK) OR LINKG_PACKET_FLAG_TX_GROUP_FIRST"
    "pk_flags (pk_at h' t) = (ts_original_flags st AND NOT LINKG_PACKET_FLAG_TX_GROUP_MASK) OR LINKG_PACKET_FLAG_TX_GROUP_LAST"
    by (rule encode_fragmented_step [OF assms(1,2) long s1 s2 t(1) refl])
  have p: "item_packets item st = [the (ti_packet item), t]" by (simp add: item_packets_def t(1))
  show ?thesis
    by (rule that [OF _ _ _ _ _, unfolded p, of "[(the (ti_packet item), 1420, ti_type item = LINKG_TRANSPORT_TYPE_USER_DATA),
           (t, ts_original_data_length st - 1420, ti_type item = LINKG_TRANSPORT_TYPE_USER_DATA)]" h'])
      (use e(1,2) e(3) [folded k'(2)] e(4,5) t(2) k'(1) False group_flags [of "ts_original_flags st"] in simp_all)
qed

text \<open>A batch of packets ready to be encoded, no two frames in the same packet.\<close>

definition batch_packets :: "(linkg_transport_tx_item \<times> linkg_transport_tx_state) list \<Rightarrow> nat list" where
  "batch_packets l = concat (map (\<lambda>(item, st). item_packets item st) l)"

lemma ready_managed: "ready n h item st payload \<Longrightarrow> p \<in> set (item_packets item st) \<Longrightarrow> managed h p"
  by (auto simp: ready_def Let_def item_packets_def split: if_splits option.splits)

lemma ready_only:
  assumes "ready n h item st payload" "only_packets P h h'" "set (item_packets item st) \<inter> P = {}"
  shows "ready n h' item st payload"
proof -
  have *: "managed h' p \<and> pk_at h' p = pk_at h p \<and> packet_bytes h' p = packet_bytes h p" if "p \<in> set (item_packets item st)" for p
    using only_packetsD(1,2,4) [OF assms(2)] ready_managed [OF assms(1) that] assms(3) that by blast
  have p: "the (ti_packet item) \<in> set (item_packets item st)" by (simp add: item_packets_def)
  have t: "t \<in> set (item_packets item st)" if "ts_tail_packet st = Some t" for t using that by (simp add: item_packets_def)
  show ?thesis using assms(1) * [OF p] * [OF t] by (fastforce simp: ready_def Let_def split: if_splits)
qed

definition batch_ready :: "u8 \<Rightarrow> heap \<Rightarrow> (linkg_transport_tx_item \<times> linkg_transport_tx_state) list \<Rightarrow> u8 list list \<Rightarrow> bool" where
  "batch_ready n h l payloads \<longleftrightarrow> distinct (batch_packets l) \<and> list_all2 (\<lambda>(item, st). ready n h item st) l payloads"

definition group_marks :: "u8 list list \<Rightarrow> u32 list" where
  "group_marks payloads = concat (map (\<lambda>payload. if length payload \<le> 1428 then [0]
     else [LINKG_PACKET_FLAG_TX_GROUP_FIRST, LINKG_PACKET_FLAG_TX_GROUP_LAST]) payloads)"

definition batch_spec :: "(linkg_transport_tx_item \<times> linkg_transport_tx_state) list \<Rightarrow> u8 list list \<Rightarrow>
    (linkg_transport_tx_item \<times> u32 \<times> u8 list) list" where
  "batch_spec l payloads = map (\<lambda>((item, st), payload). (item, ts_packet_id st, payload)) (zip l payloads)"

definition spec_kinds :: "(linkg_transport_tx_item \<times> u32 \<times> u8 list) list \<Rightarrow> (u8 \<times> bool) list" where
  "spec_kinds = map (\<lambda>(item, packet_id, payload). (ti_type item, 1428 < length payload))"

lemma encode_batch_image:
  assumes "heap_ok h" "batch_ready n h l payloads"
  shows "\<exists>frames h'. tx_encode_loop n l k h =
      (0, frames, snd (tx_take_sequences (frame_types (spec_kinds (batch_spec l payloads))) k), h') \<and>
    only_packets (set (batch_packets l)) h h' \<and> map fst frames = batch_packets l \<and>
    map (packet_bytes h') (batch_packets l) = batch_image n (batch_spec l payloads) k \<and>
    map (\<lambda>p. pk_flags (pk_at h' p) AND LINKG_PACKET_FLAG_TX_GROUP_MASK) (batch_packets l) = group_marks payloads"
  using assms
proof (induction l arbitrary: payloads k h)
  case Nil
  then show ?case by (simp add: batch_ready_def batch_packets_def group_marks_def only_packets_def frame_types_def batch_spec_def spec_kinds_def)
next
  case (Cons x l)
  obtain item st where x: "x = (item, st)" by (metis surj_pair)
  obtain payload ps where ps: "payloads = payload # ps" "ready n h item st payload" "list_all2 (\<lambda>(item, st). ready n h item st) l ps"
    using Cons.prems(2) by (auto simp: batch_ready_def x list_all2_Cons1)
  have d: "distinct (batch_packets l)" "set (item_packets item st) \<inter> set (batch_packets l) = {}"
    using Cons.prems(2) by (auto simp: batch_ready_def batch_packets_def x)
  obtain sent k1 where s: "tx_take_sequences (item_types item payload) k = (sent, k1)" by (metis surj_pair)
  obtain fr h1 where e: "(if ts_frame_count st = 2 then linkg_transport_tx_encode_fragmented n item st k h else linkg_transport_tx_encode_normal n item st k h) =
       (0, fr, k1, h1)" "only_packets (set (item_packets item st)) h h1" "map fst fr = item_packets item st"
    "map (packet_bytes h1) (item_packets item st) = packet_image n item (ts_packet_id st) payload (map snd sent)"
    "map (\<lambda>p. pk_flags (pk_at h1 p) AND LINKG_PACKET_FLAG_TX_GROUP_MASK) (item_packets item st) =
       (if length payload \<le> 1428 then [0] else [LINKG_PACKET_FLAG_TX_GROUP_FIRST, LINKG_PACKET_FLAG_TX_GROUP_LAST])"
    by (rule encode_item_step [OF Cons.prems(1) ps(2) s])
  have "list_all2 (\<lambda>(item, st). ready n h1 item st) l ps"
    using ps(3)
  proof (rule list.rel_mono_strong)
    fix z y assume z: "z \<in> set l" "(case z of (item, st) \<Rightarrow> ready n h item st) y"
    have "set (item_packets (fst z) (snd z)) \<subseteq> set (batch_packets l)" using z(1) by (force simp: batch_packets_def)
    then show "(case z of (item, st) \<Rightarrow> ready n h1 item st) y"
      using z(2) d(2) by (cases z) (auto intro: ready_only [OF _ e(2)])
  qed
  then have "batch_ready n h1 l ps" using d(1) by (simp add: batch_ready_def)
  from Cons.IH [OF only_packetsD(3) [OF e(2)] this, of k1] obtain frames h' where i:
    "tx_encode_loop n l k1 h1 =
      (0, frames, snd (tx_take_sequences (frame_types (spec_kinds (batch_spec l ps))) k1), h')"
    "only_packets (set (batch_packets l)) h1 h'" "map fst frames = batch_packets l"
    "map (packet_bytes h') (batch_packets l) = batch_image n (batch_spec l ps) k1"
    "map (\<lambda>p. pk_flags (pk_at h' p) AND LINKG_PACKET_FLAG_TX_GROUP_MASK) (batch_packets l) = group_marks ps"
    by blast
  have bp: "batch_packets ((item, st) # l) = item_packets item st @ batch_packets l" by (simp add: batch_packets_def)
  have bs: "batch_spec ((item, st) # l) (payload # ps) = (item, ts_packet_id st, payload) # batch_spec l ps"
    "spec_kinds ((item, ts_packet_id st, payload) # ys) = (ti_type item, 1428 < length payload) # spec_kinds ys" for ys
    by (simp_all add: batch_spec_def spec_kinds_def)
  have same: "packet_bytes h' p = packet_bytes h1 p \<and> pk_at h' p = pk_at h1 p" if "p \<in> set (item_packets item st)" for p
    using only_packetsD(1,2) [OF i(2)] only_packetsD(4) [OF e(2)] ready_managed [OF ps(2) that] d(2) that by blast
  have fs: "frame_types ((ti_type item, 1428 < length payload) # ys) = item_types item payload @ frame_types ys" for ys
    by (simp add: frame_types_def item_types_def)
  have "map (packet_bytes h') (item_packets item st) = map (packet_bytes h1) (item_packets item st)"
    "map (\<lambda>p. pk_flags (pk_at h' p) AND LINKG_PACKET_FLAG_TX_GROUP_MASK) (item_packets item st) =
     map (\<lambda>p. pk_flags (pk_at h1 p) AND LINKG_PACKET_FLAG_TX_GROUP_MASK) (item_packets item st)"
    using same by auto
  then show ?case
    using e(1,3-5) i(1,3-5) only_packets_trans [OF e(2) i(2)] s
    unfolding ps(1) x bp bs fs take_sequences_append by (simp add: group_marks_def)
qed

section \<open>From the checked batch to its frames\<close>

text \<open>What the caller of a send provides: checked items whose packets it holds, no packet twice.\<close>

definition batch_given :: "linkg_transport_tx_item list \<Rightarrow> heap \<Rightarrow> bool" where
  "batch_given items h \<longleftrightarrow> heap_ok h \<and> tx_validate_items items h = 0 \<and> distinct (map (\<lambda>item. the (ti_packet item)) items) \<and>
     (\<forall>item\<in>set items. 0 < refs h (the (ti_packet item)))"

definition payloads :: "linkg_transport_tx_item list \<Rightarrow> heap \<Rightarrow> u8 list list" where
  "payloads items h = map (\<lambda>item. packet_bytes h (the (ti_packet item))) items"

lemma validate_items_each:
  "tx_validate_items items h = 0 \<Longrightarrow> item \<in> set items \<Longrightarrow>
   linkg_transport_type_valid (ti_type item) \<and> linkg_transport_wire_node_id_valid (ti_destination_node_id item) \<and>
   linkg_transport_tx_validate_packet (ti_packet item) h = 0"
  by (induction items) (auto simp: linkg_transport_tx_node_id_valid_def linkg_transport_wire_node_id_valid_def split: if_splits)

lemma validate_packet_bounds:
  "linkg_transport_tx_validate_packet (Some p) h = 0 \<Longrightarrow> pk_data_length (pk_at h p) \<le> 1500 \<and>
     (if 1428 < pk_data_length (pk_at h p) then 24 else 16) \<le> pk_data_offset (pk_at h p)"
  by (auto simp: linkg_transport_tx_validate_packet_def linkg_packet_headroom_def not_less split: if_splits)

lemma prepared_ready:
  assumes "heap_ok h" "heap_ok h1" "keeps_held h h1" "0 < refs h p" "0 < refs h1 p" "prepared h h1 item st" and p: "p = the (ti_packet item)"
    and v: "linkg_transport_type_valid (ti_type item)" "linkg_transport_wire_node_id_valid (ti_destination_node_id item)"
      "linkg_transport_tx_validate_packet (Some p) h = 0" "linkg_transport_wire_node_id_valid n"
    and tail: "\<And>t. ts_tail_packet st = Some t \<Longrightarrow> t \<noteq> p \<and> managed h1 t"
    and st': "st' = st \<or> st' = st\<lparr>ts_packet_id := packet_id\<rparr>" "ts_frame_count st = 2 \<longrightarrow> ts_packet_id st' \<noteq> 0"
  shows "ready n h1 item st' (packet_bytes h p)"
proof -
  have k: "pk_at h1 p = pk_at h p" "packet_bytes h1 p = packet_bytes h p" using keeps_heldD [OF assms(3,4)] by auto
  have len: "length (packet_bytes h p) = unat (pk_data_length (pk_at h p))"
    by (rule length_packet_bytes [OF assms(1) refs_managed [OF assms(4)]])
  have cmp: "length (packet_bytes h p) \<le> 1428 \<longleftrightarrow> \<not> 1428 < pk_data_length (pk_at h p)"
    by (simp add: len word_less_nat_alt not_less)
  have b: "length (packet_bytes h p) \<le> 1500" "(if 1428 < pk_data_length (pk_at h p) then 24 else 16) \<le> pk_data_offset (pk_at h p)"
    using validate_packet_bounds [OF v(3)] by (auto simp: len word_le_nat_alt)
  have sts: "ts_tail_packet st' = ts_tail_packet st" "ts_original_data_length st' = ts_original_data_length st"
    "ts_frame_count st' = ts_frame_count st" using st'(1) by auto
  have m: "managed h1 p" by (rule refs_managed [OF assms(5)])
  have pr: "ts_original_data_length st = pk_data_length (pk_at h p)"
    "if 1428 < pk_data_length (pk_at h p)
      then ts_frame_count st = 2 \<and> (\<exists>t. ts_tail_packet st = Some t \<and> packet_bytes h1 t = drop 1420 (packet_bytes h p) \<and>
             24 \<le> pk_data_offset (pk_at h1 t))
      else ts_frame_count st = 1 \<and> ts_tail_packet st = None"
    using assms(6) unfolding prepared_def p [symmetric] Let_def by blast+
  show ?thesis
  proof (cases "1428 < pk_data_length (pk_at h p)")
    case True
    then obtain t where "ts_frame_count st = 2" "ts_tail_packet st = Some t" "packet_bytes h1 t = drop 1420 (packet_bytes h p)"
      "24 \<le> pk_data_offset (pk_at h1 t)" using pr(2) by auto
    then show ?thesis using True v b cmp k m tail [of t] st'(2) pr(1) len
      by (simp add: ready_def p [symmetric] sts item_packets_def)
  next
    case False
    then show ?thesis using v b cmp k m pr len by (simp add: ready_def p [symmetric] sts item_packets_def)
  qed
qed

lemma ids_nonzero:
  assumes "fst (tx_packet_ids fs c) = ids" "i < length fs"
  shows "length ids = length fs" "fs ! i \<longleftrightarrow> ids ! i \<noteq> None" "ids ! i \<noteq> Some 0"
proof -
  have *: "length (fst (tx_packet_ids fs c)) = length fs \<and> (\<forall>i<length fs. (fs ! i \<longleftrightarrow> fst (tx_packet_ids fs c) ! i \<noteq> None) \<and>
      fst (tx_packet_ids fs c) ! i \<noteq> Some 0)"
  proof (induction fs arbitrary: c)
    case (Cons f fs)
    obtain x c1 where x: "linkg_transport_tx_next_packet_id_locked c = (x, c1)" by (metis surj_pair)
    have "x \<noteq> 0" using x by (auto simp: linkg_transport_tx_next_packet_id_locked_def Let_def split: if_splits)
    then show ?case using Cons.IH [of c] Cons.IH [of c1] x by (auto simp: split_beta Let_def nth_Cons' less_Suc_eq_0_disj)
  qed simp
  show "length ids = length fs" "fs ! i \<longleftrightarrow> ids ! i \<noteq> None" "ids ! i \<noteq> Some 0" using * assms by auto
qed

lemma batch_packets_mset:
  "length items = length states \<Longrightarrow>
   mset (batch_packets (zip items states)) = mset (map (\<lambda>item. the (ti_packet item)) items) + mset (tails states)"
  by (induction items states rule: list_induct2) (auto simp: batch_packets_def item_packets_def split: option.splits)

lemma tails_set_ids: "length ids = length states \<Longrightarrow> tails (tx_set_ids states ids) = tails states"
  by (induction states ids rule: list_induct2 [OF sym, consumes 1]) (auto simp: tx_set_ids_def split: option.splits)

lemma tail_mem: "st \<in> set states \<Longrightarrow> ts_tail_packet st = Some t \<Longrightarrow> t \<in> set (tails states)"
  by (induction states) (auto split: option.splits)

lemma given_ready:
  assumes g: "batch_given items h" and pr: "prepare_ok h items (0, states, h1)"
    and ids: "fst (tx_packet_ids (map (\<lambda>st. ts_frame_count st = 2) states) c) = ids"
    and n: "linkg_transport_wire_node_id_valid n"
  shows "batch_ready n h1 (zip items (tx_set_ids states ids)) (payloads items h)"
proof -
  have p: "heap_ok h1" "keeps_held h h1" "length states = length items" "distinct (tails states)"
    "\<forall>t\<in>set (tails states). refs h t = 0" "\<forall>x. refs h1 x = (if x \<in> set (tails states) then 1 else refs h x)"
    "list_all2 (prepared h h1) items states"
    using pr unfolding prepare_ok_def split_conv by blast+
  have h: "heap_ok h" "tx_validate_items items h = 0" "distinct (map (\<lambda>item. the (ti_packet item)) items)"
    "\<And>item. item \<in> set items \<Longrightarrow> 0 < refs h (the (ti_packet item))"
    using g by (auto simp: batch_given_def)
  have li: "length ids = length states"
  proof (cases states)
    case (Cons st sts)
    then show ?thesis using ids_nonzero(1) [OF ids, of 0] by simp
  qed (use ids in auto)
  define sts where "sts = tx_set_ids states ids"
  have ls: "length sts = length items" by (simp add: sts_def tx_set_ids_def li p(3))
  have sti: "sts ! i = states ! i \<or> sts ! i = (states ! i)\<lparr>ts_packet_id := the (ids ! i)\<rparr>"
    "ts_frame_count (states ! i) = 2 \<longrightarrow> ts_packet_id (sts ! i) \<noteq> 0" if "i < length items" for i
    using that ids_nonzero(2,3) [OF ids, of i] p(3) li by (auto simp: sts_def tx_set_ids_def split: option.splits)
  have "set (map (\<lambda>item. the (ti_packet item)) items) \<inter> set (tails states) = {}" using h(4) p(5) by fastforce
  then have "distinct (map (\<lambda>item. the (ti_packet item)) items @ tails states)" using h(3) p(4) by simp
  moreover have "mset (batch_packets (zip items sts)) = mset (map (\<lambda>item. the (ti_packet item)) items @ tails states)"
    using batch_packets_mset [OF ls [symmetric]] by (simp add: sts_def tails_set_ids [OF li])
  ultimately have dis: "distinct (batch_packets (zip items sts))" using mset_eq_imp_distinct_iff by blast
  have "list_all2 (\<lambda>(item, st). ready n h1 item st) (zip items sts) (payloads items h)"
  proof (rule list_all2_all_nthI)
    fix i assume "i < length (zip items sts)"
    then have i: "i < length items" by simp
    note v = validate_items_each [OF h(2) nth_mem [OF i]]
    obtain pk where pk: "ti_packet (items ! i) = Some pk" using v by (cases "ti_packet (items ! i)") (auto simp: linkg_transport_tx_validate_packet_def)
    have r: "0 < refs h pk" using h(4) [OF nth_mem [OF i]] pk by simp
    have "ready n h1 (items ! i) (sts ! i) (packet_bytes h pk)"
    proof (rule prepared_ready [OF h(1) p(1,2) r _ list_all2_nthD [OF p(7) i] _ _ _ _ n _ sti(1) [OF i]])
      show "t \<noteq> pk \<and> managed h1 t" if "ts_tail_packet (states ! i) = Some t" for t
      proof -
        have "t \<in> set (tails states)" using tail_mem [OF nth_mem that] i p(3) by simp
        then have "refs h t = 0" "refs h1 t = 1" using p(5,6) by auto
        then show ?thesis using r refs_managed [of h1 t] by auto
      qed
    qed (use v pk r p(5,6) sti(2) [OF i] in auto)
    then show "(case zip items sts ! i of (item, st) \<Rightarrow> ready n h1 item st) (payloads items h ! i)"
      using i ls pk by (simp add: payloads_def)
  qed (simp add: ls payloads_def)
  with dis show ?thesis by (simp add: batch_ready_def sts_def)
qed

end
