(* ===== verification/Transport_Tx_Chunk.thy ===== *)
theory Transport_Tx_Chunk
  imports Transport_Tx_Frames
begin

text \<open>
  Chunks, batches and relayed batches of \<open>src/core/transport/transport_tx.c\<close> as wholes: what they hand to the
  links, what they leave behind on an error, how they move the sequences of the peer, and what their results
  mean. The links are any drivers: the theorems do not restrict what a driver does with the frames it gets.
\<close>

section \<open>A chunk\<close>

lemma cleanup_tails: "linkg_transport_tx_cleanup_states states h = fold (\<lambda>t. linkg_packet_release (Some t)) (tails states) h"
  unfolding linkg_transport_tx_cleanup_states_def
  by (induction states arbitrary: h) (auto split: option.splits)

lemma release_tails:
  assumes "heap_ok h'" "keeps_held h h'" "distinct ts" "\<forall>t\<in>set ts. refs h t = 0" "\<forall>x. refs h' x = (if x \<in> set ts then 1 else refs h x)"
  shows "heap_ok (fold (\<lambda>t. linkg_packet_release (Some t)) ts h') \<and> refs (fold (\<lambda>t. linkg_packet_release (Some t)) ts h') = refs h \<and>
    keeps_held h (fold (\<lambda>t. linkg_packet_release (Some t)) ts h')"
  using assms
proof (induction ts arbitrary: h')
  case (Cons t ts)
  have t: "0 < refs h' t" using Cons.prems(5) by simp
  let ?h = "linkg_packet_release (Some t) h'"
  have r: "\<forall>x. refs ?h x = (if x \<in> set ts then 1 else refs h x)"
    using refs_release [OF Cons.prems(1) t] Cons.prems(3-5) by auto
  have k: "keeps_held h ?h"
    using Cons.prems(2,4) release_frame(2) release_keeps unfolding keeps_held_def by (metis less_irrefl list.set_intros(1))
  show ?case using Cons.IH [OF heap_ok_release [OF Cons.prems(1) t] k _ _ r] Cons.prems(3,4) by simp
qed (auto simp: fun_eq_iff)

lemma cleanup_restores:
  assumes "prepare_ok h items (ret, states, h')"
  shows "heap_ok (linkg_transport_tx_cleanup_states states h')" "refs (linkg_transport_tx_cleanup_states states h') = refs h"
    "keeps_held h (linkg_transport_tx_cleanup_states states h')"
  using release_tails [of h' h "tails states"] assms unfolding prepare_ok_def split_conv cleanup_tails by blast+

text \<open>
  How a chunk of given packets goes: it fails before any frame is made and leaves everything as it was,
  or all its frames are made and submitted.
\<close>

definition frame_spec :: "linkg_transport_tx_item list \<Rightarrow> u32 option list \<Rightarrow> u8 list list \<Rightarrow> (linkg_transport_tx_item \<times> u32 \<times> u8 list) list" where
  "frame_spec items ids ps = map2 (\<lambda>(item, packet_id) payload. (item, case packet_id of None \<Rightarrow> 0 | Some x \<Rightarrow> x, payload)) (zip items ids) ps"

definition frames_made ::
    "u8 \<Rightarrow> linkg_transport_tx_item list \<Rightarrow> u32 option list \<Rightarrow> heap \<Rightarrow> linkg_transport_peer_class \<Rightarrow> frame_batch \<Rightarrow> heap \<Rightarrow> bool" where
  "frames_made n items ids h k batch h2 \<longleftrightarrow> heap_ok h2 \<and>
     map (packet_bytes h2) (map fst batch) =
       batch_image n (frame_spec items ids (payloads items h)) k \<and>
     map (\<lambda>p. pk_flags (pk_at h2 p) AND LINKG_PACKET_FLAG_TX_GROUP_MASK) (map fst batch) = group_marks (payloads items h)"

definition item_kinds :: "linkg_transport_tx_item list \<Rightarrow> heap \<Rightarrow> (u8 \<times> bool) list" where
  "item_kinds items h = map2 (\<lambda>item payload. (ti_type item, 1428 < length payload)) items (payloads items h)"

lemma state_counts:
  assumes "batch_given items h" "list_all2 (prepared h h1) items states"
  shows "map (\<lambda>st. ts_frame_count st = 2) states = map snd (item_kinds items h)"
proof (rule nth_equalityI)
  show len: "length (map (\<lambda>st. ts_frame_count st = 2) states) = length (map snd (item_kinds items h))"
    using list_all2_lengthD [OF assms(2)] by (simp add: item_kinds_def payloads_def)
  fix i assume "i < length (map (\<lambda>st. ts_frame_count st = 2) states)"
  then have i: "i < length items" "i < length states" using len by (auto simp: item_kinds_def payloads_def)
  have "0 < refs h (the (ti_packet (items ! i)))" "heap_ok h" using assms(1) i by (auto simp: batch_given_def)
  then have "length (packet_bytes h (the (ti_packet (items ! i)))) = unat (pk_data_length (pk_at h (the (ti_packet (items ! i)))))"
    by (intro length_packet_bytes refs_managed)
  then show "map (\<lambda>st. ts_frame_count st = 2) states ! i = map snd (item_kinds items h) ! i"
    using i list_all2_nthD [OF assms(2) i(1)]
    by (auto simp: item_kinds_def payloads_def prepared_def Let_def word_less_nat_alt split: if_splits)
qed

lemma spec_of_states:
  assumes "list_all2 (prepared h h1) items states" "length ids = length items" "length ps = length items"
  shows "batch_spec (zip items (tx_set_ids states ids)) ps =
    frame_spec items ids ps"
proof (rule nth_equalityI)
  have len: "length states = length items" using list_all2_lengthD [OF assms(1)] by simp
  then show "length (batch_spec (zip items (tx_set_ids states ids)) ps) =
    length (frame_spec items ids ps)"
    using assms(2,3) by (simp add: batch_spec_def tx_set_ids_def frame_spec_def)
  fix i assume "i < length (batch_spec (zip items (tx_set_ids states ids)) ps)"
  then have i: "i < length items" by (simp add: batch_spec_def)
  have "ts_packet_id (states ! i) = 0" using list_all2_nthD [OF assms(1) i] by (simp add: prepared_def Let_def)
  then show "batch_spec (zip items (tx_set_ids states ids)) ps ! i =
    frame_spec items ids ps ! i"
    using i len assms(2,3) by (simp add: batch_spec_def tx_set_ids_def frame_spec_def split: option.splits)
qed

lemma spec_kinds_items:
  "length ids = length items \<Longrightarrow> length ps = length items \<Longrightarrow>
   spec_kinds (frame_spec items ids ps) =
   map2 (\<lambda>item payload. (ti_type item, 1428 < length payload)) items ps"
  by (rule nth_equalityI) (auto simp: spec_kinds_def frame_spec_def)

lemma encode_given:
  assumes g: "batch_given items h" and pr: "prepare_ok h items (0, states, h1)"
    and ids: "fst (tx_packet_ids (map snd (item_kinds items h)) c) = ids"
    and n: "linkg_transport_wire_node_id_valid n"
  shows "\<exists>batch h2. linkg_transport_tx_encode_batch n items (tx_set_ids states ids) k h1 =
      (0, batch, snd (tx_take_sequences (frame_types (item_kinds items h)) k), h2) \<and> frames_made n items ids h k batch h2 \<and>
      only_packets (set (map fst batch)) h1 h2"
proof -
  have pl: "list_all2 (prepared h h1) items states" using pr by (simp add: prepare_ok_def)
  note sc = state_counts [OF g pl]
  have li: "length ids = length items"
  proof (cases items)
    case (Cons st sts)
    then show ?thesis using ids_nonzero(1) [OF ids, of 0] by (simp add: item_kinds_def payloads_def)
  qed (use ids in \<open>auto simp: item_kinds_def\<close>)
  have ok: "heap_ok h1" using pr by (simp add: prepare_ok_def)
  have lp: "length (payloads items h) = length items" by (simp add: payloads_def)
  note sp = spec_of_states [OF pl li lp] and sk = spec_kinds_items [OF li lp]
  from encode_batch_image [OF ok given_ready [OF g pr ids [folded sc] n], of k] show ?thesis
    unfolding linkg_transport_tx_encode_batch_def sp sk item_kinds_def frames_made_def by (metis only_packetsD(3))
qed

lemma acquire_ids:
  "linkg_transport_tx_acquire_state m j fs c = (Inr (i, ids), c1) \<Longrightarrow> fst (tx_packet_ids fs c) = ids"
  by (auto simp: linkg_transport_tx_acquire_state_def Let_def split_beta split: if_splits option.splits)

lemma acquire_error: "linkg_transport_tx_acquire_state m j fs c = (Inl e, c1) \<Longrightarrow> e \<noteq> 0"
  by (auto simp: linkg_transport_tx_acquire_state_def Let_def split_beta split: if_splits option.splits)

lemma submit_counts:
  "linkg_transport_tx_submit_wire_batch ctx packets s = (a, rs, s') \<Longrightarrow> a = length (filter (\<lambda>r. r = 0) rs)"
  by (auto simp: linkg_transport_tx_submit_wire_batch_def Let_def split: prod.splits)

lemma chunk_cases:
  assumes g: "batch_given items h" "items \<noteq> []" "length items \<le> 32" and n: "linkg_transport_wire_node_id_valid (tc_local_node_id c)"
    and run: "linkg_transport_tx_send_chunk ctx items now_ms c (d, h) = (ret, results, c', d', h')"
  obtains (failed) "ret \<noteq> 0" "results = None" "c' = c" "d' = d" "heap_ok h'" "refs h' = refs h" "keeps_held h h'"
      "fst (linkg_transport_tx_prepare_states items h) \<noteq> 0 \<or> (\<exists>e. linkg_transport_tx_acquire_state (tx_peer_node_id ctx)
         (unat (tx_traffic_class ctx)) (map snd (item_kinds items h)) c = (Inl e, c))"
  | (sent) i ids c1 batch k1 h2 frame_results h3 states rs h4 where
      "linkg_transport_tx_acquire_state (tx_peer_node_id ctx) (unat (tx_traffic_class ctx)) (map snd (item_kinds items h)) c = (Inr (i, ids), c1)"
      "k1 = snd (tx_take_sequences (frame_types (item_kinds items h)) (pr_classes (tc_peers c1 ! i) ! unat (tx_traffic_class ctx)))"
      "frames_made (tc_local_node_id c) items ids h (pr_classes (tc_peers c1 ! i) ! unat (tx_traffic_class ctx)) batch h2"
      "linkg_transport_tx_submit_wire_batch ctx (map fst batch) (d, h2) = (length (filter (\<lambda>r. r = 0) frame_results), frame_results, d', h3)"
      "linkg_transport_tx_finalize_results items states frame_results h3 = (nat ret, rs, h4)" "0 \<le> ret"
      "results = Some rs"
      "c' = upd_class i (unat (tx_traffic_class ctx)) (linkg_transport_tx_record_stats batch frame_results now_ms
         (if length (filter (\<lambda>r. r = 0) frame_results) = 0
          then tx_rollback (pr_classes (tc_peers c1 ! i) ! unat (tx_traffic_class ctx)) k1 else k1)) c1"
proof -
  obtain pret states h1 where pr: "linkg_transport_tx_prepare_states items h = (pret, states, h1)" by (metis prod_cases3)
  have held: "heap_ok h" "\<forall>item\<in>set items. 0 < refs h (the (ti_packet item))" using g(1) by (auto simp: batch_given_def)
  have pok: "prepare_ok h items (pret, states, h1)"
    using prepare_loop_ok [OF held, of 0] pr by (simp add: linkg_transport_tx_prepare_states_def)
  note cl = cleanup_restores [OF pok]
  show ?thesis
  proof (cases "pret = 0")
    case False
    have "linkg_transport_tx_send_chunk ctx items now_ms c (d, h) = (pret, None, c, d, linkg_transport_tx_cleanup_states states h1)"
      using g(2,3) False by (simp add: linkg_transport_tx_send_chunk_def pr)
    then show ?thesis using run cl False pr by (intro failed) simp_all
  next
    case True
    have pl: "list_all2 (prepared h h1) items states" using pok True by (simp add: prepare_ok_def)
    note sc = state_counts [OF g(1) pl]
    let ?j = "unat (tx_traffic_class ctx)"
    show ?thesis
    proof (cases rule: acquire_cases [where n = "tx_peer_node_id ctx" and k = ?j and fs = "map snd (item_kinds items h)" and c = c])
      case (1 e)
      have "linkg_transport_tx_send_chunk ctx items now_ms c (d, h) = (e, None, c, d, linkg_transport_tx_cleanup_states states h1)"
        using g(2,3) by (simp add: linkg_transport_tx_send_chunk_def pr True sc 1)
      then show ?thesis using run cl acquire_error [OF 1] 1 by (intro failed) simp_all
    next
      case (2 x i ids)
      define c1 where "c1 = c\<lparr>tc_next_packet_id := x\<rparr>"
      let ?k = "pr_classes (tc_peers c1 ! i) ! ?j"
      have loc: "tc_local_node_id c1 = tc_local_node_id c" by (simp add: c1_def)
      from encode_given [OF g(1) pok [unfolded True] acquire_ids [OF 2(1)] n, of ?k] obtain batch h2 where
        e: "linkg_transport_tx_encode_batch (tc_local_node_id c) items (tx_set_ids states ids) ?k h1 =
          (0, batch, snd (tx_take_sequences (frame_types (item_kinds items h)) ?k), h2)" "frames_made (tc_local_node_id c) items ids h ?k batch h2"
        by blast
      obtain a fr d1 h3 where sb: "linkg_transport_tx_submit_wire_batch ctx (map fst batch) (d, h2) = (a, fr, d1, h3)" by (metis prod_cases4)
      note a = submit_counts [OF sb]
      obtain m rs h4 where fin: "linkg_transport_tx_finalize_results items (tx_set_ids states ids) fr h3 = (m, rs, h4)" by (metis prod_cases3)
      have eq: "linkg_transport_tx_send_chunk ctx items now_ms c (d, h) =
        (int m, Some rs, upd_class i ?j (linkg_transport_tx_record_stats batch fr now_ms
           (if a = 0 then tx_rollback ?k (snd (tx_take_sequences (frame_types (item_kinds items h)) ?k))
            else snd (tx_take_sequences (frame_types (item_kinds items h)) ?k))) c1,
         d1, linkg_transport_tx_cleanup_states (tx_set_ids states ids) h4)"
        using g(2,3) by (simp add: linkg_transport_tx_send_chunk_def pr True sc 2(1) [folded c1_def] e(1) sb fin Let_def loc)
      have r: "ret = int m" "results = Some rs" "d' = d1"
        "c' = upd_class i ?j (linkg_transport_tx_record_stats batch fr now_ms
           (if a = 0 then tx_rollback ?k (snd (tx_take_sequences (frame_types (item_kinds items h)) ?k))
            else snd (tx_take_sequences (frame_types (item_kinds items h)) ?k))) c1"
        using run unfolding eq by simp_all
      show ?thesis
      proof (rule sent [OF 2(1) [folded c1_def] refl e(2) _ _ _ r(2)])
        show "linkg_transport_tx_submit_wire_batch ctx (map fst batch) (d, h2) = (length (filter (\<lambda>r. r = 0) fr), fr, d', h3)"
          using sb unfolding a r(3) .
        show "linkg_transport_tx_finalize_results items (tx_set_ids states ids) fr h3 = (nat ret, rs, h4)" using fin r(1) by simp
      qed (use r(1,4) a in simp_all)
    qed
  qed
qed

section \<open>Sequences and counters\<close>

text \<open>The context without the statistics of the classes, and the frames counted as sent for a node and class.\<close>

definition strip_stats :: "linkg_transport_context \<Rightarrow> linkg_transport_context" where
  "strip_stats c = c\<lparr>tc_peers := map (\<lambda>p. p\<lparr>pr_classes := map (\<lambda>k. k\<lparr>pc_stats := class_stats_clear\<rparr>) (pr_classes p)\<rparr>) (tc_peers c)\<rparr>"

definition frames_counted :: "u8 \<Rightarrow> nat \<Rightarrow> linkg_transport_context \<Rightarrow> u64" where
  "frames_counted n j c =
     (case linkg_transport_find_peer_locked n c of None \<Rightarrow> 0 | Some i \<Rightarrow> cl_tx_packets (pc_stats (pr_classes (tc_peers c ! i) ! j)))"

lemma strip_upd_class:
  "k\<lparr>pc_stats := class_stats_clear\<rparr> = k'\<lparr>pc_stats := class_stats_clear\<rparr> \<Longrightarrow>
   strip_stats (upd_class i j k c) = strip_stats (upd_class i j k' c)"
  by (simp add: strip_stats_def upd_class_def upd_peer_def map_update)

lemma upd_class_same: "upd_class i j (pr_classes (tc_peers c ! i) ! j) c = c"
  by (simp add: upd_class_def upd_peer_def)

lemma take_sequences_only:
  "\<exists>u v. snd (tx_take_sequences ts k) = k\<lparr>pc_tx_user_sequence := u, pc_tx_control_sequence := v\<rparr>"
proof (induction ts arbitrary: k)
  case Nil
  show ?case by (rule exI [of _ "pc_tx_user_sequence k"], rule exI [of _ "pc_tx_control_sequence k"]) simp
next
  case (Cons t ts)
  obtain s k1 where k1: "linkg_transport_tx_next_sequence t k = (s, k1)" by (metis surj_pair)
  then obtain u v where "k1 = k\<lparr>pc_tx_user_sequence := u, pc_tx_control_sequence := v\<rparr>"
    by (cases k) (auto simp: linkg_transport_tx_next_sequence_def split: if_splits)
  then show ?case using Cons.IH [of k1] k1 by (auto simp: split_beta Let_def)
qed

lemma rollback_restores: "tx_rollback k (snd (tx_take_sequences ts k)) = k"
  using take_sequences_only [of ts k] by (auto simp: tx_rollback_def)

lemma count_frames:
  "cl_tx_packets (fold (\<lambda>((n, user), r). tx_count_frame n r) (zip frames rs) s) =
   cl_tx_packets s + of_nat (length (filter (\<lambda>r. r = 0) (take (length frames) rs)))"
proof (induction frames arbitrary: rs s)
  case (Cons f frames)
  show ?case
  proof (cases rs)
    case (Cons r rs')
    then show ?thesis using Cons.IH [of rs'] by (cases f) (simp add: tx_count_frame_def)
  qed simp
qed simp

lemma record_counts:
  "cl_tx_packets (tx_record_frames frames rs now s) = cl_tx_packets s + of_nat (length (filter (\<lambda>r. r = 0) (take (length frames) rs)))"
  by (simp add: tx_record_frames_def Let_def count_frames)

lemma target_results_length: "tx_target_results tx_class target packets s = (rs, s') \<Longrightarrow> length rs = length packets"
proof -
  assume *: "tx_target_results tx_class target packets s = (rs, s')"
  obtain ret results s1 where sub: "linkg_link_submit_batch (tt_link target) (tt_path target) tx_class
      (Some (tt_destination target)) (Some (map Some packets)) (tt_gate target) s = (ret, results, s1)" by (metis prod_cases3)
  show ?thesis
  proof (cases results)
    case (Some r)
    then obtain lk where lk: "tt_link target = Some lk" using sub by (cases "tt_link target") (auto simp: linkg_link_submit_batch_def)
    from sub [unfolded lk] have "length r = length packets"
    proof (cases rule: submit_batch_cases)
      case (sent pa d runtime ops send acc fe pr rs)
      then show ?thesis using loop_contract [OF sent(3)] Some by simp
    qed (use Some in simp)
    then show ?thesis using * sub Some by (auto simp: tx_target_results_def split: if_splits)
  qed (use * sub in \<open>auto simp: tx_target_results_def split: if_splits\<close>)
qed

lemma submit_targets_length:
  "tx_submit_targets tx_class targets packets results s = (rs, s') \<Longrightarrow> length results = length packets \<Longrightarrow> length rs = length packets"
proof (induction targets arbitrary: results s)
  case (Cons t ts)
  obtain tr s1 where t: "tx_target_results tx_class t packets s = (tr, s1)" by (metis surj_pair)
  show ?case using Cons.IH [of "map2 tx_merge_result results tr" s1] Cons.prems t target_results_length [OF t] by simp
qed simp

lemma submit_length:
  "linkg_transport_tx_submit_wire_batch ctx packets s = (a, rs, s') \<Longrightarrow> length rs = length packets"
  by (auto simp: linkg_transport_tx_submit_wire_batch_def Let_def dest!: submit_targets_length split: prod.splits)

lemma marks_length: "length (group_marks ps) \<le> 2 * length ps"
  by (induction ps) (auto simp: group_marks_def)

lemma frames_length:
  assumes "frames_made n items ids h k batch h2"
  shows "length batch \<le> 2 * length items"
proof -
  have "length batch = length (group_marks (payloads items h))" using assms unfolding frames_made_def by (metis length_map)
  also have "\<dots> \<le> 2 * length (payloads items h)"
    by (rule marks_length)
  finally show ?thesis by (simp add: payloads_def)
qed

lemma find_peer_upd_class: "linkg_transport_find_peer_locked n (upd_class i j k c) = linkg_transport_find_peer_locked n c"
proof -
  have "first_slot P (tc_peers (upd_class i j k c)) = first_slot P (tc_peers c)"
    if "\<And>p x. P (p\<lparr>pr_classes := x\<rparr>) = P p" for P
  proof -
    have "P (tc_peers (upd_class i j k c) ! x) = P (tc_peers c ! x)" for x
      by (cases "i = x"; cases "i < length (tc_peers c)") (auto simp: upd_class_def upd_peer_def list_update_beyond that)
    then show ?thesis by (simp add: first_slot_def upd_class_def)
  qed
  then show ?thesis by (simp add: linkg_transport_find_peer_locked_def)
qed

lemma counted_upd_class:
  assumes "linkg_transport_find_peer_locked n c = Some i" "slots_ok c" "j < CLASS_COUNT"
  shows "frames_counted n j (upd_class i j k c) = cl_tx_packets (pc_stats k)"
proof -
  have "i < length (tc_peers c)" using find_peer_Some [OF assms(1)] by (simp add: valid_slots_def)
  then have "pr_classes (tc_peers (upd_class i j k c) ! i) ! j = k" using assms(2,3) by (simp add: upd_class_def upd_peer_def slots_ok_def)
  then show ?thesis by (simp add: frames_counted_def find_peer_upd_class assms(1))
qed

lemma of_nat_small: "m \<le> 64 \<Longrightarrow> (of_nat m :: u64) = 0 \<longleftrightarrow> m = 0"
  by (simp add: word_of_nat_eq_0_iff) (auto dest: dvd_imp_le)

section \<open>Properties\<close>

text \<open>
  C11. A chunk that answers an error has done nothing: the peers, the links and their drivers, the reference
  count of every packet and the layout, flags and bytes of every packet in use are what they were. The
  caller may send the packets again.
\<close>

theorem tx_chunk_error_undone:
  assumes "batch_given items h" "items \<noteq> []" "length items \<le> 32" "linkg_transport_wire_node_id_valid (tc_local_node_id c)"
    and "linkg_transport_tx_send_chunk ctx items now_ms c (d, h) = (ret, results, c', d', h')" "ret < 0"
  shows "c' = c \<and> d' = d \<and> heap_ok h' \<and> refs h' = refs h \<and> keeps_held h h'"
  by (cases rule: chunk_cases [OF assms(1-5)]) (use assms(6) in auto)


text \<open>
  C10. A chunk is, statistics apart, the send of \<open>Transport_Peer\<close> on which the sequence guarantee rests: it
  changes the sequences of the peer and the packet identifiers as that send does, which gives the sequences
  back exactly when no frame was counted as sent; or it fails and changes nothing.
\<close>

theorem tx_chunk_refines_send:
  assumes "batch_given items h" "items \<noteq> []" "length items \<le> 32" "linkg_transport_wire_node_id_valid (tc_local_node_id c)"
    and "linkg_transport_tx_send_chunk ctx items now_ms c (d, h) = (ret, results, c', d', h')"
    and "slots_ok c" "unat (tx_traffic_class ctx) < CLASS_COUNT"
  shows "(results = None \<and> c' = c) \<or>
    (results \<noteq> None \<and> strip_stats c' = strip_stats (snd (tx_send (tx_peer_node_id ctx) (unat (tx_traffic_class ctx)) (item_kinds items h)
      (frames_counted (tx_peer_node_id ctx) (unat (tx_traffic_class ctx)) c' \<noteq>
       frames_counted (tx_peer_node_id ctx) (unat (tx_traffic_class ctx)) c) c)))"
  using assms(1-5)
proof (cases rule: chunk_cases)
  case (sent i ids c1 batch k1 h2 fr h3 states rs h4)
  let ?n = "tx_peer_node_id ctx" and ?j = "unat (tx_traffic_class ctx)"
  let ?k0 = "pr_classes (tc_peers c1 ! i) ! ?j" and ?m = "length (filter (\<lambda>r. r = 0) fr)"
  from acquire_cases [of ?n ?j "map snd (item_kinds items h)" c] sent(1)
  obtain x where c1: "c1 = c\<lparr>tc_next_packet_id := x\<rparr>" and i: "linkg_transport_find_peer_locked ?n c = Some i" by auto
  have i1: "linkg_transport_find_peer_locked ?n c1 = Some i" "slots_ok c1"
    using i assms(6) by (auto simp: c1 linkg_transport_find_peer_locked_def slots_ok_def split: if_splits)
  define k2 where "k2 = (if ?m = 0 then tx_rollback ?k0 k1 else k1)"
  have lenb: "length fr = length batch" using submit_length [OF sent(4)] by simp
  have stats: "pc_stats k2 = pc_stats ?k0"
    using take_sequences_only [of "frame_types (item_kinds items h)" ?k0] by (auto simp: k2_def sent(2) tx_rollback_def)
  have "frames_counted ?n ?j c' = cl_tx_packets (pc_stats ?k0) + of_nat ?m"
    using lenb unfolding sent(8) k2_def [symmetric] counted_upd_class [OF i1 assms(7)]
    by (simp add: linkg_transport_tx_record_stats_def record_counts stats)
  moreover have "frames_counted ?n ?j c = cl_tx_packets (pc_stats ?k0)" by (simp add: frames_counted_def i c1)
  moreover have "?m \<le> 64" using frames_length [OF sent(3)] assms(3) lenb length_filter_le [of "\<lambda>r. r = 0" fr] by linarith
  ultimately have taken: "(frames_counted ?n ?j c' \<noteq> frames_counted ?n ?j c) \<longleftrightarrow> ?m \<noteq> 0" by (simp add: of_nat_small)
  have "strip_stats c' = strip_stats (upd_class i ?j k2 c1)"
    unfolding sent(8) k2_def [symmetric] by (rule strip_upd_class) (simp add: linkg_transport_tx_record_stats_def)
  moreover have "snd (tx_send ?n ?j (item_kinds items h) (?m \<noteq> 0) c) = upd_class i ?j k2 c1"
  proof (cases "?m = 0")
    case True
    then show ?thesis by (simp add: tx_send_def sent(1) k2_def sent(2) rollback_restores upd_class_same)
  next
    case False
    then show ?thesis by (simp add: tx_send_def sent(1) k2_def sent(2) upd_class_def split_beta Let_def)
  qed
  ultimately show ?thesis using taken sent(7) by simp
qed blast

section \<open>Results\<close>

text \<open>A mutex answers 0 or a positive error number.\<close>

definition locks_answer :: "linkg_transport_context \<Rightarrow> bool" where
  "locks_answer c \<longleftrightarrow> slots_ok c \<and> 0 \<le> mx_lock (tc_lock c) \<and>
     (\<forall>p\<in>set (tc_peers c). \<forall>k\<in>set (pr_classes p). 0 \<le> mx_lock (pc_tx_order_lock k))"

lemma wire_encode_code: "fst (linkg_transport_wire_encode p hdr h) \<le> 0" "fst (linkg_transport_wire_fragment_encode p fh h) \<le> 0"
  by (auto simp: linkg_transport_wire_encode_def linkg_transport_wire_fragment_encode_def Let_def split: option.splits prod.splits)

lemma encode_fragment_code: "fst (tx_encode_fragment n item st f s off p h) \<le> 0"
  using wire_encode_code by (auto simp: tx_encode_fragment_def Let_def split: prod.splits) (metis fst_conv)+

lemma encode_item_code:
  "fst (linkg_transport_tx_encode_normal n item st k h) \<le> 0" "fst (linkg_transport_tx_encode_fragmented n item st k h) \<le> 0"
  using wire_encode_code(1) encode_fragment_code
  by (auto simp: linkg_transport_tx_encode_normal_def linkg_transport_tx_encode_fragmented_def Let_def split: prod.splits) (metis fst_conv)+

lemma encode_code: "fst (tx_encode_loop n l k h) \<le> 0"
proof (induction l arbitrary: k h)
  case (Cons x l)
  obtain item st where x: "x = (item, st)" by (metis surj_pair)
  obtain ret fr k1 h1 where e: "(if ts_frame_count st = 2 then linkg_transport_tx_encode_fragmented n item st k h
      else linkg_transport_tx_encode_normal n item st k h) = (ret, fr, k1, h1)" by (metis prod_cases4)
  then have "ret \<le> 0" using encode_item_code by (metis fst_conv)
  then show ?case using Cons.IH [of k1 h1] e by (simp add: x split_beta Let_def)
qed simp

lemma encode_keeps_lock:
  "tx_encode_loop n l k h = (ret, frames, k', h') \<Longrightarrow> pc_tx_order_lock k' = pc_tx_order_lock k"
proof (induction l arbitrary: k h ret frames)
  case (Cons x l)
  obtain item st where x: "x = (item, st)" by (metis surj_pair)
  obtain ret1 fr k1 h1 where e: "(if ts_frame_count st = 2 then linkg_transport_tx_encode_fragmented n item st k h
      else linkg_transport_tx_encode_normal n item st k h) = (ret1, fr, k1, h1)" by (metis prod_cases4)
  have s: "pc_tx_order_lock (snd (linkg_transport_tx_next_sequence t k)) = pc_tx_order_lock k" for t k
    by (simp add: linkg_transport_tx_next_sequence_def)
  have "pc_tx_order_lock k1 = pc_tx_order_lock k"
    using e s by (auto simp: linkg_transport_tx_encode_fragmented_def linkg_transport_tx_encode_normal_def Let_def split: prod.splits if_splits) (metis snd_conv)+
  then show ?case using Cons e by (auto simp: x Let_def split: if_splits prod.splits)
qed simp

lemma prepare_code: "fst (tx_prepare_loop items n h) \<le> 0"
proof (induction items arbitrary: n h)
  case (Cons item items)
  then show ?case by (auto simp: Let_def split_beta split: option.splits)
qed simp

lemma prepare_length: "length (fst (snd (tx_prepare_loop items n h))) = length items"
proof (induction items arbitrary: n h)
  case (Cons item items)
  then show ?case by (auto simp: Let_def split_beta split: option.splits)
qed simp

lemma finalize_loop_length: "length (fst (tx_finalize_loop l fr h)) = length l"
  by (induction l arbitrary: h) (auto simp: Let_def split_beta)

lemma locks_class:
  assumes "locks_answer c" "j < CLASS_COUNT" "linkg_transport_find_peer_locked n c = Some i"
  shows "0 \<le> mx_lock (pc_tx_order_lock (pr_classes (tc_peers c ! i) ! j))"
proof -
  have "i < length (tc_peers c)" "length (tc_peers c) = 16" using find_peer_Some [OF assms(3)] assms(1)
    by (auto simp: valid_slots_def locks_answer_def slots_ok_def)
  moreover from this have "pr_classes (tc_peers c ! i) ! j \<in> set (pr_classes (tc_peers c ! i))"
    using assms(1,2) by (simp add: locks_answer_def slots_ok_def)
  ultimately show ?thesis using assms(1) unfolding locks_answer_def by (metis nth_mem)
qed

lemma acquire_code:
  assumes "locks_answer c" "j < CLASS_COUNT" "linkg_transport_tx_acquire_state n j fs c = (Inl e, c1)"
  shows "e < 0"
proof -
  have "0 \<le> mx_lock (pc_tx_order_lock (pr_classes (tc_peers c ! i) ! j))" if "linkg_transport_find_peer_locked n c = Some i" for i
    by (rule locks_class [OF assms(1,2) that])
  then show ?thesis using assms(1,3)
    by (auto simp: linkg_transport_tx_acquire_state_def locks_answer_def Let_def split_beta split: if_splits option.splits)
qed

lemma locks_upd_class:
  assumes "locks_answer c" "pc_tx_order_lock k = pc_tx_order_lock (pr_classes (tc_peers c ! i) ! j)" "i < 16" "j < CLASS_COUNT"
  shows "locks_answer (upd_class i j k c)"
proof -
  have len: "length (tc_peers c) = 16" "\<And>i. i < 16 \<Longrightarrow> length (pr_classes (tc_peers c ! i)) = 3" using assms(1) by (auto simp: locks_answer_def slots_ok_def)
  have pos: "0 \<le> mx_lock (pc_tx_order_lock k')" if "k' \<in> set (pr_classes (tc_peers c ! i'))" "i' < 16" for k' i'
    using that assms(1) len(1) unfolding locks_answer_def by (metis nth_mem)
  have k: "0 \<le> mx_lock (pc_tx_order_lock k)"
    using pos [OF _ assms(3)] len(2) [OF assms(3)] assms(2,4) by (metis nth_mem)
  have new: "0 \<le> mx_lock (pc_tx_order_lock k')" if "k' \<in> set ((pr_classes (tc_peers c ! i))[j := k])" for k'
    using set_update_subset_insert [of "pr_classes (tc_peers c ! i)" j k] that pos [OF _ assms(3)] k by blast
  have "\<forall>p\<in>set (tc_peers (upd_class i j k c)). \<forall>k\<in>set (pr_classes p). 0 \<le> mx_lock (pc_tx_order_lock k)"
    using set_update_subset_insert [of "tc_peers c" i] new assms(1)
    by (fastforce simp: upd_class_def upd_peer_def locks_answer_def)
  moreover have "slots_ok (upd_class i j k c)"
    using assms(1) by (auto simp: locks_answer_def slots_ok_def upd_class_def nth_upd_peer)
  ultimately show ?thesis using assms(1) by (simp add: locks_answer_def upd_class_def)
qed

lemma chunk_contract:
  assumes "locks_answer c" "unat (tx_traffic_class ctx) < CLASS_COUNT"
    and run: "linkg_transport_tx_send_chunk ctx items now_ms c s = (ret, results, c', s')"
  shows "locks_answer c' \<and> (ret < 0 \<or> (\<exists>rs. results = Some rs \<and> length rs = length items \<and> ret = int (length (filter (\<lambda>r. r = 0) rs))))"
proof -
  obtain d h where s: "s = (d, h)" by (metis surj_pair)
  let ?j = "unat (tx_traffic_class ctx)"
  obtain pret states h1 where pr: "linkg_transport_tx_prepare_states items h = (pret, states, h1)" by (metis prod_cases3)
  have p: "pret \<le> 0" "length states = length items"
    using prepare_code [of items 0 h] prepare_length [of items 0 h] pr by (simp_all add: linkg_transport_tx_prepare_states_def)
  define fs where "fs = map (\<lambda>st. ts_frame_count st = LINKG_TRANSPORT_FRAGMENT_COUNT_MAX) states"
  consider "items = [] \<or> length items > 32" | "items \<noteq> []" "length items \<le> 32" "pret \<noteq> 0" | "items \<noteq> []" "length items \<le> 32" "pret = 0" by linarith
  then show ?thesis
  proof cases
    case 1
    then show ?thesis using run assms(1) by (auto simp: linkg_transport_tx_send_chunk_def s split: if_splits)
  next
    case 2
    then show ?thesis using run assms(1) p(1) pr by (auto simp: linkg_transport_tx_send_chunk_def s)
  next
    case 3
    note unf = linkg_transport_tx_send_chunk_def s pr 3(3) fs_def [symmetric]
    show ?thesis
    proof (cases rule: acquire_cases [where n = "tx_peer_node_id ctx" and k = ?j and fs = fs and c = c])
      case (1 e)
      then show ?thesis using run 3 assms(1) acquire_code [OF assms(1,2) 1] by (simp add: unf)
    next
      case (2 x i ids)
      define c1 where "c1 = c\<lparr>tc_next_packet_id := x\<rparr>"
      have la: "locks_answer c1" using assms(1) by (simp add: locks_answer_def slots_ok_def c1_def)
      have i: "i < 16" using find_peer_Some [OF 2(2)] assms(1) by (simp add: valid_slots_def locks_answer_def slots_ok_def)
      let ?k = "pr_classes (tc_peers c1 ! i) ! ?j"
      obtain er batch k1 h2 where e: "linkg_transport_tx_encode_batch (tc_local_node_id c1) items (tx_set_ids states ids) ?k h1 = (er, batch, k1, h2)"
        by (metis prod_cases4)
      have er: "er \<le> 0" "pc_tx_order_lock k1 = pc_tx_order_lock ?k"
        using encode_code [of "tc_local_node_id c1" "zip items (tx_set_ids states ids)" ?k h1] encode_keeps_lock e
        unfolding linkg_transport_tx_encode_batch_def by (simp, blast)
      note lock = locks_upd_class [OF la _ i assms(2)]
      show ?thesis
      proof (cases "er = 0")
        case False
        then show ?thesis using run 3 er lock [of "tx_rollback ?k k1"] by (simp add: unf 2(1) [folded c1_def] Let_def e tx_rollback_def)
      next
        case True
        obtain a fr d1 h3 where sb: "linkg_transport_tx_submit_wire_batch ctx (map fst batch) (d, h2) = (a, fr, d1, h3)" by (metis prod_cases4)
        obtain m rs h4 where fin: "linkg_transport_tx_finalize_results items (tx_set_ids states ids) fr h3 = (m, rs, h4)" by (metis prod_cases3)
        have li: "length ids = length fs"
          using ids_nonzero(1) [OF acquire_ids [OF 2(1)], of 0] 3(1) p(2) by (simp add: fs_def)
        have f: "m = length (filter (\<lambda>r. r = 0) rs)" "length rs = length items"
          using fin finalize_loop_length [of "zip items (tx_set_ids states ids)" fr h3] p(2) li
          by (auto simp: linkg_transport_tx_finalize_results_def tx_set_ids_def fs_def split: prod.splits)
        have eq: "linkg_transport_tx_send_chunk ctx items now_ms c s =
          (int m, Some rs, upd_class i ?j (linkg_transport_tx_record_stats batch fr now_ms (if a = 0 then tx_rollback ?k k1 else k1)) c1,
           d1, linkg_transport_tx_cleanup_states (tx_set_ids states ids) h4)"
          using 3(1,2) by (simp add: unf 2(1) [folded c1_def] e True sb fin Let_def)
        show ?thesis
          using run lock [of "linkg_transport_tx_record_stats batch fr now_ms (if a = 0 then tx_rollback ?k k1 else k1)"] er(2) f
          unfolding eq by (auto simp: linkg_transport_tx_record_stats_def tx_rollback_def)
      qed
    qed
  qed
qed

lemma send_loop_contract:
  assumes "locks_answer c" "unat (tx_traffic_class ctx) < CLASS_COUNT"
    and "tx_send_loop ctx items now_ms c s = (success, first_error, processed, results, c', s')"
  shows "locks_answer c' \<and> length results = length items \<and> success = length (filter (\<lambda>r. r = 0) results) \<and> first_error \<le> 0 \<and>
    (\<not> processed \<longrightarrow> items \<noteq> [] \<longrightarrow> first_error < 0 \<and> (\<forall>r\<in>set results. r < 0))"
  using assms
proof (induction ctx items now_ms c s arbitrary: success first_error processed results c' s' rule: tx_send_loop.induct)
  case (1 ctx items now_ms c s)
  define n where "n = min (length items) LINKG_TRANSPORT_TX_BATCH_MAX"
  show ?case
  proof (cases "items = []")
    case True
    then show ?thesis using "1.prems"(1,3) by (simp add: tx_send_loop.simps)
  next
    case False
    obtain ret res c1 s1 where ch: "linkg_transport_tx_send_chunk ctx (take n items) now_ms c s = (ret, res, c1, s1)" by (metis prod_cases4)
    obtain su fe pr rest c2 s2 where lp: "tx_send_loop ctx (drop n items) now_ms c1 s1 = (su, fe, pr, rest, c2, s2)" by (metis prod_cases6)
    note cc = chunk_contract [OF "1.prems"(1,2) ch]
    have ih: "locks_answer c2 \<and> length rest = length (drop n items) \<and> su = length (filter (\<lambda>r. r = 0) rest) \<and> fe \<le> 0 \<and>
      (\<not> pr \<longrightarrow> drop n items \<noteq> [] \<longrightarrow> fe < 0 \<and> (\<forall>r\<in>set rest. r < 0))"
      using "1.IH" [OF False n_def refl ch [symmetric] refl refl _ "1.prems"(2) lp] cc by blast
    have nl: "n \<le> length items" by (simp add: n_def)
    have eq: "tx_send_loop ctx items now_ms c s =
      (if ret < 0 then (su, ret, pr, replicate n ret @ rest, c2, s2) else (nat ret + su, fe, True, the res @ rest, c2, s2))"
      using False ch lp by (simp add: tx_send_loop.simps [of _ items] Let_def flip: n_def)
    show ?thesis
    proof (cases "ret < 0")
      case True
      then show ?thesis using "1.prems"(3) ih nl unfolding eq by auto
    next
      case F: False
      then obtain rs where "res = Some rs" "length rs = n" "ret = int (length (filter (\<lambda>r. r = 0) rs))" using cc nl by auto
      then show ?thesis using "1.prems"(3) ih nl F unfolding eq by auto
    qed
  qed
qed

text \<open>A refused batch changes nothing; otherwise every packet has a result, and the code counts those sent completely.\<close>

lemma send_batch_contract:
  assumes "locks_answer c"
    and "linkg_transport_send_batch context items now_ms c s = (ret, results, c', s')"
  shows "locks_answer c' \<and> ((results = None \<and> ret < 0 \<and> c' = c \<and> s' = s) \<or>
    (\<exists>rs. results = Some rs \<and> length rs = length (the items) \<and>
      (0 \<le> ret \<longrightarrow> ret = int (length (filter (\<lambda>r. r = 0) rs))) \<and> (ret < 0 \<longrightarrow> (\<forall>r\<in>set rs. r < 0))))"
proof (cases "results = None")
  case True
  have vi: "tx_validate_items its h \<noteq> 0 \<Longrightarrow> tx_validate_items its h < 0" for its h
    by (induction its) (auto simp: linkg_transport_tx_validate_packet_def split: option.splits if_splits)
  have "linkg_transport_tx_validate_context context = 0 \<or> linkg_transport_tx_validate_context context = - EINVAL"
    by (simp add: linkg_transport_tx_validate_context_def split: option.split)
  then have vc: "linkg_transport_tx_validate_context context \<noteq> 0 \<Longrightarrow> linkg_transport_tx_validate_context context < 0" by auto
  have "linkg_transport_tx_validate_batch context items h \<noteq> 0 \<Longrightarrow> linkg_transport_tx_validate_batch context items h < 0" for h
    using vi vc by (auto simp: linkg_transport_tx_validate_batch_def split: option.splits if_splits)
  then show ?thesis using assms True
    by (auto simp: linkg_transport_send_batch_def Let_def split: if_splits option.splits prod.splits)
next
  case False
  then obtain ctx its where ci: "context = Some ctx" "items = Some its" "its \<noteq> []"
    using assms(2) by (auto simp: linkg_transport_send_batch_def split: if_splits option.splits)
  have "linkg_transport_tx_validate_batch context items (snd s) = 0" using assms(2) False ci
    by (auto simp: linkg_transport_send_batch_def Let_def split: if_splits)
  then have j: "unat (tx_traffic_class ctx) < CLASS_COUNT"
    by (auto simp: ci linkg_transport_tx_validate_batch_def linkg_transport_tx_validate_context_def linkg_transport_class_valid_def
        word_less_nat_alt split: option.splits if_splits)
  obtain su fe pr rs c1 s1 where lp: "tx_send_loop ctx its now_ms c s = (su, fe, pr, rs, c1, s1)" by (metis prod_cases6)
  note l = send_loop_contract [OF assms(1) j lp]
  have r: "ret = (if \<not> pr then fe else int su)" "results = Some rs" "c' = c1"
    using assms(2) False ci lp by (auto simp: linkg_transport_send_batch_def Let_def split: if_splits)
  show ?thesis using l r ci by (cases pr) auto
qed



section \<open>Relayed frames\<close>

text \<open>The frames after the relay: base header with a new sequence, everything else as it came.\<close>

fun forward_image :: "(linkg_transport_header \<times> u8 list) list \<Rightarrow> linkg_transport_peer_class \<Rightarrow> u8 list list" where
  "forward_image [] k = []"
| "forward_image ((header, bytes) # rest) k =
     (let (s, k1) = linkg_transport_tx_next_sequence (th_type header) k
      in (header_bytes (header\<lparr>th_sequence := s\<rparr>) @ drop 16 bytes) # forward_image rest k1)"

definition frame_headers :: "nat list \<Rightarrow> heap \<Rightarrow> linkg_transport_header list \<Rightarrow> bool" where
  "frame_headers packets h headers \<longleftrightarrow> list_all2 (\<lambda>p header. linkg_transport_wire_decode (Some p) h = Inr header) packets headers"

lemma forward_types_headers:
  assumes "tx_forward_types items h = Inr types"
  obtains headers where "frame_headers (map (\<lambda>item. the (fi_packet item)) items) h headers" "types = map th_type headers"
  using assms
proof (induction items arbitrary: types thesis)
  case Nil
  show ?case by (rule Nil(1) [of "[]"]) (use Nil(2) in \<open>auto simp: frame_headers_def\<close>)
next
  case (Cons item items)
  from Cons.prems(2) obtain header ts where c: "fi_packet item \<noteq> None" "linkg_transport_wire_decode (fi_packet item) h = Inr header"
    "tx_forward_types items h = Inr ts" "types = th_type header # ts"
    by (auto split: if_splits sum.splits)
  from Cons.IH [OF _ c(3)] obtain headers where "frame_headers (map (\<lambda>item. the (fi_packet item)) items) h headers" "ts = map th_type headers"
    by blast
  then show ?case using c by (intro Cons.prems(1) [of "header # headers"]) (auto simp: frame_headers_def)
qed

lemma forward_sequences_step:
  assumes "heap_ok h" "distinct packets" "\<forall>p\<in>set packets. managed h p" "frame_headers packets h headers"
  shows "\<exists>h'. tx_forward_sequences (zip packets (map th_type headers)) k h =
      (0, snd (tx_take_sequences (map th_type headers) k), h') \<and>
    heap_ok h' \<and> refs h' = refs h \<and> pk_at h' = pk_at h \<and> managed h' = managed h \<and>
    map (packet_bytes h') packets = forward_image (zip headers (map (packet_bytes h) packets)) k \<and>
    (\<forall>x. managed h x \<longrightarrow> x \<notin> set packets \<longrightarrow> packet_bytes h' x = packet_bytes h x)"
  using assms
proof (induction packets arbitrary: headers k h)
  case Nil
  then show ?case by (simp add: frame_headers_def)
next
  case (Cons p packets)
  then obtain header hs where hs: "headers = header # hs" "linkg_transport_wire_decode (Some p) h = Inr header" "frame_headers packets h hs"
    by (auto simp: frame_headers_def list_all2_Cons1)
  obtain s k1 where s: "linkg_transport_tx_next_sequence (th_type header) k = (s, k1)" by (metis surj_pair)
  have m: "managed h p" "\<forall>p\<in>set packets. managed h p" "p \<notin> set packets" using Cons.prems(2,3) by auto
  obtain h1 where u: "linkg_transport_wire_update_sequence (Some p) s h = (0, h1)" "heap_ok h1" "refs h1 = refs h"
    "packet_bytes h1 p = header_bytes (header\<lparr>th_sequence := s\<rparr>) @ drop 16 (packet_bytes h p)"
    "pk_at h1 = pk_at h" "pool_at h1 = pool_at h" "managed h1 = managed h"
    "\<And>x. managed h x \<Longrightarrow> x \<noteq> p \<Longrightarrow> packet_bytes h1 x = packet_bytes h x"
    by (rule update_sequence_step [OF Cons.prems(1) m(1) hs(2)]) blast
  have same: "packet_bytes h1 x = packet_bytes h x" if "x \<in> set packets" for x using u(8) m that by blast
  have "frame_headers packets h1 hs"
    unfolding frame_headers_def
  proof (rule list.rel_mono_strong [OF hs(3) [unfolded frame_headers_def]])
    fix x d assume x: "x \<in> set packets" "linkg_transport_wire_decode (Some x) h = Inr d"
    have "managed h x" "managed h1 x" using m(2) x(1) u(7) by auto
    then show "linkg_transport_wire_decode (Some x) h1 = Inr d"
      using x(2) unfolding decode_iff [OF Cons.prems(1) \<open>managed h x\<close>] decode_iff [OF u(2) \<open>managed h1 x\<close>] same [OF x(1)] by blast
  qed
  from Cons.IH [OF u(2) _ _ this, of k1] obtain h' where i: "tx_forward_sequences (zip packets (map th_type hs)) k1 h1 =
      (0, snd (tx_take_sequences (map th_type hs) k1), h')" "heap_ok h'" "refs h' = refs h1" "pk_at h' = pk_at h1" "managed h' = managed h1"
    "map (packet_bytes h') packets = forward_image (zip hs (map (packet_bytes h1) packets)) k1"
    "\<forall>x. managed h1 x \<longrightarrow> x \<notin> set packets \<longrightarrow> packet_bytes h' x = packet_bytes h1 x"
    using Cons.prems(2) m(2) u(7) by auto
  have "map (packet_bytes h1) packets = map (packet_bytes h) packets" using same by simp
  note i = i(1-5) i(6) [unfolded this] i(7)
  moreover have "packet_bytes h' p = packet_bytes h1 p" using i(7) m(1,3) u(7) by simp
  ultimately show ?case using i u s m(3) by (auto simp: hs(1) split_beta Let_def)
qed

text \<open>The code of a relayed batch.\<close>

lemma forward_types_code: "tx_forward_types items h = Inl e \<Longrightarrow> e < 0"
proof (induction items)
  case (Cons item items)
  have "linkg_transport_wire_decode p h = Inl e \<Longrightarrow> e < 0" for p
    by (auto simp: linkg_transport_wire_decode_def Let_def split: if_splits option.splits)
  then show ?case using Cons by (auto split: if_splits sum.splits)
qed simp

lemma update_sequence_code: "fst (linkg_transport_wire_update_sequence p s h) \<le> 0"
  by (auto simp: linkg_transport_wire_update_sequence_def Let_def linkg_transport_wire_decode_def split: sum.split if_splits option.splits)

lemma forward_sequences_code:
  "tx_forward_sequences ps k h = (ret, k', h') \<Longrightarrow> ret \<le> 0 \<and> pc_tx_order_lock k' = pc_tx_order_lock k"
proof (induction ps arbitrary: k h)
  case (Cons x ps)
  obtain p t where x: "x = (p, t)" by force
  obtain s k1 where s: "linkg_transport_tx_next_sequence t k = (s, k1)" by force
  obtain r h1 where r: "linkg_transport_wire_update_sequence (Some p) s h = (r, h1)" by force
  have "pc_tx_order_lock k1 = pc_tx_order_lock k" "r \<le> 0"
    using s r update_sequence_code [of "Some p" s h] by (auto simp: linkg_transport_tx_next_sequence_def split: if_splits)
  then show ?case using Cons.prems Cons.IH [of k1 h1] by (auto simp: x s r split: if_splits)
qed simp

lemma forward_acquire_code:
  assumes "locks_answer c" "j < CLASS_COUNT" "linkg_transport_tx_acquire_forward_state n j c = Inl e"
  shows "e < 0"
proof -
  have "0 \<le> mx_lock (pc_tx_order_lock (pr_classes (tc_peers c ! i) ! j))" if "linkg_transport_find_peer_locked n c = Some i" for i
    by (rule locks_class [OF assms(1,2) that])
  then show ?thesis using assms(1,3)
    by (auto simp: linkg_transport_tx_acquire_forward_state_def locks_answer_def Let_def split: if_splits option.splits)
qed

lemma forward_batch_contract:
  assumes "locks_answer c" and run: "linkg_transport_forward_batch (Some ctx) (Some items) now_ms c s = (ret, results, c', s')"
  shows "locks_answer c' \<and> (ret < 0 \<or>
    (\<exists>rs. results = Some rs \<and> length rs = length items \<and> ret = int (length (filter (\<lambda>r. r = 0) rs))))"
proof -
  obtain d h where s: "s = (d, h)" by force
  let ?j = "unat (tx_traffic_class ctx)" and ?ps = "map (\<lambda>item. the (fi_packet item)) items"
  let ?vc = "linkg_transport_tx_validate_context (Some ctx)"
  note unf = linkg_transport_forward_batch_def s
  have vc: "?vc = 0 \<or> ?vc = - EINVAL" by (simp add: linkg_transport_tx_validate_context_def split: option.split)
  show ?thesis
  proof (cases "\<not> tc_initialized c \<or> items = [] \<or> length items > 32 \<or> ?vc \<noteq> 0")
    case True
    then show ?thesis using run assms(1) vc by (auto simp: unf split: if_splits)
  next
    case F: False
    have j: "?j < CLASS_COUNT" using F
      by (auto simp: linkg_transport_tx_validate_context_def linkg_transport_class_valid_def word_less_nat_alt split: option.splits if_splits)
    show ?thesis
    proof (cases "tx_forward_types items h")
      case (Inl e)
      then show ?thesis using run assms(1) F forward_types_code by (auto simp: unf)
    next
      case types: (Inr types)
      show ?thesis
      proof (cases "linkg_transport_tx_acquire_forward_state (tx_peer_node_id ctx) ?j c")
        case (Inl e)
        then show ?thesis using run assms(1) F types forward_acquire_code [OF assms(1) j Inl] by (simp add: unf)
      next
        case (Inr i)
        have fp: "linkg_transport_find_peer_locked (tx_peer_node_id ctx) c = Some i" using Inr
          by (auto simp: linkg_transport_tx_acquire_forward_state_def Let_def split: if_splits option.splits)
        have i: "i < 16" using find_peer_Some [OF fp] assms(1) by (simp add: valid_slots_def locks_answer_def slots_ok_def)
        let ?k = "pr_classes (tc_peers c ! i) ! ?j"
        obtain fr k1 h1 where f: "tx_forward_sequences (zip ?ps types) ?k h = (fr, k1, h1)" by (metis prod_cases3)
        note fc = forward_sequences_code [OF f]
        obtain a rs d1 h2 where sb: "linkg_transport_tx_submit_wire_batch ctx ?ps (d, h1) = (a, rs, d1, h2)" by (metis prod_cases4)
        note lock = locks_upd_class [OF assms(1) _ i j]
        show ?thesis
        proof (cases "fr = 0")
          case False
          then show ?thesis using run F types Inr f fc lock [of "tx_rollback ?k k1"] by (simp add: unf Let_def tx_rollback_def)
        next
          case True
          then show ?thesis using run F types Inr f fc sb submit_counts [OF sb] submit_length [OF sb]
              lock [of "linkg_transport_tx_record_forward_stats items types rs now_ms (if a = 0 then tx_rollback ?k k1 else k1)"]
            by (auto simp: unf Let_def tx_rollback_def linkg_transport_tx_record_forward_stats_def)
        qed
      qed
    qed
  qed
qed

text \<open>
  C13. A relayed batch keeps everything of its frames but the sequence: the bytes handed to the links are
  those of the frames with consecutive sequences of the next hop written over the old ones, whatever type
  each frame is of; descriptors, references and every other packet are untouched, and if no link took a
  frame the sequences are given back.
\<close>

theorem tx_forward_batch_frames:
  assumes "heap_ok h" "distinct (map (\<lambda>item. the (fi_packet item)) items)" "\<forall>item\<in>set items. managed h (the (fi_packet item))"
    and "linkg_transport_forward_batch (Some ctx) (Some items) now_ms c (d, h) = (ret, Some results, c', d', h')"
  shows "\<exists>i headers h1 k. let packets = map (\<lambda>item. the (fi_packet item)) items; j = unat (tx_traffic_class ctx);
      k0 = pr_classes (tc_peers c ! i) ! j in
    linkg_transport_find_peer_locked (tx_peer_node_id ctx) c = Some i \<and> frame_headers packets h headers \<and>
    map (packet_bytes h1) packets = forward_image (zip headers (map (packet_bytes h) packets)) k0 \<and>
    heap_ok h1 \<and> refs h1 = refs h \<and> pk_at h1 = pk_at h \<and>
    (\<forall>x. managed h x \<longrightarrow> x \<notin> set packets \<longrightarrow> packet_bytes h1 x = packet_bytes h x) \<and>
    linkg_transport_tx_submit_wire_batch ctx packets (d, h1) = (nat ret, results, d', h') \<and> c' = upd_class i j k c \<and>
    k\<lparr>pc_stats := pc_stats k0\<rparr> = (if ret = 0 then k0 else snd (tx_take_sequences (map th_type headers) k0))"
proof -
  let ?ps = "map (\<lambda>item. the (fi_packet item)) items" and ?j = "unat (tx_traffic_class ctx)"
  obtain types i where t: "tx_forward_types items h = Inr types"
    "linkg_transport_tx_acquire_forward_state (tx_peer_node_id ctx) ?j c = Inr i"
    and pre: "tc_initialized c" "items \<noteq> []" "length items \<le> 32" "linkg_transport_tx_validate_context (Some ctx) = 0"
    using assms(4) by (auto simp: linkg_transport_forward_batch_def split: if_splits sum.splits)
  have i: "linkg_transport_find_peer_locked (tx_peer_node_id ctx) c = Some i"
    using t(2) by (auto simp: linkg_transport_tx_acquire_forward_state_def Let_def split: if_splits option.splits)
  let ?k0 = "pr_classes (tc_peers c ! i) ! ?j"
  obtain headers where hd: "frame_headers ?ps h headers" "types = map th_type headers"
    using forward_types_headers [OF t(1)] .
  have "\<forall>p\<in>set ?ps. managed h p" using assms(3) by auto
  from forward_sequences_step [OF assms(1,2) this hd(1), of ?k0] obtain h1 where
    f: "tx_forward_sequences (zip ?ps types) ?k0 h = (0, snd (tx_take_sequences (map th_type headers) ?k0), h1)"
    "heap_ok h1" "refs h1 = refs h" "pk_at h1 = pk_at h"
    "map (packet_bytes h1) ?ps = forward_image (zip headers (map (packet_bytes h) ?ps)) ?k0"
    "\<forall>x. managed h x \<longrightarrow> x \<notin> set ?ps \<longrightarrow> packet_bytes h1 x = packet_bytes h x"
    unfolding hd(2) by blast
  define k1 where "k1 = snd (tx_take_sequences (map th_type headers) ?k0)"
  obtain a rs d1 h2 where sb: "linkg_transport_tx_submit_wire_batch ctx ?ps (d, h1) = (a, rs, d1, h2)" by (metis prod_cases4)
  define k where "k = linkg_transport_tx_record_forward_stats items types rs now_ms (if a = 0 then tx_rollback ?k0 k1 else k1)"
  have "linkg_transport_forward_batch (Some ctx) (Some items) now_ms c (d, h) = (int a, Some rs, upd_class i ?j k c, d1, h2)"
    using pre t f(1) sb by (simp add: linkg_transport_forward_batch_def Let_def k_def k1_def)
  then have r: "ret = int a" "results = rs" "c' = upd_class i ?j k c" "d' = d1" "h' = h2" using assms(4) by simp_all
  have "k\<lparr>pc_stats := pc_stats ?k0\<rparr> = (if a = 0 then ?k0 else k1)"
    using take_sequences_only [of "map th_type headers" ?k0] rollback_restores [of ?k0 "map th_type headers"]
    by (auto simp: k_def k1_def linkg_transport_tx_record_forward_stats_def)
  then show ?thesis using i hd(1) f(2-6) sb r
    by (intro exI [of _ i] exI [of _ headers] exI [of _ h1] exI [of _ k]) (simp add: Let_def k1_def)
qed

section \<open>Witnesses\<close>

text \<open>A long packet of 1500 bytes and a short one of 104, sent to node 2 over a link that takes everything.\<close>

definition send_heap :: heap where
  "send_heap = upd_pk 102 (\<lambda>k. k\<lparr>pk_data_length := 1500\<rparr>) fragment_heap"

definition send_items :: "linkg_transport_tx_item list" where
  "send_items = [\<lparr>ti_packet = Some 102, ti_type = 1, ti_destination_node_id = 2\<rparr>, \<lparr>ti_packet = Some 103, ti_type = 2, ti_destination_node_id = 2\<rparr>]"

definition send_target :: "nat list linkg_transport_tx_target" where
  "send_target = \<lparr>tt_link = Some store_link, tt_path = Some (7, path_zero\<lparr>pt_link_id := 1\<rparr>), tt_destination = endpoint_zero, tt_gate = open_gate\<rparr>"

definition send_context :: "nat list linkg_transport_tx_context" where
  "send_context = \<lparr>tx_targets = Some [send_target], tx_traffic_class = 1, tx_peer_node_id = 2\<rparr>"

definition send_transport :: linkg_transport_context where
  "send_transport = fst (history [ModuleInit sample_init_env, RegisterPeer 2])"

lemma send_given: "batch_given send_items send_heap"
proof -
  have p: "pk_pool (pk_at fragment_heap 102) = Some 0" "managed fragment_heap 102"
    using refs_managed [of fragment_heap 102] by (simp_all add: fragment_refs) (simp add: fragment_heap_def)
  have f: "unat (pk_data_offset (pk_at fragment_heap 102)) + unat (1500 :: u32) \<le> unat (pl_slot_size (pool_at fragment_heap 0))"
    by (simp add: fragment_heap_def)
  note l = heap_ok_set_length [OF fragment_heap_ok p(2,1) f, folded send_heap_def]
  have "tx_validate_items send_items send_heap = 0"
    by (simp add: send_items_def linkg_transport_type_valid_def linkg_transport_tx_node_id_valid_def
        linkg_transport_tx_validate_packet_def send_heap_def fragment_heap_def linkg_packet_headroom_def)
  then show ?thesis using l(1,2) by (simp add: batch_given_def send_items_def fragment_refs)
qed

lemma send_prepare: "fst (linkg_transport_tx_prepare_states send_items send_heap) = 0"
  by (simp add: linkg_transport_tx_prepare_states_def send_items_def Let_def split_beta linkg_packet_pool_alloc_def pool_pop_def
      linkg_packet_reset_def send_heap_def fragment_heap_def mutex_zero_def linkg_packet_headroom_def linkg_packet_capacity_def tx_fill_tail_def)

lemma send_acquire: "\<exists>r c1. linkg_transport_tx_acquire_state 2 1 [True, False] send_transport = (Inr r, c1)"
proof -
  have "case fst (linkg_transport_tx_acquire_state 2 1 [True, False] send_transport) of Inl _ \<Rightarrow> False | Inr _ \<Rightarrow> True" by code_simp
  then show ?thesis by (metis prod.collapse sum.case_eq_if sum.collapse(2))
qed

lemma send_kinds: "map snd (item_kinds send_items send_heap) = [True, False]"
proof -
  have m: "heap_ok send_heap" "managed send_heap 102" "managed send_heap 103"
    using send_given refs_managed [of send_heap] by (auto simp: batch_given_def send_items_def)
  show ?thesis using length_packet_bytes [OF m(1,2)] length_packet_bytes [OF m(1,3)]
    by (simp add: item_kinds_def payloads_def send_items_def) (simp add: send_heap_def fragment_heap_def)
qed

lemma send_run:
  obtains ret results c' d' h' where
    "linkg_transport_tx_send_chunk send_context send_items 5 send_transport ([], send_heap) = (ret, results, c', d', h')"
    "0 \<le> ret" "results \<noteq> None"
proof -
  obtain ret results c' d' h' where run: "linkg_transport_tx_send_chunk send_context send_items 5 send_transport ([], send_heap) = (ret, results, c', d', h')"
    by (metis prod_cases5)
  have n: "linkg_transport_wire_node_id_valid (tc_local_node_id send_transport)" by code_simp
  have l: "send_items \<noteq> []" "length send_items \<le> 32" by (simp_all add: send_items_def)
  from send_given l n run show ?thesis
  proof (cases rule: chunk_cases)
    case failed
    then show ?thesis using send_prepare send_acquire by (auto simp: send_context_def send_kinds)
  next
    case (sent i ids c1 batch k1 h2 frame_results h3 states rs h4)
    then show ?thesis using that [OF run] by simp
  qed
qed

lemma send_valid: "send_items \<noteq> []" "length send_items \<le> 32" "linkg_transport_wire_node_id_valid (tc_local_node_id send_transport)"
proof -
  show "linkg_transport_wire_node_id_valid (tc_local_node_id send_transport)" by code_simp
qed (simp_all add: send_items_def)

lemma send_slots: "slots_ok send_transport"
  using log_ok_history [of "[ModuleInit sample_init_env, RegisterPeer 2]"]
  by (simp add: send_transport_def log_ok_def peers_ok_def split_beta)

lemma send_locks: "locks_answer send_transport"
proof -
  have "list_all (\<lambda>p. list_all (\<lambda>k. 0 \<le> mx_lock (pc_tx_order_lock k)) (pr_classes p)) (tc_peers send_transport)"
    "0 \<le> mx_lock (tc_lock send_transport)" by code_simp+
  then show ?thesis using send_slots by (simp add: locks_answer_def list_all_iff)
qed


text \<open>A frame relayed to node 2.\<close>

definition relay_items :: "linkg_transport_forward_item list" where
  "relay_items = [\<lparr>fi_packet = Some 103, fi_payload_length = 4, fi_destination_node_id = 2, fi_peer_node_id = 1\<rparr>]"

theorem tx_forward_batch_frames_witness:
  "\<exists>i h1. linkg_transport_find_peer_locked 2 send_transport = Some i \<and>
     packet_bytes h1 103 = header_bytes ((frame_header sample_header)\<lparr>th_sequence := 1\<rparr>) @ drop 16 (packet_bytes sample_frame 103)"
proof -
  obtain ret results c d h where run: "linkg_transport_forward_batch (Some send_context) (Some relay_items) 5 send_transport ([], sample_frame) =
      (ret, results, c, d, h)" by (metis prod_cases5)
  have m: "\<forall>item\<in>set relay_items. managed sample_frame (the (fi_packet item))" using sample_frame_facts(2) by (simp add: relay_items_def)
  have t: "tx_forward_types relay_items sample_frame = Inr [2]"
    by (simp add: relay_items_def sample_frame_facts(3) frame_header_simps) (simp add: sample_header_def)
  have a: "linkg_transport_tx_acquire_forward_state 2 1 send_transport = Inr 0" "tc_initialized send_transport"
    "linkg_transport_find_peer_locked 2 send_transport = Some 0"
    "pc_tx_control_sequence (pr_classes (tc_peers send_transport ! 0) ! 1) = 0" by code_simp+
  have fh: "frame_headers [103] sample_frame [frame_header sample_header]" using sample_frame_facts(3) by (simp add: frame_headers_def)
  have v: "linkg_transport_tx_validate_context (Some send_context) = 0"
    by (simp add: linkg_transport_tx_validate_context_def send_context_def send_target_def linkg_transport_class_valid_def linkg_transport_tx_node_id_valid_def)
  have ty: "th_type (frame_header sample_header) = 2" by (simp add: frame_header_def sample_header_def)
  obtain k1 h1 where fs: "tx_forward_sequences [(103, 2)] (pr_classes (tc_peers send_transport ! 0) ! 1) sample_frame = (0, k1, h1)"
    using forward_sequences_step [OF sample_frame_facts(1) _ _ fh, of "pr_classes (tc_peers send_transport ! 0) ! 1"] sample_frame_facts(2) ty by auto
  have sc: "tx_traffic_class send_context = 1" "tx_peer_node_id send_context = 2" by (simp_all add: send_context_def)
  have pk: "map (\<lambda>item. the (fi_packet item)) relay_items = [103]" "relay_items \<noteq> []" "length relay_items \<le> 32" by (simp_all add: relay_items_def)
  have "results \<noteq> None"
    using run t a v fs pk by (auto simp: linkg_transport_forward_batch_def Let_def sc split: prod.splits)
  then obtain rs where rs: "results = Some rs" by blast
  have dp: "distinct (map (\<lambda>item. the (fi_packet item)) relay_items)" by (simp add: pk(1))
  from tx_forward_batch_frames [OF sample_frame_facts(1) dp m run [unfolded rs]] obtain headers h2 where
    h2: "frame_headers [103] sample_frame headers"
    "map (packet_bytes h2) [103] = forward_image (zip headers (map (packet_bytes sample_frame) [103])) (pr_classes (tc_peers send_transport ! 0) ! 1)"
    unfolding pk(1) Let_def sc a(3) by auto
  have "headers = [frame_header sample_header]" using h2(1) sample_frame_facts(3) by (auto simp: frame_headers_def list_all2_Cons1)
  then have "packet_bytes h2 103 = header_bytes ((frame_header sample_header)\<lparr>th_sequence := 1\<rparr>) @ drop 16 (packet_bytes sample_frame 103)"
    using h2(2) a(4) ty by (simp add: linkg_transport_tx_next_sequence_def)
  then show ?thesis using a(3) by blast
qed


theorem tx_chunk_refines_send_witness:
  "\<exists>c' b. snd (snd (linkg_transport_tx_send_chunk send_context send_items 5 send_transport ([], send_heap))) = c' \<and>
     strip_stats (fst c') = strip_stats (snd (tx_send 2 1 (item_kinds send_items send_heap) b send_transport))"
proof (rule send_run)
  fix ret results c' d' h'
  assume run: "linkg_transport_tx_send_chunk send_context send_items 5 send_transport ([], send_heap) = (ret, results, c', d', h')"
    "0 \<le> ret" "results \<noteq> None"
  show ?thesis using tx_chunk_refines_send [OF send_given send_valid run(1) send_slots] run by (auto simp: send_context_def)
qed

text \<open>Without the peer the chunk fails after the tail was filled, and the tail is given back.\<close>

lemma no_peer_run:
  obtains ret results c' d' h' where
    "linkg_transport_tx_send_chunk (send_context\<lparr>tx_peer_node_id := 9\<rparr>) send_items 5 send_transport ([], send_heap) = (ret, results, c', d', h')"
    "ret < 0"
proof -
  obtain ret results c' d' h' where run: "linkg_transport_tx_send_chunk (send_context\<lparr>tx_peer_node_id := 9\<rparr>) send_items 5 send_transport ([], send_heap) =
      (ret, results, c', d', h')"
    by (metis prod_cases5)
  have a: "fst (linkg_transport_tx_acquire_state 9 1 [True, False] send_transport) = Inl (- ENOENT)" by code_simp
  then obtain c1 where a: "linkg_transport_tx_acquire_state 9 1 [True, False] send_transport = (Inl (- ENOENT), c1)" by (metis prod.collapse)
  obtain states h1 where pr: "linkg_transport_tx_prepare_states send_items send_heap = (0, states, h1)"
    using send_prepare by (metis prod.collapse)
  have "map (\<lambda>st. ts_frame_count st = 2) states = [True, False]"
    using pr prepare_loop_ok [of send_heap send_items 0] send_given state_counts [OF send_given, of h1 states] send_kinds
    by (simp add: linkg_transport_tx_prepare_states_def batch_given_def prepare_ok_def)
  then have "ret = - ENOENT" using run a pr send_valid(1,2) by (simp add: linkg_transport_tx_send_chunk_def send_context_def)
  then show ?thesis using that [OF run] by simp
qed

theorem tx_chunk_error_undone_witness:
  "\<exists>ret results c d h. linkg_transport_tx_send_chunk (send_context\<lparr>tx_peer_node_id := 9\<rparr>) send_items 5 send_transport ([], send_heap) =
      (ret, results, c, d, h) \<and> ret < 0 \<and> c = send_transport \<and> refs h = refs send_heap"
proof (rule no_peer_run)
  fix ret results c' d' h'
  assume run: "linkg_transport_tx_send_chunk (send_context\<lparr>tx_peer_node_id := 9\<rparr>) send_items 5 send_transport ([], send_heap) = (ret, results, c', d', h')"
    "ret < 0"
  show ?thesis using tx_chunk_error_undone [OF send_given send_valid run] run by blast
qed

end
