(* ===== verification/Node.thy ===== *)
theory Node
  imports Link_Tx
begin

text \<open>
  The node table: \<open>src/core/node/linkg_node.c\<close>.

  A node owns up to 16 direct peers with two paths each. The module hands out counted references to the paths and,
  when a peer or a path is unregistered, retires the paths and waits for the last reference: the callback
  \<open>linkg_node_path_released\<close>, which the path makes then, resets the path and frees the slot of the peer. The path
  \<open>j\<close> of the peer slot \<open>i\<close> lives in the store of \<open>Link_Path\<close> at the address \<open>slot_path i j\<close>, and the slot's address,
  the callback's argument, is \<open>i\<close>. The log of the store holds the callbacks that are due but have not run.
\<close>

abbreviation (input) EFAULT :: int where "EFAULT \<equiv> 14"
abbreviation (input) LINKG_RESOURCE_NODE_ID_INVALID :: u8 where "LINKG_RESOURCE_NODE_ID_INVALID \<equiv> 0"
abbreviation (input) LINKG_NODE_PEER_MAX :: nat where "LINKG_NODE_PEER_MAX \<equiv> 16"
abbreviation (input) LINKG_NODE_PATH_MAX :: nat where "LINKG_NODE_PATH_MAX \<equiv> 2"

section \<open>State\<close>

record linkg_node_info =
  ni_node_id :: u8
  ni_role :: linkg_device_role

record linkg_node_peer_slot =
  ns_info :: linkg_node_info
  ns_path_count :: u32
  ns_valid :: bool
  ns_retiring :: bool

record linkg_node_context =
  nd_lock :: mutex
  nd_local :: linkg_node_info
  nd_peers :: "linkg_node_peer_slot list"
  nd_peer_count :: u32
  nd_initialized :: bool

record linkg_node_peer_snapshot =
  np_info :: linkg_node_info
  np_path_count :: u32

record linkg_node_path_rx_item =
  ri_source :: linkg_path_endpoint
  ri_bytes :: u64
  ri_packets :: u64
  ri_peer_node_id :: u8
  ri_result :: int

definition node_info_zero :: linkg_node_info where
  "node_info_zero = \<lparr>ni_node_id = 0, ni_role = LINKG_DEVICE_ROLE_UNKNOWN\<rparr>"

definition node_slot_zero :: linkg_node_peer_slot where
  "node_slot_zero = \<lparr>ns_info = node_info_zero, ns_path_count = 0, ns_valid = False, ns_retiring = False\<rparr>"

definition node_zero :: linkg_node_context where
  "node_zero = \<lparr>nd_lock = mutex_zero, nd_local = node_info_zero, nd_peers = replicate LINKG_NODE_PEER_MAX node_slot_zero,
     nd_peer_count = 0, nd_initialized = False\<rparr>"

definition slot_path :: "nat \<Rightarrow> nat \<Rightarrow> nat" where
  "slot_path i j = LINKG_NODE_PATH_MAX * i + j"

definition upd_slot :: "nat \<Rightarrow> (linkg_node_peer_slot \<Rightarrow> linkg_node_peer_slot) \<Rightarrow> linkg_node_context \<Rightarrow> linkg_node_context" where
  "upd_slot i f c = c\<lparr>nd_peers := (nd_peers c)[i := f (nd_peers c ! i)]\<rparr>"

text \<open>The address of the function \<open>linkg_node_path_released\<close>.\<close>

abbreviation (input) path_released_callback :: nat where "path_released_callback \<equiv> 1"

section \<open>Internal helpers\<close>

definition linkg_node_lock :: "linkg_node_context \<Rightarrow> int" where
  "linkg_node_lock c = (if mx_lock (nd_lock c) = 0 then 0 else - mx_lock (nd_lock c))"

definition linkg_node_unlock :: "linkg_node_context \<Rightarrow> int \<Rightarrow> int" where
  "linkg_node_unlock c result = (if mx_unlock (nd_lock c) \<noteq> 0 then - mx_unlock (nd_lock c) else result)"

definition linkg_node_id_valid :: "u8 \<Rightarrow> bool" where
  "linkg_node_id_valid node_id \<longleftrightarrow> node_id \<ge> LINKG_RESOURCE_NODE_ID_MIN \<and> node_id \<le> LINKG_RESOURCE_NODE_ID_MAX"

definition linkg_node_info_valid :: "linkg_node_info option \<Rightarrow> bool" where
  "linkg_node_info_valid info =
     (case info of
        None \<Rightarrow> False
      | Some n \<Rightarrow>
         (if \<not> linkg_node_id_valid (ni_node_id n) then False
          else if ni_role n \<noteq> LINKG_DEVICE_ROLE_AP \<and> ni_role n \<noteq> LINKG_DEVICE_ROLE_STA then False
          else True))"

definition linkg_node_peer_role_valid :: "linkg_device_role \<Rightarrow> linkg_device_role \<Rightarrow> bool" where
  "linkg_node_peer_role_valid local_role peer_role =
     (if local_role = LINKG_DEVICE_ROLE_AP then peer_role = LINKG_DEVICE_ROLE_STA
      else if local_role = LINKG_DEVICE_ROLE_STA then peer_role = LINKG_DEVICE_ROLE_AP
      else False)"

text \<open>
  Socket addresses as Linux lays them out: the family in the first two bytes, in host order (little-endian
  on the targets), the port in the next two, then for IPv4 the address, for IPv6 the flow information, the
  address and the scope.
\<close>

abbreviation (input) AF_INET :: u16 where "AF_INET \<equiv> 2"
abbreviation (input) AF_INET6 :: u16 where "AF_INET6 \<equiv> 10"
abbreviation (input) SOCKADDR_IN_SIZE :: u32 where "SOCKADDR_IN_SIZE \<equiv> 16"
abbreviation (input) SOCKADDR_IN6_SIZE :: u32 where "SOCKADDR_IN6_SIZE \<equiv> 28"

definition ep_bytes :: "nat \<Rightarrow> nat \<Rightarrow> linkg_path_endpoint \<Rightarrow> u8 list" where
  "ep_bytes offset n e = take n (drop offset (ep_address e))"

definition ep_family :: "linkg_path_endpoint \<Rightarrow> u16" where
  "ep_family e = push_bit 8 (ucast (ep_address e ! 1)) OR ucast (ep_address e ! 0)"

definition linkg_network_ipv4_address_valid :: "u8 list \<Rightarrow> bool" where
  "linkg_network_ipv4_address_valid address =
     (let value = of_be32 address in
      if value AND 0xFF000000 = 0x00000000 then False
      else if value AND 0xFF000000 = 0x7F000000 then False
      else if value AND 0xF0000000 = 0xE0000000 then False
      else if value AND 0xF0000000 = 0xF0000000 then False
      else True)"

definition linkg_node_endpoint_valid :: "linkg_path_endpoint option \<Rightarrow> bool" where
  "linkg_node_endpoint_valid endpoint =
     (case endpoint of
        None \<Rightarrow> False
      | Some e \<Rightarrow>
         (if ep_family e = AF_INET
          then
            (if ep_length e \<noteq> SOCKADDR_IN_SIZE then False
             else linkg_network_ipv4_address_valid (ep_bytes 4 4 e) \<and> ep_bytes 2 2 e \<noteq> [0, 0])
          else if ep_family e = AF_INET6
          then
            (if ep_length e \<noteq> SOCKADDR_IN6_SIZE then False
             else ep_bytes 8 16 e \<noteq> replicate 16 0 \<and> ep_address e ! 8 \<noteq> 0xFF \<and> ep_bytes 2 2 e \<noteq> [0, 0])
          else False))"

definition linkg_node_endpoint_equal :: "linkg_path_endpoint option \<Rightarrow> linkg_path_endpoint option \<Rightarrow> bool" where
  "linkg_node_endpoint_equal left right =
     (case (left, right) of
        (Some l, Some r) \<Rightarrow>
         (if ep_length l \<noteq> ep_length r \<or> ep_family l \<noteq> ep_family r then False
          else if ep_family l = AF_INET then ep_bytes 4 4 l = ep_bytes 4 4 r \<and> ep_bytes 2 2 l = ep_bytes 2 2 r
          else if ep_family l = AF_INET6
          then ep_bytes 8 16 l = ep_bytes 8 16 r \<and> ep_bytes 2 2 l = ep_bytes 2 2 r \<and> ep_bytes 24 4 l = ep_bytes 24 4 r
          else False)
      | _ \<Rightarrow> False)"

text \<open>A slot is found by its index; \<open>-1\<close> and \<open>NULL\<close> are \<open>None\<close>.\<close>

definition linkg_node_find_peer_locked :: "u8 \<Rightarrow> linkg_node_context \<Rightarrow> nat option" where
  "linkg_node_find_peer_locked node_id c =
     (if \<not> linkg_node_id_valid node_id then None
      else List.find (\<lambda>i. let p = nd_peers c ! i in \<not> (\<not> ns_valid p \<and> \<not> ns_retiring p) \<and> ni_node_id (ns_info p) = node_id)
             [0..<LINKG_NODE_PEER_MAX])"

definition linkg_node_find_unused_peer_locked :: "linkg_node_context \<Rightarrow> nat option" where
  "linkg_node_find_unused_peer_locked c =
     List.find (\<lambda>i. \<not> ns_valid (nd_peers c ! i) \<and> \<not> ns_retiring (nd_peers c ! i)) [0..<LINKG_NODE_PEER_MAX]"

definition linkg_node_find_path_index_locked :: "nat \<Rightarrow> u32 \<Rightarrow> path_store \<Rightarrow> nat option" where
  "linkg_node_find_path_index_locked i link_id s =
     (if link_id = LINKG_LINK_ID_INVALID then None
      else List.find (\<lambda>j. linkg_path_get_state (Some (slot_path i j)) s \<noteq> LINKG_PATH_STATE_EMPTY \<and>
                          pt_link_id (path_at s (slot_path i j)) = link_id) [0..<LINKG_NODE_PATH_MAX])"

definition linkg_node_find_path_pointer_index_locked :: "nat \<Rightarrow> nat \<Rightarrow> nat option" where
  "linkg_node_find_path_pointer_index_locked i path = List.find (\<lambda>j. slot_path i j = path) [0..<LINKG_NODE_PATH_MAX]"

definition linkg_node_find_unused_path_index_locked :: "nat \<Rightarrow> path_store \<Rightarrow> nat option" where
  "linkg_node_find_unused_path_index_locked i s =
     List.find (\<lambda>j. linkg_path_get_state (Some (slot_path i j)) s = LINKG_PATH_STATE_EMPTY) [0..<LINKG_NODE_PATH_MAX]"

definition linkg_node_paths_empty_locked :: "nat \<Rightarrow> path_store \<Rightarrow> bool" where
  "linkg_node_paths_empty_locked i s =
     list_all (\<lambda>j. linkg_path_get_state (Some (slot_path i j)) s = LINKG_PATH_STATE_EMPTY) [0..<LINKG_NODE_PATH_MAX]"

definition linkg_node_complete_peer_release_locked :: "nat \<Rightarrow> path_store \<Rightarrow> linkg_node_context \<Rightarrow> linkg_node_context" where
  "linkg_node_complete_peer_release_locked i s c =
     (if \<not> ns_retiring (nd_peers c ! i) \<or> \<not> linkg_node_paths_empty_locked i s then c
      else upd_slot i (\<lambda>p. p\<lparr>ns_valid := False, ns_path_count := 0, ns_info := node_info_zero, ns_retiring := False\<rparr>) c)"

text \<open>The result is the code, \<open>*retired_path\<close> and the paths.\<close>

definition linkg_node_prepare_path_retire_locked :: "nat \<Rightarrow> path_store \<Rightarrow> int \<times> nat option \<times> path_store" where
  "linkg_node_prepare_path_retire_locked path s =
     (let state = linkg_path_get_state (Some path) s in
      if state = LINKG_PATH_STATE_RETIRED \<or> state = LINKG_PATH_STATE_RELEASED then (0, None, s)
      else if state \<noteq> LINKG_PATH_STATE_ACTIVE then (- ENODEV, None, s)
      else
        (let (ret, s1) = linkg_path_acquire (Some path) s in
         if ret \<noteq> 0 then (ret, None, s1)
         else
           (let (ret, released, s2) = linkg_path_retire (Some path) s1 in
            if ret \<noteq> 0 then (ret, None, linkg_path_release (Some path) s2)
            else if released then (- EFAULT, None, linkg_path_release (Some path) s2)
            else (0, Some path, s2))))"

text \<open>What purging the transmit queues of its link does to a path, \<open>linkg_link_manager_purge_tx_path\<close>, is a parameter.\<close>

type_synonym path_purge = "nat \<Rightarrow> path_store \<Rightarrow> int \<times> path_store"

fun linkg_node_purge_retired_paths :: "path_purge \<Rightarrow> nat option list \<Rightarrow> path_store \<Rightarrow> int \<times> path_store" where
  "linkg_node_purge_retired_paths purge [] s = (0, s)"
| "linkg_node_purge_retired_paths purge (None # paths) s = linkg_node_purge_retired_paths purge paths s"
| "linkg_node_purge_retired_paths purge (Some path # paths) s =
     (let (ret, s1) = purge path s;
          s2 = linkg_path_release (Some path) s1;
          (first_error, s3) = linkg_node_purge_retired_paths purge paths s2
      in (if ret \<noteq> 0 then ret else first_error, s3))"

text \<open>The callback.\<close>

definition linkg_node_path_released ::
    "nat option \<Rightarrow> nat option \<Rightarrow> linkg_node_context \<Rightarrow> path_store \<Rightarrow> linkg_node_context \<times> path_store" where
  "linkg_node_path_released path user_data c s =
     (case (path, user_data) of
        (Some a, Some i) \<Rightarrow>
         (if linkg_node_lock c \<noteq> 0 then (c, s)
          else if linkg_node_find_path_pointer_index_locked i a = None then (c, s)
          else
            (let state = linkg_path_get_state (Some a) s in
             if state = LINKG_PATH_STATE_RELEASED
             then
               (let (ret, s1) = linkg_path_reset (Some a) s in
                if ret \<noteq> 0 then (c, s1) else (linkg_node_complete_peer_release_locked i s1 c, s1))
             else if state \<noteq> LINKG_PATH_STATE_EMPTY then (c, s)
             else (linkg_node_complete_peer_release_locked i s c, s)))
      | _ \<Rightarrow> (c, s))"

section \<open>Life cycle\<close>

text \<open>The answers of \<open>pthread_mutex_init\<close> for the paths, by address, and the mutexes it builds are inputs.\<close>

fun node_init_paths :: "(nat \<Rightarrow> int \<times> mutex) \<Rightarrow> nat list \<Rightarrow> path_store \<Rightarrow> int \<times> path_store" where
  "node_init_paths inits [] s = (0, s)"
| "node_init_paths inits (a # as) s =
     (let (ret, s1) = linkg_path_init (Some a) (fst (inits a)) (snd (inits a)) s in
      if ret \<noteq> 0 then (ret, s1) else node_init_paths inits as s1)"

fun node_deinit_paths :: "nat list \<Rightarrow> path_store \<Rightarrow> int \<times> path_store" where
  "node_deinit_paths [] s = (0, s)"
| "node_deinit_paths (a # as) s =
     (let (ret, s1) = linkg_path_deinit (Some a) s in if ret \<noteq> 0 then (ret, s1) else node_deinit_paths as s1)"

definition node_path_addresses :: "nat list" where
  "node_path_addresses = concat (map (\<lambda>i. map (slot_path i) [0..<LINKG_NODE_PATH_MAX]) [0..<LINKG_NODE_PEER_MAX])"

text \<open>Clearing the context clears the paths in it.\<close>

definition node_clear_paths :: "path_store \<Rightarrow> path_store" where
  "node_clear_paths s = fold (\<lambda>a. upd_path a (\<lambda>_. path_zero)) node_path_addresses s"

definition linkg_node_init ::
    "linkg_node_info option \<Rightarrow> int \<Rightarrow> mutex \<Rightarrow> (nat \<Rightarrow> int \<times> mutex) \<Rightarrow> linkg_node_context \<Rightarrow> path_store \<Rightarrow>
     int \<times> linkg_node_context \<times> path_store" where
  "linkg_node_init local mutex_init m inits c s =
     (if \<not> linkg_node_info_valid local then (- EINVAL, c, s)
      else if nd_initialized c then (- EALREADY, c, s)
      else if mutex_init \<noteq> 0 then (- mutex_init, node_zero, node_clear_paths s)
      else
        (let (ret, s1) = node_init_paths inits node_path_addresses (node_clear_paths s) in
         if ret \<noteq> 0
         then (ret, node_zero, node_clear_paths (fold (\<lambda>a s. snd (linkg_path_deinit (Some a) s)) node_path_addresses s1))
         else (0, node_zero\<lparr>nd_lock := m, nd_local := the local, nd_initialized := True\<rparr>, s1)))"

definition linkg_node_deinit :: "linkg_node_context \<Rightarrow> path_store \<Rightarrow> int \<times> linkg_node_context \<times> path_store" where
  "linkg_node_deinit c s =
     (if \<not> nd_initialized c then (0, c, s)
      else if linkg_node_lock c \<noteq> 0 then (linkg_node_lock c, c, s)
      else if nd_peer_count c \<noteq> 0 then (linkg_node_unlock c (- EBUSY), c, s)
      else if \<exists>i\<in>set [0..<LINKG_NODE_PEER_MAX]. ns_retiring (nd_peers c ! i) \<or> \<not> linkg_node_paths_empty_locked i s
      then (linkg_node_unlock c (- EBUSY), c, s)
      else
        (let (ret, s1) = node_deinit_paths node_path_addresses s in
         if ret \<noteq> 0 then (linkg_node_unlock c ret, c, s1)
         else
           (let c1 = c\<lparr>nd_initialized := False\<rparr> in
            if linkg_node_unlock c 0 \<noteq> 0 then (linkg_node_unlock c 0, c1, s1)
            else if mx_destroy (nd_lock c) \<noteq> 0 then (- mx_destroy (nd_lock c), c1, s1)
            else (0, node_zero, node_clear_paths s1))))"

section \<open>Queries\<close>

text \<open>A query answers an error code that is not 0, or what it wrote.\<close>

definition node_answer :: "linkg_node_context \<Rightarrow> int + 'a \<Rightarrow> int + 'a" where
  "node_answer c r =
     (case r of
        Inl ret \<Rightarrow> Inl (linkg_node_unlock c ret)
      | Inr v \<Rightarrow> if linkg_node_unlock c 0 \<noteq> 0 then Inl (linkg_node_unlock c 0) else Inr v)"

definition linkg_node_get_local :: "linkg_node_context \<Rightarrow> linkg_node_info option" where
  "linkg_node_get_local c = (if nd_initialized c then Some (nd_local c) else None)"

definition linkg_node_get_peer_count :: "linkg_node_context \<Rightarrow> int + u32" where
  "linkg_node_get_peer_count c =
     (if \<not> nd_initialized c then Inl (- ENODEV)
      else if linkg_node_lock c \<noteq> 0 then Inl (linkg_node_lock c)
      else node_answer c (Inr (nd_peer_count c)))"

definition linkg_node_get_peer_snapshot :: "u8 \<Rightarrow> linkg_node_context \<Rightarrow> int + linkg_node_peer_snapshot" where
  "linkg_node_get_peer_snapshot node_id c =
     (if \<not> nd_initialized c then Inl (- ENODEV)
      else if \<not> linkg_node_id_valid node_id then Inl (- EINVAL)
      else if linkg_node_lock c \<noteq> 0 then Inl (linkg_node_lock c)
      else node_answer c
        (case linkg_node_find_peer_locked node_id c of
           None \<Rightarrow> Inl (- ENOENT)
         | Some i \<Rightarrow>
            (let p = nd_peers c ! i in
             if \<not> ns_valid p \<or> ns_retiring p then Inl (- ENOENT)
             else Inr \<lparr>np_info = ns_info p, np_path_count = ns_path_count p\<rparr>)))"

text \<open>The endpoints of the peers in the order of the slots, at most one for each.\<close>

fun node_endpoints_loop ::
    "u32 \<Rightarrow> nat \<Rightarrow> linkg_node_context \<Rightarrow> path_store \<Rightarrow> nat list \<Rightarrow> linkg_path_endpoint list \<Rightarrow> int + linkg_path_endpoint list" where
  "node_endpoints_loop link_id capacity c s [] endpoints = Inr endpoints"
| "node_endpoints_loop link_id capacity c s (i # is) endpoints =
     (if \<not> ns_valid (nd_peers c ! i) \<or> ns_retiring (nd_peers c ! i)
      then node_endpoints_loop link_id capacity c s is endpoints
      else case List.find (\<lambda>j. linkg_path_is_active (Some (slot_path i j)) s \<and> pt_link_id (path_at s (slot_path i j)) = link_id)
                  [0..<LINKG_NODE_PATH_MAX] of
             None \<Rightarrow> node_endpoints_loop link_id capacity c s is endpoints
           | Some j \<Rightarrow>
              (if length endpoints \<ge> capacity then Inl (- ENOSPC)
               else node_endpoints_loop link_id capacity c s is (endpoints @ [pt_next_hop (path_at s (slot_path i j))])))"

definition linkg_node_get_path_endpoints ::
    "u32 \<Rightarrow> u32 \<Rightarrow> linkg_node_context \<Rightarrow> path_store \<Rightarrow> int + linkg_path_endpoint list" where
  "linkg_node_get_path_endpoints link_id capacity c s =
     (if \<not> nd_initialized c then Inl (- ENODEV)
      else if link_id = LINKG_LINK_ID_INVALID then Inl (- EINVAL)
      else if capacity = 0 then Inl (- EINVAL)
      else if linkg_node_lock c \<noteq> 0 then Inl (linkg_node_lock c)
      else node_answer c (node_endpoints_loop link_id (unat capacity) c s [0..<LINKG_NODE_PEER_MAX] []))"

section \<open>Peers\<close>

definition linkg_node_register_peer :: "linkg_node_info option \<Rightarrow> linkg_node_context \<Rightarrow> int \<times> linkg_node_context" where
  "linkg_node_register_peer info c =
     (if \<not> nd_initialized c then (- ENODEV, c)
      else if \<not> linkg_node_info_valid info then (- EINVAL, c)
      else if ni_node_id (the info) = ni_node_id (nd_local c) then (- EINVAL, c)
      else if linkg_node_lock c \<noteq> 0 then (linkg_node_lock c, c)
      else
        (let n = the info;
             (ret, c1) =
               (if \<not> linkg_node_peer_role_valid (ni_role (nd_local c)) (ni_role n) then (- EINVAL, c)
                else
                  (let slot = linkg_node_find_peer_locked (ni_node_id n) c in
                   if slot \<noteq> None \<and> ns_retiring (nd_peers c ! the slot) then (- EBUSY, c)
                   else if slot \<noteq> None \<and> ns_valid (nd_peers c ! the slot)
                   then
                     (if ni_role (ns_info (nd_peers c ! the slot)) \<noteq> ni_role n then (- EINVAL, c)
                      else (0, upd_slot (the slot) (\<lambda>p. p\<lparr>ns_info := n\<rparr>) c))
                   else if ni_role (nd_local c) = LINKG_DEVICE_ROLE_STA \<and> nd_peer_count c \<noteq> 0 then (- ENOSPC, c)
                   else case linkg_node_find_unused_peer_locked c of
                          None \<Rightarrow> (- ENOSPC, c)
                        | Some i \<Rightarrow>
                           (0, (upd_slot i (\<lambda>p. p\<lparr>ns_info := n, ns_path_count := 0, ns_valid := True, ns_retiring := False\<rparr>) c)
                                 \<lparr>nd_peer_count := nd_peer_count c + 1\<rparr>)))
         in (linkg_node_unlock c ret, c1)))"

text \<open>Retiring the paths of a slot in order: the first error, the retired paths and the store.\<close>

fun node_retire_loop :: "nat list \<Rightarrow> path_store \<Rightarrow> int \<times> nat option list \<times> path_store" where
  "node_retire_loop [] s = (0, [], s)"
| "node_retire_loop (a # as) s =
     (if linkg_path_get_state (Some a) s = LINKG_PATH_STATE_EMPTY then node_retire_loop as s
      else
        (let (ret, retired, s1) = linkg_node_prepare_path_retire_locked a s;
             (first_error, rest, s2) = node_retire_loop as s1
         in (if ret \<noteq> 0 then ret else first_error, (if retired \<noteq> None then retired # rest else rest), s2)))"

text \<open>Up to the unlock: the code, the paths to be purged and released, and the state.\<close>

definition linkg_node_unregister_peer_begin ::
    "u8 \<Rightarrow> linkg_node_context \<Rightarrow> path_store \<Rightarrow> int \<times> nat option list \<times> linkg_node_context \<times> path_store" where
  "linkg_node_unregister_peer_begin node_id c s =
     (if \<not> nd_initialized c then (- ENODEV, [], c, s)
      else if \<not> linkg_node_id_valid node_id then (- EINVAL, [], c, s)
      else if linkg_node_lock c \<noteq> 0 then (linkg_node_lock c, [], c, s)
      else
        (case linkg_node_find_peer_locked node_id c of
           None \<Rightarrow> (linkg_node_unlock c (- ENOENT), [], c, s)
         | Some i \<Rightarrow>
            (if ns_retiring (nd_peers c ! i) then (linkg_node_unlock c 0, [], c, s)
             else if \<not> ns_valid (nd_peers c ! i) then (linkg_node_unlock c (- ENOENT), [], c, s)
             else
               (let c1 = upd_slot i (\<lambda>p. p\<lparr>ns_valid := False, ns_retiring := True\<rparr>) c;
                    c2 = (if nd_peer_count c1 > 0 then c1\<lparr>nd_peer_count := nd_peer_count c1 - 1\<rparr> else c1);
                    (first_error, retired, s1) = node_retire_loop (map (slot_path i) [0..<LINKG_NODE_PATH_MAX]) s;
                    c3 = upd_slot i (\<lambda>p. p\<lparr>ns_path_count := 0\<rparr>) c2;
                    c4 = linkg_node_complete_peer_release_locked i s1 c3
                in (linkg_node_unlock c first_error, retired, c4, s1)))))"

definition linkg_node_unregister_peer ::
    "path_purge \<Rightarrow> u8 \<Rightarrow> linkg_node_context \<Rightarrow> path_store \<Rightarrow> int \<times> linkg_node_context \<times> path_store" where
  "linkg_node_unregister_peer purge node_id c s =
     (let (ret, retired, c1, s1) = linkg_node_unregister_peer_begin node_id c s;
          (purge_ret, s2) = linkg_node_purge_retired_paths purge retired s1
      in (if ret \<noteq> 0 then ret else purge_ret, c1, s2))"

section \<open>Paths\<close>

definition linkg_node_register_path ::
    "u8 \<Rightarrow> u32 \<Rightarrow> linkg_path_endpoint option \<Rightarrow> linkg_node_context \<Rightarrow> path_store \<Rightarrow> int \<times> linkg_node_context \<times> path_store" where
  "linkg_node_register_path node_id link_id next_hop c s =
     (if \<not> nd_initialized c then (- ENODEV, c, s)
      else if \<not> linkg_node_id_valid node_id \<or> link_id = LINKG_LINK_ID_INVALID \<or> \<not> linkg_node_endpoint_valid next_hop
      then (- EINVAL, c, s)
      else if linkg_node_lock c \<noteq> 0 then (linkg_node_lock c, c, s)
      else
        (let activate = (\<lambda>i j s1.
               let (ret, s2) = linkg_path_activate (Some (slot_path i j)) link_id next_hop (Some path_released_callback) (Some i) s1
               in if ret \<noteq> 0 then (ret, c, s2)
                  else (0, upd_slot i (\<lambda>p. p\<lparr>ns_path_count := ns_path_count p + 1\<rparr>) c, s2));
             (ret, c1, s1) =
               (case linkg_node_find_peer_locked node_id c of
                  None \<Rightarrow> (- ENOENT, c, s)
                | Some i \<Rightarrow>
                   (if \<not> ns_valid (nd_peers c ! i) \<or> ns_retiring (nd_peers c ! i) then (- ENOENT, c, s)
                    else case linkg_node_find_path_index_locked i link_id s of
                      Some j \<Rightarrow>
                       (let state = linkg_path_get_state (Some (slot_path i j)) s in
                        if state = LINKG_PATH_STATE_ACTIVE
                        then
                          (if linkg_node_endpoint_equal (Some (pt_next_hop (path_at s (slot_path i j)))) next_hop then (0, c, s)
                           else (let (ret, s1) = linkg_path_update_endpoint (Some (slot_path i j)) next_hop s in (ret, c, s1)))
                        else if state = LINKG_PATH_STATE_RETIRED then (- EBUSY, c, s)
                        else if state = LINKG_PATH_STATE_RELEASED
                        then
                          (let (ret, s1) = linkg_path_reset (Some (slot_path i j)) s in
                           if ret \<noteq> 0 then (ret, c, s1) else activate i j s1)
                        else activate i j s)
                    | None \<Rightarrow>
                       (case linkg_node_find_unused_path_index_locked i s of
                          None \<Rightarrow> (- ENOSPC, c, s)
                        | Some j \<Rightarrow> activate i j s)))
         in (linkg_node_unlock c ret, c1, s1)))"

text \<open>Up to the unlock: the code, the path to be purged and released, and the state.\<close>

definition linkg_node_unregister_path_begin ::
    "u8 \<Rightarrow> u32 \<Rightarrow> linkg_node_context \<Rightarrow> path_store \<Rightarrow> int \<times> nat option \<times> linkg_node_context \<times> path_store" where
  "linkg_node_unregister_path_begin node_id link_id c s =
     (if \<not> nd_initialized c then (- ENODEV, None, c, s)
      else if \<not> linkg_node_id_valid node_id \<or> link_id = LINKG_LINK_ID_INVALID then (- EINVAL, None, c, s)
      else if linkg_node_lock c \<noteq> 0 then (linkg_node_lock c, None, c, s)
      else
        (let (ret, retired, c1, s1) =
           (case linkg_node_find_peer_locked node_id c of
              None \<Rightarrow> (- ENOENT, None, c, s)
            | Some i \<Rightarrow>
               (if \<not> ns_valid (nd_peers c ! i) \<or> ns_retiring (nd_peers c ! i) then (- ENOENT, None, c, s)
                else case linkg_node_find_path_index_locked i link_id s of
                  None \<Rightarrow> (- ENOENT, None, c, s)
                | Some j \<Rightarrow>
                   (let state = linkg_path_get_state (Some (slot_path i j)) s in
                    if state = LINKG_PATH_STATE_RETIRED then (0, None, c, s)
                    else if state = LINKG_PATH_STATE_RELEASED
                    then (let (ret, s1) = linkg_path_reset (Some (slot_path i j)) s in (ret, None, c, s1))
                    else if state \<noteq> LINKG_PATH_STATE_ACTIVE then (- ENOENT, None, c, s)
                    else
                      (let (ret, retired, s1) = linkg_node_prepare_path_retire_locked (slot_path i j) s in
                       if ret \<noteq> 0 then (ret, retired, c, s1)
                       else (0, retired,
                             (if ns_path_count (nd_peers c ! i) > 0
                              then upd_slot i (\<lambda>p. p\<lparr>ns_path_count := ns_path_count p - 1\<rparr>) c else c), s1)))))
         in (linkg_node_unlock c ret, retired, c1, s1)))"

definition linkg_node_unregister_path ::
    "path_purge \<Rightarrow> u8 \<Rightarrow> u32 \<Rightarrow> linkg_node_context \<Rightarrow> path_store \<Rightarrow> int \<times> linkg_node_context \<times> path_store" where
  "linkg_node_unregister_path purge node_id link_id c s =
     (let (ret, retired, c1, s1) = linkg_node_unregister_path_begin node_id link_id c s;
          (purge_ret, s2) = linkg_node_purge_retired_paths purge [retired] s1
      in (if ret \<noteq> 0 then ret else purge_ret, c1, s2))"

text \<open>The code, the path and its endpoint, and the paths.\<close>

definition linkg_node_acquire_path_batch ::
    "u8 \<Rightarrow> u32 \<Rightarrow> u32 \<Rightarrow> linkg_node_context \<Rightarrow> path_store \<Rightarrow> int \<times> (nat \<times> linkg_path_endpoint) option \<times> path_store" where
  "linkg_node_acquire_path_batch node_id link_id reference_count c s =
     (if \<not> nd_initialized c then (- ENODEV, None, s)
      else if \<not> linkg_node_id_valid node_id \<or> link_id = LINKG_LINK_ID_INVALID \<or> reference_count = 0 then (- EINVAL, None, s)
      else if linkg_node_lock c \<noteq> 0 then (linkg_node_lock c, None, s)
      else
        (let (ret, path, s1) =
           (case linkg_node_find_peer_locked node_id c of
              None \<Rightarrow> (- ENOENT, None, s)
            | Some i \<Rightarrow>
               (if \<not> ns_valid (nd_peers c ! i) \<or> ns_retiring (nd_peers c ! i) then (- ENOENT, None, s)
                else case linkg_node_find_path_index_locked i link_id s of
                  None \<Rightarrow> (- ENOENT, None, s)
                | Some j \<Rightarrow>
                   (let node_path = slot_path i j in
                    if \<not> linkg_path_is_active (Some node_path) s then (- ENODEV, None, s)
                    else
                      (let (ret, s1) = linkg_path_acquire_batch (Some node_path) reference_count s in
                       (ret, (if ret = 0 then Some (node_path, pt_next_hop (path_at s1 node_path)) else None), s1)))))
         in (linkg_node_unlock c ret, path, s1)))"

definition linkg_node_acquire_path ::
    "u8 \<Rightarrow> u32 \<Rightarrow> linkg_node_context \<Rightarrow> path_store \<Rightarrow> int \<times> (nat \<times> linkg_path_endpoint) option \<times> path_store" where
  "linkg_node_acquire_path node_id link_id c s = linkg_node_acquire_path_batch node_id link_id 1 c s"

section \<open>Received traffic\<close>

definition linkg_node_account_path_rx_locked ::
    "u32 \<Rightarrow> linkg_path_endpoint \<Rightarrow> u64 \<Rightarrow> u64 \<Rightarrow> linkg_node_context \<Rightarrow> path_store \<Rightarrow> int \<times> u8 option \<times> path_store" where
  "linkg_node_account_path_rx_locked link_id source bytes packets c s =
     (case List.find (\<lambda>a. let p = nd_peers c ! (a div LINKG_NODE_PATH_MAX) in
              \<not> (\<not> ns_valid p \<or> ns_retiring p) \<and> linkg_path_is_active (Some a) s \<and>
              \<not> (pt_link_id (path_at s a) \<noteq> link_id \<or> \<not> linkg_node_endpoint_equal (Some (pt_next_hop (path_at s a))) (Some source)))
            node_path_addresses of
        None \<Rightarrow> (- ENOENT, None, s)
      | Some a \<Rightarrow>
          (0, Some (ni_node_id (ns_info (nd_peers c ! (a div LINKG_NODE_PATH_MAX)))),
           linkg_path_record_rx (Some a) bytes packets s))"

fun node_account_loop ::
    "u32 \<Rightarrow> linkg_node_path_rx_item list \<Rightarrow> linkg_node_context \<Rightarrow> path_store \<Rightarrow> linkg_node_path_rx_item list \<times> path_store" where
  "node_account_loop link_id [] c s = ([], s)"
| "node_account_loop link_id (item # items) c s =
     (if ri_result item \<noteq> - EINPROGRESS
      then (let (rest, s1) = node_account_loop link_id items c s in (item # rest, s1))
      else
        (let (ret, node_id, s1) = linkg_node_account_path_rx_locked link_id (ri_source item) (ri_bytes item) (ri_packets item) c s;
             (rest, s2) = node_account_loop link_id items c s1
         in (item\<lparr>ri_result := ret, ri_peer_node_id := (case node_id of None \<Rightarrow> ri_peer_node_id item | Some n \<Rightarrow> n)\<rparr> # rest, s2)))"

definition node_account_prepare :: "linkg_node_path_rx_item \<Rightarrow> linkg_node_path_rx_item" where
  "node_account_prepare item = item\<lparr>ri_peer_node_id := LINKG_RESOURCE_NODE_ID_INVALID,
     ri_result := (if ri_packets item = 0 \<or> \<not> linkg_node_endpoint_valid (Some (ri_source item)) then - EINVAL else - EINPROGRESS)\<rparr>"

definition linkg_node_account_path_rx_batch ::
    "u32 \<Rightarrow> linkg_node_path_rx_item list option \<Rightarrow> linkg_node_context \<Rightarrow> path_store \<Rightarrow>
     int \<times> linkg_node_path_rx_item list option \<times> path_store" where
  "linkg_node_account_path_rx_batch link_id items c s =
     (if \<not> nd_initialized c then (- ENODEV, items, s)
      else if link_id = LINKG_LINK_ID_INVALID \<or> items = None \<or> items = Some [] then (- EINVAL, items, s)
      else
        (let its = map node_account_prepare (the items) in
         if linkg_node_lock c \<noteq> 0 then (linkg_node_lock c, Some its, s)
         else (let (its', s1) = node_account_loop link_id its c s in (linkg_node_unlock c 0, Some its', s1))))"

definition linkg_node_account_path_rx ::
    "u32 \<Rightarrow> linkg_path_endpoint option \<Rightarrow> u64 \<Rightarrow> u64 \<Rightarrow> linkg_node_context \<Rightarrow> path_store \<Rightarrow> int \<times> u8 option \<times> path_store" where
  "linkg_node_account_path_rx link_id source bytes packets c s =
     (case source of
        None \<Rightarrow> (- EINVAL, None, s)
      | Some e \<Rightarrow>
         (let item = \<lparr>ri_source = e, ri_bytes = bytes, ri_packets = packets, ri_peer_node_id = 0, ri_result = 0\<rparr>;
              (ret, items, s1) = linkg_node_account_path_rx_batch link_id (Some [item]) c s
          in if ret \<noteq> 0 then (ret, Some LINKG_RESOURCE_NODE_ID_INVALID, s1)
             else
               (let item' = hd (the items) in
                (ri_result item', Some (if ri_result item' = 0 then ri_peer_node_id item' else LINKG_RESOURCE_NODE_ID_INVALID), s1))))"

end
