(* ===== verification/Node_Table.thy ===== *)
theory Node_Table
  imports Node
begin

text \<open>
  The invariant of the node table of \<open>src/core/node/linkg_node.c\<close>. A history of the module is a sequence of steps, each
  one section of an operation under the lock of the module, the release of a reference by its holder or a run of
  the callback; this theory shows for every step that it keeps the invariant and what it leaves to the holders of paths.
\<close>

section \<open>The table as its threads see it\<close>

text \<open>
  A history of the module: its table, the store of its paths and the references its users hold, by the address of the
  path. Every step is one section under the lock of the module, the release of one reference, or one call of the
  callback, which is due from the moment the store logs it and runs at any later time. A thread that unregisters
  holds the reference that keeps a path from being released until it has purged the queues.
\<close>

record node_run =
  nr_node :: linkg_node_context
  nr_paths :: path_store
  nr_held :: "nat multiset"

text \<open>There is room for n more references on every path.\<close>

definition node_refs_room :: "nat \<Rightarrow> path_store \<Rightarrow> bool" where
  "node_refs_room n s \<longleftrightarrow> (\<forall>a<32. path_refs s a + n < 2 ^ 32)"

inductive node_step :: "node_run \<Rightarrow> node_run \<Rightarrow> bool" where
  node_register_peer: "node_step x (x\<lparr>nr_node := snd (linkg_node_register_peer info (nr_node x))\<rparr>)"
| node_register_path: "linkg_node_register_path node_id link_id next_hop (nr_node x) (nr_paths x) = (ret, c, s) \<Longrightarrow>
    node_step x (x\<lparr>nr_node := c, nr_paths := s\<rparr>)"
| node_unregister_peer: "node_refs_room 1 (nr_paths x) \<Longrightarrow>
    linkg_node_unregister_peer_begin node_id (nr_node x) (nr_paths x) = (ret, retired, c, s) \<Longrightarrow>
    node_step x (x\<lparr>nr_node := c, nr_paths := s, nr_held := nr_held x + mset (map the retired)\<rparr>)"
| node_unregister_path: "node_refs_room 1 (nr_paths x) \<Longrightarrow>
    linkg_node_unregister_path_begin node_id link_id (nr_node x) (nr_paths x) = (ret, retired, c, s) \<Longrightarrow>
    node_step x (x\<lparr>nr_node := c, nr_paths := s,
      nr_held := nr_held x + (case retired of None \<Rightarrow> {#} | Some a \<Rightarrow> {#a#})\<rparr>)"
| node_acquire: "node_refs_room (unat n) (nr_paths x) \<Longrightarrow>
    linkg_node_acquire_path_batch node_id link_id n (nr_node x) (nr_paths x) = (ret, path, s) \<Longrightarrow>
    node_step x (x\<lparr>nr_paths := s,
      nr_held := nr_held x + (case path of None \<Rightarrow> {#} | Some (a, _) \<Rightarrow> replicate_mset (unat n) a)\<rparr>)"
| node_account: "linkg_node_account_path_rx_batch link_id items (nr_node x) (nr_paths x) = (ret, items', s) \<Longrightarrow>
    node_step x (x\<lparr>nr_paths := s\<rparr>)"
| node_release: "a \<in># nr_held x \<Longrightarrow>
    node_step x (x\<lparr>nr_paths := linkg_path_release (Some a) (nr_paths x), nr_held := nr_held x - {#a#}\<rparr>)"
| node_callback: "(a, f, i) \<in> set (released_log (nr_paths x)) \<Longrightarrow>
    linkg_node_path_released (Some a) i (nr_node x)
      ((nr_paths x)\<lparr>released_log := remove1 (a, f, i) (released_log (nr_paths x))\<rparr>) = (c, s) \<Longrightarrow>
    node_step x (x\<lparr>nr_node := c, nr_paths := s\<rparr>)"

section \<open>Invariant\<close>

abbreviation path_st :: "path_store \<Rightarrow> nat \<Rightarrow> linkg_path_state" where
  "path_st s a \<equiv> pt_state (path_at s a)"

definition occupied :: "linkg_node_peer_slot \<Rightarrow> bool" where
  "occupied p \<longleftrightarrow> ns_valid p \<or> ns_retiring p"

definition node_path_inv :: "linkg_node_context \<Rightarrow> path_store \<Rightarrow> nat multiset \<Rightarrow> nat \<Rightarrow> bool" where
  "node_path_inv c s held a \<longleftrightarrow>
     (let p = path_at s a; i = a div 2; slot = nd_peers c ! i in
      path_ok p \<and> pt_initialized p \<and> unat (pt_reference_count p) = Multiset.count held a \<and>
      (pt_state p \<noteq> LINKG_PATH_STATE_EMPTY \<longrightarrow>
         pt_released p = Some path_released_callback \<and> pt_released_user_data p = Some i \<and> occupied slot) \<and>
      (pt_state p = LINKG_PATH_STATE_ACTIVE \<longrightarrow> ns_valid slot) \<and>
      (pt_state p = LINKG_PATH_STATE_RELEASED \<longrightarrow> (a, path_released_callback, Some i) \<in> set (released_log s)))"

definition node_slot_inv :: "linkg_node_context \<Rightarrow> path_store \<Rightarrow> nat \<Rightarrow> bool" where
  "node_slot_inv c s i \<longleftrightarrow>
     (let slot = nd_peers c ! i; active = (\<lambda>a. path_st s a = LINKG_PATH_STATE_ACTIVE); empty = (\<lambda>a. path_st s a = LINKG_PATH_STATE_EMPTY) in
      \<not> (ns_valid slot \<and> ns_retiring slot) \<and>
      (ns_retiring slot \<longrightarrow> \<not> empty (2 * i) \<or> \<not> empty (2 * i + 1)) \<and>
      ns_path_count slot = of_bool (active (2 * i)) + of_bool (active (2 * i + 1)) \<and>
      (\<not> empty (2 * i) \<longrightarrow> \<not> empty (2 * i + 1) \<longrightarrow> pt_link_id (path_at s (2 * i)) \<noteq> pt_link_id (path_at s (2 * i + 1))))"

definition node_table_inv :: "linkg_node_context \<Rightarrow> bool" where
  "node_table_inv c \<longleftrightarrow>
     nd_initialized c \<and> mutex_ok (nd_lock c) \<and> length (nd_peers c) = 16 \<and> linkg_node_info_valid (Some (nd_local c)) \<and>
     (\<forall>i<16. occupied (nd_peers c ! i) \<longrightarrow>
        (let info = ns_info (nd_peers c ! i) in
         linkg_node_info_valid (Some info) \<and> ni_node_id info \<noteq> ni_node_id (nd_local c) \<and>
         linkg_node_peer_role_valid (ni_role (nd_local c)) (ni_role info) \<and>
         (\<forall>j<16. occupied (nd_peers c ! j) \<longrightarrow> ni_node_id (ns_info (nd_peers c ! j)) = ni_node_id info \<longrightarrow> j = i))) \<and>
     unat (nd_peer_count c) = length (filter ns_valid (nd_peers c)) \<and>
     (ni_role (nd_local c) = LINKG_DEVICE_ROLE_STA \<longrightarrow> nd_peer_count c \<le> 1)"

definition node_inv :: "node_run \<Rightarrow> bool" where
  "node_inv x \<longleftrightarrow>
     node_table_inv (nr_node x) \<and>
     (\<forall>a<32. node_path_inv (nr_node x) (nr_paths x) (nr_held x) a) \<and>
     (\<forall>i<16. node_slot_inv (nr_node x) (nr_paths x) i) \<and>
     (\<forall>a\<in>#nr_held x. a < 32) \<and>
     (\<forall>(a, f, i)\<in>set (released_log (nr_paths x)). a < 32 \<and> f = path_released_callback \<and> i = Some (a div 2))"

section \<open>Effects\<close>

lemma slot_path_simps [simp]:
  "slot_path i 0 = 2 * i" "slot_path i (Suc 0) = 2 * i + 1"
  "[0..<LINKG_NODE_PATH_MAX] = [0, Suc 0]"
  by (simp_all add: slot_path_def upt_rec)

lemma upd_slot_simps [simp]:
  "nd_lock (upd_slot i f c) = nd_lock c" "nd_local (upd_slot i f c) = nd_local c"
  "nd_peer_count (upd_slot i f c) = nd_peer_count c" "nd_initialized (upd_slot i f c) = nd_initialized c"
  "nd_peers (upd_slot i f c) = (nd_peers c)[i := f (nd_peers c ! i)]"
  by (simp_all add: upd_slot_def)

lemma lock_ok [simp]:
  "mutex_ok (nd_lock c) \<Longrightarrow> linkg_node_lock c = 0"
  "mutex_ok (nd_lock c) \<Longrightarrow> linkg_node_unlock c r = r"
  by (simp_all add: linkg_node_lock_def linkg_node_unlock_def)

lemma state_init: "pt_initialized (path_at s a) \<Longrightarrow> linkg_path_get_state (Some a) s = path_st s a"
  by (simp add: linkg_path_get_state_def path_ready_def)

lemma prepare_retire_active:
  assumes "path_ok (path_at s a)" "pt_initialized (path_at s a)" "path_st s a = LINKG_PATH_STATE_ACTIVE"
    and "path_refs s a + 1 < 2 ^ 32"
  shows "linkg_node_prepare_path_retire_locked a s =
    (0, Some a, upd_path a (\<lambda>p. p\<lparr>pt_reference_count := pt_reference_count p + 1, pt_state := LINKG_PATH_STATE_RETIRED\<rparr>) s)"
proof -
  have nz: "pt_reference_count (path_at s a) + 1 \<noteq> 0"
    using assms(2,4) unat_inc [of "pt_reference_count (path_at s a)"]
    by (auto simp: path_refs_def linkg_path_get_reference_count_def path_ready_def)
  have acq: "linkg_path_acquire (Some a) s = (0, upd_path a (\<lambda>p. p\<lparr>pt_reference_count := pt_reference_count p + 1\<rparr>) s)"
    using assms(2,3) acquire_batch_active [of a s 1]
    by (simp add: linkg_path_acquire_def linkg_path_is_active_def state_init)
  show ?thesis
    using assms(2,3) nz
    by (simp add: linkg_node_prepare_path_retire_locked_def state_init acq linkg_path_retire_def path_ready_def Let_def)
qed

lemma reset_released:
  assumes "path_ok (path_at s a)" "pt_initialized (path_at s a)" "path_st s a = LINKG_PATH_STATE_RELEASED"
  shows "linkg_path_reset (Some a) s =
    (0, upd_path a (\<lambda>p. p\<lparr>pt_stats := stats_zero, pt_link_id := 0, pt_next_hop := endpoint_zero, pt_released := None,
          pt_released_user_data := None, pt_state := LINKG_PATH_STATE_EMPTY\<rparr>) s)"
  using assms
  by (auto simp: linkg_path_reset_def linkg_path_reset_stats_def path_ready_def path_ok_def Let_def linkg_path_stats_reset_def)

lemma activate_empty:
  assumes "path_ok (path_at s a)" "pt_initialized (path_at s a)" "path_st s a = LINKG_PATH_STATE_EMPTY"
    and "link_id \<noteq> 0" "next_hop = Some e"
  shows "linkg_path_activate (Some a) link_id next_hop f u s =
    (0, upd_path a (\<lambda>p. p\<lparr>pt_stats := stats_zero, pt_link_id := link_id, pt_next_hop := e, pt_released := f,
          pt_released_user_data := u, pt_state := LINKG_PATH_STATE_ACTIVE\<rparr>) s)"
  using assms
  by (auto simp: linkg_path_activate_def linkg_path_reset_stats_def path_ready_def path_ok_def Let_def linkg_path_stats_reset_def)

section \<open>Changes of one slot\<close>

text \<open>The next state keeps the invariant and, for whoever holds a path, the link and the node it leads to.\<close>

definition node_next :: "node_run \<Rightarrow> node_run \<Rightarrow> bool" where
  "node_next x y \<longleftrightarrow> node_inv y \<and> (\<forall>a. a \<in># nr_held x \<longrightarrow>
     pt_link_id (path_at (nr_paths y) a) = pt_link_id (path_at (nr_paths x) a) \<and>
     ni_node_id (ns_info (nd_peers (nr_node y) ! (a div 2))) = ni_node_id (ns_info (nd_peers (nr_node x) ! (a div 2))))"

lemma node_next_refl: "node_inv x \<Longrightarrow> node_next x x"
  by (simp add: node_next_def)

lemma node_next_trans: "node_next x y \<Longrightarrow> node_next y z \<Longrightarrow> nr_held y = nr_held x \<Longrightarrow> node_next x z"
  by (simp add: node_next_def)

lemma node_next_slot:
  assumes inv: "node_inv x" and i: "i < 16" and t: "node_table_inv (nr_node y)"
    and others: "\<And>j. j \<noteq> i \<Longrightarrow> nd_peers (nr_node y) ! j = nd_peers (nr_node x) ! j"
    and paths: "\<And>a. a div 2 \<noteq> i \<Longrightarrow> path_at (nr_paths y) a = path_at (nr_paths x) a"
    and held: "\<And>a. a div 2 \<noteq> i \<Longrightarrow> Multiset.count (nr_held y) a = Multiset.count (nr_held x) a"
    and log: "\<And>e. e \<in> set (released_log (nr_paths y)) \<Longrightarrow> e \<in> set (released_log (nr_paths x)) \<or>
      (\<exists>a<32. e = (a, path_released_callback, Some (a div 2)))"
    and keep: "\<And>a f u. a div 2 \<noteq> i \<Longrightarrow> (a, f, u) \<in> set (released_log (nr_paths x)) \<Longrightarrow> (a, f, u) \<in> set (released_log (nr_paths y))"
    and p: "node_path_inv (nr_node y) (nr_paths y) (nr_held y) (2 * i)" "node_path_inv (nr_node y) (nr_paths y) (nr_held y) (2 * i + 1)"
    and s: "node_slot_inv (nr_node y) (nr_paths y) i"
    and kept: "\<And>a. a \<in># nr_held x \<Longrightarrow> a div 2 = i \<Longrightarrow> pt_link_id (path_at (nr_paths y) a) = pt_link_id (path_at (nr_paths x) a) \<and>
      ni_node_id (ns_info (nd_peers (nr_node y) ! i)) = ni_node_id (ns_info (nd_peers (nr_node x) ! i))"
  shows "node_next x y"
proof -
  have "node_path_inv (nr_node y) (nr_paths y) (nr_held y) a" if "a < 32" for a
  proof (cases "a div 2 = i")
    case True
    then have "a = 2 * i \<or> a = 2 * i + 1" by linarith
    then show ?thesis using p by auto
  next
    case False
    have "node_path_inv (nr_node x) (nr_paths x) (nr_held x) a" using inv that by (simp add: node_inv_def)
    then show ?thesis
      using False others [OF False] paths [OF False] held [OF False] keep [OF False]
      by (auto simp: node_path_inv_def Let_def)
  qed
  moreover have "node_slot_inv (nr_node y) (nr_paths y) j" if "j < 16" for j
  proof (cases "j = i")
    case False
    then have "path_at (nr_paths y) (2 * j) = path_at (nr_paths x) (2 * j)"
      "path_at (nr_paths y) (2 * j + 1) = path_at (nr_paths x) (2 * j + 1)" by (auto intro!: paths)
    then show ?thesis using inv that others [OF False] by (simp add: node_inv_def node_slot_inv_def Let_def)
  qed (use s in simp)
  moreover have "a < 32" if "a \<in># nr_held y" for a
  proof (cases "a div 2 = i")
    case False
    then show ?thesis using held [OF False] that inv by (auto simp: node_inv_def simp flip: count_greater_zero_iff)
  qed (use i in linarith)
  ultimately have "node_inv y" using t log inv by (fastforce simp: node_inv_def)
  moreover have "pt_link_id (path_at (nr_paths y) a) = pt_link_id (path_at (nr_paths x) a) \<and>
     ni_node_id (ns_info (nd_peers (nr_node y) ! (a div 2))) = ni_node_id (ns_info (nd_peers (nr_node x) ! (a div 2)))"
    if "a \<in># nr_held x" for a
    using kept [OF that] others [of "a div 2"] paths [of a] by (cases "a div 2 = i") simp_all
  ultimately show ?thesis by (simp add: node_next_def)
qed

lemma node_invD:
  assumes "node_inv x"
  shows "nd_initialized (nr_node x)" "mutex_ok (nd_lock (nr_node x))" "length (nd_peers (nr_node x)) = 16"
    and "\<And>a. a < 32 \<Longrightarrow> node_path_inv (nr_node x) (nr_paths x) (nr_held x) a"
    and "\<And>a. a < 32 \<Longrightarrow> path_ok (path_at (nr_paths x) a)" "\<And>a. a < 32 \<Longrightarrow> pt_initialized (path_at (nr_paths x) a)"
    and "\<And>i. i < 16 \<Longrightarrow> node_slot_inv (nr_node x) (nr_paths x) i" "node_table_inv (nr_node x)"
    and "\<And>a. a < 32 \<Longrightarrow> linkg_path_get_state (Some a) (nr_paths x) = path_st (nr_paths x) a"
    and "\<And>a. a < 32 \<Longrightarrow> path_refs (nr_paths x) a = Multiset.count (nr_held x) a"
    and "\<And>a f i. (a, f, i) \<in> set (released_log (nr_paths x)) \<Longrightarrow> a < 32 \<and> f = path_released_callback \<and> i = Some (a div 2)"
proof -
  show "node_path_inv (nr_node x) (nr_paths x) (nr_held x) a" if "a < 32" for a
    using assms that by (simp add: node_inv_def)
  then show "path_ok (path_at (nr_paths x) a)" "pt_initialized (path_at (nr_paths x) a)"
    "linkg_path_get_state (Some a) (nr_paths x) = path_st (nr_paths x) a"
    "path_refs (nr_paths x) a = Multiset.count (nr_held x) a" if "a < 32" for a
    using that by (auto simp: node_path_inv_def Let_def state_init path_refs_def linkg_path_get_reference_count_def path_ready_def)
qed (use assms in \<open>auto simp: node_inv_def node_table_inv_def\<close>)

text \<open>A change of \<open>path_count\<close> alone leaves the table as it is.\<close>

lemma filter_length_update:
  assumes "i < length ps"
  shows "length (filter P (ps[i := p])) + of_bool (P (ps ! i)) = length (filter P ps) + of_bool (P p)"
  using assms
proof (induction ps arbitrary: i)
  case (Cons q ps)
  then show ?case by (cases i) auto
qed simp

lemma nth_update_keep: "g (f (xs ! i)) = g (xs ! i) \<Longrightarrow> g (xs[i := f (xs ! i)] ! j) = g (xs ! j)"
  by (cases "j = i"; cases "i < length xs") (simp_all add: list_update_beyond)

text \<open>An idle path has no holder.\<close>

lemma idle_not_held:
  assumes "node_inv x" "a < 32" "path_st (nr_paths x) a = LINKG_PATH_STATE_EMPTY \<or> path_st (nr_paths x) a = LINKG_PATH_STATE_RELEASED"
  shows "a \<notin># nr_held x"
proof -
  have "pt_reference_count (path_at (nr_paths x) a) = 0"
    using node_invD(5,6) [OF assms(1,2)] assms(3) by (auto simp: path_ok_def)
  then have "Multiset.count (nr_held x) a = 0"
    using node_invD(4) [OF assms(1,2)] by (simp add: node_path_inv_def Let_def)
  then show ?thesis by (simp only: count_eq_zero_iff not_False_eq_True)
qed

lemma table_inv_path_count:
  assumes "node_table_inv c"
  shows "node_table_inv (upd_slot i (ns_path_count_update f) c)"
proof (cases "i < 16")
  case True
  let ?ps = "nd_peers c" and ?ps' = "(nd_peers c)[i := ns_path_count_update f (nd_peers c ! i)]"
  have len: "length ?ps = 16" using assms by (simp add: node_table_inv_def)
  have same: "ns_valid (?ps' ! j) = ns_valid (?ps ! j)" "ns_info (?ps' ! j) = ns_info (?ps ! j)"
    "occupied (?ps' ! j) = occupied (?ps ! j)" for j
    by (simp_all add: nth_update_keep occupied_def)
  have "length (filter ns_valid ?ps') = length (filter ns_valid ?ps)"
    using filter_length_update [of i ?ps ns_valid "ns_path_count_update f (?ps ! i)"] True len by simp
  then show ?thesis using assms by (simp add: node_table_inv_def same Let_def)
next
  case False
  then show ?thesis using assms by (simp add: upd_slot_def list_update_beyond node_table_inv_def)
qed

lemma upd_slot_same: "upd_slot i (ns_path_count_update (\<lambda>n. n)) c = c"
proof -
  have id: "ns_path_count_update (\<lambda>n. n) p = p" for p :: linkg_node_peer_slot by (cases p) simp
  show ?thesis by (cases c) (simp add: upd_slot_def id)
qed

text \<open>What the invariant of a slot reads of its paths.\<close>

lemma slot_inv_cong:
  assumes "node_slot_inv c s i"
    and "\<And>a. a div 2 = i \<Longrightarrow> (path_st s' a = LINKG_PATH_STATE_EMPTY) = (path_st s a = LINKG_PATH_STATE_EMPTY) \<and>
      (path_st s' a = LINKG_PATH_STATE_ACTIVE) = (path_st s a = LINKG_PATH_STATE_ACTIVE) \<and> pt_link_id (path_at s' a) = pt_link_id (path_at s a)"
  shows "node_slot_inv c s' i"
  using assms(1) assms(2) [of "2 * i"] assms(2) [of "2 * i + 1"] by (simp add: node_slot_inv_def Let_def)

lemma node_next_path:
  assumes inv: "node_inv x" and a: "a < 32"
    and node: "nr_node y = upd_slot (a div 2) (ns_path_count_update f) (nr_node x)"
    and paths: "\<And>b. b \<noteq> a \<Longrightarrow> path_at (nr_paths y) b = path_at (nr_paths x) b"
    and held: "\<And>b. b \<noteq> a \<Longrightarrow> Multiset.count (nr_held y) b = Multiset.count (nr_held x) b"
    and log: "\<And>e. e \<in> set (released_log (nr_paths y)) \<Longrightarrow> e \<in> set (released_log (nr_paths x)) \<or>
      (\<exists>a<32. e = (a, path_released_callback, Some (a div 2)))"
    and keep: "\<And>b f u. b \<noteq> a \<Longrightarrow> (b, f, u) \<in> set (released_log (nr_paths x)) \<Longrightarrow> (b, f, u) \<in> set (released_log (nr_paths y))"
    and p: "node_path_inv (nr_node y) (nr_paths y) (nr_held y) a" and s: "node_slot_inv (nr_node y) (nr_paths y) (a div 2)"
    and kept: "a \<in># nr_held x \<Longrightarrow> pt_link_id (path_at (nr_paths y) a) = pt_link_id (path_at (nr_paths x) a)"
  shows "node_next x y"
proof (rule node_next_slot [OF inv])
  show i: "a div 2 < 16" using a by linarith
  show "node_table_inv (nr_node y)" unfolding node by (rule table_inv_path_count) (rule node_invD(8) [OF inv])
  have "node_path_inv (nr_node y) (nr_paths y) (nr_held y) b" if "b div 2 = a div 2" "b < 32" for b
  proof (cases "b = a")
    case False
    have "node_path_inv (nr_node x) (nr_paths x) (nr_held x) b" by (rule node_invD(4) [OF inv that(2)])
    then show ?thesis
      using paths [OF False] held [OF False] keep [OF False] that(1)
      by (auto simp: node_path_inv_def Let_def node nth_update_keep occupied_def)
  qed (use p in simp)
  then show "node_path_inv (nr_node y) (nr_paths y) (nr_held y) (2 * (a div 2))"
    "node_path_inv (nr_node y) (nr_paths y) (nr_held y) (2 * (a div 2) + 1)" using i by simp_all
  show "\<And>j. j \<noteq> a div 2 \<Longrightarrow> nd_peers (nr_node y) ! j = nd_peers (nr_node x) ! j" by (simp add: node)
  show "pt_link_id (path_at (nr_paths y) b) = pt_link_id (path_at (nr_paths x) b) \<and>
      ni_node_id (ns_info (nd_peers (nr_node y) ! (a div 2))) = ni_node_id (ns_info (nd_peers (nr_node x) ! (a div 2)))"
    if "b \<in># nr_held x" for b
    using that kept paths [of b] by (cases "b = a") (simp_all add: node nth_update_keep)
  show "\<And>b. b div 2 \<noteq> a div 2 \<Longrightarrow> path_at (nr_paths y) b = path_at (nr_paths x) b" by (rule paths) auto
  show "\<And>b. b div 2 \<noteq> a div 2 \<Longrightarrow> Multiset.count (nr_held y) b = Multiset.count (nr_held x) b" by (rule held) auto
  show "\<And>b f u. b div 2 \<noteq> a div 2 \<Longrightarrow> (b, f, u) \<in> set (released_log (nr_paths x)) \<Longrightarrow> (b, f, u) \<in> set (released_log (nr_paths y))"
    by (rule keep) auto
qed (rule log s; assumption)+

section \<open>Every step keeps the invariant\<close>

lemma release_node_inv:
  assumes inv: "node_inv x" and a: "a \<in># nr_held x"
  shows "node_next x (x\<lparr>nr_paths := linkg_path_release (Some a) (nr_paths x), nr_held := nr_held x - {#a#}\<rparr>)"
proof -
  let ?s = "nr_paths x" let ?p = "path_at ?s a"
  have a32: "a < 32" using inv a by (simp add: node_inv_def)
  note pinv = node_invD(4) [OF inv a32]
  have init: "pt_initialized ?p" and cnt: "unat (pt_reference_count ?p) = Multiset.count (nr_held x) a"
    using pinv by (auto simp: node_path_inv_def Let_def)
  have nz: "pt_reference_count ?p \<noteq> 0" using cnt a by (metis count_eq_zero_iff unsigned_0)
  have busy: "pt_state ?p = LINKG_PATH_STATE_ACTIVE \<or> pt_state ?p = LINKG_PATH_STATE_RETIRED"
    using pinv nz by (cases "pt_state ?p") (auto simp: node_path_inv_def Let_def path_ok_def)
  have slot: "node_slot_inv (nr_node x) ?s (a div 2)" using node_invD(7) [OF inv] a32 by simp
  have dec: "unat (pt_reference_count ?p - 1) = Multiset.count (nr_held x - {#a#}) a"
    using cnt unat_dec [OF nz] by simp
  show ?thesis
  proof (cases "pt_reference_count ?p = 1 \<and> pt_state ?p = LINKG_PATH_STATE_RETIRED")
    case True
    have rel: "linkg_path_release (Some a) ?s =
      (upd_path a (\<lambda>_. ?p\<lparr>pt_reference_count := 0, pt_state := LINKG_PATH_STATE_RELEASED\<rparr>) ?s)
        \<lparr>released_log := released_log ?s @ [(a, path_released_callback, Some (a div 2))]\<rparr>"
      using True pinv unfolding release_effect [OF init] by (simp add: node_path_inv_def Let_def)
    show ?thesis unfolding rel
    proof (rule node_next_path [OF inv a32, where f = "\<lambda>n. n"], goal_cases)
      case 6 then show ?case using pinv True dec by (simp add: node_path_inv_def Let_def path_ok_def)
    next
      case 7 show ?case using True by (auto intro!: slot_inv_cong [OF slot] split: if_splits)
    qed (use a32 in \<open>auto simp: upd_slot_same\<close>)
  next
    case False
    have rel: "linkg_path_release (Some a) ?s = upd_path a (\<lambda>_. ?p\<lparr>pt_reference_count := pt_reference_count ?p - 1\<rparr>) ?s"
      using False nz unfolding release_effect [OF init] by (auto simp: Let_def)
    show ?thesis unfolding rel
    proof (rule node_next_path [OF inv a32, where f = "\<lambda>n. n"], goal_cases)
      case 6 then show ?case using pinv False nz busy dec by (auto simp: node_path_inv_def Let_def path_ok_def)
    next
      case 7 show ?case by (auto intro!: slot_inv_cong [OF slot] split: if_splits)
    qed (use a32 in \<open>auto simp: upd_slot_same\<close>)
  qed
qed

text \<open>What a slot found by its node and a path found by its link are.\<close>

lemma find_SomeD: "List.find P xs = Some x \<Longrightarrow> x \<in> set xs \<and> P x"
  by (auto simp: find_Some_iff)

lemma find_peer_SomeD:
  "linkg_node_find_peer_locked node_id c = Some i \<Longrightarrow> i < 16 \<and> occupied (nd_peers c ! i) \<and> ni_node_id (ns_info (nd_peers c ! i)) = node_id"
  by (auto simp: linkg_node_find_peer_locked_def Let_def occupied_def dest!: find_SomeD split: if_splits)

lemma find_path_SomeD:
  assumes "node_inv x" "i < 16" "linkg_node_find_path_index_locked i link_id (nr_paths x) = Some j"
  shows "slot_path i j < 32 \<and> slot_path i j div 2 = i \<and> path_st (nr_paths x) (slot_path i j) \<noteq> LINKG_PATH_STATE_EMPTY \<and>
    pt_link_id (path_at (nr_paths x) (slot_path i j)) = link_id \<and> link_id \<noteq> 0"
proof -
  have "j < 2" using assms(3) by (auto simp: linkg_node_find_path_index_locked_def find_Some_iff split: if_splits)
  then have "slot_path i j < 32 \<and> slot_path i j div 2 = i" using assms(2) by (simp add: slot_path_def)
  then show ?thesis
    using assms(3) node_invD(9) [OF assms(1)]
    by (auto simp: linkg_node_find_path_index_locked_def dest!: find_SomeD simp del: slot_path_simps(3) split: if_splits)
qed

lemma acquire_node_inv:
  assumes inv: "node_inv x" and room: "node_refs_room (unat n) (nr_paths x)"
    and acq: "linkg_node_acquire_path_batch node_id link_id n (nr_node x) (nr_paths x) = (ret, path, s)"
  shows "node_next x (x\<lparr>nr_paths := s,
      nr_held := nr_held x + (case path of None \<Rightarrow> {#} | Some (a, _) \<Rightarrow> replicate_mset (unat n) a)\<rparr>)"
proof (cases path)
  case None
  have "s = nr_paths x"
    using acq None node_invD(1,2) [OF inv]
    by (auto simp: linkg_node_acquire_path_batch_def linkg_path_acquire_batch_def Let_def split: if_splits option.splits)
  then show ?thesis using node_next_refl [OF inv] None by simp
next
  case (Some ae)
  then obtain i j where ij: "linkg_node_find_peer_locked node_id (nr_node x) = Some i" "n \<noteq> 0"
      "linkg_node_find_path_index_locked i link_id (nr_paths x) = Some j"
      "linkg_path_is_active (Some (slot_path i j)) (nr_paths x)"
      "linkg_path_acquire_batch (Some (slot_path i j)) n (nr_paths x) = (0, s)" "fst ae = slot_path i j"
    using acq node_invD(1,2) [OF inv]
    by (auto simp: linkg_node_acquire_path_batch_def Let_def split: if_splits option.splits prod.splits)
  let ?a = "slot_path i j" and ?s = "nr_paths x"
  have a: "?a < 32" "?a div 2 = i" "i < 16"
    using find_path_SomeD [OF inv _ ij(3)] find_peer_SomeD [OF ij(1)] by auto
  have s: "s = upd_path ?a (\<lambda>p. p\<lparr>pt_reference_count := pt_reference_count p + n\<rparr>) ?s"
    using acquire_batch_active [OF ij(4,2)] ij(5) by simp
  have act: "path_st ?s ?a = LINKG_PATH_STATE_ACTIVE" using ij(4) node_invD(9) [OF inv a(1)] by (simp add: linkg_path_is_active_def)
  have "unat (pt_reference_count (path_at ?s ?a)) + unat n < 2 ^ 32"
    using room [unfolded node_refs_room_def, rule_format, OF a(1)] node_invD(6) [OF inv a(1)]
    by (simp add: path_refs_def linkg_path_get_reference_count_def path_ready_def)
  then have cnt: "unat (pt_reference_count (path_at ?s ?a) + n) = Multiset.count (nr_held x) ?a + unat n"
    using node_invD(4) [OF inv a(1)] by (simp add: node_path_inv_def Let_def unat_word_ariths)
  show ?thesis
  proof (rule node_next_path [OF inv a(1), where f = "\<lambda>n. n"], goal_cases)
    case 6
    then show ?case using node_invD(4) [OF inv a(1)] act cnt Some ij(6) a
      by (auto simp: s node_path_inv_def Let_def path_ok_def split: prod.splits)
  next
    case 7
    show ?case using a by (auto simp: s upd_slot_same intro!: slot_inv_cong [OF node_invD(7) [OF inv a(3)]] split: if_splits)
  qed (use a Some ij(6) in \<open>auto simp: upd_slot_same s split: prod.splits\<close>)
qed

lemma record_node_inv:
  assumes inv: "node_inv x" and a: "a < 32" and f: "\<And>p. length (st_tx_classes (f p)) = length (st_tx_classes p)"
  shows "node_next x (x\<lparr>nr_paths := record_stats f (Some a) (nr_paths x)\<rparr>)"
proof -
  have s: "record_stats f (Some a) (nr_paths x) = upd_path a (\<lambda>p. p\<lparr>pt_stats := f (pt_stats p)\<rparr>) (nr_paths x)"
    using node_invD(6) [OF inv a] by (simp add: record_stats_def path_ready_def)
  have i: "a div 2 < 16" using a by simp
  show ?thesis
  proof (rule node_next_path [OF inv a, where f = "\<lambda>n. n"], goal_cases)
    case 6
    show ?case using node_invD(4) [OF inv a] by (simp add: s node_path_inv_def Let_def path_ok_def f)
  next
    case 7
    show ?case by (auto simp: s upd_slot_same intro!: slot_inv_cong [OF node_invD(7) [OF inv i]] split: if_splits)
  qed (simp_all add: upd_slot_same s)
qed

lemma account_loop_inv:
  assumes "node_account_loop link_id items (nr_node x) (nr_paths x) = (items', s)" "node_inv x"
  shows "node_next x (x\<lparr>nr_paths := s\<rparr>)"
  using assms
proof (induction items arbitrary: x items' s)
  case (Cons item items)
  show ?case
  proof (cases "ri_result item \<noteq> - EINPROGRESS")
    case True
    then show ?thesis using Cons.prems Cons.IH [of x] by (auto split: prod.splits)
  next
    case False
    obtain ret node_id s1 rest where l:
      "linkg_node_account_path_rx_locked link_id (ri_source item) (ri_bytes item) (ri_packets item) (nr_node x) (nr_paths x) = (ret, node_id, s1)"
      "node_account_loop link_id items (nr_node x) s1 = (rest, s)"
      using Cons.prems(1) False by (auto split: prod.splits)
    have first: "node_next x (x\<lparr>nr_paths := s1\<rparr>)"
    proof (cases "s1 = nr_paths x")
      case False
      then obtain a where a: "a \<in> set node_path_addresses" "s1 = linkg_path_record_rx (Some a) (ri_bytes item) (ri_packets item) (nr_paths x)"
        using l(1) by (auto simp: linkg_node_account_path_rx_locked_def dest!: find_SomeD split: option.splits)
      have "a < 32" using a(1) by (auto simp: node_path_addresses_def slot_path_def)
      then show ?thesis unfolding a(2) linkg_path_record_rx_def
        by (rule record_node_inv [OF Cons.prems(2)]) (simp add: linkg_path_stats_record_rx_def)
    qed (use node_next_refl [OF Cons.prems(2)] in simp)
    moreover have "node_next (x\<lparr>nr_paths := s1\<rparr>) (x\<lparr>nr_paths := s\<rparr>)"
      using Cons.IH [of "x\<lparr>nr_paths := s1\<rparr>" rest s] l(2) first by (simp add: node_next_def)
    ultimately show ?thesis by (rule node_next_trans) simp
  qed
qed (simp add: node_next_refl)

text \<open>What retiring an active path makes of it.\<close>

definition retired_path :: "linkg_path \<Rightarrow> linkg_path" where
  "retired_path p = p\<lparr>pt_reference_count := pt_reference_count p + 1, pt_state := LINKG_PATH_STATE_RETIRED\<rparr>"

lemma retire_loop:
  assumes "distinct as" "\<And>a. a \<in> set as \<Longrightarrow> path_ok (path_at s a) \<and> pt_initialized (path_at s a) \<and> path_refs s a + 1 < 2 ^ 32"
  shows "\<exists>s'. node_retire_loop as s = (0, map Some (filter (\<lambda>a. path_st s a = LINKG_PATH_STATE_ACTIVE) as), s') \<and>
    released_log s' = released_log s \<and>
    (\<forall>b. path_at s' b = (if b \<in> set as \<and> path_st s b = LINKG_PATH_STATE_ACTIVE then retired_path (path_at s b) else path_at s b))"
  using assms
proof (induction as arbitrary: s)
  case (Cons a as)
  have a: "path_ok (path_at s a)" "pt_initialized (path_at s a)" "path_refs s a + 1 < 2 ^ 32" using Cons.prems(2) [of a] by auto
  show ?case
  proof (cases "path_st s a = LINKG_PATH_STATE_ACTIVE")
    case True
    let ?s1 = "upd_path a retired_path s"
    have prep: "linkg_node_prepare_path_retire_locked a s = (0, Some a, ?s1)"
      using prepare_retire_active [OF a(1,2) True a(3)] by (simp add: retired_path_def [abs_def])
    have keep: "\<And>b. b \<in> set as \<Longrightarrow> path_at ?s1 b = path_at s b \<and> path_refs ?s1 b = path_refs s b"
      using Cons.prems(1) by (auto simp: path_refs_upd_other)
    have "\<exists>s'. node_retire_loop as ?s1 = (0, map Some (filter (\<lambda>a. path_st ?s1 a = LINKG_PATH_STATE_ACTIVE) as), s') \<and>
      released_log s' = released_log ?s1 \<and>
      (\<forall>b. path_at s' b = (if b \<in> set as \<and> path_st ?s1 b = LINKG_PATH_STATE_ACTIVE then retired_path (path_at ?s1 b) else path_at ?s1 b))"
      using Cons.prems keep by (intro Cons.IH) (simp_all del: upd_path_simps)
    moreover have "filter (\<lambda>a. path_st ?s1 a = LINKG_PATH_STATE_ACTIVE) as = filter (\<lambda>a. path_st s a = LINKG_PATH_STATE_ACTIVE) as"
      using keep by (intro filter_cong) auto
    ultimately obtain s' where s': "node_retire_loop as ?s1 = (0, map Some (filter (\<lambda>a. path_st s a = LINKG_PATH_STATE_ACTIVE) as), s')"
      "released_log s' = released_log ?s1"
      "\<And>b. path_at s' b = (if b \<in> set as \<and> path_st ?s1 b = LINKG_PATH_STATE_ACTIVE then retired_path (path_at ?s1 b) else path_at ?s1 b)"
      by auto
    have "path_at s' b = (if b \<in> set (a # as) \<and> path_st s b = LINKG_PATH_STATE_ACTIVE then retired_path (path_at s b) else path_at s b)" for b
      using s'(3) [of b] Cons.prems(1) True by (auto simp: retired_path_def)
    then show ?thesis using s'(1,2) True a(2) by (auto simp: prep state_init)
  next
    case False
    obtain s' where s': "node_retire_loop as s = (0, map Some (filter (\<lambda>a. path_st s a = LINKG_PATH_STATE_ACTIVE) as), s')"
      "released_log s' = released_log s"
      "\<And>b. path_at s' b = (if b \<in> set as \<and> path_st s b = LINKG_PATH_STATE_ACTIVE then retired_path (path_at s b) else path_at s b)"
      using Cons.IH [of s] Cons.prems by auto
    have "linkg_node_prepare_path_retire_locked a s = (0, None, s)" if "path_st s a \<noteq> LINKG_PATH_STATE_EMPTY"
      using that False a(2) by (cases "path_st s a") (simp_all add: linkg_node_prepare_path_retire_locked_def state_init)
    then show ?thesis using s' False a(2) by (cases "path_st s a = LINKG_PATH_STATE_EMPTY") (auto simp: state_init)
  qed
qed simp

lemma path_count_fun:
  "(\<lambda>p. p\<lparr>ns_path_count := ns_path_count p - 1\<rparr>) = ns_path_count_update (\<lambda>n. n - 1)"
  "(\<lambda>p. p\<lparr>ns_path_count := ns_path_count p + 1\<rparr>) = ns_path_count_update (\<lambda>n. n + 1)"
  by (auto simp: fun_eq_iff intro: linkg_node_peer_slot.equality)

lemma unregister_path_inv:
  assumes inv: "node_inv x" and room: "node_refs_room 1 (nr_paths x)"
    and un: "linkg_node_unregister_path_begin node_id link_id (nr_node x) (nr_paths x) = (ret, retired, c, s)"
  shows "node_next x (x\<lparr>nr_node := c, nr_paths := s, nr_held := nr_held x + (case retired of None \<Rightarrow> {#} | Some a \<Rightarrow> {#a#})\<rparr>)"
proof (cases "c = nr_node x \<and> s = nr_paths x \<and> retired = None")
  case True
  then show ?thesis using node_next_refl [OF inv] by simp
next
  case False
  then obtain i j where ij: "linkg_node_find_peer_locked node_id (nr_node x) = Some i"
      "linkg_node_find_path_index_locked i link_id (nr_paths x) = Some j"
    using un node_invD(1,2) [OF inv] by (auto simp: linkg_node_unregister_path_begin_def Let_def split: if_splits option.splits)
  let ?a = "slot_path i j" and ?s = "nr_paths x"
  have i: "i < 16" using find_peer_SomeD [OF ij(1)] by simp
  have a: "?a < 32" "?a div 2 = i" "path_st ?s ?a \<noteq> LINKG_PATH_STATE_EMPTY" using find_path_SomeD [OF inv i ij(2)] by auto
  then have a2: "?a = 2 * i \<or> ?a = 2 * i + 1" by linarith
  note a' = node_invD(5,6) [OF inv a(1)] and pinv = node_invD(4) [OF inv a(1)] and sinv = node_invD(7) [OF inv i]
  consider (released) "path_st ?s ?a = LINKG_PATH_STATE_RELEASED" | (active) "path_st ?s ?a = LINKG_PATH_STATE_ACTIVE"
    using False un node_invD(1,2) [OF inv] ij a(3) node_invD(9) [OF inv a(1)]
    by (cases "path_st ?s ?a") (auto simp: linkg_node_unregister_path_begin_def Let_def split: if_splits)
  then show ?thesis
  proof cases
    case released
    then have r: "retired = None" "c = nr_node x" "s = upd_path ?a (\<lambda>p. p\<lparr>pt_stats := stats_zero, pt_link_id := 0, pt_next_hop := endpoint_zero,
        pt_released := None, pt_released_user_data := None, pt_state := LINKG_PATH_STATE_EMPTY\<rparr>) ?s"
      using False un node_invD(1,2) [OF inv] ij node_invD(9) [OF inv a(1)] reset_released [OF a' released]
      by (auto simp: linkg_node_unregister_path_begin_def Let_def split: if_splits)
    have valid: "ns_valid (nd_peers (nr_node x) ! i)"
      using False un node_invD(1,2) [OF inv] ij by (auto simp: linkg_node_unregister_path_begin_def Let_def split: if_splits)
    show ?thesis
    proof (rule node_next_path [OF inv a(1), where f = "\<lambda>n. n"], goal_cases)
      case 6 show ?case using pinv released by (auto simp: r node_path_inv_def Let_def path_ok_def)
    next
      case 7 show ?case using a2 sinv released valid by (elim disjE) (simp_all add: r upd_slot_same node_slot_inv_def Let_def)
    qed (use a r idle_not_held [OF inv a(1)] released in \<open>simp_all add: upd_slot_same\<close>)
  next
    case active
    have "path_refs ?s ?a + 1 < 2 ^ 32" using room a(1) unfolding node_refs_room_def by blast
    note prep = prepare_retire_active [OF a' active this]
    have pos: "0 < ns_path_count (nd_peers (nr_node x) ! i)"
      using a2 sinv active by (elim disjE) (simp_all add: node_slot_inv_def Let_def word_gt_0)
    have r: "retired = Some ?a" "c = upd_slot i (ns_path_count_update (\<lambda>n. n - 1)) (nr_node x)" "s = upd_path ?a retired_path ?s"
      using False un node_invD(1,2) [OF inv] ij node_invD(9) [OF inv a(1)] active pos prep
      by (auto simp: linkg_node_unregister_path_begin_def Let_def retired_path_def [abs_def] path_count_fun split: if_splits)
    show ?thesis
    proof (rule node_next_path [OF inv a(1), where f = "\<lambda>n. n - 1"], goal_cases)
      case 6
      have "unat (pt_reference_count (path_at ?s ?a) + 1) = Multiset.count (nr_held x) ?a + 1"
        using pinv \<open>path_refs ?s ?a + 1 < 2 ^ 32\<close> a'(2) unat_inc [of "pt_reference_count (path_at ?s ?a)"]
        by (simp add: node_path_inv_def Let_def path_refs_def linkg_path_get_reference_count_def path_ready_def)
      moreover from this have "pt_reference_count (path_at ?s ?a) + 1 \<noteq> 0" by (metis add_is_0 unsigned_0 zero_neq_one)
      ultimately show ?case using pinv active a i
        by (simp add: r retired_path_def node_path_inv_def Let_def path_ok_def nth_update_keep occupied_def)
    next
      case 7 show ?case using a2 sinv active i node_invD(3) [OF inv]
        by (elim disjE) (simp_all add: r retired_path_def node_slot_inv_def Let_def)
    qed (use a r in \<open>simp_all add: upd_slot_same retired_path_def\<close>)
  qed
qed

text \<open>Activation of an empty path of a peer, after whatever reset made it empty.\<close>

lemma activate_node_inv:
  assumes inv: "node_inv x" and i: "i < 16" "ns_valid (nd_peers (nr_node x) ! i)" and a: "a = 2 * i \<or> a = 2 * i + 1"
    and e: "path_st (nr_paths x) a = LINKG_PATH_STATE_EMPTY" "link_id \<noteq> 0"
    and fresh: "\<And>b. b div 2 = i \<Longrightarrow> b \<noteq> a \<Longrightarrow> path_st (nr_paths x) b \<noteq> LINKG_PATH_STATE_EMPTY \<Longrightarrow> pt_link_id (path_at (nr_paths x) b) \<noteq> link_id"
    and act: "linkg_path_activate (Some a) link_id (Some ep) (Some path_released_callback) (Some i) (nr_paths x) = (ret, s)"
  shows "ret = 0 \<and> node_next x (x\<lparr>nr_node := upd_slot i (ns_path_count_update (\<lambda>n. n + 1)) (nr_node x), nr_paths := s\<rparr>)"
proof -
  have a': "a < 32" "a div 2 = i" using a i(1) by auto
  note pinv = node_invD(4) [OF inv a'(1)] and sinv = node_invD(7) [OF inv i(1)]
  have r: "ret = 0" "s = upd_path a (\<lambda>p. p\<lparr>pt_stats := stats_zero, pt_link_id := link_id, pt_next_hop := ep,
      pt_released := Some path_released_callback, pt_released_user_data := Some i, pt_state := LINKG_PATH_STATE_ACTIVE\<rparr>) (nr_paths x)"
    using act activate_empty [OF node_invD(5,6) [OF inv a'(1)] e refl] by auto
  have len: "i < length (nd_peers (nr_node x))" using node_invD(3) [OF inv] i(1) by simp
  have "node_next x (x\<lparr>nr_node := upd_slot i (ns_path_count_update (\<lambda>n. n + 1)) (nr_node x), nr_paths := s\<rparr>)"
  proof (rule node_next_path [OF inv a'(1), where f = "\<lambda>n. n + 1"], goal_cases)
    case 6
    show ?case using pinv e a' i(2) len by (auto simp: r node_path_inv_def Let_def path_ok_def occupied_def)
  next
    case 7
    show ?case using a sinv e i(2) len fresh [of "2 * i"] fresh [of "2 * i + 1"]
      by (elim disjE) (auto simp: r node_slot_inv_def Let_def)
  qed (use a' r idle_not_held [OF inv a'(1)] e(1) in simp_all)
  then show ?thesis using r by simp
qed

lemma find_path_None:
  assumes "node_inv x" "i < 16" "linkg_node_find_path_index_locked i link_id (nr_paths x) = None" "link_id \<noteq> 0"
    and "b div 2 = i" "path_st (nr_paths x) b \<noteq> LINKG_PATH_STATE_EMPTY"
  shows "pt_link_id (path_at (nr_paths x) b) \<noteq> link_id"
proof -
  have "b = 2 * i \<or> b = 2 * i + 1" "b < 32" using assms(2,5) by auto
  then show ?thesis
    using assms(3,4,6) node_invD(9) [OF assms(1)] by (auto simp: linkg_node_find_path_index_locked_def split: if_splits)
qed

text \<open>Registering a path of a registered peer.\<close>

lemma register_path_eq:
  assumes "nd_initialized c" "mutex_ok (nd_lock c)"
    and "linkg_node_find_peer_locked node_id c = Some i" "ns_valid (nd_peers c ! i)" "\<not> ns_retiring (nd_peers c ! i)"
    and "link_id \<noteq> 0" "linkg_node_endpoint_valid next_hop" "linkg_node_id_valid node_id"
  shows "linkg_node_register_path node_id link_id next_hop c s =
    (let activate = (\<lambda>j s1.
           let (ret, s2) = linkg_path_activate (Some (slot_path i j)) link_id next_hop (Some path_released_callback) (Some i) s1
           in if ret \<noteq> 0 then (ret, c, s2)
              else (0, upd_slot i (ns_path_count_update (\<lambda>n. n + 1)) c, s2))
     in case linkg_node_find_path_index_locked i link_id s of
          Some j \<Rightarrow>
            (let state = linkg_path_get_state (Some (slot_path i j)) s in
             if state = LINKG_PATH_STATE_ACTIVE
             then
               (if linkg_node_endpoint_equal (Some (pt_next_hop (path_at s (slot_path i j)))) next_hop then (0, c, s)
                else (let (ret, s1) = linkg_path_update_endpoint (Some (slot_path i j)) next_hop s in (ret, c, s1)))
             else if state = LINKG_PATH_STATE_RETIRED then (- EBUSY, c, s)
             else if state = LINKG_PATH_STATE_RELEASED
             then
               (let (ret, s1) = linkg_path_reset (Some (slot_path i j)) s in
                if ret \<noteq> 0 then (ret, c, s1) else activate j s1)
             else activate j s)
        | None \<Rightarrow>
            (case linkg_node_find_unused_path_index_locked i s of
               None \<Rightarrow> (- ENOSPC, c, s)
             | Some j \<Rightarrow> activate j s))"
  using assms by (simp add: linkg_node_register_path_def Let_def path_count_fun split: option.split prod.split)

lemma register_path_inv:
  assumes inv: "node_inv x"
    and reg: "linkg_node_register_path node_id link_id next_hop (nr_node x) (nr_paths x) = (ret, c, s)"
  shows "node_next x (x\<lparr>nr_node := c, nr_paths := s\<rparr>)"
proof (cases "c = nr_node x \<and> s = nr_paths x")
  case True
  then show ?thesis using node_next_refl [OF inv] by simp
next
  case False
  note t = node_invD(1,2) [OF inv]
  obtain i where i: "linkg_node_find_peer_locked node_id (nr_node x) = Some i" "ns_valid (nd_peers (nr_node x) ! i)"
      "link_id \<noteq> 0" "linkg_node_endpoint_valid next_hop" "\<not> ns_retiring (nd_peers (nr_node x) ! i)" "linkg_node_id_valid node_id"
    using reg False t by (auto simp: linkg_node_register_path_def Let_def split: if_splits option.splits)
  obtain ep where ep: "next_hop = Some ep" using i(4) by (auto simp: linkg_node_endpoint_valid_def split: option.splits)
  have i16: "i < 16" using find_peer_SomeD [OF i(1)] by simp
  note eq = register_path_eq [OF t i(1,2,5,3,4,6)]
  show ?thesis
  proof (cases "linkg_node_find_path_index_locked i link_id (nr_paths x)")
    case None
    then obtain j s2 ret' where j: "linkg_node_find_unused_path_index_locked i (nr_paths x) = Some j"
      "linkg_path_activate (Some (slot_path i j)) link_id (Some ep) (Some path_released_callback) (Some i) (nr_paths x) = (ret', s2)"
      using reg False unfolding eq by (auto simp: Let_def ep split: option.splits prod.splits)
    have b: "slot_path i j = 2 * i \<or> slot_path i j = 2 * i + 1" "path_st (nr_paths x) (slot_path i j) = LINKG_PATH_STATE_EMPTY"
      using j(1) node_invD(9) [OF inv] i16
      by (auto simp: linkg_node_find_unused_path_index_locked_def split: if_splits)
    from activate_node_inv [OF inv i16 i(2) b(1,2) i(3) _ j(2)] find_path_None [OF inv i16 None i(3)]
    show ?thesis using reg None j unfolding eq by (auto simp: ep)
  next
    case (Some j)
    let ?a = "slot_path i j"
    have a: "?a < 32" "?a div 2 = i" "path_st (nr_paths x) ?a \<noteq> LINKG_PATH_STATE_EMPTY"
        "pt_link_id (path_at (nr_paths x) ?a) = link_id"
      using find_path_SomeD [OF inv i16 Some] by auto
    then have a2: "?a = 2 * i \<or> ?a = 2 * i + 1" by linarith
    note a' = node_invD(5,6) [OF inv a(1)] and pinv = node_invD(4) [OF inv a(1)] and sinv = node_invD(7) [OF inv i16]
    consider (active) "path_st (nr_paths x) ?a = LINKG_PATH_STATE_ACTIVE" | (released) "path_st (nr_paths x) ?a = LINKG_PATH_STATE_RELEASED"
      using reg False Some a(3) node_invD(9) [OF inv a(1)] unfolding eq by (cases "path_st (nr_paths x) ?a") auto
    then show ?thesis
    proof cases
      case active
      then have r: "c = nr_node x" "s = upd_path ?a (\<lambda>p. p\<lparr>pt_next_hop := ep\<rparr>) (nr_paths x)"
        using reg False Some node_invD(9) [OF inv a(1)] a'(2) unfolding eq
        by (auto simp: Let_def ep linkg_path_update_endpoint_def path_ready_def split: if_splits)
      show ?thesis
      proof (rule node_next_path [OF inv a(1), where f = "\<lambda>n. n"], goal_cases)
        case 6 show ?case using pinv by (simp add: r node_path_inv_def Let_def path_ok_def)
      next
        case 7 show ?case using a(2) by (auto simp: r upd_slot_same intro!: slot_inv_cong [OF sinv] split: if_splits)
      qed (use a r in \<open>simp_all add: upd_slot_same\<close>)
    next
      case released
      define s1 where "s1 = upd_path ?a (\<lambda>p. p\<lparr>pt_stats := stats_zero, pt_link_id := 0, pt_next_hop := endpoint_zero,
        pt_released := None, pt_released_user_data := None, pt_state := LINKG_PATH_STATE_EMPTY\<rparr>) (nr_paths x)"
      have rst: "linkg_path_reset (Some ?a) (nr_paths x) = (0, s1)" unfolding s1_def by (rule reset_released [OF a' released])
      let ?y = "x\<lparr>nr_paths := s1\<rparr>"
      have y': "node_next x ?y"
      proof (rule node_next_path [OF inv a(1), where f = "\<lambda>n. n"], goal_cases)
        case 6 show ?case using pinv released by (auto simp: s1_def node_path_inv_def Let_def path_ok_def)
      next
        case 7 show ?case using a2 sinv released i(2) by (elim disjE) (simp_all add: s1_def upd_slot_same node_slot_inv_def Let_def)
      qed (use a idle_not_held [OF inv a(1)] released in \<open>simp_all add: upd_slot_same s1_def\<close>)
      then have y: "node_inv ?y" by (simp add: node_next_def)
      obtain ret' s2 where act: "linkg_path_activate (Some ?a) link_id (Some ep) (Some path_released_callback) (Some i) s1 = (ret', s2)"
        by (metis surj_pair)
      have "ret' = 0 \<and> node_next ?y (?y\<lparr>nr_node := upd_slot i (ns_path_count_update (\<lambda>n. n + 1)) (nr_node ?y), nr_paths := s2\<rparr>)"
      proof (rule activate_node_inv [OF y i16 _ a2 _ i(3)], goal_cases)
        case (3 b)
        then have "b \<noteq> ?a" "path_st (nr_paths x) b \<noteq> LINKG_PATH_STATE_EMPTY" by (auto simp: s1_def)
        then have "pt_link_id (path_at (nr_paths x) b) \<noteq> link_id"
          using sinv a a2 3(1) by (cases "b = 2 * i"; cases "b = 2 * i + 1"; auto simp: node_slot_inv_def Let_def)
        then show ?case using \<open>b \<noteq> ?a\<close> by (simp add: s1_def)
      qed (use i act in \<open>simp_all add: s1_def\<close>)
      then have "ret' = 0 \<and> node_next x (?y\<lparr>nr_node := upd_slot i (ns_path_count_update (\<lambda>n. n + 1)) (nr_node ?y), nr_paths := s2\<rparr>)"
        using node_next_trans [OF y'] by simp
      then show ?thesis
        using reg Some released node_invD(9) [OF inv a(1)] act unfolding eq by (auto simp: Let_def ep rst)
    qed
  qed
qed

text \<open>A slot whose peer may change: the table holds when the new peer fits.\<close>

lemma table_inv_slot:
  assumes t: "node_table_inv c" and i: "i < 16" and c': "nd_peers c' = (nd_peers c)[i := p]"
    and same: "nd_initialized c'" "nd_lock c' = nd_lock c" "nd_local c' = nd_local c"
    and cnt: "unat (nd_peer_count c') + of_bool (ns_valid (nd_peers c ! i)) = unat (nd_peer_count c) + of_bool (ns_valid p)"
    and sta: "ni_role (nd_local c) = LINKG_DEVICE_ROLE_STA \<longrightarrow> nd_peer_count c' \<le> 1"
    and p: "occupied p \<Longrightarrow> linkg_node_info_valid (Some (ns_info p)) \<and> ni_node_id (ns_info p) \<noteq> ni_node_id (nd_local c) \<and>
      linkg_node_peer_role_valid (ni_role (nd_local c)) (ni_role (ns_info p))"
    and fresh: "\<And>j. occupied p \<Longrightarrow> j < 16 \<Longrightarrow> j \<noteq> i \<Longrightarrow> occupied (nd_peers c ! j) \<Longrightarrow> ni_node_id (ns_info (nd_peers c ! j)) \<noteq> ni_node_id (ns_info p)"
  shows "node_table_inv c'"
proof -
  have len: "length (nd_peers c) = 16" using t by (simp add: node_table_inv_def)
  have others: "\<And>j. j < 16 \<Longrightarrow> j \<noteq> i \<Longrightarrow> nd_peers c' ! j = nd_peers c ! j" and at_i: "nd_peers c' ! i = p"
    using len i by (simp_all add: c')
  have "unat (nd_peer_count c') = length (filter ns_valid (nd_peers c'))"
    using filter_length_update [of i "nd_peers c" ns_valid p] len i cnt t unfolding c' node_table_inv_def by simp
  moreover have "let info = ns_info (nd_peers c' ! k) in
      linkg_node_info_valid (Some info) \<and> ni_node_id info \<noteq> ni_node_id (nd_local c') \<and>
      linkg_node_peer_role_valid (ni_role (nd_local c')) (ni_role info) \<and>
      (\<forall>j<16. occupied (nd_peers c' ! j) \<longrightarrow> ni_node_id (ns_info (nd_peers c' ! j)) = ni_node_id info \<longrightarrow> j = k)"
    if "k < 16" "occupied (nd_peers c' ! k)" for k
  proof (cases "k = i")
    case True
    have "j = i" if "j < 16" "occupied (nd_peers c' ! j)" "ni_node_id (ns_info (nd_peers c' ! j)) = ni_node_id (ns_info p)" for j
      using fresh [of j] that others [of j] \<open>occupied (nd_peers c' ! k)\<close> True at_i by (cases "j = i") auto
    then show ?thesis using True at_i p that(2) same(3) by (simp add: Let_def)
  next
    case False
    have k: "occupied (nd_peers c ! k)" "nd_peers c' ! k = nd_peers c ! k" using others that False by auto
    have "j = k" if j: "j < 16" "occupied (nd_peers c' ! j)" "ni_node_id (ns_info (nd_peers c' ! j)) = ni_node_id (ns_info (nd_peers c ! k))" for j
      using fresh [OF _ \<open>k < 16\<close> False k(1)] others [of j] j t k(1) \<open>k < 16\<close> at_i
      by (cases "j = i") (auto simp: node_table_inv_def Let_def)
    then show ?thesis using t k \<open>k < 16\<close> same(3) by (simp add: node_table_inv_def Let_def)
  qed
  ultimately show ?thesis using t same sta len c' by (simp add: node_table_inv_def)
qed

lemma complete_release_eq:
  "linkg_node_complete_peer_release_locked i s c =
    (if ns_retiring (nd_peers c ! i) \<and> linkg_node_paths_empty_locked i s then upd_slot i (\<lambda>_. node_slot_zero) c else c)"
proof -
  have "(\<lambda>p. p\<lparr>ns_valid := False, ns_path_count := 0, ns_info := node_info_zero, ns_retiring := False\<rparr>) = (\<lambda>_. node_slot_zero)"
    by (simp add: fun_eq_iff node_slot_zero_def)
  then show ?thesis by (simp add: linkg_node_complete_peer_release_locked_def)
qed

lemma slot_inv_reset:
  assumes "node_slot_inv c s i"
    and "path_st s' (2 * i) = path_st s (2 * i) \<or> path_st s (2 * i) = LINKG_PATH_STATE_RELEASED \<and> path_st s' (2 * i) = LINKG_PATH_STATE_EMPTY"
    and "path_st s' (2 * i + 1) = path_st s (2 * i + 1) \<or> path_st s (2 * i + 1) = LINKG_PATH_STATE_RELEASED \<and> path_st s' (2 * i + 1) = LINKG_PATH_STATE_EMPTY"
    and "\<And>b. path_st s' b \<noteq> LINKG_PATH_STATE_EMPTY \<Longrightarrow> pt_link_id (path_at s' b) = pt_link_id (path_at s b)"
    and "\<not> (ns_retiring (nd_peers c ! i) \<and> path_st s' (2 * i) = LINKG_PATH_STATE_EMPTY \<and> path_st s' (2 * i + 1) = LINKG_PATH_STATE_EMPTY)"
  shows "node_slot_inv c s' i"
  using assms(1-3,5) assms(4) [of "2 * i"] assms(4) [of "2 * i + 1"]
  by (elim disjE) (simp_all add: node_slot_inv_def Let_def, blast+)

lemma callback_node_inv:
  assumes inv: "node_inv x" and e: "(a, f, u) \<in> set (released_log (nr_paths x))"
    and cb: "linkg_node_path_released (Some a) u (nr_node x)
      ((nr_paths x)\<lparr>released_log := remove1 (a, f, u) (released_log (nr_paths x))\<rparr>) = (c, s)"
  shows "node_next x (x\<lparr>nr_node := c, nr_paths := s\<rparr>)"
proof -
  let ?i = "a div 2" and ?s = "nr_paths x" and ?c = "nr_node x"
  define s0 where "s0 = ?s\<lparr>released_log := remove1 (a, f, u) (released_log ?s)\<rparr>"
  have a: "a < 32" "f = path_released_callback" "u = Some ?i" using node_invD(11) [OF inv e] by auto
  have i: "?i < 16" and a2: "a = 2 * ?i \<or> a = 2 * ?i + 1" using a(1) by auto
  have cb': "linkg_node_path_released (Some a) (Some ?i) ?c s0 = (c, s)" using cb unfolding s0_def a(3) .
  note pinv = node_invD(4) [OF inv a(1)] and sinv = node_invD(7) [OF inv i] and t = node_invD(1,2,3) [OF inv]
  have len: "?i < length (nd_peers ?c)" using t i by simp
  have ptr: "linkg_node_find_path_pointer_index_locked ?i a \<noteq> None"
    using a2 by (elim disjE) (simp_all add: linkg_node_find_path_pointer_index_locked_def)
  have st0: "linkg_path_get_state (Some a) s0 = path_st ?s a"
    using node_invD(6) [OF inv a(1)] by (simp add: s0_def linkg_path_get_state_def path_ready_def)
  define s1 where "s1 = (if path_st ?s a = LINKG_PATH_STATE_RELEASED
    then upd_path a (\<lambda>p. p\<lparr>pt_stats := stats_zero, pt_link_id := 0, pt_next_hop := endpoint_zero,
      pt_released := None, pt_released_user_data := None, pt_state := LINKG_PATH_STATE_EMPTY\<rparr>) s0 else s0)"
  have rst: "linkg_path_reset (Some a) s0 = (0, s1)" if "path_st ?s a = LINKG_PATH_STATE_RELEASED"
    using that node_invD(5,6) [OF inv a(1)] unfolding s1_def by (simp, intro reset_released) (simp_all add: s0_def)
  have cs: "s = s1 \<and> c = (if path_st ?s a = LINKG_PATH_STATE_RELEASED \<or> path_st ?s a = LINKG_PATH_STATE_EMPTY
      then linkg_node_complete_peer_release_locked ?i s1 ?c else ?c)"
    using cb' t(2) ptr st0 rst
    by (cases "path_st ?s a") (auto simp: linkg_node_path_released_def s1_def)
  have p1: "node_path_inv ?c s1 (nr_held x) a" using pinv by (auto simp: s1_def s0_def node_path_inv_def Let_def path_ok_def)
  have log: "set (released_log s1) \<subseteq> set (released_log ?s)"
    "\<And>b g v. b \<noteq> a \<Longrightarrow> (b, g, v) \<in> set (released_log ?s) \<Longrightarrow> (b, g, v) \<in> set (released_log s1)"
    by (auto simp: s1_def s0_def in_set_remove1 dest: set_remove1_subset [THEN subsetD])
  have other: "b \<noteq> a \<Longrightarrow> path_at s1 b = path_at ?s b" for b by (simp add: s1_def s0_def)
  have nh: "path_at s1 b = path_at ?s b" if "b \<in># nr_held x" for b
    using idle_not_held [OF inv a(1)] that by (auto simp: s1_def s0_def)
  have unchanged: "node_next x (x\<lparr>nr_paths := s1\<rparr>)" if "node_slot_inv ?c s1 ?i"
    by (rule node_next_path [OF inv a(1), where f = "\<lambda>n. n"]) (use a other log p1 nh that in \<open>auto simp: upd_slot_same\<close>)
  have slot: "node_slot_inv ?c s1 ?i" if "\<not> (ns_retiring (nd_peers ?c ! ?i) \<and> linkg_node_paths_empty_locked ?i s1)"
  proof -
    have init: "pt_initialized (path_at s1 b)" if "b < 32" for b
      using node_invD(6) [OF inv that] by (auto simp: s1_def s0_def)
    have "linkg_node_paths_empty_locked ?i s1 \<longleftrightarrow> path_st s1 (2 * ?i) = LINKG_PATH_STATE_EMPTY \<and> path_st s1 (2 * ?i + 1) = LINKG_PATH_STATE_EMPTY"
      using i init by (simp add: linkg_node_paths_empty_locked_def state_init)
    moreover have "path_st s1 (2 * ?i) = path_st ?s (2 * ?i) \<or> (path_st ?s (2 * ?i) = LINKG_PATH_STATE_RELEASED \<and> path_st s1 (2 * ?i) = LINKG_PATH_STATE_EMPTY)"
      "path_st s1 (2 * ?i + 1) = path_st ?s (2 * ?i + 1) \<or> (path_st ?s (2 * ?i + 1) = LINKG_PATH_STATE_RELEASED \<and> path_st s1 (2 * ?i + 1) = LINKG_PATH_STATE_EMPTY)"
      "path_st s1 b \<noteq> LINKG_PATH_STATE_EMPTY \<Longrightarrow> pt_link_id (path_at s1 b) = pt_link_id (path_at ?s b)" for b
      by (auto simp: s1_def s0_def)
    ultimately show ?thesis using slot_inv_reset [OF sinv] that by blast
  qed
  have final: "node_next x (x\<lparr>nr_node := linkg_node_complete_peer_release_locked ?i s1 ?c, nr_paths := s1\<rparr>)"
  proof (cases "ns_retiring (nd_peers ?c ! ?i) \<and> linkg_node_paths_empty_locked ?i s1")
    case True
    have freed: "linkg_node_complete_peer_release_locked ?i s1 ?c = upd_slot ?i (\<lambda>_. node_slot_zero) ?c"
      using True by (simp add: complete_release_eq)
    have init: "pt_initialized (path_at s1 b)" if "b < 32" for b
      using node_invD(6) [OF inv that] by (auto simp: s1_def s0_def)
    have empty: "path_st s1 (2 * ?i) = LINKG_PATH_STATE_EMPTY" "path_st s1 (2 * ?i + 1) = LINKG_PATH_STATE_EMPTY"
      using True i init by (simp_all add: linkg_node_paths_empty_locked_def state_init)
    have nv: "\<not> ns_valid (nd_peers ?c ! ?i)" using sinv True by (auto simp: node_slot_inv_def Let_def)
    have pn: "node_path_inv (upd_slot ?i (\<lambda>_. node_slot_zero) ?c) s1 (nr_held x) b" if "b div 2 = ?i" for b
    proof -
      have "b < 32" using that i by linarith
      then have "node_path_inv ?c s1 (nr_held x) b"
        using p1 other [of b] log(2) [of b] node_invD(4) [OF inv] by (cases "b = a") (auto simp: node_path_inv_def Let_def)
      moreover have "path_st s1 b = LINKG_PATH_STATE_EMPTY" using that empty
        by (metis div_mult_mod_eq mod2_eq_if mult.commute add.right_neutral)
      ultimately show ?thesis by (auto simp: node_path_inv_def Let_def)
    qed
    show ?thesis unfolding freed
    proof (rule node_next_slot [OF inv i], goal_cases)
      case 1
      show ?case by (rule table_inv_slot [OF node_invD(8) [OF inv] i, where p = node_slot_zero])
          (use t nv node_invD(8) [OF inv] in \<open>simp_all add: node_slot_zero_def occupied_def node_table_inv_def\<close>)
    next
      case (3 b) then show ?case using other [of b] by (cases "b = a") auto
    next
      case (5 e) then show ?case using log(1) by auto
    next
      case (6 b g v) then show ?case using log(2) [of b g v] by (cases "b = a") auto
    next
      case 7 show ?case using pn [of "2 * ?i"] by simp
    next
      case 8 show ?case using pn [of "2 * ?i + 1"] by simp
    next
      case 9 show ?case using len empty by (simp add: node_slot_inv_def Let_def node_slot_zero_def)
    next
      case (10 b)
      then have "b = 2 * ?i \<or> b = 2 * ?i + 1" "b < 32" using i by linarith+
      then show ?case using empty idle_not_held [OF inv, of b] nh [OF 10(1)] 10(1) by auto
    qed simp_all
  next
    case False
    then have "linkg_node_complete_peer_release_locked ?i s1 ?c = ?c" by (auto simp: complete_release_eq)
    then show ?thesis using unchanged [OF slot [OF False]] by simp
  qed
  show ?thesis
  proof (cases "path_st ?s a = LINKG_PATH_STATE_RELEASED \<or> path_st ?s a = LINKG_PATH_STATE_EMPTY")
    case True
    then show ?thesis using final cs by simp
  next
    case False
    then have "s1 = s0" by (simp add: s1_def)
    then have "node_slot_inv ?c s1 ?i" using sinv by (simp add: s0_def node_slot_inv_def Let_def)
    then show ?thesis using unchanged cs False by simp
  qed
qed

lemma free_slot_paths:
  assumes inv: "node_inv x" and i: "i < 16" "\<not> occupied (nd_peers (nr_node x) ! i)" and b: "b div 2 = i"
  shows "path_st (nr_paths x) b = LINKG_PATH_STATE_EMPTY"
proof -
  have "b < 32" using i(1) b by linarith
  from node_invD(4) [OF inv this] i(2) b show ?thesis by (auto simp: node_path_inv_def Let_def)
qed

lemma register_peer_inv:
  assumes inv: "node_inv x"
  shows "node_next x (x\<lparr>nr_node := snd (linkg_node_register_peer info (nr_node x))\<rparr>)"
proof (cases "snd (linkg_node_register_peer info (nr_node x)) = nr_node x")
  case True
  then show ?thesis using node_next_refl [OF inv] by simp
next
  case False
  let ?c = "nr_node x" and ?c' = "snd (linkg_node_register_peer info (nr_node x))"
  note t = node_invD(1,2,3) [OF inv] and tab = node_invD(8) [OF inv]
  obtain n where n: "info = Some n" "linkg_node_info_valid (Some n)" "ni_node_id n \<noteq> ni_node_id (nd_local ?c)"
      "linkg_node_peer_role_valid (ni_role (nd_local ?c)) (ni_role n)"
    using False t by (cases info) (auto simp: linkg_node_register_peer_def linkg_node_info_valid_def Let_def split: if_splits)
  have idv: "linkg_node_id_valid (ni_node_id n)" using n(2) by (auto simp: linkg_node_info_valid_def split: if_splits)
  show ?thesis
  proof (cases "linkg_node_find_peer_locked (ni_node_id n) ?c")
    case (Some i)
    note f = find_peer_SomeD [OF Some]
    have r: "?c' = upd_slot i (\<lambda>p. p\<lparr>ns_info := n\<rparr>) ?c" "ns_valid (nd_peers ?c ! i)"
      using False t n Some f by (auto simp: linkg_node_register_peer_def Let_def occupied_def split: if_splits)
    have sinv: "node_slot_inv ?c (nr_paths x) i" using node_invD(7) [OF inv] f by simp
    have len: "i < length (nd_peers ?c)" using t f by simp
    have pn: "node_path_inv ?c' (nr_paths x) (nr_held x) b" if "b div 2 = i" for b
    proof -
      have "b < 32" using that f by linarith
      from node_invD(4) [OF inv this] show ?thesis using that len by (simp add: r node_path_inv_def Let_def occupied_def)
    qed
    show ?thesis
    proof (rule node_next_slot [OF inv, of i], goal_cases)
      case 2
      have uniq: "ni_node_id (ns_info (nd_peers ?c ! j)) \<noteq> ni_node_id n" if "j < 16" "j \<noteq> i" "occupied (nd_peers ?c ! j)" for j
        using tab f that by (auto simp: node_table_inv_def Let_def)
      show ?case
        by (rule table_inv_slot [OF tab, of i, where p = "(nd_peers ?c ! i)\<lparr>ns_info := n\<rparr>"])
          (use f t n r uniq tab in \<open>simp_all add: node_table_inv_def\<close>)
    next
      case 8 show ?case using pn [of "2 * i"] by simp
    next
      case 9 show ?case using pn [of "2 * i + 1"] by simp
    next
      case 10 show ?case using sinv len by (simp add: r node_slot_inv_def Let_def)
    qed (use f r len in simp_all)
  next
    case None
    then obtain i where i: "linkg_node_find_unused_peer_locked ?c = Some i"
        "?c' = (upd_slot i (\<lambda>p. p\<lparr>ns_info := n, ns_path_count := 0, ns_valid := True, ns_retiring := False\<rparr>) ?c)
          \<lparr>nd_peer_count := nd_peer_count ?c + 1\<rparr>"
        "ni_role (nd_local ?c) = LINKG_DEVICE_ROLE_STA \<Longrightarrow> nd_peer_count ?c = 0"
      using False t n by (auto simp: linkg_node_register_peer_def Let_def split: if_splits option.splits)
    have free: "i < 16" "\<not> occupied (nd_peers ?c ! i)"
      using i(1) by (auto simp: linkg_node_find_unused_peer_locked_def occupied_def dest!: find_SomeD)
    have len: "i < length (nd_peers ?c)" using t free by simp
    have absent: "ni_node_id (ns_info (nd_peers ?c ! j)) \<noteq> ni_node_id n" if "j < 16" "occupied (nd_peers ?c ! j)" for j
      using None idv that by (auto simp: linkg_node_find_peer_locked_def find_None_iff Let_def occupied_def)
    have few: "unat (nd_peer_count ?c) \<le> 16"
      using tab t(3) by (metis length_filter_le node_table_inv_def)
    have inc: "unat (nd_peer_count ?c + 1) = unat (nd_peer_count ?c) + 1" using few by (intro unat_inc) simp
    have pn: "node_path_inv ?c' (nr_paths x) (nr_held x) b" if "b div 2 = i" for b
    proof -
      have "b < 32" using that free by linarith
      from node_invD(4) [OF inv this] free_slot_paths [OF inv free that] show ?thesis by (auto simp: node_path_inv_def Let_def)
    qed
    have empty: "path_st (nr_paths x) (2 * i) = LINKG_PATH_STATE_EMPTY" "path_st (nr_paths x) (2 * i + 1) = LINKG_PATH_STATE_EMPTY"
      by (rule free_slot_paths [OF inv free], simp)+
    show ?thesis
    proof (rule node_next_slot [OF inv free(1)], goal_cases)
      case 1
      show ?case
        by (rule table_inv_slot [OF tab free(1), where
              p = "(nd_peers ?c ! i)\<lparr>ns_info := n, ns_path_count := 0, ns_valid := True, ns_retiring := False\<rparr>"])
          (use t n i free absent inc in \<open>auto simp: occupied_def\<close>)
    next
      case 7 show ?case using pn [of "2 * i"] by simp
    next
      case 8 show ?case using pn [of "2 * i + 1"] by simp
    next
      case 9 show ?case using empty len by (simp add: i node_slot_inv_def Let_def)
    next
      case (10 b)
      then have "b < 32" using free(1) by linarith
      then show ?case using idle_not_held [OF inv, of b] free_slot_paths [OF inv free 10(2)] 10(1) by simp
    qed (use i in simp_all)
  qed
qed

lemma unregister_peer_inv:
  assumes inv: "node_inv x" and room: "node_refs_room 1 (nr_paths x)"
    and un: "linkg_node_unregister_peer_begin node_id (nr_node x) (nr_paths x) = (ret, retired, c, s)"
  shows "node_next x (x\<lparr>nr_node := c, nr_paths := s, nr_held := nr_held x + mset (map the retired)\<rparr>)"
proof (cases "c = nr_node x \<and> s = nr_paths x \<and> retired = []")
  case True
  then show ?thesis using node_next_refl [OF inv] by simp
next
  case False
  let ?c = "nr_node x" and ?s = "nr_paths x"
  note t = node_invD(1,2,3) [OF inv] and tab = node_invD(8) [OF inv]
  obtain i where i: "linkg_node_find_peer_locked node_id ?c = Some i" "ns_valid (nd_peers ?c ! i)" "\<not> ns_retiring (nd_peers ?c ! i)"
    using un t False by (auto simp: linkg_node_unregister_peer_begin_def split: if_splits option.splits)
  note f = find_peer_SomeD [OF i(1)]
  have i16: "i < 16" using f by simp
  have len: "i < length (nd_peers ?c)" using t i16 by simp
  have b32: "b < 32" if "b div 2 = i" for b using that i16 by linarith
  define as where "as = [2 * i, 2 * i + 1]"
  have as: "distinct as" "\<And>a. a \<in> set as \<longleftrightarrow> a div 2 = i" by (auto simp: as_def)
  obtain s' where s': "node_retire_loop as ?s = (0, map Some (filter (\<lambda>a. path_st ?s a = LINKG_PATH_STATE_ACTIVE) as), s')"
      "released_log s' = released_log ?s"
      "\<And>b. path_at s' b = (if b div 2 = i \<and> path_st ?s b = LINKG_PATH_STATE_ACTIVE then retired_path (path_at ?s b) else path_at ?s b)"
    using retire_loop [OF as(1), of ?s] node_invD(5,6) [OF inv] b32 room unfolding as(2) by (auto simp: node_refs_room_def)
  have state: "path_st s' b = (if b div 2 = i \<and> path_st ?s b = LINKG_PATH_STATE_ACTIVE then LINKG_PATH_STATE_RETIRED else path_st ?s b)" for b
    by (simp add: s'(3) retired_path_def)
  define q where "q = (if linkg_node_paths_empty_locked i s' then node_slot_zero
    else (nd_peers ?c ! i)\<lparr>ns_valid := False, ns_retiring := True, ns_path_count := 0\<rparr>)"
  have "0 < length (filter ns_valid (nd_peers ?c))" using len i(2) by (auto simp: filter_empty_conv)
  then have pos: "0 < nd_peer_count ?c" using tab by (auto simp: node_table_inv_def word_gt_0)
  have r: "retired = map Some (filter (\<lambda>a. path_st ?s a = LINKG_PATH_STATE_ACTIVE) as)" "s = s'"
      "c = (upd_slot i (\<lambda>_. q) ?c)\<lparr>nd_peer_count := nd_peer_count ?c - 1\<rparr>"
    using un t i pos s'(1) len False
    by (auto simp: linkg_node_unregister_peer_begin_def as_def complete_release_eq q_def Let_def upd_slot_def
        simp del: node_retire_loop.simps split: if_splits)
  have init: "pt_initialized (path_at s' b)" if "b div 2 = i" for b
    using node_invD(6) [OF inv b32 [OF that]] by (simp add: s'(3) retired_path_def)
  have pe: "linkg_node_paths_empty_locked i s' \<longleftrightarrow> (\<forall>b. b div 2 = i \<longrightarrow> path_st s' b = LINKG_PATH_STATE_EMPTY)"
  proof -
    have "linkg_node_paths_empty_locked i s' \<longleftrightarrow> (\<forall>b\<in>set as. path_st s' b = LINKG_PATH_STATE_EMPTY)"
      using init by (simp add: linkg_node_paths_empty_locked_def state_init as_def)
    then show ?thesis by (simp add: Ball_def as(2))
  qed
  have q: "\<not> ns_valid q" "ns_path_count q = 0" "ns_retiring q \<longleftrightarrow> \<not> (\<forall>b. b div 2 = i \<longrightarrow> path_st s' b = LINKG_PATH_STATE_EMPTY)"
    "occupied q \<Longrightarrow> ns_info q = ns_info (nd_peers ?c ! i)"
    by (auto simp: q_def node_slot_zero_def occupied_def simp flip: pe)
  have cnt: "Multiset.count (mset (filter (\<lambda>a. path_st ?s a = LINKG_PATH_STATE_ACTIVE) as)) b =
      (if b div 2 = i \<and> path_st ?s b = LINKG_PATH_STATE_ACTIVE then 1 else 0)" for b
    using as by (simp add: distinct_count_atmost_1 count_mset_0_iff)
  have pn: "node_path_inv c s' (nr_held x + mset (map the retired)) b" if b: "b div 2 = i" for b
  proof (cases "path_st ?s b = LINKG_PATH_STATE_ACTIVE")
    case True
    have "path_refs ?s b + 1 < 2 ^ 32" using room b32 [OF b] by (simp add: node_refs_room_def)
    then have "unat (pt_reference_count (path_at ?s b) + 1) = Multiset.count (nr_held x) b + 1"
      using node_invD(4,6,10) [OF inv b32 [OF b]] unat_inc [of "pt_reference_count (path_at ?s b)"]
      by (simp add: node_path_inv_def Let_def path_refs_def linkg_path_get_reference_count_def path_ready_def)
    moreover from this have "pt_reference_count (path_at ?s b) + 1 \<noteq> 0" by (metis add_is_0 unsigned_0 zero_neq_one)
    moreover have "occupied q" using state [of b] b True q(3) by (auto simp: occupied_def)
    ultimately show ?thesis
      using node_invD(4) [OF inv b32 [OF b]] True b len cnt [of b]
      by (simp add: r comp_def node_path_inv_def Let_def path_ok_def s' retired_path_def)
  next
    case False
    have "occupied q" if "path_st ?s b \<noteq> LINKG_PATH_STATE_EMPTY" using state [of b] b False q(3) that by (auto simp: occupied_def)
    then show ?thesis
      using node_invD(4) [OF inv b32 [OF b]] False b len cnt [of b]
      by (simp add: r comp_def node_path_inv_def Let_def s')
  qed
  show ?thesis
  proof (rule node_next_slot [OF inv i16], goal_cases)
    case 1
    have uniq: "ni_node_id (ns_info (nd_peers ?c ! j)) \<noteq> ni_node_id (ns_info (nd_peers ?c ! i))"
      if "j < 16" "j \<noteq> i" "occupied (nd_peers ?c ! j)" for j
      using tab f that by (auto simp: node_table_inv_def Let_def)
    have dec: "unat (nd_peer_count ?c - 1) + 1 = unat (nd_peer_count ?c)"
      using pos unat_dec [of "nd_peer_count ?c"] unat_pos [of "nd_peer_count ?c"] by (simp add: word_gt_0)
    then have "nd_peer_count ?c - 1 \<le> nd_peer_count ?c" by (simp add: word_le_nat_alt)
    then have sta: "ni_role (nd_local ?c) = LINKG_DEVICE_ROLE_STA \<longrightarrow> nd_peer_count ?c - 1 \<le> 1"
      using tab by (auto simp: node_table_inv_def)
    have fits: "linkg_node_info_valid (Some (ns_info (nd_peers ?c ! i))) \<and> ni_node_id (ns_info (nd_peers ?c ! i)) \<noteq> ni_node_id (nd_local ?c) \<and>
        linkg_node_peer_role_valid (ni_role (nd_local ?c)) (ni_role (ns_info (nd_peers ?c ! i)))"
      using tab f unfolding node_table_inv_def Let_def by blast
    show ?case
      by (rule table_inv_slot [OF tab i16, where p = q]) (use t r q uniq fits dec sta i(2) in simp_all)
  next
    case 7 show ?case using pn [of "2 * i"] by (simp add: r(2))
  next
    case 8 show ?case using pn [of "2 * i + 1"] by (simp add: r(2))
  next
    case 9
    have "path_st s' (2 * i) \<noteq> LINKG_PATH_STATE_ACTIVE" "path_st s' (2 * i + 1) \<noteq> LINKG_PATH_STATE_ACTIVE" using state by auto
    moreover have "path_st s' (2 * i) \<noteq> LINKG_PATH_STATE_EMPTY \<or> path_st s' (2 * i + 1) \<noteq> LINKG_PATH_STATE_EMPTY" if "ns_retiring q"
    proof -
      from that q(3) obtain b where "b div 2 = i" "path_st s' b \<noteq> LINKG_PATH_STATE_EMPTY" by auto
      then have "b \<in> set as" using as(2) by simp
      then show ?thesis using \<open>path_st s' b \<noteq> LINKG_PATH_STATE_EMPTY\<close> by (auto simp: as_def)
    qed
    moreover have "pt_link_id (path_at s' b) = pt_link_id (path_at ?s b)" "(path_st s' b = LINKG_PATH_STATE_EMPTY) = (path_st ?s b = LINKG_PATH_STATE_EMPTY)" for b
      by (simp_all add: s'(3) retired_path_def)
    ultimately show ?case using node_invD(7) [OF inv i16] q len by (simp add: r node_slot_inv_def Let_def)
  next
    case (10 b)
    then have "path_st s' b \<noteq> LINKG_PATH_STATE_EMPTY" using idle_not_held [OF inv b32, of b] state [of b] by auto
    then have "occupied q" using q(3) 10(2) by (auto simp: occupied_def)
    then show ?case using q(4) len by (simp add: r s'(3) retired_path_def)
  qed (use r s' cnt in \<open>simp_all add: comp_def\<close>)
qed

end
