(* ===== verification/Node_History.thy ===== *)
theory Node_History
  imports Node_Table
begin

text \<open>
  The histories of the node table (\<open>src/core/node/linkg_node.c\<close>) and what they guarantee: a consistent table, paths
  that stay what they are while somebody holds them, retirements that end, and the exact answer of an acquisition.
\<close>

section \<open>Histories\<close>

lemma node_step_next:
  assumes "node_step x y" "node_inv x"
  shows "node_next x y"
  using assms(1)
proof (cases rule: node_step.cases)
  case (node_account link_id items ret items' s)
  note t = node_invD(1,2) [OF assms(2)]
  show ?thesis
  proof (cases "s = nr_paths x")
    case True
    then show ?thesis using node_next_refl [OF assms(2)] node_account(1) by simp
  next
    case False
    then obtain its its' where "node_account_loop link_id its (nr_node x) (nr_paths x) = (its', s)"
      using node_account(2) t by (auto simp: linkg_node_account_path_rx_batch_def Let_def split: if_splits prod.splits)
    then show ?thesis unfolding node_account(1) by (rule account_loop_inv) (rule assms(2))
  qed
qed (use assms(2) release_node_inv acquire_node_inv unregister_path_inv register_path_inv callback_node_inv
    register_peer_inv unregister_peer_inv in \<open>simp_all\<close>)

text \<open>A history begins with a successful initialisation, when no callback is due.\<close>

inductive node_reach :: "node_run \<Rightarrow> bool" where
  node_start: "linkg_node_init local 0 m inits c0 s0 = (0, c, s) \<Longrightarrow> mutex_ok m \<Longrightarrow> (\<And>a. mutex_ok (snd (inits a))) \<Longrightarrow>
    released_log s0 = [] \<Longrightarrow> node_reach \<lparr>nr_node = c, nr_paths = s, nr_held = {#}\<rparr>"
| node_more: "node_reach x \<Longrightarrow> node_step x y \<Longrightarrow> node_reach y"

lemma node_path_addresses_eq: "node_path_addresses = [0..<32]"
  by (simp add: node_path_addresses_def slot_path_def upt_rec)

lemma fold_clear: "path_at (fold (\<lambda>a. upd_path a (\<lambda>_. path_zero)) as s) b = (if b \<in> set as then path_zero else path_at s b) \<and>
    released_log (fold (\<lambda>a. upd_path a (\<lambda>_. path_zero)) as s) = released_log s"
  by (induction as arbitrary: s) auto

lemma clear_paths:
  "path_at (node_clear_paths s) b = (if b < 32 then path_zero else path_at s b)" "released_log (node_clear_paths s) = released_log s"
  using fold_clear [of node_path_addresses s b] by (simp_all add: node_clear_paths_def node_path_addresses_eq)

lemma init_paths:
  assumes "node_init_paths inits as s = (0, s')" "distinct as" "\<And>a. a \<in> set as \<Longrightarrow> \<not> pt_initialized (path_at s a)"
  shows "path_at s' b = (if b \<in> set as then path_zero\<lparr>pt_stats_lock := snd (inits b), pt_initialized := True\<rparr> else path_at s b) \<and>
    released_log s' = released_log s"
  using assms
proof (induction as arbitrary: s)
  case (Cons a as)
  have z: "path_zero\<lparr>pt_stats_lock := m, pt_reference_count := 0, pt_state := LINKG_PATH_STATE_EMPTY, pt_initialized := True\<rparr> =
    path_zero\<lparr>pt_stats_lock := m, pt_initialized := True\<rparr>" for m by (simp add: path_zero_def)
  let ?s1 = "upd_path a (\<lambda>_. path_zero\<lparr>pt_stats_lock := snd (inits a), pt_initialized := True\<rparr>) s"
  have "fst (inits a) = 0 \<and> node_init_paths inits as ?s1 = (0, s')"
    using Cons.prems(1,3) by (auto simp: linkg_path_init_def z split: if_splits)
  moreover have "\<And>b. b \<in> set as \<Longrightarrow> \<not> pt_initialized (path_at ?s1 b)" using Cons.prems(2,3) by auto
  ultimately show ?case using Cons.IH [of ?s1] Cons.prems(2) by auto
qed simp

lemma node_init_inv:
  assumes "linkg_node_init local 0 m inits c0 s0 = (0, c, s)" "mutex_ok m" "\<And>a. mutex_ok (snd (inits a))" "released_log s0 = []"
  shows "node_inv \<lparr>nr_node = c, nr_paths = s, nr_held = {#}\<rparr>"
proof -
  obtain n where n: "local = Some n" "linkg_node_info_valid (Some n)"
    "c = node_zero\<lparr>nd_lock := m, nd_local := n, nd_initialized := True\<rparr>"
    "node_init_paths inits node_path_addresses (node_clear_paths s0) = (0, s)"
    using assms(1) by (cases local) (auto simp: linkg_node_init_def linkg_node_info_valid_def split: if_splits prod.splits)
  have p: "path_at s a = path_zero\<lparr>pt_stats_lock := snd (inits a), pt_initialized := True\<rparr>" "released_log s = []" if "a < 32" for a
    using init_paths [OF n(4), of a] that assms(4) by (auto simp: node_path_addresses_eq clear_paths path_zero_def)
  have slots: "nd_peers c ! i = node_slot_zero" if "i < 16" for i using that by (simp add: n node_zero_def)
  have "node_table_inv c"
    using assms(2) n(2) slots by (simp add: node_table_inv_def occupied_def n(3)) (simp add: node_zero_def filter_replicate node_slot_zero_def)
  moreover have "node_path_inv c s {#} a" if "a < 32" for a
    using p [OF that] assms(3) [of a] by (simp add: node_path_inv_def path_ok_def path_zero_def)
  moreover have "node_slot_inv c s i" if "i < 16" for i
  proof -
    have "2 * i < 32" "2 * i + 1 < 32" using that by auto
    then show ?thesis using p slots [OF that] by (simp add: node_slot_inv_def path_zero_def node_slot_zero_def)
  qed
  ultimately show ?thesis using p(2) [of 0] by (simp add: node_inv_def)
qed

lemma node_reach_inv: "node_reach x \<Longrightarrow> node_inv x"
  by (induction rule: node_reach.induct) (auto intro: node_init_inv dest: node_step_next simp: node_next_def)

lemma find_peer_exact:
  assumes "node_inv x"
  shows "linkg_node_find_peer_locked node_id (nr_node x) = Some i \<longleftrightarrow>
    i < 16 \<and> occupied (nd_peers (nr_node x) ! i) \<and> ni_node_id (ns_info (nd_peers (nr_node x) ! i)) = node_id"
proof
  assume r: "i < 16 \<and> occupied (nd_peers (nr_node x) ! i) \<and> ni_node_id (ns_info (nd_peers (nr_node x) ! i)) = node_id"
  then have valid: "linkg_node_id_valid node_id"
    using node_invD(8) [OF assms] by (auto simp: node_table_inv_def linkg_node_info_valid_def Let_def split: if_splits)
  then obtain k where k: "linkg_node_find_peer_locked node_id (nr_node x) = Some k"
    using r by (cases "linkg_node_find_peer_locked node_id (nr_node x)")
      (auto simp: linkg_node_find_peer_locked_def find_None_iff Let_def occupied_def)
  then have "k = i" using find_peer_SomeD [OF k] r node_invD(8) [OF assms] unfolding node_table_inv_def Let_def by metis
  then show "linkg_node_find_peer_locked node_id (nr_node x) = Some i" using k by simp
qed (use find_peer_SomeD in blast)

section \<open>What every history guarantees\<close>

text \<open>
  C15. In every history no two slots are of the same node, a lookup finds exactly the slot of the node, \<open>peer_count\<close> is the
  number of the peers, a station has at most one, \<open>path_count\<close> is the number of the active paths, a slot has one
  path to a link, a path has as many references as it has holders, and a free slot has no path.
\<close>

theorem node_table_consistent:
  assumes "node_reach x"
  shows "(\<forall>node_id i. linkg_node_find_peer_locked node_id (nr_node x) = Some i \<longleftrightarrow>
      i < 16 \<and> occupied (nd_peers (nr_node x) ! i) \<and> ni_node_id (ns_info (nd_peers (nr_node x) ! i)) = node_id) \<and>
    unat (nd_peer_count (nr_node x)) = length (filter ns_valid (nd_peers (nr_node x))) \<and>
    (ni_role (nd_local (nr_node x)) = LINKG_DEVICE_ROLE_STA \<longrightarrow> nd_peer_count (nr_node x) \<le> 1) \<and>
    (\<forall>i<16. node_slot_inv (nr_node x) (nr_paths x) i) \<and>
    (\<forall>a<32. path_refs (nr_paths x) a = Multiset.count (nr_held x) a \<and>
      (\<not> occupied (nd_peers (nr_node x) ! (a div 2)) \<longrightarrow> path_st (nr_paths x) a = LINKG_PATH_STATE_EMPTY))"
proof -
  note inv = node_reach_inv [OF assms]
  have "path_st (nr_paths x) a = LINKG_PATH_STATE_EMPTY" if "a < 32" "\<not> occupied (nd_peers (nr_node x) ! (a div 2))" for a
    using free_slot_paths [OF inv _ that(2)] that(1) by simp
  then show ?thesis
    using find_peer_exact [OF inv] node_invD(7,10) [OF inv] node_invD(8) [OF inv] by (simp add: node_table_inv_def)
qed


section \<open>Retirement ends\<close>

text \<open>The steps that do not depend on anybody's decision: a holder drops a reference, a callback that is due runs.\<close>

inductive node_drain :: "node_run \<Rightarrow> node_run \<Rightarrow> bool" where
  drain_release: "a \<in># nr_held x \<Longrightarrow>
    node_drain x (x\<lparr>nr_paths := linkg_path_release (Some a) (nr_paths x), nr_held := nr_held x - {#a#}\<rparr>)"
| drain_callback: "(a, f, i) \<in> set (released_log (nr_paths x)) \<Longrightarrow>
    linkg_node_path_released (Some a) i (nr_node x)
      ((nr_paths x)\<lparr>released_log := remove1 (a, f, i) (released_log (nr_paths x))\<rparr>) = (c, s) \<Longrightarrow>
    node_drain x (x\<lparr>nr_node := c, nr_paths := s\<rparr>)"

lemma drain_step: "node_drain x y \<Longrightarrow> node_step x y"
  by (auto elim!: node_drain.cases intro: node_release node_callback)

definition drain_work :: "node_run \<Rightarrow> nat" where
  "drain_work x = 2 * size (nr_held x) + length (released_log (nr_paths x))"

lemma released_log_release: "length (released_log (linkg_path_release (Some a) s)) \<le> length (released_log s) + 1"
  by (auto simp: linkg_path_release_def linkg_path_release_reference_def linkg_path_complete_release_def Let_def split: option.split)

lemma released_log_callback:
  "linkg_node_path_released p u c s = (c', s') \<Longrightarrow> released_log s' = released_log s"
  by (auto simp: linkg_node_path_released_def linkg_path_reset_def linkg_path_reset_stats_def Let_def
      split: option.splits if_splits prod.splits)

lemma drain_less:
  assumes "node_drain x y"
  shows "drain_work y < drain_work x"
  using assms
proof (cases rule: node_drain.cases)
  case (drain_release a)
  have "size (nr_held x - {#a#}) < size (nr_held x)" using drain_release(2) by (rule size_Diff1_less)
  then show ?thesis using released_log_release [of a "nr_paths x"] drain_release(1) by (simp add: drain_work_def)
next
  case (drain_callback a f i c s)
  then show ?thesis
    using drain_callback(2) released_log_callback [OF drain_callback(3)] length_pos_if_in_set [OF drain_callback(2)]
    by (simp add: drain_callback(1) drain_work_def length_remove1)
qed

lemma drain_bound: "(node_drain ^^ n) x y \<Longrightarrow> n + drain_work y \<le> drain_work x"
proof (induction n arbitrary: y)
  case (Suc n)
  then obtain z where "(node_drain ^^ n) x z" "node_drain z y" by auto
  then show ?case using Suc.IH [of z] drain_less [of z y] by simp
qed simp

lemma callback_slot:
  assumes "linkg_node_path_released p u c s = (c', s')" "ns_valid (nd_peers c ! i)" "\<not> ns_retiring (nd_peers c ! i)"
  shows "nd_peers c' ! i = nd_peers c ! i"
proof -
  have "nd_peers (linkg_node_complete_peer_release_locked k r c) ! i = nd_peers c ! i" for k r
    using assms(2,3) by (cases "k = i") (simp_all add: complete_release_eq)
  then show ?thesis using assms(1)
    by (auto simp: linkg_node_path_released_def Let_def split: option.splits if_splits prod.splits)
qed

lemma drain_keeps_peers:
  assumes "node_drain x y" "node_inv x" "i < 16" "ns_valid (nd_peers (nr_node x) ! i)"
  shows "nd_peers (nr_node y) ! i = nd_peers (nr_node x) ! i"
  using assms(1)
proof (cases rule: node_drain.cases)
  case (drain_callback a f u c s)
  have "\<not> ns_retiring (nd_peers (nr_node x) ! i)" using node_invD(7) [OF assms(2,3)] assms(4) by (auto simp: node_slot_inv_def Let_def)
  then show ?thesis using callback_slot [OF drain_callback(3) assms(4)] by (simp add: drain_callback(1))
qed simp

lemma drain_run:
  assumes "(node_drain ^^ n) x y" "node_reach x"
  shows "node_reach y \<and> (\<forall>i<16. ns_valid (nd_peers (nr_node x) ! i) \<longrightarrow> nd_peers (nr_node y) ! i = nd_peers (nr_node x) ! i)"
  using assms(1)
proof (induction n arbitrary: y)
  case (Suc n)
  then obtain z where z: "(node_drain ^^ n) x z" "node_drain z y" by auto
  with Suc.IH have IH: "node_reach z"
    "\<And>i. i < 16 \<Longrightarrow> ns_valid (nd_peers (nr_node x) ! i) \<Longrightarrow> nd_peers (nr_node z) ! i = nd_peers (nr_node x) ! i" by auto
  then show ?case using node_more [OF IH(1) drain_step [OF z(2)]] drain_keeps_peers [OF z(2) node_reach_inv [OF IH(1)]] by simp
qed (use assms(2) in simp)

lemma drain_stuck:
  assumes "node_inv y" "\<not> (\<exists>z. node_drain y z)"
  shows "nr_held y = {#} \<and> released_log (nr_paths y) = [] \<and> (\<forall>i<16. \<not> ns_retiring (nd_peers (nr_node y) ! i)) \<and>
    (\<forall>a<32. path_st (nr_paths y) a = LINKG_PATH_STATE_EMPTY \<or> path_st (nr_paths y) a = LINKG_PATH_STATE_ACTIVE)"
proof -
  have h: "nr_held y = {#}" using assms(2) drain_release [of _ y] by (metis multiset_nonemptyE)
  have l: "released_log (nr_paths y) = []"
  proof (rule ccontr)
    assume "released_log (nr_paths y) \<noteq> []"
    then obtain a f i where "(a, f, i) \<in> set (released_log (nr_paths y))" by (metis list.set_intros(1) neq_Nil_conv prod_cases3)
    then show False using assms(2) drain_callback [of a f i y] by (metis surj_pair)
  qed
  have s: "path_st (nr_paths y) a = LINKG_PATH_STATE_EMPTY \<or> path_st (nr_paths y) a = LINKG_PATH_STATE_ACTIVE" if "a < 32" for a
    using node_invD(4) [OF assms(1) that] h l
    by (cases "path_st (nr_paths y) a") (auto simp: node_path_inv_def Let_def path_ok_def unat_eq_zero)
  have "\<not> ns_retiring (nd_peers (nr_node y) ! i)" if i: "i < 16" for i
  proof
    assume r: "ns_retiring (nd_peers (nr_node y) ! i)"
    then have d: "path_st (nr_paths y) (2 * i) \<noteq> LINKG_PATH_STATE_EMPTY \<or> path_st (nr_paths y) (2 * i + 1) \<noteq> LINKG_PATH_STATE_EMPTY"
      "\<not> ns_valid (nd_peers (nr_node y) ! i)"
      using node_invD(7) [OF assms(1) i] by (simp_all add: node_slot_inv_def Let_def)
    have "path_st (nr_paths y) a \<noteq> LINKG_PATH_STATE_ACTIVE" if "a div 2 = i" "a < 32" for a
      using node_invD(4) [OF assms(1) that(2)] that(1) d(2) by (auto simp: node_path_inv_def Let_def)
    then show False using s [of "2 * i"] s [of "2 * i + 1"] d(1) i by auto
  qed
  then show ?thesis using h l s by simp
qed


section \<open>Acquiring\<close>

lemma find_path_exact:
  assumes "node_inv x" "i < 16" "link_id \<noteq> 0"
  shows "linkg_node_find_path_index_locked i link_id (nr_paths x) = Some j \<longleftrightarrow>
    j < 2 \<and> path_st (nr_paths x) (2 * i + j) \<noteq> LINKG_PATH_STATE_EMPTY \<and> pt_link_id (path_at (nr_paths x) (2 * i + j)) = link_id"
proof -
  have a: "2 * i < 32" "Suc (2 * i) < 32" using assms(2) by auto
  have g: "linkg_path_get_state (Some (2 * i)) (nr_paths x) = path_st (nr_paths x) (2 * i)"
    "linkg_path_get_state (Some (Suc (2 * i))) (nr_paths x) = path_st (nr_paths x) (Suc (2 * i))"
    using node_invD(9) [OF assms(1)] a by auto
  have "j < 2 \<longleftrightarrow> j = 0 \<or> j = 1" by auto
  then show ?thesis
    using node_invD(7) [OF assms(1,2)] assms(3)
    by (auto simp: linkg_node_find_path_index_locked_def g node_slot_inv_def Let_def)
qed

lemma node_acquire_cases:
  assumes inv: "node_inv x" and acq: "linkg_node_acquire_path node_id link_id (nr_node x) (nr_paths x) = (ret, path, s)"
  shows "path = None \<Longrightarrow> ret < 0 \<and> s = nr_paths x"
    and "path = Some (a, ep) \<Longrightarrow> ret = 0 \<and> s = upd_path a (\<lambda>p. p\<lparr>pt_reference_count := pt_reference_count p + 1\<rparr>) (nr_paths x)"
    and "path = Some (a, ep) \<longleftrightarrow>
      a < 32 \<and> ns_valid (nd_peers (nr_node x) ! (a div 2)) \<and> ni_node_id (ns_info (nd_peers (nr_node x) ! (a div 2))) = node_id \<and>
      path_st (nr_paths x) a = LINKG_PATH_STATE_ACTIVE \<and> pt_link_id (path_at (nr_paths x) a) = link_id \<and>
      pt_next_hop (path_at (nr_paths x) a) = ep"
proof -
  note t = node_invD(1,2) [OF inv]
  let ?c = "nr_node x" and ?s = "nr_paths x"
  have none: "path = None \<Longrightarrow> ret < 0 \<and> s = ?s"
    using acq t acquire_batch_active [of _ ?s 1]
    by (auto simp: linkg_node_acquire_path_def linkg_node_acquire_path_batch_def Let_def split: if_splits option.splits prod.splits)
  have some: "ret = 0 \<and> s = upd_path a (\<lambda>p. p\<lparr>pt_reference_count := pt_reference_count p + 1\<rparr>) ?s \<and>
      a < 32 \<and> ns_valid (nd_peers ?c ! (a div 2)) \<and> ni_node_id (ns_info (nd_peers ?c ! (a div 2))) = node_id \<and>
      path_st ?s a = LINKG_PATH_STATE_ACTIVE \<and> pt_link_id (path_at ?s a) = link_id \<and> pt_next_hop (path_at ?s a) = ep"
    if p: "path = Some (a, ep)" for a ep
  proof -
    obtain i j where ij: "linkg_node_find_peer_locked node_id ?c = Some i" "ns_valid (nd_peers ?c ! i)"
        "linkg_node_find_path_index_locked i link_id ?s = Some j" "linkg_path_is_active (Some (slot_path i j)) ?s"
        "a = slot_path i j" "linkg_path_acquire_batch (Some a) 1 ?s = (0, s)" "ret = 0" "ep = pt_next_hop (path_at s a)"
      using acq t p
      by (auto simp: linkg_node_acquire_path_def linkg_node_acquire_path_batch_def Let_def split: if_splits option.splits prod.splits)
    have f: "i < 16" "ni_node_id (ns_info (nd_peers ?c ! i)) = node_id" using find_peer_SomeD [OF ij(1)] by auto
    have a: "a < 32" "a div 2 = i" "pt_link_id (path_at ?s a) = link_id" using find_path_SomeD [OF inv f(1) ij(3)] ij(5) by auto
    have "path_st ?s a = LINKG_PATH_STATE_ACTIVE" using ij(4,5) node_invD(9) [OF inv a(1)] by (simp add: linkg_path_is_active_def)
    then show ?thesis using acquire_batch_active [OF ij(4), of 1] ij f a by auto
  qed
  have conv: "path = Some (a, ep)"
    if h: "a < 32" "ns_valid (nd_peers ?c ! (a div 2))" "ni_node_id (ns_info (nd_peers ?c ! (a div 2))) = node_id"
      "path_st ?s a = LINKG_PATH_STATE_ACTIVE" "pt_link_id (path_at ?s a) = link_id" "pt_next_hop (path_at ?s a) = ep" for a ep
  proof -
    have i: "a div 2 < 16" using h(1) by simp
    have nz: "link_id \<noteq> 0" using node_invD(5,6) [OF inv h(1)] h(4,5) by (auto simp: path_ok_def)
    have peer: "linkg_node_find_peer_locked node_id ?c = Some (a div 2)"
      using find_peer_exact [OF inv, of node_id "a div 2"] i h by (simp add: occupied_def)
    have sp: "slot_path (a div 2) (a mod 2) = a" by (simp add: slot_path_def)
    have pth: "linkg_node_find_path_index_locked (a div 2) link_id ?s = Some (a mod 2)"
      using find_path_exact [OF inv i nz, of "a mod 2"] h by simp
    have act: "linkg_path_is_active (Some a) ?s" using h(4) node_invD(9) [OF inv h(1)] by (simp add: linkg_path_is_active_def)
    have "\<not> ns_retiring (nd_peers ?c ! (a div 2))" using node_invD(7) [OF inv i] h(2) by (auto simp: node_slot_inv_def Let_def)
    moreover have "linkg_node_id_valid node_id" using peer by (simp add: linkg_node_find_peer_locked_def split: if_splits)
    ultimately show ?thesis
      using acq t peer pth sp act nz h(2,6) acquire_batch_active [OF act, of 1]
      by (simp add: linkg_node_acquire_path_def linkg_node_acquire_path_batch_def Let_def)
  qed
  show "path = None \<Longrightarrow> ret < 0 \<and> s = ?s" by (rule none)
  show "path = Some (a, ep) \<Longrightarrow> ret = 0 \<and> s = upd_path a (\<lambda>p. p\<lparr>pt_reference_count := pt_reference_count p + 1\<rparr>) ?s"
    using some by simp
  show "path = Some (a, ep) \<longleftrightarrow>
      a < 32 \<and> ns_valid (nd_peers ?c ! (a div 2)) \<and> ni_node_id (ns_info (nd_peers ?c ! (a div 2))) = node_id \<and>
      path_st ?s a = LINKG_PATH_STATE_ACTIVE \<and> pt_link_id (path_at ?s a) = link_id \<and> pt_next_hop (path_at ?s a) = ep"
    using some conv by blast
qed

text \<open>
  C18. Acquiring a path gives exactly the active path to the link of a registered peer that has the node's number, with the
  endpoint it has now, and takes one reference; otherwise it fails and changes nothing.
\<close>

theorem node_acquire_exact:
  assumes "node_reach x" "linkg_node_acquire_path node_id link_id (nr_node x) (nr_paths x) = (ret, path, s)"
  shows "(\<forall>a ep. path = Some (a, ep) \<longrightarrow> ret = 0 \<and> s = upd_path a (\<lambda>p. p\<lparr>pt_reference_count := pt_reference_count p + 1\<rparr>) (nr_paths x)) \<and>
    (path = None \<longrightarrow> ret < 0 \<and> s = nr_paths x) \<and>
    (\<forall>a ep. path = Some (a, ep) \<longleftrightarrow>
      a < 32 \<and> ns_valid (nd_peers (nr_node x) ! (a div 2)) \<and> ni_node_id (ns_info (nd_peers (nr_node x) ! (a div 2))) = node_id \<and>
      path_st (nr_paths x) a = LINKG_PATH_STATE_ACTIVE \<and> pt_link_id (path_at (nr_paths x) a) = link_id \<and>
      pt_next_hop (path_at (nr_paths x) a) = ep)"
  using node_acquire_cases [OF node_reach_inv [OF assms(1)] assms(2)] by blast

lemma endpoint_equal_refl: "linkg_node_endpoint_valid (Some e) \<Longrightarrow> linkg_node_endpoint_equal (Some e) (Some e)"
  by (auto simp: linkg_node_endpoint_valid_def linkg_node_endpoint_equal_def split: if_splits)

lemma activate_result:
  "linkg_path_activate (Some a) link_id (Some e) f u s = (0, s') \<Longrightarrow>
    path_st s' a = LINKG_PATH_STATE_ACTIVE \<and> pt_link_id (path_at s' a) = link_id \<and> pt_next_hop (path_at s' a) = e"
  by (auto simp: linkg_path_activate_def Let_def split: if_splits prod.splits)

lemma register_path_result:
  assumes inv: "node_inv x" and i: "i < 16" and nz: "link_id \<noteq> 0" and e: "linkg_node_endpoint_valid (Some e)"
    and reg: "(let activate = (\<lambda>j s1.
           let (ret, s2) = linkg_path_activate (Some (slot_path i j)) link_id (Some e) (Some path_released_callback) (Some i) s1
           in if ret \<noteq> 0 then (ret, nr_node x, s2)
              else (0, upd_slot i (ns_path_count_update (\<lambda>n. n + 1)) (nr_node x), s2))
     in case linkg_node_find_path_index_locked i link_id (nr_paths x) of
          Some j \<Rightarrow>
            (let state = linkg_path_get_state (Some (slot_path i j)) (nr_paths x) in
             if state = LINKG_PATH_STATE_ACTIVE
             then
               (if linkg_node_endpoint_equal (Some (pt_next_hop (path_at (nr_paths x) (slot_path i j)))) (Some e) then (0, nr_node x, nr_paths x)
                else (let (ret, s1) = linkg_path_update_endpoint (Some (slot_path i j)) (Some e) (nr_paths x) in (ret, nr_node x, s1)))
             else if state = LINKG_PATH_STATE_RETIRED then (- EBUSY, nr_node x, nr_paths x)
             else if state = LINKG_PATH_STATE_RELEASED
             then
               (let (ret, s1) = linkg_path_reset (Some (slot_path i j)) (nr_paths x) in
                if ret \<noteq> 0 then (ret, nr_node x, s1) else activate j s1)
             else activate j (nr_paths x))
        | None \<Rightarrow>
            (case linkg_node_find_unused_path_index_locked i (nr_paths x) of
               None \<Rightarrow> (- ENOSPC, nr_node x, nr_paths x)
             | Some j \<Rightarrow> activate j (nr_paths x))) = (0, c, s)"
  shows "\<exists>j<2. path_st s (2 * i + j) = LINKG_PATH_STATE_ACTIVE \<and> pt_link_id (path_at s (2 * i + j)) = link_id \<and>
    linkg_node_endpoint_equal (Some (pt_next_hop (path_at s (2 * i + j)))) (Some e) \<and>
    (c = nr_node x \<or> c = upd_slot i (ns_path_count_update (\<lambda>n. n + 1)) (nr_node x))"
proof -
  have activated: ?thesis
    if "j < 2" "linkg_path_activate (Some (slot_path i j)) link_id (Some e) (Some path_released_callback) (Some i) s1 = (0, s)"
      "c = upd_slot i (ns_path_count_update (\<lambda>n. n + 1)) (nr_node x)" for j s1
    using activate_result [OF that(2)] that(1,3) endpoint_equal_refl [OF e] by (auto simp: slot_path_def)
  show ?thesis
  proof (cases "linkg_node_find_path_index_locked i link_id (nr_paths x)")
    case None
    then obtain j where j: "linkg_node_find_unused_path_index_locked i (nr_paths x) = Some j"
        "linkg_path_activate (Some (slot_path i j)) link_id (Some e) (Some path_released_callback) (Some i) (nr_paths x) = (0, s)"
        "c = upd_slot i (ns_path_count_update (\<lambda>n. n + 1)) (nr_node x)"
      using reg by (auto simp: Let_def split: option.splits prod.splits if_splits)
    have "j < 2" using j(1) by (auto simp: linkg_node_find_unused_path_index_locked_def split: if_splits)
    then show ?thesis using activated j by blast
  next
    case (Some j)
    let ?a = "slot_path i j"
    have j2: "j < 2" "path_st (nr_paths x) (2 * i + j) \<noteq> LINKG_PATH_STATE_EMPTY" "pt_link_id (path_at (nr_paths x) (2 * i + j)) = link_id"
      using Some find_path_exact [OF inv i nz] by auto
    have a: "?a = 2 * i + j" "?a < 32" using j2(1) i by (simp_all add: slot_path_def)
    note g = node_invD(9) [OF inv a(2)] and init = node_invD(6) [OF inv a(2)]
    consider "path_st (nr_paths x) ?a = LINKG_PATH_STATE_ACTIVE" | "path_st (nr_paths x) ?a = LINKG_PATH_STATE_RELEASED"
      using reg Some g j2(2) a(1) by (cases "path_st (nr_paths x) ?a") (auto simp: Let_def)
    then show ?thesis
    proof cases
      case 1
      then show ?thesis
        using reg Some g init j2 a(1) endpoint_equal_refl [OF e]
        by (auto simp: Let_def linkg_path_update_endpoint_def path_ready_def split: if_splits)
    next
      case 2
      then obtain s1 where "linkg_path_activate (Some ?a) link_id (Some e) (Some path_released_callback) (Some i) s1 = (0, s)"
          "c = upd_slot i (ns_path_count_update (\<lambda>n. n + 1)) (nr_node x)"
        using reg Some g by (auto simp: Let_def split: prod.splits if_splits)
      then show ?thesis using activated j2(1) by blast
    qed
  qed
qed

text \<open>
  C19. A path registered for a node and a link can be acquired at once, and leads to the endpoint that was registered.
\<close>

theorem node_register_then_acquire:
  assumes "node_reach x" "linkg_node_register_path node_id link_id (Some e) (nr_node x) (nr_paths x) = (0, c, s)"
  shows "\<exists>a e' s'. linkg_node_acquire_path node_id link_id c s = (0, Some (a, e'), s') \<and>
    linkg_node_endpoint_equal (Some e') (Some e)"
proof -
  note inv = node_reach_inv [OF assms(1)] note t = node_invD(1,2) [OF inv]
  let ?c = "nr_node x" and ?s = "nr_paths x" and ?y = "x\<lparr>nr_node := c, nr_paths := s\<rparr>"
  have y: "node_reach ?y" by (rule node_more [OF assms(1)]) (rule node_register_path [OF assms(2)])
  obtain i where i: "linkg_node_find_peer_locked node_id ?c = Some i" "ns_valid (nd_peers ?c ! i)" "\<not> ns_retiring (nd_peers ?c ! i)"
      "link_id \<noteq> 0" "linkg_node_endpoint_valid (Some e)"
    using assms(2) t by (auto simp: linkg_node_register_path_def Let_def split: if_splits option.splits)
  have i16: "i < 16" using find_peer_SomeD [OF i(1)] by simp
  have idv: "linkg_node_id_valid node_id" using i(1) by (simp add: linkg_node_find_peer_locked_def split: if_splits)
  obtain j where j: "j < 2" "path_st s (2 * i + j) = LINKG_PATH_STATE_ACTIVE" "pt_link_id (path_at s (2 * i + j)) = link_id"
      "linkg_node_endpoint_equal (Some (pt_next_hop (path_at s (2 * i + j)))) (Some e)"
      "c = ?c \<or> c = upd_slot i (ns_path_count_update (\<lambda>n. n + 1)) ?c"
    using register_path_result [OF inv i16 i(4,5) assms(2) [unfolded register_path_eq [OF t i idv]]] by blast
  have info: "ns_valid (nd_peers c ! i)" "ni_node_id (ns_info (nd_peers c ! i)) = node_id"
    using j(5) i(2) find_peer_SomeD [OF i(1)] by (auto simp: nth_update_keep)
  obtain ret path s' where acq: "linkg_node_acquire_path node_id link_id (nr_node ?y) (nr_paths ?y) = (ret, path, s')" by (metis surj_pair)
  have p: "path = Some (2 * i + j, pt_next_hop (path_at s (2 * i + j)))"
    unfolding node_acquire_cases(3) [OF node_reach_inv [OF y] acq] using j(1-3) i16 info by simp
  then show ?thesis using node_acquire_cases(2) [OF node_reach_inv [OF y] acq p] acq j(4) by auto
qed

section \<open>A concrete history\<close>

text \<open>An access point, one station, one path; somebody acquires the path, and the station is unregistered.\<close>

definition node_sample_endpoint :: linkg_path_endpoint where
  "node_sample_endpoint = \<lparr>ep_address = [2, 0, 0x1F, 0x90, 192, 168, 1, 2] @ replicate 120 0, ep_length = 16\<rparr>"

definition node_blank_store :: path_store where
  "node_blank_store = \<lparr>path_at = \<lambda>_. path_zero, released_log = []\<rparr>"

definition node_sample_store :: path_store where
  "node_sample_store = \<lparr>path_at = \<lambda>a. if a < 32 then path_zero\<lparr>pt_initialized := True\<rparr> else path_zero, released_log = []\<rparr>"

definition node_sample_node :: linkg_node_context where
  "node_sample_node = node_zero\<lparr>nd_local := \<lparr>ni_node_id = 1, ni_role = LINKG_DEVICE_ROLE_AP\<rparr>, nd_initialized := True\<rparr>"

lemma node_sample_init:
  assumes "linkg_node_info_valid (Some n)"
  shows "linkg_node_init (Some n) 0 mutex_zero (\<lambda>_. (0, mutex_zero)) node_zero node_blank_store =
    (0, node_sample_node\<lparr>nd_local := n\<rparr>, node_sample_store)"
proof -
  let ?r = "node_init_paths (\<lambda>_. (0, mutex_zero)) node_path_addresses (node_clear_paths node_blank_store)"
  have "fst ?r = 0" by code_simp
  then obtain s where s: "?r = (0, s)" by (cases ?r) simp
  have z: "path_zero\<lparr>pt_stats_lock := mutex_zero, pt_initialized := True\<rparr> = path_zero\<lparr>pt_initialized := True\<rparr>" by (simp add: path_zero_def)
  have "path_at s a = path_at node_sample_store a \<and> released_log s = []" for a
    using init_paths [OF s, of a] by (auto simp: node_path_addresses_eq clear_paths node_blank_store_def node_sample_store_def path_zero_def)
  then have "s = node_sample_store" by (intro path_store.equality) (auto simp: node_sample_store_def)
  moreover have "node_zero\<lparr>nd_lock := mutex_zero, nd_local := n, nd_initialized := True\<rparr> = node_zero\<lparr>nd_local := n, nd_initialized := True\<rparr>"
    by (simp add: node_zero_def)
  moreover have "\<not> nd_initialized node_zero" by (simp add: node_zero_def)
  ultimately show ?thesis using s assms by (simp add: linkg_node_init_def node_sample_node_def)
qed

lemma node_sample_start:
  "linkg_node_init (Some \<lparr>ni_node_id = 1, ni_role = LINKG_DEVICE_ROLE_AP\<rparr>) 0 mutex_zero (\<lambda>_. (0, mutex_zero)) node_zero node_blank_store =
    (0, node_sample_node, node_sample_store)"
proof -
  have "linkg_node_info_valid (Some \<lparr>ni_node_id = 1, ni_role = LINKG_DEVICE_ROLE_AP\<rparr>)" by code_simp
  from node_sample_init [OF this] show ?thesis by (simp add: node_sample_node_def)
qed

definition node_sample_peer :: linkg_node_info where
  "node_sample_peer = \<lparr>ni_node_id = 2, ni_role = LINKG_DEVICE_ROLE_STA\<rparr>"

definition node_sample_registered :: node_run where
  "node_sample_registered = \<lparr>nr_node = snd (linkg_node_register_peer (Some node_sample_peer) node_sample_node), nr_paths = node_sample_store, nr_held = {#}\<rparr>"

definition node_sample_path :: node_run where
  "node_sample_path = (let (ret, c, s) = linkg_node_register_path 2 7 (Some node_sample_endpoint) (nr_node node_sample_registered) node_sample_store
     in \<lparr>nr_node = c, nr_paths = s, nr_held = {#}\<rparr>)"

definition node_sample_held :: node_run where
  "node_sample_held = (let (ret, p, s) = linkg_node_acquire_path 2 7 (nr_node node_sample_path) (nr_paths node_sample_path)
     in node_sample_path\<lparr>nr_paths := s, nr_held := {#0#}\<rparr>)"

definition node_sample_retiring :: node_run where
  "node_sample_retiring = (let (ret, p, c, s) = linkg_node_unregister_peer_begin 2 (nr_node node_sample_held) (nr_paths node_sample_held)
     in \<lparr>nr_node = c, nr_paths = s, nr_held = {#0, 0#}\<rparr>)"

lemma node_sample_results:
  "fst (linkg_node_register_path 2 7 (Some node_sample_endpoint) (nr_node node_sample_registered) node_sample_store) = 0"
  "fst (linkg_node_acquire_path 2 7 (nr_node node_sample_path) (nr_paths node_sample_path)) = 0"
  "fst (snd (linkg_node_acquire_path 2 7 (nr_node node_sample_path) (nr_paths node_sample_path))) = Some (0, node_sample_endpoint)"
  "fst (snd (linkg_node_unregister_peer_begin 2 (nr_node node_sample_held) (nr_paths node_sample_held))) = [Some 0]"
  by code_simp+

lemma node_sample_reach:
  "node_reach node_sample_registered" "node_reach node_sample_path" "node_reach node_sample_held" "node_reach node_sample_retiring"
proof -
  have 0: "node_reach \<lparr>nr_node = node_sample_node, nr_paths = node_sample_store, nr_held = {#}\<rparr>"
    by (rule node_start [OF node_sample_start]) (simp_all add: node_blank_store_def)
  show 1: "node_reach node_sample_registered"
    using node_more [OF 0 node_register_peer [of _ "Some node_sample_peer"]] by (simp add: node_sample_registered_def)
  show 2: "node_reach node_sample_path"
    using node_more [OF 1 node_register_path] node_sample_results(1)
    by (auto simp: node_sample_path_def node_sample_registered_def split: prod.split)
  have r: "nr_held node_sample_path = {#}" by (simp add: node_sample_path_def split: prod.split)
  have room: "node_refs_room n (nr_paths x)" if "node_reach x" "size (nr_held x) + n < 2 ^ 32" for x n
  proof -
    have "Multiset.count (nr_held x) a \<le> size (nr_held x)" for a by (rule count_le_size)
    then show ?thesis using node_invD(10) [OF node_reach_inv [OF that(1)]] that(2)
      unfolding node_refs_room_def by (metis add_le_mono1 le_less_trans)
  qed
  obtain p s where a: "linkg_node_acquire_path 2 7 (nr_node node_sample_path) (nr_paths node_sample_path) = (0, Some (0, node_sample_endpoint), s)"
    using node_sample_results(2,3) by (metis prod.collapse)
  have a': "linkg_node_acquire_path_batch 2 7 1 (nr_node node_sample_path) (nr_paths node_sample_path) = (0, Some (0, node_sample_endpoint), s)"
    using a by (simp add: linkg_node_acquire_path_def)
  show 3: "node_reach node_sample_held"
    using node_more [OF 2 node_acquire [OF _ a']] room [OF 2, of 1] r a by (simp add: node_sample_held_def)
  have h: "nr_held node_sample_held = {#0#}" by (simp add: node_sample_held_def split: prod.split)
  obtain ret c s where u: "linkg_node_unregister_peer_begin 2 (nr_node node_sample_held) (nr_paths node_sample_held) = (ret, [Some 0], c, s)"
    using node_sample_results(4) by (metis prod.collapse)
  have "node_sample_retiring = node_sample_held\<lparr>nr_node := c, nr_paths := s, nr_held := {#0, 0#}\<rparr>"
    by (intro node_run.equality) (simp_all add: node_sample_retiring_def u)
  then show "node_reach node_sample_retiring"
    using node_more [OF 3 node_unregister_peer [OF room [OF 3] u]] h by simp
qed

lemma node_sample_reach_held: "0 \<in># nr_held node_sample_held"
  by (simp add: node_sample_held_def split: prod.split)

theorem node_table_consistent_witness:
  "node_reach node_sample_path \<and> unat (nd_peer_count (nr_node node_sample_path)) = length (filter ns_valid (nd_peers (nr_node node_sample_path)))"
  using node_table_consistent [OF node_sample_reach(2)] node_sample_reach(2) by blast


theorem node_acquire_exact_witness:
  "fst (linkg_node_acquire_path 2 7 (nr_node node_sample_path) (nr_paths node_sample_path)) = 0 \<and>
    path_st (nr_paths node_sample_path) 0 = LINKG_PATH_STATE_ACTIVE"
proof -
  obtain ret p s where a: "linkg_node_acquire_path 2 7 (nr_node node_sample_path) (nr_paths node_sample_path) = (ret, p, s)" by (metis surj_pair)
  then have "p = Some (0, node_sample_endpoint)" using node_sample_results(3) by simp
  then have "ret = 0 \<and> path_st (nr_paths node_sample_path) 0 = LINKG_PATH_STATE_ACTIVE" using node_acquire_exact [OF node_sample_reach(2) a] by blast
  then show ?thesis using a by simp
qed

theorem node_register_then_acquire_witness:
  "\<exists>a e' s'. linkg_node_acquire_path 2 7 (nr_node node_sample_path) (nr_paths node_sample_path) = (0, Some (a, e'), s') \<and>
    linkg_node_endpoint_equal (Some e') (Some node_sample_endpoint)"
proof -
  obtain c s where r: "linkg_node_register_path 2 7 (Some node_sample_endpoint) (nr_node node_sample_registered) (nr_paths node_sample_registered) = (0, c, s)"
    using node_sample_results(1) by (metis prod.collapse select_convs(2) node_sample_registered_def)
  then show ?thesis using node_register_then_acquire [OF node_sample_reach(1) r]
    by (simp add: node_sample_path_def node_sample_registered_def)
qed

text \<open>Both references are dropped, then the callback frees the slot.\<close>

definition node_sample_released :: node_run where
  "node_sample_released = node_sample_retiring\<lparr>nr_paths := linkg_path_release (Some 0) (linkg_path_release (Some 0) (nr_paths node_sample_retiring)), nr_held := {#}\<rparr>"

definition node_sample_freed :: node_run where
  "node_sample_freed = (let (c, s) = linkg_node_path_released (Some 0) (Some 0) (nr_node node_sample_released) ((nr_paths node_sample_released)\<lparr>released_log := []\<rparr>)
     in node_sample_released\<lparr>nr_node := c, nr_paths := s\<rparr>)"

lemma node_sample_log: "released_log (nr_paths node_sample_released) = [(0, 1, Some 0)]"
  by code_simp

lemma node_sample_drained: "(node_drain ^^ 3) node_sample_retiring node_sample_freed"
proof -
  let ?y = "node_sample_retiring\<lparr>nr_paths := linkg_path_release (Some 0) (nr_paths node_sample_retiring), nr_held := {#0#}\<rparr>"
  have h: "nr_held node_sample_retiring = {#0, 0#}" by (simp add: node_sample_retiring_def split: prod.split)
  have 1: "node_drain node_sample_retiring ?y" using drain_release [of 0 node_sample_retiring] h by simp
  have 2: "node_drain ?y node_sample_released" using drain_release [of 0 ?y] by (simp add: node_sample_released_def)
  obtain c s where c: "linkg_node_path_released (Some 0) (Some 0) (nr_node node_sample_released)
      ((nr_paths node_sample_released)\<lparr>released_log := []\<rparr>) = (c, s)" by (metis surj_pair)
  have 3: "node_drain node_sample_released node_sample_freed"
    using drain_callback [of 0 1 "Some 0" node_sample_released c s] c by (simp add: node_sample_log node_sample_freed_def)
  show ?thesis using 1 2 3 by (auto simp: numeral_3_eq_3)
qed

lemma node_sample_freed_log: "released_log (nr_paths node_sample_freed) = []"
  using released_log_callback [of "Some 0" "Some 0" "nr_node node_sample_released" "(nr_paths node_sample_released)\<lparr>released_log := []\<rparr>"]
  by (auto simp: node_sample_freed_def split: prod.split)


end
