(* ===== verification/Link_Life.thy ===== *)
theory Link_Life
  imports Linkg_Prelude
begin

text \<open>
  The life cycle of a link as its threads see it: \<open>src/core/link/linkg_link.c\<close> (start, stop, destroy) and
  the gates of \<open>src/core/link/link_tx.c\<close> that let a sender or a purge into the driver.

  Any number of threads call these functions at the same time. Each step of a thread is one access the
  others can see: a section under the control lock, the start or the return of a driver call, taking or
  giving back the read or write side of the io lock, or an access to the flag \<open>opened\<close>. What the driver
  callbacks and the thread primitives answer is arbitrary. The invariant that relates the shared state to
  the positions of all threads gives that no send is in the driver while the driver is opened, closed or
  being closed, and the same for the receive thread.
\<close>

section \<open>State\<close>

datatype linkg_link_state =
    LINKG_LINK_STATE_STOPPED | LINKG_LINK_STATE_STARTING | LINKG_LINK_STATE_RUNNING
  | LINKG_LINK_STATE_STOPPING | LINKG_LINK_STATE_FAILED

text \<open>
  The shared state: \<open>link->state\<close>, \<open>runtime->opened\<close>, whether the receive thread is started, the threads on the
  read side and the one on the write side of \<open>io_lock\<close>, and, of the driver, whether its resources are open.
\<close>

record link_shared =
  ls_state :: linkg_link_state
  ls_opened :: bool
  ls_rx_started :: bool
  ls_readers :: "nat set"
  ls_writer :: "nat option"
  ls_driver_open :: bool

text \<open>
  Where a thread is. A name says what it does next, or which driver call it is in; an \<open>int\<close> is the value
  of \<open>ret\<close> or \<open>first_error\<close>, a \<open>bool\<close> that of \<open>cleanup_complete\<close>.
\<close>

datatype link_pc =
    Outside
  | StartInOpen | StartMarkOpened | StartRxThread | StartMarkRunning
  | StartInClose int | StartMarkClosed int | StartMarkStopped int | StartMarkFailed int
  | StopRxThread | StopTestRx int | StopTakeLock int | StopTestOpened int | StopInClose int
  | StopMarkClosed int | StopGiveLock int bool | StopMarkEnd int bool
  | SendTakeLock | SendTestState | SendTestOpened | SendTestPath | SendInDriver | SendGiveLock
  | PurgeTakeLock | PurgeTestOpened | PurgeInDriver | PurgeGiveLock

section \<open>Operations\<close>

inductive linkg_link_start_step :: "link_shared \<Rightarrow> link_pc \<Rightarrow> link_shared \<Rightarrow> link_pc \<Rightarrow> bool" where
  start_already: "ls_state s = LINKG_LINK_STATE_RUNNING \<Longrightarrow> linkg_link_start_step s Outside s Outside"
| start_busy: "ls_state s \<noteq> LINKG_LINK_STATE_RUNNING \<Longrightarrow> ls_state s \<noteq> LINKG_LINK_STATE_STOPPED \<Longrightarrow>
    linkg_link_start_step s Outside s Outside"
| start_begin: "ls_state s = LINKG_LINK_STATE_STOPPED \<Longrightarrow>
    linkg_link_start_step s Outside (s\<lparr>ls_state := LINKG_LINK_STATE_STARTING\<rparr>) StartInOpen"
| open_ok: "linkg_link_start_step s StartInOpen (s\<lparr>ls_driver_open := True\<rparr>) StartMarkOpened"
| open_fail: "ret \<noteq> 0 \<Longrightarrow> linkg_link_start_step s StartInOpen s (StartMarkStopped ret)"
| mark_opened: "linkg_link_start_step s StartMarkOpened (s\<lparr>ls_opened := True\<rparr>) StartRxThread"
| rx_ok: "linkg_link_start_step s StartRxThread (s\<lparr>ls_rx_started := True\<rparr>) StartMarkRunning"
| rx_fail: "ret \<noteq> 0 \<Longrightarrow> linkg_link_start_step s StartRxThread s (StartInClose ret)"
| mark_running: "linkg_link_start_step s StartMarkRunning (s\<lparr>ls_state := LINKG_LINK_STATE_RUNNING\<rparr>) Outside"
| close_ok: "linkg_link_start_step s (StartInClose ret) (s\<lparr>ls_driver_open := False\<rparr>) (StartMarkClosed ret)"
| close_fail: "linkg_link_start_step s (StartInClose ret) s (StartMarkFailed ret)"
| mark_closed: "linkg_link_start_step s (StartMarkClosed ret) (s\<lparr>ls_opened := False\<rparr>) (StartMarkStopped ret)"
| mark_stopped: "linkg_link_start_step s (StartMarkStopped ret) (s\<lparr>ls_state := LINKG_LINK_STATE_STOPPED\<rparr>) Outside"
| mark_failed: "linkg_link_start_step s (StartMarkFailed ret) (s\<lparr>ls_state := LINKG_LINK_STATE_FAILED\<rparr>) Outside"

text \<open>
  \<open>linkg_thread_stop\<close> answers 0 only when the thread is no longer started; when it fails the thread may or
  may not be. The write side of the lock is taken when nobody holds it.
\<close>

inductive linkg_link_stop_step :: "nat \<Rightarrow> link_shared \<Rightarrow> link_pc \<Rightarrow> link_shared \<Rightarrow> link_pc \<Rightarrow> bool" for t where
  stop_done: "ls_state s = LINKG_LINK_STATE_STOPPED \<Longrightarrow> linkg_link_stop_step t s Outside s Outside"
| stop_busy: "ls_state s = LINKG_LINK_STATE_STARTING \<or> ls_state s = LINKG_LINK_STATE_STOPPING \<Longrightarrow>
    linkg_link_stop_step t s Outside s Outside"
| stop_begin: "ls_state s = LINKG_LINK_STATE_RUNNING \<or> ls_state s = LINKG_LINK_STATE_FAILED \<Longrightarrow>
    linkg_link_stop_step t s Outside (s\<lparr>ls_state := LINKG_LINK_STATE_STOPPING\<rparr>) StopRxThread"
| rx_not_started: "\<not> ls_rx_started s \<Longrightarrow> linkg_link_stop_step t s StopRxThread s (StopTestRx 0)"
| rx_stop: "ls_rx_started s \<Longrightarrow> ret = 0 \<longrightarrow> \<not> started \<Longrightarrow>
    linkg_link_stop_step t s StopRxThread (s\<lparr>ls_rx_started := started\<rparr>) (StopTestRx ret)"
| rx_gone: "\<not> ls_rx_started s \<Longrightarrow> linkg_link_stop_step t s (StopTestRx e) s (StopTakeLock e)"
| rx_left: "ls_rx_started s \<Longrightarrow>
    linkg_link_stop_step t s (StopTestRx e) s (StopMarkEnd (if e = 0 then - EBUSY else e) False)"
| take_write: "ls_readers s = {} \<Longrightarrow> ls_writer s = None \<Longrightarrow>
    linkg_link_stop_step t s (StopTakeLock e) (s\<lparr>ls_writer := Some t\<rparr>) (StopTestOpened e)"
| test_opened: "ls_opened s \<Longrightarrow> linkg_link_stop_step t s (StopTestOpened e) s (StopInClose e)"
| test_closed: "\<not> ls_opened s \<Longrightarrow> linkg_link_stop_step t s (StopTestOpened e) s (StopGiveLock e True)"
| stop_close_ok: "linkg_link_stop_step t s (StopInClose e) (s\<lparr>ls_driver_open := False\<rparr>) (StopMarkClosed e)"
| stop_close_fail: "ret \<noteq> 0 \<Longrightarrow>
    linkg_link_stop_step t s (StopInClose e) s (StopGiveLock (if e = 0 then ret else e) False)"
| stop_mark_closed: "linkg_link_stop_step t s (StopMarkClosed e) (s\<lparr>ls_opened := False\<rparr>) (StopGiveLock e True)"
| give_write: "linkg_link_stop_step t s (StopGiveLock e c) (s\<lparr>ls_writer := None\<rparr>) (StopMarkEnd e c)"
| mark_end: "linkg_link_stop_step t s (StopMarkEnd e c)
    (s\<lparr>ls_state := (if c then LINKG_LINK_STATE_STOPPED else LINKG_LINK_STATE_FAILED)\<rparr>) Outside"

text \<open>
  The gate of \<open>linkg_link_submit_batch\<close>: the state without the lock, then the read side, the state again, the
  flag and the path; \<open>SendInDriver\<close> is the loop that calls \<open>send_batch\<close>.
\<close>

inductive linkg_link_submit_step :: "nat \<Rightarrow> link_shared \<Rightarrow> link_pc \<Rightarrow> link_shared \<Rightarrow> link_pc \<Rightarrow> bool" for t where
  send_down: "ls_state s \<noteq> LINKG_LINK_STATE_RUNNING \<Longrightarrow> linkg_link_submit_step t s Outside s Outside"
| send_begin: "ls_state s = LINKG_LINK_STATE_RUNNING \<Longrightarrow> linkg_link_submit_step t s Outside s SendTakeLock"
| send_take_read: "ls_writer s = None \<Longrightarrow>
    linkg_link_submit_step t s SendTakeLock (s\<lparr>ls_readers := insert t (ls_readers s)\<rparr>) SendTestState"
| state_down: "ls_state s \<noteq> LINKG_LINK_STATE_RUNNING \<Longrightarrow> linkg_link_submit_step t s SendTestState s SendGiveLock"
| state_running: "ls_state s = LINKG_LINK_STATE_RUNNING \<Longrightarrow> linkg_link_submit_step t s SendTestState s SendTestOpened"
| not_opened: "\<not> ls_opened s \<Longrightarrow> linkg_link_submit_step t s SendTestOpened s SendGiveLock"
| opened: "ls_opened s \<Longrightarrow> linkg_link_submit_step t s SendTestOpened s SendTestPath"
| path_inactive: "linkg_link_submit_step t s SendTestPath s SendGiveLock"
| path_active: "linkg_link_submit_step t s SendTestPath s SendInDriver"
| send_done: "linkg_link_submit_step t s SendInDriver s SendGiveLock"
| send_give_read: "linkg_link_submit_step t s SendGiveLock (s\<lparr>ls_readers := ls_readers s - {t}\<rparr>) Outside"

inductive linkg_link_purge_step :: "nat \<Rightarrow> link_shared \<Rightarrow> link_pc \<Rightarrow> link_shared \<Rightarrow> link_pc \<Rightarrow> bool" for t where
  purge_begin: "linkg_link_purge_step t s Outside s PurgeTakeLock"
| purge_take_read: "ls_writer s = None \<Longrightarrow>
    linkg_link_purge_step t s PurgeTakeLock (s\<lparr>ls_readers := insert t (ls_readers s)\<rparr>) PurgeTestOpened"
| purge_not_opened: "\<not> ls_opened s \<Longrightarrow> linkg_link_purge_step t s PurgeTestOpened s PurgeGiveLock"
| purge_opened: "ls_opened s \<Longrightarrow> linkg_link_purge_step t s PurgeTestOpened s PurgeInDriver"
| purge_done: "linkg_link_purge_step t s PurgeInDriver s PurgeGiveLock"
| purge_give_read: "linkg_link_purge_step t s PurgeGiveLock (s\<lparr>ls_readers := ls_readers s - {t}\<rparr>) Outside"

section \<open>The whole system\<close>

type_synonym link_system = "link_shared \<times> (nat \<Rightarrow> link_pc)"

inductive link_step :: "link_system \<Rightarrow> link_system \<Rightarrow> bool" where
  start: "linkg_link_start_step s (pcs t) s' pc \<Longrightarrow> link_step (s, pcs) (s', pcs(t := pc))"
| stop: "linkg_link_stop_step t s (pcs t) s' pc \<Longrightarrow> link_step (s, pcs) (s', pcs(t := pc))"
| submit: "linkg_link_submit_step t s (pcs t) s' pc \<Longrightarrow> link_step (s, pcs) (s', pcs(t := pc))"
| purge: "linkg_link_purge_step t s (pcs t) s' pc \<Longrightarrow> link_step (s, pcs) (s', pcs(t := pc))"

text \<open>\<open>linkg_link_create\<close> leaves a link stopped, with nothing open and no lock held.\<close>

definition link_created :: link_shared where
  "link_created = \<lparr>ls_state = LINKG_LINK_STATE_STOPPED, ls_opened = False, ls_rx_started = False, ls_readers = {},
     ls_writer = None, ls_driver_open = False\<rparr>"

inductive link_reach :: "link_system \<Rightarrow> bool" where
  created: "link_reach (link_created, \<lambda>_. Outside)"
| step: "link_reach c \<Longrightarrow> link_step c c' \<Longrightarrow> link_reach c'"

text \<open>\<open>linkg_link_destroy\<close> goes ahead exactly in the state STOPPED.\<close>

definition linkg_link_destroy :: "link_shared \<Rightarrow> link_shared option" where
  "linkg_link_destroy s = (if ls_state s \<noteq> LINKG_LINK_STATE_STOPPED then Some s else None)"

section \<open>Invariant\<close>

text \<open>Threads on the read and on the write side of the lock, and those past the state test of a send.\<close>

fun reads :: "link_pc \<Rightarrow> bool" where
  "reads SendTestState = True" | "reads SendTestOpened = True" | "reads SendTestPath = True" | "reads SendInDriver = True"
| "reads SendGiveLock = True" | "reads PurgeTestOpened = True" | "reads PurgeInDriver = True" | "reads PurgeGiveLock = True"
| "reads _ = False"

fun writes :: "link_pc \<Rightarrow> bool" where
  "writes (StopTestOpened e) = True" | "writes (StopInClose e) = True" | "writes (StopMarkClosed e) = True"
| "writes (StopGiveLock e c) = True" | "writes _ = False"

fun passed :: "link_pc \<Rightarrow> bool" where
  "passed SendTestOpened = True" | "passed SendTestPath = True" | "passed SendInDriver = True" | "passed _ = False"

text \<open>What holds of the shared state while a start or a stop is on its way, position by position.\<close>

definition parts :: "link_shared \<Rightarrow> linkg_link_state \<Rightarrow> bool \<Rightarrow> bool \<Rightarrow> bool \<Rightarrow> bool" where
  "parts s st opened driver rx \<longleftrightarrow> ls_state s = st \<and> ls_opened s = opened \<and> ls_driver_open s = driver \<and> ls_rx_started s = rx"

fun control_ok :: "link_shared \<Rightarrow> link_pc \<Rightarrow> bool" where
  "control_ok s StartInOpen = parts s LINKG_LINK_STATE_STARTING False False False"
| "control_ok s StartMarkOpened = parts s LINKG_LINK_STATE_STARTING False True False"
| "control_ok s StartRxThread = parts s LINKG_LINK_STATE_STARTING True True False"
| "control_ok s StartMarkRunning = parts s LINKG_LINK_STATE_STARTING True True True"
| "control_ok s (StartInClose e) = parts s LINKG_LINK_STATE_STARTING True True False"
| "control_ok s (StartMarkClosed e) = parts s LINKG_LINK_STATE_STARTING True False False"
| "control_ok s (StartMarkStopped e) = parts s LINKG_LINK_STATE_STARTING False False False"
| "control_ok s (StartMarkFailed e) = parts s LINKG_LINK_STATE_STARTING True True False"
| "control_ok s StopRxThread = (\<exists>rx. parts s LINKG_LINK_STATE_STOPPING True True rx)"
| "control_ok s (StopTestRx e) = (\<exists>rx. parts s LINKG_LINK_STATE_STOPPING True True rx)"
| "control_ok s (StopTakeLock e) = parts s LINKG_LINK_STATE_STOPPING True True False"
| "control_ok s (StopTestOpened e) = parts s LINKG_LINK_STATE_STOPPING True True False"
| "control_ok s (StopInClose e) = parts s LINKG_LINK_STATE_STOPPING True True False"
| "control_ok s (StopMarkClosed e) = parts s LINKG_LINK_STATE_STOPPING True False False"
| "control_ok s (StopGiveLock e c) = (if c then parts s LINKG_LINK_STATE_STOPPING False False False
     else \<exists>rx. parts s LINKG_LINK_STATE_STOPPING True True rx)"
| "control_ok s (StopMarkEnd e c) = (if c then parts s LINKG_LINK_STATE_STOPPING False False False
     else \<exists>rx. parts s LINKG_LINK_STATE_STOPPING True True rx)"
| "control_ok s _ = True"

fun controls :: "link_pc \<Rightarrow> bool" where
  "controls StartInOpen = True" | "controls StartMarkOpened = True" | "controls StartRxThread = True"
| "controls StartMarkRunning = True" | "controls (StartInClose e) = True" | "controls (StartMarkClosed e) = True"
| "controls (StartMarkStopped e) = True" | "controls (StartMarkFailed e) = True"
| "controls StopRxThread = True" | "controls (StopTestRx e) = True" | "controls (StopTakeLock e) = True"
| "controls (StopTestOpened e) = True" | "controls (StopInClose e) = True" | "controls (StopMarkClosed e) = True"
| "controls (StopGiveLock e c) = True" | "controls (StopMarkEnd e c) = True" | "controls _ = False"

text \<open>And when none is.\<close>

definition idle_ok :: "link_shared \<Rightarrow> bool" where
  "idle_ok s \<longleftrightarrow> parts s LINKG_LINK_STATE_STOPPED False False False \<or> parts s LINKG_LINK_STATE_RUNNING True True True \<or>
     (\<exists>rx. parts s LINKG_LINK_STATE_FAILED True True rx)"

definition in_transit :: "link_shared \<Rightarrow> bool" where
  "in_transit s \<longleftrightarrow> ls_state s = LINKG_LINK_STATE_STARTING \<or> ls_state s = LINKG_LINK_STATE_STOPPING"

text \<open>The driver may be used.\<close>

definition usable :: "link_shared \<Rightarrow> bool" where
  "usable s \<longleftrightarrow> ls_state s \<noteq> LINKG_LINK_STATE_STOPPED \<and> ls_state s \<noteq> LINKG_LINK_STATE_STARTING \<and> ls_opened s \<and> ls_driver_open s"

definition link_inv :: "link_system \<Rightarrow> bool" where
  "link_inv = (\<lambda>(s, pcs).
     (\<forall>t. t \<in> ls_readers s \<longleftrightarrow> reads (pcs t)) \<and> (\<forall>t. ls_writer s = Some t \<longleftrightarrow> writes (pcs t)) \<and>
     (ls_writer s \<noteq> None \<longrightarrow> ls_readers s = {}) \<and>
     (\<forall>t t'. controls (pcs t) \<longrightarrow> controls (pcs t') \<longrightarrow> t = t') \<and> (\<forall>t. control_ok s (pcs t)) \<and>
     ((\<forall>t. \<not> controls (pcs t)) \<longrightarrow> idle_ok s) \<and> (\<forall>t. passed (pcs t) \<longrightarrow> usable s))"

lemma control_transit: "control_ok s pc \<Longrightarrow> controls pc \<Longrightarrow> in_transit s"
  by (cases pc) (auto simp: parts_def in_transit_def split: if_splits)

lemma idle_not_transit: "idle_ok s \<Longrightarrow> \<not> in_transit s"
  by (auto simp: idle_ok_def parts_def in_transit_def)

lemma passed_reads: "passed pc \<Longrightarrow> reads pc"
  by (cases pc) auto

lemma writes_not_reads: "writes pc \<Longrightarrow> \<not> reads pc"
  by (cases pc) auto

lemma control_ok_frame:
  assumes "ls_state s' = ls_state s" "ls_opened s' = ls_opened s" "ls_driver_open s' = ls_driver_open s" "ls_rx_started s' = ls_rx_started s"
  shows "control_ok s' pc = control_ok s pc" "idle_ok s' = idle_ok s" "usable s' = usable s" "in_transit s' = in_transit s"
proof -
  have "parts s' = parts s" using assms by (simp add: parts_def fun_eq_iff)
  then show "control_ok s' pc = control_ok s pc" "idle_ok s' = idle_ok s" by (cases pc; simp add: idle_ok_def)+
qed (use assms in \<open>simp_all add: usable_def in_transit_def\<close>)

text \<open>
  What a step of one thread has to do with the shared state for the invariant to survive, whatever the
  other threads are doing.
\<close>

definition same_parts :: "link_shared \<Rightarrow> link_shared \<Rightarrow> bool" where
  "same_parts s s' \<longleftrightarrow> ls_state s' = ls_state s \<and> ls_opened s' = ls_opened s \<and> ls_driver_open s' = ls_driver_open s \<and>
     ls_rx_started s' = ls_rx_started s"

definition thread_ok :: "nat \<Rightarrow> link_shared \<Rightarrow> link_pc \<Rightarrow> link_shared \<Rightarrow> link_pc \<Rightarrow> bool" where
  "thread_ok t s pc s' pc' \<longleftrightarrow>
     ls_readers s' = (if reads pc' then insert t (ls_readers s) else if reads pc then ls_readers s - {t} else ls_readers s) \<and>
     ls_writer s' = (if writes pc' then Some t else if writes pc then None else ls_writer s) \<and>
     (writes pc' \<and> \<not> writes pc \<longrightarrow> ls_readers s = {} \<and> ls_writer s = None) \<and>
     (reads pc' \<and> \<not> reads pc \<longrightarrow> ls_writer s = None) \<and> \<not> (writes pc \<and> reads pc') \<and> \<not> (reads pc \<and> writes pc') \<and>
     control_ok s' pc' \<and> (controls pc' \<and> \<not> controls pc \<longrightarrow> \<not> in_transit s) \<and>
     (controls pc \<and> \<not> controls pc' \<longrightarrow> idle_ok s') \<and> (\<not> controls pc \<and> \<not> controls pc' \<longrightarrow> same_parts s s') \<and>
     (passed pc' \<longrightarrow> usable s') \<and> (usable s \<and> \<not> usable s' \<longrightarrow> writes pc)"

lemma thread_preserves:
  assumes inv: "link_inv (s, pcs)" and th: "thread_ok t s (pcs t) s' pc"
  shows "link_inv (s', pcs(t := pc))"
proof -
  have i: "\<And>u. u \<in> ls_readers s \<longleftrightarrow> reads (pcs u)" "\<And>u. ls_writer s = Some u \<longleftrightarrow> writes (pcs u)"
    "ls_writer s \<noteq> None \<Longrightarrow> ls_readers s = {}" "\<And>u u'. controls (pcs u) \<Longrightarrow> controls (pcs u') \<Longrightarrow> u = u'"
    "\<And>u. control_ok s (pcs u)" "(\<And>u. \<not> controls (pcs u)) \<Longrightarrow> idle_ok s" "\<And>u. passed (pcs u) \<Longrightarrow> usable s"
    using inv unfolding link_inv_def prod.case by blast+
  have k: "ls_readers s' = (if reads pc then insert t (ls_readers s) else if reads (pcs t) then ls_readers s - {t} else ls_readers s)"
    "ls_writer s' = (if writes pc then Some t else if writes (pcs t) then None else ls_writer s)"
    "writes pc \<Longrightarrow> \<not> writes (pcs t) \<Longrightarrow> ls_readers s = {} \<and> ls_writer s = None"
    "reads pc \<Longrightarrow> \<not> reads (pcs t) \<Longrightarrow> ls_writer s = None" "\<not> (writes (pcs t) \<and> reads pc)" "\<not> (reads (pcs t) \<and> writes pc)"
    "control_ok s' pc" "controls pc \<Longrightarrow> \<not> controls (pcs t) \<Longrightarrow> \<not> in_transit s"
    "controls (pcs t) \<Longrightarrow> \<not> controls pc \<Longrightarrow> idle_ok s'" "\<not> controls (pcs t) \<Longrightarrow> \<not> controls pc \<Longrightarrow> same_parts s s'"
    "passed pc \<Longrightarrow> usable s'" "usable s \<Longrightarrow> \<not> usable s' \<Longrightarrow> writes (pcs t)"
    using th unfolding thread_ok_def by blast+
  have r: "u \<in> ls_readers s' \<longleftrightarrow> reads ((pcs(t := pc)) u)" for u using k(1) i(1) [of u] by auto
  have w: "ls_writer s' = Some u \<longleftrightarrow> writes ((pcs(t := pc)) u)" for u
  proof (cases "u = t")
    case True
    then show ?thesis using k(2) i(2) [of t] by auto
  next
    case False
    then show ?thesis using k(2) k(3) i(2) [of u] i(2) [of t] by (cases "writes pc"; cases "writes (pcs t)") auto
  qed
  have x: "ls_readers s' = {}" if "ls_writer s' \<noteq> None"
    using that k(1-6) writes_not_reads [of pc] i(1) [of t] i(2) [of t] i(3) by (auto split: if_splits)
  have one: "u = u'" if "controls ((pcs(t := pc)) u)" "controls ((pcs(t := pc)) u')" for u u'
    using that i(4) [of u u'] i(4) [of u t] i(4) [of u' t] k(8) i(5) [of u] i(5) [of u'] control_transit [of s "pcs u"] control_transit [of s "pcs u'"]
    by (auto split: if_splits)
  have quiet: "\<not> controls (pcs u)" if "controls pc \<or> controls (pcs t)" "u \<noteq> t" for u
    using that i(4) [of u t] k(8) i(5) [of u] control_transit [of s "pcs u"] by auto
  have co: "control_ok s' ((pcs(t := pc)) u)" for u
  proof (cases "u = t")
    case False
    show ?thesis
    proof (cases "controls pc \<or> controls (pcs t)")
      case True
      then have "\<not> controls (pcs u)" using quiet False by blast
      then show ?thesis using False by (cases "pcs u") auto
    next
      case no: False
      then show ?thesis using k(10) i(5) [of u] False control_ok_frame(1) [of s' s] by (simp add: same_parts_def)
    qed
  qed (simp add: k(7))
  have idle: "idle_ok s'" if "\<And>u. \<not> controls ((pcs(t := pc)) u)"
  proof (cases "controls (pcs t)")
    case True
    then show ?thesis using k(9) that [of t] by simp
  next
    case False
    have "\<not> controls (pcs u)" for u using that [of u] False by (cases "u = t") auto
    then show ?thesis using i(6) k(10) [OF False] that [of t] control_ok_frame(2) [of s' s] by (simp add: same_parts_def)
  qed
  have us: "usable s'" if "passed ((pcs(t := pc)) u)" for u
  proof (cases "u = t")
    case False
    then have u: "passed (pcs u)" using that by simp
    then have "\<not> writes (pcs t)" using i(1) [of u] i(2) [of t] i(3) passed_reads [of "pcs u"] by auto
    then show ?thesis using k(12) i(7) [OF u] by blast
  qed (use that k(11) in simp)
  show ?thesis unfolding link_inv_def prod.case using r w x one co idle us by blast
qed

text \<open>Every step of the four operations is of that kind.\<close>

lemmas thread_defs = thread_ok_def same_parts_def parts_def in_transit_def idle_ok_def usable_def

lemma start_thread_ok:
  assumes "linkg_link_start_step s pc s' pc'" "control_ok s pc" "\<not> in_transit s \<Longrightarrow> idle_ok s"
  shows "thread_ok t s pc s' pc'"
  using assms by (cases rule: linkg_link_start_step.cases) (auto simp: thread_defs)

lemma stop_thread_ok:
  assumes "linkg_link_stop_step t s pc s' pc'" "control_ok s pc" "\<not> in_transit s \<Longrightarrow> idle_ok s"
    "ls_writer s = Some t \<longleftrightarrow> writes pc"
  shows "thread_ok t s pc s' pc'"
  using assms by (cases rule: linkg_link_stop_step.cases) (auto simp: thread_defs split: if_splits)

lemma submit_thread_ok:
  assumes "linkg_link_submit_step t s pc s' pc'" "\<not> in_transit s \<Longrightarrow> idle_ok s" "passed pc \<Longrightarrow> usable s"
    "t \<in> ls_readers s \<longleftrightarrow> reads pc"
  shows "thread_ok t s pc s' pc'"
  using assms by (cases rule: linkg_link_submit_step.cases) (auto simp: thread_defs)

lemma purge_thread_ok:
  assumes "linkg_link_purge_step t s pc s' pc'" "t \<in> ls_readers s \<longleftrightarrow> reads pc"
  shows "thread_ok t s pc s' pc'"
  using assms by (cases rule: linkg_link_purge_step.cases) (auto simp: thread_defs)

lemma link_inv_facts:
  assumes "link_inv (s, pcs)"
  shows "control_ok s (pcs t)" "\<not> in_transit s \<Longrightarrow> idle_ok s" "passed (pcs t) \<Longrightarrow> usable s" "t \<in> ls_readers s \<longleftrightarrow> reads (pcs t)"
    "ls_writer s = Some t \<longleftrightarrow> writes (pcs t)"
proof -
  show c: "control_ok s (pcs t)" for t using assms by (simp add: link_inv_def)
  show "idle_ok s" if "\<not> in_transit s"
    using assms that c control_transit unfolding link_inv_def by blast
qed (use assms in \<open>auto simp: link_inv_def\<close>)

lemma link_step_inv:
  assumes "link_step c c'" "link_inv c" shows "link_inv c'"
  using assms
proof (cases rule: link_step.cases)
  case (start s pcs t s' pc)
  then show ?thesis using thread_preserves start_thread_ok link_inv_facts assms(2) by metis
next
  case (stop t s pcs s' pc)
  then show ?thesis using thread_preserves stop_thread_ok link_inv_facts assms(2) by metis
next
  case (submit t s pcs s' pc)
  then show ?thesis using thread_preserves submit_thread_ok link_inv_facts assms(2) by metis
next
  case (purge t s pcs s' pc)
  then show ?thesis using thread_preserves purge_thread_ok link_inv_facts assms(2) by metis
qed

lemma link_reach_inv: "link_reach c \<Longrightarrow> link_inv c"
proof (induction rule: link_reach.induct)
  case created
  show ?case by (simp add: link_inv_def link_created_def idle_ok_def parts_def)
qed (rule link_step_inv)

section \<open>Properties\<close>

text \<open>A driver call that must not overlap a use of the driver.\<close>

fun opens_or_closes :: "link_pc \<Rightarrow> bool" where
  "opens_or_closes StartInOpen = True" | "opens_or_closes (StartInClose e) = True" | "opens_or_closes (StopInClose e) = True"
| "opens_or_closes _ = False"

text \<open>
  C14. Whatever the interleaving of any number of starts, stops, sends and purges, and whatever the driver
  callbacks and thread primitives answer: while a thread is in the driver's \<open>send_batch\<close>, the driver is open
  and no thread is in its \<open>open\<close> or \<open>close\<close>; and while the receive thread is started the driver is open.
\<close>

theorem link_driver_use_safe:
  assumes "link_reach (s, pcs)"
  shows "(pcs t = SendInDriver \<longrightarrow> ls_driver_open s \<and> (\<forall>u. \<not> opens_or_closes (pcs u))) \<and> (ls_rx_started s \<longrightarrow> ls_driver_open s)"
proof -
  note inv = link_reach_inv [OF assms]
  have "\<not> opens_or_closes (pcs u)" if "usable s" "reads (pcs t)" for u
  proof
    assume "opens_or_closes (pcs u)"
    then consider "\<not> usable s" | "writes (pcs u)"
      using link_inv_facts(1) [OF inv, of u] by (cases "pcs u") (auto simp: parts_def usable_def)
    then show False using that inv link_inv_facts(4) [OF inv, of t] by cases (auto simp: link_inv_def)
  qed
  moreover have "usable s" if "pcs t = SendInDriver" using link_inv_facts(3) [OF inv, of t] that by simp
  moreover have "ls_driver_open s" if "ls_rx_started s"
  proof (cases "in_transit s")
    case True
    then obtain u where "controls (pcs u)" using inv idle_not_transit by (auto simp: link_inv_def)
    then show ?thesis using link_inv_facts(1) [OF inv, of u] that by (cases "pcs u") (auto simp: parts_def split: if_splits)
  next
    case False
    then show ?thesis using link_inv_facts(2) [OF inv] that by (auto simp: idle_ok_def parts_def)
  qed
  ultimately show ?thesis by (auto simp: usable_def)
qed

text \<open>
  The states of a link mean what they say in every interleaving: at most one start or stop is on its way,
  and it is exactly then that the state is STARTING or STOPPING; a STOPPED link has its driver closed and no
  receive thread, so a destroy, which goes ahead only then, leaks nothing; a RUNNING link has its driver open and the
  receive thread started; and a FAILED link still has its driver open, so that another stop can close it.
\<close>

theorem link_states_exact:
  assumes "link_reach (s, pcs)"
  shows "(\<forall>t u. controls (pcs t) \<and> controls (pcs u) \<longrightarrow> t = u) \<and>
    ((\<exists>t. controls (pcs t)) \<longleftrightarrow> ls_state s = LINKG_LINK_STATE_STARTING \<or> ls_state s = LINKG_LINK_STATE_STOPPING) \<and>
    (linkg_link_destroy s = None \<longrightarrow> \<not> ls_opened s \<and> \<not> ls_driver_open s \<and> \<not> ls_rx_started s) \<and>
    (ls_state s = LINKG_LINK_STATE_RUNNING \<longrightarrow> ls_opened s \<and> ls_driver_open s \<and> ls_rx_started s) \<and>
    (ls_state s = LINKG_LINK_STATE_FAILED \<longrightarrow> ls_opened s \<and> ls_driver_open s)"
proof -
  note inv = link_reach_inv [OF assms]
  have "(\<exists>t. controls (pcs t)) \<longleftrightarrow> in_transit s"
    using control_transit [OF link_inv_facts(1) [OF inv]] inv idle_not_transit by (auto simp: link_inv_def)
  moreover have "\<not> in_transit s \<Longrightarrow> idle_ok s" by (rule link_inv_facts(2) [OF inv])
  moreover have "\<forall>t u. controls (pcs t) \<and> controls (pcs u) \<longrightarrow> t = u" using inv unfolding link_inv_def prod.case by blast
  ultimately show ?thesis
    by (auto simp: in_transit_def idle_ok_def parts_def linkg_link_destroy_def)
qed

text \<open>Two threads, 0 and 1, and everybody else outside.\<close>

definition two_pcs :: "link_pc \<Rightarrow> link_pc \<Rightarrow> nat \<Rightarrow> link_pc" where
  "two_pcs a b = (\<lambda>_. Outside)(0 := a, 1 := b)"

lemma two_steps:
  "link_reach (s, two_pcs a b) \<Longrightarrow> linkg_link_start_step s a s' c \<Longrightarrow> link_reach (s', two_pcs c b)"
  "link_reach (s, two_pcs a b) \<Longrightarrow> linkg_link_purge_step 1 s b s' c \<Longrightarrow> link_reach (s', two_pcs a c)"
  "link_reach (s, two_pcs a b) \<Longrightarrow> linkg_link_submit_step 1 s b s' c \<Longrightarrow> link_reach (s', two_pcs a c)"
  using link_reach.step [OF _ link_step.start [of s "two_pcs a b" 0 s' c]] link_reach.step [OF _ link_step.purge [of 1 s "two_pcs a b" s' c]]
    link_reach.step [OF _ link_step.submit [of 1 s "two_pcs a b" s' c]]
  by (simp_all add: two_pcs_def fun_upd_twist)

abbreviation link_starting :: link_shared where
  "link_starting \<equiv> link_created\<lparr>ls_state := LINKG_LINK_STATE_STARTING, ls_driver_open := True, ls_opened := True\<rparr>"

lemma starting_reach: "link_reach (link_starting, two_pcs StartRxThread Outside)"
proof -
  let ?s1 = "link_created\<lparr>ls_state := LINKG_LINK_STATE_STARTING\<rparr>"
  have "link_reach (link_created, two_pcs Outside Outside)" using link_reach.created by (simp add: two_pcs_def fun_upd_idem)
  then have "link_reach (?s1, two_pcs StartInOpen Outside)" by (rule two_steps) (rule start_begin, simp add: link_created_def)
  then have "link_reach (?s1\<lparr>ls_driver_open := True\<rparr>, two_pcs StartMarkOpened Outside)" by (rule two_steps) (rule open_ok)
  then show ?thesis by (rule two_steps) (rule mark_opened [of "?s1\<lparr>ls_driver_open := True\<rparr>", simplified])
qed

text \<open>
  C27. A purge is not protected in the same way. \<open>linkg_link_purge_tx_path\<close> relies on the io lock to exclude a
  close, but the roll-back of a start whose receive thread could not be started closes the driver without
  taking the write side: there is a schedule in which a thread is in \<open>purge_tx_path\<close> of a driver that has
  been closed.
\<close>

theorem link_purge_in_closed_driver:
  "\<exists>s pcs t. link_reach (s, pcs) \<and> pcs t = PurgeInDriver \<and> \<not> ls_driver_open s"
proof -
  let ?s = "link_starting\<lparr>ls_readers := insert 1 (ls_readers link_starting)\<rparr>"
  have "link_reach (link_starting, two_pcs StartRxThread PurgeTakeLock)" by (rule two_steps [OF starting_reach]) (rule purge_begin)
  then have "link_reach (?s, two_pcs StartRxThread PurgeTestOpened)"
    by (rule two_steps) (rule purge_take_read, simp add: link_created_def)
  then have "link_reach (?s, two_pcs StartRxThread PurgeInDriver)" by (rule two_steps) (rule purge_opened, simp)
  then have "link_reach (?s, two_pcs (StartInClose (- ENOMEM)) PurgeInDriver)" by (rule two_steps) (rule rx_fail, simp)
  then have "link_reach (?s\<lparr>ls_driver_open := False\<rparr>, two_pcs (StartMarkClosed (- ENOMEM)) PurgeInDriver)"
    by (rule two_steps) (rule close_ok)
  moreover have "two_pcs (StartMarkClosed (- ENOMEM)) PurgeInDriver 1 = PurgeInDriver" by (simp add: two_pcs_def)
  moreover have "\<not> ls_driver_open (?s\<lparr>ls_driver_open := False\<rparr>)" by simp
  ultimately show ?thesis by blast
qed

lemma sending_reach:
  obtains s where "link_reach (s, two_pcs Outside SendInDriver)" "ls_state s = LINKG_LINK_STATE_RUNNING"
proof -
  let ?r = "link_starting\<lparr>ls_rx_started := True\<rparr>"
  let ?s = "?r\<lparr>ls_state := LINKG_LINK_STATE_RUNNING\<rparr>" let ?t = "?s\<lparr>ls_readers := insert 1 (ls_readers ?s)\<rparr>"
  have "link_reach (?r, two_pcs StartMarkRunning Outside)" by (rule two_steps [OF starting_reach]) (rule rx_ok)
  then have "link_reach (?s, two_pcs Outside Outside)" by (rule two_steps) (rule mark_running)
  then have "link_reach (?s, two_pcs Outside SendTakeLock)" by (rule two_steps) (rule send_begin, simp)
  then have "link_reach (?t, two_pcs Outside SendTestState)" by (rule two_steps) (rule send_take_read, simp add: link_created_def)
  then have "link_reach (?t, two_pcs Outside SendTestOpened)" by (rule two_steps) (rule state_running, simp)
  then have "link_reach (?t, two_pcs Outside SendTestPath)" by (rule two_steps) (rule opened, simp)
  then have "link_reach (?t, two_pcs Outside SendInDriver)" by (rule two_steps) (rule path_active)
  then show ?thesis by (rule that) simp
qed

theorem link_driver_use_safe_witness:
  "\<exists>s. link_reach (s, two_pcs Outside SendInDriver) \<and> ls_driver_open s"
proof -
  obtain s where s: "link_reach (s, two_pcs Outside SendInDriver)" by (rule sending_reach)
  from link_driver_use_safe [OF s, of 1] have "ls_driver_open s" by (simp add: two_pcs_def)
  with s show ?thesis by blast
qed

theorem link_states_exact_witness:
  "\<exists>s. link_reach (s, two_pcs Outside SendInDriver) \<and> ls_state s = LINKG_LINK_STATE_RUNNING \<and> ls_rx_started s"
proof -
  obtain s where s: "link_reach (s, two_pcs Outside SendInDriver)" "ls_state s = LINKG_LINK_STATE_RUNNING" by (rule sending_reach)
  from link_states_exact [OF s(1)] s(2) have "ls_rx_started s" by simp
  with s show ?thesis by blast
qed

end
