(* ===== verification/Link_Manager.thy ===== *)
theory Link_Manager
  imports Link_Tx Link_Life
begin

text \<open>
  The registry of the links: \<open>src/core/link/linkg_link_manager.c\<close>.

  The manager borrows link objects, gives each a number that is not 0 and no other has, and binds their receive
  callback to its own, which passes on to the handler of the upper layer. A link object is at an address of a store;
  beside the fields of \<open>Link_Tx\<close> it has its access, its state and the receive callback of its runtime. Callers
  serialise registration; starts and stops go on beside it, so the state of a link may change at any time.
\<close>

abbreviation (input) EEXIST :: int where "EEXIST \<equiv> 17"
abbreviation (input) LINKG_LINK_MANAGER_MAX_LINKS :: nat where "LINKG_LINK_MANAGER_MAX_LINKS \<equiv> 2"

section \<open>State\<close>

datatype linkg_link_access = LINKG_LINK_ACCESS_NONE | LINKG_LINK_ACCESS_WIFI | LINKG_LINK_ACCESS_CELLULAR

record 'd link_object = "'d linkg_link" +
  lk_access :: linkg_link_access
  lk_state :: linkg_link_state
  lk_receive :: "nat option"
  lk_receive_user_data :: "nat option"

type_synonym 'd link_store = "nat \<Rightarrow> 'd link_object"

record linkg_link_manager_context =
  lm_links :: "nat option list"
  lm_receive :: "nat option"
  lm_receive_user_data :: "nat option"
  lm_count :: u32
  lm_next_id :: u32
  lm_initialized :: bool

definition link_manager_zero :: linkg_link_manager_context where
  "link_manager_zero = \<lparr>lm_links = replicate LINKG_LINK_MANAGER_MAX_LINKS None, lm_receive = None, lm_receive_user_data = None,
     lm_count = 0, lm_next_id = 0, lm_initialized = False\<rparr>"

text \<open>The address of the function \<open>_linkg_link_manager_receive\<close>.\<close>

abbreviation (input) manager_receive_callback :: nat where "manager_receive_callback \<equiv> 1"

text \<open>The getters of \<open>linkg_link.c\<close>.\<close>

definition linkg_link_get_id :: "nat option \<Rightarrow> 'd link_store \<Rightarrow> u32" where
  "linkg_link_get_id link L = (case link of None \<Rightarrow> LINKG_LINK_ID_INVALID | Some a \<Rightarrow> lk_id (L a))"

definition linkg_link_get_access :: "nat option \<Rightarrow> 'd link_store \<Rightarrow> linkg_link_access" where
  "linkg_link_get_access link L = (case link of None \<Rightarrow> LINKG_LINK_ACCESS_NONE | Some a \<Rightarrow> lk_access (L a))"

definition linkg_link_get_state :: "nat option \<Rightarrow> 'd link_store \<Rightarrow> linkg_link_state" where
  "linkg_link_get_state link L = (case link of None \<Rightarrow> LINKG_LINK_STATE_STOPPED | Some a \<Rightarrow> lk_state (L a))"

definition linkg_link_is_running :: "nat option \<Rightarrow> 'd link_store \<Rightarrow> bool" where
  "linkg_link_is_running link L \<longleftrightarrow> linkg_link_get_state link L = LINKG_LINK_STATE_RUNNING"

section \<open>Internal helpers\<close>

definition slots_where :: "(nat \<Rightarrow> bool) \<Rightarrow> linkg_link_manager_context \<Rightarrow> nat option" where
  "slots_where P m = (case List.find (\<lambda>i. case lm_links m ! i of None \<Rightarrow> False | Some a \<Rightarrow> P a) [0..<LINKG_LINK_MANAGER_MAX_LINKS] of
     None \<Rightarrow> None | Some i \<Rightarrow> lm_links m ! i)"

definition linkg_link_manager_find :: "u32 \<Rightarrow> linkg_link_manager_context \<Rightarrow> 'd link_store \<Rightarrow> nat option" where
  "linkg_link_manager_find link_id m L =
     (if link_id = LINKG_LINK_ID_INVALID then None else slots_where (\<lambda>a. linkg_link_get_id (Some a) L = link_id) m)"

definition linkg_link_manager_find_access :: "linkg_link_access \<Rightarrow> linkg_link_manager_context \<Rightarrow> 'd link_store \<Rightarrow> nat option" where
  "linkg_link_manager_find_access access m L =
     (if access = LINKG_LINK_ACCESS_NONE then None else slots_where (\<lambda>a. linkg_link_get_access (Some a) L = access) m)"

text \<open>A slot, or the error.\<close>

definition linkg_link_manager_find_slot :: "nat \<Rightarrow> linkg_link_manager_context \<Rightarrow> int + nat" where
  "linkg_link_manager_find_slot link m =
     (case List.find (\<lambda>i. lm_links m ! i = Some link) [0..<LINKG_LINK_MANAGER_MAX_LINKS] of
        None \<Rightarrow> Inl (- ENOENT) | Some i \<Rightarrow> Inr i)"

definition linkg_link_manager_find_free_slot :: "linkg_link_manager_context \<Rightarrow> int + nat" where
  "linkg_link_manager_find_free_slot m =
     (case List.find (\<lambda>i. lm_links m ! i = None) [0..<LINKG_LINK_MANAGER_MAX_LINKS] of
        None \<Rightarrow> Inl (- ENOSPC) | Some i \<Rightarrow> Inr i)"

text \<open>The candidates from \<open>next_id\<close> on, one more than there are slots.\<close>

fun allocate_id_loop :: "nat \<Rightarrow> u32 \<Rightarrow> linkg_link_manager_context \<Rightarrow> 'd link_store \<Rightarrow> (int + u32) \<times> linkg_link_manager_context" where
  "allocate_id_loop 0 candidate m L = (Inl (- ENOSPC), m)"
| "allocate_id_loop (Suc attempts) candidate m L =
     (let candidate = (if candidate = LINKG_LINK_ID_INVALID then 1 else candidate) in
      if linkg_link_manager_find candidate m L = None
      then (Inr candidate,
            m\<lparr>lm_next_id := (if candidate + 1 = LINKG_LINK_ID_INVALID then 1 else candidate + 1)\<rparr>)
      else allocate_id_loop attempts (candidate + 1) m L)"

definition linkg_link_manager_allocate_id ::
    "linkg_link_manager_context \<Rightarrow> 'd link_store \<Rightarrow> (int + u32) \<times> linkg_link_manager_context" where
  "linkg_link_manager_allocate_id m L = allocate_id_loop (LINKG_LINK_MANAGER_MAX_LINKS + 1) (lm_next_id m) m L"

definition linkg_link_manager_all_stopped :: "linkg_link_manager_context \<Rightarrow> 'd link_store \<Rightarrow> bool" where
  "linkg_link_manager_all_stopped m L \<longleftrightarrow>
     list_all (\<lambda>i. case lm_links m ! i of None \<Rightarrow> True
                   | Some a \<Rightarrow> linkg_link_get_state (Some a) L = LINKG_LINK_STATE_STOPPED) [0..<LINKG_LINK_MANAGER_MAX_LINKS]"

text \<open>The handler that is called with the link, its argument and the items, if one is.\<close>

definition linkg_link_manager_receive ::
    "nat option \<Rightarrow> 'i list option \<Rightarrow> linkg_link_manager_context \<Rightarrow> (nat \<times> nat \<times> 'i list \<times> nat option) option" where
  "linkg_link_manager_receive link items m =
     (case (link, items) of
        (Some a, Some its) \<Rightarrow>
         (if its = [] then None
          else case lm_receive m of
            None \<Rightarrow> None
          | Some f \<Rightarrow> Some (f, a, its, lm_receive_user_data m))
      | _ \<Rightarrow> None)"

section \<open>Life cycle\<close>

definition linkg_link_manager_init :: "linkg_link_manager_context \<Rightarrow> int \<times> linkg_link_manager_context" where
  "linkg_link_manager_init m =
     (if lm_initialized m then (- EALREADY, m)
      else (0, link_manager_zero\<lparr>lm_next_id := 1, lm_initialized := True\<rparr>))"

definition linkg_link_manager_deinit :: "linkg_link_manager_context \<Rightarrow> int \<times> linkg_link_manager_context" where
  "linkg_link_manager_deinit m =
     (if \<not> lm_initialized m then (0, m)
      else if lm_count m \<noteq> 0 \<or> lm_receive m \<noteq> None then (- EBUSY, m)
      else (0, link_manager_zero))"

section \<open>Registration\<close>

definition linkg_link_manager_register ::
    "nat option \<Rightarrow> linkg_link_manager_context \<Rightarrow> 'd link_store \<Rightarrow> int \<times> linkg_link_manager_context \<times> 'd link_store" where
  "linkg_link_manager_register link m L =
     (if \<not> lm_initialized m then (- ENODEV, m, L)
      else case link of None \<Rightarrow> (- EINVAL, m, L)
      | Some a \<Rightarrow>
         (if lk_runtime (L a) = None \<or> lk_ops (L a) = None then (- EINVAL, m, L)
          else if linkg_link_get_access link L = LINKG_LINK_ACCESS_NONE then (- EINVAL, m, L)
          else if linkg_link_get_state link L \<noteq> LINKG_LINK_STATE_STOPPED then (- EBUSY, m, L)
          else if linkg_link_get_id link L \<noteq> LINKG_LINK_ID_INVALID then (- EALREADY, m, L)
          else case linkg_link_manager_find_slot a m of
            Inr slot \<Rightarrow> (- EALREADY, m, L)
          | Inl ret \<Rightarrow>
             (if ret \<noteq> - ENOENT then (ret, m, L)
              else if linkg_link_manager_find_access (linkg_link_get_access link L) m L \<noteq> None then (- EEXIST, m, L)
              else if lm_count m \<ge> of_nat LINKG_LINK_MANAGER_MAX_LINKS then (- ENOSPC, m, L)
              else if lk_receive (L a) \<noteq> None \<or> lk_receive_user_data (L a) \<noteq> None then (- EBUSY, m, L)
              else case linkg_link_manager_find_free_slot m of
                Inl ret \<Rightarrow> (ret, m, L)
              | Inr slot \<Rightarrow>
                 (case linkg_link_manager_allocate_id m L of
                    (Inl ret, m1) \<Rightarrow> (ret, m1, L)
                  | (Inr link_id, m1) \<Rightarrow>
                     (0, m1\<lparr>lm_links := (lm_links m1)[slot := Some a], lm_count := lm_count m1 + 1\<rparr>,
                      L(a := (L a)\<lparr>lk_id := link_id, lk_receive := Some manager_receive_callback, lk_receive_user_data := None\<rparr>))))))"

definition linkg_link_manager_unregister ::
    "nat option \<Rightarrow> linkg_link_manager_context \<Rightarrow> 'd link_store \<Rightarrow> int \<times> linkg_link_manager_context \<times> 'd link_store" where
  "linkg_link_manager_unregister link m L =
     (if \<not> lm_initialized m then (- ENODEV, m, L)
      else case link of None \<Rightarrow> (- EINVAL, m, L)
      | Some a \<Rightarrow>
         (if lk_runtime (L a) = None then (- EINVAL, m, L)
          else if linkg_link_get_state link L \<noteq> LINKG_LINK_STATE_STOPPED then (- EBUSY, m, L)
          else case linkg_link_manager_find_slot a m of
            Inl ret \<Rightarrow> (ret, m, L)
          | Inr slot \<Rightarrow>
             (0, m\<lparr>lm_links := (lm_links m)[slot := None], lm_count := lm_count m - 1\<rparr>,
              L(a := (L a)\<lparr>lk_receive := None, lk_receive_user_data := None, lk_id := LINKG_LINK_ID_INVALID\<rparr>))))"

definition linkg_link_manager_register_receive_handler ::
    "nat option \<Rightarrow> nat option \<Rightarrow> linkg_link_manager_context \<Rightarrow> 'd link_store \<Rightarrow> int \<times> linkg_link_manager_context" where
  "linkg_link_manager_register_receive_handler receive user_data m L =
     (if \<not> lm_initialized m then (- ENODEV, m)
      else if receive = None then (- EINVAL, m)
      else if \<not> linkg_link_manager_all_stopped m L then (- EBUSY, m)
      else if lm_receive m \<noteq> None then (- EALREADY, m)
      else (0, m\<lparr>lm_receive := receive, lm_receive_user_data := user_data\<rparr>))"

definition linkg_link_manager_unregister_receive_handler ::
    "linkg_link_manager_context \<Rightarrow> 'd link_store \<Rightarrow> int \<times> linkg_link_manager_context" where
  "linkg_link_manager_unregister_receive_handler m L =
     (if \<not> lm_initialized m then (- ENODEV, m)
      else if \<not> linkg_link_manager_all_stopped m L then (- EBUSY, m)
      else (0, m\<lparr>lm_receive := None, lm_receive_user_data := None\<rparr>))"

section \<open>Queries\<close>

definition linkg_link_manager_get :: "u32 \<Rightarrow> linkg_link_manager_context \<Rightarrow> 'd link_store \<Rightarrow> nat option" where
  "linkg_link_manager_get link_id m L = (if \<not> lm_initialized m then None else linkg_link_manager_find link_id m L)"

definition linkg_link_manager_get_by_access :: "linkg_link_access \<Rightarrow> linkg_link_manager_context \<Rightarrow> 'd link_store \<Rightarrow> nat option" where
  "linkg_link_manager_get_by_access access m L =
     (if \<not> lm_initialized m \<or> access = LINKG_LINK_ACCESS_NONE then None else linkg_link_manager_find_access access m L)"

definition linkg_link_manager_get_id :: "linkg_link_access \<Rightarrow> linkg_link_manager_context \<Rightarrow> 'd link_store \<Rightarrow> u32" where
  "linkg_link_manager_get_id access m L =
     (case linkg_link_manager_get_by_access access m L of
        None \<Rightarrow> LINKG_LINK_ID_INVALID | Some a \<Rightarrow> linkg_link_get_id (Some a) L)"

definition linkg_link_manager_count :: "linkg_link_manager_context \<Rightarrow> u32" where
  "linkg_link_manager_count m = (if lm_initialized m then lm_count m else 0)"

text \<open>Purging: the code, \<open>*purged_count\<close>, and the driver and the packets after it.\<close>

definition linkg_link_manager_purge_tx_path ::
    "nat option \<Rightarrow> path_store \<Rightarrow> link_gate \<Rightarrow> linkg_link_manager_context \<Rightarrow> 'd link_store \<Rightarrow> 'd \<times> heap \<Rightarrow> int \<times> u32 \<times> 'd \<times> heap" where
  "linkg_link_manager_purge_tx_path path s gate m L d =
     (case path of
        None \<Rightarrow> (- EINVAL, 0, d)
      | Some a \<Rightarrow>
         (if \<not> lm_initialized m then (- ENODEV, 0, d)
          else if linkg_path_is_active path s then (- EBUSY, 0, d)
          else
            (let link_id = pt_link_id (path_at s a) in
             if link_id = LINKG_LINK_ID_INVALID then (- ENODEV, 0, d)
             else case linkg_link_manager_find link_id m L of
               None \<Rightarrow> (- ENOENT, 0, d)
             | Some link \<Rightarrow> linkg_link_purge_tx_path (Some (linkg_link.truncate (L link))) (Some (a, path_at s a)) gate d)))"

section \<open>Invariant\<close>

definition registered_links :: "linkg_link_manager_context \<Rightarrow> nat list" where
  "registered_links m = map the (filter (\<lambda>s. s \<noteq> None) (lm_links m))"

definition link_manager_inv :: "linkg_link_manager_context \<Rightarrow> 'd link_store \<Rightarrow> bool" where
  "link_manager_inv m L \<longleftrightarrow>
     length (lm_links m) = 2 \<and> distinct (registered_links m) \<and> unat (lm_count m) = length (registered_links m) \<and>
     distinct (map (\<lambda>a. lk_id (L a)) (registered_links m)) \<and> distinct (map (\<lambda>a. lk_access (L a)) (registered_links m)) \<and>
     (\<forall>a\<in>set (registered_links m). lk_id (L a) \<noteq> LINKG_LINK_ID_INVALID \<and> lk_access (L a) \<noteq> LINKG_LINK_ACCESS_NONE \<and>
        lk_runtime (L a) \<noteq> None \<and> lk_receive (L a) = Some manager_receive_callback)"

text \<open>The histories: registration in any order, links made anew where none is registered, links that start and stop.\<close>

inductive link_manager_reach :: "linkg_link_manager_context \<Rightarrow> 'd link_store \<Rightarrow> bool" where
  lm_start: "linkg_link_manager_init m0 = (0, m) \<Longrightarrow> link_manager_reach m L"
| lm_register: "link_manager_reach m L \<Longrightarrow> linkg_link_manager_register link m L = (ret, m', L') \<Longrightarrow> link_manager_reach m' L'"
| lm_unregister: "link_manager_reach m L \<Longrightarrow> linkg_link_manager_unregister link m L = (ret, m', L') \<Longrightarrow> link_manager_reach m' L'"
| lm_handler: "link_manager_reach m L \<Longrightarrow>
    linkg_link_manager_register_receive_handler receive user_data m L = (ret, m') \<Longrightarrow> link_manager_reach m' L"
| lm_no_handler: "link_manager_reach m L \<Longrightarrow> linkg_link_manager_unregister_receive_handler m L = (ret, m') \<Longrightarrow> link_manager_reach m' L"
| lm_state: "link_manager_reach m L \<Longrightarrow> link_manager_reach m (L(a := (L a)\<lparr>lk_state := state\<rparr>))"
| lm_create: "link_manager_reach m L \<Longrightarrow> a \<notin> set (registered_links m) \<Longrightarrow> link_manager_reach m (L(a := obj))"

lemma links_pair:
  assumes "link_manager_inv m L"
  obtains x y where "lm_links m = [x, y]"
  using assms by (auto simp: link_manager_inv_def numeral_2_eq_2 length_Suc_conv)

lemma upt_two [simp]: "[0..<LINKG_LINK_MANAGER_MAX_LINKS] = [0, Suc 0]"
  by (simp add: upt_rec)

lemma slots_where_exact:
  assumes "link_manager_inv m L" "\<And>a b. a \<in> set (registered_links m) \<Longrightarrow> b \<in> set (registered_links m) \<Longrightarrow> P a \<Longrightarrow> P b \<Longrightarrow> a = b"
  shows "slots_where P m = Some a \<longleftrightarrow> a \<in> set (registered_links m) \<and> P a"
proof -
  obtain x y where xy: "lm_links m = [x, y]" by (rule links_pair [OF assms(1)])
  show ?thesis
    using assms(2) [of "the x" "the y"] by (cases x; cases y) (auto simp: slots_where_def registered_links_def xy)
qed

lemma distinct_map_eq: "distinct (map f xs) \<Longrightarrow> a \<in> set xs \<Longrightarrow> b \<in> set xs \<Longrightarrow> f a = f b \<Longrightarrow> a = b"
  by (auto simp: distinct_map inj_on_def)

lemma manager_find_exact:
  assumes "link_manager_inv m L"
  shows "linkg_link_manager_find link_id m L = Some a \<longleftrightarrow> a \<in> set (registered_links m) \<and> lk_id (L a) = link_id"
proof -
  have "slots_where (\<lambda>a. lk_id (L a) = link_id) m = Some a \<longleftrightarrow> a \<in> set (registered_links m) \<and> lk_id (L a) = link_id"
    using assms by (intro slots_where_exact) (auto simp: link_manager_inv_def dest: distinct_map_eq)
  then show ?thesis using assms by (auto simp: linkg_link_manager_find_def linkg_link_get_id_def link_manager_inv_def)
qed

lemma manager_find_access_exact:
  assumes "link_manager_inv m L"
  shows "linkg_link_manager_find_access access m L = Some a \<longleftrightarrow> a \<in> set (registered_links m) \<and> lk_access (L a) = access"
proof -
  have "slots_where (\<lambda>a. lk_access (L a) = access) m = Some a \<longleftrightarrow> a \<in> set (registered_links m) \<and> lk_access (L a) = access"
    using assms by (intro slots_where_exact) (auto simp: link_manager_inv_def dest: distinct_map_eq)
  then show ?thesis using assms by (auto simp: linkg_link_manager_find_access_def linkg_link_get_access_def link_manager_inv_def)
qed

text \<open>With one link at most, one of the first two candidates is free.\<close>

lemma allocate_fresh:
  assumes inv: "link_manager_inv m L" and few: "length (registered_links m) \<le> 1"
  shows "\<exists>link_id n. linkg_link_manager_allocate_id m L = (Inr link_id, m\<lparr>lm_next_id := n\<rparr>) \<and> link_id \<noteq> LINKG_LINK_ID_INVALID \<and>
    (\<forall>a\<in>set (registered_links m). lk_id (L a) \<noteq> link_id)"
proof -
  have none: "linkg_link_manager_find c m L = None \<longleftrightarrow> (\<forall>a\<in>set (registered_links m). lk_id (L a) \<noteq> c)" for c
    using manager_find_exact [OF inv, of c] by (cases "linkg_link_manager_find c m L") auto
  define c where "c = (if lm_next_id m = 0 then 1 else lm_next_id m)"
  define d where "d = (if c + 1 = 0 then 1 else c + 1)"
  have "c \<noteq> 0" "d \<noteq> 0" by (auto simp: c_def d_def)
  have "c + 1 \<noteq> c" by simp
  moreover have "c \<noteq> 1" if "c + 1 = 0" using that by auto
  ultimately have "c \<noteq> d" unfolding d_def by (auto split: if_splits)
  have free: "linkg_link_manager_find c m L = None \<or> linkg_link_manager_find d m L = None"
  proof (rule ccontr)
    assume "\<not> ?thesis"
    then obtain a b where "a \<in> set (registered_links m)" "lk_id (L a) = c" "b \<in> set (registered_links m)" "lk_id (L b) = d"
      using none by auto
    then show False using few \<open>c \<noteq> d\<close> by (cases "registered_links m") auto
  qed
  have run: "linkg_link_manager_allocate_id m L =
    (if linkg_link_manager_find c m L = None then (Inr c, m\<lparr>lm_next_id := (if c + 1 = 0 then 1 else c + 1)\<rparr>)
     else if linkg_link_manager_find d m L = None then (Inr d, m\<lparr>lm_next_id := (if d + 1 = 0 then 1 else d + 1)\<rparr>)
     else allocate_id_loop 1 (d + 1) m L)"
    by (simp add: linkg_link_manager_allocate_id_def numeral_3_eq_3 Let_def c_def [symmetric] d_def [symmetric])
  show ?thesis
    using run free none \<open>c \<noteq> 0\<close> \<open>d \<noteq> 0\<close> by (cases "linkg_link_manager_find c m L = None") auto
qed

text \<open>The two accesses there are leave no room for a third link.\<close>

lemma access_room:
  assumes inv: "link_manager_inv m L" and "access \<noteq> LINKG_LINK_ACCESS_NONE" "linkg_link_manager_find_access access m L = None"
  shows "length (registered_links m) \<le> 1"
proof -
  obtain x y where xy: "lm_links m = [x, y]" by (rule links_pair [OF inv])
  have none: "\<forall>a\<in>set (registered_links m). lk_access (L a) \<noteq> access"
    using manager_find_access_exact [OF inv, of access] assms(3) by auto
  show ?thesis
  proof (cases x)
    case (Some a)
    show ?thesis
    proof (cases y)
      case (Some b)
      then have "lk_access (L a) \<noteq> lk_access (L b)" "lk_access (L a) \<noteq> access" "lk_access (L b) \<noteq> access"
        "lk_access (L a) \<noteq> LINKG_LINK_ACCESS_NONE" "lk_access (L b) \<noteq> LINKG_LINK_ACCESS_NONE"
        using none inv \<open>x = Some a\<close> by (auto simp: registered_links_def xy link_manager_inv_def)
      then show ?thesis using assms(2) by (cases "lk_access (L a)"; cases "lk_access (L b)"; cases access) auto
    qed (simp add: registered_links_def xy)
  qed (simp add: registered_links_def xy)
qed

lemma find_slot_exact:
  assumes "link_manager_inv m L"
  shows "(\<exists>i. linkg_link_manager_find_slot a m = Inr i \<and> i < 2 \<and> lm_links m ! i = Some a) \<longleftrightarrow> a \<in> set (registered_links m)"
    and "a \<notin> set (registered_links m) \<Longrightarrow> linkg_link_manager_find_slot a m = Inl (- ENOENT)"
proof -
  obtain x y where xy: "lm_links m = [x, y]" by (rule links_pair [OF assms])
  show "(\<exists>i. linkg_link_manager_find_slot a m = Inr i \<and> i < 2 \<and> lm_links m ! i = Some a) \<longleftrightarrow> a \<in> set (registered_links m)"
    "a \<notin> set (registered_links m) \<Longrightarrow> linkg_link_manager_find_slot a m = Inl (- ENOENT)"
    by (cases x; cases y; force simp: linkg_link_manager_find_slot_def registered_links_def xy)+
qed

text \<open>What a link must be for its registration to succeed.\<close>

definition link_registrable :: "nat \<Rightarrow> linkg_link_manager_context \<Rightarrow> 'd link_store \<Rightarrow> bool" where
  "link_registrable a m L \<longleftrightarrow>
     lk_runtime (L a) \<noteq> None \<and> lk_ops (L a) \<noteq> None \<and> lk_access (L a) \<noteq> LINKG_LINK_ACCESS_NONE \<and> lk_state (L a) = LINKG_LINK_STATE_STOPPED \<and>
     lk_id (L a) = LINKG_LINK_ID_INVALID \<and> lk_receive (L a) = None \<and> lk_receive_user_data (L a) = None \<and>
     (\<forall>b\<in>set (registered_links m). lk_access (L b) \<noteq> lk_access (L a))"

lemma register_registrable:
  assumes inv: "link_manager_inv m L" and init: "lm_initialized m" and r: "link_registrable a m L"
  shows "\<exists>i link_id n. linkg_link_manager_register (Some a) m L =
      (0, m\<lparr>lm_next_id := n, lm_links := (lm_links m)[i := Some a], lm_count := lm_count m + 1\<rparr>,
       L(a := (L a)\<lparr>lk_id := link_id, lk_receive := Some manager_receive_callback, lk_receive_user_data := None\<rparr>)) \<and>
    i < 2 \<and> lm_links m ! i = None \<and> link_id \<noteq> LINKG_LINK_ID_INVALID \<and> a \<notin> set (registered_links m) \<and>
    (\<forall>b\<in>set (registered_links m). lk_id (L b) \<noteq> link_id) \<and> length (registered_links m) \<le> 1"
proof -
  have na: "a \<notin> set (registered_links m)" using r by (auto simp: link_registrable_def)
  have acc: "linkg_link_manager_find_access (lk_access (L a)) m L = None"
    using manager_find_access_exact [OF inv, of "lk_access (L a)"] r
    by (cases "linkg_link_manager_find_access (lk_access (L a)) m L") (auto simp: link_registrable_def)
  have few: "length (registered_links m) \<le> 1"
    using access_room [OF inv _ acc] r by (simp add: link_registrable_def)
  then have cnt: "\<not> lm_count m \<ge> of_nat LINKG_LINK_MANAGER_MAX_LINKS"
    using inv by (simp add: link_manager_inv_def word_le_nat_alt)
  obtain x y where xy: "lm_links m = [x, y]" by (rule links_pair [OF inv])
  then obtain i where i: "linkg_link_manager_find_free_slot m = Inr i" "i < 2" "lm_links m ! i = None"
    using few by (cases x; cases y) (auto simp: linkg_link_manager_find_free_slot_def registered_links_def)
  obtain link_id n where id: "linkg_link_manager_allocate_id m L = (Inr link_id, m\<lparr>lm_next_id := n\<rparr>)" "link_id \<noteq> LINKG_LINK_ID_INVALID"
    "\<forall>b\<in>set (registered_links m). lk_id (L b) \<noteq> link_id"
    using allocate_fresh [OF inv few] by blast
  show ?thesis
    using init r na acc cnt i id few find_slot_exact(2) [OF inv na]
    by (simp add: linkg_link_manager_register_def link_registrable_def linkg_link_get_access_def linkg_link_get_state_def
        linkg_link_get_id_def) blast
qed

lemma register_refused:
  assumes inv: "link_manager_inv m L" and init: "lm_initialized m" and r: "\<not> link_registrable a m L"
  shows "\<exists>ret<0. linkg_link_manager_register (Some a) m L = (ret, m, L)"
proof (cases "a \<in> set (registered_links m)")
  case True
  then have "lk_id (L a) \<noteq> LINKG_LINK_ID_INVALID" using inv by (simp add: link_manager_inv_def)
  then show ?thesis using init
    by (auto simp: linkg_link_manager_register_def linkg_link_get_access_def linkg_link_get_state_def linkg_link_get_id_def)
next
  case False
  have "linkg_link_manager_find_access (lk_access (L a)) m L = None \<Longrightarrow> \<forall>b\<in>set (registered_links m). lk_access (L b) \<noteq> lk_access (L a)"
    using manager_find_access_exact [OF inv, of "lk_access (L a)"] by auto
  then show ?thesis using init r find_slot_exact(2) [OF inv False]
    by (auto simp: linkg_link_manager_register_def link_registrable_def linkg_link_get_access_def linkg_link_get_state_def
        linkg_link_get_id_def)
qed

section \<open>Every step keeps the invariant\<close>

lemma register_manager_inv:
  assumes inv: "link_manager_inv m L" and init: "lm_initialized m" and reg: "linkg_link_manager_register link m L = (ret, m', L')"
  shows "link_manager_inv m' L' \<and> lm_initialized m'"
proof (cases "\<exists>a. link = Some a \<and> link_registrable a m L")
  case True
  then obtain a where a: "link = Some a" "link_registrable a m L" by auto
  obtain i link_id n where r: "linkg_link_manager_register (Some a) m L =
      (0, m\<lparr>lm_next_id := n, lm_links := (lm_links m)[i := Some a], lm_count := lm_count m + 1\<rparr>,
       L(a := (L a)\<lparr>lk_id := link_id, lk_receive := Some manager_receive_callback, lk_receive_user_data := None\<rparr>))"
    "i < 2" "lm_links m ! i = None" "link_id \<noteq> LINKG_LINK_ID_INVALID" "a \<notin> set (registered_links m)"
    "\<forall>b\<in>set (registered_links m). lk_id (L b) \<noteq> link_id" "length (registered_links m) \<le> 1"
    using register_registrable [OF inv init a(2)] by blast
  let ?m = "m\<lparr>lm_next_id := n, lm_links := (lm_links m)[i := Some a], lm_count := lm_count m + 1\<rparr>"
  obtain x y where xy: "lm_links m = [x, y]" by (rule links_pair [OF inv])
  have ms: "mset (registered_links ?m) = add_mset a (mset (registered_links m))"
    using r(2,3) by (cases x; cases y; cases i) (auto simp: registered_links_def xy less_Suc_eq numeral_2_eq_2)
  have d: "distinct (map f (registered_links ?m)) \<longleftrightarrow> distinct (map f (a # registered_links m))" for f :: "nat \<Rightarrow> 'b"
    using ms by (metis mset.simps(2) mset_eq_imp_distinct_iff mset_map)
  have set: "set (registered_links ?m) = insert a (set (registered_links m))" using ms by (metis set_mset_add_mset_insert set_mset_mset)
  have other: "map (\<lambda>b. f (if b = a then v else L b)) (registered_links m) = map (\<lambda>b. f (L b)) (registered_links m)" for f :: "'a link_object \<Rightarrow> 'c" and v
    using r(5) by (intro map_cong) auto
  have "unat (lm_count m + 1) = unat (lm_count m) + 1"
    using inv r(7) by (intro unat_inc) (simp add: link_manager_inv_def)
  moreover have "length (registered_links ?m) = length (registered_links m) + 1" using ms by (metis size_add_mset size_mset Suc_eq_plus1)
  moreover have "distinct (registered_links ?m)" using d [of "\<lambda>x. x"] inv r(5) by (simp add: link_manager_inv_def)
  ultimately have "link_manager_inv ?m (L(a := (L a)\<lparr>lk_id := link_id, lk_receive := Some manager_receive_callback, lk_receive_user_data := None\<rparr>))"
    using inv a(2) r(4,5,6)
    by (auto simp: link_manager_inv_def d set other link_registrable_def)
  then show ?thesis using reg r(1) a(1) init by auto
next
  case False
  have "m' = m \<and> L' = L"
  proof (cases link)
    case None
    then show ?thesis using reg init by (simp add: linkg_link_manager_register_def)
  next
    case (Some a)
    then show ?thesis using reg False register_refused [OF inv init, of a] by auto
  qed
  then show ?thesis using inv init by simp
qed

lemma unregister_manager_inv:
  assumes inv: "link_manager_inv m L" and init: "lm_initialized m" and un: "linkg_link_manager_unregister link m L = (ret, m', L')"
  shows "link_manager_inv m' L' \<and> lm_initialized m'"
proof (cases "m' = m \<and> L' = L")
  case False
  then obtain a where link: "link = Some a" using un init by (cases link) (simp_all add: linkg_link_manager_unregister_def)
  have "lk_runtime (L a) \<noteq> None \<and> linkg_link_get_state link L = LINKG_LINK_STATE_STOPPED"
    by (cases "lk_runtime (L a) = None"; cases "linkg_link_get_state link L = LINKG_LINK_STATE_STOPPED")
      (use un False link init in \<open>auto simp: linkg_link_manager_unregister_def\<close>)
  then have go: "(lk_runtime (L a) = None) = False" "linkg_link_get_state (Some a) L = LINKG_LINK_STATE_STOPPED" using link by simp_all
  then obtain i where i: "linkg_link_manager_find_slot a m = Inr i"
    using un False link init by (cases "linkg_link_manager_find_slot a m") (simp_all add: linkg_link_manager_unregister_def go)
  then have a: "linkg_link_manager_find_slot a m = Inr i"
    "m' = m\<lparr>lm_links := (lm_links m)[i := None], lm_count := lm_count m - 1\<rparr>"
    "L' = L(a := (L a)\<lparr>lk_receive := None, lk_receive_user_data := None, lk_id := LINKG_LINK_ID_INVALID\<rparr>)"
    using un link init by (simp_all add: linkg_link_manager_unregister_def go)
  obtain x y where xy: "lm_links m = [x, y]" by (rule links_pair [OF inv])
  have ixy: "i = 0 \<and> x = Some a \<or> i = 1 \<and> y = Some a"
    using a(1) by (simp add: linkg_link_manager_find_slot_def xy split: if_splits)
  then have "registered_links m \<noteq> []" by (auto simp: registered_links_def xy)
  then have pos: "lm_count m \<noteq> 0" using inv by (auto simp: link_manager_inv_def)
  from ixy show ?thesis
  proof (elim disjE conjE)
    assume "i = 0" "x = Some a"
    then show ?thesis using inv init unat_dec [OF pos]
      by (cases y) (auto simp: link_manager_inv_def registered_links_def xy a(2,3))
  next
    assume "i = 1" "y = Some a"
    then show ?thesis using inv init unat_dec [OF pos]
      by (cases x) (auto simp: link_manager_inv_def registered_links_def xy a(2,3))
  qed
qed (use inv init in simp)

lemma link_manager_reach_inv: "link_manager_reach m L \<Longrightarrow> link_manager_inv m L \<and> lm_initialized m"
proof (induction rule: link_manager_reach.induct)
  case (lm_start m0 m L)
  then show ?case
    by (auto simp: linkg_link_manager_init_def link_manager_inv_def registered_links_def link_manager_zero_def split: if_splits)
next
  case (lm_create m L a obj)
  then have keep: "map (\<lambda>b. f (if b = a then obj else L b)) (registered_links m) = map (\<lambda>b. f (L b)) (registered_links m)" for f :: "'a link_object \<Rightarrow> 'c"
    by (intro map_cong) auto
  show ?case using lm_create by (auto simp: link_manager_inv_def keep)
next
  case (lm_state m L a state)
  have "(\<lambda>b. lk_id ((L(a := (L a)\<lparr>lk_state := state\<rparr>)) b)) = (\<lambda>b. lk_id (L b))"
    "(\<lambda>b. lk_access ((L(a := (L a)\<lparr>lk_state := state\<rparr>)) b)) = (\<lambda>b. lk_access (L b))" by auto
  then show ?case using lm_state by (auto simp: link_manager_inv_def)
next
  case (lm_register m L link ret m' L')
  then show ?case using register_manager_inv by blast
next
  case (lm_unregister m L link ret m' L')
  then show ?case using unregister_manager_inv by blast
qed (auto simp: linkg_link_manager_register_receive_handler_def linkg_link_manager_unregister_receive_handler_def
      link_manager_inv_def registered_links_def split: if_splits)

section \<open>What every history guarantees\<close>


text \<open>
  C21. In every history the registration of a link succeeds exactly when the link has its runtime, operations and an access
  that no registered link has, is stopped, and has neither a number nor a receive callback; then its new number
  leads to it, and the numbers of the others stay. Otherwise nothing changes. The manager never runs out of slots or numbers.
\<close>

theorem link_manager_register_exact:
  assumes "link_manager_reach m L" "linkg_link_manager_register (Some a) m L = (ret, m', L')"
  shows "(if link_registrable a m L
     then ret = 0 \<and> linkg_link_manager_get (lk_id (L' a)) m' L' = Some a \<and> lk_receive (L' a) = Some manager_receive_callback \<and>
       (\<forall>link_id b. linkg_link_manager_get link_id m L = Some b \<longrightarrow> linkg_link_manager_get link_id m' L' = Some b)
     else ret < 0 \<and> m' = m \<and> L' = L)"
proof (cases "link_registrable a m L")
  case True
  have inv: "link_manager_inv m L" and init: "lm_initialized m" using link_manager_reach_inv [OF assms(1)] by auto
  have inv': "link_manager_inv m' L'" and init': "lm_initialized m'" using register_manager_inv [OF inv init assms(2)] by auto
  obtain i link_id n where r: "ret = 0" "m' = m\<lparr>lm_next_id := n, lm_links := (lm_links m)[i := Some a], lm_count := lm_count m + 1\<rparr>"
      "L' = L(a := (L a)\<lparr>lk_id := link_id, lk_receive := Some manager_receive_callback, lk_receive_user_data := None\<rparr>)"
    "i < 2" "lm_links m ! i = None" "a \<notin> set (registered_links m)"
    using register_registrable [OF inv init True] assms(2) by auto
  obtain x y where xy: "lm_links m = [x, y]" by (rule links_pair [OF inv])
  have set: "set (registered_links m') = insert a (set (registered_links m))"
    using r(4,5) by (cases x; cases y; cases i) (auto simp: r(2) registered_links_def xy less_Suc_eq numeral_2_eq_2)
  have "linkg_link_manager_get c m' L' = Some b \<longleftrightarrow> b \<in> insert a (set (registered_links m)) \<and> lk_id (L' b) = c" for b c
    using manager_find_exact [OF inv', of c b] init' by (simp add: linkg_link_manager_get_def set)
  moreover have "linkg_link_manager_get c m L = Some b \<longleftrightarrow> b \<in> set (registered_links m) \<and> lk_id (L b) = c" for b c
    using manager_find_exact [OF inv, of c b] init by (simp add: linkg_link_manager_get_def)
  ultimately show ?thesis using True r by auto
next
  case False
  then show ?thesis using register_refused [OF _ _ False] link_manager_reach_inv [OF assms(1)] assms(2) by auto
qed

text \<open>A manager with one link, and another that registers.\<close>

definition sample_link_object :: "linkg_link_access \<Rightarrow> unit link_object" where
  "sample_link_object access = \<lparr>lk_id = 0, lk_ops = Some \<lparr>lo_send_batch = None, lo_purge_tx_path = None\<rparr>,
     lk_runtime = Some \<lparr>ln_tx_batch_size = 32\<rparr>, lk_access = access, lk_state = LINKG_LINK_STATE_STOPPED, lk_receive = None,
     lk_receive_user_data = None\<rparr>"

definition sample_links :: "unit link_store" where
  "sample_links = (\<lambda>a. sample_link_object (if a = 0 then LINKG_LINK_ACCESS_WIFI else LINKG_LINK_ACCESS_CELLULAR))"

definition sample_manager :: linkg_link_manager_context where
  "sample_manager = snd (linkg_link_manager_init link_manager_zero)"

lemma sample_manager_reach: "link_manager_reach sample_manager sample_links"
  by (rule lm_start [of link_manager_zero]) (simp add: sample_manager_def linkg_link_manager_init_def link_manager_zero_def)

lemma sample_registrable: "link_registrable 0 sample_manager sample_links"
  by (simp add: link_registrable_def sample_links_def sample_link_object_def sample_manager_def linkg_link_manager_init_def
      link_manager_zero_def registered_links_def)

theorem link_manager_register_exact_witness:
  "case linkg_link_manager_register (Some 0) sample_manager sample_links of
     (ret, m', L') \<Rightarrow> ret = 0 \<and> linkg_link_manager_get (lk_id (L' 0)) m' L' = Some 0"
  using link_manager_register_exact [OF sample_manager_reach, of 0] sample_registrable by (simp split: prod.split)


end
