(* ===== verification/Scheduler.thy ===== *)
theory Scheduler
  imports Transport_Tx_Chunk Node_History Link_Manager
begin

text \<open>
  The send scheduler: \<open>src/core/scheduler/linkg_scheduler.c\<close>.

  The scheduler finds for each packet the direct peer that is the next hop, groups the packets of a chunk by peer,
  chooses the links for the peer and class, takes a reference to a path on each, gives the pg to the transport
  layer and drops the references. Frames that are relayed come back to it from the transport layer.

  Node table, link manager and links do not change during one call. Neither do the class plans and the maintenance of an
  access, which the switch publishes: they are functions in the environment \<open>scheduler_env\<close>, with the time and what the
  gate of a link will see.
\<close>

abbreviation (input) EHOSTUNREACH :: int where "EHOSTUNREACH \<equiv> 113"
abbreviation (input) ESHUTDOWN :: int where "ESHUTDOWN \<equiv> 108"
abbreviation (input) EOPNOTSUPP :: int where "EOPNOTSUPP \<equiv> 95"
abbreviation (input) ELOOP :: int where "ELOOP \<equiv> 40"
abbreviation (input) LINKG_SCHEDULER_TX_CHUNK_MAX :: nat where "LINKG_SCHEDULER_TX_CHUNK_MAX \<equiv> 32"
abbreviation (input) LINKG_SCHEDULER_PEER_GROUP_MAX :: nat where "LINKG_SCHEDULER_PEER_GROUP_MAX \<equiv> 16"
abbreviation (input) LINKG_SCHEDULER_POLICY_DEFAULT :: u32 where "LINKG_SCHEDULER_POLICY_DEFAULT \<equiv> 0"
abbreviation (input) LINKG_SCHEDULER_POLICY_REDUNDANT :: u32 where "LINKG_SCHEDULER_POLICY_REDUNDANT \<equiv> 1"
abbreviation (input) LINKG_SCHEDULER_POLICY_SPECIFIED :: u32 where "LINKG_SCHEDULER_POLICY_SPECIFIED \<equiv> 2"
abbreviation (input) LINKG_SEND_MODE_NONE :: u32 where "LINKG_SEND_MODE_NONE \<equiv> 0"
abbreviation (input) LINKG_SEND_MODE_SINGLE :: u32 where "LINKG_SEND_MODE_SINGLE \<equiv> 1"
abbreviation (input) LINKG_SEND_MODE_REDUNDANT :: u32 where "LINKG_SEND_MODE_REDUNDANT \<equiv> 2"

section \<open>Types\<close>

text \<open>Enumerators that the code range checks keep their codes.\<close>

record linkg_class_send_plan =
  cp_mode :: u32
  cp_primary_link_id :: u32
  cp_secondary_link_id :: u32

record linkg_scheduler_tx_context =
  sc_traffic_class :: u32
  sc_policy :: u32
  sc_specified_link_id :: u32

record linkg_scheduler_tx_item =
  si_packet :: "nat option"
  si_type :: u8
  si_destination_node_id :: u8
  si_result :: int

text \<open>The count of a group is the length of its indices.\<close>

record linkg_scheduler_peer_group =
  pg_item_indices :: "nat list"
  pg_peer_node_id :: u8

record linkg_scheduler_route_context =
  rc_local :: "linkg_node_info option"
  rc_sta_peer_node_id :: u8
  rc_sta_peer_result :: int

text \<open>The three global variables.\<close>

record scheduler_state =
  ss_initialized :: bool
  ss_sta_peer_cached :: bool
  ss_sta_peer_node_id :: u8

record 'd scheduler_env =
  se_node :: linkg_node_context
  se_manager :: linkg_link_manager_context
  se_links :: "'d link_store"
  se_blocked :: "u8 \<Rightarrow> linkg_link_access \<Rightarrow> bool"
  se_plan :: "u8 \<Rightarrow> u32 \<Rightarrow> int + linkg_class_send_plan"
  se_gate :: "nat \<Rightarrow> nat \<Rightarrow> link_gate"
  se_now_ms :: u64

text \<open>What a call changes: the paths, the transport layer, the drivers and the packets.\<close>

record 'd scheduler_world =
  sw_paths :: path_store
  sw_transport :: linkg_transport_context
  sw_io :: "'d \<times> heap"

section \<open>Checks\<close>

definition linkg_scheduler_node_id_valid :: "u8 \<Rightarrow> bool" where
  "linkg_scheduler_node_id_valid node_id \<longleftrightarrow> node_id \<ge> LINKG_RESOURCE_NODE_ID_MIN \<and> node_id \<le> LINKG_RESOURCE_NODE_ID_MAX"

definition linkg_scheduler_link_id_valid :: "u32 \<Rightarrow> bool" where
  "linkg_scheduler_link_id_valid link_id \<longleftrightarrow> link_id \<noteq> LINKG_LINK_ID_INVALID"

definition linkg_scheduler_class_valid :: "u32 \<Rightarrow> bool" where
  "linkg_scheduler_class_valid traffic_class \<longleftrightarrow> traffic_class \<ge> LINKG_TRANSPORT_CLASS_REALTIME \<and> traffic_class < LINKG_TRANSPORT_CLASS_COUNT"

definition linkg_scheduler_type_valid :: "u8 \<Rightarrow> bool" where
  "linkg_scheduler_type_valid type \<longleftrightarrow> type > LINKG_TRANSPORT_TYPE_NONE \<and> type < LINKG_TRANSPORT_TYPE_COUNT"

definition linkg_scheduler_policy_valid :: "u32 \<Rightarrow> bool" where
  "linkg_scheduler_policy_valid policy \<longleftrightarrow>
     policy = LINKG_SCHEDULER_POLICY_DEFAULT \<or> policy = LINKG_SCHEDULER_POLICY_REDUNDANT \<or> policy = LINKG_SCHEDULER_POLICY_SPECIFIED"

definition linkg_scheduler_validate_context :: "linkg_scheduler_tx_context option \<Rightarrow> int" where
  "linkg_scheduler_validate_context context =
     (case context of
        None \<Rightarrow> - EINVAL
      | Some ctx \<Rightarrow>
         (if \<not> linkg_scheduler_class_valid (sc_traffic_class ctx) \<or> \<not> linkg_scheduler_policy_valid (sc_policy ctx) then - EINVAL
          else if sc_policy ctx = LINKG_SCHEDULER_POLICY_SPECIFIED \<and> \<not> linkg_scheduler_link_id_valid (sc_specified_link_id ctx)
          then - EINVAL
          else 0))"

section \<open>Routes\<close>

text \<open>The node of the access point, or an error, and the cache after the search.\<close>

fun sta_peer_loop :: "nat list \<Rightarrow> linkg_node_context \<Rightarrow> scheduler_state \<Rightarrow> (int + u8) \<times> scheduler_state" where
  "sta_peer_loop [] c st = (Inl (- ENOENT), st)"
| "sta_peer_loop (node_id # node_ids) c st =
     (case linkg_node_get_peer_snapshot (of_nat node_id) c of
        Inl ret \<Rightarrow> if ret = - ENOENT then sta_peer_loop node_ids c st else (Inl ret, st)
      | Inr snapshot \<Rightarrow>
         (if ni_role (np_info snapshot) \<noteq> LINKG_DEVICE_ROLE_AP then (Inl (- EINVAL), st)
          else (Inr (ni_node_id (np_info snapshot)),
                st\<lparr>ss_sta_peer_node_id := ni_node_id (np_info snapshot), ss_sta_peer_cached := True\<rparr>)))"

definition sta_peer_search :: "linkg_node_context \<Rightarrow> scheduler_state \<Rightarrow> (int + u8) \<times> scheduler_state" where
  "sta_peer_search = sta_peer_loop [unat LINKG_RESOURCE_NODE_ID_MIN..<Suc (unat LINKG_RESOURCE_NODE_ID_MAX)]"

definition linkg_scheduler_find_sta_peer :: "linkg_node_context \<Rightarrow> scheduler_state \<Rightarrow> (int + u8) \<times> scheduler_state" where
  "linkg_scheduler_find_sta_peer c st =
     (if \<not> ss_sta_peer_cached st then sta_peer_search c st
      else case linkg_node_get_peer_snapshot (ss_sta_peer_node_id st) c of
        Inr snapshot \<Rightarrow>
         (if ni_role (np_info snapshot) \<noteq> LINKG_DEVICE_ROLE_AP then (Inl (- EINVAL), st)
          else (Inr (ni_node_id (np_info snapshot)), st))
      | Inl ret \<Rightarrow>
         (if ret \<noteq> - ENOENT then (Inl ret, st) else sta_peer_search c (st\<lparr>ss_sta_peer_cached := False\<rparr>)))"

definition linkg_scheduler_resolve_peer :: "linkg_node_info option \<Rightarrow> u8 \<Rightarrow> u8 \<Rightarrow> int + u8" where
  "linkg_scheduler_resolve_peer local destination_node_id sta_peer_node_id =
     (case local of
        None \<Rightarrow> Inl (- EINVAL)
      | Some l \<Rightarrow>
         (if \<not> linkg_scheduler_node_id_valid destination_node_id then Inl (- EINVAL)
          else if destination_node_id = ni_node_id l then Inl (- EHOSTUNREACH)
          else if ni_role l = LINKG_DEVICE_ROLE_AP then Inr destination_node_id
          else if ni_role l = LINKG_DEVICE_ROLE_STA
          then (if \<not> linkg_scheduler_node_id_valid sta_peer_node_id then Inl (- ENOENT) else Inr sta_peer_node_id)
          else Inl (- EINVAL)))"

definition linkg_scheduler_prepare_route_context ::
    "linkg_node_context \<Rightarrow> scheduler_state \<Rightarrow> (int + linkg_scheduler_route_context) \<times> scheduler_state" where
  "linkg_scheduler_prepare_route_context c st =
     (case linkg_node_get_local c of
        None \<Rightarrow> (Inl (- ENODEV), st)
      | Some l \<Rightarrow>
         (if ni_role l \<noteq> LINKG_DEVICE_ROLE_AP \<and> ni_role l \<noteq> LINKG_DEVICE_ROLE_STA then (Inl (- EINVAL), st)
          else if ni_role l = LINKG_DEVICE_ROLE_STA
          then
            (case linkg_scheduler_find_sta_peer c st of
               (Inl ret, st1) \<Rightarrow> (Inr \<lparr>rc_local = Some l, rc_sta_peer_node_id = 0, rc_sta_peer_result = ret\<rparr>, st1)
             | (Inr peer_node_id, st1) \<Rightarrow>
                 (Inr \<lparr>rc_local = Some l, rc_sta_peer_node_id = peer_node_id, rc_sta_peer_result = 0\<rparr>, st1))
          else (Inr \<lparr>rc_local = Some l, rc_sta_peer_node_id = 0, rc_sta_peer_result = 0\<rparr>, st)))"

section \<open>Results\<close>

definition linkg_scheduler_set_tx_group_result ::
    "linkg_scheduler_tx_item list \<Rightarrow> linkg_scheduler_peer_group \<Rightarrow> int \<Rightarrow> linkg_scheduler_tx_item list" where
  "linkg_scheduler_set_tx_group_result items pg result =
     fold (\<lambda>i its. its[i := (its ! i)\<lparr>si_result := result\<rparr>]) (pg_item_indices pg) items"

definition linkg_scheduler_set_forward_group_result :: "int list \<Rightarrow> linkg_scheduler_peer_group \<Rightarrow> int \<Rightarrow> int list" where
  "linkg_scheduler_set_forward_group_result results pg result = fold (\<lambda>i rs. rs[i := result]) (pg_item_indices pg) results"

section \<open>Targets\<close>

text \<open>The target, or an error, and the paths. The link and path objects are carried in the target.\<close>

definition linkg_scheduler_acquire_target ::
    "'d scheduler_env \<Rightarrow> u8 \<Rightarrow> u32 \<Rightarrow> path_store \<Rightarrow> (int + 'd linkg_transport_tx_target) \<times> path_store" where
  "linkg_scheduler_acquire_target env peer_node_id link_id s =
     (if \<not> linkg_scheduler_node_id_valid peer_node_id \<or> \<not> linkg_scheduler_link_id_valid link_id then (Inl (- EINVAL), s)
      else case linkg_link_manager_get link_id (se_manager env) (se_links env) of
        None \<Rightarrow> (Inl (- ENOENT), s)
      | Some link \<Rightarrow>
         (if \<not> linkg_link_is_running (Some link) (se_links env) then (Inl (- ENETDOWN), s)
          else if se_blocked env peer_node_id (linkg_link_get_access (Some link) (se_links env)) then (Inl (- EBUSY), s)
          else
            (let (ret, path, s1) = linkg_node_acquire_path peer_node_id link_id (se_node env) s in
             if ret \<noteq> 0 then (Inl ret, s1)
             else
               (Inr \<lparr>tt_link = Some (linkg_link.truncate (se_links env link)),
                     tt_path = map_option (\<lambda>(a, _). (a, path_at s1 a)) path,
                     tt_destination = (case path of None \<Rightarrow> endpoint_zero | Some (_, next_hop) \<Rightarrow> next_hop),
                     tt_gate = se_gate env link (case path of None \<Rightarrow> 0 | Some (a, _) \<Rightarrow> a)\<rparr>, s1))))"

fun linkg_scheduler_release_targets :: "'d linkg_transport_tx_target list \<Rightarrow> path_store \<Rightarrow> path_store" where
  "linkg_scheduler_release_targets [] s = s"
| "linkg_scheduler_release_targets (target # targets) s =
     linkg_scheduler_release_targets targets
       (case tt_path target of None \<Rightarrow> s | Some (a, _) \<Rightarrow> linkg_path_release (Some a) s)"

text \<open>Every link that can be had, in order.\<close>

fun control_targets_loop ::
    "'d scheduler_env \<Rightarrow> u8 \<Rightarrow> u32 list \<Rightarrow> path_store \<Rightarrow> 'd linkg_transport_tx_target list \<times> path_store" where
  "control_targets_loop env peer_node_id [] s = ([], s)"
| "control_targets_loop env peer_node_id (link_id # link_ids) s =
     (case linkg_scheduler_acquire_target env peer_node_id link_id s of
        (Inl ret, s1) \<Rightarrow> control_targets_loop env peer_node_id link_ids s1
      | (Inr target, s1) \<Rightarrow>
         (let (targets, s2) = control_targets_loop env peer_node_id link_ids s1 in (target # targets, s2)))"

definition linkg_scheduler_build_control_targets ::
    "'d scheduler_env \<Rightarrow> u8 \<Rightarrow> path_store \<Rightarrow> int \<times> 'd linkg_transport_tx_target list \<times> path_store" where
  "linkg_scheduler_build_control_targets env peer_node_id s =
     (let wifi = linkg_link_manager_get_id LINKG_LINK_ACCESS_WIFI (se_manager env) (se_links env);
          cellular = linkg_link_manager_get_id LINKG_LINK_ACCESS_CELLULAR (se_manager env) (se_links env);
          (targets, s1) = control_targets_loop env peer_node_id
            ((if wifi = LINKG_LINK_ID_INVALID then [] else [wifi]) @
             (if cellular = LINKG_LINK_ID_INVALID \<or> cellular = wifi then [] else [cellular])) s
      in (if targets = [] then - ENETDOWN else 0, targets, s1))"

text \<open>The code, the targets and the paths.\<close>

definition linkg_scheduler_build_targets ::
    "'d scheduler_env \<Rightarrow> u8 \<Rightarrow> u32 \<Rightarrow> u32 \<Rightarrow> u32 \<Rightarrow> path_store \<Rightarrow> int \<times> 'd linkg_transport_tx_target list \<times> path_store" where
  "linkg_scheduler_build_targets env peer_node_id traffic_class policy specified_link_id s =
     (if \<not> linkg_scheduler_node_id_valid peer_node_id \<or> \<not> linkg_scheduler_class_valid traffic_class \<or>
         \<not> linkg_scheduler_policy_valid policy
      then (- EINVAL, [], s)
      else if policy = LINKG_SCHEDULER_POLICY_SPECIFIED
      then
        (if \<not> linkg_scheduler_link_id_valid specified_link_id then (- EINVAL, [], s)
         else case linkg_scheduler_acquire_target env peer_node_id specified_link_id s of
           (Inl ret, s1) \<Rightarrow> (ret, [], s1)
         | (Inr target, s1) \<Rightarrow> (0, [target], s1))
      else if policy = LINKG_SCHEDULER_POLICY_REDUNDANT then linkg_scheduler_build_control_targets env peer_node_id s
      else case se_plan env peer_node_id traffic_class of
        Inl ret \<Rightarrow> (ret, [], s)
      | Inr plan \<Rightarrow>
         (if cp_mode plan = LINKG_SEND_MODE_NONE then (- ENETDOWN, [], s)
          else if cp_mode plan \<noteq> LINKG_SEND_MODE_SINGLE \<and> cp_mode plan \<noteq> LINKG_SEND_MODE_REDUNDANT then (- EINVAL, [], s)
          else if \<not> linkg_scheduler_link_id_valid (cp_primary_link_id plan) then (- ENODEV, [], s)
          else
            (let (primary, s1) = linkg_scheduler_acquire_target env peer_node_id (cp_primary_link_id plan) s;
                 primary_error = (case primary of Inl ret \<Rightarrow> ret | Inr _ \<Rightarrow> 0);
                 targets = (case primary of Inl _ \<Rightarrow> [] | Inr target \<Rightarrow> [target]) in
             if cp_mode plan = LINKG_SEND_MODE_SINGLE
             then (if targets = [] then (primary_error, [], s1) else (0, targets, s1))
             else
               (let (secondary_error, targets, s2) =
                  (if linkg_scheduler_link_id_valid (cp_secondary_link_id plan) \<and>
                      cp_secondary_link_id plan \<noteq> cp_primary_link_id plan \<and> length targets < LINKG_TRANSPORT_TX_TARGET_MAX
                   then (case linkg_scheduler_acquire_target env peer_node_id (cp_secondary_link_id plan) s1 of
                           (Inl ret, s2) \<Rightarrow> (ret, targets, s2)
                         | (Inr target, s2) \<Rightarrow> (0, targets @ [target], s2))
                   else (0, targets, s1)) in
                if targets = []
                then (if primary_error \<noteq> 0 then primary_error
                      else if secondary_error \<noteq> 0 then secondary_error else - ENETDOWN, [], s2)
                else (0, targets, s2)))))"

section \<open>Sending\<close>

text \<open>
  One group, given to the transport layer: the code, the items with their results and the world. The array of results
  the code passes holds \<open>-EINPROGRESS\<close> until the transport layer writes it.
\<close>

definition linkg_scheduler_submit_tx_group ::
    "'d scheduler_env \<Rightarrow> linkg_scheduler_tx_context \<Rightarrow> linkg_scheduler_tx_item list \<Rightarrow> linkg_scheduler_peer_group \<Rightarrow> 'd scheduler_world \<Rightarrow>
     int \<times> linkg_scheduler_tx_item list \<times> 'd scheduler_world" where
  "linkg_scheduler_submit_tx_group env ctx items pg w =
     (if pg_item_indices pg = [] \<or> length (pg_item_indices pg) > LINKG_SCHEDULER_TX_CHUNK_MAX then (- EINVAL, items, w)
      else
        (let (ret, targets, paths) = linkg_scheduler_build_targets env (pg_peer_node_id pg) (sc_traffic_class ctx) (sc_policy ctx)
               (sc_specified_link_id ctx) (sw_paths w) in
         if ret \<noteq> 0 then (0, linkg_scheduler_set_tx_group_result items pg ret, w\<lparr>sw_paths := paths\<rparr>)
         else
           (let transport_context = \<lparr>tx_targets = Some targets, tx_traffic_class = sc_traffic_class ctx, tx_peer_node_id = pg_peer_node_id pg\<rparr>;
                transport_items = map (\<lambda>i. \<lparr>ti_packet = si_packet (items ! i), ti_type = si_type (items ! i),
                  ti_destination_node_id = si_destination_node_id (items ! i)\<rparr>) (pg_item_indices pg);
                (ret, results, transport, io) = linkg_transport_send_batch (Some transport_context) (Some transport_items) (se_now_ms env)
                  (sw_transport w) (sw_io w);
                transport_results = (case results of None \<Rightarrow> replicate (length transport_items) (- EINPROGRESS) | Some rs \<Rightarrow> rs);
                w1 = \<lparr>sw_paths = linkg_scheduler_release_targets targets paths, sw_transport = transport, sw_io = io\<rparr>
            in if ret < 0 then (ret, linkg_scheduler_set_tx_group_result items pg ret, w1)
               else
                 (int (length (filter (\<lambda>r. r = 0) transport_results)),
                  fold (\<lambda>(i, r) its. its[i := (its ! i)\<lparr>si_result := r\<rparr>]) (zip (pg_item_indices pg) transport_results) items, w1))))"

text \<open>
  Sorting items into groups by next hop, in the order of their first items. The next hop of an item, or the error that
  is its result, is computed first; an item whose hop would need a group too many is refused.
\<close>

fun group_insert :: "nat \<Rightarrow> u8 \<Rightarrow> linkg_scheduler_peer_group list \<Rightarrow> linkg_scheduler_peer_group list" where
  "group_insert index hop [] = [\<lparr>pg_item_indices = [index], pg_peer_node_id = hop\<rparr>]"
| "group_insert index hop (pg # groups) =
     (if pg_peer_node_id pg = hop then pg\<lparr>pg_item_indices := pg_item_indices pg @ [index]\<rparr> # groups
      else pg # group_insert index hop groups)"

fun group_loop :: "nat \<Rightarrow> (int + u8) list \<Rightarrow> linkg_scheduler_peer_group list \<Rightarrow> int list \<times> linkg_scheduler_peer_group list" where
  "group_loop index [] groups = ([], groups)"
| "group_loop index (hop # hops) groups =
     (let (result, groups1) =
        (case hop of
           Inl ret \<Rightarrow> (ret, groups)
         | Inr peer_node_id \<Rightarrow>
            (if list_all (\<lambda>g. pg_peer_node_id g \<noteq> peer_node_id) groups \<and> length groups \<ge> LINKG_SCHEDULER_PEER_GROUP_MAX
             then (- ENOSPC, groups)
             else (- EINPROGRESS, group_insert index peer_node_id groups)));
          (results, groups2) = group_loop (Suc index) hops groups1
      in (result # results, groups2))"

definition tx_next_hop :: "linkg_scheduler_route_context \<Rightarrow> linkg_scheduler_tx_item \<Rightarrow> int + u8" where
  "tx_next_hop rc item =
     (if si_packet item = None \<or> \<not> linkg_scheduler_type_valid (si_type item) \<or>
         \<not> linkg_scheduler_node_id_valid (si_destination_node_id item)
      then Inl (- EINVAL)
      else if ni_role (the (rc_local rc)) = LINKG_DEVICE_ROLE_STA \<and> rc_sta_peer_result rc \<noteq> 0 then Inl (rc_sta_peer_result rc)
      else linkg_scheduler_resolve_peer (rc_local rc) (si_destination_node_id item) (rc_sta_peer_node_id rc))"

fun tx_groups_loop ::
    "'d scheduler_env \<Rightarrow> linkg_scheduler_tx_context \<Rightarrow> linkg_scheduler_peer_group list \<Rightarrow> linkg_scheduler_tx_item list \<Rightarrow> 'd scheduler_world \<Rightarrow>
     int \<times> linkg_scheduler_tx_item list \<times> 'd scheduler_world" where
  "tx_groups_loop env ctx [] items w = (0, items, w)"
| "tx_groups_loop env ctx (pg # groups) items w =
     (let (ret, items1, w1) = linkg_scheduler_submit_tx_group env ctx items pg w;
          items2 = (if ret < 0 then linkg_scheduler_set_tx_group_result items1 pg ret else items1);
          (success, items3, w2) = tx_groups_loop env ctx groups items2 w1
      in ((if ret < 0 then success else ret + success), items3, w2))"

definition linkg_scheduler_submit_tx_chunk ::
    "'d scheduler_env \<Rightarrow> linkg_scheduler_tx_context \<Rightarrow> linkg_scheduler_route_context \<Rightarrow> linkg_scheduler_tx_item list \<Rightarrow> 'd scheduler_world \<Rightarrow>
     int \<times> linkg_scheduler_tx_item list \<times> 'd scheduler_world" where
  "linkg_scheduler_submit_tx_chunk env ctx rc items w =
     (if rc_local rc = None \<or> items = [] \<or> length items > LINKG_SCHEDULER_TX_CHUNK_MAX then (- EINVAL, items, w)
      else
        (let (results, groups) = group_loop 0 (map (tx_next_hop rc) items) []
         in tx_groups_loop env ctx groups (map2 (\<lambda>item result. item\<lparr>si_result := result\<rparr>) items results) w))"

section \<open>Relaying\<close>

definition linkg_scheduler_submit_forward_group ::
    "'d scheduler_env \<Rightarrow> u32 \<Rightarrow> linkg_transport_forward_item list \<Rightarrow> int list \<Rightarrow> linkg_scheduler_peer_group \<Rightarrow> 'd scheduler_world \<Rightarrow>
     int \<times> int list \<times> 'd scheduler_world" where
  "linkg_scheduler_submit_forward_group env traffic_class items results pg w =
     (if \<not> linkg_scheduler_class_valid traffic_class \<or> pg_item_indices pg = [] \<or>
         length (pg_item_indices pg) > LINKG_SCHEDULER_TX_CHUNK_MAX
      then (- EINVAL, results, w)
      else
        (let (ret, targets, paths) = linkg_scheduler_build_targets env (pg_peer_node_id pg) traffic_class LINKG_SCHEDULER_POLICY_DEFAULT
               LINKG_LINK_ID_INVALID (sw_paths w) in
         if ret \<noteq> 0 then (0, linkg_scheduler_set_forward_group_result results pg ret, w\<lparr>sw_paths := paths\<rparr>)
         else
           (let transport_context = \<lparr>tx_targets = Some targets, tx_traffic_class = traffic_class, tx_peer_node_id = pg_peer_node_id pg\<rparr>;
                transport_items = map (\<lambda>i. items ! i) (pg_item_indices pg);
                (ret, answers, transport, io) = linkg_transport_forward_batch (Some transport_context) (Some transport_items) (se_now_ms env)
                  (sw_transport w) (sw_io w);
                transport_results = (case answers of None \<Rightarrow> replicate (length transport_items) (- EINPROGRESS) | Some rs \<Rightarrow> rs);
                w1 = \<lparr>sw_paths = linkg_scheduler_release_targets targets paths, sw_transport = transport, sw_io = io\<rparr>
            in if ret < 0 then (ret, linkg_scheduler_set_forward_group_result results pg ret, w1)
               else
                 (int (length (filter (\<lambda>r. r = 0) transport_results)),
                  fold (\<lambda>(i, r) rs. rs[i := r]) (zip (pg_item_indices pg) transport_results) results, w1))))"

definition forward_next_hop :: "linkg_node_info \<Rightarrow> linkg_transport_forward_item \<Rightarrow> int + u8" where
  "forward_next_hop local item =
     (if fi_packet item = None \<or> fi_payload_length item = 0 \<or> \<not> linkg_scheduler_node_id_valid (fi_destination_node_id item) \<or>
         \<not> linkg_scheduler_node_id_valid (fi_peer_node_id item)
      then Inl (- EINVAL)
      else case linkg_scheduler_resolve_peer (Some local) (fi_destination_node_id item) 0 of
        Inl ret \<Rightarrow> Inl ret
      | Inr peer_node_id \<Rightarrow> if peer_node_id = fi_peer_node_id item then Inl (- ELOOP) else Inr peer_node_id)"

fun forward_groups_loop ::
    "'d scheduler_env \<Rightarrow> u32 \<Rightarrow> linkg_transport_forward_item list \<Rightarrow> linkg_scheduler_peer_group list \<Rightarrow> int list \<Rightarrow> 'd scheduler_world \<Rightarrow>
     int \<times> int list \<times> 'd scheduler_world" where
  "forward_groups_loop env traffic_class items [] results w = (0, results, w)"
| "forward_groups_loop env traffic_class items (pg # groups) results w =
     (let (ret, results1, w1) = linkg_scheduler_submit_forward_group env traffic_class items results pg w;
          results2 = (if ret < 0 then linkg_scheduler_set_forward_group_result results1 pg ret else results1);
          (success, results3, w2) = forward_groups_loop env traffic_class items groups results2 w1
      in ((if ret < 0 then success else ret + success), results3, w2))"

text \<open>The results are a value when the code has written them.\<close>

definition linkg_scheduler_transport_forward ::
    "'d scheduler_env \<Rightarrow> u32 \<Rightarrow> linkg_transport_forward_item list option \<Rightarrow> scheduler_state \<Rightarrow> 'd scheduler_world \<Rightarrow>
     int \<times> int list option \<times> 'd scheduler_world" where
  "linkg_scheduler_transport_forward env traffic_class items st w =
     (if \<not> ss_initialized st then (- ESHUTDOWN, None, w)
      else if \<not> linkg_scheduler_class_valid traffic_class \<or> items = None \<or> items = Some [] then (- EINVAL, None, w)
      else
        (let its = the items in
         if length its > LINKG_SCHEDULER_TX_CHUNK_MAX then (- EOVERFLOW, Some (replicate (length its) (- EOVERFLOW)), w)
         else case linkg_node_get_local (se_node env) of
           None \<Rightarrow> (- ENODEV, Some (replicate (length its) (- ENODEV)), w)
         | Some local \<Rightarrow>
            (if ni_role local \<noteq> LINKG_DEVICE_ROLE_AP then (- EOPNOTSUPP, Some (replicate (length its) (- EOPNOTSUPP)), w)
             else
               (let (results, groups) = group_loop 0 (map (forward_next_hop local) its) [];
                    (success, results1, w1) = forward_groups_loop env traffic_class its groups results w
                in (success, Some results1, w1)))))"

section \<open>Life cycle\<close>

text \<open>The address of the function \<open>_linkg_scheduler_transport_forward\<close>.\<close>

abbreviation (input) scheduler_forward_callback :: nat where "scheduler_forward_callback \<equiv> 2"

definition linkg_scheduler_init ::
    "scheduler_state \<Rightarrow> linkg_transport_context \<Rightarrow> int \<times> scheduler_state \<times> linkg_transport_context" where
  "linkg_scheduler_init st c =
     (if ss_initialized st then (- EALREADY, st, c)
      else
        (let st1 = st\<lparr>ss_initialized := True, ss_sta_peer_cached := False, ss_sta_peer_node_id := 0\<rparr>;
             (ret, c1) = linkg_transport_register_forward_handler (Some scheduler_forward_callback) None c
         in if ret \<noteq> 0 then (ret, st1\<lparr>ss_initialized := False\<rparr>, c1) else (0, st1, c1)))"

definition linkg_scheduler_deinit ::
    "scheduler_state \<Rightarrow> linkg_transport_context \<Rightarrow> int \<times> scheduler_state \<times> linkg_transport_context" where
  "linkg_scheduler_deinit st c =
     (if \<not> ss_initialized st then (0, st, c)
      else
        (let (ret, c1) = linkg_transport_unregister_forward_handler c
         in if ret \<noteq> 0 \<and> ret \<noteq> - ENOENT then (ret, st, c1)
            else (0, st\<lparr>ss_initialized := False, ss_sta_peer_cached := False, ss_sta_peer_node_id := 0\<rparr>, c1)))"

section \<open>Submission\<close>

text \<open>The successes, the first error, whether a chunk was processed, the items and the world.\<close>

function scheduler_send_loop ::
    "'d scheduler_env \<Rightarrow> linkg_scheduler_tx_context \<Rightarrow> linkg_scheduler_route_context \<Rightarrow> linkg_scheduler_tx_item list \<Rightarrow> 'd scheduler_world \<Rightarrow>
     int \<times> int \<times> bool \<times> linkg_scheduler_tx_item list \<times> 'd scheduler_world" where
  "scheduler_send_loop env ctx rc items w =
     (if items = [] then (0, 0, False, [], w)
      else
        (let n = min (length items) LINKG_SCHEDULER_TX_CHUNK_MAX;
             (ret, items1, w1) = linkg_scheduler_submit_tx_chunk env ctx rc (take n items) w;
             (success, first_error, processed, rest, w2) = scheduler_send_loop env ctx rc (drop n items) w1
         in if ret < 0
            then (success, ret, processed, map (\<lambda>item. item\<lparr>si_result := ret\<rparr>) items1 @ rest, w2)
            else (ret + success, first_error, True, items1 @ rest, w2)))"
  by pat_completeness auto
termination
  by (relation "measure (\<lambda>(env, ctx, rc, items, w). length items)") auto

declare scheduler_send_loop.simps [simp del]

text \<open>The code, the items with their results, and what changed.\<close>

definition linkg_scheduler_submit_batch ::
    "'d scheduler_env \<Rightarrow> linkg_scheduler_tx_context option \<Rightarrow> linkg_scheduler_tx_item list option \<Rightarrow> scheduler_state \<Rightarrow> 'd scheduler_world \<Rightarrow>
     int \<times> linkg_scheduler_tx_item list option \<times> scheduler_state \<times> 'd scheduler_world" where
  "linkg_scheduler_submit_batch env context items st w =
     (if \<not> ss_initialized st then (- ENODEV, items, st, w)
      else if linkg_scheduler_validate_context context \<noteq> 0 then (linkg_scheduler_validate_context context, items, st, w)
      else if items = None \<or> items = Some [] then (- EINVAL, items, st, w)
      else
        (case linkg_scheduler_prepare_route_context (se_node env) st of
           (Inl ret, st1) \<Rightarrow> (ret, Some (map (\<lambda>item. item\<lparr>si_result := ret\<rparr>) (the items)), st1, w)
         | (Inr rc, st1) \<Rightarrow>
             (let (success, first_error, processed, items1, w1) = scheduler_send_loop env (the context) rc (the items) w
              in (if \<not> processed then first_error else success, Some items1, st1, w1))))"

definition linkg_scheduler_submit ::
    "'d scheduler_env \<Rightarrow> linkg_scheduler_tx_context option \<Rightarrow> linkg_scheduler_tx_item option \<Rightarrow> scheduler_state \<Rightarrow> 'd scheduler_world \<Rightarrow>
     int \<times> linkg_scheduler_tx_item option \<times> scheduler_state \<times> 'd scheduler_world" where
  "linkg_scheduler_submit env context item st w =
     (case item of
        None \<Rightarrow> (- EINVAL, None, st, w)
      | Some it \<Rightarrow>
         (let (ret, items, st1, w1) = linkg_scheduler_submit_batch env context (Some [it]) st w;
              it1 = hd (the items)
          in (if ret < 0 then ret else si_result it1, Some it1, st1, w1)))"

end
