(* ===== verification/Scheduler_Targets.thy ===== *)
theory Scheduler_Targets
  imports Scheduler
begin

text \<open>
  Which links and which peer the scheduler chooses. The links are exactly the usable ones among those the policy or the
  class plan names, with one reference to the path over each; the peer of a station is its one access point, whatever
  the cache of the scheduler holds. At the end a concrete access point with one station and one link.
\<close>

section \<open>The links that are chosen\<close>

text \<open>The target that stands for a link to a peer: the registered, running link and the active path over it.\<close>

definition target_for :: "'d scheduler_env \<Rightarrow> u8 \<Rightarrow> path_store \<Rightarrow> u32 \<Rightarrow> 'd linkg_transport_tx_target \<Rightarrow> bool" where
  "target_for env peer s link_id t \<longleftrightarrow>
     (\<exists>link a. link \<in> set (registered_links (se_manager env)) \<and> lk_id (se_links env link) = link_id \<and>
       lk_state (se_links env link) = LINKG_LINK_STATE_RUNNING \<and> \<not> se_blocked env peer (lk_access (se_links env link)) \<and>
       a < 32 \<and> ns_valid (nd_peers (se_node env) ! (a div 2)) \<and> ni_node_id (ns_info (nd_peers (se_node env) ! (a div 2))) = peer \<and>
       path_st s a = LINKG_PATH_STATE_ACTIVE \<and> pt_link_id (path_at s a) = link_id \<and>
       tt_link t = Some (linkg_link.truncate (se_links env link)) \<and> map_option fst (tt_path t) = Some a \<and>
       tt_destination t = pt_next_hop (path_at s a))"

definition link_usable :: "'d scheduler_env \<Rightarrow> u8 \<Rightarrow> path_store \<Rightarrow> u32 \<Rightarrow> bool" where
  "link_usable env peer s link_id \<longleftrightarrow> (\<exists>t. target_for env peer s link_id t)"

abbreviation target_path :: "'d linkg_transport_tx_target \<Rightarrow> nat" where
  "target_path t \<equiv> fst (the (tt_path t))"

abbreviation add_ref :: "nat \<Rightarrow> path_store \<Rightarrow> path_store" where
  "add_ref a \<equiv> upd_path a (\<lambda>p. p\<lparr>pt_reference_count := pt_reference_count p + 1\<rparr>)"

lemma add_ref_simps [simp]:
  "path_st (add_ref a s) b = path_st s b" "pt_link_id (path_at (add_ref a s) b) = pt_link_id (path_at s b)"
  "pt_next_hop (path_at (add_ref a s) b) = pt_next_hop (path_at s b)"
  by (simp_all add: upd_path_def)

lemma target_for_add_ref [simp]: "target_for env peer (add_ref a s) = target_for env peer s"
  unfolding target_for_def add_ref_simps by (rule refl)

lemma usable_add_ref [simp]: "link_usable env peer (add_ref a s) = link_usable env peer s"
  by (intro ext) (simp add: link_usable_def)

text \<open>The node table, the link manager and the paths have come about by their own operations.\<close>

definition scheduler_setting :: "node_run \<Rightarrow> 'd scheduler_env \<Rightarrow> bool" where
  "scheduler_setting x env \<longleftrightarrow> node_reach x \<and> nr_node x = se_node env \<and> link_manager_reach (se_manager env) (se_links env)"

lemma settingD:
  assumes "scheduler_setting x env"
  shows "node_reach x" "node_inv x" "nr_node x = se_node env" "link_manager_inv (se_manager env) (se_links env)"
    "lm_initialized (se_manager env)"
  using assms node_reach_inv link_manager_reach_inv by (auto simp: scheduler_setting_def)

lemma node_table_valid:
  assumes "node_inv x" "a < 32" "ns_valid (nd_peers (nr_node x) ! (a div 2))"
  shows "linkg_scheduler_node_id_valid (ni_node_id (ns_info (nd_peers (nr_node x) ! (a div 2))))"
proof -
  have "a div 2 < 16" using assms(2) by simp
  then have "linkg_node_info_valid (Some (ns_info (nd_peers (nr_node x) ! (a div 2))))"
    using node_invD(8) [OF assms(1)] assms(3) by (auto simp: node_table_inv_def occupied_def Let_def)
  then show ?thesis by (auto simp: linkg_node_info_valid_def linkg_node_id_valid_def linkg_scheduler_node_id_valid_def split: if_splits)
qed

text \<open>A link to a peer leads to one path.\<close>

lemma target_path_unique:
  assumes set: "scheduler_setting x env" and t: "target_for env peer (nr_paths x) link_id t"
    and a: "a < 32" "ns_valid (nd_peers (se_node env) ! (a div 2))" "ni_node_id (ns_info (nd_peers (se_node env) ! (a div 2))) = peer"
      "path_st (nr_paths x) a = LINKG_PATH_STATE_ACTIVE" "pt_link_id (path_at (nr_paths x) a) = link_id"
  shows "target_path t = a"
proof -
  note s = settingD [OF set]
  obtain ret path s' where acq: "linkg_node_acquire_path peer link_id (nr_node x) (nr_paths x) = (ret, path, s')" by (metis prod_cases3)
  have p: "path = Some (b, pt_next_hop (path_at (nr_paths x) b))" if "b < 32" "ns_valid (nd_peers (se_node env) ! (b div 2))"
    "ni_node_id (ns_info (nd_peers (se_node env) ! (b div 2))) = peer" "path_st (nr_paths x) b = LINKG_PATH_STATE_ACTIVE"
    "pt_link_id (path_at (nr_paths x) b) = link_id" for b
    using node_acquire_cases(3) [OF s(2) acq] that s(3) by simp
  from t obtain b where b: "b < 32" "ns_valid (nd_peers (se_node env) ! (b div 2))" "ni_node_id (ns_info (nd_peers (se_node env) ! (b div 2))) = peer"
      "path_st (nr_paths x) b = LINKG_PATH_STATE_ACTIVE" "pt_link_id (path_at (nr_paths x) b) = link_id" "map_option fst (tt_path t) = Some b"
    unfolding target_for_def by blast
  then have "b = a" using p [OF b(1-5)] p [OF a] by simp
  then show ?thesis using b(6) by auto
qed

lemma acquire_target_cases:
  assumes set: "scheduler_setting x env" and room: "node_refs_room 1 (nr_paths x)"
    and acq: "linkg_scheduler_acquire_target env peer link_id (nr_paths x) = (r, s)"
  shows "case r of
      Inl e \<Rightarrow> e < 0 \<and> s = nr_paths x \<and> \<not> link_usable env peer (nr_paths x) link_id
    | Inr t \<Rightarrow> target_for env peer (nr_paths x) link_id t \<and> s = add_ref (target_path t) (nr_paths x) \<and>
        (\<exists>y. scheduler_setting y env \<and> nr_paths y = s \<and> nr_held y = add_mset (target_path t) (nr_held x))"
proof -
  note st = settingD [OF set]
  let ?m = "se_manager env" and ?L = "se_links env" and ?s = "nr_paths x"
  have get: "linkg_link_manager_get link_id ?m ?L = Some link \<longleftrightarrow> link \<in> set (registered_links ?m) \<and> lk_id (?L link) = link_id" for link
    using manager_find_exact [OF st(4)] st(5) by (simp add: linkg_link_manager_get_def)
  show ?thesis
  proof (cases "\<not> linkg_scheduler_node_id_valid peer \<or> \<not> linkg_scheduler_link_id_valid link_id \<or> linkg_link_manager_get link_id ?m ?L = None")
    case True
    have "\<not> target_for env peer ?s link_id t" for t
    proof
      assume "target_for env peer ?s link_id t"
      then obtain link a where "link \<in> set (registered_links ?m)" "lk_id (?L link) = link_id" "a < 32"
        "ns_valid (nd_peers (se_node env) ! (a div 2))" "ni_node_id (ns_info (nd_peers (se_node env) ! (a div 2))) = peer"
        unfolding target_for_def by blast
      then show False using True get [of link] node_table_valid [OF st(2), of a] st(3,4)
        by (auto simp: linkg_scheduler_link_id_valid_def link_manager_inv_def)
    qed
    moreover have "(r = Inl (- EINVAL) \<or> r = Inl (- ENOENT)) \<and> s = ?s"
      using True acq by (auto simp: linkg_scheduler_acquire_target_def split: if_splits)
    ultimately show ?thesis by (auto simp: link_usable_def)
  next
    case False
    then obtain link where link: "linkg_link_manager_get link_id ?m ?L = Some link" by blast
    note lk = link [unfolded get]
    obtain ret path s1 where np: "linkg_node_acquire_path peer link_id (nr_node x) ?s = (ret, path, s1)" by (metis prod_cases3)
    note c = node_acquire_cases [OF st(2) np]
    have only: "link' = link" if "link' \<in> set (registered_links ?m)" "lk_id (?L link') = link_id" for link'
      using get [of link'] that link by simp
    show ?thesis
    proof (cases "lk_state (?L link) = LINKG_LINK_STATE_RUNNING \<and> \<not> se_blocked env peer (lk_access (?L link)) \<and> path \<noteq> None")
      case True
      then obtain a ep where p: "path = Some (a, ep)" by auto
      have r: "r = Inr \<lparr>tt_link = Some (linkg_link.truncate (?L link)), tt_path = Some (a, path_at s1 a), tt_destination = ep,
          tt_gate = se_gate env link a\<rparr>" "s = s1"
        using acq np True False c(2) [OF p] st(3) link
        by (auto simp: linkg_scheduler_acquire_target_def linkg_link_is_running_def linkg_link_get_state_def linkg_link_get_access_def p)
      have "linkg_node_acquire_path_batch peer link_id 1 (nr_node x) ?s = (ret, Some (a, ep), s1)"
        using np p by (simp add: linkg_node_acquire_path_def)
      from node_acquire [OF _ this] have "node_step x (x\<lparr>nr_paths := s1, nr_held := nr_held x + {#a#}\<rparr>)"
        using room by simp
      then have "scheduler_setting (x\<lparr>nr_paths := s1, nr_held := nr_held x + {#a#}\<rparr>) env"
        using set node_more by (auto simp: scheduler_setting_def)
      then show ?thesis using r lk True c(2) [OF p] c(3) [of a ep] p st(3)
        by (force simp: target_for_def)
    next
      case nt: False
      have no: "\<not> target_for env peer ?s link_id t" for t
      proof
        assume "target_for env peer ?s link_id t"
        then obtain link' a where t: "link' \<in> set (registered_links ?m)" "lk_id (?L link') = link_id"
          "lk_state (?L link') = LINKG_LINK_STATE_RUNNING" "\<not> se_blocked env peer (lk_access (?L link'))"
          "a < 32" "ns_valid (nd_peers (se_node env) ! (a div 2))" "ni_node_id (ns_info (nd_peers (se_node env) ! (a div 2))) = peer"
          "path_st ?s a = LINKG_PATH_STATE_ACTIVE" "pt_link_id (path_at ?s a) = link_id"
          unfolding target_for_def by blast
        have "path = Some (a, pt_next_hop (path_at ?s a))" using c(3) t st(3) by simp
        then show False using nt only [OF t(1,2)] t(3,4) by simp
      qed
      have "r = Inl (- ENETDOWN) \<and> s = ?s \<or> r = Inl (- EBUSY) \<and> s = ?s \<or> r = Inl ret \<and> s = s1 \<and> path = None"
        using acq np nt False st(3) link c(1)
        by (cases path) (auto simp: linkg_scheduler_acquire_target_def linkg_link_is_running_def linkg_link_get_state_def linkg_link_get_access_def
            split: if_splits)
      then show ?thesis using c(1) no by (auto simp: link_usable_def)
    qed
  qed
qed


lemma setting_refs: "scheduler_setting x env \<Longrightarrow> a < 32 \<Longrightarrow> path_refs (nr_paths x) a = Multiset.count (nr_held x) a"
  using node_invD(10) [OF settingD(2)] by blast

lemma room_more:
  assumes "scheduler_setting x env" "scheduler_setting y env" "nr_held y = add_mset a (nr_held x)" "node_refs_room (Suc n) (nr_paths x)"
  shows "node_refs_room n (nr_paths y)"
proof -
  have "path_refs (nr_paths y) b + n < 2 ^ 32" if "b < 32" for b
    using assms(4) setting_refs [OF assms(1) that] setting_refs [OF assms(2) that] that assms(3)
    unfolding node_refs_room_def by (auto split: if_splits)
  then show ?thesis by (simp add: node_refs_room_def)
qed

lemma target_forD:
  assumes "target_for env peer s link_id t"
  shows "tt_path t \<noteq> None" "tt_link t \<noteq> None" "target_path t < 32" "path_st s (target_path t) = LINKG_PATH_STATE_ACTIVE"
    "pt_link_id (path_at s (target_path t)) = link_id"
  using assms by (auto simp: target_for_def)

lemma targets_loop_exact:
  assumes "scheduler_setting x env" "node_refs_room (length link_ids) (nr_paths x)"
    and "control_targets_loop env peer link_ids (nr_paths x) = (ts, s)"
  shows "list_all2 (target_for env peer (nr_paths x)) (filter (link_usable env peer (nr_paths x)) link_ids) ts \<and>
    s = fold add_ref (map target_path ts) (nr_paths x) \<and>
    (\<exists>y. scheduler_setting y env \<and> nr_paths y = s \<and> nr_held y = mset (map target_path ts) + nr_held x)"
  using assms
proof (induction link_ids arbitrary: x ts s)
  case Nil
  then show ?case by auto
next
  case (Cons link_id link_ids)
  obtain r s1 where acq: "linkg_scheduler_acquire_target env peer link_id (nr_paths x) = (r, s1)" by force
  have "node_refs_room 1 (nr_paths x)" using Cons.prems(2) by (auto simp: node_refs_room_def)
  note c = acquire_target_cases [OF Cons.prems(1) this acq]
  show ?case
  proof (cases r)
    case (Inl e)
    have "control_targets_loop env peer link_ids (nr_paths x) = (ts, s)" "node_refs_room (length link_ids) (nr_paths x)"
      using Cons.prems(2,3) acq Inl c by (auto simp: node_refs_room_def)
    from Cons.IH [OF Cons.prems(1) this(2,1)] show ?thesis using c Inl by auto
  next
    case (Inr t)
    then obtain y where y: "scheduler_setting y env" "nr_paths y = s1" "nr_held y = add_mset (target_path t) (nr_held x)"
      "target_for env peer (nr_paths x) link_id t" "s1 = add_ref (target_path t) (nr_paths x)" using c by auto
    obtain ts' where l: "control_targets_loop env peer link_ids (nr_paths y) = (ts', s)" "ts = t # ts'"
      using Cons.prems(3) acq Inr y(2) by (auto split: prod.splits)
    have "node_refs_room (length link_ids) (nr_paths y)" using room_more [OF Cons.prems(1) y(1,3)] Cons.prems(2) by simp
    note ih = Cons.IH [OF y(1) this l(1)]
    have eq: "target_for env peer (nr_paths y) = target_for env peer (nr_paths x)"
      "link_usable env peer (nr_paths y) = link_usable env peer (nr_paths x)" by (simp_all add: y(2,5))
    from ih obtain z where z: "scheduler_setting z env" "nr_paths z = s" "nr_held z = mset (map target_path ts') + nr_held y" by blast
    have "link_usable env peer (nr_paths x) link_id" using y(4) by (auto simp: link_usable_def)
    then show ?thesis using ih y(2,4,5) z by (auto simp: l(2) eq y(3) intro!: exI [of _ z])
  qed
qed

lemma add_ref_commute: "add_ref a (add_ref b s) = add_ref b (add_ref a s)"
  by (simp add: upd_path_def fun_upd_twist)

lemma fold_add_ref: "fold add_ref as (add_ref a s) = add_ref a (fold add_ref as s)"
proof (induction as arbitrary: s)
  case (Cons b as)
  show ?case using Cons.IH [of "add_ref b s"] add_ref_commute [of b a s] by simp
qed simp

text \<open>Dropping the references of the targets leaves the paths as they were.\<close>

lemma release_targets_undo:
  assumes "scheduler_setting y env" "nr_paths y = fold add_ref (map target_path ts) s"
    and "mset (map target_path ts) \<subseteq># nr_held y"
    and "\<forall>t\<in>set ts. tt_path t \<noteq> None \<and> target_path t < 32 \<and> path_st s (target_path t) = LINKG_PATH_STATE_ACTIVE"
  shows "linkg_scheduler_release_targets ts (nr_paths y) = s"
  using assms
proof (induction ts arbitrary: y)
  case (Cons t ts)
  let ?a = "target_path t" and ?s' = "fold add_ref (map target_path ts) s"
  have a: "?a < 32" "?a \<in># nr_held y" "path_st s ?a = LINKG_PATH_STATE_ACTIVE" using Cons.prems(3,4) by (auto dest: mset_subset_eqD)
  have ys: "nr_paths y = add_ref ?a ?s'" using Cons.prems(2) by (simp add: fold_add_ref)
  note inv = settingD(2) [OF Cons.prems(1)]
  have init: "pt_initialized (path_at (nr_paths y) ?a)" using node_invD(6) [OF inv] a(1) by blast
  have "path_refs (nr_paths y) ?a \<noteq> 0" using setting_refs [OF Cons.prems(1) a(1)] a(2) by (simp add: Multiset.count_eq_zero_iff)
  then have ref: "pt_reference_count (path_at (nr_paths y) ?a) \<noteq> 0"
    by (auto simp: path_refs_def linkg_path_get_reference_count_def path_ready_def split: if_splits)
  have st: "path_st ?s' b = path_st s b" for b by (induction ts arbitrary: s) auto
  have rel: "linkg_path_release (Some ?a) (nr_paths y) = ?s'"
    using release_effect [OF init] ref a(3) st unfolding ys by (simp add: Let_def upd_path_def)
  let ?y = "y\<lparr>nr_paths := linkg_path_release (Some ?a) (nr_paths y), nr_held := nr_held y - {#?a#}\<rparr>"
  have y: "scheduler_setting ?y env" using Cons.prems(1) node_more [OF _ node_release [OF a(2)]] by (simp add: scheduler_setting_def)
  have "mset (map target_path ts) \<subseteq># nr_held ?y"
    using Cons.prems(3) by (simp add: insert_subset_eq_iff)
  from Cons.IH [OF y _ this] have "linkg_scheduler_release_targets ts ?s' = s" using Cons.prems(4) rel by simp
  moreover have "(case tt_path t of None \<Rightarrow> nr_paths y | Some (a, _) \<Rightarrow> linkg_path_release (Some a) (nr_paths y)) = ?s'"
    using Cons.prems(4) rel by (auto split: option.splits)
  ultimately show ?case by simp
qed simp

text \<open>The links that the policy or the plan names, in order.\<close>

definition link_candidates :: "'d scheduler_env \<Rightarrow> u8 \<Rightarrow> u32 \<Rightarrow> u32 \<Rightarrow> u32 \<Rightarrow> u32 list" where
  "link_candidates env peer traffic_class policy specified_link_id = filter (\<lambda>l. l \<noteq> LINKG_LINK_ID_INVALID)
     (if policy = LINKG_SCHEDULER_POLICY_SPECIFIED then [specified_link_id]
      else if policy = LINKG_SCHEDULER_POLICY_REDUNDANT
      then remdups [linkg_link_manager_get_id LINKG_LINK_ACCESS_WIFI (se_manager env) (se_links env),
                    linkg_link_manager_get_id LINKG_LINK_ACCESS_CELLULAR (se_manager env) (se_links env)]
      else case se_plan env peer traffic_class of
        Inl e \<Rightarrow> []
      | Inr plan \<Rightarrow>
         (if cp_mode plan = LINKG_SEND_MODE_SINGLE then [cp_primary_link_id plan]
          else if cp_mode plan = LINKG_SEND_MODE_REDUNDANT \<and> cp_primary_link_id plan \<noteq> LINKG_LINK_ID_INVALID
          then remdups [cp_primary_link_id plan, cp_secondary_link_id plan]
          else []))"

lemma candidates_two: "length (link_candidates env peer traffic_class policy specified_link_id) \<le> 2"
  by (simp add: link_candidates_def split: sum.split)

lemma control_candidates:
  "linkg_scheduler_build_control_targets env peer s =
    (let (targets, s1) = control_targets_loop env peer (link_candidates env peer traffic_class LINKG_SCHEDULER_POLICY_REDUNDANT specified_link_id) s
     in (if targets = [] then - ENETDOWN else 0, targets, s1))"
proof -
  have eq: "filter (\<lambda>l. l \<noteq> 0) (remdups [w, c]) = (if w = 0 then [] else [w]) @ (if c = 0 \<or> c = w then [] else [c])" for w c :: u32
    by simp
  have "link_candidates env peer traffic_class LINKG_SCHEDULER_POLICY_REDUNDANT specified_link_id = filter (\<lambda>l. l \<noteq> 0)
      (remdups [linkg_link_manager_get_id LINKG_LINK_ACCESS_WIFI (se_manager env) (se_links env),
                linkg_link_manager_get_id LINKG_LINK_ACCESS_CELLULAR (se_manager env) (se_links env)])"
    by (simp add: link_candidates_def del: filter.simps remdups.simps)
  then show ?thesis unfolding linkg_scheduler_build_control_targets_def Let_def eq by (rule ssubst) (rule refl)
qed

lemma loop_code:
  "(let (targets, s1) = l in (if targets = [] then e else 0, targets, s1)) = (ret, ts, s') \<Longrightarrow>
    l = (ts, s') \<and> (ts \<noteq> [] \<longrightarrow> ret = 0) \<and> (ts = [] \<longrightarrow> ret = e)"
  by (cases l) (auto split: if_splits)

lemma acquire_refused:
  assumes "\<not> linkg_scheduler_node_id_valid peer"
  shows "control_targets_loop env peer link_ids s = ([], s)"
  by (induction link_ids) (simp_all add: linkg_scheduler_acquire_target_def assms)

lemma acquire_target_error: "linkg_scheduler_acquire_target env peer link_id s = (Inl e, s') \<Longrightarrow> e \<noteq> 0"
  by (auto simp: linkg_scheduler_acquire_target_def Let_def split: if_splits option.splits prod.splits)

text \<open>The choice is the acquisition of the candidates in order; the code tells whether one could be had.\<close>

lemma build_targets_loop:
  assumes "linkg_scheduler_class_valid traffic_class" "linkg_scheduler_policy_valid policy" "\<forall>e. se_plan env peer traffic_class = Inl e \<longrightarrow> e < 0"
    and b: "linkg_scheduler_build_targets env peer traffic_class policy specified_link_id s = (ret, ts, s')"
  shows "control_targets_loop env peer (link_candidates env peer traffic_class policy specified_link_id) s = (ts, s') \<and>
    (ts \<noteq> [] \<longrightarrow> ret = 0) \<and>
    (ts = [] \<longrightarrow> ret < 0 \<or> (\<exists>link_id s1. linkg_scheduler_acquire_target env peer link_id s = (Inl ret, s1)))"
proof (cases "linkg_scheduler_node_id_valid peer")
  case False
  then show ?thesis using b by (simp add: linkg_scheduler_build_targets_def acquire_refused)
next
  case valid: True
  note True = valid
  consider (spec) "policy = LINKG_SCHEDULER_POLICY_SPECIFIED" | (red) "policy = LINKG_SCHEDULER_POLICY_REDUNDANT"
    | (err) e where "policy = LINKG_SCHEDULER_POLICY_DEFAULT" "se_plan env peer traffic_class = Inl e"
    | (plan) plan where "policy = LINKG_SCHEDULER_POLICY_DEFAULT" "se_plan env peer traffic_class = Inr plan"
    using assms(2) by (cases "se_plan env peer traffic_class") (auto simp: linkg_scheduler_policy_valid_def)
  then show ?thesis
  proof cases
    case spec
    obtain r s1 where "linkg_scheduler_acquire_target env peer specified_link_id s = (r, s1)" by force
    then show ?thesis using assms(1,2) b spec True
      by (cases r) (auto simp: linkg_scheduler_build_targets_def link_candidates_def linkg_scheduler_link_id_valid_def split: if_splits)
  next
    case red
    have "linkg_scheduler_build_control_targets env peer s = (ret, ts, s')"
      using b assms(1,2) True red by (simp add: linkg_scheduler_build_targets_def)
    note c = loop_code [OF this [unfolded control_candidates [of env peer s traffic_class specified_link_id]]]
    then show ?thesis unfolding red by (intro conjI impI disjI1) (blast, blast, simp)
  next
    case err
    then show ?thesis using b assms(1-3) True by (simp add: linkg_scheduler_build_targets_def link_candidates_def)
  next
    case (plan plan)
    let ?p = "cp_primary_link_id plan" and ?q = "cp_secondary_link_id plan"
    obtain r s1 where p: "linkg_scheduler_acquire_target env peer ?p s = (r, s1)" by force
    obtain r2 s2 where q: "linkg_scheduler_acquire_target env peer ?q s1 = (r2, s2)" by force
    note e = acquire_target_error [of env peer ?p s] acquire_target_error [of env peer ?q s1]
    note d = linkg_scheduler_build_targets_def link_candidates_def linkg_scheduler_link_id_valid_def
    consider (none) "cp_mode plan \<noteq> LINKG_SEND_MODE_SINGLE \<and> cp_mode plan \<noteq> LINKG_SEND_MODE_REDUNDANT \<or> ?p = LINKG_LINK_ID_INVALID"
      | (single) "cp_mode plan = LINKG_SEND_MODE_SINGLE" "?p \<noteq> LINKG_LINK_ID_INVALID"
      | (both) "cp_mode plan = LINKG_SEND_MODE_REDUNDANT" "?p \<noteq> LINKG_LINK_ID_INVALID" by blast
    then show ?thesis
    proof cases
      case none
      then show ?thesis using b assms(1,2) True plan by (auto simp: d split: if_splits)
    next
      case single
      then show ?thesis using b assms(1,2) True plan p by (cases r) (auto simp: d)
    next
      case both
      show ?thesis
      proof (cases "?q = LINKG_LINK_ID_INVALID \<or> ?q = ?p")
        case True
        then have c: "link_candidates env peer traffic_class policy specified_link_id = [?p]"
          using both plan by (auto simp: link_candidates_def)
        have "linkg_scheduler_build_targets env peer traffic_class policy specified_link_id s =
            (case r of Inl e \<Rightarrow> (e, [], s1) | Inr t \<Rightarrow> (0, [t], s1))"
          using True assms(1,2) valid plan p both e(1) by (elim disjE; cases r) (simp_all add: d(1,3))
        then show ?thesis unfolding c using b p e(1) by (cases r) auto
      next
        case False
        then show ?thesis using b assms(1,2) True plan p q both e by (cases r; cases r2) (auto simp: d)
      qed
    qed
  qed
qed

lemma build_targets_exact:
  assumes "scheduler_setting x env" "node_refs_room 2 (nr_paths x)"
    and "linkg_scheduler_class_valid traffic_class" "linkg_scheduler_policy_valid policy" "\<forall>e. se_plan env peer traffic_class = Inl e \<longrightarrow> e < 0"
    and "linkg_scheduler_build_targets env peer traffic_class policy specified_link_id (nr_paths x) = (ret, ts, s)"
  shows "list_all2 (target_for env peer (nr_paths x))
      (filter (link_usable env peer (nr_paths x)) (link_candidates env peer traffic_class policy specified_link_id)) ts \<and>
    ((ret = 0 \<and> ts \<noteq> []) \<or> (ret < 0 \<and> ts = [])) \<and>
    s = fold add_ref (map target_path ts) (nr_paths x) \<and> linkg_scheduler_release_targets ts s = nr_paths x"
proof -
  let ?ids = "link_candidates env peer traffic_class policy specified_link_id"
  note l = build_targets_loop [OF assms(3-6)]
  have "node_refs_room (length ?ids) (nr_paths x)"
    using assms(2) candidates_two [of env peer traffic_class policy specified_link_id] by (force simp: node_refs_room_def)
  note t = targets_loop_exact [OF assms(1) this conjunct1 [OF l]]
  then obtain y where y: "scheduler_setting y env" "nr_paths y = s" "nr_held y = mset (map target_path ts) + nr_held x" by blast
  have "\<exists>l. target_for env peer (nr_paths x) l t" if "t \<in> set ts" for t
    using t that by (auto simp: list_all2_conv_all_nth in_set_conv_nth)
  then have "linkg_scheduler_release_targets ts (nr_paths y) = nr_paths x"
    using t y(2,3) target_forD(1,3,4) by (intro release_targets_undo [OF y(1)]) (simp, simp, blast)
  moreover have "ts = [] \<Longrightarrow> ret < 0"
    using l acquire_target_cases [OF assms(1)] assms(2) by (fastforce simp: node_refs_room_def)
  ultimately show ?thesis using t l y(2) by auto
qed

lemma candidates_distinct: "distinct (link_candidates env peer traffic_class policy specified_link_id)"
  by (auto simp: link_candidates_def split: sum.split)

lemma targets_distinct:
  assumes "list_all2 (target_for env peer s) ids ts" "distinct ids"
  shows "distinct (map target_path ts)"
  using assms
proof (induction rule: list_all2_induct)
  case (Cons l ids t ts)
  have neq: "target_path u \<noteq> target_path t" if "u \<in> set ts" for u
  proof -
    obtain i where i: "i < length ts" "u = ts ! i" using \<open>u \<in> set ts\<close> by (auto simp: in_set_conv_nth)
    then have "pt_link_id (path_at s (target_path u)) = ids ! i" using target_forD(5) [OF list_all2_nthD2 [OF Cons.hyps(2) i(1)]] by simp
    moreover have "pt_link_id (path_at s (target_path t)) = l" by (rule target_forD(5) [OF Cons.hyps(1)])
    moreover have "ids ! i \<noteq> l" using Cons.prems i(1) list_all2_lengthD [OF Cons.hyps(2)] by (metis distinct.simps(2) nth_mem)
    ultimately show ?thesis by metis
  qed
  have "target_path t \<notin> target_path ` set ts"
  proof
    assume "target_path t \<in> target_path ` set ts"
    then obtain u where u: "target_path t = target_path u" "u \<in> set ts" by (rule imageE)
    then show False using neq [OF u(2)] by simp
  qed
  then show ?case using Cons by simp
qed simp

text \<open>
  C22. The links chosen for a peer are, in order, those that the policy or the class plan names and that are registered,
  running, not in maintenance and lead to the peer over an active path. The code is 0 if there is one, negative otherwise.
  Every target has its own path and one reference to it, no other count changes, and releasing the targets restores all.
\<close>

theorem scheduler_targets_exact:
  assumes "scheduler_setting x env" "node_refs_room 2 (nr_paths x)"
    and "linkg_scheduler_class_valid traffic_class" "linkg_scheduler_policy_valid policy" "\<forall>e. se_plan env peer traffic_class = Inl e \<longrightarrow> e < 0"
    and "linkg_scheduler_build_targets env peer traffic_class policy specified_link_id (nr_paths x) = (ret, ts, s)"
  shows "list_all2 (target_for env peer (nr_paths x))
      (filter (link_usable env peer (nr_paths x)) (link_candidates env peer traffic_class policy specified_link_id)) ts \<and>
    (if ts = [] then ret < 0 else ret = 0) \<and> length ts \<le> 2 \<and> distinct (map target_path ts) \<and>
    s = fold add_ref (map target_path ts) (nr_paths x) \<and> linkg_scheduler_release_targets ts s = nr_paths x"
proof -
  let ?ids = "link_candidates env peer traffic_class policy specified_link_id"
  note b = build_targets_exact [OF assms]
  have "length ts \<le> 2" using b candidates_two [of env peer traffic_class policy specified_link_id]
      length_filter_le [of "link_usable env peer (nr_paths x)" ?ids] by (metis list_all2_lengthD order_trans)
  moreover have "distinct (map target_path ts)"
    by (rule targets_distinct [OF conjunct1 [OF b] distinct_filter]) (rule candidates_distinct)
  ultimately show ?thesis using b by auto
qed

section \<open>The peer of a station\<close>

lemma snapshot_exact:
  assumes "node_inv x"
  shows "linkg_node_get_peer_snapshot n (nr_node x) = Inr snapshot \<longleftrightarrow>
      (\<exists>i<16. ns_valid (nd_peers (nr_node x) ! i) \<and> ni_node_id (ns_info (nd_peers (nr_node x) ! i)) = n \<and>
        snapshot = \<lparr>np_info = ns_info (nd_peers (nr_node x) ! i), np_path_count = ns_path_count (nd_peers (nr_node x) ! i)\<rparr>)"
    and "linkg_node_id_valid n \<Longrightarrow> linkg_node_get_peer_snapshot n (nr_node x) = Inl e \<Longrightarrow> e = - ENOENT"
proof -
  note t = node_invD(1,2) [OF assms]
  have nr: "\<not> ns_retiring (nd_peers (nr_node x) ! i)" if "i < 16" "ns_valid (nd_peers (nr_node x) ! i)" for i
    using node_invD(7) [OF assms that(1)] that(2) by (simp add: node_slot_inv_def Let_def)
  have idv: "linkg_node_id_valid n" if "i < 16" "ns_valid (nd_peers (nr_node x) ! i)" "ni_node_id (ns_info (nd_peers (nr_node x) ! i)) = n" for i
    using node_invD(8) [OF assms] that by (auto simp: node_table_inv_def occupied_def linkg_node_info_valid_def Let_def split: if_splits)
  have find: "linkg_node_find_peer_locked n (nr_node x) = Some i \<longleftrightarrow>
      i < 16 \<and> occupied (nd_peers (nr_node x) ! i) \<and> ni_node_id (ns_info (nd_peers (nr_node x) ! i)) = n" for i
    by (rule find_peer_exact [OF assms])
  have get: "linkg_node_get_peer_snapshot n (nr_node x) =
      (if \<not> linkg_node_id_valid n then Inl (- EINVAL)
       else case linkg_node_find_peer_locked n (nr_node x) of
         None \<Rightarrow> Inl (- ENOENT)
       | Some i \<Rightarrow> if \<not> ns_valid (nd_peers (nr_node x) ! i) \<or> ns_retiring (nd_peers (nr_node x) ! i) then Inl (- ENOENT)
           else Inr \<lparr>np_info = ns_info (nd_peers (nr_node x) ! i), np_path_count = ns_path_count (nd_peers (nr_node x) ! i)\<rparr>)"
    using t by (simp add: linkg_node_get_peer_snapshot_def node_answer_def Let_def split: option.split)
  show "linkg_node_id_valid n \<Longrightarrow> linkg_node_get_peer_snapshot n (nr_node x) = Inl e \<Longrightarrow> e = - ENOENT"
    by (auto simp: get split: option.splits if_splits)
  show "linkg_node_get_peer_snapshot n (nr_node x) = Inr snapshot \<longleftrightarrow>
      (\<exists>i<16. ns_valid (nd_peers (nr_node x) ! i) \<and> ni_node_id (ns_info (nd_peers (nr_node x) ! i)) = n \<and>
        snapshot = \<lparr>np_info = ns_info (nd_peers (nr_node x) ! i), np_path_count = ns_path_count (nd_peers (nr_node x) ! i)\<rparr>)"
  proof
    assume "linkg_node_get_peer_snapshot n (nr_node x) = Inr snapshot"
    then show "\<exists>i<16. ns_valid (nd_peers (nr_node x) ! i) \<and> ni_node_id (ns_info (nd_peers (nr_node x) ! i)) = n \<and>
        snapshot = \<lparr>np_info = ns_info (nd_peers (nr_node x) ! i), np_path_count = ns_path_count (nd_peers (nr_node x) ! i)\<rparr>"
      by (auto simp: get find split: option.splits if_splits)
  next
    assume "\<exists>i<16. ns_valid (nd_peers (nr_node x) ! i) \<and> ni_node_id (ns_info (nd_peers (nr_node x) ! i)) = n \<and>
        snapshot = \<lparr>np_info = ns_info (nd_peers (nr_node x) ! i), np_path_count = ns_path_count (nd_peers (nr_node x) ! i)\<rparr>"
    then obtain i where i: "i < 16" "ns_valid (nd_peers (nr_node x) ! i)" "ni_node_id (ns_info (nd_peers (nr_node x) ! i)) = n"
        "snapshot = \<lparr>np_info = ns_info (nd_peers (nr_node x) ! i), np_path_count = ns_path_count (nd_peers (nr_node x) ! i)\<rparr>" by blast
    then have "linkg_node_find_peer_locked n (nr_node x) = Some i" by (simp add: find occupied_def)
    then show "linkg_node_get_peer_snapshot n (nr_node x) = Inr snapshot" using i nr [OF i(1,2)] idv [OF i(1-3)] by (simp add: get)
  qed
qed

text \<open>The nodes of the registered peers. A station has at most one, an access point.\<close>

definition peer_ids :: "linkg_node_context \<Rightarrow> u8 set" where
  "peer_ids c = {p. \<exists>i<16. ns_valid (nd_peers c ! i) \<and> ni_node_id (ns_info (nd_peers c ! i)) = p}"

lemma station_one_peer:
  assumes "node_inv x" "ni_role (nd_local (nr_node x)) = LINKG_DEVICE_ROLE_STA"
    and "i < 16" "ns_valid (nd_peers (nr_node x) ! i)" "j < 16" "ns_valid (nd_peers (nr_node x) ! j)"
  shows "i = j"
proof -
  let ?ps = "nd_peers (nr_node x)"
  have "unat (nd_peer_count (nr_node x)) \<le> 1" using node_invD(8) [OF assms(1)] assms(2)
    by (auto simp: node_table_inv_def word_le_nat_alt)
  then have "card {i. i < 16 \<and> ns_valid (?ps ! i)} \<le> Suc 0"
    using node_invD(3,8) [OF assms(1)] by (simp add: node_table_inv_def length_filter_conv_card)
  then show ?thesis using assms(3-6) by (auto simp: card_le_Suc0_iff_eq)
qed

lemma station_peer_role:
  assumes "node_inv x" "ni_role (nd_local (nr_node x)) = LINKG_DEVICE_ROLE_STA" "i < 16" "ns_valid (nd_peers (nr_node x) ! i)"
  shows "ni_role (ns_info (nd_peers (nr_node x) ! i)) = LINKG_DEVICE_ROLE_AP"
  using node_invD(8) [OF assms(1)] assms(2-4)
  by (auto simp: node_table_inv_def occupied_def linkg_node_peer_role_valid_def Let_def split: if_splits)

lemma sta_loop_exact:
  assumes inv: "node_inv x" and sta: "ni_role (nd_local (nr_node x)) = LINKG_DEVICE_ROLE_STA"
    and ids: "\<forall>n\<in>set ids. linkg_node_id_valid (of_nat n)"
    and run: "sta_peer_loop ids (nr_node x) st = (r, st')"
  shows "(case r of Inl e \<Rightarrow> e = - ENOENT \<and> st' = st \<and> (\<forall>n\<in>set ids. of_nat n \<notin> peer_ids (nr_node x))
    | Inr p \<Rightarrow> p \<in> peer_ids (nr_node x) \<and> p \<in> of_nat ` set ids \<and> ss_sta_peer_node_id st' = p)"
  using ids run
proof (induction ids)
  case (Cons n ids)
  show ?case
  proof (cases "linkg_node_get_peer_snapshot (of_nat n) (nr_node x)")
    case (Inl e)
    have "e = - ENOENT" using snapshot_exact(2) [OF inv _ Inl] Cons.prems(1) by simp
    moreover have "of_nat n \<notin> peer_ids (nr_node x)"
    proof
      assume "of_nat n \<in> peer_ids (nr_node x)"
      then obtain i where "i < 16" "ns_valid (nd_peers (nr_node x) ! i)" "ni_node_id (ns_info (nd_peers (nr_node x) ! i)) = of_nat n"
        by (auto simp: peer_ids_def)
      then show False using snapshot_exact(1) [OF inv, of "of_nat n"] Inl by auto
    qed
    ultimately show ?thesis using Cons Inl by (auto split: sum.splits)
  next
    case (Inr s)
    then obtain i where i: "i < 16" "ns_valid (nd_peers (nr_node x) ! i)" "ni_node_id (ns_info (nd_peers (nr_node x) ! i)) = of_nat n"
        "np_info s = ns_info (nd_peers (nr_node x) ! i)" using snapshot_exact(1) [OF inv] by auto
    have "of_nat n \<in> peer_ids (nr_node x)" using i by (auto simp: peer_ids_def)
    then show ?thesis using Cons.prems(2) Inr i station_peer_role [OF inv sta i(1,2)] by auto
  qed
qed auto

lemma sta_search_exact:
  assumes "node_inv x" "ni_role (nd_local (nr_node x)) = LINKG_DEVICE_ROLE_STA" "sta_peer_search (nr_node x) st = (r, st')"
  shows "(case r of Inl e \<Rightarrow> e = - ENOENT \<and> st' = st \<and> peer_ids (nr_node x) = {}
    | Inr p \<Rightarrow> peer_ids (nr_node x) = {p} \<and> ss_sta_peer_node_id st' = p)"
proof -
  let ?ids = "[unat LINKG_RESOURCE_NODE_ID_MIN..<Suc (unat LINKG_RESOURCE_NODE_ID_MAX)]"
  have v: "linkg_node_id_valid (of_nat n)" if "n \<in> set ?ids" for n
    using that by (simp add: linkg_node_id_valid_def word_le_nat_alt unat_of_nat)
  have all: "p \<in> of_nat ` set ?ids" if "p \<in> peer_ids (nr_node x)" for p
  proof -
    have "linkg_node_id_valid p" using that node_invD(8) [OF assms(1)]
      by (auto simp: peer_ids_def node_table_inv_def occupied_def linkg_node_info_valid_def Let_def split: if_splits)
    then have "unat p \<in> set ?ids" by (auto simp: linkg_node_id_valid_def word_le_nat_alt)
    then show ?thesis by (intro image_eqI [of _ _ "unat p"]) simp_all
  qed
  have one: "p = q" if "p \<in> peer_ids (nr_node x)" "q \<in> peer_ids (nr_node x)" for p q
    using that station_one_peer [OF assms(1,2)] by (auto simp: peer_ids_def)
  have "sta_peer_loop ?ids (nr_node x) st = (r, st')" using assms(3) by (simp add: sta_peer_search_def)
  from sta_loop_exact [OF assms(1,2) _ this] v show ?thesis using all one by (cases r) (auto simp del: set_upt, blast+)
qed

lemma find_sta_peer_exact:
  assumes "node_inv x" "ni_role (nd_local (nr_node x)) = LINKG_DEVICE_ROLE_STA"
    and "ss_sta_peer_cached st \<longrightarrow> linkg_node_id_valid (ss_sta_peer_node_id st)"
    and "linkg_scheduler_find_sta_peer (nr_node x) st = (r, st')"
  shows "case r of Inl e \<Rightarrow> e = - ENOENT \<and> peer_ids (nr_node x) = {} | Inr p \<Rightarrow> peer_ids (nr_node x) = {p}"
proof (cases "ss_sta_peer_cached st")
  case False
  then have "sta_peer_search (nr_node x) st = (r, st')" using assms(4) by (simp add: linkg_scheduler_find_sta_peer_def)
  from sta_search_exact [OF assms(1,2) this] show ?thesis by (cases r) auto
next
  case True
  show ?thesis
  proof (cases "linkg_node_get_peer_snapshot (ss_sta_peer_node_id st) (nr_node x)")
    case (Inl e)
    then have "e = - ENOENT" using snapshot_exact(2) [OF assms(1)] assms(3) True by blast
    then have "sta_peer_search (nr_node x) (st\<lparr>ss_sta_peer_cached := False\<rparr>) = (r, st')"
      using assms(4) True Inl by (simp add: linkg_scheduler_find_sta_peer_def)
    from sta_search_exact [OF assms(1,2) this] show ?thesis by (cases r) auto
  next
    case (Inr s)
    then obtain i where i: "i < 16" "ns_valid (nd_peers (nr_node x) ! i)" "np_info s = ns_info (nd_peers (nr_node x) ! i)"
      using snapshot_exact(1) [OF assms(1)] by auto
    have "linkg_scheduler_find_sta_peer (nr_node x) st =
        (if ni_role (np_info s) \<noteq> LINKG_DEVICE_ROLE_AP then (Inl (- EINVAL), st) else (Inr (ni_node_id (np_info s)), st))"
      unfolding linkg_scheduler_find_sta_peer_def using True Inr by simp
    then have "r = Inr (ni_node_id (ns_info (nd_peers (nr_node x) ! i)))"
      using assms(4) i(3) station_peer_role [OF assms(1,2) i(1,2)] by simp
    moreover have "j = i" if "j < 16" "ns_valid (nd_peers (nr_node x) ! j)" for j
      using station_one_peer [OF assms(1,2) that i(1,2)] .
    then have "peer_ids (nr_node x) = {ni_node_id (ns_info (nd_peers (nr_node x) ! i))}"
      using i(1,2) unfolding peer_ids_def by blast
    ultimately show ?thesis by simp
  qed
qed

text \<open>
  C23. A station sends everything to its one peer: in every history of the node table the search gives the registered access
  point if there is one and \<open>-ENOENT\<close> otherwise, whatever node the cache names.
\<close>

theorem scheduler_sta_peer_exact:
  assumes "node_reach x" "ni_role (nd_local (nr_node x)) = LINKG_DEVICE_ROLE_STA"
    and "ss_sta_peer_cached st \<longrightarrow> linkg_node_id_valid (ss_sta_peer_node_id st)"
    and "linkg_scheduler_find_sta_peer (nr_node x) st = (r, st')"
  shows "case r of Inl e \<Rightarrow> e = - ENOENT \<and> peer_ids (nr_node x) = {} | Inr p \<Rightarrow> peer_ids (nr_node x) = {p}"
  by (rule find_sta_peer_exact [OF node_reach_inv [OF assms(1)] assms(2-4)])

section \<open>A concrete setting\<close>

text \<open>The access point 1 with the station 2, reached over the link 1, which runs.\<close>

definition sched_run :: node_run where
  "sched_run = (let (ret, c, s) = linkg_node_register_path 2 1 (Some node_sample_endpoint) (nr_node node_sample_registered) node_sample_store
     in \<lparr>nr_node = c, nr_paths = s, nr_held = {#}\<rparr>)"

definition sched_registered :: "int \<times> linkg_link_manager_context \<times> unit link_store" where
  "sched_registered = linkg_link_manager_register (Some 0) sample_manager sample_links"

definition sched_env :: "unit scheduler_env" where
  "sched_env = \<lparr>se_node = nr_node sched_run, se_manager = fst (snd sched_registered),
     se_links = (snd (snd sched_registered))(0 := (snd (snd sched_registered) 0)\<lparr>lk_state := LINKG_LINK_STATE_RUNNING\<rparr>),
     se_blocked = \<lambda>_ _. False, se_plan = \<lambda>_ _. Inr \<lparr>cp_mode = LINKG_SEND_MODE_SINGLE, cp_primary_link_id = 1, cp_secondary_link_id = 0\<rparr>,
     se_gate = \<lambda>_ _. \<lparr>lg_running_before = True, lg_running = True, lg_opened = True, lg_path_active = True\<rparr>, se_now_ms = 5\<rparr>"

lemma node_registered_start: "node_reach node_sample_registered" "nr_paths node_sample_registered = node_sample_store"
  using node_sample_reach(1) by (simp_all add: node_sample_registered_def)

lemma sched_setting: "scheduler_setting sched_run sched_env" "node_refs_room 2 (nr_paths sched_run)" "nr_held sched_run = {#}"
proof -
  obtain ret c s where r: "linkg_node_register_path 2 1 (Some node_sample_endpoint) (nr_node node_sample_registered) node_sample_store = (ret, c, s)"
    by (rule prod_cases3)
  have run: "sched_run = node_sample_registered\<lparr>nr_node := c, nr_paths := s\<rparr>"
    by (intro node_run.equality) (simp_all add: sched_run_def r, simp add: node_sample_registered_def)
  have reach: "node_reach sched_run" unfolding run
    using node_more [OF node_registered_start(1) node_register_path] r node_registered_start(2) by simp
  obtain ret m L where g: "sched_registered = (ret, m, L)" by (rule prod_cases3)
  have "link_manager_reach m L"
    using lm_register [OF sample_manager_reach g [unfolded sched_registered_def]] .
  then have "link_manager_reach (se_manager sched_env) (se_links sched_env)"
    using lm_state [of m L 0 LINKG_LINK_STATE_RUNNING] by (simp add: sched_env_def g)
  then show s: "scheduler_setting sched_run sched_env" using reach by (simp add: scheduler_setting_def sched_env_def)
  show h: "nr_held sched_run = {#}" by (simp add: sched_run_def r)
  show "node_refs_room 2 (nr_paths sched_run)" using setting_refs [OF s] h by (simp add: node_refs_room_def)
qed

lemma sched_facts:
  "registered_links (se_manager sched_env) = [0]" "lk_id (se_links sched_env 0) = 1"
  "lk_state (se_links sched_env 0) = LINKG_LINK_STATE_RUNNING" "ns_valid (nd_peers (se_node sched_env) ! 0)"
  "ni_node_id (ns_info (nd_peers (se_node sched_env) ! 0)) = 2" "path_st (nr_paths sched_run) 0 = LINKG_PATH_STATE_ACTIVE"
  "pt_link_id (path_at (nr_paths sched_run) 0) = 1" "\<not> se_blocked sched_env 2 access"
  by code_simp+

lemma sched_usable: "link_usable sched_env 2 (nr_paths sched_run) 1"
proof -
  have "target_for sched_env 2 (nr_paths sched_run) 1 \<lparr>tt_link = Some (linkg_link.truncate (se_links sched_env 0)), tt_path = Some (0, path_zero),
      tt_destination = pt_next_hop (path_at (nr_paths sched_run) 0), tt_gate = g\<rparr>" for g
    unfolding target_for_def using sched_facts by (intro exI [of _ 0] conjI) simp_all
  then show ?thesis unfolding link_usable_def by blast
qed

theorem scheduler_targets_exact_witness:
  "\<exists>ts s. linkg_scheduler_build_targets sched_env 2 0 LINKG_SCHEDULER_POLICY_DEFAULT 0 (nr_paths sched_run) = (0, ts, s) \<and> length ts = 1 \<and>
     linkg_scheduler_release_targets ts s = nr_paths sched_run"
proof -
  obtain ret ts s where b: "linkg_scheduler_build_targets sched_env 2 0 LINKG_SCHEDULER_POLICY_DEFAULT 0 (nr_paths sched_run) = (ret, ts, s)"
    by (rule prod_cases3)
  have v: "linkg_scheduler_class_valid 0" "linkg_scheduler_policy_valid LINKG_SCHEDULER_POLICY_DEFAULT"
    "\<forall>e. se_plan sched_env 2 0 = Inl e \<longrightarrow> e < 0"
    by (simp_all add: linkg_scheduler_class_valid_def linkg_scheduler_policy_valid_def sched_env_def)
  have "link_candidates sched_env 2 0 LINKG_SCHEDULER_POLICY_DEFAULT 0 = [1]" by (simp add: link_candidates_def sched_env_def)
  then show ?thesis using scheduler_targets_exact [OF sched_setting(1,2) v b] sched_usable b by (auto simp: list_all2_Cons1)
qed

text \<open>The station 2 with its access point 1.\<close>

definition sched_station :: node_run where
  "sched_station = \<lparr>nr_node = snd (linkg_node_register_peer (Some \<lparr>ni_node_id = 1, ni_role = LINKG_DEVICE_ROLE_AP\<rparr>)
     (node_sample_node\<lparr>nd_local := node_sample_peer\<rparr>)), nr_paths = node_sample_store, nr_held = {#}\<rparr>"

lemma sched_station_reach: "node_reach sched_station"
proof -
  have "linkg_node_info_valid (Some node_sample_peer)" by code_simp
  note i = node_sample_init [OF this]
  have "node_reach \<lparr>nr_node = node_sample_node\<lparr>nd_local := node_sample_peer\<rparr>, nr_paths = node_sample_store, nr_held = {#}\<rparr>"
    by (rule node_start [OF i]) (simp_all add: node_blank_store_def)
  from node_more [OF this node_register_peer] show ?thesis by (simp add: sched_station_def)
qed

theorem scheduler_sta_peer_exact_witness:
  "\<exists>st. linkg_scheduler_find_sta_peer (nr_node sched_station) \<lparr>ss_initialized = True, ss_sta_peer_cached = True, ss_sta_peer_node_id = 9\<rparr> =
     (Inr 1, st) \<and> peer_ids (nr_node sched_station) = {1}"
proof -
  let ?st = "\<lparr>ss_initialized = True, ss_sta_peer_cached = True, ss_sta_peer_node_id = 9\<rparr>"
  obtain r st where f: "linkg_scheduler_find_sta_peer (nr_node sched_station) ?st = (r, st)" by force
  have "ni_role (nd_local (nr_node sched_station)) = LINKG_DEVICE_ROLE_STA" by code_simp
  moreover have "linkg_node_id_valid (9 :: u8)" by code_simp
  moreover have "fst (linkg_scheduler_find_sta_peer (nr_node sched_station) ?st) = Inr 1" by code_simp
  ultimately show ?thesis using scheduler_sta_peer_exact [OF sched_station_reach _ _ f] f by auto
qed

end
