(* ===== verification/Scheduler_Submit.thy ===== *)
theory Scheduler_Submit
  imports Scheduler_Targets
begin

text \<open>
  What a submission to the scheduler does. A chunk is sorted into groups by next hop; the reference definition of the
  groups is by filtering. A group changes the results of its own items only, its code counts those taken over, and the
  references to the paths are home again after it. From these, the contracts of a submission and of a relayed batch.
\<close>

section \<open>Groups\<close>

text \<open>The reference: next hops in the order of their first packets, the packets of each in their order.\<close>

definition good_hops :: "(int + u8) list \<Rightarrow> u8 list" where
  "good_hops hops = map projr (filter (\<lambda>h. \<not> isl h) hops)"

definition first_hops :: "(int + u8) list \<Rightarrow> u8 list" where
  "first_hops hops = rev (remdups (rev (good_hops hops)))"

definition group_of :: "(int + u8) list \<Rightarrow> u8 \<Rightarrow> linkg_scheduler_peer_group" where
  "group_of hops p = \<lparr>pg_item_indices = filter (\<lambda>i. hops ! i = Inr p) [0..<length hops], pg_peer_node_id = p\<rparr>"

definition hop_groups :: "(int + u8) list \<Rightarrow> linkg_scheduler_peer_group list" where
  "hop_groups hops = map (group_of hops) (take LINKG_SCHEDULER_PEER_GROUP_MAX (first_hops hops))"

definition hop_result :: "u8 list \<Rightarrow> int + u8 \<Rightarrow> int" where
  "hop_result ps h = (case h of Inl e \<Rightarrow> e | Inr p \<Rightarrow> if p \<in> set ps then - EINPROGRESS else - ENOSPC)"

lemma first_hops_snoc:
  "first_hops (hops @ [Inl e]) = first_hops hops"
  "first_hops (hops @ [Inr p]) = (if p \<in> set (first_hops hops) then first_hops hops else first_hops hops @ [p])"
  by (simp_all add: first_hops_def good_hops_def)

lemma distinct_first_hops [simp]: "distinct (first_hops hops)"
  by (simp add: first_hops_def)

lemma set_first_hops: "set (first_hops hops) = {p. Inr p \<in> set hops}"
proof -
  have "p \<in> projr ` {h \<in> set hops. \<not> isl h} \<longleftrightarrow> Inr p \<in> set hops" for p
    by (auto simp: image_iff isl_def)
  then show ?thesis by (auto simp: first_hops_def good_hops_def)
qed

lemma first_hops_prefix: "\<exists>ys. first_hops (hops @ suf) = first_hops hops @ ys"
proof (induction suf rule: rev_induct)
  case (snoc h suf)
  then obtain ys where "first_hops (hops @ suf) = first_hops hops @ ys" by blast
  then show ?case using first_hops_snoc [of "hops @ suf"] by (cases h) (auto split: if_splits)
qed simp

lemma group_of_snoc:
  "group_of (hops @ [h]) p = (if h = Inr p then (group_of hops p)\<lparr>pg_item_indices := pg_item_indices (group_of hops p) @ [length hops]\<rparr>
     else group_of hops p)"
proof -
  have "filter (\<lambda>i. (hops @ [h]) ! i = Inr p) [0..<length hops] = filter (\<lambda>i. hops ! i = Inr p) [0..<length hops]"
    by (rule filter_cong) (auto simp: nth_append)
  then show ?thesis by (simp add: group_of_def)
qed

lemma group_insert_map:
  assumes "distinct ps" "\<And>q. pg_peer_node_id (f q) = q"
  shows "group_insert i p (map f ps) =
    (if p \<in> set ps then map (\<lambda>q. if q = p then (f q)\<lparr>pg_item_indices := pg_item_indices (f q) @ [i]\<rparr> else f q) ps
     else map f ps @ [\<lparr>pg_item_indices = [i], pg_peer_node_id = p\<rparr>])"
  using assms by (induction ps) (auto simp: map_eq_conv)

lemma hop_groups_snoc_Inl: "hop_groups (hops @ [Inl e]) = hop_groups hops"
  by (simp add: hop_groups_def first_hops_snoc group_of_snoc)

lemma group_of_new: "p \<notin> set (first_hops hops) \<Longrightarrow> pg_item_indices (group_of hops p) = []"
  by (auto simp: group_of_def set_first_hops filter_empty_conv) (metis nth_mem)

lemma group_peer [simp]: "pg_peer_node_id (group_of hops p) = p"
  by (simp add: group_of_def)

lemma hop_groups_snoc_Inr:
  fixes p :: u8 and hops :: "(int + u8) list"
  defines "qs \<equiv> take LINKG_SCHEDULER_PEER_GROUP_MAX (first_hops hops)"
  shows "hop_groups (hops @ [Inr p]) =
    (if p \<notin> set qs \<and> length qs \<ge> LINKG_SCHEDULER_PEER_GROUP_MAX then hop_groups hops
     else group_insert (length hops) p (hop_groups hops))"
proof -
  have d: "distinct qs" by (simp add: qs_def)
  note ins = group_insert_map [OF d, of "group_of hops" "length hops" p]
  consider (old) "p \<in> set qs" | (new) "p \<notin> set (first_hops hops)" "length (first_hops hops) < 16"
    | (full) "p \<notin> set qs" "length (first_hops hops) \<ge> 16"
    by (cases "length (first_hops hops) < 16") (auto simp: qs_def)
  then show ?thesis
  proof cases
    case old
    then have "p \<in> set (first_hops hops)" by (auto simp: qs_def dest: in_set_takeD)
    then show ?thesis using old ins by (simp add: hop_groups_def first_hops_snoc group_of_snoc flip: qs_def)
  next
    case new
    then have "qs = first_hops hops" by (simp add: qs_def)
    moreover have "(group_of hops p)\<lparr>pg_item_indices := pg_item_indices (group_of hops p) @ [length hops]\<rparr> =
        \<lparr>pg_item_indices = [length hops], pg_peer_node_id = p\<rparr>"
      using group_of_new [OF new(1)] by simp
    moreover have "map (group_of (hops @ [Inr p])) (first_hops hops) = map (group_of hops) (first_hops hops)"
      using new(1) by (auto simp: group_of_snoc)
    ultimately show ?thesis using new ins by (simp add: hop_groups_def first_hops_snoc group_of_snoc)
  next
    case full
    then have "take 16 (first_hops (hops @ [Inr p])) = qs" by (auto simp: first_hops_snoc qs_def)
    moreover have "map (group_of (hops @ [Inr p])) qs = map (group_of hops) qs" using full(1) by (auto simp: group_of_snoc)
    ultimately show ?thesis using full by (simp add: hop_groups_def qs_def)
  qed
qed

lemma group_loop_hops:
  "group_loop (length pre) suf (hop_groups pre) =
    (map (hop_result (take LINKG_SCHEDULER_PEER_GROUP_MAX (first_hops (pre @ suf)))) suf, hop_groups (pre @ suf))"
proof (induction suf arbitrary: pre)
  case (Cons h suf)
  let ?qs = "take LINKG_SCHEDULER_PEER_GROUP_MAX (first_hops pre)" and ?all = "take LINKG_SCHEDULER_PEER_GROUP_MAX (first_hops (pre @ h # suf))"
  have ih: "group_loop (Suc (length pre)) suf (hop_groups (pre @ [h])) = (map (hop_result ?all) suf, hop_groups (pre @ h # suf))"
    using Cons.IH [of "pre @ [h]"] by simp
  show ?case
  proof (cases h)
    case (Inl e)
    then show ?thesis using ih by (simp add: hop_groups_snoc_Inl hop_result_def)
  next
    case (Inr p)
    obtain ys where ys: "first_hops (pre @ h # suf) = first_hops (pre @ [h]) @ ys" using first_hops_prefix [of "pre @ [h]" suf] by auto
    have la: "list_all (\<lambda>g. pg_peer_node_id g \<noteq> p) (hop_groups pre) \<longleftrightarrow> p \<notin> set ?qs"
      by (auto simp: hop_groups_def list_all_iff)
    have full: "p \<in> set ?all \<longleftrightarrow> p \<in> set ?qs \<or> length ?qs < LINKG_SCHEDULER_PEER_GROUP_MAX"
    proof (cases "p \<in> set (first_hops pre)")
      case True
      then have "first_hops (pre @ h # suf) = first_hops pre @ ys" "p \<notin> set ys"
        using ys distinct_first_hops [of "pre @ h # suf"] by (auto simp: Inr first_hops_snoc)
      then show ?thesis using True by (auto dest: in_set_takeD)
    next
      case False
      then have "first_hops (pre @ h # suf) = first_hops pre @ p # ys" "p \<notin> set ys" "p \<notin> set ?qs"
        using ys distinct_first_hops [of "pre @ h # suf"] by (auto simp: Inr first_hops_snoc dest: in_set_takeD)
      then show ?thesis by (cases "16 - length (first_hops pre)") (auto dest: in_set_takeD)
    qed
    show ?thesis using ih la full hop_groups_snoc_Inr [of pre p]
      by (auto simp: Inr hop_result_def hop_groups_def)
  qed
qed simp

text \<open>Writing results at distinct positions.\<close>

lemma scatter:
  assumes "distinct is" "\<forall>i\<in>set is. i < length xs" "length rs = length is"
  shows "length (fold (\<lambda>(i, r) xs. xs[i := f r (xs ! i)]) (zip is rs) xs) = length xs"
    and "j \<notin> set is \<Longrightarrow> fold (\<lambda>(i, r) xs. xs[i := f r (xs ! i)]) (zip is rs) xs ! j = xs ! j"
    and "map ((!) (fold (\<lambda>(i, r) xs. xs[i := f r (xs ! i)]) (zip is rs) xs)) is = map2 (\<lambda>i r. f r (xs ! i)) is rs"
proof -
  let ?F = "\<lambda>is rs xs. fold (\<lambda>(i, r) xs. xs[i := f r (xs ! i)]) (zip is rs) xs"
  have "length (?F is rs xs) = length xs \<and> (\<forall>j. j \<notin> set is \<longrightarrow> ?F is rs xs ! j = xs ! j) \<and>
      map ((!) (?F is rs xs)) is = map2 (\<lambda>i r. f r (xs ! i)) is rs"
    using assms
  proof (induction "is" arbitrary: rs xs)
    case (Cons i "is")
    then obtain r rs' where rs: "rs = r # rs'" by (cases rs) auto
    let ?xs = "xs[i := f r (xs ! i)]"
    have ih: "length (?F is rs' ?xs) = length xs" "\<And>j. j \<notin> set is \<Longrightarrow> ?F is rs' ?xs ! j = ?xs ! j"
      "map ((!) (?F is rs' ?xs)) is = map2 (\<lambda>i r. f r (?xs ! i)) is rs'"
      using Cons.IH [of ?xs rs'] Cons.prems by (simp_all add: rs)
    have same: "?xs ! k = xs ! k" if "k \<in> set is" for k using that Cons.prems(1) by (metis distinct.simps(2) nth_list_update_neq)
    have "map2 (\<lambda>i r. f r (?xs ! i)) is rs' = map2 (\<lambda>i r. f r (xs ! i)) is rs'"
      using same by (intro map_cong refl) (auto dest!: set_zip_leftD)
    then show ?case using ih Cons.prems by (auto simp: rs nth_list_update)
  qed simp
  then show "length (?F is rs xs) = length xs" "j \<notin> set is \<Longrightarrow> ?F is rs xs ! j = xs ! j"
    "map ((!) (?F is rs xs)) is = map2 (\<lambda>i r. f r (xs ! i)) is rs" by auto
qed

lemma group_result_scatter:
  "linkg_scheduler_set_tx_group_result items pg r =
    fold (\<lambda>(i, r) its. its[i := (its ! i)\<lparr>si_result := r\<rparr>]) (zip (pg_item_indices pg) (replicate (length (pg_item_indices pg)) r)) items"
  "linkg_scheduler_set_forward_group_result results pg r =
    fold (\<lambda>(i, r) rs. rs[i := r]) (zip (pg_item_indices pg) (replicate (length (pg_item_indices pg)) r)) results"
proof -
  have "fold (\<lambda>i xs. xs[i := f r (xs ! i)]) is xs = fold (\<lambda>(i, r) xs. xs[i := f r (xs ! i)]) (zip is (replicate (length is) r)) xs"
    for f :: "int \<Rightarrow> 'a \<Rightarrow> 'a" and "is" xs by (induction "is" arbitrary: xs) auto
  from this [of "\<lambda>r x. x\<lparr>si_result := r\<rparr>"] show "linkg_scheduler_set_tx_group_result items pg r =
    fold (\<lambda>(i, r) its. its[i := (its ! i)\<lparr>si_result := r\<rparr>]) (zip (pg_item_indices pg) (replicate (length (pg_item_indices pg)) r)) items"
    by (simp add: linkg_scheduler_set_tx_group_result_def)
next
  have "fold (\<lambda>i xs. xs[i := r]) is xs = fold (\<lambda>(i, r) xs. xs[i := r]) (zip is (replicate (length is) r)) xs"
    for "is" and xs :: "int list" by (induction "is" arbitrary: xs) auto
  then show "linkg_scheduler_set_forward_group_result results pg r =
    fold (\<lambda>(i, r) rs. rs[i := r]) (zip (pg_item_indices pg) (replicate (length (pg_item_indices pg)) r)) results"
    by (simp add: linkg_scheduler_set_forward_group_result_def)
qed

text \<open>The number of items with result 0 among some positions.\<close>

definition successes :: "('a \<Rightarrow> int) \<Rightarrow> 'a list \<Rightarrow> nat list \<Rightarrow> nat" where
  "successes res xs is = length (filter (\<lambda>i. res (xs ! i) = 0) is)"

lemma successes_append [simp]: "successes res xs (is @ js) = successes res xs is + successes res xs js"
  by (simp add: successes_def)

lemma successes_cong: "(\<And>i. i \<in> set is \<Longrightarrow> res (ys ! i) = res (xs ! i)) \<Longrightarrow> successes res ys is = successes res xs is"
  unfolding successes_def by (metis (mono_tags, lifting) filter_cong)

lemma successes_map: "map (\<lambda>i. res (xs ! i)) is = rs \<Longrightarrow> successes res xs is = length (filter (\<lambda>r. r = 0) rs)"
  by (auto simp: successes_def filter_map o_def)

lemma successes_all:
  assumes "distinct is" "\<forall>i\<in>set is. i < length xs" "\<And>i. i < length xs \<Longrightarrow> i \<notin> set is \<Longrightarrow> res (xs ! i) \<noteq> 0"
  shows "length (filter (\<lambda>x. res x = 0) xs) = successes res xs is"
proof -
  have "length (filter (\<lambda>x. res x = 0) xs) = card {i. i < length xs \<and> res (xs ! i) = 0}" by (rule length_filter_conv_card)
  also have "{i. i < length xs \<and> res (xs ! i) = 0} = set (filter (\<lambda>i. res (xs ! i) = 0) is)" using assms(2,3) by auto
  also have "card \<dots> = successes res xs is" unfolding successes_def by (rule distinct_card) (simp add: assms(1))
  finally show ?thesis .
qed

text \<open>What the submission of a group does to an array of items, whatever they are, and to the rest.\<close>

definition group_effect :: "('a \<Rightarrow> int) \<Rightarrow> ('a \<Rightarrow> 'b) \<Rightarrow> nat list \<Rightarrow> int \<Rightarrow> 'a list \<Rightarrow> 'a list \<Rightarrow> bool" where
  "group_effect res keep is n xs ys \<longleftrightarrow>
     length ys = length xs \<and> (\<forall>i. i \<notin> set is \<longrightarrow> ys ! i = xs ! i) \<and> (\<forall>i<length xs. keep (ys ! i) = keep (xs ! i)) \<and>
     int (successes res ys is) = n"

lemma scatter_effect:
  assumes "distinct is" "\<forall>i\<in>set is. i < length xs" "length rs = length is"
    and f: "\<And>r x. res (f r x) = r" "\<And>r x. keep (f r x) = keep x"
  shows "group_effect res keep is (int (length (filter (\<lambda>r. r = 0) rs))) xs (fold (\<lambda>(i, r) xs. xs[i := f r (xs ! i)]) (zip is rs) xs)"
    (is "group_effect _ _ _ _ _ ?ys")
proof -
  note s = scatter [OF assms(1-3), where f = f]
  have "keep (?ys ! i) = keep (xs ! i)" if "i < length xs" for i
  proof (cases "i \<in> set is")
    case True
    then obtain k where k: "k < length is" "is ! k = i" by (auto simp: in_set_conv_nth)
    then have "?ys ! i = f (rs ! k) (xs ! i)" using arg_cong [OF s(3), of "\<lambda>l. l ! k"] assms(3) by simp
    then show ?thesis using f(2) by simp
  qed (simp add: s(2))
  moreover have "map (\<lambda>i. res (?ys ! i)) is = rs"
    using arg_cong [OF s(3), of "map res"] assms(3) by (simp add: f(1) o_def split_beta)
  then have "successes res ?ys is = length (filter (\<lambda>r. r = 0) rs)" by (rule successes_map)
  ultimately show ?thesis using s(1,2) by (simp add: group_effect_def)
qed

lemma effect_error:
  assumes "group_effect res keep is n xs ys" "distinct is" "\<forall>i\<in>set is. i < length xs" "r \<noteq> 0"
    and f: "\<And>r x. res (f r x) = r" "\<And>r x. keep (f r x) = keep x"
  shows "group_effect res keep is 0 xs (fold (\<lambda>(i, r) xs. xs[i := f r (xs ! i)]) (zip is (replicate (length is) r)) ys)"
proof -
  have l: "length ys = length xs" "\<And>i. i \<notin> set is \<Longrightarrow> ys ! i = xs ! i" "\<And>i. i < length xs \<Longrightarrow> keep (ys ! i) = keep (xs ! i)"
    using assms(1) by (auto simp: group_effect_def)
  have "group_effect res keep is (int (length (filter (\<lambda>r. r = 0) (replicate (length is) r)))) ys
      (fold (\<lambda>(i, r) xs. xs[i := f r (xs ! i)]) (zip is (replicate (length is) r)) ys)"
    using assms(2,3) l(1) f by (intro scatter_effect) auto
  then show ?thesis using l assms(4) by (auto simp: group_effect_def filter_replicate)
qed

lemma effect_seq:
  assumes "group_effect res keep is m xs ys" "group_effect res keep js n ys zs" "set is \<inter> set js = {}"
  shows "group_effect res keep (is @ js) (m + n) xs zs"
proof -
  have "successes res zs is = successes res ys is" using assms(2,3) by (intro successes_cong) (auto simp: group_effect_def)
  then show ?thesis using assms by (auto simp: group_effect_def)
qed

section \<open>Submitting groups\<close>

definition pg_ok :: "nat \<Rightarrow> linkg_scheduler_peer_group \<Rightarrow> bool" where
  "pg_ok n pg \<longleftrightarrow> distinct (pg_item_indices pg) \<and> (\<forall>i\<in>set (pg_item_indices pg). i < n) \<and> pg_item_indices pg \<noteq> [] \<and>
     length (pg_item_indices pg) \<le> LINKG_SCHEDULER_TX_CHUNK_MAX"

lemma hop_groups_indices:
  "distinct (concat (map pg_item_indices (hop_groups hops)))"
  "i \<in> set (concat (map pg_item_indices (hop_groups hops))) \<longleftrightarrow>
     i < length hops \<and> (\<exists>p\<in>set (take LINKG_SCHEDULER_PEER_GROUP_MAX (first_hops hops)). hops ! i = Inr p)"
  "length hops \<le> LINKG_SCHEDULER_TX_CHUNK_MAX \<Longrightarrow> pg \<in> set (hop_groups hops) \<Longrightarrow> pg_ok (length hops) pg"
proof -
  have c: "distinct (concat (map (\<lambda>p. filter (\<lambda>i. hops ! i = Inr p) [0..<n]) ps))" if "distinct ps" for ps n
    using that by (induction ps) auto
  have "map pg_item_indices (hop_groups hops) =
      map (\<lambda>p. filter (\<lambda>i. hops ! i = Inr p) [0..<length hops]) (take LINKG_SCHEDULER_PEER_GROUP_MAX (first_hops hops))"
    by (simp add: hop_groups_def group_of_def)
  then show "distinct (concat (map pg_item_indices (hop_groups hops)))"
    "i \<in> set (concat (map pg_item_indices (hop_groups hops))) \<longleftrightarrow>
     i < length hops \<and> (\<exists>p\<in>set (take LINKG_SCHEDULER_PEER_GROUP_MAX (first_hops hops)). hops ! i = Inr p)"
    using c [of "take 16 (first_hops hops)" "length hops"] by auto
  assume l: "length hops \<le> LINKG_SCHEDULER_TX_CHUNK_MAX" "pg \<in> set (hop_groups hops)"
  then obtain p where p: "p \<in> set (first_hops hops)" "pg = group_of hops p" by (auto simp: hop_groups_def dest: in_set_takeD)
  have "length (filter (\<lambda>i. hops ! i = Inr p) [0..<length hops]) \<le> length [0..<length hops]" by (rule length_filter_le)
  moreover obtain k where "k < length hops" "hops ! k = Inr p" using p(1) by (auto simp: set_first_hops in_set_conv_nth)
  ultimately show "pg_ok (length hops) pg" using l(1) by (auto simp: p(2) pg_ok_def group_of_def filter_empty_conv)
qed

text \<open>
  The loop over the groups, once for packets and for relayed frames: an array with a result in each element, a way to
  submit a group, and a way to overwrite the results of a group that was refused. What a submission promises is its law.
\<close>

locale group_submission =
  fixes submit :: "'a list \<Rightarrow> linkg_scheduler_peer_group \<Rightarrow> 'w \<Rightarrow> int \<times> 'a list \<times> 'w"
    and overwrite :: "'a list \<Rightarrow> linkg_scheduler_peer_group \<Rightarrow> int \<Rightarrow> 'a list"
    and submit_all :: "linkg_scheduler_peer_group list \<Rightarrow> 'a list \<Rightarrow> 'w \<Rightarrow> int \<times> 'a list \<times> 'w"
    and res :: "'a \<Rightarrow> int" and keep :: "'a \<Rightarrow> 'b" and ready :: "'w \<Rightarrow> bool" and paths :: "'w \<Rightarrow> path_store"
  assumes all_Nil: "submit_all [] xs w = (0, xs, w)"
    and all_Cons: "submit_all (pg # pgs) xs w =
      (let (ret, xs1, w1) = submit xs pg w; xs2 = (if ret < 0 then overwrite xs1 pg ret else xs1);
           (success, xs3, w2) = submit_all pgs xs2 w1 in ((if ret < 0 then success else ret + success), xs3, w2))"
    and submit_effect: "ready w \<Longrightarrow> pg_ok (length xs) pg \<Longrightarrow> submit xs pg w = (ret, xs', w') \<Longrightarrow>
      group_effect res keep (pg_item_indices pg) (if ret < 0 then 0 else ret) xs (if ret < 0 then overwrite xs' pg ret else xs') \<and>
      paths w' = paths w \<and> ready w'"
begin

lemma all_effect:
  assumes "ready w" "\<forall>pg\<in>set pgs. pg_ok (length xs) pg" "distinct (concat (map pg_item_indices pgs))"
    and "submit_all pgs xs w = (ret, xs', w')"
  shows "group_effect res keep (concat (map pg_item_indices pgs)) ret xs xs' \<and> 0 \<le> ret \<and> paths w' = paths w \<and> ready w'"
  using assms
proof (induction pgs arbitrary: xs w ret xs' w')
  case Nil
  then show ?case by (simp add: all_Nil group_effect_def successes_def)
next
  case (Cons pg pgs)
  obtain r xs1 w1 where g: "submit xs pg w = (r, xs1, w1)" by (rule prod_cases3)
  let ?xs2 = "if r < 0 then overwrite xs1 pg r else xs1"
  have "pg_ok (length xs) pg" using Cons.prems(2) by simp
  note e = submit_effect [OF Cons.prems(1) this g]
  obtain r2 xs3 w2 where l: "submit_all pgs ?xs2 w1 = (r2, xs3, w2)" by (rule prod_cases3)
  have len: "length ?xs2 = length xs" using e unfolding group_effect_def by blast
  have "group_effect res keep (concat (map pg_item_indices pgs)) r2 ?xs2 xs3 \<and> 0 \<le> r2 \<and> paths w2 = paths w1 \<and> ready w2"
    using Cons.prems(2,3) e len by (intro Cons.IH [OF _ _ _ l]) simp_all
  moreover from effect_seq [OF conjunct1 [OF e] conjunct1 [OF this]] Cons.prems(3)
  have "group_effect res keep (concat (map pg_item_indices (pg # pgs))) ((if r < 0 then 0 else r) + r2) xs xs3" by auto
  moreover have "ret = (if r < 0 then 0 else r) + r2" "xs' = xs3" "w' = w2" using Cons.prems(4) g l by (auto simp: all_Cons Let_def)
  ultimately show ?case using e by auto
qed

text \<open>The reference groups: only elements with a next hop can get the result 0, and the code counts them.\<close>

lemma hops_effect:
  assumes "ready w" "length hops = length xs" "length xs \<le> LINKG_SCHEDULER_TX_CHUNK_MAX" "Inl 0 \<notin> set hops"
    and "\<And>i. i < length xs \<Longrightarrow> res (xs ! i) = hop_result (take LINKG_SCHEDULER_PEER_GROUP_MAX (first_hops hops)) (hops ! i)"
    and "submit_all (hop_groups hops) xs w = (ret, xs', w')"
  shows "0 \<le> ret \<and> ret = int (length (filter (\<lambda>x. res x = 0) xs')) \<and> map keep xs' = map keep xs \<and> paths w' = paths w \<and> ready w' \<and>
    (\<forall>i<length xs. res (xs' ! i) = 0 \<longrightarrow> \<not> isl (hops ! i))"
proof -
  let ?is = "concat (map pg_item_indices (hop_groups hops))"
  have "\<forall>pg\<in>set (hop_groups hops). pg_ok (length xs) pg" using hop_groups_indices(3) [of hops] assms(2,3) by simp
  note e = all_effect [OF assms(1) this hop_groups_indices(1) assms(6)]
  note g = e [THEN conjunct1, unfolded group_effect_def]
  have out: "res (xs' ! i) \<noteq> 0" if i: "i < length xs" "i \<notin> set ?is" for i
  proof -
    have "res (xs' ! i) = hop_result (take 16 (first_hops hops)) (hops ! i)" using g i assms(5) by simp
    moreover have "hops ! i = Inr p \<Longrightarrow> p \<notin> set (take 16 (first_hops hops))" for p
      using hop_groups_indices(2) [of i hops] i assms(2) by auto
    moreover have "hops ! i \<noteq> Inl 0" using assms(2,4) i(1) by (metis nth_mem)
    ultimately show ?thesis by (auto simp: hop_result_def split: sum.split)
  qed
  have "length (filter (\<lambda>x. res x = 0) xs') = successes res xs' ?is"
    using hop_groups_indices(1) [of hops] hop_groups_indices(2) [of _ hops] g assms(2) out by (intro successes_all) auto
  moreover have "map keep xs' = map keep xs" using g by (intro nth_equalityI) auto
  moreover have "\<not> isl (hops ! i)" if "i < length xs" "res (xs' ! i) = 0" for i
    using out [of i] that hop_groups_indices(2) [of i hops] by auto
  ultimately show ?thesis using e g by simp
qed

end

section \<open>The contract of a submission\<close>

text \<open>What holds between two groups of a call: the references are home, and the mutexes of the transport layer answer.\<close>

definition scheduler_ready :: "node_run \<Rightarrow> 'd scheduler_env \<Rightarrow> 'd scheduler_world \<Rightarrow> bool" where
  "scheduler_ready x env w \<longleftrightarrow>
     scheduler_setting x env \<and> node_refs_room 2 (nr_paths x) \<and> nr_paths x = sw_paths w \<and> locks_answer (sw_transport w) \<and>
     (\<forall>peer traffic_class e. se_plan env peer traffic_class = Inl e \<longrightarrow> e < 0)"

abbreviation bare :: "linkg_scheduler_tx_item \<Rightarrow> linkg_scheduler_tx_item" where
  "bare item \<equiv> item\<lparr>si_result := 0\<rparr>"

lemma ready_targets:
  assumes "scheduler_ready x env w" "linkg_scheduler_class_valid traffic_class" "linkg_scheduler_policy_valid policy"
    and "linkg_scheduler_build_targets env peer traffic_class policy specified_link_id (sw_paths w) = (ret, ts, s)"
  shows "(ret = 0 \<or> ret < 0 \<and> ts = []) \<and> linkg_scheduler_release_targets ts s = sw_paths w"
  using build_targets_exact [of x env _ policy peer specified_link_id ret ts s] assms by (auto simp: scheduler_ready_def)

lemma ready_keep:
  "scheduler_ready x env w \<Longrightarrow> sw_paths w' = sw_paths w \<Longrightarrow> locks_answer (sw_transport w') \<Longrightarrow> scheduler_ready x env w'"
  unfolding scheduler_ready_def by metis

text \<open>A group, with the results of its items overwritten when the transport layer refused it.\<close>

lemma tx_group_effect:
  assumes ready: "scheduler_ready x env w"
    and ctx: "linkg_scheduler_class_valid (sc_traffic_class ctx)" "linkg_scheduler_policy_valid (sc_policy ctx)"
    and pg: "pg_ok (length items) pg"
    and run: "linkg_scheduler_submit_tx_group env ctx items pg w = (ret, items', w')"
  shows "group_effect si_result bare (pg_item_indices pg) (if ret < 0 then 0 else ret) items
      (if ret < 0 then linkg_scheduler_set_tx_group_result items' pg ret else items') \<and>
    sw_paths w' = sw_paths w \<and> scheduler_ready x env w'"
proof -
  let ?is = "pg_item_indices pg"
  note p = pg [unfolded pg_ok_def]
  obtain r ts s where b: "linkg_scheduler_build_targets env (pg_peer_node_id pg) (sc_traffic_class ctx) (sc_policy ctx)
      (sc_specified_link_id ctx) (sw_paths w) = (r, ts, s)" by (rule prod_cases3)
  note t = ready_targets [OF ready ctx b]
  have id: "group_effect si_result bare ?is (int (successes si_result items ?is)) items items" by (simp add: group_effect_def)
  have err: "group_effect si_result bare ?is 0 items (linkg_scheduler_set_tx_group_result items pg e)" if "e \<noteq> 0" for e
    unfolding group_result_scatter by (rule effect_error [OF id]) (use p that in auto)
  show ?thesis
  proof (cases "r = 0")
    case False
    then have "ret = 0" "items' = linkg_scheduler_set_tx_group_result items pg r" "w' = w\<lparr>sw_paths := s\<rparr>"
      using run p b by (simp_all add: linkg_scheduler_submit_tx_group_def)
    moreover have "s = sw_paths w" using t False by auto
    ultimately show ?thesis using err [OF False] ready by simp
  next
    case True
    let ?tc = "\<lparr>tx_targets = Some ts, tx_traffic_class = sc_traffic_class ctx, tx_peer_node_id = pg_peer_node_id pg\<rparr>"
    let ?ti = "map (\<lambda>i. \<lparr>ti_packet = si_packet (items ! i), ti_type = si_type (items ! i),
                  ti_destination_node_id = si_destination_node_id (items ! i)\<rparr>) ?is"
    obtain rt results tr io where snd: "linkg_transport_send_batch (Some ?tc) (Some ?ti) (se_now_ms env) (sw_transport w) (sw_io w) =
      (rt, results, tr, io)" by (rule prod_cases4)
    have la: "locks_answer (sw_transport w)" using ready by (simp add: scheduler_ready_def)
    note c = send_batch_contract [OF la snd]
    let ?w = "\<lparr>sw_paths = linkg_scheduler_release_targets ts s, sw_transport = tr, sw_io = io\<rparr>"
    have "sw_paths ?w = sw_paths w" "locks_answer (sw_transport ?w)" using c t by simp_all
    note w = ready_keep [OF ready this] this(1)
    show ?thesis
    proof (cases "rt < 0")
      case neg: True
      then have r: "ret = rt" "items' = linkg_scheduler_set_tx_group_result items pg rt" "w' = ?w"
        using run p b snd True by (auto simp: linkg_scheduler_submit_tx_group_def Let_def)
      have "group_effect si_result bare ?is 0 items (linkg_scheduler_set_tx_group_result items' pg rt)"
        unfolding group_result_scatter by (rule effect_error [OF err [of rt, folded r(2)]]) (use p neg in auto)
      then show ?thesis using w neg r by simp
    next
      case pos: False
      then obtain rs where rs: "results = Some rs" "length rs = length ?is" "rt = int (length (filter (\<lambda>r. r = 0) rs))" using c by auto
      then have r: "ret = rt" "items' = fold (\<lambda>(i, r) its. its[i := (its ! i)\<lparr>si_result := r\<rparr>]) (zip ?is rs) items" "w' = ?w"
        using run p b snd True pos by (auto simp: linkg_scheduler_submit_tx_group_def Let_def)
      have "group_effect si_result bare ?is rt items items'"
        unfolding r(2) rs(3) by (rule scatter_effect) (use p rs(2) in auto)
      then show ?thesis using w pos r by simp
    qed
  qed
qed

interpretation packets: group_submission "linkg_scheduler_submit_tx_group env ctx" linkg_scheduler_set_tx_group_result
    "tx_groups_loop env ctx" si_result bare
    "\<lambda>w. scheduler_ready x env w \<and> linkg_scheduler_class_valid (sc_traffic_class ctx) \<and> linkg_scheduler_policy_valid (sc_policy ctx)"
    sw_paths
  for x env ctx
proof (unfold_locales, goal_cases)
  case (3 w xs pg ret xs' w')
  then show ?case using tx_group_effect [of x env w ctx xs pg ret xs' w'] by blast
qed simp_all

text \<open>A chunk is the submission of the reference groups, with the results of the packets that have no next hop in place.\<close>

definition tx_hops :: "linkg_scheduler_route_context \<Rightarrow> linkg_scheduler_tx_item list \<Rightarrow> (int + u8) list" where
  "tx_hops rc items = map (tx_next_hop rc) items"

definition tx_marked :: "linkg_scheduler_route_context \<Rightarrow> linkg_scheduler_tx_item list \<Rightarrow> linkg_scheduler_tx_item list" where
  "tx_marked rc items = map (\<lambda>item. item\<lparr>si_result :=
     hop_result (take LINKG_SCHEDULER_PEER_GROUP_MAX (first_hops (tx_hops rc items))) (tx_next_hop rc item)\<rparr>) items"

lemma tx_chunk_groups:
  assumes "rc_local rc \<noteq> None" "items \<noteq> []" "length items \<le> LINKG_SCHEDULER_TX_CHUNK_MAX"
  shows "linkg_scheduler_submit_tx_chunk env ctx rc items w =
    tx_groups_loop env ctx (hop_groups (tx_hops rc items)) (tx_marked rc items) w"
proof -
  have "hop_groups [] = []" by (simp add: hop_groups_def first_hops_def good_hops_def)
  then have "group_loop 0 (map (tx_next_hop rc) items) [] =
    (map (hop_result (take 16 (first_hops (tx_hops rc items)))) (tx_hops rc items), hop_groups (tx_hops rc items))"
    using group_loop_hops [of "[]" "tx_hops rc items"] by (simp add: tx_hops_def)
  moreover have "map2 (\<lambda>item result. item\<lparr>si_result := result\<rparr>) items (map (hop_result ps) (tx_hops rc items)) =
      map (\<lambda>item. item\<lparr>si_result := hop_result ps (tx_next_hop rc item)\<rparr>) items" for ps
    by (simp add: tx_hops_def list_eq_iff_nth_eq)
  ultimately show ?thesis using assms by (auto simp: linkg_scheduler_submit_tx_chunk_def tx_marked_def)
qed

lemma next_hop_error: "tx_next_hop rc item \<noteq> Inl 0"
  by (auto simp: tx_next_hop_def linkg_scheduler_resolve_peer_def split: option.split)

lemma tx_chunk_contract:
  assumes "scheduler_ready x env w"
    and "linkg_scheduler_class_valid (sc_traffic_class ctx)" "linkg_scheduler_policy_valid (sc_policy ctx)"
    and "rc_local rc \<noteq> None" "items \<noteq> []" "length items \<le> LINKG_SCHEDULER_TX_CHUNK_MAX"
    and "linkg_scheduler_submit_tx_chunk env ctx rc items w = (ret, items', w')"
  shows "0 \<le> ret \<and> map bare items' = map bare items \<and> ret = int (length (filter (\<lambda>item. si_result item = 0) items')) \<and>
    sw_paths w' = sw_paths w \<and> scheduler_ready x env w'"
proof -
  have l: "tx_groups_loop env ctx (hop_groups (tx_hops rc items)) (tx_marked rc items) w = (ret, items', w')"
    unfolding tx_chunk_groups [OF assms(4-6), symmetric] by (rule assms(7))
  have r: "scheduler_ready x env w \<and> linkg_scheduler_class_valid (sc_traffic_class ctx) \<and> linkg_scheduler_policy_valid (sc_policy ctx)"
    using assms(1-3) by blast
  have len: "length (tx_hops rc items) = length (tx_marked rc items)" "length (tx_marked rc items) \<le> LINKG_SCHEDULER_TX_CHUNK_MAX"
    using assms(6) by (simp_all add: tx_hops_def tx_marked_def)
  have err: "Inl 0 \<notin> set (tx_hops rc items)" using next_hop_error [of rc] by (auto simp: tx_hops_def dest: sym)
  have res: "si_result (tx_marked rc items ! i) = hop_result (take 16 (first_hops (tx_hops rc items))) (tx_hops rc items ! i)"
    if "i < length (tx_marked rc items)" for i using that by (simp add: tx_marked_def) (simp add: tx_hops_def)
  have "map bare (tx_marked rc items) = map bare items" by (simp add: tx_marked_def)
  then show ?thesis using packets.hops_effect [OF r len err res l] by simp
qed

lemma scheduler_loop_contract:
  assumes "scheduler_ready x env w"
    and "linkg_scheduler_class_valid (sc_traffic_class ctx)" "linkg_scheduler_policy_valid (sc_policy ctx)" "rc_local rc \<noteq> None"
    and "scheduler_send_loop env ctx rc items w = (success, first_error, processed, items', w')"
  shows "0 \<le> success \<and> (items \<noteq> [] \<longrightarrow> processed) \<and> map bare items' = map bare items \<and>
    success = int (length (filter (\<lambda>item. si_result item = 0) items')) \<and> sw_paths w' = sw_paths w \<and> scheduler_ready x env w'"
  using assms
proof (induction env ctx rc items w arbitrary: success first_error processed items' w' rule: scheduler_send_loop.induct)
  case (1 env ctx rc items w)
  show ?case
  proof (cases "items = []")
    case True
    then show ?thesis using "1.prems"(1,5) by (simp add: scheduler_send_loop.simps)
  next
    case False
    define n where "n = min (length items) LINKG_SCHEDULER_TX_CHUNK_MAX"
    obtain r items1 w1 where c: "linkg_scheduler_submit_tx_chunk env ctx rc (take n items) w = (r, items1, w1)" by (rule prod_cases3)
    obtain su fe pr rest w2 where l: "scheduler_send_loop env ctx rc (drop n items) w1 = (su, fe, pr, rest, w2)" by (rule prod_cases5)
    have n: "take n items \<noteq> []" "length (take n items) \<le> 32" using False by (simp_all add: n_def)
    note cc = tx_chunk_contract [OF "1.prems"(1-4) n c]
    then have ih: "0 \<le> su \<and> map bare rest = map bare (drop n items) \<and> su = int (length (filter (\<lambda>item. si_result item = 0) rest)) \<and>
        sw_paths w2 = sw_paths w1 \<and> scheduler_ready x env w2"
      using "1.IH" [OF False n_def c [symmetric] refl refl _ "1.prems"(2-4) l] by blast
    have eq: "scheduler_send_loop env ctx rc items w = (r + su, fe, True, items1 @ rest, w2)"
      using False c l cc by (simp add: scheduler_send_loop.simps [of env ctx rc items] Let_def flip: n_def)
    have "map bare items = map bare (take n items) @ map bare (drop n items)" by (simp flip: map_append)
    then show ?thesis using "1.prems"(5) cc ih unfolding eq by auto
  qed
qed

section \<open>Relaying\<close>

lemma forward_group_effect:
  assumes ready: "scheduler_ready x env w" and cls: "linkg_scheduler_class_valid traffic_class"
    and pg: "pg_ok (length results) pg"
    and run: "linkg_scheduler_submit_forward_group env traffic_class items results pg w = (ret, results', w')"
  shows "group_effect (\<lambda>r. r) (\<lambda>_. ()) (pg_item_indices pg) (if ret < 0 then 0 else ret) results
      (if ret < 0 then linkg_scheduler_set_forward_group_result results' pg ret else results') \<and>
    sw_paths w' = sw_paths w \<and> scheduler_ready x env w'"
proof -
  let ?is = "pg_item_indices pg"
  note p = pg [unfolded pg_ok_def]
  obtain r ts s where b: "linkg_scheduler_build_targets env (pg_peer_node_id pg) traffic_class LINKG_SCHEDULER_POLICY_DEFAULT
      LINKG_LINK_ID_INVALID (sw_paths w) = (r, ts, s)" by (rule prod_cases3)
  have pol: "linkg_scheduler_policy_valid LINKG_SCHEDULER_POLICY_DEFAULT" by (simp add: linkg_scheduler_policy_valid_def)
  note t = ready_targets [OF ready cls pol b]
  have id: "group_effect (\<lambda>r. r) (\<lambda>_. ()) ?is (int (successes (\<lambda>r. r) results ?is)) results results" by (simp add: group_effect_def)
  have err: "group_effect (\<lambda>r. r) (\<lambda>_. ()) ?is 0 results (linkg_scheduler_set_forward_group_result results pg e)" if "e \<noteq> 0" for e
    unfolding group_result_scatter by (rule effect_error [OF id, where f = "\<lambda>r _. r"]) (use p that in auto)
  show ?thesis
  proof (cases "r = 0")
    case False
    then have "ret = 0" "results' = linkg_scheduler_set_forward_group_result results pg r" "w' = w\<lparr>sw_paths := s\<rparr>"
      using run p b cls by (simp_all add: linkg_scheduler_submit_forward_group_def)
    moreover have "s = sw_paths w" using t False by auto
    ultimately show ?thesis using err [OF False] ready by simp
  next
    case True
    let ?tc = "\<lparr>tx_targets = Some ts, tx_traffic_class = traffic_class, tx_peer_node_id = pg_peer_node_id pg\<rparr>"
    let ?ti = "map (\<lambda>i. items ! i) ?is"
    obtain rt answers tr io where snd: "linkg_transport_forward_batch (Some ?tc) (Some ?ti) (se_now_ms env) (sw_transport w) (sw_io w) =
      (rt, answers, tr, io)" by (rule prod_cases4)
    have la: "locks_answer (sw_transport w)" using ready by (simp add: scheduler_ready_def)
    note c = forward_batch_contract [OF la snd]
    let ?w = "\<lparr>sw_paths = linkg_scheduler_release_targets ts s, sw_transport = tr, sw_io = io\<rparr>"
    have "sw_paths ?w = sw_paths w" "locks_answer (sw_transport ?w)" using c t by simp_all
    note w = ready_keep [OF ready this] this(1)
    show ?thesis
    proof (cases "rt < 0")
      case neg: True
      then have r: "ret = rt" "results' = linkg_scheduler_set_forward_group_result results pg rt" "w' = ?w"
        using run p b snd True cls by (auto simp: linkg_scheduler_submit_forward_group_def Let_def)
      have "group_effect (\<lambda>r. r) (\<lambda>_. ()) ?is 0 results (linkg_scheduler_set_forward_group_result results' pg rt)"
        unfolding group_result_scatter by (rule effect_error [OF err [of rt, folded r(2)], where f = "\<lambda>r _. r"]) (use p neg in auto)
      then show ?thesis using w neg r by simp
    next
      case pos: False
      then obtain rs where rs: "answers = Some rs" "length rs = length ?is" "rt = int (length (filter (\<lambda>r. r = 0) rs))" using c by auto
      then have r: "ret = rt" "results' = fold (\<lambda>(i, r) rs. rs[i := r]) (zip ?is rs) results" "w' = ?w"
        using run p b snd True pos cls by (auto simp: linkg_scheduler_submit_forward_group_def Let_def)
      have "group_effect (\<lambda>r. r) (\<lambda>_. ()) ?is rt results results'"
        unfolding r(2) rs(3) by (rule scatter_effect [where f = "\<lambda>r _. r"]) (use p rs(2) in auto)
      then show ?thesis using w pos r by simp
    qed
  qed
qed

interpretation frames: group_submission "linkg_scheduler_submit_forward_group env traffic_class items"
    linkg_scheduler_set_forward_group_result "forward_groups_loop env traffic_class items" "\<lambda>r. r" "\<lambda>_. ()"
    "\<lambda>w. scheduler_ready x env w \<and> linkg_scheduler_class_valid traffic_class" sw_paths
  for x env traffic_class items
proof (unfold_locales, goal_cases)
  case (3 w xs pg ret xs' w')
  then show ?case using forward_group_effect [of x env w traffic_class xs pg items ret xs' w'] by blast
qed simp_all

lemma forward_groups_code: "0 \<le> fst (forward_groups_loop env traffic_class items pgs results w)"
  by (induction pgs arbitrary: results w) (auto simp: Let_def split_beta)

lemma relay_contract:
  assumes ready: "scheduler_ready x env w"
    and run: "linkg_scheduler_transport_forward env traffic_class (Some items) st w = (ret, results, w')"
  shows "(ret < 0 \<and> w' = w \<and> (\<forall>rs\<in>set_option results. \<forall>r\<in>set rs. r < 0)) \<or>
    (\<exists>rs. results = Some rs \<and> length rs = length items \<and> ret = int (length (filter (\<lambda>r. r = 0) rs)) \<and> sw_paths w' = sw_paths w \<and>
      (\<forall>i<length items. rs ! i = 0 \<longrightarrow> forward_next_hop (nd_local (se_node env)) (items ! i) = Inr (fi_destination_node_id (items ! i))))"
proof (cases "ss_initialized st \<and> linkg_scheduler_class_valid traffic_class \<and> items \<noteq> [] \<and> length items \<le> LINKG_SCHEDULER_TX_CHUNK_MAX \<and>
    ni_role (nd_local (se_node env)) = LINKG_DEVICE_ROLE_AP")
  case False
  then show ?thesis using run by (auto simp: linkg_scheduler_transport_forward_def split: if_splits option.splits simp: linkg_node_get_local_def)
next
  case True
  note setting = settingD [OF ready [unfolded scheduler_ready_def, THEN conjunct1]]
  let ?local = "nd_local (se_node env)"
  define hops where "hops = map (forward_next_hop ?local) items"
  let ?qs = "take LINKG_SCHEDULER_PEER_GROUP_MAX (first_hops hops)" and ?is = "concat (map pg_item_indices (hop_groups hops))"
  have local: "linkg_node_get_local (se_node env) = Some ?local"
    using node_invD(1) [OF setting(2)] setting(3) by (simp add: linkg_node_get_local_def)
  have gl: "group_loop 0 (map (forward_next_hop ?local) items) [] = (map (hop_result ?qs) hops, hop_groups hops)"
    using group_loop_hops [of "[]" hops] by (simp add: hops_def hop_groups_def first_hops_def good_hops_def)
  obtain su rs w1 where l: "forward_groups_loop env traffic_class items (hop_groups hops) (map (hop_result ?qs) hops) w = (su, rs, w1)"
    by (rule prod_cases3)
  have r: "ret = su" "results = Some rs" "w' = w1" using run True local gl l by (auto simp: linkg_scheduler_transport_forward_def)
  have len: "length hops = length items" by (simp add: hops_def)
  have rd: "scheduler_ready x env w \<and> linkg_scheduler_class_valid traffic_class" using ready True by blast
  have "Inl 0 \<notin> set hops"
    by (auto simp: hops_def forward_next_hop_def linkg_scheduler_resolve_peer_def split: if_splits)
  then have e: "su = int (length (filter (\<lambda>r. r = 0) rs)) \<and> map (\<lambda>_. ()) rs = map (\<lambda>_. ()) (map (hop_result ?qs) hops) \<and> sw_paths w1 = sw_paths w \<and>
      (\<forall>i<length hops. rs ! i = 0 \<longrightarrow> \<not> isl (hops ! i))"
    using frames.hops_effect [OF rd _ _ _ _ l] len True by simp
  have "length rs = length items" using e len by (metis length_map)
  moreover have "forward_next_hop ?local (items ! i) = Inr (fi_destination_node_id (items ! i))" if i: "i < length items" "rs ! i = 0" for i
    using e i len True
    by (auto simp: hops_def forward_next_hop_def linkg_scheduler_resolve_peer_def isl_def split: if_splits)
  ultimately show ?thesis using r e by simp
qed

section \<open>Guarantees\<close>

text \<open>
  C24. A chunk is submitted as if its packets had been filtered by next hop: the groups come in the order in which the hops
  first occur, at most 16, each holds exactly the packets of its hop in their order, and packets without a hop or with a
  17th one keep their error.
\<close>

theorem scheduler_chunk_groups:
  assumes "rc_local rc \<noteq> None" "items \<noteq> []" "length items \<le> LINKG_SCHEDULER_TX_CHUNK_MAX"
  shows "linkg_scheduler_submit_tx_chunk env ctx rc items w =
      tx_groups_loop env ctx (hop_groups (tx_hops rc items)) (tx_marked rc items) w \<and>
    distinct (concat (map pg_item_indices (hop_groups (tx_hops rc items))))"
  using tx_chunk_groups [OF assms] hop_groups_indices(1) by blast

text \<open>
  C25. The contract of a submission. Every packet keeps what it is; a negative code means that nothing was done, a code that
  is not negative is the number of packets whose result is 0; and whatever happens, every path has the references it had.
\<close>

theorem scheduler_submit_contract:
  assumes "scheduler_ready x env w" "linkg_scheduler_submit_batch env context (Some items) st w = (ret, out, st', w')"
  shows "\<exists>items'. out = Some items' \<and> map bare items' = map bare items \<and> sw_paths w' = sw_paths w \<and>
    (if ret < 0 then w' = w else ret = int (length (filter (\<lambda>item. si_result item = 0) items')))"
proof (cases "ss_initialized st \<and> linkg_scheduler_validate_context context = 0 \<and> items \<noteq> []")
  case False
  have "linkg_scheduler_validate_context context \<le> 0" by (simp add: linkg_scheduler_validate_context_def split: option.split)
  then show ?thesis using assms(2) False by (auto simp: linkg_scheduler_submit_batch_def split: if_splits)
next
  case True
  then obtain ctx where ctx: "context = Some ctx" "linkg_scheduler_class_valid (sc_traffic_class ctx)" "linkg_scheduler_policy_valid (sc_policy ctx)"
    by (cases "context") (auto simp: linkg_scheduler_validate_context_def split: if_splits)
  obtain r st1 where p: "linkg_scheduler_prepare_route_context (se_node env) st = (r, st1)" by force
  show ?thesis
  proof (cases r)
    case (Inl e)
    then have "e < 0" using p by (auto simp: linkg_scheduler_prepare_route_context_def split: if_splits option.splits prod.splits sum.splits)
    then show ?thesis using assms(2) True p Inl by (auto simp: linkg_scheduler_submit_batch_def)
  next
    case (Inr rc)
    then have "rc_local rc \<noteq> None" using p by (auto simp: linkg_scheduler_prepare_route_context_def split: if_splits option.splits prod.splits sum.splits)
    note c = scheduler_loop_contract [OF assms(1) ctx(2,3) this]
    obtain su fe pr items' w1 where l: "scheduler_send_loop env ctx rc items w = (su, fe, pr, items', w1)" by (rule prod_cases5)
    show ?thesis using assms(2) True p Inr ctx(1) l c [OF l] by (auto simp: linkg_scheduler_submit_batch_def)
  qed
qed


section \<open>Witnesses\<close>

text \<open>Two packets to the station 2, in the setting of \<open>Scheduler_Targets\<close>, and a frame relayed there.\<close>

definition sched_world :: "unit scheduler_world" where
  "sched_world = \<lparr>sw_paths = nr_paths sched_run, sw_transport = send_transport, sw_io = ((), send_heap)\<rparr>"

definition sched_items :: "linkg_scheduler_tx_item list" where
  "sched_items = [\<lparr>si_packet = Some 102, si_type = 1, si_destination_node_id = 2, si_result = 0\<rparr>,
     \<lparr>si_packet = Some 103, si_type = 2, si_destination_node_id = 1, si_result = 0\<rparr>]"

definition sched_state :: scheduler_state where
  "sched_state = \<lparr>ss_initialized = True, ss_sta_peer_cached = False, ss_sta_peer_node_id = 0\<rparr>"

definition sched_context :: linkg_scheduler_tx_context where
  "sched_context = \<lparr>sc_traffic_class = 1, sc_policy = LINKG_SCHEDULER_POLICY_DEFAULT, sc_specified_link_id = 0\<rparr>"

lemma sched_ready: "scheduler_ready sched_run sched_env sched_world"
  using sched_setting send_locks by (simp add: scheduler_ready_def sched_world_def sched_env_def)

lemma sched_local: "linkg_node_get_local (se_node sched_env) = Some \<lparr>ni_node_id = 1, ni_role = LINKG_DEVICE_ROLE_AP\<rparr>"
  by code_simp

theorem scheduler_chunk_groups_witness:
  "\<exists>rc. linkg_scheduler_submit_tx_chunk sched_env sched_context rc sched_items sched_world =
     tx_groups_loop sched_env sched_context [\<lparr>pg_item_indices = [0], pg_peer_node_id = 2\<rparr>] (tx_marked rc sched_items) sched_world"
proof -
  let ?rc = "\<lparr>rc_local = Some \<lparr>ni_node_id = 1, ni_role = LINKG_DEVICE_ROLE_AP\<rparr>, rc_sta_peer_node_id = 0, rc_sta_peer_result = 0\<rparr>"
  have "hop_groups (tx_hops ?rc sched_items) = [\<lparr>pg_item_indices = [0], pg_peer_node_id = 2\<rparr>]" by code_simp
  moreover have "rc_local ?rc \<noteq> None" "sched_items \<noteq> []" "length sched_items \<le> LINKG_SCHEDULER_TX_CHUNK_MAX" by (simp_all add: sched_items_def)
  ultimately show ?thesis using scheduler_chunk_groups [of ?rc sched_items sched_env sched_context sched_world] by metis
qed

theorem scheduler_submit_contract_witness:
  "\<exists>ret items' st w. linkg_scheduler_submit_batch sched_env (Some sched_context) (Some sched_items) sched_state sched_world = (ret, Some items', st, w) \<and>
     0 \<le> ret \<and> ret = int (length (filter (\<lambda>item. si_result item = 0) items')) \<and> sw_paths w = nr_paths sched_run"
proof -
  obtain ret out st w where run: "linkg_scheduler_submit_batch sched_env (Some sched_context) (Some sched_items) sched_state sched_world =
      (ret, out, st, w)" by (rule prod_cases4)
  let ?rc = "\<lparr>rc_local = Some \<lparr>ni_node_id = 1, ni_role = LINKG_DEVICE_ROLE_AP\<rparr>, rc_sta_peer_node_id = 0, rc_sta_peer_result = 0\<rparr>"
  have v: "linkg_scheduler_validate_context (Some sched_context) = 0" "linkg_scheduler_class_valid (sc_traffic_class sched_context)"
    "linkg_scheduler_policy_valid (sc_policy sched_context)" "ss_initialized sched_state" "sched_items \<noteq> []" by code_simp+
  have p: "linkg_scheduler_prepare_route_context (se_node sched_env) sched_state = (Inr ?rc, sched_state)"
    using sched_local by (simp add: linkg_scheduler_prepare_route_context_def)
  obtain su fe pr items' w1 where l: "scheduler_send_loop sched_env sched_context ?rc sched_items sched_world = (su, fe, pr, items', w1)"
    by (rule prod_cases5)
  have "0 \<le> su" "pr" using scheduler_loop_contract [OF sched_ready v(2,3) _ l] v(5) by simp_all
  then have "0 \<le> ret" using run v p l by (simp add: linkg_scheduler_submit_batch_def)
  then show ?thesis using scheduler_submit_contract [OF sched_ready run] run by (auto simp: sched_world_def)
qed


end
