(* ===== verification/Transport_Reassembly.thy ===== *)
theory Transport_Reassembly
  imports Fragment_Cache
begin

text \<open>
  Reassembly of fragmented packets for the local node: \<open>src/core/transport/transport_reassembly.c\<close>.

  A packet longer than one frame travels as exactly two fragments. The cache keeps the fragment that came
  first, in 64 sets of two ways, until the other arrives or its time is over; the first fragment's packet
  becomes the carrier of the whole packet, with the tail's payload copied behind its own. The times
  \<open>linkg_time_elapsed_us\<close> answers and the peer as seen by the epoch check are inputs.
\<close>

section \<open>State\<close>

abbreviation (input) LINKG_TRANSPORT_REASSEMBLY_FRAGMENT_FIRST :: u8 where "LINKG_TRANSPORT_REASSEMBLY_FRAGMENT_FIRST \<equiv> 1"
abbreviation (input) LINKG_TRANSPORT_REASSEMBLY_FRAGMENT_SECOND :: u8 where "LINKG_TRANSPORT_REASSEMBLY_FRAGMENT_SECOND \<equiv> 2"
abbreviation (input) LINKG_TRANSPORT_REASSEMBLY_FRAGMENT_ALL :: u8 where "LINKG_TRANSPORT_REASSEMBLY_FRAGMENT_ALL \<equiv> 3"
abbreviation (input) LINKG_TRANSPORT_REASSEMBLY_SET_COUNT :: nat where "LINKG_TRANSPORT_REASSEMBLY_SET_COUNT \<equiv> 64"
abbreviation (input) LINKG_TRANSPORT_REASSEMBLY_WAYS :: nat where "LINKG_TRANSPORT_REASSEMBLY_WAYS \<equiv> 2"
abbreviation (input) LINKG_TRANSPORT_REASSEMBLY_TTL_US :: u64 where "LINKG_TRANSPORT_REASSEMBLY_TTL_US \<equiv> 100000"
abbreviation (input) LINKG_TRANSPORT_REASSEMBLY_GC_INTERVAL_US :: u64 where "LINKG_TRANSPORT_REASSEMBLY_GC_INTERVAL_US \<equiv> 5000"

record linkg_transport_reassembly_entry =
  re_first_packet :: "nat option"
  re_tail_packet :: "nat option"
  re_expires_at_us :: u64
  re_packet_id :: u32
  re_peer_epoch :: u32
  re_type :: u8
  re_traffic_class :: u32
  re_packet_length :: u16
  re_source_node_id :: u8
  re_destination_node_id :: u8
  re_peer_node_id :: u8
  re_received_mask :: u8
  re_valid :: bool

record linkg_transport_reassembly_runtime =
  rr_lock :: mutex
  rr_entries :: "linkg_transport_reassembly_entry list list"
  rr_last_gc_us :: u64
  rr_initialized :: bool

definition reassembly_entry_zero :: linkg_transport_reassembly_entry where
  "reassembly_entry_zero = \<lparr>re_first_packet = None, re_tail_packet = None, re_expires_at_us = 0, re_packet_id = 0,
     re_peer_epoch = 0, re_type = 0, re_traffic_class = 0, re_packet_length = 0, re_source_node_id = 0,
     re_destination_node_id = 0, re_peer_node_id = 0, re_received_mask = 0, re_valid = False\<rparr>"

definition reassembly_zero :: linkg_transport_reassembly_runtime where
  "reassembly_zero = \<lparr>rr_lock = mutex_zero,
     rr_entries = replicate LINKG_TRANSPORT_REASSEMBLY_SET_COUNT
       (replicate LINKG_TRANSPORT_REASSEMBLY_WAYS reassembly_entry_zero),
     rr_last_gc_us = 0, rr_initialized = False\<rparr>"

section \<open>Internal helpers\<close>

definition linkg_transport_reassembly_peer_valid :: "u8 \<Rightarrow> bool" where
  "linkg_transport_reassembly_peer_valid peer_node_id \<longleftrightarrow>
     peer_node_id \<ge> LINKG_RESOURCE_NODE_ID_MIN \<and> peer_node_id \<le> LINKG_RESOURCE_NODE_ID_MAX"

definition linkg_transport_reassembly_set ::
    "u32 \<Rightarrow> u8 \<Rightarrow> u32 \<Rightarrow> linkg_transport_header \<Rightarrow> u32 \<Rightarrow> nat" where
  "linkg_transport_reassembly_set traffic_class peer_node_id peer_epoch header packet_id =
     unat (fragment_hash traffic_class peer_node_id peer_epoch header packet_id AND
       (of_nat LINKG_TRANSPORT_REASSEMBLY_SET_COUNT - 1))"

definition linkg_transport_reassembly_match ::
    "u32 \<Rightarrow> u8 \<Rightarrow> u32 \<Rightarrow> linkg_transport_header \<Rightarrow> linkg_transport_fragment_header \<Rightarrow> linkg_transport_reassembly_entry \<Rightarrow> bool" where
  "linkg_transport_reassembly_match traffic_class peer_node_id peer_epoch header fragment_header entry =
     (if \<not> re_valid entry then False
      else re_traffic_class entry = traffic_class \<and> re_peer_node_id entry = peer_node_id \<and>
           re_peer_epoch entry = peer_epoch \<and> re_source_node_id entry = th_source_node_id header \<and>
           re_destination_node_id entry = th_destination_node_id header \<and> re_type entry = th_type header \<and>
           re_packet_id entry = fh_packet_id fragment_header)"

definition linkg_transport_reassembly_expired :: "u64 \<Rightarrow> linkg_transport_reassembly_entry \<Rightarrow> bool" where
  "linkg_transport_reassembly_expired now_us entry \<longleftrightarrow> re_valid entry \<and> re_expires_at_us entry \<le> now_us"

text \<open>The packets an entry gives back when it is cleared; the entry itself becomes zero.\<close>

definition linkg_transport_reassembly_entry_clear :: "linkg_transport_reassembly_entry \<Rightarrow> heap \<Rightarrow> heap" where
  "linkg_transport_reassembly_entry_clear entry h =
     linkg_packet_release (re_tail_packet entry) (linkg_packet_release (re_first_packet entry) h)"

text \<open>The lock and unlock around the addition are not checked.\<close>

definition linkg_transport_reassembly_record_reset :: "u64 \<Rightarrow> linkg_transport_context \<Rightarrow> linkg_transport_context" where
  "linkg_transport_reassembly_record_reset frames c =
     (if frames = 0 then c
      else c\<lparr>tc_stats := (tc_stats c)\<lparr>gs_reassembly_reset_frames := gs_reassembly_reset_frames (tc_stats c) + frames\<rparr>\<rparr>)"

definition linkg_transport_reassembly_gc_locked ::
    "u64 \<Rightarrow> linkg_transport_reassembly_runtime \<Rightarrow> heap \<Rightarrow> linkg_transport_reassembly_runtime \<times> heap" where
  "linkg_transport_reassembly_gc_locked now_us rt h =
     (if rr_last_gc_us rt \<noteq> 0 \<and> now_us - rr_last_gc_us rt < LINKG_TRANSPORT_REASSEMBLY_GC_INTERVAL_US then (rt, h)
      else
        (let (entries, h1) = set_sweep (linkg_transport_reassembly_expired now_us) linkg_transport_reassembly_entry_clear
               reassembly_entry_zero (rr_entries rt) h
         in (rt\<lparr>rr_entries := entries, rr_last_gc_us := now_us\<rparr>, h1)))"

definition linkg_transport_reassembly_fragment_bit :: "u16 \<Rightarrow> u8" where
  "linkg_transport_reassembly_fragment_bit fragment_offset =
     (if fragment_offset = 0 then LINKG_TRANSPORT_REASSEMBLY_FRAGMENT_FIRST else LINKG_TRANSPORT_REASSEMBLY_FRAGMENT_SECOND)"

definition linkg_transport_reassembly_fragment_length :: "u16 \<Rightarrow> u16 \<Rightarrow> nat \<Rightarrow> heap \<Rightarrow> int + u32" where
  "linkg_transport_reassembly_fragment_length fragment_offset packet_length packet h =
     (if pk_pool (pk_at h packet) = None \<or> pk_slot (pk_at h packet) = None then Inl (- EINVAL)
      else if ucast packet_length \<le> LINKG_TRANSPORT_PAYLOAD_MAX_SIZE \<or>
              ucast packet_length > LINKG_TRANSPORT_PACKET_MAX_SIZE then Inl (- EPROTO)
      else if pk_data_length (pk_at h packet) < LINKG_TRANSPORT_WIRE_HEADER_MAX_SIZE + 1 then Inl (- EMSGSIZE)
      else
        (let len = pk_data_length (pk_at h packet) - LINKG_TRANSPORT_WIRE_HEADER_MAX_SIZE in
         if fragment_offset = 0
         then (if len \<noteq> LINKG_TRANSPORT_FRAGMENT_PAYLOAD_MAX_SIZE then Inl (- EPROTO) else Inr len)
         else if ucast fragment_offset \<noteq> LINKG_TRANSPORT_FRAGMENT_PAYLOAD_MAX_SIZE \<or>
                 len \<noteq> ucast packet_length - LINKG_TRANSPORT_FRAGMENT_PAYLOAD_MAX_SIZE
         then Inl (- EPROTO) else Inr len))"

definition linkg_transport_reassembly_store_first ::
    "nat \<Rightarrow> linkg_transport_reassembly_entry \<times> heap \<Rightarrow> int \<times> linkg_transport_reassembly_entry \<times> heap" where
  "linkg_transport_reassembly_store_first packet = (\<lambda>(entry, h).
     (if pk_pool (pk_at h packet) = None \<or> pk_slot (pk_at h packet) = None then (- EINVAL, entry, h)
      else case linkg_transport_reassembly_fragment_length 0 (re_packet_length entry) packet h of
        Inl ret \<Rightarrow> (ret, entry, h)
      | Inr fragment_length \<Rightarrow>
          (let slot_size = pool_slot_size h packet; data_offset = pk_data_offset (pk_at h packet);
               payload_offset = data_offset + LINKG_TRANSPORT_WIRE_HEADER_MAX_SIZE in
           if data_offset > slot_size \<or> LINKG_TRANSPORT_WIRE_HEADER_MAX_SIZE > slot_size - data_offset then (- ENOBUFS, entry, h)
           else if ucast (re_packet_length entry) > slot_size - payload_offset then (- ENOBUFS, entry, h)
           else
             (let h1 = linkg_packet_retain (Some packet) h;
                  (data, h2) = linkg_packet_pull (Some packet) LINKG_TRANSPORT_WIRE_HEADER_MAX_SIZE h1 in
              if data = None then (- EMSGSIZE, entry, linkg_packet_release (Some packet) h2)
              else if pk_data_length (pk_at h2 packet) \<noteq> fragment_length
              then (- EPROTO, entry, linkg_packet_release (Some packet) h2)
              else (0, entry\<lparr>re_first_packet := Some packet,
                     re_received_mask := re_received_mask entry OR LINKG_TRANSPORT_REASSEMBLY_FRAGMENT_FIRST\<rparr>, h2)))))"

definition linkg_transport_reassembly_store_tail ::
    "nat \<Rightarrow> linkg_transport_reassembly_entry \<times> heap \<Rightarrow> int \<times> linkg_transport_reassembly_entry \<times> heap" where
  "linkg_transport_reassembly_store_tail packet = (\<lambda>(entry, h).
     (case linkg_transport_reassembly_fragment_length (ucast LINKG_TRANSPORT_FRAGMENT_PAYLOAD_MAX_SIZE)
             (re_packet_length entry) packet h of
        Inl ret \<Rightarrow> (ret, entry, h)
      | Inr _ \<Rightarrow> (0, entry\<lparr>re_tail_packet := Some packet,
            re_received_mask := re_received_mask entry OR LINKG_TRANSPORT_REASSEMBLY_FRAGMENT_SECOND\<rparr>,
          linkg_packet_retain (Some packet) h)))"

definition linkg_transport_reassembly_append_tail ::
    "nat \<Rightarrow> linkg_transport_reassembly_entry \<times> heap \<Rightarrow> int \<times> linkg_transport_reassembly_entry \<times> heap" where
  "linkg_transport_reassembly_append_tail tail_packet = (\<lambda>(entry, h).
     (case re_first_packet entry of
        None \<Rightarrow> (- EINVAL, entry, h)
      | Some first_packet \<Rightarrow>
         (if pk_pool (pk_at h tail_packet) = None \<or> pk_slot (pk_at h tail_packet) = None then (- EINVAL, entry, h)
          else if pk_pool (pk_at h first_packet) = None \<or> pk_slot (pk_at h first_packet) = None \<or>
                  pk_data_length (pk_at h first_packet) \<noteq> LINKG_TRANSPORT_FRAGMENT_PAYLOAD_MAX_SIZE then (- EPROTO, entry, h)
          else case linkg_transport_reassembly_fragment_length (ucast LINKG_TRANSPORT_FRAGMENT_PAYLOAD_MAX_SIZE)
                      (re_packet_length entry) tail_packet h of
            Inl ret \<Rightarrow> (ret, entry, h)
          | Inr tail_length \<Rightarrow>
              (let slot_size = pool_slot_size h first_packet; data_offset = pk_data_offset (pk_at h first_packet) in
               if data_offset > slot_size \<or> ucast (re_packet_length entry) > slot_size - data_offset then (- ENOBUFS, entry, h)
               else
                 (let source_data = the (linkg_packet_data tail_packet h) + unat LINKG_TRANSPORT_WIRE_HEADER_MAX_SIZE;
                      destination_data = the (linkg_packet_data first_packet h) + unat LINKG_TRANSPORT_FRAGMENT_PAYLOAD_MAX_SIZE;
                      h1 = h\<lparr>byte_at := mem_write destination_data
                             (mem_read (byte_at h) source_data (unat tail_length)) (byte_at h)\<rparr>
                  in (0, entry\<lparr>re_received_mask := re_received_mask entry OR LINKG_TRANSPORT_REASSEMBLY_FRAGMENT_SECOND\<rparr>,
                      upd_pk first_packet (\<lambda>k. k\<lparr>pk_data_length := ucast (re_packet_length entry)\<rparr>) h1))))))"

text \<open>The fields of a new entry, before its fragment is stored.\<close>

definition reassembly_fresh ::
    "u32 \<Rightarrow> u8 \<Rightarrow> u32 \<Rightarrow> linkg_transport_header \<Rightarrow> linkg_transport_fragment_header \<Rightarrow> u64 \<Rightarrow> linkg_transport_reassembly_entry" where
  "reassembly_fresh traffic_class peer_node_id peer_epoch header fragment_header now_us =
     reassembly_entry_zero\<lparr>re_expires_at_us := now_us + LINKG_TRANSPORT_REASSEMBLY_TTL_US,
       re_packet_id := fh_packet_id fragment_header, re_peer_epoch := peer_epoch, re_type := th_type header,
       re_traffic_class := traffic_class, re_packet_length := fh_packet_length fragment_header,
       re_source_node_id := th_source_node_id header, re_destination_node_id := th_destination_node_id header,
       re_peer_node_id := peer_node_id, re_valid := True\<rparr>"

definition linkg_transport_reassembly_create_entry_locked ::
    "u32 \<Rightarrow> u8 \<Rightarrow> u32 \<Rightarrow> linkg_transport_header \<Rightarrow> linkg_transport_fragment_header \<Rightarrow> nat \<Rightarrow> u64 \<Rightarrow>
     linkg_transport_reassembly_entry \<times> heap \<Rightarrow> int \<times> linkg_transport_reassembly_entry \<times> heap" where
  "linkg_transport_reassembly_create_entry_locked traffic_class peer_node_id peer_epoch header fragment_header packet now_us =
     (\<lambda>(entry, h).
     (case linkg_transport_reassembly_fragment_length (fh_fragment_offset fragment_header)
             (fh_packet_length fragment_header) packet h of
        Inl ret \<Rightarrow> (ret, entry, h)
      | Inr _ \<Rightarrow>
         (let entry = reassembly_fresh traffic_class peer_node_id peer_epoch header fragment_header now_us;
              (ret, entry1, h1) = (if fh_fragment_offset fragment_header = 0
                 then linkg_transport_reassembly_store_first packet (entry, h)
                 else linkg_transport_reassembly_store_tail packet (entry, h))
          in if ret \<noteq> 0 then (ret, reassembly_entry_zero, linkg_transport_reassembly_entry_clear entry1 h1)
             else (0, entry1, h1))))"

definition linkg_transport_reassembly_complete ::
    "linkg_transport_reassembly_entry \<times> heap \<Rightarrow> int \<times> nat option \<times> linkg_transport_reassembly_entry \<times> heap" where
  "linkg_transport_reassembly_complete = (\<lambda>(entry, h).
     (case re_first_packet entry of
        None \<Rightarrow> (- EINVAL, None, entry, h)
      | Some result_packet \<Rightarrow>
         (if re_received_mask entry \<noteq> LINKG_TRANSPORT_REASSEMBLY_FRAGMENT_ALL then (- EINVAL, None, entry, h)
          else
            (let h1 = linkg_packet_release (re_tail_packet entry) h
             in (1, Some result_packet, reassembly_entry_zero,
                 upd_pk result_packet (\<lambda>k. k\<lparr>pk_data_length := ucast (re_packet_length entry)\<rparr>) h1)))))"

section \<open>Submission\<close>

definition reassembly_ways ::
    "u32 \<Rightarrow> u8 \<Rightarrow> u32 \<Rightarrow> linkg_transport_header \<Rightarrow> linkg_transport_fragment_header \<Rightarrow> u64 \<Rightarrow>
     (linkg_transport_reassembly_entry, heap) way_ops" where
  "reassembly_ways traffic_class peer_node_id peer_epoch header fragment_header now_us =
     \<lparr>wo_expired = linkg_transport_reassembly_expired now_us, wo_drop = linkg_transport_reassembly_entry_clear,
      wo_zero = reassembly_entry_zero,
      wo_match = linkg_transport_reassembly_match traffic_class peer_node_id peer_epoch header fragment_header,
      wo_valid = re_valid, wo_expires = re_expires_at_us\<rparr>"

text \<open>The part of the submission that works on the matching way.\<close>

definition reassembly_join ::
    "linkg_transport_fragment_header \<Rightarrow> nat \<Rightarrow> linkg_transport_reassembly_entry \<times> heap \<Rightarrow>
     int \<times> nat option \<times> linkg_transport_reassembly_entry \<times> heap" where
  "reassembly_join fragment_header packet = (\<lambda>(entry, h).
     (let fragment_bit = linkg_transport_reassembly_fragment_bit (fh_fragment_offset fragment_header);
          fail = (\<lambda>ret entry h. (ret, None, reassembly_entry_zero, linkg_transport_reassembly_entry_clear entry h)) in
      if re_packet_length entry \<noteq> fh_packet_length fragment_header then fail (- EPROTO) entry h
      else if re_received_mask entry AND fragment_bit \<noteq> 0 then (0, None, entry, h)
      else if re_received_mask entry \<noteq> LINKG_TRANSPORT_REASSEMBLY_FRAGMENT_ALL XOR fragment_bit then fail (- EPROTO) entry h
      else if fh_fragment_offset fragment_header = 0 \<and> (re_first_packet entry \<noteq> None \<or> re_tail_packet entry = None)
      then fail (- EPROTO) entry h
      else if fh_fragment_offset fragment_header \<noteq> 0 \<and> (re_first_packet entry = None \<or> re_tail_packet entry \<noteq> None)
      then fail (- EPROTO) entry h
      else
        (let (ret, entry1, h1) =
           (if fh_fragment_offset fragment_header = 0
            then (let (ret, entry0, h0) = linkg_transport_reassembly_store_first packet (entry, h)
                  in if ret = 0 then linkg_transport_reassembly_append_tail (the (re_tail_packet entry0)) (entry0, h0)
                     else (ret, entry0, h0))
            else linkg_transport_reassembly_append_tail packet (entry, h))
         in if ret \<noteq> 0 then fail ret entry1 h1 else linkg_transport_reassembly_complete (entry1, h1))))"

text \<open>The result is the return code, \<open>*completed_packet\<close>, the cache and the heap.\<close>

definition linkg_transport_reassembly_submit_locked ::
    "u32 \<Rightarrow> u8 \<Rightarrow> u32 \<Rightarrow> linkg_transport_header option \<Rightarrow> linkg_transport_fragment_header option \<Rightarrow> nat option \<Rightarrow> u64 \<Rightarrow>
     linkg_transport_reassembly_runtime \<Rightarrow> heap \<Rightarrow> int \<times> nat option \<times> linkg_transport_reassembly_runtime \<times> heap" where
  "linkg_transport_reassembly_submit_locked traffic_class peer_node_id peer_epoch header fragment_header packet now_us rt h =
     (case (header, fragment_header, packet) of
        (Some hdr, Some fh, Some p) \<Rightarrow>
         (if \<not> linkg_transport_class_valid traffic_class \<or> \<not> linkg_transport_reassembly_peer_valid peer_node_id
          then (- EINVAL, None, rt, h)
          else if th_flags hdr AND LINKG_TRANSPORT_FLAG_FRAGMENT = 0 then (- EINVAL, None, rt, h)
          else case linkg_transport_reassembly_fragment_length (fh_fragment_offset fh) (fh_packet_length fh) p h of
            Inl ret \<Rightarrow> (ret, None, rt, h)
          | Inr _ \<Rightarrow>
             (let idx = linkg_transport_reassembly_set traffic_class peer_node_id peer_epoch hdr (fh_packet_id fh);
                  (found, free_way, oldest, row, h1) =
                    way_scan (reassembly_ways traffic_class peer_node_id peer_epoch hdr fh now_us) 0
                      (rr_entries rt ! idx) None None h;
                  put = (\<lambda>row. rt\<lparr>rr_entries := (rr_entries rt)[idx := row]\<rparr>)
              in case found of
                   Some w \<Rightarrow>
                     (let (ret, completed, entry, h2) = reassembly_join fh p (row ! w, h1)
                      in (ret, completed, put (row[w := entry]), h2))
                 | None \<Rightarrow>
                     (case (case free_way of Some w \<Rightarrow> Some w | None \<Rightarrow> map_option fst oldest) of
                        None \<Rightarrow> (- ENOSPC, None, put row, h1)
                      | Some w \<Rightarrow>
                          (let (entry, h2) = (if re_valid (row ! w)
                                 then (reassembly_entry_zero, linkg_transport_reassembly_entry_clear (row ! w) h1)
                                 else (row ! w, h1));
                               (ret, entry1, h3) = linkg_transport_reassembly_create_entry_locked traffic_class peer_node_id
                                 peer_epoch hdr fh p now_us (entry, h2)
                           in (ret, None, put (row[w := entry1]), h3)))))
      | _ \<Rightarrow> (- EINVAL, None, rt, h))"

section \<open>Life cycle\<close>

definition linkg_transport_reassembly_runtime_init ::
    "int \<Rightarrow> mutex \<Rightarrow> linkg_transport_reassembly_runtime \<Rightarrow> int \<times> linkg_transport_reassembly_runtime" where
  "linkg_transport_reassembly_runtime_init mutex_init lock rt =
     (if rr_initialized rt then (- EALREADY, rt)
      else if mutex_init \<noteq> 0 then (- mutex_init, reassembly_zero)
      else (0, reassembly_zero\<lparr>rr_lock := lock, rr_initialized := True\<rparr>))"

definition linkg_transport_reassembly_runtime_deinit ::
    "linkg_transport_reassembly_runtime \<Rightarrow> heap \<Rightarrow> int \<times> linkg_transport_reassembly_runtime \<times> heap" where
  "linkg_transport_reassembly_runtime_deinit rt h =
     (if \<not> rr_initialized rt then (0, rt, h)
      else if mx_lock (rr_lock rt) \<noteq> 0 then (- mx_lock (rr_lock rt), rt, h)
      else
        (let (entries, h1) = set_sweep (\<lambda>_. True) linkg_transport_reassembly_entry_clear reassembly_entry_zero (rr_entries rt) h;
             rt1 = rt\<lparr>rr_entries := entries\<rparr> in
         if mx_unlock (rr_lock rt) \<noteq> 0 then (- mx_unlock (rr_lock rt), rt1, h1)
         else if mx_destroy (rr_lock rt) \<noteq> 0 then (- mx_destroy (rr_lock rt), rt1, h1)
         else (0, reassembly_zero, h1)))"

definition reset_peer_frames :: "u8 \<Rightarrow> linkg_transport_reassembly_entry list \<Rightarrow> u64" where
  "reset_peer_frames peer_node_id entries =
     fold (\<lambda>entry frames. if re_valid entry \<and> re_peer_node_id entry = peer_node_id
             then frames + (if re_first_packet entry \<noteq> None then 1 else 0) + (if re_tail_packet entry \<noteq> None then 1 else 0)
             else frames) entries 0"

definition linkg_transport_reassembly_reset_peer ::
    "u8 \<Rightarrow> linkg_transport_reassembly_runtime \<Rightarrow> linkg_transport_context \<Rightarrow> heap \<Rightarrow>
     int \<times> linkg_transport_reassembly_runtime \<times> linkg_transport_context \<times> heap" where
  "linkg_transport_reassembly_reset_peer peer_node_id rt c h =
     (if \<not> linkg_transport_reassembly_peer_valid peer_node_id then (- EINVAL, rt, c, h)
      else if \<not> rr_initialized rt then (0, rt, c, h)
      else if mx_lock (rr_lock rt) \<noteq> 0 then (- mx_lock (rr_lock rt), rt, c, h)
      else
        (let reset_frames = reset_peer_frames peer_node_id (concat (rr_entries rt));
             (entries, h1) = set_sweep (\<lambda>entry. re_valid entry \<and> re_peer_node_id entry = peer_node_id)
               linkg_transport_reassembly_entry_clear reassembly_entry_zero (rr_entries rt) h;
             rt1 = rt\<lparr>rr_entries := entries\<rparr> in
         if mx_unlock (rr_lock rt) \<noteq> 0 then (- mx_unlock (rr_lock rt), rt1, c, h1)
         else (0, rt1, linkg_transport_reassembly_record_reset reset_frames c, h1)))"

section \<open>Batches\<close>

text \<open>One item; the peer is what the epoch check of this item sees at its slot.\<close>

record linkg_transport_reassembly_submit_item =
  si_header :: "linkg_transport_header option"
  si_fragment_header :: "linkg_transport_fragment_header option"
  si_packet :: "nat option"
  si_peer :: "linkg_transport_peer option"
  si_peer_epoch :: u32
  si_traffic_class :: u32
  si_peer_node_id :: u8

fun submit_batch_loop ::
    "linkg_transport_reassembly_submit_item list \<Rightarrow> u64 \<Rightarrow> linkg_transport_reassembly_runtime \<Rightarrow> heap \<Rightarrow>
     (int \<times> nat option) list \<times> linkg_transport_reassembly_runtime \<times> heap" where
  "submit_batch_loop [] now_us rt h = ([], rt, h)"
| "submit_batch_loop (item # items) now_us rt h =
     (let (result, completed, rt1, h1) =
        (if si_peer item = None then (- EINVAL, None, rt, h)
         else if \<not> linkg_transport_peer_epoch_matches (si_peer item) (si_peer_epoch item) then (- ESTALE, None, rt, h)
         else linkg_transport_reassembly_submit_locked (si_traffic_class item) (si_peer_node_id item) (si_peer_epoch item)
                (si_header item) (si_fragment_header item) (si_packet item) now_us rt h);
          (results, rt2, h2) = submit_batch_loop items now_us rt1 h1
      in ((result, completed) # results, rt2, h2))"

text \<open>The return code and, per item, its \<open>result\<close> and \<open>completed_packet\<close>.\<close>

definition linkg_transport_reassembly_submit_batch ::
    "linkg_transport_reassembly_submit_item list option \<Rightarrow> u64 \<Rightarrow> linkg_transport_reassembly_runtime \<Rightarrow> heap \<Rightarrow>
     int \<times> (int \<times> nat option) list \<times> linkg_transport_reassembly_runtime \<times> heap" where
  "linkg_transport_reassembly_submit_batch items now_us rt h =
     (case items of
        None \<Rightarrow> (- EINVAL, [], rt, h)
      | Some its \<Rightarrow>
         (if its = [] then (- EINVAL, [], rt, h)
          else if \<not> rr_initialized rt then (- ENODEV, [], rt, h)
          else if mx_lock (rr_lock rt) \<noteq> 0
          then (- mx_lock (rr_lock rt), replicate (length its) (- EINPROGRESS, None), rt, h)
          else
            (let (rt1, h1) = linkg_transport_reassembly_gc_locked now_us rt h;
                 (results, rt2, h2) = submit_batch_loop its now_us rt1 h1
             in (if mx_unlock (rr_lock rt) = 0 then 0 else - mx_unlock (rr_lock rt), results, rt2, h2))))"

section \<open>Entries\<close>

definition reassembly_holds :: "linkg_transport_reassembly_entry \<Rightarrow> nat \<Rightarrow> nat" where
  "reassembly_holds e p = (if re_first_packet e = Some p then 1 else 0) + (if re_tail_packet e = Some p then 1 else 0)"

lemma entry_clear_effect:
  assumes "heap_ok h" "\<And>p. reassembly_holds e p \<le> refs h p"
  shows "heap_ok (linkg_transport_reassembly_entry_clear e h) \<and>
    (\<forall>p. refs (linkg_transport_reassembly_entry_clear e h) p = refs h p - reassembly_holds e p) \<and>
    (\<forall>p. 0 < refs (linkg_transport_reassembly_entry_clear e h) p \<longrightarrow>
       packet_view (linkg_transport_reassembly_entry_clear e h) p = packet_view h p)"
proof -
  let ?h1 = "linkg_packet_release (re_first_packet e) h"
  have le: "reassembly_holds e p \<le> refs h p" for p by (rule assms(2))
  have fr: "0 < refs h p" if "re_first_packet e = Some p" for p
    using le [of p] that by (simp add: reassembly_holds_def split: if_splits)
  have 1: "heap_ok ?h1 \<and> (\<forall>x. refs ?h1 x = refs h x - (if re_first_packet e = Some x then 1 else 0)) \<and>
    (\<forall>x. 0 < refs ?h1 x \<longrightarrow> packet_view ?h1 x = packet_view h x)"
    by (rule release_option [OF assms(1)]) (rule fr)
  have t: "0 < refs ?h1 p" if "re_tail_packet e = Some p" for p
    using 1 le [of p] that by (auto simp: reassembly_holds_def split: if_splits)
  have 2: "heap_ok (linkg_packet_release (re_tail_packet e) ?h1) \<and>
    (\<forall>x. refs (linkg_packet_release (re_tail_packet e) ?h1) x = refs ?h1 x - (if re_tail_packet e = Some x then 1 else 0)) \<and>
    (\<forall>x. 0 < refs (linkg_packet_release (re_tail_packet e) ?h1) x \<longrightarrow>
      packet_view (linkg_packet_release (re_tail_packet e) ?h1) x = packet_view ?h1 x)"
    by (rule release_option) (use 1 t in auto)
  show ?thesis
    using 1 2 by (auto simp: linkg_transport_reassembly_entry_clear_def reassembly_holds_def split: if_splits)
qed

interpretation reasm: fragment_cache linkg_transport_reassembly_entry_clear reassembly_entry_zero reassembly_holds
    refs heap_ok packet_view
  by unfold_locales (use entry_clear_effect in \<open>auto simp: reassembly_holds_def reassembly_entry_zero_def\<close>)

text \<open>A well-formed entry: empty, or one of the two fragments as it was stored.\<close>

definition entry_ok :: "heap \<Rightarrow> linkg_transport_reassembly_entry \<Rightarrow> bool" where
  "entry_ok h e \<longleftrightarrow>
     (if \<not> re_valid e then re_first_packet e = None \<and> re_tail_packet e = None
      else 1428 < unat (re_packet_length e) \<and> unat (re_packet_length e) \<le> 1500 \<and>
        (case (re_first_packet e, re_tail_packet e) of
           (Some f, None) \<Rightarrow> re_received_mask e = LINKG_TRANSPORT_REASSEMBLY_FRAGMENT_FIRST \<and>
             pk_data_length (pk_at h f) = LINKG_TRANSPORT_FRAGMENT_PAYLOAD_MAX_SIZE \<and>
             unat (pk_data_offset (pk_at h f)) + unat (re_packet_length e) \<le> unat (pool_slot_size h f)
         | (None, Some t) \<Rightarrow> re_received_mask e = LINKG_TRANSPORT_REASSEMBLY_FRAGMENT_SECOND \<and>
             unat (pk_data_length (pk_at h t)) = unat (re_packet_length e) - 1420 + 24
         | _ \<Rightarrow> False))"

definition entry_key :: "linkg_transport_reassembly_entry \<Rightarrow> fragment_key" where
  "entry_key e = (re_traffic_class e, re_peer_node_id e, re_peer_epoch e, re_source_node_id e, re_destination_node_id e,
     re_type e, re_packet_id e)"

text \<open>What was submitted: key, length of the whole packet, offset and payload of the fragment.\<close>

type_synonym fragment_log = "(fragment_key \<times> u16 \<times> u16 \<times> u8 list) list"

definition entry_genuine :: "fragment_log \<Rightarrow> heap \<Rightarrow> linkg_transport_reassembly_entry \<Rightarrow> bool" where
  "entry_genuine log h e \<longleftrightarrow> (re_valid e \<longrightarrow>
     (\<forall>f. re_first_packet e = Some f \<longrightarrow> (entry_key e, re_packet_length e, 0, packet_bytes h f) \<in> set log) \<and>
     (\<forall>t. re_tail_packet e = Some t \<longrightarrow> (entry_key e, re_packet_length e, 1420, drop 24 (packet_bytes h t)) \<in> set log))"

definition entry_inv :: "fragment_log \<Rightarrow> heap \<Rightarrow> linkg_transport_reassembly_entry \<Rightarrow> bool" where
  "entry_inv log h e \<longleftrightarrow> entry_ok h e \<and> entry_genuine log h e"

lemma entry_zero_inv [simp]: "entry_inv log h reassembly_entry_zero"
  by (simp add: entry_inv_def entry_ok_def entry_genuine_def reassembly_entry_zero_def)

lemma entry_inv_frame:
  assumes "entry_inv log h e" "set log \<subseteq> set log'" "\<And>x. 0 < reassembly_holds e x \<Longrightarrow> packet_view h' x = packet_view h x"
  shows "entry_inv log' h' e"
proof -
  have f: "packet_view h' x = packet_view h x" if "re_first_packet e = Some x" for x
    using assms(3) [of x] that by (simp add: reassembly_holds_def)
  have t: "packet_view h' x = packet_view h x" if "re_tail_packet e = Some x" for x
    using assms(3) [of x] that by (simp add: reassembly_holds_def)
  have "entry_ok h' e" using assms(1) packet_viewD [OF f] packet_viewD [OF t]
    by (auto simp: entry_inv_def entry_ok_def split: option.splits)
  moreover have "entry_genuine log' h' e" using assms(1,2) packet_viewD(5) [OF f] packet_viewD(5) [OF t]
    by (auto simp: entry_inv_def entry_genuine_def)
  ultimately show ?thesis by (simp add: entry_inv_def)
qed

section \<open>Moving the payload\<close>

lemma slot_size_managed: "managed h p \<Longrightarrow> pool_slot_size h p = pl_slot_size (pool_at h (the (pk_pool (pk_at h p))))"
  by (auto simp: managed_def pool_slot_size_def split: option.splits)

lemma packet_fits: "heap_ok h \<Longrightarrow> managed h p \<Longrightarrow>
  unat (pk_data_offset (pk_at h p)) + unat (pk_data_length (pk_at h p)) \<le> unat (pool_slot_size h p)"
  by (elim managed_pool) (auto simp: packet_in_slot_def pool_slot_size_def)

text \<open>The header of a fragment is pulled off.\<close>

lemma pull_effect:
  assumes "heap_ok h" "managed h p" "n \<le> pk_data_length (pk_at h p)"
    and "linkg_packet_pull (Some p) n h = (d, h')"
  shows "d \<noteq> None \<and> heap_ok h' \<and> refs h' = refs h \<and> packet_bytes h' p = drop (unat n) (packet_bytes h p) \<and>
    pk_data_length (pk_at h' p) = pk_data_length (pk_at h p) - n \<and>
    unat (pk_data_offset (pk_at h' p)) = unat (pk_data_offset (pk_at h p)) + unat n \<and>
    pool_slot_size h' p = pool_slot_size h p \<and> managed h' p \<and> (\<forall>x. x \<noteq> p \<longrightarrow> packet_view h' x = packet_view h x) \<and>
    (\<forall>x. managed h' x = managed h x)"
proof -
  obtain q where q: "pk_pool (pk_at h p) = Some q" "pl_initialized (pool_at h q)" "p \<in> pool_packets (pool_at h q)"
    "pk_slot (pk_at h p) = Some (slot_addr (pool_at h q) p)" "packet_in_slot (pool_at h q) (pk_at h p)"
    using managed_pool [OF assms(1,2)] by metis
  have h': "h' = upd_pk p (\<lambda>k. k\<lparr>pk_data_offset := pk_data_offset k + n, pk_data_length := pk_data_length k - n\<rparr>) h"
    and d: "d = linkg_packet_data p h'"
    using assms(3,4) q(4) by (auto simp: linkg_packet_pull_def Let_def split: if_splits)
  have len: "unat (pk_data_length (pk_at h p) - n) = unat (pk_data_length (pk_at h p)) - unat n"
    using assms(3) by (rule unat_sub_le)
  have "unat (pk_data_offset (pk_at h p)) + unat n \<le> unat (pl_slot_size (pool_at h q))"
    using q(5) assms(3) by (simp add: packet_in_slot_def word_le_nat_alt)
  moreover have "unat (pl_slot_size (pool_at h q)) < 2 ^ 32" using unsigned_less [of "pl_slot_size (pool_at h q)"] by simp
  ultimately have off: "unat (pk_data_offset (pk_at h p) + n) = unat (pk_data_offset (pk_at h p)) + unat n"
    by (subst unat_add_lem [THEN iffD1]) auto
  have slot: "packet_in_slot (pool_at h q) (pk_at h' p)"
    using q(5) assms(3) len off by (simp add: packet_in_slot_def h' word_le_nat_alt)
  have "heap_ok h'"
  proof (rule heap_ok_frame [OF assms(1)])
    fix r x assume x: "pl_initialized (pool_at h r)" "x \<in> pool_packets (pool_at h r)"
    note ok = pool_okD(4,6) [OF heap_okD [OF assms(1) x(1)] x(2)]
    show "pk_pool (pk_at h' x) = pk_pool (pk_at h x) \<and> pk_slot (pk_at h' x) = pk_slot (pk_at h x) \<and>
      packet_in_slot (pool_at h r) (pk_at h' x) \<and>
      (pk_reference_count (pk_at h' x) = 0 \<longleftrightarrow> pk_reference_count (pk_at h x) = 0)"
      using ok slot q(1) by (cases "x = p") (auto simp: h')
  qed (simp add: h')
  moreover have "refs h' = refs h" "managed h' x = managed h x" for x
    by (auto simp: h' refs_def managed_def fun_eq_iff split: option.split)
  moreover have "packet_view h' x = packet_view h x" if "x \<noteq> p" for x
    using that by (intro packet_view_fields [where r = "pk_reference_count (pk_at h x)"]) (simp_all add: h')
  moreover have "packet_bytes h' p = drop (unat n) (packet_bytes h p)"
    using q(4) len off by (simp add: packet_bytes_def linkg_packet_data_def h' drop_mem_read algebra_simps)
  ultimately show ?thesis using q assms(2) off by (simp add: d linkg_packet_data_def h' pool_slot_size_def)
qed

text \<open>The payload of the tail is copied behind the payload of the first fragment.\<close>

lemma append_effect:
  assumes "heap_ok h" "managed h f" "managed h t" "f \<noteq> t"
    and len: "unat (pk_data_length (pk_at h f)) = m" "unat (pk_data_length (pk_at h t)) = k + n" "unat l = m + n"
    and fit: "unat (pk_data_offset (pk_at h f)) + (m + n) \<le> unat (pool_slot_size h f)"
    and h': "h' = upd_pk f (\<lambda>x. x\<lparr>pk_data_length := l\<rparr>) (h\<lparr>byte_at := mem_write (the (linkg_packet_data f h) + m)
        (mem_read (byte_at h) (the (linkg_packet_data t h) + k) n) (byte_at h)\<rparr>)"
  shows "heap_ok h' \<and> refs h' = refs h \<and> packet_bytes h' f = packet_bytes h f @ drop k (packet_bytes h t) \<and>
    (\<forall>x. x \<noteq> f \<longrightarrow> managed h x \<longrightarrow> packet_view h' x = packet_view h x) \<and> (\<forall>x. managed h' x = managed h x)"
proof -
  obtain q where q: "pk_pool (pk_at h f) = Some q" "pk_slot (pk_at h f) = Some (slot_addr (pool_at h q) f)"
    using managed_pool [OF assms(1,2)] by metis
  define m1 where "m1 = mem_write (the (linkg_packet_data f h) + m)
        (mem_read (byte_at h) (the (linkg_packet_data t h) + k) n) (byte_at h)"
  define h1 where "h1 = h\<lparr>byte_at := m1\<rparr>"
  have h1': "h' = upd_pk f (\<lambda>x. x\<lparr>pk_data_length := l\<rparr>) h1" by (simp add: h' h1_def m1_def)
  have ok1: "heap_ok h1" "managed h1 f" "pk_at h1 = pk_at h" "pool_at h1 = pool_at h" "refs h1 = refs h" "managed h1 = managed h"
    using assms(1,2) by (simp_all add: h1_def)
  have fit': "unat (pk_data_offset (pk_at h1 f)) + unat l \<le> unat (pl_slot_size (pool_at h1 q))"
    using fit len(3) q(1) by (simp add: ok1 pool_slot_size_def)
  have pool1: "pk_pool (pk_at h1 f) = Some q" using q(1) by (simp add: ok1)
  note sl = heap_ok_set_length [OF ok1(1,2) pool1 fit', folded h1']
  obtain a b where a: "linkg_packet_data f h = Some a" and b: "linkg_packet_data t h = Some b"
    using managed_data [OF assms(1,2)] managed_data [OF assms(1,3)] by blast
  have ws: "within_slot h f (a + m) n"
    using fit a q by (auto simp: within_slot_def linkg_packet_data_def pool_slot_size_def)
  have a': "linkg_packet_data f h' = Some a"
    using a by (simp add: linkg_packet_data_def h1' ok1)
  have "packet_bytes h' f = mem_read m1 a (m + n)"
    using len(3) packet_bytes_at [OF a'] by (simp add: h1' h1_def)
  also have "\<dots> = mem_read (byte_at h) a m @ mem_read (byte_at h) (b + k) n"
    by (simp add: mem_read_add m1_def a b mem_read_write_same mem_read_write_other)
  also have "\<dots> = packet_bytes h f @ drop k (packet_bytes h t)"
    using len by (simp add: packet_bytes_at [OF a] packet_bytes_at [OF b] drop_mem_read)
  finally have bytes: "packet_bytes h' f = packet_bytes h f @ drop k (packet_bytes h t)" .
  have "packet_view h' x = packet_view h x" if "x \<noteq> f" "managed h x" for x
  proof -
    have "packet_bytes h' x = packet_bytes h x"
      by (rule packet_bytes_write_other [OF assms(1,2) that(2,1), of "a + m" "mem_read (byte_at h) (b + k) n"])
        (use ws that in \<open>simp_all add: h1' h1_def m1_def a b\<close>)
    then show ?thesis using that(1) by (simp add: packet_view_def h1' ok1 pool_slot_size_def cong: option.case_cong)
  qed
  then show ?thesis using sl bytes ok1(5,6) by simp
qed

section \<open>One entry\<close>

lemma unat_ucast16: "unat (ucast (w :: u16) :: u32) = unat w"
proof -
  have "unat w < 2 ^ 16" using unsigned_less [of w] by simp
  then show ?thesis by (simp add: unsigned_ucast_eq take_bit_nat_eq_self)
qed

lemma fragment_length_ok:
  assumes "linkg_transport_reassembly_fragment_length off plen p h = Inr len"
  shows "1428 < unat plen \<and> unat plen \<le> 1500 \<and> pk_pool (pk_at h p) \<noteq> None \<and> pk_slot (pk_at h p) \<noteq> None \<and>
    (if off = 0 then pk_data_length (pk_at h p) = 1444 \<and> len = 1420
     else off = 1420 \<and> unat (pk_data_length (pk_at h p)) = unat plen - 1420 + 24 \<and> unat len = unat plen - 1420)"
proof -
  have g: "\<not> (ucast plen \<le> (1428 :: u32) \<or> ucast plen > (1500 :: u32))" "\<not> pk_data_length (pk_at h p) < 25"
    "pk_pool (pk_at h p) \<noteq> None" "pk_slot (pk_at h p) \<noteq> None"
    using assms by (auto simp: linkg_transport_reassembly_fragment_length_def Let_def split: if_splits)
  have u: "unat (ucast plen :: u32) = unat plen" by (rule unat_ucast16)
  then have plen: "1428 < unat plen" "unat plen \<le> 1500" using g(1) by (simp_all add: word_le_nat_alt word_less_nat_alt)
  let ?l = "pk_data_length (pk_at h p) - 24"
  have sub: "unat ?l = unat (pk_data_length (pk_at h p)) - 24" "24 \<le> unat (pk_data_length (pk_at h p))"
    using g(2) by (auto simp: word_le_nat_alt word_less_nat_alt unat_sub_le)
  show ?thesis
  proof (cases "off = 0")
    case True
    then have "len = 1420" "?l = 1420"
      using assms g by (auto simp: linkg_transport_reassembly_fragment_length_def Let_def split: if_splits)
    then have "pk_data_length (pk_at h p) = 1444" by (metis add.commute diff_add_cancel numeral_plus_numeral add_num_simps(1-9))
    then show ?thesis using True plen g \<open>len = 1420\<close> by simp
  next
    case False
    then have o: "ucast off = (1420 :: u32)" "?l = ucast plen - 1420" "len = ?l"
      using assms g by (auto simp: linkg_transport_reassembly_fragment_length_def Let_def split: if_splits)
    have "unat off = 1420" using arg_cong [OF o(1), of unat] by (simp add: unat_ucast16)
    then have off: "off = 1420" by (simp add: word_unat_eq_iff)
    have "unat ?l = unat plen - 1420"
      unfolding o(2) using plen u by (subst unat_sub_le) (auto simp: word_le_nat_alt)
    then show ?thesis using plen g off sub o(3) by auto
  qed
qed


text \<open>
  What a submission of packet \<open>p\<close> does to one entry and the heap: the references stay balanced, with one
  more for the packet handed out; nobody else's packet changes; and a packet handed out is made of a first
  and a tail fragment that were submitted under its key.
\<close>

definition entry_step ::
    "fragment_log \<Rightarrow> fragment_key \<Rightarrow> u16 \<Rightarrow> nat \<Rightarrow> linkg_transport_reassembly_entry \<Rightarrow> heap \<Rightarrow>
     nat option \<Rightarrow> linkg_transport_reassembly_entry \<Rightarrow> heap \<Rightarrow> bool" where
  "entry_step log key plen p e h completed e' h' \<longleftrightarrow>
     heap_ok h' \<and> entry_inv log h' e' \<and>
     (\<forall>x. refs h' x + reassembly_holds e x = refs h x + reassembly_holds e' x + (if completed = Some x then 1 else 0)) \<and>
     (\<forall>x. reassembly_holds e' x \<le> reassembly_holds e x + (if x = p then 1 else 0)) \<and>
     (\<forall>x. x \<noteq> p \<longrightarrow> reassembly_holds e x = 0 \<longrightarrow> 0 < refs h' x \<longrightarrow> packet_view h' x = packet_view h x) \<and>
     (\<forall>c. completed = Some c \<longrightarrow> (c = p \<or> 0 < reassembly_holds e c) \<and> (\<exists>A B. (key, plen, 0, A) \<in> set log \<and> (key, plen, 1420, B) \<in> set log \<and>
        packet_bytes h' c = A @ B \<and> length (A @ B) = unat plen))"

lemma entry_clear_step:
  assumes "heap_ok h" "\<And>x. reassembly_holds e x \<le> refs h x"
  shows "entry_step log key plen p e h None reassembly_entry_zero (linkg_transport_reassembly_entry_clear e h)"
  using entry_clear_effect [OF assms] assms(2)
  by (auto simp: entry_step_def reasm.zero_holds)

lemma entry_stay_step:
  "heap_ok h \<Longrightarrow> entry_inv log h e \<Longrightarrow> entry_step log key plen p e h None e h"
  by (simp add: entry_step_def)

text \<open>The submission as the helpers see it: the packet is the caller's and no entry holds it.\<close>

definition submittable :: "linkg_transport_reassembly_entry \<Rightarrow> heap \<Rightarrow> nat \<Rightarrow> bool" where
  "submittable e h p \<longleftrightarrow> heap_ok h \<and> 0 < refs h p \<and> refs h p < 2 ^ 32 - 1 \<and> reassembly_holds e p = 0 \<and>
     (\<forall>x. reassembly_holds e x \<le> refs h x)"

lemma store_first_effect:
  assumes h: "heap_ok h" "0 < refs h p" "refs h p < 2 ^ 32 - 1"
    and fl: "linkg_transport_reassembly_fragment_length 0 (re_packet_length e) p h = Inr len"
    and st: "linkg_transport_reassembly_store_first p (e, h) = (ret, e', h')"
  shows "(ret = - ENOBUFS \<and> e' = e \<and> h' = h \<and>
      unat (pool_slot_size h p) < unat (pk_data_offset (pk_at h p)) + 24 + unat (re_packet_length e)) \<or>
    (ret = 0 \<and> e' = e\<lparr>re_first_packet := Some p, re_received_mask := re_received_mask e OR 1\<rparr> \<and> heap_ok h' \<and>
     (\<forall>x. refs h' x = refs h x + (if x = p then 1 else 0)) \<and> packet_bytes h' p = drop 24 (packet_bytes h p) \<and>
     pk_data_length (pk_at h' p) = 1420 \<and>
     unat (pk_data_offset (pk_at h' p)) + unat (re_packet_length e) \<le> unat (pool_slot_size h' p) \<and>
     unat (pk_data_offset (pk_at h p)) + 24 + unat (re_packet_length e) \<le> unat (pool_slot_size h p) \<and>
     (\<forall>x. x \<noteq> p \<longrightarrow> packet_view h' x = packet_view h x))"
proof -
  note f = fragment_length_ok [OF fl]
  have f0: "pk_data_length (pk_at h p) = 1444" "len = 1420" "unat (re_packet_length e) \<le> 1500" "pk_pool (pk_at h p) \<noteq> None"
    "pk_slot (pk_at h p) \<noteq> None" using f by auto
  define off where "off = pk_data_offset (pk_at h p)"
  define ss where "ss = pool_slot_size h p"
  define h1 where "h1 = linkg_packet_retain (Some p) h"
  obtain d h2 where pull: "linkg_packet_pull (Some p) 24 h1 = (d, h2)" by fastforce
  have ok1: "heap_ok h1" "refs h1 x = (if x = p then refs h p + 1 else refs h x)" for x
    using heap_ok_retain [OF h] refs_retain [OF h(3,2)] by (auto simp: h1_def)
  have v1: "packet_view h1 x = packet_view h x" for x by (simp add: h1_def)
  have m1: "managed h1 p" using ok1(2) [of p] by (intro refs_managed) simp
  have le: "24 \<le> pk_data_length (pk_at h1 p)" using packet_viewD(1) [OF v1] f0(1) by simp
  note pe = pull_effect [OF ok1(1) m1 le pull]
  have len2: "pk_data_length (pk_at h2 p) = 1420" using pe packet_viewD(1) [OF v1] f0(1) by simp
  obtain dv where dv: "d = Some dv" using pe by auto
  have st': "linkg_transport_reassembly_store_first p (e, h) =
    (if off > ss \<or> 24 > ss - off \<or> ucast (re_packet_length e) > ss - (off + 24) then (- ENOBUFS, e, h)
     else (0, e\<lparr>re_first_packet := Some p, re_received_mask := re_received_mask e OR 1\<rparr>, h2))"
    using fl f0 pull len2 dv
    by (simp add: linkg_transport_reassembly_store_first_def Let_def flip: off_def ss_def h1_def)
  show ?thesis
  proof (cases "off > ss \<or> 24 > ss - off \<or> ucast (re_packet_length e) > ss - (off + 24)")
    case True
    have "unat ss < unat off + 24 + unat (re_packet_length e)"
    proof (rule ccontr)
      assume "\<not> ?thesis"
      then have a: "unat off + 24 + unat (re_packet_length e) \<le> unat ss" by simp
      have "unat ss < 2 ^ 32" using unsigned_less [of ss] by simp
      then have o24: "unat (off + 24) = unat off + 24" using a by (subst unat_add_lem [THEN iffD1]) auto
      have "unat (ss - off) = unat ss - unat off" "unat (ss - (off + 24)) = unat ss - (unat off + 24)"
        using a o24 by (auto simp: unat_sub_le word_le_nat_alt)
      then show False using True a by (auto simp: word_less_nat_alt unat_ucast16)
    qed
    then show ?thesis using st True unfolding st' by (auto simp: off_def ss_def)
  next
    case False
    then have res: "ret = 0" "e' = e\<lparr>re_first_packet := Some p, re_received_mask := re_received_mask e OR 1\<rparr>" "h' = h2"
      using st unfolding st' by auto
    have g: "unat off \<le> unat ss" "24 \<le> unat ss - unat off"
      using False unat_sub_le [of off ss] by (auto simp: word_le_nat_alt word_less_nat_alt not_less)
    have "unat ss < 2 ^ 32" using unsigned_less [of ss] by simp
    then have o24: "unat (off + 24) = unat off + 24" using g by (subst unat_add_lem [THEN iffD1]) auto
    have "unat (re_packet_length e) \<le> unat (ss - (off + 24))"
      using False by (simp add: not_less word_le_nat_alt unat_ucast16)
    also have "\<dots> = unat ss - (unat off + 24)"
      using g o24 by (subst unat_sub_le) (auto simp: word_le_nat_alt)
    finally have fit: "unat off + 24 + unat (re_packet_length e) \<le> unat ss" using g by simp
    have "unat (pk_data_offset (pk_at h2 p)) = unat off + 24" "pool_slot_size h2 p = ss"
      using pe packet_viewD(2,6) [OF v1] by (simp_all add: off_def ss_def)
    with fit have fit2: "unat (pk_data_offset (pk_at h2 p)) + unat (re_packet_length e) \<le> unat (pool_slot_size h2 p)" by simp
    have "packet_bytes h2 p = drop 24 (packet_bytes h p)" using pe packet_viewD(5) [OF v1] by simp
    moreover have "refs h2 x = refs h x + (if x = p then 1 else 0)" for x using pe ok1(2) by simp
    moreover have "packet_view h2 x = packet_view h x" if "x \<noteq> p" for x using pe v1 that by simp
    ultimately show ?thesis using res fit2 len2 pe fit unfolding off_def ss_def by blast
  qed
qed


lemma store_tail_effect:
  assumes h: "heap_ok h" "0 < refs h p" "refs h p < 2 ^ 32 - 1"
    and fl: "linkg_transport_reassembly_fragment_length 1420 (re_packet_length e) p h = Inr len"
    and st: "linkg_transport_reassembly_store_tail p (e, h) = (ret, e', h')"
  shows "ret = 0 \<and> e' = e\<lparr>re_tail_packet := Some p, re_received_mask := re_received_mask e OR 2\<rparr> \<and> heap_ok h' \<and>
     (\<forall>x. refs h' x = refs h x + (if x = p then 1 else 0)) \<and> (\<forall>x. packet_view h' x = packet_view h x)"
  using st fl heap_ok_retain [OF h] refs_retain [OF h(3,2)]
  by (auto simp: linkg_transport_reassembly_store_tail_def)

lemma append_tail_effect:
  assumes h: "heap_ok h" "0 < refs h f" "0 < refs h t" "f \<noteq> t"
    and e: "re_first_packet e = Some f" "pk_data_length (pk_at h f) = 1420" "1428 < unat (re_packet_length e)"
      "unat (re_packet_length e) \<le> 1500"
      "unat (pk_data_offset (pk_at h f)) + unat (re_packet_length e) \<le> unat (pool_slot_size h f)"
    and t: "unat (pk_data_length (pk_at h t)) = unat (re_packet_length e) - 1420 + 24"
    and st: "linkg_transport_reassembly_append_tail t (e, h) = (ret, e', h')"
  shows "ret = 0 \<and> e' = e\<lparr>re_received_mask := re_received_mask e OR 2\<rparr> \<and> heap_ok h' \<and> refs h' = refs h \<and>
    packet_bytes h' f = packet_bytes h f @ drop 24 (packet_bytes h t) \<and>
    pk_data_length (pk_at h' f) = ucast (re_packet_length e) \<and>
    (\<forall>x. x \<noteq> f \<longrightarrow> 0 < refs h x \<longrightarrow> packet_view h' x = packet_view h x)"
proof -
  let ?l = "re_packet_length e"
  have m: "managed h f" "managed h t" using h by (auto intro: refs_managed)
  obtain qf where qf: "pk_pool (pk_at h f) = Some qf" "pk_slot (pk_at h f) = Some (slot_addr (pool_at h qf) f)"
    using managed_pool [OF h(1) m(1)] by metis
  obtain qt where qt: "pk_pool (pk_at h t) = Some qt" "pk_slot (pk_at h t) = Some (slot_addr (pool_at h qt) t)"
    using managed_pool [OF h(1) m(2)] by metis
  have n: "unat (ucast ?l - 1420 :: u32) = unat ?l - 1420"
    using e(3) by (subst unat_sub_le) (auto simp: word_le_nat_alt unat_ucast16)
  have tl: "pk_data_length (pk_at h t) - 24 = ucast ?l - 1420"
    using t n by (simp add: word_unat_eq_iff unat_sub_le word_le_nat_alt)
  have fl: "linkg_transport_reassembly_fragment_length 1420 ?l t h = Inr (ucast ?l - 1420)"
    using qt tl t e(3,4)
    by (simp add: linkg_transport_reassembly_fragment_length_def word_le_nat_alt word_less_nat_alt unat_ucast16)
  have off: "pk_data_offset (pk_at h f) \<le> pool_slot_size h f" using e(5) by (simp add: word_le_nat_alt)
  then have fit: "\<not> ucast ?l > pool_slot_size h f - pk_data_offset (pk_at h f)"
    using e(5) by (simp add: not_less word_le_nat_alt unat_ucast16 unat_sub_le)
  define h1 where "h1 = upd_pk f (\<lambda>k. k\<lparr>pk_data_length := ucast ?l\<rparr>) (h\<lparr>byte_at := mem_write (the (linkg_packet_data f h) + 1420)
        (mem_read (byte_at h) (the (linkg_packet_data t h) + 24) (unat ?l - 1420)) (byte_at h)\<rparr>)"
  have st': "linkg_transport_reassembly_append_tail t (e, h) = (0, e\<lparr>re_received_mask := re_received_mask e OR 2\<rparr>, h1)"
    using off fit by (simp add: linkg_transport_reassembly_append_tail_def e(1,2) qf qt fl n Let_def h1_def)
  have "heap_ok h1 \<and> refs h1 = refs h \<and> packet_bytes h1 f = packet_bytes h f @ drop 24 (packet_bytes h t) \<and>
    (\<forall>x. x \<noteq> f \<longrightarrow> managed h x \<longrightarrow> packet_view h1 x = packet_view h x) \<and> (\<forall>x. managed h1 x = managed h x)"
    by (rule append_effect [OF h(1) m h(4), where m = 1420 and n = "unat ?l - 1420" and l = "ucast ?l"])
      (use e t in \<open>simp_all add: unat_ucast16 h1_def\<close>)
  then show ?thesis using st unfolding st' by (auto simp: h1_def refs_managed)
qed

lemma complete_effect:
  assumes h: "heap_ok h" "re_first_packet e = Some f" "re_received_mask e = 3" "0 < refs h f"
    and t: "\<And>t. re_tail_packet e = Some t \<Longrightarrow> 0 < refs h t \<and> t \<noteq> f"
    and l: "pk_data_length (pk_at h f) = ucast (re_packet_length e)"
    and c: "linkg_transport_reassembly_complete (e, h) = (ret, completed, e', h')"
  shows "ret = 1 \<and> completed = Some f \<and> e' = reassembly_entry_zero \<and> heap_ok h' \<and>
    (\<forall>x. refs h' x = refs h x - (if re_tail_packet e = Some x then 1 else 0)) \<and>
    (\<forall>x. 0 < refs h' x \<longrightarrow> packet_view h' x = packet_view h x)"
proof -
  let ?h1 = "linkg_packet_release (re_tail_packet e) h"
  have r: "heap_ok ?h1 \<and> (\<forall>x. refs ?h1 x = refs h x - (if re_tail_packet e = Some x then 1 else 0)) \<and>
    (\<forall>x. 0 < refs ?h1 x \<longrightarrow> packet_view ?h1 x = packet_view h x)"
    by (rule release_option) (use h t in auto)
  have nf: "re_tail_packet e \<noteq> Some f" using t by blast
  then have "packet_view ?h1 f = packet_view h f" using r h(4) by simp
  from packet_viewD(1) [OF this] l
  have same: "upd_pk f (\<lambda>k. k\<lparr>pk_data_length := ucast (re_packet_length e)\<rparr>) ?h1 = ?h1"
    by (simp add: upd_pk_def fun_upd_idem)
  have "linkg_transport_reassembly_complete (e, h) = (1, Some f, reassembly_entry_zero, ?h1)"
    by (simp add: linkg_transport_reassembly_complete_def h(2,3) Let_def same)
  then show ?thesis using c r by auto
qed

lemma holds_none: "re_first_packet e = None \<Longrightarrow> re_tail_packet e = None \<Longrightarrow> reassembly_holds e x = 0"
  by (simp add: reassembly_holds_def)

lemma length_genuine:
  assumes "heap_ok h" "0 < refs h p"
  shows "length (packet_bytes h p) = unat (pk_data_length (pk_at h p))"
  using assms length_packet_bytes refs_managed by blast

lemma completed_step:
  assumes "heap_ok h'" "\<And>x. refs h' x + reassembly_holds e x = refs h x + (if x = c then 1 else 0)"
    and "\<And>x. x \<noteq> p \<Longrightarrow> reassembly_holds e x = 0 \<Longrightarrow> 0 < refs h' x \<Longrightarrow> packet_view h' x = packet_view h x"
    and "(key, plen, 0, A) \<in> set log" "(key, plen, 1420, B) \<in> set log" "packet_bytes h' c = A @ B"
    and "length A = 1420" "length B = unat plen - 1420" "1428 < unat plen" "c = p \<or> 0 < reassembly_holds e c"
  shows "entry_step log key plen p e h (Some c) reassembly_entry_zero h'"
  unfolding entry_step_def
proof (intro conjI allI impI)
  fix c' assume "Some c = Some c'"
  then show "c' = p \<or> 0 < reassembly_holds e c'" using assms(10) by simp
next
  fix c' assume "Some c = Some c'"
  then show "\<exists>A B. (key, plen, 0, A) \<in> set log \<and> (key, plen, 1420, B) \<in> set log \<and>
      packet_bytes h' c' = A @ B \<and> length (A @ B) = unat plen"
    using assms by (intro exI [of _ A] exI [of _ B]) simp
qed (use assms in \<open>simp_all add: reasm.zero_holds\<close>)

lemmas join_simps = reassembly_join_def Let_def linkg_transport_reassembly_fragment_bit_def

text \<open>The first fragment is there and the tail arrives.\<close>

lemma join_tail_step:
  assumes sub: "submittable e h p" and inv: "entry_inv log h e" and v: "re_valid e" "entry_key e = key"
    and len: "re_packet_length e = fh_packet_length fh" and off: "fh_fragment_offset fh \<noteq> 0"
    and f: "re_first_packet e = Some f"
    and fl: "linkg_transport_reassembly_fragment_length (fh_fragment_offset fh) (fh_packet_length fh) p h = Inr n"
    and log: "(key, fh_packet_length fh, fh_fragment_offset fh, drop 24 (packet_bytes h p)) \<in> set log"
    and j: "reassembly_join fh p (e, h) = (ret, completed, e', h')"
  shows "ret = 1 \<and> completed = Some f \<and> entry_step log key (fh_packet_length fh) p e h completed e' h'"
proof -
  have h: "heap_ok h" "0 < refs h p" "\<And>x. reassembly_holds e x \<le> refs h x" "reassembly_holds e p = 0"
    using sub by (auto simp: submittable_def)
  note fo = fragment_length_ok [OF fl]
  have eok: "re_tail_packet e = None" "re_received_mask e = 1" "pk_data_length (pk_at h f) = 1420"
    "unat (pk_data_offset (pk_at h f)) + unat (re_packet_length e) \<le> unat (pool_slot_size h f)"
    using inv v f by (auto simp: entry_inv_def entry_ok_def split: option.splits)
  have off': "fh_fragment_offset fh = 1420" using fo off by auto
  have hf: "0 < refs h f" "f \<noteq> p" using h(3) [of f] h(4) f by (auto simp: reassembly_holds_def split: if_splits)
  obtain r1 e1 h1 where a: "linkg_transport_reassembly_append_tail p (e, h) = (r1, e1, h1)" by (metis prod_cases3)
  have tl: "unat (pk_data_length (pk_at h p)) = unat (re_packet_length e) - 1420 + 24" using fo off len by simp
  have pl: "1428 < unat (re_packet_length e)" "unat (re_packet_length e) \<le> 1500" using fo len by auto
  note ae = append_tail_effect [OF h(1) hf(1) h(2) hf(2) f eok(3) pl eok(4) tl a]
  obtain r2 c2 e2 h2 where c: "linkg_transport_reassembly_complete (e1, h1) = (r2, c2, e2, h2)" by (metis prod_cases4)
  have e1: "re_first_packet e1 = Some f" "re_received_mask e1 = 3" "re_tail_packet e1 = None" "re_packet_length e1 = re_packet_length e"
    using ae f eok by auto
  have ce: "r2 = 1 \<and> c2 = Some f \<and> e2 = reassembly_entry_zero \<and> heap_ok h2 \<and>
    (\<forall>x. refs h2 x = refs h1 x - (if re_tail_packet e1 = Some x then 1 else 0)) \<and>
    (\<forall>x. 0 < refs h2 x \<longrightarrow> packet_view h2 x = packet_view h1 x)"
    by (rule complete_effect [OF _ e1(1,2) _ _ _ c]) (use ae hf e1 in auto)
  have res: "ret = 1" "completed = Some f" "e' = reassembly_entry_zero" "h' = h2"
    using j a c ae ce f eok len off' by (simp_all add: join_simps)
  have refs': "refs h2 x = refs h x" for x using ae ce e1 by simp
  have bytes: "packet_bytes h2 f = packet_bytes h f @ drop 24 (packet_bytes h p)"
    using ae ce refs' hf packet_viewD(5) [of h2 f h1] by simp
  have "(key, fh_packet_length fh, 0, packet_bytes h f) \<in> set log"
    using inv v f len by (auto simp: entry_inv_def entry_genuine_def)
  moreover have "length (packet_bytes h f) = 1420" "length (packet_bytes h p) = unat (fh_packet_length fh) - 1420 + 24"
    using length_genuine [OF h(1) hf(1)] length_genuine [OF h(1,2)] eok(3) tl len by simp_all
  moreover have "packet_view h2 x = packet_view h x" if "x \<noteq> p" "reassembly_holds e x = 0" "0 < refs h2 x" for x
  proof -
    have "x \<noteq> f" using that(2) f by (auto simp: reassembly_holds_def)
    then show ?thesis using that ae ce refs' by metis
  qed
  moreover have "refs h2 x + reassembly_holds e x = refs h x + (if x = f then 1 else 0)" for x
    using f eok(1) refs' by (auto simp: reassembly_holds_def)
  ultimately have "entry_step log key (fh_packet_length fh) p e h (Some f) reassembly_entry_zero h2"
    using log off' pl len ce bytes f by (intro completed_step) (auto simp: reassembly_holds_def)
  then show ?thesis by (simp add: res)
qed

text \<open>The tail is there and the first fragment arrives.\<close>

lemma join_first_step:
  assumes sub: "submittable e h p" and inv: "entry_inv log h e" and v: "re_valid e" "entry_key e = key"
    and len: "re_packet_length e = fh_packet_length fh" and off: "fh_fragment_offset fh = 0"
    and t: "re_tail_packet e = Some t"
    and fl: "linkg_transport_reassembly_fragment_length (fh_fragment_offset fh) (fh_packet_length fh) p h = Inr n"
    and log: "(key, fh_packet_length fh, fh_fragment_offset fh, drop 24 (packet_bytes h p)) \<in> set log"
    and j: "reassembly_join fh p (e, h) = (ret, completed, e', h')"
  shows "entry_step log key (fh_packet_length fh) p e h completed e' h' \<and>
    (if unat (pk_data_offset (pk_at h p)) + 24 + unat (fh_packet_length fh) \<le> unat (pool_slot_size h p)
     then ret = 1 \<and> completed = Some p else ret = - ENOBUFS \<and> completed = None)"
proof -
  have h: "heap_ok h" "0 < refs h p" "\<And>x. reassembly_holds e x \<le> refs h x" "reassembly_holds e p = 0" "refs h p < 2 ^ 32 - 1"
    using sub by (auto simp: submittable_def)
  note fo = fragment_length_ok [OF fl]
  have eok: "re_first_packet e = None" "re_received_mask e = 2"
    "unat (pk_data_length (pk_at h t)) = unat (re_packet_length e) - 1420 + 24"
    using inv v t by (auto simp: entry_inv_def entry_ok_def split: option.splits)
  have ht: "0 < refs h t" "t \<noteq> p" using h(3) [of t] h(4) t by (auto simp: reassembly_holds_def split: if_splits)
  obtain r0 e0 h0 where s: "linkg_transport_reassembly_store_first p (e, h) = (r0, e0, h0)" by (metis prod_cases3)
  have fl0: "linkg_transport_reassembly_fragment_length 0 (re_packet_length e) p h = Inr n" using fl off len by simp
  note se = store_first_effect [OF h(1,2,5) fl0 s]
  have pl: "1428 < unat (re_packet_length e)" "unat (re_packet_length e) \<le> 1500" using fo len by auto
  have p1444: "pk_data_length (pk_at h p) = 1444" using fo off by simp
  show ?thesis
  proof (cases "r0 = 0")
    case False
    with se have "r0 = - ENOBUFS" "e0 = e" "h0 = h"
      "\<not> unat (pk_data_offset (pk_at h p)) + 24 + unat (re_packet_length e) \<le> unat (pool_slot_size h p)" by auto
    moreover from this have "ret = - ENOBUFS" "completed = None" "e' = reassembly_entry_zero"
      "h' = linkg_transport_reassembly_entry_clear e h"
      using j s t eok len off by (auto simp: join_simps)
    ultimately show ?thesis using entry_clear_step [OF h(1,3)] len by simp
  next
    case True
    with se have e0: "e0 = e\<lparr>re_first_packet := Some p, re_received_mask := re_received_mask e OR 1\<rparr>" and h0: "heap_ok h0"
      "\<And>x. refs h0 x = refs h x + (if x = p then 1 else 0)" "packet_bytes h0 p = drop 24 (packet_bytes h p)"
      "pk_data_length (pk_at h0 p) = 1420"
      "unat (pk_data_offset (pk_at h0 p)) + unat (re_packet_length e) \<le> unat (pool_slot_size h0 p)"
      "\<And>x. x \<noteq> p \<Longrightarrow> packet_view h0 x = packet_view h x" by auto
    obtain r1 e1 h1 where a: "linkg_transport_reassembly_append_tail t (e0, h0) = (r1, e1, h1)" by (metis prod_cases3)
    have ae: "r1 = 0 \<and> e1 = e0\<lparr>re_received_mask := re_received_mask e0 OR 2\<rparr> \<and> heap_ok h1 \<and> refs h1 = refs h0 \<and>
      packet_bytes h1 p = packet_bytes h0 p @ drop 24 (packet_bytes h0 t) \<and>
      pk_data_length (pk_at h1 p) = ucast (re_packet_length e0) \<and>
      (\<forall>x. x \<noteq> p \<longrightarrow> 0 < refs h0 x \<longrightarrow> packet_view h1 x = packet_view h0 x)"
      by (rule append_tail_effect [OF h0(1) _ _ _ _ _ _ _ _ _ a])
        (use h0 ht h(2) pl e0 packet_viewD(1) [OF h0(6) [OF ht(2)]] eok in auto)
    obtain r2 c2 e2 h2 where c: "linkg_transport_reassembly_complete (e1, h1) = (r2, c2, e2, h2)" by (metis prod_cases4)
    have e1: "re_first_packet e1 = Some p" "re_received_mask e1 = 3" "re_tail_packet e1 = Some t" "re_packet_length e1 = re_packet_length e"
      using ae e0 t eok by auto
    have ce: "r2 = 1 \<and> c2 = Some p \<and> e2 = reassembly_entry_zero \<and> heap_ok h2 \<and>
      (\<forall>x. refs h2 x = refs h1 x - (if re_tail_packet e1 = Some x then 1 else 0)) \<and>
      (\<forall>x. 0 < refs h2 x \<longrightarrow> packet_view h2 x = packet_view h1 x)"
      by (rule complete_effect [OF _ e1(1,2) _ _ _ c]) (use ae h0(2) ht h(2) e1 e0 in auto)
    have res: "ret = 1" "completed = Some p" "e' = reassembly_entry_zero" "h' = h2"
      using j s True a c ae ce t eok len off e0 by (simp_all add: join_simps)
    have refs': "refs h2 x = refs h x + (if x = p then 1 else 0) - (if x = t then 1 else 0)" for x
      using ae ce e1 h0(2) by simp
    have bytes: "packet_bytes h2 p = drop 24 (packet_bytes h p) @ drop 24 (packet_bytes h t)"
      using ae ce refs' ht packet_viewD(5) [of h2 p h1] packet_viewD(5) [OF h0(6) [OF ht(2)]] h0(3) by simp
    have tlog: "(key, fh_packet_length fh, 1420, drop 24 (packet_bytes h t)) \<in> set log"
      using inv v t len by (auto simp: entry_inv_def entry_genuine_def)
    have lens: "length (drop 24 (packet_bytes h p)) = 1420" "length (drop 24 (packet_bytes h t)) = unat (fh_packet_length fh) - 1420"
      using length_genuine [OF h(1) ht(1)] length_genuine [OF h(1,2)] eok(3) len p1444 by simp_all
    have fit: "unat (pk_data_offset (pk_at h p)) + 24 + unat (re_packet_length e) \<le> unat (pool_slot_size h p)"
      using se True by auto
    have "packet_view h2 x = packet_view h x" if "x \<noteq> p" "reassembly_holds e x = 0" "0 < refs h2 x" for x
    proof -
      have "x \<noteq> t" using that(2) t by (auto simp: reassembly_holds_def)
      then have "0 < refs h0 x" using that refs' [of x] h0(2) [of x] by simp
      then show ?thesis using that ae ce h0(6) by metis
    qed
    moreover have "refs h2 x + reassembly_holds e x = refs h x + (if x = p then 1 else 0)" for x
      using t eok(1) refs' [of x] ht by (auto simp: reassembly_holds_def)
    ultimately have "entry_step log key (fh_packet_length fh) p e h (Some p) reassembly_entry_zero h2"
      using log off pl len ce bytes tlog lens by (intro completed_step) auto
    then show ?thesis using fit len by (simp add: res)
  qed
qed

lemma join_step:
  assumes sub: "submittable e h p" and inv: "entry_inv log h e" and v: "re_valid e" "entry_key e = key"
    and fl: "linkg_transport_reassembly_fragment_length (fh_fragment_offset fh) (fh_packet_length fh) p h = Inr n"
    and log: "(key, fh_packet_length fh, fh_fragment_offset fh, drop 24 (packet_bytes h p)) \<in> set log"
    and j: "reassembly_join fh p (e, h) = (ret, completed, e', h')"
  shows "entry_step log key (fh_packet_length fh) p e h completed e' h' \<and> (ret = 1 \<longleftrightarrow> completed \<noteq> None)"
proof (cases "re_packet_length e = fh_packet_length fh")
  case False
  then have "ret = - EPROTO" "completed = None" "e' = reassembly_entry_zero" "h' = linkg_transport_reassembly_entry_clear e h"
    using j by (auto simp: join_simps)
  then show ?thesis using entry_clear_step sub by (simp add: submittable_def)
next
  case len: True
  from inv v consider
    (first) f where "re_first_packet e = Some f" "re_tail_packet e = None" "re_received_mask e = 1"
    | (tail) t where "re_tail_packet e = Some t" "re_first_packet e = None" "re_received_mask e = 2"
    by (auto simp: entry_inv_def entry_ok_def split: option.splits)
  then show ?thesis
  proof cases
    case first
    show ?thesis
    proof (cases "fh_fragment_offset fh = 0")
      case True
      then have "ret = 0 \<and> completed = None \<and> e' = e \<and> h' = h" using j len first by (simp add: join_simps)
      then show ?thesis using entry_stay_step inv sub by (simp add: submittable_def)
    next
      case False
      then show ?thesis using join_tail_step [OF sub inv v len False first(1) fl log j] by auto
    qed
  next
    case tail
    show ?thesis
    proof (cases "fh_fragment_offset fh = 0")
      case False
      then have "ret = 0 \<and> completed = None \<and> e' = e \<and> h' = h" using j len tail by (simp add: join_simps)
      then show ?thesis using entry_stay_step inv sub by (simp add: submittable_def)
    next
      case True
      then show ?thesis using join_first_step [OF sub inv v len True tail(1) fl log j] by (auto split: if_splits)
    qed
  qed
qed

lemma fresh_entry:
  fixes hdr :: linkg_transport_header
  assumes "e0 = reassembly_fresh cls peer ep hdr fh now_us"
  shows "re_first_packet e0 = None" "re_tail_packet e0 = None" "re_received_mask e0 = 0" "re_valid e0"
    "re_packet_length e0 = fh_packet_length fh" "entry_key e0 = fragment_key cls peer ep hdr fh"
    "re_expires_at_us e0 = now_us + LINKG_TRANSPORT_REASSEMBLY_TTL_US" "re_peer_node_id e0 = peer"
  by (simp_all add: assms reassembly_fresh_def reassembly_entry_zero_def entry_key_def fragment_key_def)

lemma entry_key_fields [simp]:
  "entry_key (e\<lparr>re_first_packet := x\<rparr>) = entry_key e" "entry_key (e\<lparr>re_tail_packet := x\<rparr>) = entry_key e"
  "entry_key (e\<lparr>re_received_mask := m\<rparr>) = entry_key e"
  by (simp_all add: entry_key_def)

text \<open>The entry made from a fragment, and when there is none.\<close>

definition entry_stored ::
    "u32 \<Rightarrow> u8 \<Rightarrow> u32 \<Rightarrow> linkg_transport_header \<Rightarrow> linkg_transport_fragment_header \<Rightarrow> nat \<Rightarrow> u64 \<Rightarrow> linkg_transport_reassembly_entry \<Rightarrow> bool" where
  "entry_stored cls peer ep hdr fh p now e \<longleftrightarrow> re_valid e \<and> entry_key e = fragment_key cls peer ep hdr fh \<and>
     re_packet_length e = fh_packet_length fh \<and> re_expires_at_us e = now + LINKG_TRANSPORT_REASSEMBLY_TTL_US \<and>
     (if fh_fragment_offset fh = 0 then re_first_packet e = Some p else re_tail_packet e = Some p)"

definition first_fits :: "linkg_transport_fragment_header \<Rightarrow> nat \<Rightarrow> heap \<Rightarrow> bool" where
  "first_fits fh p h \<longleftrightarrow> (fh_fragment_offset fh = 0 \<longrightarrow>
     unat (pk_data_offset (pk_at h p)) + 24 + unat (fh_packet_length fh) \<le> unat (pool_slot_size h p))"

lemma create_step:
  assumes sub: "submittable e h p" and e: "re_first_packet e = None" "re_tail_packet e = None"
    and fl: "linkg_transport_reassembly_fragment_length (fh_fragment_offset fh) (fh_packet_length fh) p h = Inr n"
    and log: "(fragment_key cls peer ep hdr fh, fh_packet_length fh, fh_fragment_offset fh, drop 24 (packet_bytes h p)) \<in> set log"
    and c: "linkg_transport_reassembly_create_entry_locked cls peer ep hdr fh p now (e, h) = (ret, e', h')"
  shows "entry_step log key plen p e h None e' h' \<and>
    (ret = 0 \<and> entry_stored cls peer ep hdr fh p now e' \<or> ret < 0 \<and> \<not> first_fits fh p h)"
proof -
  have h: "heap_ok h" "0 < refs h p" "refs h p < 2 ^ 32 - 1" using sub by (auto simp: submittable_def)
  note fo = fragment_length_ok [OF fl]
  define e0 where "e0 = reassembly_fresh cls peer ep hdr fh now"
  note e0 = fresh_entry [OF e0_def]
  have he: "reassembly_holds e x = 0" "reassembly_holds e0 x = 0" for x using e e0 by (simp_all add: holds_none)
  show ?thesis
  proof (cases "fh_fragment_offset fh = 0")
    case True
    obtain r1 e1 h1 where s: "linkg_transport_reassembly_store_first p (e0, h) = (r1, e1, h1)" by (metis prod_cases3)
    have fl0: "linkg_transport_reassembly_fragment_length 0 (re_packet_length e0) p h = Inr n" using fl True e0(5) by simp
    have cr: "ret = (if r1 \<noteq> 0 then r1 else 0) \<and> e' = (if r1 \<noteq> 0 then reassembly_entry_zero else e1) \<and>
        h' = (if r1 \<noteq> 0 then linkg_transport_reassembly_entry_clear e1 h1 else h1)"
      using c fl True s
      by (auto simp: linkg_transport_reassembly_create_entry_locked_def Let_def simp flip: e0_def split: if_splits)
    from store_first_effect [OF h fl0 s] show ?thesis
    proof (elim disjE conjE)
      assume r: "r1 = - ENOBUFS" "e1 = e0" "h1 = h"
        "unat (pool_slot_size h p) < unat (pk_data_offset (pk_at h p)) + 24 + unat (re_packet_length e0)"
      have "linkg_transport_reassembly_entry_clear e0 h = h"
        using e0 by (simp add: linkg_transport_reassembly_entry_clear_def)
      then have "e' = reassembly_entry_zero" "h' = h" "ret = - ENOBUFS" using cr r by auto
      then show ?thesis using h he True e0(5) r(4) by (simp add: entry_step_def reasm.zero_holds first_fits_def)
    next
      assume r: "r1 = 0" "e1 = e0\<lparr>re_first_packet := Some p, re_received_mask := re_received_mask e0 OR 1\<rparr>"
        "heap_ok h1" "\<forall>x. refs h1 x = refs h x + (if x = p then 1 else 0)" "packet_bytes h1 p = drop 24 (packet_bytes h p)"
        "pk_data_length (pk_at h1 p) = 1420"
        "unat (pk_data_offset (pk_at h1 p)) + unat (re_packet_length e0) \<le> unat (pool_slot_size h1 p)"
        "\<forall>x. x \<noteq> p \<longrightarrow> packet_view h1 x = packet_view h x"
      have "entry_inv log h1 e1"
        using r e0 fo log True by (simp add: entry_inv_def entry_ok_def entry_genuine_def)
      moreover have "reassembly_holds e1 x = (if x = p then 1 else 0)" for x using r(2) e0 by (auto simp: reassembly_holds_def)
      moreover have "entry_stored cls peer ep hdr fh p now e1" using r(2) e0 True by (simp add: entry_stored_def)
      ultimately show ?thesis using cr r he by (auto simp: entry_step_def)
    qed
  next
    case False
    then have off: "fh_fragment_offset fh = 1420" using fo by auto
    obtain r1 e1 h1 where s: "linkg_transport_reassembly_store_tail p (e0, h) = (r1, e1, h1)" by (metis prod_cases3)
    have fl0: "linkg_transport_reassembly_fragment_length 1420 (re_packet_length e0) p h = Inr n" using fl off e0(5) by simp
    have cr: "ret = (if r1 \<noteq> 0 then r1 else 0) \<and> e' = (if r1 \<noteq> 0 then reassembly_entry_zero else e1) \<and>
        h' = (if r1 \<noteq> 0 then linkg_transport_reassembly_entry_clear e1 h1 else h1)"
      using c fl off s
      by (auto simp: linkg_transport_reassembly_create_entry_locked_def Let_def simp flip: e0_def split: if_splits)
    note r = store_tail_effect [OF h fl0 s]
    have vp: "packet_view h1 x = packet_view h x" for x using r by simp
    have "entry_inv log h1 e1"
      using r e0 fo log off packet_viewD(1,5) [OF vp] by (simp add: entry_inv_def entry_ok_def entry_genuine_def)
    moreover have "reassembly_holds e1 x = (if x = p then 1 else 0)" for x using r e0 by (auto simp: reassembly_holds_def)
    moreover have "entry_stored cls peer ep hdr fh p now e1" using r e0 False by (simp add: entry_stored_def)
    ultimately show ?thesis using cr r he by (auto simp: entry_step_def)
  qed
qed

section \<open>The whole cache\<close>

text \<open>
  The invariant over all ways: the references of every packet are the cache's and those of the others,
  no packet is cached twice, and every entry is well formed and holds what was submitted.
\<close>

interpretation reasm_inv: fragment_cache_inv linkg_transport_reassembly_entry_clear reassembly_entry_zero reassembly_holds
    refs heap_ok packet_view "entry_inv log" for log
  by unfold_locales (auto intro: entry_inv_frame [OF _ order_refl])

abbreviation cells_inv :: "fragment_log \<Rightarrow> (nat \<Rightarrow> nat) \<Rightarrow> linkg_transport_reassembly_entry list \<Rightarrow> heap \<Rightarrow> bool" where
  "cells_inv log \<equiv> cache_inv reassembly_holds refs heap_ok (entry_inv log)"

definition reassembly_ok :: "fragment_log \<Rightarrow> (nat \<Rightarrow> nat) \<Rightarrow> linkg_transport_reassembly_runtime \<Rightarrow> heap \<Rightarrow> bool" where
  "reassembly_ok log others rt h \<longleftrightarrow> cells_inv log others (concat (rr_entries rt)) h \<and>
     rows_shape LINKG_TRANSPORT_REASSEMBLY_SET_COUNT LINKG_TRANSPORT_REASSEMBLY_WAYS (rr_entries rt)"

lemma reassembly_okD:
  assumes "reassembly_ok log others rt h"
  shows "cells_inv log others (concat (rr_entries rt)) h"
    "rows_shape LINKG_TRANSPORT_REASSEMBLY_SET_COUNT LINKG_TRANSPORT_REASSEMBLY_WAYS (rr_entries rt)"
    "length (rr_entries rt) = LINKG_TRANSPORT_REASSEMBLY_SET_COUNT"
    "i < LINKG_TRANSPORT_REASSEMBLY_SET_COUNT \<Longrightarrow> length (rr_entries rt ! i) = LINKG_TRANSPORT_REASSEMBLY_WAYS"
    "refs h x = others x + cache_held reassembly_holds (concat (rr_entries rt)) x"
  using assms by (auto simp: reassembly_ok_def rows_shape_def cache_inv_def cache_balance_def)

text \<open>What the shared theory says of packets nobody submitted, of what the cache holds and of the caller's packet.\<close>

abbreviation others_kept :: "nat \<Rightarrow> linkg_transport_reassembly_runtime \<Rightarrow> heap \<Rightarrow> heap \<Rightarrow> bool" where
  "others_kept p rt \<equiv> cache_others_kept reassembly_holds refs packet_view p (concat (rr_entries rt))"

abbreviation held_bound :: "nat \<Rightarrow> linkg_transport_reassembly_runtime \<Rightarrow> linkg_transport_reassembly_runtime \<Rightarrow> bool" where
  "held_bound p rt rt' \<equiv> cache_held_bound reassembly_holds p (concat (rr_entries rt)) (concat (rr_entries rt'))"

abbreviation offered :: "(nat \<Rightarrow> nat) \<Rightarrow> nat \<Rightarrow> linkg_transport_reassembly_runtime \<Rightarrow> heap \<Rightarrow> bool" where
  "offered others p rt \<equiv> cache_offered reassembly_holds refs others p (concat (rr_entries rt))"

lemma entry_step_cache:
  "entry_step log key plen p e h completed e' h' \<Longrightarrow>
   cache_step reassembly_holds refs heap_ok packet_view (entry_inv log) p e h (\<lambda>x. if completed = Some x then 1 else 0) e' h'"
  unfolding entry_step_def cache_step_def by auto

section \<open>Submission\<close>

lemma reassembly_set_less: "linkg_transport_reassembly_set cls peer ep hdr pid < LINKG_TRANSPORT_REASSEMBLY_SET_COUNT"
proof -
  have "unat (w AND 63) < 64" for w :: u32
  proof -
    have "w AND 63 \<le> 63" by (rule word_and_le1)
    then show ?thesis by (simp add: word_le_nat_alt)
  qed
  then show ?thesis by (simp add: linkg_transport_reassembly_set_def)
qed

lemma match_key:
  "linkg_transport_reassembly_match cls peer ep hdr fh e \<longleftrightarrow> re_valid e \<and> entry_key e = fragment_key cls peer ep hdr fh"
  by (auto simp: linkg_transport_reassembly_match_def entry_key_def fragment_key_def)

text \<open>The scan of a set keeps the invariant.\<close>

lemma scan_cells:
  assumes ok: "reassembly_ok log others rt h" and i: "i < LINKG_TRANSPORT_REASSEMBLY_SET_COUNT"
    and sc: "way_scan (reassembly_ways cls peer ep hdr fh now) 0 (rr_entries rt ! i) None None h = (found, fr, old, row, h1)"
  shows "reassembly_ok log others (rt\<lparr>rr_entries := (rr_entries rt)[i := row]\<rparr>) h1 \<and> cache_keeps refs packet_view h h1 \<and>
    length row = LINKG_TRANSPORT_REASSEMBLY_WAYS"
  using reasm_inv.rows_scan [OF reassembly_okD(1,2) [OF ok] i sc] way_scan_length [OF sc] reassembly_okD(4) [OF ok i]
  by (simp add: reassembly_ok_def reassembly_ways_def)

text \<open>An entry step at one way of a set, seen from the whole cache.\<close>

lemma reassembly_way_step:
  assumes ok: "reassembly_ok log others rt h"
    and i: "i < LINKG_TRANSPORT_REASSEMBLY_SET_COUNT" and w: "w < LINKG_TRANSPORT_REASSEMBLY_WAYS"
    and p: "cache_held reassembly_holds (concat (rr_entries rt)) p = 0"
    and st: "entry_step log key plen p (rr_entries rt ! i ! w) h completed e' h'"
  shows "reassembly_ok log (\<lambda>x. others x + (if completed = Some x then 1 else 0))
      (rt\<lparr>rr_entries := (rr_entries rt)[i := (rr_entries rt ! i)[w := e']]\<rparr>) h' \<and>
    others_kept p rt h h' \<and>
    held_bound p rt (rt\<lparr>rr_entries := (rr_entries rt)[i := (rr_entries rt ! i)[w := e']]\<rparr>)"
  using reasm_inv.rows_step [OF reassembly_okD(1,2) [OF ok] i w p entry_step_cache [OF st]]
  by (simp add: reassembly_ok_def)

lemma log_cons:
  assumes ok: "reassembly_ok log others rt h"
  shows "reassembly_ok (x # log) others rt h"
proof -
  have "entry_inv (x # log) h e" if "entry_inv log h e" for e
    by (rule entry_inv_frame [OF that]) auto
  with ok show ?thesis by (auto simp: reassembly_ok_def cache_inv_def)
qed

lemma offered_way:
  assumes ok: "reassembly_ok log others rt h" and p: "offered others p rt h"
    and i: "i < LINKG_TRANSPORT_REASSEMBLY_SET_COUNT" "w < LINKG_TRANSPORT_REASSEMBLY_WAYS"
  shows "submittable (rr_entries rt ! i ! w) h p \<and> entry_inv log h (rr_entries rt ! i ! w)"
  using reasm_inv.offered_facts [OF reassembly_okD(1) [OF ok] p rows_mem [OF reassembly_okD(2) [OF ok] i]]
  by (simp add: submittable_def)

text \<open>
  The outcome of a submission: the cache stays well formed; the others' references change by the packet
  handed out alone; nobody else's packets are touched; and what is handed out is a first and a tail fragment
  submitted under the same key.
\<close>

definition submit_facts :: "fragment_log \<Rightarrow> (nat \<Rightarrow> nat) \<Rightarrow> fragment_key \<Rightarrow> u16 \<Rightarrow> nat \<Rightarrow>
    linkg_transport_reassembly_runtime \<Rightarrow> heap \<Rightarrow> int \<Rightarrow> nat option \<Rightarrow> linkg_transport_reassembly_runtime \<Rightarrow> heap \<Rightarrow> bool" where
  "submit_facts log others key plen p rt h ret completed rt' h' \<longleftrightarrow>
     reassembly_ok log (\<lambda>x. others x + (if completed = Some x then 1 else 0)) rt' h' \<and> others_kept p rt h h' \<and> held_bound p rt rt' \<and>
     (ret = 1 \<longleftrightarrow> completed \<noteq> None) \<and>
     (\<forall>c. completed = Some c \<longrightarrow> (\<exists>A B. (key, plen, 0, A) \<in> set log \<and> (key, plen, 1420, B) \<in> set log \<and>
        packet_bytes h' c = A @ B \<and> length (A @ B) = unat plen))"

lemma way_submit:
  assumes ok: "reassembly_ok log others rt h" and p: "offered others p rt h"
    and i: "i < LINKG_TRANSPORT_REASSEMBLY_SET_COUNT" "w < LINKG_TRANSPORT_REASSEMBLY_WAYS"
    and st: "entry_step log key plen p (rr_entries rt ! i ! w) h completed e' h'" and ret: "ret = 1 \<longleftrightarrow> completed \<noteq> None"
  shows "submit_facts log others key plen p rt h ret completed
    (rt\<lparr>rr_entries := (rr_entries rt)[i := (rr_entries rt ! i)[w := e']]\<rparr>) h'"
  using reassembly_way_step [OF ok i _ st] p ret st by (auto simp: submit_facts_def entry_step_def cache_offered_def)

lemma after_scan:
  assumes ok: "reassembly_ok log others rt h" and p: "offered others p rt h" and i: "i < LINKG_TRANSPORT_REASSEMBLY_SET_COUNT"
    and sc: "way_scan (reassembly_ways cls peer ep hdr fh now) 0 (rr_entries rt ! i) None None h = (found, fr, old, row, h1)"
    and rt1: "rt1 = rt\<lparr>rr_entries := (rr_entries rt)[i := row]\<rparr>"
  shows "reassembly_ok log others rt1 h1 \<and> offered others p rt1 h1 \<and> 0 < refs h1 p \<and> packet_view h1 p = packet_view h p \<and>
    rr_entries rt1 ! i = row \<and>
    (submit_facts log others key plen p rt1 h1 ret completed rt' h' \<longrightarrow> submit_facts log others key plen p rt h ret completed rt' h')"
proof -
  have "wo_drop (reassembly_ways cls peer ep hdr fh now) = linkg_transport_reassembly_entry_clear"
    "wo_zero (reassembly_ways cls peer ep hdr fh now) = reassembly_entry_zero" by (simp_all add: reassembly_ways_def)
  note s = reasm_inv.offered_scan [OF reassembly_okD(1,2) [OF ok] i sc this p, of h' "concat (rr_entries rt')"]
  have "rr_entries rt1 ! i = row" using reassembly_okD(3) [OF ok] i by (simp add: rt1)
  then show ?thesis using scan_cells [OF ok i sc] s by (simp add: rt1 submit_facts_def)
qed

lemma fragment_length_view:
  assumes "packet_view h1 p = packet_view h p"
  shows "linkg_transport_reassembly_fragment_length off plen p h1 = linkg_transport_reassembly_fragment_length off plen p h"
  using packet_viewD(1,3,4) [OF assms] by (simp add: linkg_transport_reassembly_fragment_length_def)

lemma scan_match:
  assumes "way_scan (reassembly_ways cls peer ep hdr fh now) 0 es None None h = (Some w, fr, old, row, h1)"
  shows "w < length row \<and> re_valid (row ! w) \<and> entry_key (row ! w) = fragment_key cls peer ep hdr fh"
  using way_scan_found [OF assms] by (simp add: reassembly_ways_def match_key)

text \<open>A way that is given up for a new entry: cleared if it was in use, then filled.\<close>

lemma replace_step:
  assumes sub: "submittable e h p" and inv: "entry_ok h e"
    and fl: "linkg_transport_reassembly_fragment_length (fh_fragment_offset fh) (fh_packet_length fh) p h = Inr n"
    and log: "(fragment_key cls peer ep hdr fh, fh_packet_length fh, fh_fragment_offset fh, drop 24 (packet_bytes h p)) \<in> set log"
    and e0: "(e0, h0) = (if re_valid e then (reassembly_entry_zero, linkg_transport_reassembly_entry_clear e h) else (e, h))"
    and c: "linkg_transport_reassembly_create_entry_locked cls peer ep hdr fh p now (e0, h0) = (ret, e', h')"
  shows "entry_step log key plen p e h None e' h' \<and>
    (ret = 0 \<and> entry_stored cls peer ep hdr fh p now e' \<or> ret < 0 \<and> \<not> first_fits fh p h)"
proof (cases "re_valid e")
  case False
  then have e: "e0 = e" "h0 = h" "re_first_packet e = None" "re_tail_packet e = None"
    using e0 inv by (auto simp: entry_ok_def)
  show ?thesis using create_step [OF sub e(3,4) fl log c [unfolded e(1,2)]] by auto
next
  case True
  then have z: "e0 = reassembly_entry_zero" "h0 = linkg_transport_reassembly_entry_clear e h" using e0 by auto
  have h: "heap_ok h" "\<And>x. reassembly_holds e x \<le> refs h x" "reassembly_holds e p = 0" "0 < refs h p" "refs h p < 2 ^ 32 - 1"
    using sub by (auto simp: submittable_def)
  note cl = entry_clear_effect [OF h(1,2), folded z(2)]
  have rp: "refs h0 p = refs h p" using cl h(3) by simp
  have vp: "packet_view h0 p = packet_view h p" using cl rp h(4) by simp
  have sub0: "submittable e0 h0 p" using cl rp h by (simp add: submittable_def z(1) reasm.zero_holds)
  have fl0: "linkg_transport_reassembly_fragment_length (fh_fragment_offset fh) (fh_packet_length fh) p h0 = Inr n"
    using fl fragment_length_view [OF vp] by simp
  have z0: "re_first_packet e0 = None" "re_tail_packet e0 = None" by (simp_all add: z(1) reassembly_entry_zero_def)
  have log0: "(fragment_key cls peer ep hdr fh, fh_packet_length fh, fh_fragment_offset fh, drop 24 (packet_bytes h0 p)) \<in> set log"
    using log packet_viewD(5) [OF vp] by simp
  have "first_fits fh p h0 = first_fits fh p h" using packet_viewD(2,6) [OF vp] by (simp add: first_fits_def)
  then have st: "entry_step log key plen p e0 h0 None e' h' \<and>
    (ret = 0 \<and> entry_stored cls peer ep hdr fh p now e' \<or> ret < 0 \<and> \<not> first_fits fh p h)"
    using create_step [OF sub0 z0 fl0 log0 c] by simp
  have r0: "reassembly_holds e0 x = 0" for x by (simp add: z(1) reasm.zero_holds)
  have r': "refs h' x = refs h0 x + reassembly_holds e' x" "reassembly_holds e' x \<le> (if x = p then 1 else 0)" for x
    using st unfolding entry_step_def r0 by auto
  have "refs h' x + reassembly_holds e x = refs h x + reassembly_holds e' x" for x
    using r'(1) [of x] cl h(2) [of x] by simp
  moreover have "packet_view h' x = packet_view h x" if "x \<noteq> p" "reassembly_holds e x = 0" "0 < refs h' x" for x
  proof -
    have "0 < refs h0 x" using r' [of x] that by simp
    then show ?thesis using st cl that unfolding entry_step_def r0 by auto
  qed
  moreover have "reassembly_holds e' x \<le> reassembly_holds e x + (if x = p then 1 else 0)" for x using r'(2) [of x] by simp
  ultimately show ?thesis using st by (auto simp: entry_step_def)
qed

lemma submit_step:
  assumes ok: "reassembly_ok log others rt h" and p: "offered others p rt h"
    and f: "(fragment_key cls peer ep hdr fh, fh_packet_length fh, fh_fragment_offset fh, drop 24 (packet_bytes h p)) \<in> set log"
    and s: "linkg_transport_reassembly_submit_locked cls peer ep (Some hdr) (Some fh) (Some p) now rt h = (ret, completed, rt', h')"
  shows "submit_facts log others (fragment_key cls peer ep hdr fh) (fh_packet_length fh) p rt h ret completed rt' h'"
proof (cases "\<not> linkg_transport_class_valid cls \<or> \<not> linkg_transport_reassembly_peer_valid peer \<or> th_flags hdr AND 1 = 0 \<or>
    (\<exists>r. linkg_transport_reassembly_fragment_length (fh_fragment_offset fh) (fh_packet_length fh) p h = Inl r)")
  case True
  moreover have "r < 0" if "linkg_transport_reassembly_fragment_length (fh_fragment_offset fh) (fh_packet_length fh) p h = Inl r" for r
    using that by (auto simp: linkg_transport_reassembly_fragment_length_def Let_def split: if_splits)
  ultimately have "ret \<noteq> 1" "completed = None" "rt' = rt" "h' = h"
    using s by (auto simp: linkg_transport_reassembly_submit_locked_def split: if_splits)
  then show ?thesis using ok by (simp add: submit_facts_def cache_others_kept_def cache_held_bound_def)
next
  case False
  then obtain n where fl: "linkg_transport_reassembly_fragment_length (fh_fragment_offset fh) (fh_packet_length fh) p h = Inr n"
    and valid: "linkg_transport_class_valid cls" "linkg_transport_reassembly_peer_valid peer" "th_flags hdr AND 1 \<noteq> 0"
    by (cases "linkg_transport_reassembly_fragment_length (fh_fragment_offset fh) (fh_packet_length fh) p h") auto
  define i where "i = linkg_transport_reassembly_set cls peer ep hdr (fh_packet_id fh)"
  have i: "i < LINKG_TRANSPORT_REASSEMBLY_SET_COUNT" unfolding i_def by (rule reassembly_set_less)
  obtain found fr old row h1 where sc:
    "way_scan (reassembly_ways cls peer ep hdr fh now) 0 (rr_entries rt ! i) None None h = (found, fr, old, row, h1)"
    by (metis prod_cases5)
  define rt1 where "rt1 = rt\<lparr>rr_entries := (rr_entries rt)[i := row]\<rparr>"
  note a = after_scan [OF ok p i sc rt1_def]
  have ok1: "reassembly_ok log others rt1 h1" "offered others p rt1 h1" "rr_entries rt1 ! i = row"
    and vp: "packet_view h1 p = packet_view h p" using a by auto
  have fl1: "linkg_transport_reassembly_fragment_length (fh_fragment_offset fh) (fh_packet_length fh) p h1 = Inr n"
    using fl fragment_length_view [OF vp] by simp
  have f1: "(fragment_key cls peer ep hdr fh, fh_packet_length fh, fh_fragment_offset fh, drop 24 (packet_bytes h1 p)) \<in> set log"
    using f packet_viewD(5) [OF vp] by simp
  have rl: "length row = LINKG_TRANSPORT_REASSEMBLY_WAYS" "rr_entries rt ! i \<noteq> []"
    using scan_cells [OF ok i sc] way_scan_length [OF sc] by auto
  note ow = offered_way [OF ok1(1,2) i, unfolded ok1(3)]
  have fin: ?thesis
    if "w < LINKG_TRANSPORT_REASSEMBLY_WAYS" "rt' = rt\<lparr>rr_entries := (rr_entries rt)[i := row[w := e']]\<rparr>"
      "entry_step log (fragment_key cls peer ep hdr fh) (fh_packet_length fh) p (row ! w) h1 completed e' h'" "ret = 1 \<longleftrightarrow> completed \<noteq> None" for w e'
  proof -
    have "rt' = rt1\<lparr>rr_entries := (rr_entries rt1)[i := (rr_entries rt1 ! i)[w := e']]\<rparr>"
      using that(2) ok1(3) by (simp add: rt1_def)
    then show ?thesis using a way_submit [OF ok1(1,2) i that(1), of "fragment_key cls peer ep hdr fh" "fh_packet_length fh" completed e' h' ret] that(3,4) ok1(3) by simp
  qed
  show ?thesis
  proof (cases found)
    case (Some w)
    note m = scan_match [OF sc [unfolded Some]]
    obtain e' where j: "reassembly_join fh p (row ! w, h1) = (ret, completed, e', h')"
      and rt': "rt' = rt\<lparr>rr_entries := (rr_entries rt)[i := row[w := e']]\<rparr>"
      using s valid fl sc Some
      by (auto simp: linkg_transport_reassembly_submit_locked_def Let_def simp flip: i_def split: prod.splits)
    have w: "w < LINKG_TRANSPORT_REASSEMBLY_WAYS" using m rl by simp
    show ?thesis using fin [OF w rt'] join_step [OF _ _ _ _ fl1 f1 j] ow [OF w] m by blast
  next
    case None
    obtain w where w: "(case fr of Some w \<Rightarrow> Some w | None \<Rightarrow> map_option fst old) = Some w" "w < length row"
      using way_scan_room [OF sc [unfolded None] rl(2)] by blast
    obtain e0 h0 where e0: "(e0, h0) = (if re_valid (row ! w) then (reassembly_entry_zero, linkg_transport_reassembly_entry_clear (row ! w) h1) else (row ! w, h1))"
      by (metis surj_pair)
    obtain e' where c: "linkg_transport_reassembly_create_entry_locked cls peer ep hdr fh p now (e0, h0) = (ret, e', h')"
      and rt': "rt' = rt\<lparr>rr_entries := (rr_entries rt)[i := row[w := e']]\<rparr>" and cn: "completed = None"
      using s valid fl sc None w(1)
      by (auto simp: linkg_transport_reassembly_submit_locked_def Let_def e0 [symmetric] simp flip: i_def split: prod.splits)
    have w2: "w < LINKG_TRANSPORT_REASSEMBLY_WAYS" using w rl by simp
    show ?thesis using fin [OF w2 rt'] replace_step [OF _ _ fl1 f1 e0 c] ow [OF w2] cn by (fastforce simp: entry_inv_def)
  qed
qed

section \<open>Sweeps\<close>

lemma sweep_cells:
  assumes ok: "reassembly_ok log others rt h"
    and sw: "set_sweep P linkg_transport_reassembly_entry_clear reassembly_entry_zero (rr_entries rt) h = (rows, h')"
  shows "reassembly_ok log others (rt\<lparr>rr_entries := rows\<rparr>) h' \<and> cache_keeps refs packet_view h h'"
  using reasm_inv.rows_sweep [OF reassembly_okD(1) [OF ok] sw] reassembly_okD(2) [OF ok] by (simp add: reassembly_ok_def)

lemma gc_cells:
  assumes ok: "reassembly_ok log others rt h" and gc: "linkg_transport_reassembly_gc_locked now rt h = (rt', h')"
  shows "reassembly_ok log others rt' h'"
proof -
  obtain rows h1 where sw: "set_sweep (linkg_transport_reassembly_expired now) linkg_transport_reassembly_entry_clear
      reassembly_entry_zero (rr_entries rt) h = (rows, h1)" by fastforce
  show ?thesis using gc sweep_cells [OF ok sw] ok
    by (auto simp: linkg_transport_reassembly_gc_locked_def sw reassembly_ok_def split: if_splits)
qed

lemma reset_peer_cells:
  assumes ok: "reassembly_ok log others rt h" and r: "linkg_transport_reassembly_reset_peer n rt c h = (ret, rt', c', h')"
  shows "reassembly_ok log others rt' h'"
proof -
  obtain rows h1 where sw: "set_sweep (\<lambda>entry. re_valid entry \<and> re_peer_node_id entry = n) linkg_transport_reassembly_entry_clear
      reassembly_entry_zero (rr_entries rt) h = (rows, h1)" by fastforce
  show ?thesis using r sweep_cells [OF ok sw] ok
    by (auto simp: linkg_transport_reassembly_reset_peer_def Let_def sw split: if_splits)
qed

section \<open>Histories of the cache\<close>

text \<open>
  The cache, the heap, the references of everybody else, the fragments submitted and the packets handed
  out with their key, length and bytes at that moment.
\<close>

type_synonym reasm_state =
  "linkg_transport_reassembly_runtime \<times> heap \<times> (nat \<Rightarrow> nat) \<times> fragment_log \<times> (fragment_key \<times> u16 \<times> u8 list) list"

text \<open>
  Between two operations on the cache the rest of the program may do anything to packets it holds, as
  long as it leaves alone those the cache holds.
\<close>

inductive reasm_step :: "reasm_state \<Rightarrow> reasm_state \<Rightarrow> bool" where
  submit: "offered others p rt h \<Longrightarrow>
    linkg_transport_reassembly_submit_locked cls peer ep (Some hdr) (Some fh) (Some p) now rt h = (ret, completed, rt', h') \<Longrightarrow>
    reasm_step (rt, h, others, log, out)
      (rt', h', \<lambda>x. others x + (if completed = Some x then 1 else 0),
       (fragment_key cls peer ep hdr fh, fh_packet_length fh, fh_fragment_offset fh, drop 24 (packet_bytes h p)) # log,
       (case completed of None \<Rightarrow> out
        | Some c \<Rightarrow> (fragment_key cls peer ep hdr fh, fh_packet_length fh, packet_bytes h' c) # out))"
| gc: "linkg_transport_reassembly_gc_locked now rt h = (rt', h') \<Longrightarrow> reasm_step (rt, h, others, log, out) (rt', h', others, log, out)"
| reset_peer: "linkg_transport_reassembly_reset_peer n rt c h = (ret, rt', c', h') \<Longrightarrow>
    reasm_step (rt, h, others, log, out) (rt', h', others, log, out)"
| world: "heap_ok h' \<Longrightarrow> cache_balance reassembly_holds refs others' h' (concat (rr_entries rt)) \<Longrightarrow>
    (\<And>p. 0 < cache_held reassembly_holds (concat (rr_entries rt)) p \<Longrightarrow> packet_view h' p = packet_view h p) \<Longrightarrow>
    reasm_step (rt, h, others, log, out) (rt, h', others', log, out)"

inductive reasm_reach :: "reasm_state \<Rightarrow> bool" where
  start: "heap_ok h \<Longrightarrow> linkg_transport_reassembly_runtime_init 0 lock reassembly_zero = (0, rt) \<Longrightarrow>
    reasm_reach (rt, h, refs h, [], [])"
| step: "reasm_reach s \<Longrightarrow> reasm_step s s' \<Longrightarrow> reasm_reach s'"

text \<open>A packet handed out is the payload of a first and of a tail fragment submitted under its key.\<close>

definition genuine :: "fragment_log \<Rightarrow> fragment_key \<times> u16 \<times> u8 list \<Rightarrow> bool" where
  "genuine log d = (case d of (key, plen, bytes) \<Rightarrow>
     \<exists>A B. (key, plen, 0, A) \<in> set log \<and> (key, plen, 1420, B) \<in> set log \<and> bytes = A @ B \<and> length bytes = unat plen)"

definition reasm_inv :: "reasm_state \<Rightarrow> bool" where
  "reasm_inv = (\<lambda>(rt, h, others, log, out). reassembly_ok log others rt h \<and> (\<forall>d\<in>set out. genuine log d))"

lemma genuine_mono: "genuine log d \<Longrightarrow> genuine (x # log) d"
  by (auto simp: genuine_def split: prod.splits)

lemma world_cells:
  assumes ok: "reassembly_ok log others rt h" and h': "heap_ok h'" "cache_balance reassembly_holds refs others' h' (concat (rr_entries rt))"
    and v: "\<And>p. 0 < cache_held reassembly_holds (concat (rr_entries rt)) p \<Longrightarrow> packet_view h' p = packet_view h p"
  shows "reassembly_ok log others' rt h'"
  using reasm_inv.cells_world [OF reassembly_okD(1) [OF ok] h' v] reassembly_okD(2) [OF ok] by (simp add: reassembly_ok_def)

lemma reasm_step_inv: "reasm_step s s' \<Longrightarrow> reasm_inv s \<Longrightarrow> reasm_inv s'"
proof (induction rule: reasm_step.induct)
  case (submit others p rt h cls peer ep hdr fh now ret completed rt' h' log out)
  let ?f = "(fragment_key cls peer ep hdr fh, fh_packet_length fh, fh_fragment_offset fh, drop 24 (packet_bytes h p))"
  have ok: "reassembly_ok (?f # log) others rt h" using submit.prems log_cons by (simp add: reasm_inv_def)
  have "submit_facts (?f # log) others (fragment_key cls peer ep hdr fh) (fh_packet_length fh) p rt h ret completed rt' h'"
    by (rule submit_step [OF ok submit.hyps(1) _ submit.hyps(2)]) simp
  then show ?case using submit.prems genuine_mono
    by (auto simp: reasm_inv_def submit_facts_def split: option.splits) (auto simp: genuine_def)
next
  case (gc now rt h rt' h' others log out)
  then show ?case using gc_cells by (auto simp: reasm_inv_def)
next
  case (reset_peer n rt c h ret rt' c' h' others log out)
  then show ?case using reset_peer_cells by (auto simp: reasm_inv_def)
next
  case (world h' others' rt h others log out)
  then show ?case using world_cells by (auto simp: reasm_inv_def)
qed

lemma reasm_reach_inv: "reasm_reach s \<Longrightarrow> reasm_inv s"
proof (induction rule: reasm_reach.induct)
  case (start h lock rt)
  then have rt: "rr_entries rt = replicate 64 (replicate 2 reassembly_entry_zero)"
    by (auto simp: linkg_transport_reassembly_runtime_init_def reassembly_zero_def)
  have "cache_held reassembly_holds (concat (rr_entries rt)) p = 0" for p
    by (auto simp: rt cache_held_def reasm.zero_holds sum_list_eq_0_iff)
  then show ?case using start rt
    by (auto simp: reasm_inv_def reassembly_ok_def rows_shape_def cache_inv_def cache_balance_def)
qed (rule reasm_step_inv)


section \<open>Two fragments make a packet\<close>

text \<open>A fragment that the checks of the submission let through, with room for the whole packet behind the first.\<close>

definition fragment_fits :: "u32 \<Rightarrow> u8 \<Rightarrow> linkg_transport_header \<Rightarrow> linkg_transport_fragment_header \<Rightarrow> nat \<Rightarrow> heap \<Rightarrow> bool" where
  "fragment_fits cls peer hdr fh p h \<longleftrightarrow> linkg_transport_class_valid cls \<and> linkg_transport_reassembly_peer_valid peer \<and>
     th_flags hdr AND LINKG_TRANSPORT_FLAG_FRAGMENT \<noteq> 0 \<and>
     (\<exists>n. linkg_transport_reassembly_fragment_length (fh_fragment_offset fh) (fh_packet_length fh) p h = Inr n) \<and>
     first_fits fh p h"

lemma fragment_fits_view: "packet_view h' p = packet_view h p \<Longrightarrow> fragment_fits cls peer hdr fh p h' = fragment_fits cls peer hdr fh p h"
  using fragment_length_view [of h' p h] packet_viewD(2,6) [of h' p h] by (simp add: fragment_fits_def first_fits_def)

text \<open>Whether a set has a live entry of a key.\<close>

definition key_live :: "u64 \<Rightarrow> fragment_key \<Rightarrow> linkg_transport_reassembly_entry list \<Rightarrow> bool" where
  "key_live now key row \<longleftrightarrow> (\<exists>e\<in>set row. re_valid e \<and> entry_key e = key \<and> \<not> linkg_transport_reassembly_expired now e)"

lemma scan_live:
  assumes sc: "way_scan (reassembly_ways cls peer ep hdr fh now) 0 es None None h = (found, fr, old, row, h1)"
  shows "(found = Some w \<longrightarrow> w < length es \<and> row ! w = es ! w \<and> re_valid (es ! w) \<and>
      entry_key (es ! w) = fragment_key cls peer ep hdr fh \<and> \<not> linkg_transport_reassembly_expired now (es ! w)) \<and>
    (found = None \<longrightarrow> \<not> key_live now (fragment_key cls peer ep hdr fh) es)"
proof (intro conjI impI)
  assume "found = Some w"
  then have sc': "way_scan (reassembly_ways cls peer ep hdr fh now) 0 es None None h = (Some w, fr, old, row, h1)" using sc by simp
  note m = scan_match [OF sc']
  have l: "w < length es" using m way_scan_length [OF sc] by simp
  with way_scan_entries [OF sc' l] m
  show "w < length es" "row ! w = es ! w" "re_valid (es ! w)" "entry_key (es ! w) = fragment_key cls peer ep hdr fh"
    "\<not> linkg_transport_reassembly_expired now (es ! w)"
    by (auto simp: reassembly_ways_def reassembly_entry_zero_def)
next
  assume "found = None"
  then have sc': "way_scan (reassembly_ways cls peer ep hdr fh now) 0 es None None h = (None, fr, old, row, h1)" using sc by simp
  have nm: "\<forall>e\<in>set row. \<not> (re_valid e \<and> entry_key e = fragment_key cls peer ep hdr fh)"
    using way_scan_other [OF sc'] by (simp add: reassembly_ways_def match_key)
  have "row ! i = es ! i" if "i < length es" "\<not> linkg_transport_reassembly_expired now (es ! i)" for i
    using way_scan_entries [OF sc' that(1)] that(2) by (auto simp: reassembly_ways_def)
  then show "\<not> key_live now (fragment_key cls peer ep hdr fh) es"
    using nm way_scan_length [OF sc'] by (fastforce simp: key_live_def in_set_conv_nth)
qed

lemma submit_new:
  assumes ok: "reassembly_ok log others rt h" and p: "offered others p rt h" and fit: "fragment_fits cls peer hdr fh p h"
    and i: "i = linkg_transport_reassembly_set cls peer ep hdr (fh_packet_id fh)"
    and nl: "\<not> key_live now (fragment_key cls peer ep hdr fh) (rr_entries rt ! i)"
    and s: "linkg_transport_reassembly_submit_locked cls peer ep (Some hdr) (Some fh) (Some p) now rt h = (ret, completed, rt', h')"
  shows "ret = 0 \<and> completed = None \<and> (\<exists>w<LINKG_TRANSPORT_REASSEMBLY_WAYS. \<exists>e'.
    rr_entries rt' ! i ! w = e' \<and> entry_stored cls peer ep hdr fh p now e' \<and>
    entry_inv [(fragment_key cls peer ep hdr fh, fh_packet_length fh, fh_fragment_offset fh, drop 24 (packet_bytes h p))] h' e' \<and>
    (\<forall>v<LINKG_TRANSPORT_REASSEMBLY_WAYS. v \<noteq> w \<longrightarrow>
       \<not> (re_valid (rr_entries rt' ! i ! v) \<and> entry_key (rr_entries rt' ! i ! v) = fragment_key cls peer ep hdr fh)))"
proof -
  let ?f = "(fragment_key cls peer ep hdr fh, fh_packet_length fh, fh_fragment_offset fh, drop 24 (packet_bytes h p))"
  have il: "i < LINKG_TRANSPORT_REASSEMBLY_SET_COUNT" unfolding i by (rule reassembly_set_less)
  obtain n where fl: "linkg_transport_reassembly_fragment_length (fh_fragment_offset fh) (fh_packet_length fh) p h = Inr n"
    and valid: "linkg_transport_class_valid cls" "linkg_transport_reassembly_peer_valid peer" "th_flags hdr AND 1 \<noteq> 0"
    using fit by (auto simp: fragment_fits_def)
  obtain found fr old row h1 where sc:
    "way_scan (reassembly_ways cls peer ep hdr fh now) 0 (rr_entries rt ! i) None None h = (found, fr, old, row, h1)"
    by (metis prod_cases5)
  have nf: "found = None" using scan_live [OF sc, of "the found"] nl nth_mem by (cases found) (fastforce simp: key_live_def)+
  define rt1 where "rt1 = rt\<lparr>rr_entries := (rr_entries rt)[i := row]\<rparr>"
  have a: "reassembly_ok log others rt1 h1 \<and> offered others p rt1 h1 \<and> packet_view h1 p = packet_view h p \<and> rr_entries rt1 ! i = row"
    using after_scan [OF ok p il sc rt1_def] by blast
  have rl: "length row = LINKG_TRANSPORT_REASSEMBLY_WAYS" "rr_entries rt ! i \<noteq> []"
    using scan_cells [OF ok il sc] way_scan_length [OF sc] by auto
  obtain w where w: "(case fr of Some w \<Rightarrow> Some w | None \<Rightarrow> map_option fst old) = Some w" "w < length row"
    using way_scan_room [OF sc [unfolded nf] rl(2)] by blast
  have w2: "w < LINKG_TRANSPORT_REASSEMBLY_WAYS" using w rl by simp
  obtain e0 h0 where e0: "(e0, h0) = (if re_valid (row ! w) then (reassembly_entry_zero, linkg_transport_reassembly_entry_clear (row ! w) h1) else (row ! w, h1))"
    by (metis surj_pair)
  obtain e' where c: "linkg_transport_reassembly_create_entry_locked cls peer ep hdr fh p now (e0, h0) = (ret, e', h')"
    and rt': "rt' = rt\<lparr>rr_entries := (rr_entries rt)[i := row[w := e']]\<rparr>" and cn: "completed = None"
    using s valid fl sc nf w(1)
    by (auto simp: linkg_transport_reassembly_submit_locked_def Let_def e0 [symmetric] i split: prod.splits)
  have vp: "packet_view h1 p = packet_view h p" using a by simp
  have fl1: "linkg_transport_reassembly_fragment_length (fh_fragment_offset fh) (fh_packet_length fh) p h1 = Inr n"
    using fl fragment_length_view [OF vp] by simp
  have f1: "(fragment_key cls peer ep hdr fh, fh_packet_length fh, fh_fragment_offset fh, drop 24 (packet_bytes h1 p)) \<in> set [?f]"
    using packet_viewD(5) [OF vp] by simp
  have ow: "submittable (row ! w) h1 p" "entry_inv log h1 (row ! w)"
    using offered_way [OF _ _ il w2, of log others rt1 h1 p] a by auto
  have st: "entry_step [?f] undefined undefined p (row ! w) h1 None e' h' \<and>
    (ret = 0 \<and> entry_stored cls peer ep hdr fh p now e' \<or> ret < 0 \<and> \<not> first_fits fh p h1)"
    using replace_step [OF ow(1) _ fl1 f1 e0 c] ow(2) by (simp add: entry_inv_def)
  have "first_fits fh p h1" using fit packet_viewD(2,6) [OF vp] by (simp add: fragment_fits_def first_fits_def)
  then have ret: "ret = 0" "entry_stored cls peer ep hdr fh p now e'" using st by auto
  have rows: "rr_entries rt' ! i = row[w := e']" using ok il by (simp add: rt' reassembly_ok_def rows_shape_def)
  have nm: "\<not> (re_valid (row ! v) \<and> entry_key (row ! v) = fragment_key cls peer ep hdr fh)" if "v < length row" for v
    using way_scan_other [OF sc] nf that by (auto simp: reassembly_ways_def match_key)
  show ?thesis
    using ret cn st w2 rl nm by (intro conjI exI [of _ w] exI [of _ e']) (auto simp: rows entry_step_def)
qed


text \<open>The second fragment finds the first in its way.\<close>

lemma submit_found:
  assumes ok: "reassembly_ok log others rt h" and p: "offered others p rt h" and fit: "fragment_fits cls peer hdr fh p h"
    and i: "i = linkg_transport_reassembly_set cls peer ep hdr (fh_packet_id fh)"
    and w: "w < LINKG_TRANSPORT_REASSEMBLY_WAYS" and live: "\<not> linkg_transport_reassembly_expired now (rr_entries rt ! i ! w)"
      "re_valid (rr_entries rt ! i ! w)" "entry_key (rr_entries rt ! i ! w) = fragment_key cls peer ep hdr fh"
    and uniq: "\<And>v. v < LINKG_TRANSPORT_REASSEMBLY_WAYS \<Longrightarrow> v \<noteq> w \<Longrightarrow>
       \<not> (re_valid (rr_entries rt ! i ! v) \<and> entry_key (rr_entries rt ! i ! v) = fragment_key cls peer ep hdr fh)"
    and s: "linkg_transport_reassembly_submit_locked cls peer ep (Some hdr) (Some fh) (Some p) now rt h = (ret, completed, rt', h')"
  obtains h1 e' where "reassembly_join fh p (rr_entries rt ! i ! w, h1) = (ret, completed, e', h')"
    "\<And>x. 0 < refs h1 x \<Longrightarrow> packet_view h1 x = packet_view h x" "0 < refs h1 p"
    "submittable (rr_entries rt ! i ! w) h1 p" "\<And>x. 0 < reassembly_holds (rr_entries rt ! i ! w) x \<Longrightarrow> 0 < refs h1 x"
proof -
  have il: "i < LINKG_TRANSPORT_REASSEMBLY_SET_COUNT" unfolding i by (rule reassembly_set_less)
  have len: "length (rr_entries rt ! i) = LINKG_TRANSPORT_REASSEMBLY_WAYS" using ok il by (simp add: reassembly_ok_def rows_shape_def)
  obtain n where fl: "linkg_transport_reassembly_fragment_length (fh_fragment_offset fh) (fh_packet_length fh) p h = Inr n"
    and valid: "linkg_transport_class_valid cls" "linkg_transport_reassembly_peer_valid peer" "th_flags hdr AND 1 \<noteq> 0"
    using fit by (auto simp: fragment_fits_def)
  obtain found fr old row h1 where sc:
    "way_scan (reassembly_ways cls peer ep hdr fh now) 0 (rr_entries rt ! i) None None h = (found, fr, old, row, h1)"
    by (metis prod_cases5)
  have "key_live now (fragment_key cls peer ep hdr fh) (rr_entries rt ! i)"
    using live w len nth_mem by (fastforce simp: key_live_def)
  then obtain v where v: "found = Some v" using scan_live [OF sc] by (cases found) auto
  with scan_live [OF sc, of v] have fv: "v < length (rr_entries rt ! i)" "row ! v = rr_entries rt ! i ! v"
    "re_valid (rr_entries rt ! i ! v)" "entry_key (rr_entries rt ! i ! v) = fragment_key cls peer ep hdr fh" by auto
  then have vw: "v = w" using uniq len by auto
  define rt1 where "rt1 = rt\<lparr>rr_entries := (rr_entries rt)[i := row]\<rparr>"
  have a: "reassembly_ok log others rt1 h1 \<and> offered others p rt1 h1 \<and> 0 < refs h1 p \<and> rr_entries rt1 ! i = row"
    using after_scan [OF ok p il sc rt1_def] by blast
  have k: "packet_view h1 x = packet_view h x" if "0 < refs h1 x" for x
    using scan_cells [OF ok il sc] that by (simp add: cache_keeps_def)
  have sub: "submittable (row ! w) h1 p" using offered_way [OF _ _ il w, of log others rt1 h1 p] a by auto
  obtain e' where j: "reassembly_join fh p (row ! w, h1) = (ret, completed, e', h')"
    using s valid fl sc v vw by (auto simp: linkg_transport_reassembly_submit_locked_def Let_def i split: prod.splits)
  have "0 < refs h1 x" if "0 < reassembly_holds (row ! w) x" for x
    using sub that by (auto simp: submittable_def intro: less_le_trans)
  then show ?thesis using that j k a sub fv(2) vw by auto
qed

text \<open>A packet that is offered stays so while another is submitted.\<close>

lemma offered_kept:
  assumes f: "submit_facts log others key plen p1 rt h ret completed rt1 h1" and p2: "offered others p2 rt h" "p1 \<noteq> p2"
    and ok: "reassembly_ok log others rt h" "reassembly_ok log others rt1 h1"
  shows "offered others p2 rt1 h1 \<and> packet_view h1 p2 = packet_view h p2"
  by (rule reasm_inv.offered_other [OF _ reassembly_okD(1) [OF ok(2)] p2]) (use f reassembly_okD(1) [OF ok(1)] in \<open>auto simp: submit_facts_def\<close>)

definition times_close :: "u64 \<Rightarrow> u64 \<Rightarrow> bool" where
  "times_close t1 t2 \<longleftrightarrow> t1 \<le> t2 \<and> t2 < t1 + LINKG_TRANSPORT_REASSEMBLY_TTL_US"

text \<open>The payloads in the order of the packet, whichever fragment is named first.\<close>

definition whole_packet :: "linkg_transport_fragment_header \<Rightarrow> u8 list \<Rightarrow> u8 list \<Rightarrow> u8 list" where
  "whole_packet fh1 payload1 payload2 =
     (if fh_fragment_offset fh1 = 0 then payload1 @ payload2 else payload2 @ payload1)"

lemma two_fragments:
  assumes ok: "reassembly_ok log others rt h" and p: "offered others p1 rt h" "offered others p2 rt h" "p1 \<noteq> p2"
    and fit: "fragment_fits cls peer hdr1 fh1 p1 h" "fragment_fits cls peer hdr2 fh2 p2 h"
    and same: "fragment_key cls peer ep hdr2 fh2 = fragment_key cls peer ep hdr1 fh1" "fh_packet_length fh2 = fh_packet_length fh1"
      "fh_fragment_offset fh2 \<noteq> fh_fragment_offset fh1"
    and nl: "\<not> key_live now1 (fragment_key cls peer ep hdr1 fh1)
      (rr_entries rt ! linkg_transport_reassembly_set cls peer ep hdr1 (fh_packet_id fh1))"
    and t: "times_close now1 now2"
    and s1: "linkg_transport_reassembly_submit_locked cls peer ep (Some hdr1) (Some fh1) (Some p1) now1 rt h = (r1, c1, rt1, h1)"
    and s2: "linkg_transport_reassembly_submit_locked cls peer ep (Some hdr2) (Some fh2) (Some p2) now2 rt1 h1 = (r2, c2, rt2, h2)"
  shows "r1 = 0 \<and> c1 = None \<and> r2 = 1 \<and> c2 = Some (if fh_fragment_offset fh1 = 0 then p1 else p2) \<and>
    packet_bytes h2 (the c2) = whole_packet fh1 (drop 24 (packet_bytes h p1)) (drop 24 (packet_bytes h p2))"
proof -
  define i where "i = linkg_transport_reassembly_set cls peer ep hdr1 (fh_packet_id fh1)"
  have i2: "i = linkg_transport_reassembly_set cls peer ep hdr2 (fh_packet_id fh2)"
    using same(1) by (simp add: i_def linkg_transport_reassembly_set_def fragment_hash_def fragment_key_def)
  let ?k = "fragment_key cls peer ep hdr1 fh1" and ?l = "fh_packet_length fh1"
  let ?f1 = "(?k, ?l, fh_fragment_offset fh1, drop 24 (packet_bytes h p1))"
  let ?f2 = "(?k, ?l, fh_fragment_offset fh2, drop 24 (packet_bytes h p2))"
  from submit_new [OF ok p(1) fit(1) i_def nl [folded i_def] s1] obtain w where r1: "r1 = 0" "c1 = None"
    and w: "w < LINKG_TRANSPORT_REASSEMBLY_WAYS" "entry_stored cls peer ep hdr1 fh1 p1 now1 (rr_entries rt1 ! i ! w)"
      "entry_inv [?f1] h1 (rr_entries rt1 ! i ! w)"
      "\<And>v. v < LINKG_TRANSPORT_REASSEMBLY_WAYS \<Longrightarrow> v \<noteq> w \<Longrightarrow> \<not> (re_valid (rr_entries rt1 ! i ! v) \<and> entry_key (rr_entries rt1 ! i ! v) = ?k)"
    by blast
  define e where "e = rr_entries rt1 ! i ! w"
  note st = w(2) [folded e_def, unfolded entry_stored_def]
  have f: "submit_facts (?f1 # log) others ?k ?l p1 rt h r1 c1 rt1 h1"
    by (rule submit_step [OF log_cons [OF ok] p(1) _ s1]) simp
  then have ok1: "reassembly_ok (?f1 # log) others rt1 h1" using r1 by (simp add: submit_facts_def)
  have p2: "offered others p2 rt1 h1" "packet_view h1 p2 = packet_view h p2"
    using offered_kept [OF f p(2)] p(3) log_cons [OF ok] ok1 by auto
  have fit2: "fragment_fits cls peer hdr2 fh2 p2 h1" using fit(2) fragment_fits_view [OF p2(2)] by simp
  have live: "\<not> linkg_transport_reassembly_expired now2 e"
    using st t by (auto simp: linkg_transport_reassembly_expired_def times_close_def)
  obtain h3 e' where j: "reassembly_join fh2 p2 (e, h3) = (r2, c2, e', h2)"
    and v3: "\<And>x. 0 < refs h3 x \<Longrightarrow> packet_view h3 x = packet_view h1 x" "0 < refs h3 p2"
    and sub: "submittable e h3 p2" "\<And>x. 0 < reassembly_holds e x \<Longrightarrow> 0 < refs h3 x"
    using submit_found [OF ok1 p2(1) fit2 i2 w(1) live [unfolded e_def] _ _ _ s2] st w(4) same(1) e_def by metis
  have vp: "packet_view h3 p2 = packet_view h p2" using v3 p2(2) by simp
  have inv3: "entry_inv [?f2, ?f1] h3 e" by (rule entry_inv_frame [OF w(3) [folded e_def]]) (use v3(1) sub(2) in auto)
  obtain n where fl: "linkg_transport_reassembly_fragment_length (fh_fragment_offset fh2) (fh_packet_length fh2) p2 h3 = Inr n"
    using fit2 fragment_fits_view [OF v3(1) [OF v3(2)], of cls peer hdr2 fh2] by (auto simp: fragment_fits_def)
  have log: "(?k, fh_packet_length fh2, fh_fragment_offset fh2, drop 24 (packet_bytes h3 p2)) \<in> set [?f2, ?f1]"
    using packet_viewD(5) [OF vp] same(2) by simp
  have el: "re_packet_length e = fh_packet_length fh2" using st same(2) by simp
  have res: "r2 = 1 \<and> c2 = Some (if fh_fragment_offset fh1 = 0 then p1 else p2) \<and>
    entry_step [?f2, ?f1] ?k (fh_packet_length fh2) p2 e h3 c2 e' h2"
  proof (cases "fh_fragment_offset fh1 = 0")
    case True
    then have "re_first_packet e = Some p1" "fh_fragment_offset fh2 \<noteq> 0" using st same(3) by auto
    then show ?thesis using join_tail_step [OF sub(1) inv3 _ _ el _ _ fl log j] st True by auto
  next
    case False
    have "fh_fragment_offset fh1 = 1420 \<or> fh_fragment_offset fh1 = 0" "fh_fragment_offset fh2 = 1420 \<or> fh_fragment_offset fh2 = 0"
      using fragment_length_ok [OF fl] fit(1) fragment_length_ok by (auto simp: fragment_fits_def split: if_splits)
    then have o2: "fh_fragment_offset fh2 = 0" using False same(3) by auto
    have "re_tail_packet e = Some p1" using st False by simp
    moreover have "first_fits fh2 p2 h3" using fit2 packet_viewD(2,6) [OF v3(1) [OF v3(2)]] by (simp add: fragment_fits_def first_fits_def)
    ultimately show ?thesis using join_first_step [OF sub(1) inv3 _ _ el o2 _ fl log j] st False o2 by (auto simp: first_fits_def)
  qed
  then obtain A B where ab: "(?k, fh_packet_length fh2, 0, A) \<in> set [?f2, ?f1]" "(?k, fh_packet_length fh2, 1420, B) \<in> set [?f2, ?f1]"
    "packet_bytes h2 (the c2) = A @ B"
    unfolding entry_step_def by fastforce
  then show ?thesis using res r1 same(2,3) by (auto simp: whole_packet_def)
qed

section \<open>Properties\<close>

text \<open>
  C5. A fragmented packet whose two fragments reach an initialised cache within the time to live, in either
  order, with no other live entry of its key, comes out whole: the first submission answers 0, the second 1
  with the packet of the first fragment, holding the payload of the first followed by that of the tail.
\<close>

theorem reassembly_either_order:
  assumes "reassembly_ok log others rt h" "offered others p1 rt h" "offered others p2 rt h" "p1 \<noteq> p2"
    and "fragment_fits cls peer hdr1 fh1 p1 h" "fragment_fits cls peer hdr2 fh2 p2 h"
    and "fragment_key cls peer ep hdr2 fh2 = fragment_key cls peer ep hdr1 fh1" "fh_packet_length fh2 = fh_packet_length fh1"
      "fh_fragment_offset fh2 \<noteq> fh_fragment_offset fh1"
    and "\<not> key_live now1 (fragment_key cls peer ep hdr1 fh1)
      (rr_entries rt ! linkg_transport_reassembly_set cls peer ep hdr1 (fh_packet_id fh1))"
    and "times_close now1 now2"
    and "linkg_transport_reassembly_submit_locked cls peer ep (Some hdr1) (Some fh1) (Some p1) now1 rt h = (r1, c1, rt1, h1)"
    and "linkg_transport_reassembly_submit_locked cls peer ep (Some hdr2) (Some fh2) (Some p2) now2 rt1 h1 = (r2, c2, rt2, h2)"
  shows "r1 = 0 \<and> c1 = None \<and> r2 = 1 \<and> c2 = Some (if fh_fragment_offset fh1 = 0 then p1 else p2) \<and>
    packet_bytes h2 (the c2) = whole_packet fh1 (drop 24 (packet_bytes h p1)) (drop 24 (packet_bytes h p2))"
  by (rule two_fragments [OF assms])

text \<open>
  C6. Whatever the order of submissions, expiries, evictions and peer resets, and whatever the rest of the
  program does with its own packets in between, a packet that comes out of the cache is the payload of a
  first and of a tail fragment submitted for the same peer, epoch, class, type, source, destination and
  packet identifier, never a mixture; and every reference is either the cache's or accounted to its holder.
\<close>

theorem reassembly_genuine:
  assumes "reasm_reach (rt, h, others, log, out)"
  shows "(\<forall>(key, plen, bytes)\<in>set out. \<exists>A B. (key, plen, 0, A) \<in> set log \<and> (key, plen, 1420, B) \<in> set log \<and>
      bytes = A @ B \<and> length bytes = unat plen) \<and>
    heap_ok h \<and> (\<forall>p. refs h p = others p + cache_held reassembly_holds (concat (rr_entries rt)) p)"
  using reasm_reach_inv [OF assms]
  by (auto simp: reasm_inv_def genuine_def reassembly_ok_def cache_inv_def cache_balance_def)

definition entry_frames :: "linkg_transport_reassembly_entry \<Rightarrow> nat" where
  "entry_frames e = (if re_first_packet e = None then 0 else 1) + (if re_tail_packet e = None then 0 else 1)"

lemma reset_peer_frames_sum:
  "reset_peer_frames n es = of_nat (sum_list (map entry_frames (filter (\<lambda>e. re_valid e \<and> re_peer_node_id e = n) es)))"
proof -
  have "fold (\<lambda>entry frames. if re_valid entry \<and> re_peer_node_id entry = n
             then frames + (if re_first_packet entry \<noteq> None then 1 else 0) + (if re_tail_packet entry \<noteq> None then 1 else 0)
             else frames) es f = f + of_nat (sum_list (map entry_frames (filter (\<lambda>e. re_valid e \<and> re_peer_node_id e = n) es)))"
    for f :: u64
    by (induction es arbitrary: f) (auto simp: entry_frames_def)
  then show ?thesis by (simp add: reset_peer_frames_def)
qed

text \<open>
  Resetting a peer drops exactly its entries, counts the packets they held in
  \<open>reassembly_reset_frames\<close> and gives their references back; and releasing the runtime leaves no reference
  with the cache.
\<close>

theorem reassembly_reset_and_deinit:
  assumes "reassembly_ok log others rt h" "rr_initialized rt" "mutex_ok (rr_lock rt)" "linkg_transport_reassembly_peer_valid n"
    and "linkg_transport_reassembly_reset_peer n rt c h = (r, rt1, c1, h1)"
    and "linkg_transport_reassembly_runtime_deinit rt1 h1 = (r2, rt2, h2)"
  shows "r = 0 \<and> concat (rr_entries rt1) =
      map (\<lambda>e. if re_valid e \<and> re_peer_node_id e = n then reassembly_entry_zero else e) (concat (rr_entries rt)) \<and>
    gs_reassembly_reset_frames (tc_stats c1) = gs_reassembly_reset_frames (tc_stats c) +
      of_nat (sum_list (map entry_frames (filter (\<lambda>e. re_valid e \<and> re_peer_node_id e = n) (concat (rr_entries rt))))) \<and>
    (\<forall>p. refs h1 p = others p + cache_held reassembly_holds (concat (rr_entries rt1)) p) \<and>
    r2 = 0 \<and> refs h2 = others \<and> rt2 = reassembly_zero"
proof -
  obtain rows h' where sw: "set_sweep (\<lambda>entry. re_valid entry \<and> re_peer_node_id entry = n) linkg_transport_reassembly_entry_clear
      reassembly_entry_zero (rr_entries rt) h = (rows, h')" by fastforce
  have rows: "rows = map (map (\<lambda>e. if re_valid e \<and> re_peer_node_id e = n then reassembly_entry_zero else e)) (rr_entries rt)"
    using set_sweep_entries [of "\<lambda>entry. re_valid entry \<and> re_peer_node_id entry = n"
      linkg_transport_reassembly_entry_clear reassembly_entry_zero "rr_entries rt" h] sw by simp
  have one: "r = 0" "rt1 = rt\<lparr>rr_entries := rows\<rparr>" "h1 = h'"
    "c1 = linkg_transport_reassembly_record_reset (reset_peer_frames n (concat (rr_entries rt))) c"
    using assms by (auto simp: linkg_transport_reassembly_reset_peer_def Let_def sw)
  have ok1: "reassembly_ok log others rt1 h1" using reset_peer_cells [OF assms(1,5)] .
  obtain rows2 h'' where sw2: "set_sweep (\<lambda>_. True) linkg_transport_reassembly_entry_clear reassembly_entry_zero (rr_entries rt1) h1 = (rows2, h'')"
    by fastforce
  have rows2: "rows2 = map (map (\<lambda>e. reassembly_entry_zero)) (rr_entries rt1)"
    using set_sweep_entries [of "\<lambda>_. True" linkg_transport_reassembly_entry_clear reassembly_entry_zero "rr_entries rt1" h1] sw2 by simp
  have init1: "rr_initialized rt1" "mutex_ok (rr_lock rt1)" using assms(2,3) one(2) by auto
  have two: "r2 = 0" "rt2 = reassembly_zero" "h2 = h''"
    using assms(6) init1 by (auto simp: linkg_transport_reassembly_runtime_deinit_def Let_def sw2)
  have "cache_held reassembly_holds (concat rows2) p = 0" for p
    by (auto simp: rows2 cache_held_def reasm.zero_holds sum_list_eq_0_iff)
  then have "refs h2 = others"
    using sweep_cells [OF ok1 sw2] two by (auto simp: reassembly_ok_def cache_inv_def cache_balance_def)
  moreover have "gs_reassembly_reset_frames (tc_stats c1) = gs_reassembly_reset_frames (tc_stats c) +
      of_nat (sum_list (map entry_frames (filter (\<lambda>e. re_valid e \<and> re_peer_node_id e = n) (concat (rr_entries rt)))))"
    by (simp add: one(4) linkg_transport_reassembly_record_reset_def flip: reset_peer_frames_sum)
  ultimately show ?thesis using one two ok1
    by (auto simp: rows map_concat reassembly_ok_def cache_inv_def cache_balance_def)
qed

section \<open>Witnesses\<close>

definition empty_cache :: linkg_transport_reassembly_runtime where
  "empty_cache = snd (linkg_transport_reassembly_runtime_init 0 mutex_zero reassembly_zero)"

definition after_tail where
  "after_tail = linkg_transport_reassembly_submit_locked 1 2 2 (Some fragment_base) (Some tail_header) (Some 103) 1000 empty_cache fragment_heap"

definition after_both where
  "after_both = (case after_tail of (r1, c1, rt1, h1) \<Rightarrow>
     linkg_transport_reassembly_submit_locked 1 2 2 (Some fragment_base) (Some sample_fragment) (Some 102) 2000 rt1 h1)"

lemma fragment_start: "reasm_reach (empty_cache, fragment_heap, refs fragment_heap, [], [])"
  by (rule reasm_reach.start [OF fragment_heap_ok, of mutex_zero])
    (simp add: empty_cache_def linkg_transport_reassembly_runtime_init_def reassembly_zero_def)

lemma empty_cache_rows: "rr_entries empty_cache = replicate 64 (replicate 2 reassembly_entry_zero)"
  by (simp add: empty_cache_def linkg_transport_reassembly_runtime_init_def reassembly_zero_def)

lemma fragment_offered: "p = 102 \<or> p = 103 \<Longrightarrow> offered (refs fragment_heap) p empty_cache fragment_heap"
  using fragment_refs
  by (auto simp: cache_offered_def empty_cache_rows cache_held_def sum_list_eq_0_iff reasm.zero_holds)

lemma fragment_fit:
  "fragment_fits 1 2 fragment_base tail_header 103 fragment_heap" "fragment_fits 1 2 fragment_base sample_fragment 102 fragment_heap"
  by (simp_all add: fragment_fits_def first_fits_def linkg_transport_class_valid_def linkg_transport_reassembly_peer_valid_def
      fragment_base_def sample_header_def tail_header_def sample_fragment_def linkg_transport_reassembly_fragment_length_def
      fragment_heap_def pool_slot_size_def Let_def)

lemma fragment_not_live: "i < 64 \<Longrightarrow> \<not> key_live now key (rr_entries empty_cache ! i)"
  by (auto simp: key_live_def empty_cache_rows reassembly_entry_zero_def)

lemmas fragment_sample = fragment_offered fragment_fit fragment_keys fragment_not_live [OF reassembly_set_less]

lemma fragment_ok: "reassembly_ok [] (refs fragment_heap) empty_cache fragment_heap"
  using reasm_reach_inv [OF fragment_start] by (simp add: reasm_inv_def)

theorem reassembly_either_order_witness:
  "case after_tail of (r1, c1, rt1, h1) \<Rightarrow> case after_both of (r2, c2, rt2, h2) \<Rightarrow>
     r1 = 0 \<and> c1 = None \<and> r2 = 1 \<and> c2 = Some 102 \<and>
     packet_bytes h2 102 = drop 24 (packet_bytes fragment_heap 102) @ drop 24 (packet_bytes fragment_heap 103)"
proof -
  obtain r1 c1 rt1 h1 where s1: "after_tail = (r1, c1, rt1, h1)" by (metis prod_cases4)
  obtain r2 c2 rt2 h2 where s2: "after_both = (r2, c2, rt2, h2)" by (metis prod_cases4)
  have "r1 = 0 \<and> c1 = None \<and> r2 = 1 \<and> c2 = Some (if fh_fragment_offset tail_header = 0 then 103 else 102) \<and>
    packet_bytes h2 (the c2) = whole_packet tail_header (drop 24 (packet_bytes fragment_heap 103)) (drop 24 (packet_bytes fragment_heap 102))"
    by (rule reassembly_either_order [OF fragment_ok fragment_sample(1,1) _ fragment_sample(2,3,4) _ _ fragment_sample(5) _
          s1 [unfolded after_tail_def] s2 [unfolded after_both_def s1 prod.case]])
      (simp_all add: sample_fragment_def tail_header_def times_close_def)
  then show ?thesis by (auto simp: s1 s2 whole_packet_def tail_header_def)
qed

lemma after_both_value:
  obtains rt1 h1 rt2 h2 where "after_tail = (0, None, rt1, h1)" "after_both = (1, Some 102, rt2, h2)"
proof -
  obtain r1 c1 rt1 h1 where s1: "after_tail = (r1, c1, rt1, h1)" by (metis prod_cases4)
  obtain r2 c2 rt2 h2 where s2: "after_both = (r2, c2, rt2, h2)" by (metis prod_cases4)
  have "r1 = 0 \<and> c1 = None \<and> r2 = 1 \<and> c2 = Some (if fh_fragment_offset tail_header = 0 then 103 else 102) \<and>
    packet_bytes h2 (the c2) = whole_packet tail_header (drop 24 (packet_bytes fragment_heap 103)) (drop 24 (packet_bytes fragment_heap 102))"
    by (rule two_fragments [OF fragment_ok fragment_sample(1,1) _ fragment_sample(2,3,4) _ _ fragment_sample(5) _
          s1 [unfolded after_tail_def] s2 [unfolded after_both_def s1 prod.case]])
      (simp_all add: sample_fragment_def tail_header_def times_close_def)
  then show ?thesis using that s1 s2 by (simp add: tail_header_def)
qed

theorem reassembly_genuine_witness:
  "\<exists>rt h others log bytes. reasm_reach (rt, h, others, log, [(fragment_key 1 2 2 fragment_base tail_header, 1500, bytes)]) \<and>
     length bytes = 1500 \<and> (\<exists>A B. (fragment_key 1 2 2 fragment_base tail_header, 1500, 0, A) \<in> set log \<and>
        (fragment_key 1 2 2 fragment_base tail_header, 1500, 1420, B) \<in> set log \<and> bytes = A @ B)"
proof -
  obtain rt1 h1 rt2 h2 where v: "after_tail = (0, None, rt1, h1)" "after_both = (1, Some 102, rt2, h2)"
    by (rule after_both_value)
  have s1: "reasm_step (empty_cache, fragment_heap, refs fragment_heap, [], [])
      (rt1, h1, \<lambda>x. refs fragment_heap x + (if None = Some x then 1 else 0),
       (fragment_key 1 2 2 fragment_base tail_header, 1500, 1420, drop 24 (packet_bytes fragment_heap 103)) # [],
       case None of None \<Rightarrow> [] | Some c \<Rightarrow> (fragment_key 1 2 2 fragment_base tail_header, 1500, packet_bytes h1 c) # [])"
    using reasm_step.submit [OF fragment_sample(1) v(1) [unfolded after_tail_def], of "[]" "[]"] by (simp add: tail_header_def)
  have f: "submit_facts [(fragment_key 1 2 2 fragment_base tail_header, fh_packet_length tail_header, fh_fragment_offset tail_header,
        drop 24 (packet_bytes fragment_heap 103))] (refs fragment_heap) (fragment_key 1 2 2 fragment_base tail_header)
        (fh_packet_length tail_header) 103 empty_cache fragment_heap 0 None rt1 h1"
    by (rule submit_step [OF log_cons [OF fragment_ok] fragment_sample(1) _ v(1) [unfolded after_tail_def]]) simp_all
  have "reassembly_ok [(fragment_key 1 2 2 fragment_base tail_header, fh_packet_length tail_header, fh_fragment_offset tail_header,
        drop 24 (packet_bytes fragment_heap 103))] (refs fragment_heap) rt1 h1" using f by (simp add: submit_facts_def)
  then have o: "offered (refs fragment_heap) 102 rt1 h1" using offered_kept [OF f fragment_sample(1) _ log_cons [OF fragment_ok]] by simp
  have s2: "linkg_transport_reassembly_submit_locked 1 2 2 (Some fragment_base) (Some sample_fragment) (Some 102) 2000 rt1 h1 = (1, Some 102, rt2, h2)"
    using v(2) unfolding after_both_def v(1) prod.case .
  have "\<exists>others log. reasm_reach (rt2, h2, others, log, [(fragment_key 1 2 2 fragment_base tail_header, 1500, packet_bytes h2 102)])"
    using reasm_reach.step [OF reasm_reach.step [OF fragment_start s1]
        reasm_step.submit [OF _ s2]] o fragment_keys by (fastforce simp: sample_fragment_def)
  then obtain others log where "reasm_reach (rt2, h2, others, log, [(fragment_key 1 2 2 fragment_base tail_header, 1500, packet_bytes h2 102)])"
    by blast
  note r = this
  from reassembly_genuine [OF r] have "length (packet_bytes h2 102) = 1500 \<and>
    (\<exists>A B. (fragment_key 1 2 2 fragment_base tail_header, 1500, 0, A) \<in> set log \<and>
      (fragment_key 1 2 2 fragment_base tail_header, 1500, 1420, B) \<in> set log \<and> packet_bytes h2 102 = A @ B)" by auto
  with r show ?thesis by blast
qed

theorem reassembly_reset_and_deinit_witness:
  "refs (snd (snd (linkg_transport_reassembly_runtime_deinit
     (fst (snd (linkg_transport_reassembly_reset_peer 2 empty_cache (transport_zero sequences_zero) fragment_heap)))
     (snd (snd (snd (linkg_transport_reassembly_reset_peer 2 empty_cache (transport_zero sequences_zero) fragment_heap))))))) =
   refs fragment_heap"
proof -
  have c: "rr_initialized empty_cache" "mutex_ok (rr_lock empty_cache)" "linkg_transport_reassembly_peer_valid 2"
    by (simp_all add: empty_cache_def linkg_transport_reassembly_runtime_init_def reassembly_zero_def linkg_transport_reassembly_peer_valid_def)
  obtain r rt1 c1 h1 where 1: "linkg_transport_reassembly_reset_peer 2 empty_cache (transport_zero sequences_zero) fragment_heap = (r, rt1, c1, h1)"
    by (metis prod_cases4)
  obtain r2 rt2 h2 where 2: "linkg_transport_reassembly_runtime_deinit rt1 h1 = (r2, rt2, h2)" by (metis prod_cases3)
  show ?thesis using reassembly_reset_and_deinit [OF fragment_ok c 1 2] by (simp add: 1 2)
qed

end
