(* ===== verification/Tx_Ring.thy ===== *)
theory Tx_Ring
  imports Packet_Pool Link_Path
begin

text \<open>
  The ring buffer behind the transmit queues. \<open>src/modules/wifi/wifi_tx_queue.c\<close> and
  \<open>src/modules/cellular/cellular_tx_queue.c\<close> keep the same ring of items (array, \<open>capacity\<close>,
  \<open>count\<close>, \<open>head\<close>, \<open>tail\<close>) and move through it with the same loops; this theory holds the ring, the
  loops and what they do to the contents seen as a list, and the interface of a bounded FIFO queue
  that the rings provide.
\<close>

section \<open>The bounded FIFO interface\<close>

locale fifo =
  fixes enq :: "'i \<Rightarrow> 'q \<Rightarrow> 'q"
    and deq :: "'q \<Rightarrow> 'q"
    and front :: "'q \<Rightarrow> 'i"
    and cap :: "'q \<Rightarrow> nat"
    and content :: "'q \<Rightarrow> 'i list"
    and ok :: "'q \<Rightarrow> bool"
  assumes enq_ok: "ok q \<Longrightarrow> length (content q) < cap q \<Longrightarrow> ok (enq x q)"
    and enq_content: "ok q \<Longrightarrow> length (content q) < cap q \<Longrightarrow> content (enq x q) = content q @ [x]"
    and enq_cap: "ok q \<Longrightarrow> length (content q) < cap q \<Longrightarrow> cap (enq x q) = cap q"
    and deq_ok: "ok q \<Longrightarrow> content q \<noteq> [] \<Longrightarrow> ok (deq q)"
    and deq_content: "ok q \<Longrightarrow> content q \<noteq> [] \<Longrightarrow> content (deq q) = tl (content q)"
    and deq_cap: "ok q \<Longrightarrow> content q \<noteq> [] \<Longrightarrow> cap (deq q) = cap q"
    and front_content: "ok q \<Longrightarrow> content q \<noteq> [] \<Longrightarrow> front q = hd (content q)"
    and bounded: "ok q \<Longrightarrow> length (content q) \<le> cap q"
begin

lemma enq_all:
  assumes "ok q" "length (content q) + length xs \<le> cap q"
  shows "ok (fold enq xs q) \<and> content (fold enq xs q) = content q @ xs \<and> cap (fold enq xs q) = cap q"
  using assms
proof (induction xs arbitrary: q)
  case (Cons x xs)
  then have "length (content q) < cap q" by simp
  then show ?case using Cons.IH [of "enq x q"] Cons.prems by (simp add: enq_ok enq_content enq_cap)
qed simp

lemma deq_all:
  assumes "ok q" "n \<le> length (content q)"
  shows "ok ((deq ^^ n) q) \<and> content ((deq ^^ n) q) = drop n (content q) \<and> cap ((deq ^^ n) q) = cap q"
  using assms(2)
proof (induction n)
  case (Suc n)
  then have "content ((deq ^^ n) q) \<noteq> []" by auto
  then show ?case using Suc by (simp add: deq_ok deq_content deq_cap drop_Suc tl_drop)
qed (simp add: assms(1))

text \<open>What goes in comes out, in the same order.\<close>

lemma enq_then_deq:
  assumes "ok q" "length (content q) + length xs \<le> cap q"
  shows "content ((deq ^^ length (content q)) (fold enq xs q)) = xs"
  using enq_all [OF assms] deq_all [of "fold enq xs q" "length (content q)"] by simp

end

section \<open>State\<close>

record net =
  nt_heap :: heap
  nt_paths :: path_store

record tx_queue_item =
  ti_packet :: "nat option"
  ti_path :: "nat option"
  ti_destination :: linkg_path_endpoint
  ti_enqueue_us :: u64

record tx_queue =
  tq_items :: "tx_queue_item list"
  tq_capacity :: u32
  tq_count :: u32
  tq_head :: u32
  tq_tail :: u32

definition item_zero :: tx_queue_item where
  "item_zero = \<lparr>ti_packet = None, ti_path = None, ti_destination = endpoint_zero, ti_enqueue_us = 0\<rparr>"

definition tx_next :: "tx_queue \<Rightarrow> u32 \<Rightarrow> u32" where
  "tx_next queue index = (let index = index + 1 in if index \<ge> tq_capacity queue then 0 else index)"

text \<open>The references an item holds are dropped; its fields are zeroed where it lies in the array.\<close>

definition tx_release_item :: "tx_queue_item \<Rightarrow> net \<Rightarrow> net" where
  "tx_release_item item n =
     (let n1 = (if ti_packet item \<noteq> None then n\<lparr>nt_heap := linkg_packet_release (ti_packet item) (nt_heap n)\<rparr> else n)
      in if ti_path item \<noteq> None then n1\<lparr>nt_paths := linkg_path_release (ti_path item) (nt_paths n1)\<rparr> else n1)"

definition tx_push :: "tx_queue_item \<Rightarrow> tx_queue \<Rightarrow> tx_queue" where
  "tx_push item queue =
     queue\<lparr>tq_items := (tq_items queue)[unat (tq_tail queue) := item],
       tq_tail := tx_next queue (tq_tail queue), tq_count := tq_count queue + 1\<rparr>"

definition tx_front :: "tx_queue \<Rightarrow> tx_queue_item" where
  "tx_front queue = tq_items queue ! unat (tq_head queue)"

definition tx_drop :: "tx_queue \<Rightarrow> tx_queue" where
  "tx_drop queue =
     queue\<lparr>tq_items := (tq_items queue)[unat (tq_head queue) := item_zero],
       tq_head := tx_next queue (tq_head queue), tq_count := tq_count queue - 1\<rparr>"

section \<open>Loops\<close>

text \<open>The push loop: retain the packet, fill the slot at the tail, advance.\<close>

fun tx_push_loop ::
    "nat option list \<Rightarrow> nat option \<Rightarrow> linkg_path_endpoint \<Rightarrow> u64 \<Rightarrow> tx_queue \<Rightarrow> heap \<Rightarrow> tx_queue \<times> heap" where
  "tx_push_loop [] path destination enqueue_us queue h = (queue, h)"
| "tx_push_loop (p # ps) path destination enqueue_us queue h =
     tx_push_loop ps path destination enqueue_us
       (tx_push \<lparr>ti_packet = p, ti_path = path, ti_destination = destination, ti_enqueue_us = enqueue_us\<rparr> queue)
       (linkg_packet_retain p h)"

text \<open>The discard and clear loops: release the item at the head, advance, \<open>n\<close> times.\<close>

fun tx_discard_loop :: "nat \<Rightarrow> tx_queue \<Rightarrow> net \<Rightarrow> tx_queue \<times> net" where
  "tx_discard_loop 0 queue n = (queue, n)"
| "tx_discard_loop (Suc k) queue n = tx_discard_loop k (tx_drop queue) (tx_release_item (tx_front queue) n)"

fun tx_peek_loop :: "tx_queue \<Rightarrow> u32 \<Rightarrow> nat \<Rightarrow> tx_queue_item list" where
  "tx_peek_loop queue queue_index 0 = []"
| "tx_peek_loop queue queue_index (Suc k) =
     tq_items queue ! unat queue_index # tx_peek_loop queue (tx_next queue queue_index) k"

text \<open>The purge loop compacts in place with a read and a write index.\<close>

fun tx_purge_loop ::
    "nat option \<Rightarrow> nat \<Rightarrow> u32 \<Rightarrow> u32 \<Rightarrow> u32 \<Rightarrow> tx_queue \<Rightarrow> net \<Rightarrow> u32 \<times> u32 \<times> tx_queue \<times> net" where
  "tx_purge_loop path 0 read_index write_index removed_count queue n = (write_index, removed_count, queue, n)"
| "tx_purge_loop path (Suc k) read_index write_index removed_count queue n =
     (let item = tq_items queue ! unat read_index in
      if ti_path item = path
      then tx_purge_loop path k (tx_next queue read_index) write_index (removed_count + 1)
             (queue\<lparr>tq_items := (tq_items queue)[unat read_index := item_zero]\<rparr>) (tx_release_item item n)
      else
        (let queue1 =
           (if write_index \<noteq> read_index
            then queue\<lparr>tq_items := (tq_items queue)[unat write_index := item, unat read_index := item_zero]\<rparr>
            else queue)
         in tx_purge_loop path k (tx_next queue read_index) (tx_next queue write_index) removed_count queue1 n))"

section \<open>The contents of a ring\<close>

definition ring_at :: "tx_queue \<Rightarrow> nat \<Rightarrow> nat" where
  "ring_at q i = (unat (tq_head q) + i) mod unat (tq_capacity q)"

definition tx_list :: "tx_queue \<Rightarrow> tx_queue_item list" where
  "tx_list q = map (\<lambda>i. tq_items q ! ring_at q i) [0..<unat (tq_count q)]"

definition tx_ok :: "tx_queue \<Rightarrow> bool" where
  "tx_ok q \<longleftrightarrow> 0 < tq_capacity q \<and> length (tq_items q) = unat (tq_capacity q) \<and>
     tq_count q \<le> tq_capacity q \<and> tq_head q < tq_capacity q \<and>
     unat (tq_tail q) = (unat (tq_head q) + unat (tq_count q)) mod unat (tq_capacity q)"

lemma length_tx_list [simp]: "length (tx_list q) = unat (tq_count q)"
  by (simp add: tx_list_def)

lemma tx_list_empty: "tx_list q = [] \<longleftrightarrow> tq_count q = 0"
  by (metis length_0_conv length_tx_list unat_eq_zero)

lemma nth_tx_list: "i < unat (tq_count q) \<Longrightarrow> tx_list q ! i = tq_items q ! ring_at q i"
  by (simp add: tx_list_def)

lemma unat_tx_next:
  assumes "i < tq_capacity q"
  shows "unat (tx_next q i) = (unat i + 1) mod unat (tq_capacity q)"
proof -
  have "unat (i + 1) = unat i + 1" using assms by (rule unat_inc_less)
  moreover have "Suc (unat i) mod unat (tq_capacity q) = (if unat (tq_capacity q) \<le> Suc (unat i) then 0 else Suc (unat i))"
    using assms by (auto simp: word_less_nat_alt Suc_le_eq le_Suc_eq)
  ultimately show ?thesis by (simp add: tx_next_def Let_def word_le_nat_alt)
qed

lemma ring_at_less: "tx_ok q \<Longrightarrow> ring_at q i < unat (tq_capacity q)"
  by (simp add: tx_ok_def ring_at_def word_less_nat_alt)

lemma mod_add_inj:
  assumes "i < n" "j < n" "(h + i) mod n = (h + j) mod (n :: nat)"
  shows "i = j"
proof -
  have "i = j" if "i \<le> j" "j < n" "(h + j) mod n = (h + i) mod n" for i j
  proof -
    have "n dvd j - i" using that mod_eq_dvd_iff_nat [of "h + i" "h + j" n] by simp
    then show ?thesis using that(1,2) nat_dvd_not_less [of "j - i" n] by linarith
  qed
  from this [of i j] this [of j i] assms show ?thesis by (cases "i \<le> j") auto
qed

text \<open>Positions of one ring are distinct, so an update at one position leaves the others alone.\<close>

lemma ring_at_inj:
  "i < unat (tq_capacity q) \<Longrightarrow> j < unat (tq_capacity q) \<Longrightarrow> ring_at q i = ring_at q j \<longleftrightarrow> i = j"
  using mod_add_inj [of i "unat (tq_capacity q)" j "unat (tq_head q)"] by (auto simp: ring_at_def)

lemma push_tx_list:
  assumes "tx_ok q" "tq_count q < tq_capacity q"
  shows "tx_ok (tx_push x q)" "tx_list (tx_push x q) = tx_list q @ [x]" "tq_capacity (tx_push x q) = tq_capacity q"
proof -
  let ?n = "unat (tq_capacity q)" and ?c = "unat (tq_count q)"
  have c: "unat (tq_count q + 1) = ?c + 1" using assms(2) by (rule unat_inc_less)
  have lt: "?c < ?n" using assms(2) by (simp add: word_less_nat_alt)
  have tail: "unat (tq_tail q) = ring_at q ?c" "tq_tail q < tq_capacity q"
    using assms(1) lt by (auto simp: tx_ok_def ring_at_def word_less_nat_alt)
  have nxt: "unat (tx_next q (tq_tail q)) = (unat (tq_head q) + (?c + 1)) mod ?n"
    using unat_tx_next [OF tail(2)] by (simp add: tail(1) ring_at_def mod_Suc_eq)
  show "tq_capacity (tx_push x q) = tq_capacity q" by (simp add: tx_push_def)
  show "tx_ok (tx_push x q)"
    using assms(1) c lt nxt by (auto simp: tx_ok_def tx_push_def word_le_nat_alt)
  have at: "ring_at (tx_push x q) = ring_at q" by (simp add: ring_at_def tx_push_def fun_eq_iff)
  have "tx_list (tx_push x q) ! i = (tx_list q @ [x]) ! i" if "i < ?c + 1" for i
  proof -
    have "tx_list (tx_push x q) ! i = (tq_items q)[ring_at q ?c := x] ! ring_at q i"
      using that c at by (subst nth_tx_list) (simp_all add: tx_push_def tail(1))
    also have "\<dots> = (tx_list q @ [x]) ! i"
      using that lt ring_at_inj [of ?c q i] ring_at_less [OF assms(1)] assms(1)
      by (auto simp: nth_append nth_list_update tx_ok_def nth_tx_list)
    finally show ?thesis .
  qed
  then show "tx_list (tx_push x q) = tx_list q @ [x]"
    by (intro nth_equalityI) (simp_all add: c tx_push_def)
qed

lemma drop_tx_list:
  assumes "tx_ok q" "tq_count q \<noteq> 0"
  shows "tx_ok (tx_drop q)" "tx_list (tx_drop q) = tl (tx_list q)" "tq_capacity (tx_drop q) = tq_capacity q"
    "tx_front q = hd (tx_list q)"
proof -
  let ?n = "unat (tq_capacity q)" and ?c = "unat (tq_count q)"
  have c: "unat (tq_count q - 1) = ?c - 1" "0 < ?c" using assms(2) by (simp_all add: unat_dec unat_pos)
  have lt: "?c \<le> ?n" and head: "tq_head q < tq_capacity q" using assms(1) by (auto simp: tx_ok_def word_le_nat_alt)
  have nxt: "unat (tx_next q (tq_head q)) = (unat (tq_head q) + 1) mod ?n" by (rule unat_tx_next [OF head])
  have h0: "unat (tq_head q) = ring_at q 0" using head by (simp add: ring_at_def word_less_nat_alt)
  show "tq_capacity (tx_drop q) = tq_capacity q" by (simp add: tx_drop_def)
  have at: "ring_at (tx_drop q) i = ring_at q (i + 1)" for i
    by (simp add: ring_at_def tx_drop_def nxt mod_simps)
  have "unat (tq_tail q) = ((unat (tq_head q) + 1) mod ?n + (?c - 1)) mod ?n"
    using assms(1) mod_add_left_eq [of "unat (tq_head q) + 1" ?n "?c - 1"] c(2) by (simp add: tx_ok_def)
  then show "tx_ok (tx_drop q)"
    using assms(1) c lt head by (auto simp: tx_ok_def tx_drop_def nxt word_le_nat_alt word_less_nat_alt)
  have "tx_list (tx_drop q) ! i = tl (tx_list q) ! i" if "i < ?c - 1" for i
  proof -
    have "tx_list (tx_drop q) ! i = (tq_items q)[ring_at q 0 := item_zero] ! ring_at q (i + 1)"
      using that c(1) at by (subst nth_tx_list) (simp_all add: tx_drop_def h0)
    also have "\<dots> = tx_list q ! (i + 1)"
      using that lt ring_at_inj [of 0 q "i + 1"] by (simp add: nth_tx_list)
    finally show ?thesis using that by (simp add: nth_tl)
  qed
  then show "tx_list (tx_drop q) = tl (tx_list q)"
    by (intro nth_equalityI) (simp_all add: c tx_drop_def)
  show "tx_front q = hd (tx_list q)"
    using c(2) h0 by (simp add: tx_front_def hd_conv_nth nth_tx_list tx_list_empty assms(2))
qed

interpretation ring: fifo tx_push tx_drop tx_front "\<lambda>q. unat (tq_capacity q)" tx_list tx_ok
proof
  fix q :: tx_queue and x
  show "tx_ok (tx_push x q)" "tx_list (tx_push x q) = tx_list q @ [x]" "unat (tq_capacity (tx_push x q)) = unat (tq_capacity q)"
    if "tx_ok q" "length (tx_list q) < unat (tq_capacity q)"
    using that push_tx_list by (simp_all add: word_less_nat_alt)
  show "tx_ok (tx_drop q)" "tx_list (tx_drop q) = tl (tx_list q)" "unat (tq_capacity (tx_drop q)) = unat (tq_capacity q)"
    "tx_front q = hd (tx_list q)" if "tx_ok q" "tx_list q \<noteq> []"
    using that drop_tx_list by (simp_all add: tx_list_empty)
  show "length (tx_list q) \<le> unat (tq_capacity q)" if "tx_ok q"
    using that by (simp add: tx_ok_def word_le_nat_alt)
qed

section \<open>What the loops do\<close>

definition tx_item :: "nat option \<Rightarrow> linkg_path_endpoint \<Rightarrow> u64 \<Rightarrow> nat option \<Rightarrow> tx_queue_item" where
  "tx_item path destination enqueue_us p =
     \<lparr>ti_packet = p, ti_path = path, ti_destination = destination, ti_enqueue_us = enqueue_us\<rparr>"

lemma tx_push_loop_fold:
  "tx_push_loop ps path destination enqueue_us q h =
     (fold tx_push (map (tx_item path destination enqueue_us) ps) q, fold linkg_packet_retain ps h)"
  by (induction ps arbitrary: q h) (simp_all add: tx_item_def)

lemma tx_discard_loop_spec:
  assumes "tx_ok q" "k \<le> unat (tq_count q)"
  shows "tx_discard_loop k q n = ((tx_drop ^^ k) q, fold tx_release_item (take k (tx_list q)) n)"
  using assms
proof (induction k arbitrary: q n)
  case (Suc k)
  have nz: "tq_count q \<noteq> 0" using Suc.prems(2) by auto
  note drop = drop_tx_list [OF Suc.prems(1) nz]
  have "unat (tq_count (tx_drop q)) = unat (tq_count q) - 1" using unat_dec [OF nz] by (simp add: tx_drop_def)
  then have "tx_discard_loop k (tx_drop q) (tx_release_item (tx_front q) n) =
      ((tx_drop ^^ k) (tx_drop q), fold tx_release_item (take k (tx_list (tx_drop q))) (tx_release_item (tx_front q) n))"
    using Suc.prems(2) by (intro Suc.IH [OF drop(1)]) simp
  moreover have "tx_list q \<noteq> []" using nz by (simp add: tx_list_empty)
  ultimately show ?case using drop(2,4) by (cases "tx_list q") (simp_all add: funpow_swap1)
qed simp

lemma tx_peek_loop_spec:
  assumes "tx_ok q" "unat index = ring_at q i"
  shows "tx_peek_loop q index k = map (\<lambda>j. tq_items q ! ring_at q j) [i..<i + k]"
  using assms(2)
proof (induction k arbitrary: index i)
  case (Suc k)
  have "index < tq_capacity q" using Suc.prems ring_at_less [OF assms(1)] by (simp add: word_less_nat_alt)
  then have "unat (tx_next q index) = ring_at q (Suc i)"
    using unat_tx_next [of index q] Suc.prems by (simp add: ring_at_def mod_Suc_eq)
  then show ?case using Suc.IH [of "tx_next q index" "Suc i"] Suc.prems by (simp add: upt_rec [of i])
qed simp

lemma tx_peek_list:
  assumes "tx_ok q" "k \<le> unat (tq_count q)"
  shows "tx_peek_loop q (tq_head q) k = take k (tx_list q)"
proof -
  have "unat (tq_head q) = ring_at q 0" using assms(1) by (simp add: tx_ok_def ring_at_def word_less_nat_alt)
  then show ?thesis using tx_peek_loop_spec [OF assms(1), of "tq_head q" 0 k] assms(2)
    by (simp add: tx_list_def take_map min_def)
qed

text \<open>
  The purge loop: \<open>K\<close> is what has been kept so far, stored at the first positions of the ring, and \<open>R\<close>
  what is still to be read.
\<close>

lemma tx_purge_loop_spec:
  assumes "0 < tq_capacity q" "length (tq_items q) = unat (tq_capacity q)"
    and "i + length R \<le> unat (tq_capacity q)" "length K \<le> i"
    and "unat rd = ring_at q i" "unat wr = ring_at q (length K)"
    and "\<forall>j<length K. tq_items q ! ring_at q j = K ! j"
    and "\<forall>j<length R. tq_items q ! ring_at q (i + j) = R ! j"
  shows "\<exists>wr' its. tx_purge_loop path (length R) rd wr rc q n =
      (wr', rc + of_nat (length (filter (\<lambda>x. ti_path x = path) R)), q\<lparr>tq_items := its\<rparr>,
       fold tx_release_item (filter (\<lambda>x. ti_path x = path) R) n) \<and>
    unat wr' = ring_at q (length (K @ filter (\<lambda>x. ti_path x \<noteq> path) R)) \<and>
    length its = unat (tq_capacity q) \<and>
    (\<forall>j<length (K @ filter (\<lambda>x. ti_path x \<noteq> path) R).
       its ! ring_at q j = (K @ filter (\<lambda>x. ti_path x \<noteq> path) R) ! j)"
  using assms
proof (induction R arbitrary: i K rd wr rc q n)
  case Nil
  then show ?case by (intro exI [of _ wr] exI [of _ "tq_items q"]) simp
next
  case (Cons x R)
  let ?N = "unat (tq_capacity q)"
  have N: "0 < ?N" using Cons.prems(1) by (simp add: word_less_nat_alt)
  have at: "ring_at q j < ?N" for j using N by (simp add: ring_at_def)
  have i: "i < ?N" "length K < ?N" using Cons.prems(3,4) by auto
  have rd: "unat (tx_next q rd) = ring_at q (Suc i)"
    using unat_tx_next [of rd q] at Cons.prems(5) by (simp add: word_less_nat_alt ring_at_def mod_Suc_eq)
  have wr: "unat (tx_next q wr) = ring_at q (Suc (length K))"
    using unat_tx_next [of wr q] at Cons.prems(6) by (simp add: word_less_nat_alt ring_at_def mod_Suc_eq)
  have x: "tq_items q ! unat rd = x" using Cons.prems(5,8) by auto
  have rest: "tq_items q ! ring_at q (Suc i + j) = R ! j" if "j < length R" for j
    using Cons.prems(8) that by auto
  have inj: "ring_at q (Suc i + j) \<noteq> ring_at q i" "ring_at q (Suc i + j) \<noteq> ring_at q (length K)" if "j < length R" for j
    using ring_at_inj [of "Suc i + j" q i] ring_at_inj [of "Suc i + j" q "length K"] that i Cons.prems(3,4) by auto
  have injK: "ring_at q j \<noteq> ring_at q i" "ring_at q j \<noteq> ring_at q (length K)" if "j < length K" for j
    using ring_at_inj [of j q i] ring_at_inj [of j q "length K"] that i Cons.prems(4) by auto
  show ?case
  proof (cases "ti_path x = path")
    case True
    let ?q = "q\<lparr>tq_items := (tq_items q)[unat rd := item_zero]\<rparr>"
    have ring: "ring_at ?q = ring_at q" by (simp add: ring_at_def fun_eq_iff)
    note IH = Cons.IH [of ?q "Suc i" K "tx_next q rd" wr "rc + 1" "tx_release_item x n", unfolded ring]
    have "\<exists>wr' its. tx_purge_loop path (length R) (tx_next q rd) wr (rc + 1) ?q (tx_release_item x n) =
      (wr', rc + 1 + of_nat (length (filter (\<lambda>x. ti_path x = path) R)), ?q\<lparr>tq_items := its\<rparr>,
       fold tx_release_item (filter (\<lambda>x. ti_path x = path) R) (tx_release_item x n)) \<and>
      unat wr' = ring_at q (length (K @ filter (\<lambda>x. ti_path x \<noteq> path) R)) \<and> length its = unat (tq_capacity ?q) \<and>
      (\<forall>j<length (K @ filter (\<lambda>x. ti_path x \<noteq> path) R).
        its ! ring_at q j = (K @ filter (\<lambda>x. ti_path x \<noteq> path) R) ! j)"
      using Cons.prems(1-7) rd rest inj(1) [THEN not_sym] injK(1) [THEN not_sym] by (intro IH) simp_all
    then show ?thesis using True x by (simp add: Let_def add.assoc)
  next
    case False
    define q1 where "q1 = (if wr \<noteq> rd then q\<lparr>tq_items := (tq_items q)[unat wr := x, unat rd := item_zero]\<rparr> else q)"
    have q1: "ring_at q1 = ring_at q" "tq_capacity q1 = tq_capacity q" "length (tq_items q1) = ?N"
      "\<And>its. q1\<lparr>tq_items := its\<rparr> = q\<lparr>tq_items := its\<rparr>"
      using Cons.prems(2) by (auto simp: q1_def ring_at_def fun_eq_iff)
    have eq: "wr = rd \<longleftrightarrow> length K = i"
      using ring_at_inj [of "length K" q i] i Cons.prems(5,6) by (metis unsigned_word_eqI)
    have kept: "tq_items q1 ! ring_at q j = (K @ [x]) ! j" if "j < Suc (length K)" for j
    proof (cases "j = length K")
      case True
      then show ?thesis
        using eq x Cons.prems(2,5,6) at ring_at_inj [of "length K" q i] i
        by (auto simp: q1_def nth_list_update)
    next
      case jK: False
      then have "j < length K" using that by simp
      then show ?thesis using Cons.prems(5,6,7) injK [of j] by (simp add: q1_def nth_append)
    qed
    have rest1: "tq_items q1 ! ring_at q (Suc i + j) = R ! j" if "j < length R" for j
      using rest [OF that] inj [OF that] Cons.prems(5,6) by (simp add: q1_def)
    note IH = Cons.IH [of q1 "Suc i" "K @ [x]" "tx_next q rd" "tx_next q wr" rc n, unfolded q1]
    have "\<exists>wr' its. tx_purge_loop path (length R) (tx_next q rd) (tx_next q wr) rc q1 n =
      (wr', rc + of_nat (length (filter (\<lambda>x. ti_path x = path) R)), q\<lparr>tq_items := its\<rparr>,
       fold tx_release_item (filter (\<lambda>x. ti_path x = path) R) n) \<and>
      unat wr' = ring_at q (length ((K @ [x]) @ filter (\<lambda>x. ti_path x \<noteq> path) R)) \<and> length its = ?N \<and>
      (\<forall>j<length ((K @ [x]) @ filter (\<lambda>x. ti_path x \<noteq> path) R).
        its ! ring_at q j = ((K @ [x]) @ filter (\<lambda>x. ti_path x \<noteq> path) R) ! j)"
      using Cons.prems(1,3,4) rd wr kept rest1 by (intro IH) simp_all
    then show ?thesis using False x by (simp add: q1_def Let_def)
  qed
qed

section \<open>References held by queued items\<close>

definition item_packets :: "tx_queue_item list \<Rightarrow> nat list" where
  "item_packets xs = List.map_filter ti_packet xs"

definition item_paths :: "tx_queue_item list \<Rightarrow> nat list" where
  "item_paths xs = List.map_filter ti_path xs"

definition net_ok :: "net \<Rightarrow> bool" where
  "net_ok n \<longleftrightarrow> heap_ok (nt_heap n) \<and> store_ok (nt_paths n)"

text \<open>The items' references are among those counted: whoever holds the items may drop each once.\<close>

definition net_holds :: "net \<Rightarrow> tx_queue_item list \<Rightarrow> bool" where
  "net_holds n xs \<longleftrightarrow> (\<forall>p. count_list (item_packets xs) p \<le> refs (nt_heap n) p) \<and>
     (\<forall>a. count_list (item_paths xs) a \<le> path_refs (nt_paths n) a)"

lemma item_lists_simps [simp]:
  "item_packets [] = []" "item_paths [] = []"
  "item_packets (xs @ ys) = item_packets xs @ item_packets ys"
  "item_paths (xs @ ys) = item_paths xs @ item_paths ys"
  "item_packets (x # xs) = (case ti_packet x of None \<Rightarrow> [] | Some p \<Rightarrow> [p]) @ item_packets xs"
  "item_paths (x # xs) = (case ti_path x of None \<Rightarrow> [] | Some a \<Rightarrow> [a]) @ item_paths xs"
  by (simp_all add: item_packets_def item_paths_def List.map_filter_def split: option.split)

lemma release_item_nets:
  "nt_heap (fold tx_release_item xs n) = fold (\<lambda>p. linkg_packet_release (Some p)) (item_packets xs) (nt_heap n)"
  "nt_paths (fold tx_release_item xs n) = fold (\<lambda>a. linkg_path_release (Some a)) (item_paths xs) (nt_paths n)"
  by (induction xs arbitrary: n) (auto simp: tx_release_item_def Let_def split: option.split)

lemma release_items:
  assumes "net_ok n" "net_holds n xs"
  shows "net_ok (fold tx_release_item xs n)"
    "refs (nt_heap (fold tx_release_item xs n)) p = refs (nt_heap n) p - count_list (item_packets xs) p"
    "path_refs (nt_paths (fold tx_release_item xs n)) a = path_refs (nt_paths n) a - count_list (item_paths xs) a"
  using assms pkt.release_all [of "nt_heap n" "item_packets xs"] path.release_all [of "nt_paths n" "item_paths xs"]
  by (simp_all add: net_ok_def net_holds_def release_item_nets)

lemma count_filter_split:
  "count_list (item_packets (filter P xs)) p + count_list (item_packets (filter (\<lambda>x. \<not> P x) xs)) p =
     count_list (item_packets xs) p"
  "count_list (item_paths (filter P xs)) a + count_list (item_paths (filter (\<lambda>x. \<not> P x) xs)) a =
     count_list (item_paths xs) a"
  by (induction xs) (auto split: option.split)

lemma count_take_drop:
  "count_list (item_packets (take k xs)) p + count_list (item_packets (drop k xs)) p = count_list (item_packets xs) p"
  "count_list (item_paths (take k xs)) a + count_list (item_paths (drop k xs)) a = count_list (item_paths xs) a"
  by (metis append_take_drop_id count_list_append item_lists_simps(3))
    (metis append_take_drop_id count_list_append item_lists_simps(4))

text \<open>Dropping some of the items one holds leaves the others held.\<close>

lemma release_items_part:
  assumes "net_ok n" "net_holds n xs"
    and "\<And>p. count_list (item_packets ys) p + count_list (item_packets zs) p = count_list (item_packets xs) p"
    and "\<And>a. count_list (item_paths ys) a + count_list (item_paths zs) a = count_list (item_paths xs) a"
  shows "net_ok (fold tx_release_item ys n) \<and> net_holds (fold tx_release_item ys n) zs \<and>
    (\<forall>p. refs (nt_heap (fold tx_release_item ys n)) p = refs (nt_heap n) p - count_list (item_packets ys) p) \<and>
    (\<forall>a. path_refs (nt_paths (fold tx_release_item ys n)) a = path_refs (nt_paths n) a - count_list (item_paths ys) a)"
proof -
  have ys: "net_holds n ys"
    unfolding net_holds_def
  proof (intro conjI allI)
    show "count_list (item_packets ys) p \<le> refs (nt_heap n) p" for p
      using assms(2) assms(3) [of p] unfolding net_holds_def by (metis add_leE)
    show "count_list (item_paths ys) a \<le> path_refs (nt_paths n) a" for a
      using assms(2) assms(4) [of a] unfolding net_holds_def by (metis add_leE)
  qed
  note rel = release_items [OF assms(1) ys]
  have "count_list (item_packets zs) p \<le> refs (nt_heap n) p - count_list (item_packets ys) p" for p
    using assms(2) assms(3) [of p] unfolding net_holds_def by (metis add.commute le_diff_conv2 add_leE)
  moreover have "count_list (item_paths zs) a \<le> path_refs (nt_paths n) a - count_list (item_paths ys) a" for a
    using assms(2) assms(4) [of a] unfolding net_holds_def by (metis add.commute le_diff_conv2 add_leE)
  ultimately show ?thesis using rel by (simp add: net_holds_def)
qed

section \<open>Retaining the packets of a batch\<close>

lemma retain_all:
  assumes "heap_ok h" "\<And>p. p \<in> set ps \<Longrightarrow> 0 < refs h p" "\<And>p. refs h p + count_list ps p < 2 ^ 32"
  shows "heap_ok (fold linkg_packet_retain (map Some ps) h) \<and>
    (\<forall>p. refs (fold linkg_packet_retain (map Some ps) h) p = refs h p + count_list ps p)"
  using assms
proof (induction ps arbitrary: h)
  case (Cons a ps)
  have a: "0 < refs h a" "refs h a < 2 ^ 32 - 1" using Cons.prems(2) Cons.prems(3) [of a] by auto
  note r = heap_ok_retain [OF Cons.prems(1) a] refs_retain [OF a(2,1)]
  have "heap_ok (fold linkg_packet_retain (map Some ps) (linkg_packet_retain (Some a) h)) \<and>
    (\<forall>p. refs (fold linkg_packet_retain (map Some ps) (linkg_packet_retain (Some a) h)) p =
      refs (linkg_packet_retain (Some a) h) p + count_list ps p)"
  proof (rule Cons.IH [OF r(1)])
    show "0 < refs (linkg_packet_retain (Some a) h) p" if "p \<in> set ps" for p
      using that Cons.prems(2) by (simp add: r(2))
    show "refs (linkg_packet_retain (Some a) h) p + count_list ps p < 2 ^ 32" for p
      using Cons.prems(3) [of p] by (simp add: r(2) split: if_splits)
  qed
  then show ?case by (auto simp: r(2))
qed simp

lemma count_tx_items:
  "count_list (item_packets (map (tx_item (Some a) d t) (map Some ps))) p = count_list ps p"
  "count_list (item_paths (map (tx_item (Some a) d t) (map Some ps))) b = (if b = a then length ps else 0)"
  by (induction ps) (auto simp: tx_item_def)

text \<open>
  The two push functions end the same way: path references for the whole batch, a packet reference and
  a slot for each packet.
\<close>

lemma push_accepted:
  assumes "net_ok n" "tx_ok q" "net_holds n (tx_list q)"
    and "linkg_path_is_active (Some a) (nt_paths n)" "path_refs (nt_paths n) a + length ps < 2 ^ 32"
    and "ps \<noteq> []" "unat (tq_count q) + length ps \<le> unat (tq_capacity q)"
    and "\<And>p. p \<in> set ps \<Longrightarrow> 0 < refs (nt_heap n) p" "\<And>p. refs (nt_heap n) p + count_list ps p < 2 ^ 32"
    and "linkg_path_acquire_batch (Some a) (of_nat (length ps)) (nt_paths n) = (ret, s')"
    and "tx_push_loop (map Some ps) (Some a) d t q (nt_heap n) = (q', h')" "n' = \<lparr>nt_heap = h', nt_paths = s'\<rparr>"
  shows "ret = 0 \<and> net_ok n' \<and> tx_ok q' \<and> tq_capacity q' = tq_capacity q \<and> net_holds n' (tx_list q') \<and>
    tx_list q' = tx_list q @ map (tx_item (Some a) d t) (map Some ps) \<and>
    (\<forall>p. refs h' p = refs (nt_heap n) p + count_list ps p) \<and>
    (\<forall>b. path_refs s' b = path_refs (nt_paths n) b + (if b = a then length ps else 0))"
proof -
  have len: "unat (of_nat (length ps) :: u32) = length ps" using assms(5) by (simp add: unat_of_nat)
  then have nz: "(of_nat (length ps) :: u32) \<noteq> 0" using assms(6) by auto
  note acq = acquire_batch_active [OF assms(4) nz]
  have init: "pt_initialized (path_at (nt_paths n) a)"
    using assms(4) by (auto simp: linkg_path_is_active_def linkg_path_get_state_def path_ready_def split: if_splits)
  have s': "ret = 0" "s' = upd_path a (\<lambda>p. p\<lparr>pt_reference_count := pt_reference_count p + of_nat (length ps)\<rparr>) (nt_paths n)"
    using acq assms(10) by auto
  have refs: "path_refs s' b = path_refs (nt_paths n) b + (if b = a then length ps else 0)" for b
    using assms(5) init len
    by (auto simp: s' path_refs_def linkg_path_get_reference_count_def path_ready_def unat_word_ariths)
  have "path_op (nt_paths n) s'"
    using op_acquire [of "Some a" "nt_paths n" "of_nat (length ps)"] assms(5,10) len by (simp add: path_refs_def)
  then have sok: "store_ok s'" using assms(1) path_op_store_ok by (auto simp: net_ok_def)
  have q': "q' = fold tx_push (map (tx_item (Some a) d t) (map Some ps)) q" "h' = fold linkg_packet_retain (map Some ps) (nt_heap n)"
    using assms(11) by (auto simp: tx_push_loop_fold)
  have ring: "tx_ok q'" "tx_list q' = tx_list q @ map (tx_item (Some a) d t) (map Some ps)" "tq_capacity q' = tq_capacity q"
    using ring.enq_all [OF assms(2), of "map (tx_item (Some a) d t) (map Some ps)"] assms(7)
    by (auto simp: q'(1) intro: unsigned_word_eqI)
  have ret: "heap_ok h'" "\<And>p. refs h' p = refs (nt_heap n) p + count_list ps p"
    using retain_all [of "nt_heap n" ps] assms(1,8,9) by (simp_all add: q'(2) net_ok_def)
  have "net_holds n' (tx_list q')"
    using assms(3) by (simp add: net_holds_def assms(12) ring(2) count_tx_items ret(2) refs del: map_map)
  then show ?thesis using s' sok ring ret refs by (simp add: net_ok_def assms(12))
qed

lemma purge_facts:
  assumes "net_ok n" "tx_ok q" "net_holds n (tx_list q)" "tq_count q \<noteq> 0"
    and "tx_purge_loop path (unat (tq_count q)) (tq_head q) (tq_head q) 0 q n = (wr, rc, q1, n')"
    and "q2 = q1\<lparr>tq_count := tq_count q - rc\<rparr>"
    and "q' = (if tq_count q2 = 0 then q2\<lparr>tq_head := 0, tq_tail := 0\<rparr> else q2\<lparr>tq_tail := wr\<rparr>)"
  shows "tx_ok q' \<and> tq_capacity q' = tq_capacity q \<and> tx_list q' = filter (\<lambda>x. ti_path x \<noteq> path) (tx_list q) \<and>
    unat rc = length (filter (\<lambda>x. ti_path x = path) (tx_list q)) \<and>
    n' = fold tx_release_item (filter (\<lambda>x. ti_path x = path) (tx_list q)) n"
proof -
  let ?L = "tx_list q" and ?N = "unat (tq_capacity q)" and ?c = "unat (tq_count q)"
  let ?gone = "filter (\<lambda>x. ti_path x = path) ?L" and ?kept = "filter (\<lambda>x. ti_path x \<noteq> path) ?L"
  have q: "0 < tq_capacity q" "length (tq_items q) = ?N" "?c \<le> ?N" "unat (tq_head q) = ring_at q 0"
    "tq_head q < tq_capacity q"
    using assms(2) by (auto simp: tx_ok_def word_le_nat_alt ring_at_def word_less_nat_alt)
  have "0 + length ?L \<le> ?N" using q(3) by simp
  moreover have "\<forall>j<length ?L. tq_items q ! ring_at q (0 + j) = ?L ! j" by (simp add: nth_tx_list)
  ultimately obtain wr' its where loop: "tx_purge_loop path (length ?L) (tq_head q) (tq_head q) 0 q n =
      (wr', 0 + of_nat (length ?gone), q\<lparr>tq_items := its\<rparr>, fold tx_release_item ?gone n)"
    "unat wr' = ring_at q (length ([] @ ?kept))" "length its = ?N"
    "\<forall>j<length ([] @ ?kept). its ! ring_at q j = ([] @ ?kept) ! j"
    using tx_purge_loop_spec [OF q(1,2), of 0 ?L "[]" "tq_head q" "tq_head q" path 0 n] q(4) by auto
  then have eq: "wr = wr'" "rc = of_nat (length ?gone)" "q1 = q\<lparr>tq_items := its\<rparr>" "n' = fold tx_release_item ?gone n"
    using assms(5) by auto
  have split: "length ?gone + length ?kept = ?c" using sum_length_filter_compl [of "\<lambda>x. ti_path x = path" ?L] by simp
  have "?c < 2 ^ LENGTH(32)" by (rule unsigned_less)
  then have rc: "unat rc = length ?gone" unfolding eq(2) using split by (simp add: unat_of_nat)
  have cnt: "unat (tq_count q - rc) = length ?kept"
    using split rc by (subst unat_sub_le) (simp_all add: word_le_nat_alt)
  have "tx_ok q' \<and> tq_capacity q' = tq_capacity q \<and> tx_list q' = ?kept"
  proof (cases "tq_count q - rc = 0")
    case True
    then have "?kept = []" using cnt by (metis length_0_conv unsigned_0)
    then show ?thesis using True q(1) loop(3) by (simp add: assms(6,7) eq tx_ok_def tx_list_def)
  next
    case False
    then have q': "q' = q\<lparr>tq_items := its, tq_count := tq_count q - rc, tq_tail := wr'\<rparr>"
      by (simp add: assms(6,7) eq)
    have at: "ring_at q' = ring_at q" by (simp add: q' ring_at_def fun_eq_iff)
    have "tx_ok q'" using q split cnt loop(2,3) by (auto simp: q' tx_ok_def word_le_nat_alt ring_at_def)
    moreover have "tx_list q' = ?kept"
      using cnt loop(4) by (intro nth_equalityI) (simp_all add: nth_tx_list at, simp_all add: q')
    ultimately show ?thesis by (simp add: q')
  qed
  then show ?thesis using rc eq(4) by simp
qed

end
