(* ===== verification/Tx_Queue.thy ===== *)
theory Tx_Queue
  imports Tx_Ring
begin

text \<open>
  The transmit waiting queues of the two link modules: \<open>src/modules/wifi/wifi_tx_queue.c\<close> and
  \<open>src/modules/cellular/cellular_tx_queue.c\<close>, on the ring of \<open>Tx_Ring\<close>.

  Each queued item owns one packet reference and one path reference. The Wi-Fi queue takes as much of a
  batch as fits without separating a transmit group, the cellular queue takes all of it or nothing. The
  properties relate every operation to a list of items and account for every reference.
\<close>

section \<open>Wi-Fi transmit queue\<close>

definition linkg_wifi_tx_queue_create :: "u32 \<Rightarrow> bool \<Rightarrow> bool \<Rightarrow> tx_queue option" where
  "linkg_wifi_tx_queue_create capacity queue_alloc items_alloc =
     (if capacity = 0 then None
      else if \<not> queue_alloc then None
      else if \<not> items_alloc then None
      else Some \<lparr>tq_items = replicate (unat capacity) item_zero, tq_capacity = capacity, tq_count = 0,
             tq_head = 0, tq_tail = 0\<rparr>)"

definition linkg_wifi_tx_queue_clear :: "tx_queue option \<Rightarrow> net \<Rightarrow> tx_queue option \<times> net" where
  "linkg_wifi_tx_queue_clear queue n =
     (case queue of
        None \<Rightarrow> (None, n)
      | Some q \<Rightarrow>
         (let (q1, n1) = tx_discard_loop (unat (tq_count q)) q n
          in (Some (q1\<lparr>tq_head := 0, tq_tail := 0\<rparr>), n1)))"

text \<open>Afterwards the queue is freed; only the effect on packets and paths remains.\<close>

definition linkg_wifi_tx_queue_destroy :: "tx_queue option \<Rightarrow> net \<Rightarrow> net" where
  "linkg_wifi_tx_queue_destroy queue n =
     (case queue of None \<Rightarrow> n | Some q \<Rightarrow> snd (linkg_wifi_tx_queue_clear (Some q) n))"

definition linkg_wifi_tx_queue_count :: "tx_queue option \<Rightarrow> u32" where
  "linkg_wifi_tx_queue_count queue = (case queue of None \<Rightarrow> 0 | Some q \<Rightarrow> tq_count q)"

definition linkg_wifi_tx_queue_capacity :: "tx_queue option \<Rightarrow> u32" where
  "linkg_wifi_tx_queue_capacity queue = (case queue of None \<Rightarrow> 0 | Some q \<Rightarrow> tq_capacity q)"

definition linkg_wifi_tx_queue_available :: "tx_queue option \<Rightarrow> u32" where
  "linkg_wifi_tx_queue_available queue =
     (case queue of None \<Rightarrow> 0
      | Some q \<Rightarrow> if tq_count q \<ge> tq_capacity q then 0 else tq_capacity q - tq_count q)"

text \<open>
  A batch that does not fit is cut; the cut moves one back when it would separate the first packet of a
  transmit group from the last.
\<close>

definition wifi_push_count :: "tx_queue \<Rightarrow> nat option list \<Rightarrow> u32 \<Rightarrow> heap \<Rightarrow> u32" where
  "wifi_push_count q packets packet_count h =
     (let available = linkg_wifi_tx_queue_available (Some q);
          push_count = (if packet_count > available then available else packet_count)
      in if push_count < packet_count \<and> push_count > 0 \<and>
            (case packets ! unat (push_count - 1) of
               None \<Rightarrow> False
             | Some p \<Rightarrow> pk_flags (pk_at h p) AND LINKG_PACKET_FLAG_TX_GROUP_FIRST \<noteq> 0)
         then push_count - 1 else push_count)"

text \<open>The result is the return code, \<open>*pushed_count\<close>, the queue and the references.\<close>

definition linkg_wifi_tx_queue_push_batch ::
    "tx_queue option \<Rightarrow> nat option list option \<Rightarrow> u32 \<Rightarrow> nat option \<Rightarrow> linkg_path_endpoint option \<Rightarrow> u64 \<Rightarrow> net \<Rightarrow>
     int \<times> u32 \<times> tx_queue option \<times> net" where
  "linkg_wifi_tx_queue_push_batch queue packets packet_count path destination enqueue_us n =
     (case (queue, packets, path, destination) of
        (Some q, Some ps, Some a, Some d) \<Rightarrow>
          if packet_count = 0 then (0, 0, Some q, n)
          else
            (let push_count = wifi_push_count q ps packet_count (nt_heap n) in
             if push_count = 0 then (0, 0, Some q, n)
             else if None \<in> set (take (unat push_count) ps) then (- EINVAL, 0, Some q, n)
             else
               (let (ret, s1) = linkg_path_acquire_batch (Some a) push_count (nt_paths n) in
                if ret \<noteq> 0 then (ret, 0, Some q, n\<lparr>nt_paths := s1\<rparr>)
                else
                  (let (q1, h1) = tx_push_loop (take (unat push_count) ps) (Some a) d enqueue_us q (nt_heap n)
                   in (0, push_count, Some q1, \<lparr>nt_heap = h1, nt_paths = s1\<rparr>))))
      | _ \<Rightarrow> (- EINVAL, 0, queue, n))"

text \<open>The items copied out; their number is the returned count.\<close>

definition linkg_wifi_tx_queue_peek_batch :: "tx_queue option \<Rightarrow> bool \<Rightarrow> u32 \<Rightarrow> tx_queue_item list" where
  "linkg_wifi_tx_queue_peek_batch queue items_nonnull capacity =
     (case queue of
        None \<Rightarrow> []
      | Some q \<Rightarrow>
         (if \<not> items_nonnull \<or> capacity = 0 then []
          else
            (let copy_count = (if tq_count q > capacity then capacity else tq_count q)
             in tx_peek_loop q (tq_head q) (unat copy_count))))"

definition linkg_wifi_tx_queue_discard_batch :: "tx_queue option \<Rightarrow> u32 \<Rightarrow> net \<Rightarrow> int \<times> tx_queue option \<times> net" where
  "linkg_wifi_tx_queue_discard_batch queue discard_count n =
     (case queue of
        None \<Rightarrow> (- EINVAL, None, n)
      | Some q \<Rightarrow>
         (if discard_count > tq_count q then (- ERANGE, Some q, n)
          else
            (let (q1, n1) = tx_discard_loop (unat discard_count) q n;
                 q2 = (if tq_count q1 = 0 then q1\<lparr>tq_head := 0, tq_tail := 0\<rparr> else q1)
             in (0, Some q2, n1))))"

definition linkg_wifi_tx_queue_purge_path ::
    "tx_queue option \<Rightarrow> nat option \<Rightarrow> net \<Rightarrow> int \<times> u32 \<times> tx_queue option \<times> net" where
  "linkg_wifi_tx_queue_purge_path queue path n =
     (case (queue, path) of
        (Some q, Some a) \<Rightarrow>
          if tq_count q = 0 then (0, 0, Some q, n)
          else
            (let (write_index, removed_count, q1, n1) =
                   tx_purge_loop (Some a) (unat (tq_count q)) (tq_head q) (tq_head q) 0 q n;
                 q2 = q1\<lparr>tq_count := tq_count q - removed_count\<rparr>;
                 q3 = (if tq_count q2 = 0 then q2\<lparr>tq_head := 0, tq_tail := 0\<rparr> else q2\<lparr>tq_tail := write_index\<rparr>)
             in (0, removed_count, Some q3, n1))
      | _ \<Rightarrow> (- EINVAL, 0, queue, n))"

section \<open>Cellular transmit queue\<close>

definition linkg_cellular_tx_queue_create :: "u32 \<Rightarrow> bool \<Rightarrow> bool \<Rightarrow> tx_queue option" where
  "linkg_cellular_tx_queue_create capacity queue_alloc items_alloc =
     (if capacity = 0 then None
      else if \<not> queue_alloc then None
      else if \<not> items_alloc then None
      else Some \<lparr>tq_items = replicate (unat capacity) item_zero, tq_capacity = capacity, tq_count = 0,
             tq_head = 0, tq_tail = 0\<rparr>)"

definition linkg_cellular_tx_queue_clear :: "tx_queue option \<Rightarrow> net \<Rightarrow> tx_queue option \<times> net" where
  "linkg_cellular_tx_queue_clear queue n =
     (case queue of
        None \<Rightarrow> (None, n)
      | Some q \<Rightarrow>
         (let (q1, n1) = tx_discard_loop (unat (tq_count q)) q n
          in (Some (q1\<lparr>tq_head := 0, tq_tail := 0\<rparr>), n1)))"

text \<open>Afterwards the queue is freed; only the effect on packets and paths remains.\<close>

definition linkg_cellular_tx_queue_destroy :: "tx_queue option \<Rightarrow> net \<Rightarrow> net" where
  "linkg_cellular_tx_queue_destroy queue n =
     (case queue of None \<Rightarrow> n | Some q \<Rightarrow> snd (linkg_cellular_tx_queue_clear (Some q) n))"

definition linkg_cellular_tx_queue_count :: "tx_queue option \<Rightarrow> u32" where
  "linkg_cellular_tx_queue_count queue = (case queue of None \<Rightarrow> 0 | Some q \<Rightarrow> tq_count q)"

definition linkg_cellular_tx_queue_capacity :: "tx_queue option \<Rightarrow> u32" where
  "linkg_cellular_tx_queue_capacity queue = (case queue of None \<Rightarrow> 0 | Some q \<Rightarrow> tq_capacity q)"

definition linkg_cellular_tx_queue_available :: "tx_queue option \<Rightarrow> u32" where
  "linkg_cellular_tx_queue_available queue =
     (case queue of None \<Rightarrow> 0
      | Some q \<Rightarrow> tq_capacity q - tq_count q)"

definition linkg_cellular_tx_queue_push_batch ::
    "tx_queue option \<Rightarrow> nat option list option \<Rightarrow> u32 \<Rightarrow> nat option \<Rightarrow> linkg_path_endpoint option \<Rightarrow> u64 \<Rightarrow> net \<Rightarrow>
     int \<times> u32 \<times> tx_queue option \<times> net" where
  "linkg_cellular_tx_queue_push_batch queue packets packet_count path destination enqueue_us n =
     (case (queue, packets, path, destination) of
        (Some q, Some ps, Some a, Some d) \<Rightarrow>
          if packet_count = 0 then (0, 0, Some q, n)
          else if packet_count > linkg_cellular_tx_queue_available (Some q) then (- ENOSPC, 0, Some q, n)
          else if None \<in> set (take (unat packet_count) ps) then (- EINVAL, 0, Some q, n)
          else
            (let (ret, s1) = linkg_path_acquire_batch (Some a) packet_count (nt_paths n) in
             if ret \<noteq> 0 then (ret, 0, Some q, n\<lparr>nt_paths := s1\<rparr>)
             else
               (let (q1, h1) = tx_push_loop (take (unat packet_count) ps) (Some a) d enqueue_us q (nt_heap n)
                in (0, packet_count, Some q1, \<lparr>nt_heap = h1, nt_paths = s1\<rparr>)))
      | _ \<Rightarrow> (- EINVAL, 0, queue, n))"

text \<open>The items copied out; their number is the returned count.\<close>

definition linkg_cellular_tx_queue_peek_batch :: "tx_queue option \<Rightarrow> bool \<Rightarrow> u32 \<Rightarrow> tx_queue_item list" where
  "linkg_cellular_tx_queue_peek_batch queue items_nonnull capacity =
     (case queue of
        None \<Rightarrow> []
      | Some q \<Rightarrow>
         (if \<not> items_nonnull \<or> capacity = 0 then []
          else
            (let copy_count = (if tq_count q > capacity then capacity else tq_count q)
             in tx_peek_loop q (tq_head q) (unat copy_count))))"

definition linkg_cellular_tx_queue_discard_batch :: "tx_queue option \<Rightarrow> u32 \<Rightarrow> net \<Rightarrow> int \<times> tx_queue option \<times> net" where
  "linkg_cellular_tx_queue_discard_batch queue discard_count n =
     (case queue of
        None \<Rightarrow> (- EINVAL, None, n)
      | Some q \<Rightarrow>
         (if discard_count > tq_count q then (- ERANGE, Some q, n)
          else
            (let (q1, n1) = tx_discard_loop (unat discard_count) q n;
                 q2 = (if tq_count q1 = 0 then q1\<lparr>tq_head := 0, tq_tail := 0\<rparr> else q1)
             in (0, Some q2, n1))))"

definition linkg_cellular_tx_queue_purge_path ::
    "tx_queue option \<Rightarrow> nat option \<Rightarrow> net \<Rightarrow> int \<times> u32 \<times> tx_queue option \<times> net" where
  "linkg_cellular_tx_queue_purge_path queue path n =
     (case (queue, path) of
        (Some q, Some a) \<Rightarrow>
          if tq_count q = 0 then (0, 0, Some q, n)
          else
            (let (write_index, removed_count, q1, n1) =
                   tx_purge_loop (Some a) (unat (tq_count q)) (tq_head q) (tq_head q) 0 q n;
                 q2 = q1\<lparr>tq_count := tq_count q - removed_count\<rparr>;
                 q3 = (if tq_count q2 = 0 then q2\<lparr>tq_head := 0, tq_tail := 0\<rparr> else q2\<lparr>tq_tail := write_index\<rparr>)
             in (0, removed_count, Some q3, n1))
      | _ \<Rightarrow> (- EINVAL, 0, queue, n))"

section \<open>Properties\<close>

lemma create_ok:
  "linkg_wifi_tx_queue_create capacity b c = Some q \<Longrightarrow> tx_ok q \<and> tx_list q = [] \<and> tq_capacity q = capacity"
  "linkg_cellular_tx_queue_create capacity b c = Some q \<Longrightarrow> tx_ok q \<and> tx_list q = [] \<and> tq_capacity q = capacity"
  by (auto simp: linkg_wifi_tx_queue_create_def linkg_cellular_tx_queue_create_def tx_ok_def tx_list_def
      word_gt_0 split: if_splits)

lemma available_unat:
  assumes "tx_ok q"
  shows "unat (linkg_wifi_tx_queue_available (Some q)) = unat (tq_capacity q) - unat (tq_count q)"
    "unat (linkg_cellular_tx_queue_available (Some q)) = unat (tq_capacity q) - unat (tq_count q)"
  using assms
  by (auto simp: linkg_wifi_tx_queue_available_def linkg_cellular_tx_queue_available_def tx_ok_def unat_sub_le
      word_le_nat_alt)

definition group_first :: "heap \<Rightarrow> nat \<Rightarrow> bool" where
  "group_first h p \<longleftrightarrow> pk_flags (pk_at h p) AND LINKG_PACKET_FLAG_TX_GROUP_FIRST \<noteq> 0"

text \<open>In a batch, the packet that opens a group is followed by one that does not.\<close>

definition groups_formed :: "heap \<Rightarrow> nat list \<Rightarrow> bool" where
  "groups_formed h ps \<longleftrightarrow> (\<forall>i. Suc i < length ps \<longrightarrow> group_first h (ps ! i) \<longrightarrow> \<not> group_first h (ps ! Suc i))"

lemma wifi_push_count_facts:
  assumes "tx_ok q" "length ps < 2 ^ 32" "groups_formed h ps"
    and "k = unat (wifi_push_count q (map Some ps) (of_nat (length ps)) h)"
    and "room = unat (tq_capacity q) - unat (tq_count q)"
  shows "k \<le> min (length ps) room" "min (length ps) room \<le> k + 1" "length ps \<le> room \<Longrightarrow> k = length ps"
    "0 < k \<Longrightarrow> k < length ps \<Longrightarrow> \<not> group_first h (ps ! (k - 1))"
proof -
  let ?c = "of_nat (length ps) :: u32" and ?av = "linkg_wifi_tx_queue_available (Some q)"
  define pc where "pc = (if ?c > ?av then ?av else ?c)"
  have len: "unat ?c = length ps" using assms(2) by (simp add: unat_of_nat)
  have pc: "unat pc = min (length ps) room"
    using len available_unat(1) [OF assms(1)] by (auto simp: pc_def assms(5) word_less_nat_alt)
  define cut where "cut \<longleftrightarrow> pc < ?c \<and> pc > 0 \<and> group_first h (ps ! (unat pc - 1))"
  have idx: "unat (pc - 1) = unat pc - 1" if "pc > 0" using that by (simp add: unat_dec word_gt_0)
  have in_range: "unat pc - 1 < length ps" if "pc > 0" "pc < ?c"
    using that pc len by (auto simp: word_less_nat_alt)
  have k: "k = (if cut then unat pc - 1 else unat pc)"
    unfolding assms(4) wifi_push_count_def Let_def pc_def [symmetric] cut_def
    using in_range by (auto simp: idx group_first_def)
  then show "k \<le> min (length ps) room" "min (length ps) room \<le> k + 1" using pc by (auto split: if_splits)
  show "k = length ps" if "length ps \<le> room" using that k pc len by (auto simp: cut_def word_less_nat_alt)
  show "\<not> group_first h (ps ! (k - 1))" if "0 < k" "k < length ps"
  proof (cases cut)
    case True
    obtain j where j: "k = Suc j" using \<open>0 < k\<close> by (cases k) auto
    have "k = unat pc - 1" using True k by simp
    then have "group_first h (ps ! Suc j)" using True unfolding cut_def j by simp
    then show ?thesis using assms(3) that(2) by (auto simp: groups_formed_def j)
  next
    case False
    then show ?thesis using that k pc len by (auto simp: cut_def word_less_nat_alt)
  qed
qed

lemma refs_room:
  assumes "p \<in> set ps \<Longrightarrow> refs h p + length ps < 2 ^ 32" "k \<le> length ps" "p \<notin> set ps \<Longrightarrow> k = 0"
  shows "refs h p + k < 2 ^ 32"
proof (cases "p \<in> set ps")
  case False
  have "unat (pk_reference_count (pk_at h p)) < 2 ^ LENGTH(32)" by (rule unsigned_less)
  then have "refs h p < 2 ^ 32" by (simp add: refs_def split: option.split)
  then show ?thesis using False assms(3) by simp
qed (use assms in auto)


text \<open>
  C36. The cellular queue takes a batch as a whole or not at all: with room for it every packet is appended in
  order, with one packet and one path reference each; without, the answer is \<open>-ENOSPC\<close> and neither the queue
  nor any reference changes.
\<close>

theorem cellular_push_batch_all_or_nothing:
  assumes "net_ok n" "tx_ok q" "net_holds n (tx_list q)" "linkg_path_is_active (Some a) (nt_paths n)"
    and "\<forall>p. p \<in> set ps \<longrightarrow> 0 < refs (nt_heap n) p \<and> refs (nt_heap n) p + length ps < 2 ^ 32"
    and "path_refs (nt_paths n) a + length ps < 2 ^ 32" "ps \<noteq> []"
  shows "\<exists>ret k q' n'. linkg_cellular_tx_queue_push_batch (Some q) (Some (map Some ps)) (of_nat (length ps)) (Some a) (Some d) t n =
      (ret, of_nat k, Some q', n') \<and>
    (if length ps \<le> unat (tq_capacity q) - unat (tq_count q)
     then ret = 0 \<and> k = length ps \<and> net_ok n' \<and> tx_ok q' \<and> net_holds n' (tx_list q') \<and>
       tx_list q' = tx_list q @ map (\<lambda>p. tx_item (Some a) d t (Some p)) ps \<and>
       (\<forall>p. refs (nt_heap n') p = refs (nt_heap n) p + count_list ps p) \<and>
       (\<forall>b. path_refs (nt_paths n') b = path_refs (nt_paths n) b + (if b = a then length ps else 0))
     else ret = - ENOSPC \<and> k = 0 \<and> q' = q \<and> n' = n)"
proof -
  have len: "unat (of_nat (length ps) :: u32) = length ps" using assms(6) by (simp add: unat_of_nat)
  then have nz: "(of_nat (length ps) :: u32) \<noteq> 0" using assms(7) by auto
  have fits: "of_nat (length ps) > linkg_cellular_tx_queue_available (Some q) \<longleftrightarrow>
    \<not> length ps \<le> unat (tq_capacity q) - unat (tq_count q)"
    using len available_unat(2) [OF assms(2)] by (simp add: word_less_nat_alt not_le)
  show ?thesis
  proof (cases "length ps \<le> unat (tq_capacity q) - unat (tq_count q)")
    case False
    then have "linkg_cellular_tx_queue_push_batch (Some q) (Some (map Some ps)) (of_nat (length ps)) (Some a) (Some d) t n =
      (- ENOSPC, of_nat 0, Some q, n)"
      using nz fits by (simp add: linkg_cellular_tx_queue_push_batch_def)
    then show ?thesis using False by auto
  next
    case True
    obtain ret s' where acq: "linkg_path_acquire_batch (Some a) (of_nat (length ps)) (nt_paths n) = (ret, s')" by fastforce
    obtain q' h' where loop: "tx_push_loop (map Some ps) (Some a) d t q (nt_heap n) = (q', h')" by fastforce
    have "unat (tq_count q) + length ps \<le> unat (tq_capacity q)"
      using True assms(2) by (auto simp: tx_ok_def word_le_nat_alt)
    moreover have "refs (nt_heap n) p + count_list ps p < 2 ^ 32" for p
      by (rule refs_room [of p ps]) (use assms(5) count_le_length [of ps p] in \<open>simp_all add: count_list_0_iff\<close>)
    ultimately have pushed: "ret = 0 \<and> net_ok \<lparr>nt_heap = h', nt_paths = s'\<rparr> \<and> tx_ok q' \<and> tq_capacity q' = tq_capacity q \<and>
      net_holds \<lparr>nt_heap = h', nt_paths = s'\<rparr> (tx_list q') \<and>
      tx_list q' = tx_list q @ map (tx_item (Some a) d t) (map Some ps) \<and>
      (\<forall>p. refs h' p = refs (nt_heap n) p + count_list ps p) \<and>
      (\<forall>b. path_refs s' b = path_refs (nt_paths n) b + (if b = a then length ps else 0))"
      using assms(5) by (intro push_accepted [OF assms(1-4,6,7) _ _ _ acq loop refl]) auto
    have "linkg_cellular_tx_queue_push_batch (Some q) (Some (map Some ps)) (of_nat (length ps)) (Some a) (Some d) t n =
      (0, of_nat (length ps), Some q', \<lparr>nt_heap = h', nt_paths = s'\<rparr>)"
      using nz fits True acq loop pushed len by (simp add: linkg_cellular_tx_queue_push_batch_def)
    then show ?thesis using pushed True by (auto simp: comp_def)
  qed
qed

lemma discard_facts:
  assumes "net_ok n" "tx_ok q" "net_holds n (tx_list q)" "k \<le> unat (tq_count q)"
    and "tx_discard_loop k q n = (q1, n1)"
  shows "tx_ok q1" "tx_list q1 = drop k (tx_list q)" "tq_capacity q1 = tq_capacity q"
    "n1 = fold tx_release_item (take k (tx_list q)) n"
    "net_ok n1" "net_holds n1 (drop k (tx_list q))"
    "refs (nt_heap n1) p = refs (nt_heap n) p - count_list (item_packets (take k (tx_list q))) p"
    "path_refs (nt_paths n1) b = path_refs (nt_paths n) b - count_list (item_paths (take k (tx_list q))) b"
proof -
  have q1: "q1 = (tx_drop ^^ k) q" "n1 = fold tx_release_item (take k (tx_list q)) n"
    using tx_discard_loop_spec [OF assms(2,4), of n] assms(5) by auto
  have "tx_ok q1 \<and> tx_list q1 = drop k (tx_list q) \<and> unat (tq_capacity q1) = unat (tq_capacity q)"
    using ring.deq_all [OF assms(2), of k] assms(4) by (simp add: q1(1))
  then show "tx_ok q1" "tx_list q1 = drop k (tx_list q)" "tq_capacity q1 = tq_capacity q"
    by (auto intro: unsigned_word_eqI)
  show "n1 = fold tx_release_item (take k (tx_list q)) n" by (fact q1(2))
  show "net_ok n1" "net_holds n1 (drop k (tx_list q))"
    "refs (nt_heap n1) p = refs (nt_heap n) p - count_list (item_packets (take k (tx_list q))) p"
    "path_refs (nt_paths n1) b = path_refs (nt_paths n) b - count_list (item_paths (take k (tx_list q))) b"
    using release_items_part [OF assms(1,3) count_take_drop, of k] by (simp_all add: q1(2))
qed

lemma tx_reset_ok:
  "tx_ok q \<Longrightarrow> tq_count q = 0 \<Longrightarrow> tx_ok (q\<lparr>tq_head := 0, tq_tail := 0\<rparr>)"
  "tq_count q = 0 \<Longrightarrow> tx_list (q\<lparr>tq_head := h, tq_tail := t\<rparr>) = []"
  by (simp_all add: tx_ok_def tx_list_def)

lemma tx_discard_batch_facts:
  assumes "net_ok n" "tx_ok q" "net_holds n (tx_list q)"
  shows "k \<noteq> 0 \<longrightarrow> linkg_wifi_tx_queue_peek_batch (Some q) True k = take (unat k) (tx_list q)"
    and "linkg_cellular_tx_queue_peek_batch (Some q) True k = linkg_wifi_tx_queue_peek_batch (Some q) True k"
    and "linkg_cellular_tx_queue_discard_batch (Some q) k n = linkg_wifi_tx_queue_discard_batch (Some q) k n"
    and "\<exists>ret q' n'. linkg_wifi_tx_queue_discard_batch (Some q) k n = (ret, Some q', n') \<and>
      (if unat k \<le> length (tx_list q)
       then ret = 0 \<and> tx_ok q' \<and> tx_list q' = drop (unat k) (tx_list q) \<and> net_ok n' \<and> net_holds n' (tx_list q') \<and>
         (\<forall>p. refs (nt_heap n') p = refs (nt_heap n) p - count_list (item_packets (take (unat k) (tx_list q))) p) \<and>
         (\<forall>b. path_refs (nt_paths n') b = path_refs (nt_paths n) b - count_list (item_paths (take (unat k) (tx_list q))) b)
       else ret = - ERANGE \<and> q' = q \<and> n' = n)"
proof -
  show "linkg_cellular_tx_queue_peek_batch (Some q) True k = linkg_wifi_tx_queue_peek_batch (Some q) True k"
    "linkg_cellular_tx_queue_discard_batch (Some q) k n = linkg_wifi_tx_queue_discard_batch (Some q) k n"
    by (simp_all add: linkg_cellular_tx_queue_peek_batch_def linkg_wifi_tx_queue_peek_batch_def
        linkg_cellular_tx_queue_discard_batch_def linkg_wifi_tx_queue_discard_batch_def)
  have "unat (if tq_count q > k then k else tq_count q) = min (unat k) (length (tx_list q))"
    by (auto simp: word_less_nat_alt)
  then show "k \<noteq> 0 \<longrightarrow> linkg_wifi_tx_queue_peek_batch (Some q) True k = take (unat k) (tx_list q)"
    using tx_peek_list [OF assms(2), of "min (unat k) (length (tx_list q))"]
    by (auto simp: linkg_wifi_tx_queue_peek_batch_def Let_def min_def)
  show "\<exists>ret q' n'. linkg_wifi_tx_queue_discard_batch (Some q) k n = (ret, Some q', n') \<and>
      (if unat k \<le> length (tx_list q)
       then ret = 0 \<and> tx_ok q' \<and> tx_list q' = drop (unat k) (tx_list q) \<and> net_ok n' \<and> net_holds n' (tx_list q') \<and>
         (\<forall>p. refs (nt_heap n') p = refs (nt_heap n) p - count_list (item_packets (take (unat k) (tx_list q))) p) \<and>
         (\<forall>b. path_refs (nt_paths n') b = path_refs (nt_paths n) b - count_list (item_paths (take (unat k) (tx_list q))) b)
       else ret = - ERANGE \<and> q' = q \<and> n' = n)"
  proof (cases "unat k \<le> length (tx_list q)")
    case True
    obtain q1 n1 where loop: "tx_discard_loop (unat k) q n = (q1, n1)" by fastforce
    note d = discard_facts [OF assms _ loop]
    let ?q = "if tq_count q1 = 0 then q1\<lparr>tq_head := 0, tq_tail := 0\<rparr> else q1"
    have "tx_ok ?q" "tx_list ?q = drop (unat k) (tx_list q)"
      using d(1,2) True tx_reset_ok [of q1] tx_list_empty [of q1] by auto
    moreover have "linkg_wifi_tx_queue_discard_batch (Some q) k n = (0, Some ?q, n1)"
      using True loop by (simp add: linkg_wifi_tx_queue_discard_batch_def word_less_nat_alt Let_def)
    ultimately show ?thesis using d(5-8) True by auto
  next
    case False
    then show ?thesis by (simp add: linkg_wifi_tx_queue_discard_batch_def word_less_nat_alt)
  qed
qed

text \<open>
  In both queues, peeking k items shows the first k of the list and changes nothing; discarding k items
  succeeds exactly when there are that many, removes the first k in order and drops one packet and one path
  reference for each; otherwise the answer is \<open>-ERANGE\<close>.
\<close>

theorem tx_discard_batch_fifo:
  assumes "net_ok n" "tx_ok q" "net_holds n (tx_list q)"
  shows "(k \<noteq> 0 \<longrightarrow> linkg_wifi_tx_queue_peek_batch (Some q) True k = take (unat k) (tx_list q)) \<and>
    (linkg_cellular_tx_queue_peek_batch (Some q) True k = linkg_wifi_tx_queue_peek_batch (Some q) True k) \<and>
    (linkg_cellular_tx_queue_discard_batch (Some q) k n = linkg_wifi_tx_queue_discard_batch (Some q) k n) \<and>
    (\<exists>ret q' n'. linkg_wifi_tx_queue_discard_batch (Some q) k n = (ret, Some q', n') \<and>
      (if unat k \<le> length (tx_list q)
       then ret = 0 \<and> tx_ok q' \<and> tx_list q' = drop (unat k) (tx_list q) \<and> net_ok n' \<and> net_holds n' (tx_list q') \<and>
         (\<forall>p. refs (nt_heap n') p = refs (nt_heap n) p - count_list (item_packets (take (unat k) (tx_list q))) p) \<and>
         (\<forall>b. path_refs (nt_paths n') b = path_refs (nt_paths n) b - count_list (item_paths (take (unat k) (tx_list q))) b)
       else ret = - ERANGE \<and> q' = q \<and> n' = n))"
  by (intro conjI; rule tx_discard_batch_facts [OF assms])

lemma count_keep_gone:
  "count_list (item_packets (filter (\<lambda>x. ti_path x = path) xs)) p +
     count_list (item_packets (filter (\<lambda>x. ti_path x \<noteq> path) xs)) p = count_list (item_packets xs) p"
  "count_list (item_paths (filter (\<lambda>x. ti_path x = path) xs)) a +
     count_list (item_paths (filter (\<lambda>x. ti_path x \<noteq> path) xs)) a = count_list (item_paths xs) a"
  using count_filter_split [of "\<lambda>x. ti_path x = path" xs] by simp_all

text \<open>
  Purging a path from either queue removes exactly the items of that path and keeps the others in their
  order; the number reported is the number removed, each removed item's packet and path references are
  dropped, and afterwards the queue holds no reference to the path.
\<close>

theorem tx_purge_path_filter:
  assumes "net_ok n" "tx_ok q" "net_holds n (tx_list q)"
  shows "\<exists>k q' n'. linkg_wifi_tx_queue_purge_path (Some q) (Some a) n = (0, k, Some q', n') \<and>
    linkg_cellular_tx_queue_purge_path (Some q) (Some a) n = (0, k, Some q', n') \<and>
    tx_ok q' \<and> tx_list q' = filter (\<lambda>x. ti_path x \<noteq> Some a) (tx_list q) \<and>
    unat k = length (filter (\<lambda>x. ti_path x = Some a) (tx_list q)) \<and>
    net_ok n' \<and> net_holds n' (tx_list q') \<and>
    (\<forall>p. refs (nt_heap n') p =
       refs (nt_heap n) p - count_list (item_packets (filter (\<lambda>x. ti_path x = Some a) (tx_list q))) p) \<and>
    (\<forall>b. path_refs (nt_paths n') b = path_refs (nt_paths n) b - (if b = a then unat k else 0))"
proof -
  let ?gone = "filter (\<lambda>x. ti_path x = Some a) (tx_list q)"
  have same: "linkg_cellular_tx_queue_purge_path (Some q) (Some a) n = linkg_wifi_tx_queue_purge_path (Some q) (Some a) n"
    by (simp add: linkg_cellular_tx_queue_purge_path_def linkg_wifi_tx_queue_purge_path_def)
  have paths: "count_list (item_paths (filter (\<lambda>x. ti_path x = Some a) xs)) b =
    (if b = a then length (filter (\<lambda>x. ti_path x = Some a) xs) else 0)" for b xs
    by (induction xs) auto
  note part = release_items_part [OF assms(1,3) count_keep_gone [where path = "Some a"]]
  show ?thesis
  proof (cases "tq_count q = 0")
    case True
    then have "tx_list q = []" by (simp add: tx_list_empty)
    then show ?thesis using True assms unfolding same by (simp add: linkg_wifi_tx_queue_purge_path_def)
  next
    case False
    obtain wr rc q1 n1 where loop:
      "tx_purge_loop (Some a) (unat (tq_count q)) (tq_head q) (tq_head q) 0 q n = (wr, rc, q1, n1)"
      by (metis prod_cases4)
    define q2 where "q2 = q1\<lparr>tq_count := tq_count q - rc\<rparr>"
    define q3 where "q3 = (if tq_count q2 = 0 then q2\<lparr>tq_head := 0, tq_tail := 0\<rparr> else q2\<lparr>tq_tail := wr\<rparr>)"
    note f = purge_facts [OF assms False loop q2_def q3_def]
    have "linkg_wifi_tx_queue_purge_path (Some q) (Some a) n = (0, rc, Some q3, n1)"
      using False loop by (simp add: linkg_wifi_tx_queue_purge_path_def q2_def q3_def Let_def)
    then show ?thesis using f part unfolding same by (simp add: paths)
  qed
qed

text \<open>
  Clearing either queue leaves it empty and gives back every packet and path reference its items held,
  no more and no fewer; destroying it has the same effect on the references.
\<close>

theorem tx_clear_returns_all:
  assumes "net_ok n" "tx_ok q" "net_holds n (tx_list q)"
  shows "\<exists>q' n'. linkg_wifi_tx_queue_clear (Some q) n = (Some q', n') \<and>
    linkg_cellular_tx_queue_clear (Some q) n = (Some q', n') \<and>
    linkg_wifi_tx_queue_destroy (Some q) n = n' \<and> linkg_cellular_tx_queue_destroy (Some q) n = n' \<and>
    tx_ok q' \<and> tx_list q' = [] \<and> net_ok n' \<and>
    (\<forall>p. refs (nt_heap n') p = refs (nt_heap n) p - count_list (item_packets (tx_list q)) p) \<and>
    (\<forall>b. path_refs (nt_paths n') b = path_refs (nt_paths n) b - count_list (item_paths (tx_list q)) b)"
proof -
  obtain q1 n1 where loop: "tx_discard_loop (unat (tq_count q)) q n = (q1, n1)" by fastforce
  note d = discard_facts [OF assms order_refl loop]
  have take: "take (unat (tq_count q)) (tx_list q) = tx_list q" by simp
  have "tq_count q1 = 0" using d(2) by (simp flip: tx_list_empty)
  then have "tx_ok (q1\<lparr>tq_head := 0, tq_tail := 0\<rparr>)" "tx_list (q1\<lparr>tq_head := 0, tq_tail := 0\<rparr>) = []"
    using d(1) tx_reset_ok by simp_all
  then show ?thesis
    using d(5,7,8) loop unfolding take
    by (simp add: linkg_wifi_tx_queue_clear_def linkg_cellular_tx_queue_clear_def
        linkg_wifi_tx_queue_destroy_def linkg_cellular_tx_queue_destroy_def)
qed

section \<open>A concrete queue\<close>

text \<open>A queue of two slots over an active path, and a packet in hand.\<close>

definition sample_net :: net where
  "sample_net = \<lparr>nt_heap = sample_heap1, nt_paths = sample_active\<rparr>"

definition sample_queue :: tx_queue where
  "sample_queue = the (linkg_wifi_tx_queue_create 2 True True)"

lemma sample_queue_facts: "tx_ok sample_queue" "tx_list sample_queue = []" "tq_capacity sample_queue = 2"
  "tq_count sample_queue = 0"
proof -
  have "linkg_wifi_tx_queue_create 2 True True = Some sample_queue"
    by (simp add: sample_queue_def linkg_wifi_tx_queue_create_def)
  from create_ok(1) [OF this] show "tx_ok sample_queue" "tx_list sample_queue = []" "tq_capacity sample_queue = 2"
    by simp_all
  show "tq_count sample_queue = 0" by (simp add: sample_queue_def linkg_wifi_tx_queue_create_def)
qed

lemma sample_net_facts:
  "net_ok sample_net" "net_holds sample_net []" "linkg_path_is_active (Some 2) (nt_paths sample_net)"
  "path_refs (nt_paths sample_net) 2 = 0" "refs (nt_heap sample_net) 103 = 1"
proof -
  have "path_op sample_paths sample_active" unfolding sample_active_def by (rule op_activate)
  then show "net_ok sample_net"
    using path_op_store_ok [OF _ sample_paths_ok] sample_heap1_facts(1) by (simp add: net_ok_def sample_net_def)
  show "net_holds sample_net []" by (simp add: net_holds_def)
  show "linkg_path_is_active (Some 2) (nt_paths sample_net)" "path_refs (nt_paths sample_net) 2 = 0"
    by (simp_all add: sample_net_def linkg_path_is_active_def linkg_path_get_state_def path_ready_def
        sample_active_path path_refs_def linkg_path_get_reference_count_def path_zero_def)
  show "refs (nt_heap sample_net) 103 = 1" using sample_heap1_facts(2) by (simp add: sample_net_def)
qed

lemma sample_push_hyps:
  "\<forall>p. p \<in> set [103 :: nat] \<longrightarrow> 0 < refs (nt_heap sample_net) p \<and> refs (nt_heap sample_net) p + length [103 :: nat] < 2 ^ 32"
  "path_refs (nt_paths sample_net) 2 + length [103 :: nat] < 2 ^ 32" "groups_formed (nt_heap sample_net) [103]"
  "net_holds sample_net (tx_list sample_queue)"
  using sample_net_facts by (simp_all add: groups_formed_def sample_queue_facts)


theorem cellular_push_batch_all_or_nothing_witness:
  "\<exists>q' n'. linkg_cellular_tx_queue_push_batch (Some sample_queue) (Some (map Some [103])) (of_nat (length [103 :: nat]))
      (Some 2) (Some sample_endpoint) 5 sample_net = (0, of_nat 1, Some q', n') \<and> path_refs (nt_paths n') 2 = 1"
  using cellular_push_batch_all_or_nothing [OF sample_net_facts(1) sample_queue_facts(1) sample_push_hyps(4)
      sample_net_facts(3) sample_push_hyps(1,2), of sample_endpoint 5]
  by (auto simp: sample_queue_facts sample_net_facts)

text \<open>The same queue with one item in it.\<close>

definition sample_queue1 :: tx_queue where
  "sample_queue1 = tx_push (tx_item (Some 2) sample_endpoint 5 (Some 103)) sample_queue"

definition sample_net1 :: net where
  "sample_net1 = \<lparr>nt_heap = sample_heap1, nt_paths = snd (linkg_path_acquire (Some 2) sample_active)\<rparr>"

lemma sample_queue1_facts:
  "tx_ok sample_queue1" "tx_list sample_queue1 = [tx_item (Some 2) sample_endpoint 5 (Some 103)]"
  using push_tx_list [OF sample_queue_facts(1), of "tx_item (Some 2) sample_endpoint 5 (Some 103)"]
  by (simp_all add: sample_queue1_def sample_queue_facts)

lemma sample_net1_facts:
  "net_ok sample_net1" "net_holds sample_net1 (tx_list sample_queue1)" "refs (nt_heap sample_net1) 103 = 1"
  "path_refs (nt_paths sample_net1) 2 = 1"
proof -
  have may: "store_ok sample_active" "path_may_acquire sample_active 2"
    using sample_net_facts by (simp_all add: net_ok_def sample_net_def path_may_acquire_def)
  show ok: "net_ok sample_net1"
    using path.acquire_ok [OF may] sample_heap1_facts(1) by (simp add: net_ok_def sample_net1_def)
  show "refs (nt_heap sample_net1) 103 = 1" using sample_heap1_facts(2) by (simp add: sample_net1_def)
  moreover show "path_refs (nt_paths sample_net1) 2 = 1"
    using path.count_acquire [OF may, of 2] sample_net_facts(4) by (simp add: sample_net1_def sample_net_def)
  ultimately show "net_holds sample_net1 (tx_list sample_queue1)"
    by (simp add: net_holds_def sample_queue1_facts tx_item_def)
qed

theorem tx_discard_batch_fifo_witness:
  "\<exists>q' n'. linkg_wifi_tx_queue_discard_batch (Some sample_queue1) 1 sample_net1 = (0, Some q', n') \<and>
     tx_list q' = [] \<and> refs (nt_heap n') 103 = 0"
  using tx_discard_batch_fifo [OF sample_net1_facts(1) sample_queue1_facts(1) sample_net1_facts(2), of 1]
  by (auto simp: sample_queue1_facts sample_net1_facts tx_item_def)

theorem tx_purge_path_filter_witness:
  "\<exists>k q' n'. linkg_cellular_tx_queue_purge_path (Some sample_queue1) (Some 2) sample_net1 = (0, k, Some q', n') \<and>
     unat k = 1 \<and> tx_list q' = [] \<and> path_refs (nt_paths n') 2 = 0"
  using tx_purge_path_filter [OF sample_net1_facts(1) sample_queue1_facts(1) sample_net1_facts(2), of 2]
  by (auto simp: sample_queue1_facts sample_net1_facts tx_item_def)

theorem tx_clear_returns_all_witness:
  "\<exists>q' n'. linkg_wifi_tx_queue_clear (Some sample_queue1) sample_net1 = (Some q', n') \<and> tx_list q' = [] \<and>
     refs (nt_heap n') 103 = 0 \<and> path_refs (nt_paths n') 2 = 0"
  using tx_clear_returns_all [OF sample_net1_facts(1) sample_queue1_facts(1) sample_net1_facts(2)]
  by (auto simp: sample_queue1_facts sample_net1_facts tx_item_def)

end
