(* ===== verification/Rx_Queue.thy ===== *)
theory Rx_Queue
  imports Tx_Ring
begin

text \<open>
  The receive queues of the two link modules: \<open>src/modules/wifi/wifi_rx_queue.c\<close> and
  \<open>src/modules/cellular/cellular_rx_queue.c\<close>, which differ only in their names.

  One producer and one consumer share a ring without a lock: \<open>head\<close> and \<open>tail\<close> are 32-bit counters that
  only grow, and a slot index is a counter modulo the capacity. The queue is a FIFO as long as the
  counters agree with the slots, that is while the capacity divides 2^32 or the counters have not wrapped;
  the last property shows what happens on the wrap with the capacity the receivers configure. A second
  model splits the batches at their atomic accesses and lets producer and consumer interleave.
\<close>

section \<open>State\<close>

record rx_queue_item =
  ri_packet :: "nat option"
  ri_source :: linkg_path_endpoint

record rx_queue =
  rq_items :: "rx_queue_item list"
  rq_capacity :: u32
  rq_head :: u32
  rq_tail :: u32

definition rx_item_zero :: rx_queue_item where
  "rx_item_zero = \<lparr>ri_packet = None, ri_source = endpoint_zero\<rparr>"

section \<open>The parts of the batch functions\<close>

text \<open>\<open>memcpy\<close> of items to position \<open>k\<close> of the array.\<close>

definition copy_at :: "nat \<Rightarrow> 'a list \<Rightarrow> 'a list \<Rightarrow> 'a list" where
  "copy_at k xs its = take k its @ xs @ drop (k + length xs) its"

text \<open>How many items the producer may push, having loaded \<open>head\<close>.\<close>

definition rx_push_count :: "rx_queue \<Rightarrow> u32 \<Rightarrow> u32 \<Rightarrow> u32" where
  "rx_push_count q head item_count =
     (let used = rq_tail q - head in
      if used \<ge> rq_capacity q then 0
      else
        (let available = rq_capacity q - used
         in if item_count > available then available else item_count))"

text \<open>The copies into the slots from the tail on, in one or two pieces.\<close>

definition rx_write :: "rx_queue \<Rightarrow> rx_queue_item list \<Rightarrow> rx_queue" where
  "rx_write q xs =
     (let offset = rq_tail q mod rq_capacity q;
          push_count = of_nat (length xs);
          first_count = rq_capacity q - offset;
          first_count = (if first_count > push_count then push_count else first_count);
          its = copy_at (unat offset) (take (unat first_count) xs) (rq_items q)
      in q\<lparr>rq_items := (if push_count > first_count then copy_at 0 (drop (unat first_count) xs) its else its)\<rparr>)"

text \<open>How many items the consumer may pop, having loaded \<open>tail\<close>.\<close>

definition rx_pop_count :: "rx_queue \<Rightarrow> u32 \<Rightarrow> u32 \<Rightarrow> u32" where
  "rx_pop_count q tail capacity =
     (let available = tail - rq_head q in
      if available = 0 then 0 else if capacity > available then available else capacity)"

text \<open>The copies out of the slots from the head on, in one or two pieces.\<close>

definition rx_read :: "rx_queue \<Rightarrow> u32 \<Rightarrow> rx_queue_item list" where
  "rx_read q pop_count =
     (let offset = rq_head q mod rq_capacity q;
          first_count = rq_capacity q - offset;
          first_count = (if first_count > pop_count then pop_count else first_count);
          out = take (unat first_count) (drop (unat offset) (rq_items q))
      in if pop_count > first_count then out @ take (unat (pop_count - first_count)) (rq_items q) else out)"

text \<open>The clearing loop walks the counter from \<open>head\<close> to \<open>tail\<close>, modulo 2^32.\<close>

function rx_clear_loop :: "rx_queue \<Rightarrow> u32 \<Rightarrow> u32 \<Rightarrow> heap \<Rightarrow> heap" where
  "rx_clear_loop q head tail h =
     (if head = tail then h
      else rx_clear_loop q (head + 1) tail
             (linkg_packet_release (ri_packet (rq_items q ! unat (head mod rq_capacity q))) h))"
  by auto
termination
proof (relation "measure (\<lambda>(q, head, tail, h). unat (tail - head))")
  fix q head tail h assume "head \<noteq> (tail :: u32)"
  then have "unat (tail - head - 1) = unat (tail - head) - 1" "0 < unat (tail - head)"
    by (simp_all add: unat_dec unat_pos)
  then show "((q, head + 1, tail, linkg_packet_release (ri_packet (rq_items q ! unat (head mod rq_capacity q))) h), q, head, tail, h)
    \<in> measure (\<lambda>(q, head, tail, h). unat (tail - head))"
    by (simp add: diff_diff_eq)
qed simp

declare rx_clear_loop.simps [simp del]

section \<open>Wi-Fi receive queue\<close>

definition linkg_wifi_rx_queue_create :: "u32 \<Rightarrow> bool \<Rightarrow> bool \<Rightarrow> rx_queue option" where
  "linkg_wifi_rx_queue_create capacity queue_alloc items_alloc =
     (if capacity = 0 \<or> capacity > (- 1) div 2 then None
      else if \<not> queue_alloc then None
      else if \<not> items_alloc then None
      else Some \<lparr>rq_items = replicate (unat capacity) rx_item_zero, rq_capacity = capacity, rq_head = 0, rq_tail = 0\<rparr>)"

definition linkg_wifi_rx_queue_clear :: "rx_queue option \<Rightarrow> heap \<Rightarrow> rx_queue option \<times> heap" where
  "linkg_wifi_rx_queue_clear queue h =
     (case queue of
        None \<Rightarrow> (None, h)
      | Some q \<Rightarrow>
         (Some (q\<lparr>rq_items := replicate (unat (rq_capacity q)) rx_item_zero, rq_head := 0, rq_tail := 0\<rparr>),
          rx_clear_loop q (rq_head q) (rq_tail q) h))"

text \<open>Afterwards the queue is freed; only the effect on the packets remains.\<close>

definition linkg_wifi_rx_queue_destroy :: "rx_queue option \<Rightarrow> heap \<Rightarrow> heap" where
  "linkg_wifi_rx_queue_destroy queue h =
     (case queue of None \<Rightarrow> h | Some q \<Rightarrow> snd (linkg_wifi_rx_queue_clear (Some q) h))"

definition linkg_wifi_rx_queue_count :: "rx_queue option \<Rightarrow> u32" where
  "linkg_wifi_rx_queue_count queue =
     (case queue of None \<Rightarrow> 0
      | Some q \<Rightarrow>
         (let queue_count = rq_tail q - rq_head q
          in if queue_count > rq_capacity q then rq_capacity q else queue_count))"

definition linkg_wifi_rx_queue_capacity :: "rx_queue option \<Rightarrow> u32" where
  "linkg_wifi_rx_queue_capacity queue = (case queue of None \<Rightarrow> 0 | Some q \<Rightarrow> rq_capacity q)"

definition linkg_wifi_rx_queue_available :: "rx_queue option \<Rightarrow> u32" where
  "linkg_wifi_rx_queue_available queue =
     (case queue of None \<Rightarrow> 0 | Some q \<Rightarrow> rq_capacity q - linkg_wifi_rx_queue_count (Some q))"

text \<open>The result is the returned count and the queue.\<close>

definition linkg_wifi_rx_queue_push_batch ::
    "rx_queue option \<Rightarrow> rx_queue_item list option \<Rightarrow> u32 \<Rightarrow> u32 \<times> rx_queue option" where
  "linkg_wifi_rx_queue_push_batch queue items item_count =
     (case (queue, items) of
        (Some q, Some xs) \<Rightarrow>
          if item_count = 0 then (0, Some q)
          else
            (let push_count = rx_push_count q (rq_head q) item_count in
             if push_count = 0 then (0, Some q)
             else
               (let q1 = rx_write q (take (unat push_count) xs)
                in (push_count, Some (q1\<lparr>rq_tail := rq_tail q1 + push_count\<rparr>))))
      | _ \<Rightarrow> (0, queue))"

text \<open>The result is the items copied out, whose number is the returned count, and the queue.\<close>

definition linkg_wifi_rx_queue_pop_batch ::
    "rx_queue option \<Rightarrow> bool \<Rightarrow> u32 \<Rightarrow> rx_queue_item list \<times> rx_queue option" where
  "linkg_wifi_rx_queue_pop_batch queue items_nonnull capacity =
     (case queue of
        None \<Rightarrow> ([], None)
      | Some q \<Rightarrow>
         (if \<not> items_nonnull \<or> capacity = 0 then ([], Some q)
          else
            (let pop_count = rx_pop_count q (rq_tail q) capacity in
             if pop_count = 0 then ([], Some q)
             else (rx_read q pop_count, Some (q\<lparr>rq_head := rq_head q + pop_count\<rparr>)))))"

section \<open>Cellular receive queue\<close>

definition linkg_cellular_rx_queue_create :: "u32 \<Rightarrow> bool \<Rightarrow> bool \<Rightarrow> rx_queue option" where
  "linkg_cellular_rx_queue_create capacity queue_alloc items_alloc =
     (if capacity = 0 \<or> capacity > (- 1) div 2 then None
      else if \<not> queue_alloc then None
      else if \<not> items_alloc then None
      else Some \<lparr>rq_items = replicate (unat capacity) rx_item_zero, rq_capacity = capacity, rq_head = 0, rq_tail = 0\<rparr>)"

definition linkg_cellular_rx_queue_clear :: "rx_queue option \<Rightarrow> heap \<Rightarrow> rx_queue option \<times> heap" where
  "linkg_cellular_rx_queue_clear queue h =
     (case queue of
        None \<Rightarrow> (None, h)
      | Some q \<Rightarrow>
         (Some (q\<lparr>rq_items := replicate (unat (rq_capacity q)) rx_item_zero, rq_head := 0, rq_tail := 0\<rparr>),
          rx_clear_loop q (rq_head q) (rq_tail q) h))"

text \<open>Afterwards the queue is freed; only the effect on the packets remains.\<close>

definition linkg_cellular_rx_queue_destroy :: "rx_queue option \<Rightarrow> heap \<Rightarrow> heap" where
  "linkg_cellular_rx_queue_destroy queue h =
     (case queue of None \<Rightarrow> h | Some q \<Rightarrow> snd (linkg_cellular_rx_queue_clear (Some q) h))"

definition linkg_cellular_rx_queue_count :: "rx_queue option \<Rightarrow> u32" where
  "linkg_cellular_rx_queue_count queue =
     (case queue of None \<Rightarrow> 0
      | Some q \<Rightarrow>
         (let queue_count = rq_tail q - rq_head q
          in if queue_count > rq_capacity q then rq_capacity q else queue_count))"

definition linkg_cellular_rx_queue_capacity :: "rx_queue option \<Rightarrow> u32" where
  "linkg_cellular_rx_queue_capacity queue = (case queue of None \<Rightarrow> 0 | Some q \<Rightarrow> rq_capacity q)"

definition linkg_cellular_rx_queue_available :: "rx_queue option \<Rightarrow> u32" where
  "linkg_cellular_rx_queue_available queue =
     (case queue of None \<Rightarrow> 0 | Some q \<Rightarrow> rq_capacity q - linkg_cellular_rx_queue_count (Some q))"

text \<open>The result is the returned count and the queue.\<close>

definition linkg_cellular_rx_queue_push_batch ::
    "rx_queue option \<Rightarrow> rx_queue_item list option \<Rightarrow> u32 \<Rightarrow> u32 \<times> rx_queue option" where
  "linkg_cellular_rx_queue_push_batch queue items item_count =
     (case (queue, items) of
        (Some q, Some xs) \<Rightarrow>
          if item_count = 0 then (0, Some q)
          else
            (let push_count = rx_push_count q (rq_head q) item_count in
             if push_count = 0 then (0, Some q)
             else
               (let q1 = rx_write q (take (unat push_count) xs)
                in (push_count, Some (q1\<lparr>rq_tail := rq_tail q1 + push_count\<rparr>))))
      | _ \<Rightarrow> (0, queue))"

text \<open>The result is the items copied out, whose number is the returned count, and the queue.\<close>

definition linkg_cellular_rx_queue_pop_batch ::
    "rx_queue option \<Rightarrow> bool \<Rightarrow> u32 \<Rightarrow> rx_queue_item list \<times> rx_queue option" where
  "linkg_cellular_rx_queue_pop_batch queue items_nonnull capacity =
     (case queue of
        None \<Rightarrow> ([], None)
      | Some q \<Rightarrow>
         (if \<not> items_nonnull \<or> capacity = 0 then ([], Some q)
          else
            (let pop_count = rx_pop_count q (rq_tail q) capacity in
             if pop_count = 0 then ([], Some q)
             else (rx_read q pop_count, Some (q\<lparr>rq_head := rq_head q + pop_count\<rparr>)))))"

section \<open>Copies around the end of the array\<close>

lemma length_copy_at [simp]: "k + length xs \<le> length its \<Longrightarrow> length (copy_at k xs its) = length its"
  by (simp add: copy_at_def)

lemma nth_copy_at:
  "k + length xs \<le> length its \<Longrightarrow> p < length its \<Longrightarrow>
     copy_at k xs its ! p = (if k \<le> p \<and> p < k + length xs then xs ! (p - k) else its ! p)"
  by (auto simp: copy_at_def nth_append)

lemma circular_index:
  assumes "o1 < (N :: nat)" "i < N"
  shows "(o1 + i) mod N = (if i < N - o1 then o1 + i else i - (N - o1))"
proof (cases "i < N - o1")
  case False
  then have eq: "o1 + i = i - (N - o1) + N" using assms by linarith
  have "i - (N - o1) < N" using assms by linarith
  then have "(o1 + i) mod N = i - (N - o1)" unfolding eq by (simp only: mod_add_self2 mod_less)
  then show ?thesis using False by simp
qed auto

lemma circular_write:
  assumes "length its = N" "o1 < N" "length xs \<le> N" "f = min (N - o1) (length xs)"
    and "its1 = copy_at o1 (take f xs) its"
    and "its2 = (if length xs > f then copy_at 0 (drop f xs) its1 else its1)"
  shows "length its2 = N" "j < length xs \<Longrightarrow> its2 ! ((o1 + j) mod N) = xs ! j"
    "length xs \<le> i \<Longrightarrow> i < N \<Longrightarrow> its2 ! ((o1 + i) mod N) = its ! ((o1 + i) mod N)"
proof -
  have f: "f \<le> length xs" "o1 + f \<le> N" using assms(2,4) by auto
  have l1: "length its1 = N" using assms(1,5) f by simp
  have n1: "its1 ! p = (if o1 \<le> p \<and> p < o1 + f then xs ! (p - o1) else its ! p)" if "p < N" for p
    using that assms(1,5) f by (auto simp: nth_copy_at)
  have wrap: "f = N - o1" "length xs - f \<le> o1" if "length xs > f" using that assms(2-4) by auto
  show "length its2 = N" using assms(6) l1 wrap(2) assms(2) by auto
  have n2: "its2 ! p = (if length xs > f \<and> p < length xs - f then xs ! (f + p) else its1 ! p)" if "p < N" for p
    using that assms(6) l1 wrap(2) assms(2) by (auto simp: nth_copy_at)
  show "its2 ! ((o1 + j) mod N) = xs ! j" if "j < length xs"
  proof (cases "j < f")
    case True
    then have "(o1 + j) mod N = o1 + j" "o1 + j < N" using f by auto
    moreover have "\<not> (length xs > f \<and> o1 + j < length xs - f)" using wrap(2) by linarith
    ultimately show ?thesis using True by (auto simp: n1 n2)
  next
    case False
    then have gt: "length xs > f" using that by linarith
    have "\<not> j < N - o1" "j < N" using False wrap(1) [OF gt] that assms(3) by linarith+
    then have "(o1 + j) mod N = j - f" "j - f < N" using circular_index [OF assms(2)] wrap(1) [OF gt] by auto
    moreover have "j - f < length xs - f" "f + (j - f) = j" using False that by linarith+
    ultimately show ?thesis using gt by (simp add: n2)
  qed
  show "its2 ! ((o1 + i) mod N) = its ! ((o1 + i) mod N)" if "length xs \<le> i" "i < N"
  proof -
    define p where "p = (o1 + i) mod N"
    have p: "p < N" using that(2) by (simp add: p_def)
    have "\<not> (length xs > f \<and> p < length xs - f)" "\<not> (o1 \<le> p \<and> p < o1 + f)"
      using circular_index [OF assms(2) that(2), folded p_def] that f wrap assms(2) by (auto split: if_splits)
    then show ?thesis using p unfolding p_def [symmetric] by (auto simp: n1 n2)
  qed
qed

lemma circular_read:
  assumes "length its = N" "o1 < N" "k \<le> N" "f = min (N - o1) k"
  shows "(if k > f then take f (drop o1 its) @ take (k - f) its else take f (drop o1 its)) =
    map (\<lambda>j. its ! ((o1 + j) mod N)) [0..<k]"
proof (rule nth_equalityI)
  show "length (if k > f then take f (drop o1 its) @ take (k - f) its else take f (drop o1 its)) =
    length (map (\<lambda>j. its ! ((o1 + j) mod N)) [0..<k])"
    using assms by auto
  fix j assume "j < length (if k > f then take f (drop o1 its) @ take (k - f) its else take f (drop o1 its))"
  then have j: "j < k" "j < N" using assms by (auto split: if_splits)
  show "(if k > f then take f (drop o1 its) @ take (k - f) its else take f (drop o1 its)) ! j =
    map (\<lambda>j. its ! ((o1 + j) mod N)) [0..<k] ! j"
    using j assms by (auto simp: circular_index [OF assms(2) j(2)] nth_append min_def)
qed

section \<open>The contents of a receive queue\<close>

definition rx_used :: "rx_queue \<Rightarrow> nat" where
  "rx_used q = unat (rq_tail q - rq_head q)"

definition rx_at :: "rx_queue \<Rightarrow> nat \<Rightarrow> rx_queue_item" where
  "rx_at q i = rq_items q ! ((unat (rq_head q) + i) mod unat (rq_capacity q))"

definition rx_list :: "rx_queue \<Rightarrow> rx_queue_item list" where
  "rx_list q = map (rx_at q) [0..<rx_used q]"

text \<open>Counters and slots agree while the capacity divides 2^32 or no wrap lies between head and tail.\<close>

definition rx_ok :: "rx_queue \<Rightarrow> bool" where
  "rx_ok q \<longleftrightarrow> 0 < rq_capacity q \<and> length (rq_items q) = unat (rq_capacity q) \<and>
     rx_used q \<le> unat (rq_capacity q) \<and>
     (unat (rq_capacity q) dvd 2 ^ 32 \<or> unat (rq_head q) \<le> unat (rq_tail q))"

definition rx_room :: "rx_queue \<Rightarrow> nat \<Rightarrow> bool" where
  "rx_room q k \<longleftrightarrow> unat (rq_capacity q) dvd 2 ^ 32 \<or> unat (rq_tail q) + k < 2 ^ 32"

lemma rx_okD:
  assumes "rx_ok q"
  shows "0 < unat (rq_capacity q)" "length (rq_items q) = unat (rq_capacity q)" "rx_used q \<le> unat (rq_capacity q)"
  using assms by (auto simp: rx_ok_def word_less_nat_alt)

lemma length_rx_list [simp]: "length (rx_list q) = rx_used q"
  by (simp add: rx_list_def)

lemma rx_list_empty: "rx_list q = [] \<longleftrightarrow> rq_tail q = rq_head q"
  by (metis length_0_conv length_rx_list rx_used_def unat_eq_zero eq_iff_diff_eq_0)

lemma counter_index:
  assumes "unat c dvd 2 ^ 32 \<or> unat a + i < 2 ^ 32"
  shows "unat (a + of_nat i :: u32) mod unat (c :: u32) = (unat a + i) mod unat c"
proof -
  have "unat (a + of_nat i) = (unat a + i) mod 2 ^ 32" by (simp add: unat_word_ariths unat_of_nat mod_simps)
  then show ?thesis using assms by (auto simp: mod_mod_cancel)
qed

lemma rx_used_nowrap:
  "unat (rq_head q) \<le> unat (rq_tail q) \<Longrightarrow> unat (rq_tail q) = unat (rq_head q) + rx_used q"
  by (simp add: rx_used_def unat_sub_le word_le_nat_alt)

lemma rx_tail: "rq_tail q = rq_head q + of_nat (rx_used q)"
  by (simp add: rx_used_def)

lemma rx_index:
  assumes "rx_ok q" "i \<le> rx_used q"
  shows "unat (rq_head q + of_nat i) mod unat (rq_capacity q) = (unat (rq_head q) + i) mod unat (rq_capacity q)"
proof (rule counter_index)
  have "unat (rq_tail q) < 2 ^ LENGTH(32)" by (rule unsigned_less)
  then show "unat (rq_capacity q) dvd 2 ^ 32 \<or> unat (rq_head q) + i < 2 ^ 32"
    using assms rx_used_nowrap [of q] by (auto simp: rx_ok_def)
qed

lemma rx_tail_index:
  assumes "rx_ok q"
  shows "unat (rq_tail q mod rq_capacity q) = (unat (rq_head q) + rx_used q) mod unat (rq_capacity q)"
  using rx_index [OF assms order_refl] rx_tail [of q] by (simp add: unat_mod)

lemma rx_write_at:
  assumes "rx_ok q" "rx_used q + length xs \<le> unat (rq_capacity q)"
  shows "length (rq_items (rx_write q xs)) = unat (rq_capacity q)"
    "j < length xs \<Longrightarrow> rx_at (rx_write q xs) (rx_used q + j) = xs ! j"
    "i < rx_used q \<Longrightarrow> rx_at (rx_write q xs) i = rx_at q i"
    "rq_capacity (rx_write q xs) = rq_capacity q" "rq_head (rx_write q xs) = rq_head q" "rq_tail (rx_write q xs) = rq_tail q"
proof -
  let ?N = "unat (rq_capacity q)" and ?k = "length xs" and ?H = "unat (rq_head q)" and ?u = "rx_used q"
  let ?o = "unat (rq_tail q mod rq_capacity q)"
  note ok = rx_okD [OF assms(1)]
  have "?N < 2 ^ LENGTH(32)" by (rule unsigned_less)
  then have kw: "unat (of_nat ?k :: u32) = ?k" using assms(2) by (simp add: unat_of_nat)
  have o: "?o = (?H + ?u) mod ?N" "?o < ?N" using rx_tail_index [OF assms(1)] ok(1) by simp_all
  define f where "f = min (?N - ?o) ?k"
  have fc: "unat (rq_capacity q - rq_tail q mod rq_capacity q) = ?N - ?o"
    using o(2) by (intro unat_sub_le) (simp add: word_le_nat_alt)
  define fw where "fw = (if rq_capacity q - rq_tail q mod rq_capacity q > of_nat ?k then of_nat ?k
    else rq_capacity q - rq_tail q mod rq_capacity q)"
  have fw: "unat fw = f" using fc kw by (auto simp: fw_def f_def word_less_nat_alt)
  define its1 where "its1 = copy_at ?o (take f xs) (rq_items q)"
  define its2 where "its2 = (if ?k > f then copy_at 0 (drop f xs) its1 else its1)"
  have "rq_items (rx_write q xs) = its2"
    unfolding rx_write_def Let_def fw_def [symmetric] its2_def its1_def by (simp add: word_less_nat_alt fw kw)
  note w = circular_write [OF ok(2) o(2) _ f_def its1_def its2_def, folded this]
  show "length (rq_items (rx_write q xs)) = ?N" using w(1) assms(2) by simp
  show same: "rq_capacity (rx_write q xs) = rq_capacity q" "rq_head (rx_write q xs) = rq_head q" "rq_tail (rx_write q xs) = rq_tail q"
    by (simp_all add: rx_write_def Let_def)
  have shift: "(?o + i) mod ?N = (?H + (?u + i)) mod ?N" for i by (simp add: o(1) mod_simps add.assoc)
  show "rx_at (rx_write q xs) (?u + j) = xs ! j" if "j < ?k"
    using w(2) [OF _ that] assms(2) by (simp add: rx_at_def same shift)
  show "rx_at (rx_write q xs) i = rx_at q i" if "i < ?u"
  proof -
    have "?k \<le> ?N - ?u + i" "?N - ?u + i < ?N" "?k \<le> ?N" using that assms(2) ok(3) by auto
    moreover have "?H + (?u + (?N - ?u + i)) = ?H + i + ?N" using ok(3) by linarith
    then have "(?H + (?u + (?N - ?u + i))) mod ?N = (?H + i) mod ?N" by (metis mod_add_self2)
    ultimately show ?thesis using w(3) [of "?N - ?u + i"] by (simp add: rx_at_def same shift)
  qed
qed

definition rx_publish :: "rx_queue \<Rightarrow> rx_queue_item list \<Rightarrow> rx_queue" where
  "rx_publish q xs = (rx_write q xs)\<lparr>rq_tail := rq_tail q + of_nat (length xs)\<rparr>"

definition rx_consume :: "rx_queue \<Rightarrow> nat \<Rightarrow> rx_queue" where
  "rx_consume q k = q\<lparr>rq_head := rq_head q + of_nat k\<rparr>"

lemma rx_advance_tail:
  assumes "rx_used q + k \<le> unat (rq_capacity q)"
  shows "unat (rq_tail q + of_nat k - rq_head q) = rx_used q + k"
proof -
  have "unat (rq_capacity q) < 2 ^ LENGTH(32)" by (rule unsigned_less)
  then have "unat (of_nat k :: u32) = k" "rx_used q + k < 2 ^ 32" using assms by (simp_all add: unat_of_nat)
  moreover define w where "w = rq_tail q - rq_head q"
  ultimately have "unat (w + of_nat k) = rx_used q + k" by (simp add: unat_word_ariths rx_used_def)
  moreover have "rq_tail q + of_nat k - rq_head q = w + of_nat k" by (simp add: w_def)
  ultimately show ?thesis by (simp only:)
qed

lemma rx_publish_spec:
  assumes "rx_ok q" "rx_used q + length xs \<le> unat (rq_capacity q)" "rx_room q (length xs)"
  shows "rx_ok (rx_publish q xs)" "rx_list (rx_publish q xs) = rx_list q @ xs"
    "rq_capacity (rx_publish q xs) = rq_capacity q" "rq_head (rx_publish q xs) = rq_head q"
proof -
  note w = rx_write_at [OF assms(1,2)]
  show cap: "rq_capacity (rx_publish q xs) = rq_capacity q" "rq_head (rx_publish q xs) = rq_head q"
    by (simp_all add: rx_publish_def w(4,5))
  have used: "rx_used (rx_publish q xs) = rx_used q + length xs"
    unfolding rx_advance_tail [OF assms(2), symmetric] rx_used_def [of "rx_publish q xs"] cap(2)
    by (simp add: rx_publish_def)
  have "unat (rq_head q) \<le> unat (rq_tail q + of_nat (length xs))"
    if "\<not> unat (rq_capacity q) dvd 2 ^ 32"
  proof -
    have "unat (rq_tail q + of_nat (length xs)) = unat (rq_tail q) + length xs"
      using that assms(3) by (simp add: rx_room_def unat_word_ariths unat_of_nat)
    then show ?thesis using that assms(1) by (simp add: rx_ok_def)
  qed
  then show "rx_ok (rx_publish q xs)"
    using assms(1,2) w(1) used unfolding rx_ok_def cap used by (auto simp: rx_publish_def)
  have at: "rx_at (rx_publish q xs) = rx_at (rx_write q xs)" by (simp add: rx_at_def rx_publish_def fun_eq_iff)
  show "rx_list (rx_publish q xs) = rx_list q @ xs"
  proof (rule nth_equalityI)
    fix i assume "i < length (rx_list (rx_publish q xs))"
    then have i: "i < rx_used q + length xs" by (simp add: used)
    show "rx_list (rx_publish q xs) ! i = (rx_list q @ xs) ! i"
      using i w(2) [of "i - rx_used q"] w(3) [of i] by (cases "i < rx_used q") (simp_all add: rx_list_def used at nth_append)
  qed (simp add: used)
qed

lemma rx_consume_spec:
  assumes "rx_ok q" "k \<le> rx_used q"
  shows "rx_ok (rx_consume q k)" "rx_list (rx_consume q k) = drop k (rx_list q)"
    "rx_used (rx_consume q k) = rx_used q - k"
    "rq_capacity (rx_consume q k) = rq_capacity q" "rx_read q (of_nat k) = take k (rx_list q)"
    "\<And>i. rx_at (rx_consume q k) i = rx_at q (k + i)"
proof -
  let ?N = "unat (rq_capacity q)" and ?H = "unat (rq_head q)"
  note ok = rx_okD [OF assms(1)]
  show cap: "rq_capacity (rx_consume q k) = rq_capacity q" by (simp add: rx_consume_def)
  have "?N < 2 ^ LENGTH(32)" by (rule unsigned_less)
  then have kw: "unat (of_nat k :: u32) = k" using assms(2) ok(3) by (simp add: unat_of_nat)
  have eq: "rq_tail q - (rq_head q + of_nat k) = (rq_tail q - rq_head q) - of_nat k" by simp
  have "(of_nat k :: u32) \<le> rq_tail q - rq_head q"
    using kw assms(2) by (simp add: word_le_nat_alt rx_used_def)
  then have "unat ((rq_tail q - rq_head q) - of_nat k) = rx_used q - k"
    using kw unat_sub_le by (metis rx_used_def)
  then have used: "rx_used (rx_consume q k) = rx_used q - k"
    unfolding eq [symmetric] rx_used_def [of "rx_consume q k"] by (simp add: rx_consume_def)
  then show "rx_used (rx_consume q k) = rx_used q - k" .
  have nowrap: "unat (rq_head q + of_nat k) = ?H + k" if "?H \<le> unat (rq_tail q)"
  proof -
    have "unat (rq_tail q) < 2 ^ LENGTH(32)" by (rule unsigned_less)
    then have "?H + k < 2 ^ 32" using rx_used_nowrap [OF that] assms(2) by simp
    then show ?thesis by (simp add: unat_word_ariths kw)
  qed
  have "?H \<le> unat (rq_tail q) \<Longrightarrow> unat (rq_head q + of_nat k) \<le> unat (rq_tail q)"
    using nowrap rx_used_nowrap [of q] assms(2) by simp
  then show "rx_ok (rx_consume q k)"
    using assms(1) ok(3) unfolding rx_ok_def cap used by (auto simp: rx_consume_def)
  show at: "rx_at (rx_consume q k) i = rx_at q (k + i)" for i
  proof -
    have "(unat (rq_head q + of_nat k) + i) mod ?N = (unat (rq_head q + of_nat k) mod ?N + i) mod ?N"
      by (simp add: mod_simps)
    also have "\<dots> = (?H + (k + i)) mod ?N"
      unfolding rx_index [OF assms] by (simp add: mod_simps add.assoc)
    finally show ?thesis by (simp add: rx_at_def rx_consume_def)
  qed
  show "rx_list (rx_consume q k) = drop k (rx_list q)"
    by (rule nth_equalityI) (simp_all add: rx_list_def used at)
  let ?o = "unat (rq_head q mod rq_capacity q)"
  have o: "?o = ?H mod ?N" "?o < ?N" using ok(1) by (simp_all add: unat_mod)
  define f where "f = min (?N - ?o) k"
  define fw where "fw = (if rq_capacity q - rq_head q mod rq_capacity q > of_nat k then of_nat k
    else rq_capacity q - rq_head q mod rq_capacity q)"
  have "unat (rq_capacity q - rq_head q mod rq_capacity q) = ?N - ?o"
    using o(2) by (intro unat_sub_le) (simp add: word_le_nat_alt)
  then have fw: "unat fw = f" using kw by (auto simp: fw_def f_def word_less_nat_alt)
  have gt: "of_nat k > fw \<longleftrightarrow> k > f" by (simp add: word_less_nat_alt fw kw)
  have "unat (of_nat k - fw) = k - f" using fw kw by (subst unat_sub_le) (auto simp: word_le_nat_alt f_def)
  then have "rx_read q (of_nat k) = map (\<lambda>j. rq_items q ! ((?o + j) mod ?N)) [0..<k]"
    using circular_read [OF ok(2) o(2) _ f_def] assms(2) ok(3)
    unfolding rx_read_def Let_def fw_def [symmetric] gt fw by (simp split: if_splits)
  also have "\<dots> = take k (rx_list q)"
    using assms(2) by (intro nth_equalityI) (simp_all add: rx_list_def rx_at_def o(1) mod_simps)
  finally show "rx_read q (of_nat k) = take k (rx_list q)" .
qed

lemma rx_push_count_unat:
  assumes "unat (rq_tail q - head) \<le> unat (rq_capacity q)"
  shows "unat (rx_push_count q head c) = min (unat c) (unat (rq_capacity q) - unat (rq_tail q - head))"
  using assms by (auto simp: rx_push_count_def Let_def word_le_nat_alt word_less_nat_alt unat_sub_le)

lemma rx_pop_count_unat: "unat (rx_pop_count q tail c) = min (unat c) (unat (tail - rq_head q))"
  by (auto simp: rx_pop_count_def Let_def word_less_nat_alt)

section \<open>Push and pop as list operations\<close>

lemma rx_publish_nil: "rx_publish q [] = q"
  by (cases q) (auto simp: rx_publish_def rx_write_def Let_def copy_at_def)

lemma rx_consume_0: "rx_consume q 0 = q"
  by (simp add: rx_consume_def)

lemma word_of_unat: "unat (w :: u32) = k \<Longrightarrow> w = of_nat k"
  by auto

lemma of_nat_zero: "unat (of_nat k :: u32) = k \<Longrightarrow> (of_nat k :: u32) = 0 \<longleftrightarrow> k = 0"
proof
  assume k: "unat (of_nat k :: u32) = k" and "(of_nat k :: u32) = 0"
  then have "unat (of_nat k :: u32) = unat (0 :: u32)" by (simp only:)
  then show "k = 0" unfolding k by simp
qed simp

lemma push_batch_spec:
  assumes "rx_ok q" "length xs < 2 ^ 32" "k = min (length xs) (unat (rq_capacity q) - rx_used q)"
  shows "linkg_wifi_rx_queue_push_batch (Some q) (Some xs) (of_nat (length xs)) =
      (of_nat k, Some (rx_publish q (take k xs)))"
    "linkg_cellular_rx_queue_push_batch (Some q) (Some xs) (of_nat (length xs)) =
      (of_nat k, Some (rx_publish q (take k xs)))"
proof -
  have len: "unat (of_nat (length xs) :: u32) = length xs" using assms(2) by (simp add: unat_of_nat)
  have pc: "unat (rx_push_count q (rq_head q) (of_nat (length xs))) = k"
    using rx_push_count_unat [of q "rq_head q" "of_nat (length xs)"] rx_okD(3) [OF assms(1)] len assms(3)
    by (simp add: rx_used_def)
  note pcw = word_of_unat [OF pc]
  have kw: "unat (of_nat k :: u32) = k" using pc pcw by simp
  have k: "length (take k xs) = k" using assms(3) by simp
  have tail: "rq_tail (rx_write q ys) = rq_tail q" for ys by (simp add: rx_write_def Let_def)
  have zero: "(of_nat k :: u32) = 0 \<longleftrightarrow> k = 0" "(of_nat (length xs) :: u32) = 0 \<longleftrightarrow> xs = []"
    using of_nat_zero [OF kw] of_nat_zero [OF len] by simp_all
  have q: "rx_publish q (take k xs) = (rx_write q (take k xs))\<lparr>rq_tail := rq_tail (rx_write q (take k xs)) + of_nat k\<rparr>"
    unfolding rx_publish_def k tail ..
  have "k = 0" if "xs = []" using that assms(3) by simp
  then show "linkg_wifi_rx_queue_push_batch (Some q) (Some xs) (of_nat (length xs)) =
      (of_nat k, Some (rx_publish q (take k xs)))"
    "linkg_cellular_rx_queue_push_batch (Some q) (Some xs) (of_nat (length xs)) =
      (of_nat k, Some (rx_publish q (take k xs)))"
    unfolding linkg_wifi_rx_queue_push_batch_def linkg_cellular_rx_queue_push_batch_def Let_def option.case prod.case
      pcw zero kw q [symmetric]
    by (simp_all add: rx_publish_nil)
qed

lemma pop_batch_spec:
  assumes "rx_ok q" "k = min (unat c) (rx_used q)"
  shows "linkg_wifi_rx_queue_pop_batch (Some q) True c = (take k (rx_list q), Some (rx_consume q k))"
    "linkg_cellular_rx_queue_pop_batch (Some q) True c = (take k (rx_list q), Some (rx_consume q k))"
proof -
  have pc: "unat (rx_pop_count q (rq_tail q) c) = k" using assms(2) by (simp add: rx_pop_count_unat rx_used_def)
  note pcw = word_of_unat [OF pc]
  have kw: "unat (of_nat k :: u32) = k" using pc pcw by simp
  have zero: "(of_nat k :: u32) = 0 \<longleftrightarrow> k = 0" using kw by (rule of_nat_zero)
  have "k = 0" if "c = 0" using that assms(2) by simp
  moreover have "rx_read q (of_nat k) = take k (rx_list q)" using assms by (intro rx_consume_spec(5)) simp_all
  ultimately show "linkg_wifi_rx_queue_pop_batch (Some q) True c = (take k (rx_list q), Some (rx_consume q k))"
    "linkg_cellular_rx_queue_pop_batch (Some q) True c = (take k (rx_list q), Some (rx_consume q k))"
    unfolding linkg_wifi_rx_queue_pop_batch_def linkg_cellular_rx_queue_pop_batch_def Let_def option.case pcw zero
      rx_consume_def [symmetric]
    by (simp_all add: rx_consume_0)
qed

text \<open>One item at a time, the receive queues are bounded FIFOs.\<close>

interpretation rxq: fifo "\<lambda>x q. the (snd (linkg_wifi_rx_queue_push_batch (Some q) (Some [x]) 1))"
  "\<lambda>q. the (snd (linkg_wifi_rx_queue_pop_batch (Some q) True 1))"
  "\<lambda>q. hd (fst (linkg_wifi_rx_queue_pop_batch (Some q) True 1))"
  "\<lambda>q. unat (rq_capacity q)" rx_list "\<lambda>q. rx_ok q \<and> unat (rq_capacity q) dvd 2 ^ 32"
proof
  fix q :: rx_queue and x :: rx_queue_item
  assume ok: "rx_ok q \<and> unat (rq_capacity q) dvd 2 ^ 32"
  then have room: "rx_room q (length [x])" by (simp add: rx_room_def)
  {
    assume less: "length (rx_list q) < unat (rq_capacity q)"
    then have "1 = min (length [x]) (unat (rq_capacity q) - rx_used q)" by simp
    from push_batch_spec(1) [of q "[x]", OF _ _ this] ok
    have push: "linkg_wifi_rx_queue_push_batch (Some q) (Some [x]) 1 = (1, Some (rx_publish q [x]))" by simp
    note p = rx_publish_spec [of q "[x]", OF _ _ room]
    show "rx_ok (the (snd (linkg_wifi_rx_queue_push_batch (Some q) (Some [x]) 1))) \<and>
      unat (rq_capacity (the (snd (linkg_wifi_rx_queue_push_batch (Some q) (Some [x]) 1)))) dvd 2 ^ 32"
      "rx_list (the (snd (linkg_wifi_rx_queue_push_batch (Some q) (Some [x]) 1))) = rx_list q @ [x]"
      "unat (rq_capacity (the (snd (linkg_wifi_rx_queue_push_batch (Some q) (Some [x]) 1)))) = unat (rq_capacity q)"
      using p ok less by (simp_all add: push)
  }
  {
    assume "rx_list q \<noteq> []"
    then have "1 \<le> rx_used q" by (metis length_rx_list length_0_conv less_one not_le)
    then have "1 = min (unat (1 :: u32)) (rx_used q)" by simp
    from pop_batch_spec(1) [of q, OF _ this] ok
    have pop: "linkg_wifi_rx_queue_pop_batch (Some q) True 1 = (take 1 (rx_list q), Some (rx_consume q 1))" by simp
    note c = rx_consume_spec [of q 1, OF _ \<open>1 \<le> rx_used q\<close>]
    show "rx_ok (the (snd (linkg_wifi_rx_queue_pop_batch (Some q) True 1))) \<and>
      unat (rq_capacity (the (snd (linkg_wifi_rx_queue_pop_batch (Some q) True 1)))) dvd 2 ^ 32"
      "rx_list (the (snd (linkg_wifi_rx_queue_pop_batch (Some q) True 1))) = tl (rx_list q)"
      "unat (rq_capacity (the (snd (linkg_wifi_rx_queue_pop_batch (Some q) True 1)))) = unat (rq_capacity q)"
      "hd (fst (linkg_wifi_rx_queue_pop_batch (Some q) True 1)) = hd (rx_list q)"
      using c ok \<open>rx_list q \<noteq> []\<close> by (simp_all add: pop drop_Suc hd_take)
  }
  show "length (rx_list q) \<le> unat (rq_capacity q)" using ok rx_okD(3) by simp
qed

text \<open>Clearing walks the same slots.\<close>

lemma rx_clear_loop_spec:
  assumes "rx_ok q" "i \<le> rx_used q"
  shows "rx_clear_loop q (rq_head q + of_nat i) (rq_tail q) h =
    fold linkg_packet_release (map ri_packet (drop i (rx_list q))) h"
  using assms(2)
proof (induction "rx_used q - i" arbitrary: i h)
  case 0
  then have "rq_head q + of_nat i = rq_tail q" using rx_tail [of q] by simp
  then show ?case using 0 by (subst rx_clear_loop.simps) simp
next
  case (Suc n)
  then have i: "i < rx_used q" by simp
  have "rq_head q + of_nat i \<noteq> rq_tail q"
  proof
    assume "rq_head q + of_nat i = rq_tail q"
    then have "unat (of_nat i :: u32) = rx_used q" unfolding rx_used_def by (metis add_diff_cancel_left')
    moreover have "rx_used q < 2 ^ LENGTH(32)" unfolding rx_used_def by (rule unsigned_less)
    then have "unat (of_nat i :: u32) = i" using i by (simp add: unat_of_nat)
    ultimately show False using i by simp
  qed
  moreover have "rq_items q ! unat ((rq_head q + of_nat i) mod rq_capacity q) = rx_list q ! i"
    using rx_index [OF assms(1), of i] i by (simp add: unat_mod rx_list_def rx_at_def)
  moreover have "drop i (rx_list q) = rx_list q ! i # drop (Suc i) (rx_list q)" using i by (simp add: Cons_nth_drop_Suc)
  moreover have "rq_head q + of_nat i + 1 = rq_head q + of_nat (Suc i)" by simp
  moreover have "rx_clear_loop q (rq_head q + of_nat (Suc i)) (rq_tail q) g =
    fold linkg_packet_release (map ri_packet (drop (Suc i) (rx_list q))) g" for g
    using Suc.hyps(2) i by (intro Suc.hyps(1)) simp_all
  ultimately show ?case
    by (subst rx_clear_loop.simps) (simp only: if_False list.map fold_Cons o_apply)
qed

lemma rx_clear_releases:
  assumes "rx_ok q" "heap_ok h" "\<forall>p. count_list (map ri_packet (rx_list q)) (Some p) \<le> refs h p"
  shows "\<exists>q'. linkg_wifi_rx_queue_clear (Some q) h = (Some q', fold linkg_packet_release (map ri_packet (rx_list q)) h) \<and>
    linkg_cellular_rx_queue_clear (Some q) h = (Some q', fold linkg_packet_release (map ri_packet (rx_list q)) h) \<and>
    rx_ok q' \<and> rx_list q' = []"
    "heap_ok (fold linkg_packet_release (map ri_packet (rx_list q)) h)"
    "refs (fold linkg_packet_release (map ri_packet (rx_list q)) h) p =
       refs h p - count_list (map ri_packet (rx_list q)) (Some p)"
proof -
  have "rx_clear_loop q (rq_head q) (rq_tail q) h = fold linkg_packet_release (map ri_packet (rx_list q)) h"
    using rx_clear_loop_spec [OF assms(1), of 0] by simp
  then show "\<exists>q'. linkg_wifi_rx_queue_clear (Some q) h = (Some q', fold linkg_packet_release (map ri_packet (rx_list q)) h) \<and>
    linkg_cellular_rx_queue_clear (Some q) h = (Some q', fold linkg_packet_release (map ri_packet (rx_list q)) h) \<and>
    rx_ok q' \<and> rx_list q' = []"
    using assms(1) by (simp add: linkg_wifi_rx_queue_clear_def linkg_cellular_rx_queue_clear_def rx_ok_def rx_used_def rx_list_def)
  show "heap_ok (fold linkg_packet_release (map ri_packet (rx_list q)) h)"
    "refs (fold linkg_packet_release (map ri_packet (rx_list q)) h) p =
       refs h p - count_list (map ri_packet (rx_list q)) (Some p)"
    using pkt.release_all [OF assms(2), of "List.map_filter id (map ri_packet (rx_list q))"] assms(3)
    by (simp_all add: fold_release_somes count_list_somes)
qed

text \<open>
  A receive queue whose counters have not outrun its slots is a bounded FIFO for batches, in both modules:
  a push appends the longest prefix of the batch that fits and reports its length, a pop returns and removes
  the first items in order, as many as asked for and present.
\<close>

theorem rx_queue_fifo:
  assumes "rx_ok q" "rx_room q (length xs)" "length xs < 2 ^ 32"
    and "k = min (length xs) (unat (rq_capacity q) - length (rx_list q))" "m = min (unat c) (length (rx_list q))"
  shows "(\<exists>q'. linkg_wifi_rx_queue_push_batch (Some q) (Some xs) (of_nat (length xs)) = (of_nat k, Some q') \<and>
      linkg_cellular_rx_queue_push_batch (Some q) (Some xs) (of_nat (length xs)) = (of_nat k, Some q') \<and>
      rx_ok q' \<and> rx_list q' = rx_list q @ take k xs) \<and>
    (\<exists>q'. linkg_wifi_rx_queue_pop_batch (Some q) True c = (take m (rx_list q), Some q') \<and>
      linkg_cellular_rx_queue_pop_batch (Some q) True c = (take m (rx_list q), Some q') \<and>
      rx_ok q' \<and> rx_list q' = drop m (rx_list q))"
proof -
  have k: "k = min (length xs) (unat (rq_capacity q) - rx_used q)" and m: "m = min (unat c) (rx_used q)"
    using assms(4,5) by simp_all
  have "rx_used q + length (take k xs) \<le> unat (rq_capacity q)" using k rx_okD(3) [OF assms(1)] by simp
  moreover have "rx_room q (length (take k xs))" using assms(2) by (auto simp: rx_room_def)
  ultimately show ?thesis
    using push_batch_spec [OF assms(1,3) k] rx_publish_spec [OF assms(1), of "take k xs"]
      pop_batch_spec [OF assms(1) m] rx_consume_spec [OF assms(1), of m] m
    by simp
qed

definition wrapping_queue :: rx_queue where
  "wrapping_queue = \<lparr>rq_items = \<lparr>ri_packet = Some 900, ri_source = endpoint_zero\<rparr> # replicate 159 rx_item_zero,
     rq_capacity = 160, rq_head = - 1, rq_tail = - 1\<rparr>"


section \<open>Producer and consumer interleaved\<close>

text \<open>
  The producer loads \<open>head\<close>, copies its items into free slots and stores \<open>tail\<close>; the consumer loads
  \<open>tail\<close>, copies items out and stores \<open>head\<close>. Each of these is one step, so that each side may work with a
  value of the other's counter that has become old. The logs record what was published and consumed.
\<close>

datatype rx_producer = P_Idle | P_Loaded u32 "rx_queue_item list" | P_Written "rx_queue_item list"

datatype rx_consumer = C_Idle | C_Loaded u32 u32 | C_Read "rx_queue_item list"

record rx_run =
  rr_queue :: rx_queue
  rr_producer :: rx_producer
  rr_consumer :: rx_consumer
  rr_pushed :: "rx_queue_item list"
  rr_popped :: "rx_queue_item list"

inductive rx_step :: "rx_run \<Rightarrow> rx_run \<Rightarrow> bool" where
  p_load: "rr_producer r = P_Idle \<Longrightarrow> length xs < 2 ^ 32 \<Longrightarrow>
    rx_step r (r\<lparr>rr_producer := P_Loaded (rq_head (rr_queue r)) xs\<rparr>)"
| p_write: "rr_producer r = P_Loaded head xs \<Longrightarrow>
    ys = take (unat (rx_push_count (rr_queue r) head (of_nat (length xs)))) xs \<Longrightarrow>
    rx_step r (r\<lparr>rr_queue := rx_write (rr_queue r) ys, rr_producer := P_Written ys\<rparr>)"
| p_publish: "rr_producer r = P_Written ys \<Longrightarrow>
    rx_step r (r\<lparr>rr_queue := (rr_queue r)\<lparr>rq_tail := rq_tail (rr_queue r) + of_nat (length ys)\<rparr>,
      rr_producer := P_Idle, rr_pushed := rr_pushed r @ ys\<rparr>)"
| c_load: "rr_consumer r = C_Idle \<Longrightarrow>
    rx_step r (r\<lparr>rr_consumer := C_Loaded (rq_tail (rr_queue r)) capacity\<rparr>)"
| c_read: "rr_consumer r = C_Loaded tail capacity \<Longrightarrow>
    rx_step r (r\<lparr>rr_consumer := C_Read (rx_read (rr_queue r) (rx_pop_count (rr_queue r) tail capacity))\<rparr>)"
| c_publish: "rr_consumer r = C_Read ys \<Longrightarrow>
    rx_step r (r\<lparr>rr_queue := rx_consume (rr_queue r) (length ys), rr_consumer := C_Idle,
      rr_popped := rr_popped r @ ys\<rparr>)"

definition rx_run_start :: "rx_queue \<Rightarrow> rx_run" where
  "rx_run_start q = \<lparr>rr_queue = q, rr_producer = P_Idle, rr_consumer = C_Idle, rr_pushed = [], rr_popped = []\<rparr>"

definition producer_inv :: "rx_queue \<Rightarrow> rx_producer \<Rightarrow> bool" where
  "producer_inv q pc =
     (case pc of
        P_Idle \<Rightarrow> True
      | P_Loaded head xs \<Rightarrow> rx_used q \<le> unat (rq_tail q - head) \<and>
          unat (rq_tail q - head) \<le> unat (rq_capacity q) \<and> length xs < 2 ^ 32
      | P_Written ys \<Rightarrow> rx_used q + length ys \<le> unat (rq_capacity q) \<and>
          (\<forall>j<length ys. rx_at q (rx_used q + j) = ys ! j))"

definition consumer_inv :: "rx_queue \<Rightarrow> rx_consumer \<Rightarrow> bool" where
  "consumer_inv q pc =
     (case pc of
        C_Idle \<Rightarrow> True
      | C_Loaded tail c \<Rightarrow> unat (tail - rq_head q) \<le> rx_used q
      | C_Read ys \<Rightarrow> ys = take (length ys) (rx_list q) \<and> length ys \<le> rx_used q)"

definition rx_run_inv :: "rx_run \<Rightarrow> bool" where
  "rx_run_inv r \<longleftrightarrow> rx_ok (rr_queue r) \<and> unat (rq_capacity (rr_queue r)) dvd 2 ^ 32 \<and>
     rr_pushed r = rr_popped r @ rx_list (rr_queue r) \<and>
     producer_inv (rr_queue r) (rr_producer r) \<and> consumer_inv (rr_queue r) (rr_consumer r)"

lemma rx_write_frame:
  assumes "rx_ok q" "rx_used q + length ys \<le> unat (rq_capacity q)"
  shows "rx_used (rx_write q ys) = rx_used q" "rx_list (rx_write q ys) = rx_list q" "rx_ok (rx_write q ys)"
proof -
  note w = rx_write_at [OF assms]
  show used: "rx_used (rx_write q ys) = rx_used q" by (simp add: rx_used_def w(4-6))
  show "rx_list (rx_write q ys) = rx_list q" using w(3) by (auto simp: rx_list_def used)
  show "rx_ok (rx_write q ys)" using assms(1) unfolding rx_ok_def used w(1,4-6) by simp
qed

lemma rx_grow:
  assumes "rx_ok q" "rx_used q + k \<le> unat (rq_capacity q)" "unat (rq_capacity q) dvd 2 ^ 32"
    and "q' = q\<lparr>rq_tail := rq_tail q + of_nat k\<rparr>"
  shows "rx_ok q'" "rx_used q' = rx_used q + k" "rx_at q' = rx_at q"
    "rx_list q' = rx_list q @ map (rx_at q) [rx_used q..<rx_used q + k]"
proof -
  show used: "rx_used q' = rx_used q + k"
    using rx_advance_tail [OF assms(2)] unfolding rx_used_def [of q'] by (simp add: assms(4))
  show at: "rx_at q' = rx_at q" by (simp add: rx_at_def assms(4) fun_eq_iff)
  show "rx_ok q'" using assms(1-3) unfolding rx_ok_def used by (simp add: assms(4))
  show "rx_list q' = rx_list q @ map (rx_at q) [rx_used q..<rx_used q + k]"
    unfolding rx_list_def used at upt_add_eq_append [of 0 "rx_used q" k, OF le0] by simp
qed

lemma rx_step_inv:
  assumes "rx_step r r'" "rx_run_inv r"
  shows "rx_run_inv r'"
proof -
  let ?q = "rr_queue r" and ?N = "unat (rq_capacity (rr_queue r))"
  have inv: "rx_ok ?q" "?N dvd 2 ^ 32" "rr_pushed r = rr_popped r @ rx_list ?q"
    "producer_inv ?q (rr_producer r)" "consumer_inv ?q (rr_consumer r)"
    using assms(2) by (auto simp: rx_run_inv_def)
  note ok = rx_okD [OF inv(1)]
  from assms(1) show ?thesis
  proof cases
    case (p_load xs)
    then show ?thesis using inv ok by (simp add: rx_run_inv_def producer_inv_def rx_used_def)
  next
    case (p_write head xs ys)
    have p: "rx_used ?q \<le> unat (rq_tail ?q - head)" "unat (rq_tail ?q - head) \<le> ?N"
      using inv(4) p_write by (auto simp: producer_inv_def)
    have "length ys \<le> ?N - unat (rq_tail ?q - head)" using rx_push_count_unat [OF p(2)] by (simp add: p_write)
    then have fit: "rx_used ?q + length ys \<le> ?N" using p by linarith
    note f = rx_write_frame [OF inv(1) fit] and w = rx_write_at [OF inv(1) fit]
    have "consumer_inv (rx_write ?q ys) (rr_consumer r)"
      using inv(5) by (simp add: consumer_inv_def f w(4-6) split: rx_consumer.splits)
    moreover have "producer_inv (rx_write ?q ys) (P_Written ys)"
      using fit w(2) by (simp add: producer_inv_def f w(4))
    ultimately show ?thesis using p_write inv(2,3) f w(4) by (simp add: rx_run_inv_def)
  next
    case (p_publish ys)
    have p: "rx_used ?q + length ys \<le> ?N" "\<forall>j<length ys. rx_at ?q (rx_used ?q + j) = ys ! j"
      using inv(4) p_publish by (auto simp: producer_inv_def)
    let ?q' = "?q\<lparr>rq_tail := rq_tail ?q + of_nat (length ys)\<rparr>"
    note g = rx_grow [OF inv(1) p(1) inv(2) refl]
    have "map (rx_at ?q) [rx_used ?q..<rx_used ?q + length ys] = ys"
      using p(2) by (intro nth_equalityI) simp_all
    then have l: "rx_list ?q' = rx_list ?q @ ys" using g(4) by simp
    have "consumer_inv ?q' (rr_consumer r)"
      using inv(5) g(2) l by (auto simp: consumer_inv_def split: rx_consumer.splits)
    then show ?thesis using p_publish inv(2,3) g(1) l by (simp add: rx_run_inv_def producer_inv_def)
  next
    case (c_load capacity)
    then show ?thesis using inv by (simp add: rx_run_inv_def consumer_inv_def rx_used_def)
  next
    case (c_read tail capacity)
    let ?k = "unat (rx_pop_count ?q tail capacity)"
    have k: "?k \<le> rx_used ?q" using inv(5) c_read by (simp add: consumer_inv_def rx_pop_count_unat)
    have "rx_read ?q (rx_pop_count ?q tail capacity) = take ?k (rx_list ?q)"
      using rx_consume_spec(5) [OF inv(1) k] by simp
    then show ?thesis using c_read inv k by (simp add: rx_run_inv_def consumer_inv_def min_def)
  next
    case (c_publish ys)
    have c: "ys = take (length ys) (rx_list ?q)" "length ys \<le> rx_used ?q"
      using inv(5) c_publish by (auto simp: consumer_inv_def)
    note s = rx_consume_spec [OF inv(1) c(2)]
    have "producer_inv (rx_consume ?q (length ys)) (rr_producer r)"
      using inv(4) c(2) by (auto simp: producer_inv_def s rx_consume_def [THEN arg_cong [of _ _ rq_tail], simplified]
          split: rx_producer.splits)
    moreover have "rx_list ?q = ys @ drop (length ys) (rx_list ?q)" using c(1) by (metis append_take_drop_id)
    ultimately show ?thesis using c_publish inv(2,3) s(1,2,4) by (simp add: rx_run_inv_def consumer_inv_def)
  qed
qed


section \<open>A concrete queue\<close>

definition sample_rx :: rx_queue where
  "sample_rx = the (linkg_wifi_rx_queue_create 4 True True)"

lemma sample_rx_create: "linkg_wifi_rx_queue_create 4 True True = Some sample_rx"
  by (simp add: sample_rx_def linkg_wifi_rx_queue_create_def)

lemma sample_rx_facts: "rx_ok sample_rx" "rx_list sample_rx = []" "rq_capacity sample_rx = 4" "rx_room sample_rx n"
  by (simp_all add: sample_rx_def linkg_wifi_rx_queue_create_def rx_ok_def rx_used_def rx_list_def rx_room_def)

definition sample_rx_item :: "nat \<Rightarrow> rx_queue_item" where
  "sample_rx_item p = \<lparr>ri_packet = Some p, ri_source = endpoint_zero\<rparr>"

theorem rx_queue_fifo_witness:
  "\<exists>q'. linkg_wifi_rx_queue_push_batch (Some sample_rx) (Some (map sample_rx_item [1, 2, 3, 4, 5])) 5 =
      (of_nat 4, Some q') \<and> rx_list q' = map sample_rx_item [1, 2, 3, 4]"
  using rx_queue_fifo [OF sample_rx_facts(1,4) _ refl refl, of "map sample_rx_item [1, 2, 3, 4, 5]" 0]
  by (auto simp: sample_rx_facts)


end
